(* ===== verification/Prelude.thy ===== *)
theory Prelude imports Main "HOL-Library.Char_ord" "HOL-Library.List_Lexorder" "HOL-Library.Multiset" "HOL-Library.Code_Target_Nat" begin

text \<open>
  The vocabulary every theory of the development shares: the names of the machine's types, the
  collections of facts the component proofs draw on, and Go's three-way comparison with the two
  routines of package slices built on it (SortFunc and CompactFunc).

  A Go string is its bytes, so it is a list of characters, one per byte. The order on strings is
  the one of strings.Compare: by byte, the shorter first (HOL-Library.Char_ord and List_Lexorder).
\<close>

section \<open>Types and collections of facts\<close>

type_synonym rune = nat
type_synonym claim_key = string

text \<open>Facts on well-formed values, on membership and on rendering, filled by the components.\<close>

named_theorems wf_intros
named_theorems contains_simps
named_theorems render_simps

section \<open>Three-way comparison\<close>

text \<open>cmp.Compare and strings.Compare: negative, zero or positive.\<close>

definition go_compare :: "'a::linorder \<Rightarrow> 'a \<Rightarrow> int" where
  "go_compare x y = (if x < y then - 1 else if y < x then 1 else 0)"

text \<open>cmp.Or: the first result that is not zero.\<close>

fun cmp_or :: "int list \<Rightarrow> int" where
  "cmp_or [] = 0"
| "cmp_or (c # cs) = (if c \<noteq> 0 then c else cmp_or cs)"

text \<open>
  What slices.SortFunc asks of its comparison: a total preorder. The operations that sort promise
  nothing without it.
\<close>

locale comparison =
  fixes compare :: "'a \<Rightarrow> 'a \<Rightarrow> int"
  assumes compare_swap: "compare y x = - compare x y"
    and compare_trans: "compare x y \<le> 0 \<Longrightarrow> compare y z \<le> 0 \<Longrightarrow> compare x z \<le> 0"
begin

lemma compare_refl [simp]: "compare x x = 0"
  using compare_swap [of x x] by simp

lemma compare_total: "compare x y \<le> 0 \<or> compare y x \<le> 0"
  using compare_swap [of x y] by linarith

lemma compare_strict_trans:
  assumes "compare x y < 0" and "compare y z \<le> 0"
  shows "compare x z < 0"
proof (rule ccontr)
  assume "\<not> compare x z < 0"
  then have "compare z x \<le> 0" using compare_swap [of z x] by simp
  with assms(2) have "compare y x \<le> 0" by (rule compare_trans)
  with assms(1) show False using compare_swap [of x y] by simp
qed

lemma compare_trans_strict:
  assumes "compare x y \<le> 0" and "compare y z < 0"
  shows "compare x z < 0"
proof (rule ccontr)
  assume "\<not> compare x z < 0"
  then have "compare z x \<le> 0" using compare_swap [of z x] by simp
  then have "compare z y \<le> 0" using assms(1) by (rule compare_trans)
  with assms(2) show False using compare_swap [of y z] by simp
qed

lemma compare_zero_trans: "compare x y = 0 \<Longrightarrow> compare y z = 0 \<Longrightarrow> compare x z = 0"
proof -
  assume a: "compare x y = 0" "compare y z = 0"
  then have "compare x z \<le> 0" by (intro compare_trans [of x y z]) auto
  moreover have "compare z x \<le> 0"
    using a compare_swap [of x y] compare_swap [of y z] by (intro compare_trans [of z y x]) auto
  ultimately show ?thesis using compare_swap [of x z] by simp
qed

end

text \<open>A comparison under which only equal values compare equal, as the sort's callers claim.\<close>

locale total_comparison = comparison +
  assumes compare_eq: "compare x y = 0 \<Longrightarrow> x = y"
begin

lemma compare_zero_iff [simp]: "compare x y = 0 \<longleftrightarrow> x = y"
  using compare_eq by auto

lemma compare_antisym: "compare x y \<le> 0 \<Longrightarrow> compare y x \<le> 0 \<Longrightarrow> x = y"
  using compare_swap [of x y] by (intro compare_eq) simp

end

lemma go_compare_zero [simp]: "go_compare x y = 0 \<longleftrightarrow> x = y"
  by (auto simp: go_compare_def)

lemma go_compare_neg [simp]: "go_compare x y < 0 \<longleftrightarrow> x < y"
  by (auto simp: go_compare_def)

lemma go_compare_le [simp]: "go_compare x y \<le> 0 \<longleftrightarrow> x \<le> y"
  by (auto simp: go_compare_def)

text \<open>Comparing by a key: a preorder on the values, total where the key tells them apart.\<close>

lemma comparison_key: "comparison (\<lambda>x y. go_compare (f x) (f y))"
  by unfold_locales (auto simp: go_compare_def split: if_splits)

lemma cmp_or_Cons_le:
  "cmp_or (c # cs) \<le> 0 \<longleftrightarrow> c < 0 \<or> c = 0 \<and> cmp_or cs \<le> 0"
  by auto

text \<open>cmp.Or of comparisons is their lexicographic composition, and is one.\<close>

lemma comparison_or:
  assumes "\<forall>c \<in> set cs. comparison c"
  shows "comparison (\<lambda>x y. cmp_or (map (\<lambda>c. c x y) cs))"
  using assms
proof (induction cs)
  case Nil
  show ?case by unfold_locales auto
next
  case (Cons c cs)
  let ?r = "\<lambda>x y. cmp_or (map (\<lambda>c. c x y) cs)"
  have c: "comparison c" and r: "comparison ?r" using Cons by auto
  show ?case
  proof (unfold_locales, goal_cases)
    case (1 y x)
    show ?case
      using comparison.compare_swap [OF c, of y x] comparison.compare_swap [OF r, of y x] by simp
  next
    case (2 x y z)
    have xy: "c x y < 0 \<or> c x y = 0 \<and> ?r x y \<le> 0" and yz: "c y z < 0 \<or> c y z = 0 \<and> ?r y z \<le> 0"
      using 2 by (auto simp only: list.map cmp_or_Cons_le)
    show ?case
    proof (cases "c x y = 0 \<and> c y z = 0")
      case True
      then have "c x z = 0" using comparison.compare_zero_trans [OF c] by blast
      moreover have "?r x z \<le> 0"
        using True xy yz comparison.compare_trans [OF r, of x y z] by auto
      ultimately show ?thesis by simp
    next
      case False
      then have "c x y < 0 \<and> c y z \<le> 0 \<or> c x y \<le> 0 \<and> c y z < 0"
        using xy yz by (elim disjE conjE) simp_all
      then have "c x z < 0"
        using comparison.compare_strict_trans [OF c, of x y z]
          comparison.compare_trans_strict [OF c, of x y z] by blast
      then show ?thesis by simp
    qed
  qed
qed

lemma cmp_or_zero_iff: "cmp_or cs = 0 \<longleftrightarrow> (\<forall>c \<in> set cs. c = 0)"
  by (induction cs) auto

section \<open>slices.SortFunc and slices.CompactFunc\<close>

text \<open>
  The sort is modelled as an insertion sort that keeps the order of values comparing equal. Under
  a total comparison any sort gives the same list (sort_func_unique), so nothing rests on which
  algorithm the library runs.
\<close>

fun insert_func :: "('a \<Rightarrow> 'a \<Rightarrow> int) \<Rightarrow> 'a \<Rightarrow> 'a list \<Rightarrow> 'a list" where
  "insert_func c x [] = [x]"
| "insert_func c x (y # ys) = (if c x y \<le> 0 then x # y # ys else y # insert_func c x ys)"

definition sort_func :: "('a \<Rightarrow> 'a \<Rightarrow> int) \<Rightarrow> 'a list \<Rightarrow> 'a list" where
  "sort_func c xs = foldr (insert_func c) xs []"

text \<open>CompactFunc drops every element that eq relates to the one written just before it.\<close>

fun compact_from :: "('a \<Rightarrow> 'a \<Rightarrow> bool) \<Rightarrow> 'a \<Rightarrow> 'a list \<Rightarrow> 'a list" where
  "compact_from eq p [] = []"
| "compact_from eq p (x # xs) = (if eq x p then compact_from eq x xs else x # compact_from eq x xs)"

fun compact_func :: "('a \<Rightarrow> 'a \<Rightarrow> bool) \<Rightarrow> 'a list \<Rightarrow> 'a list" where
  "compact_func eq [] = []"
| "compact_func eq (x # xs) = x # compact_from eq x xs"

lemma mset_insert_func [simp]: "mset (insert_func c x xs) = add_mset x (mset xs)"
  by (induction xs) auto

lemma mset_sort_func [simp]: "mset (sort_func c xs) = mset xs"
  by (induction xs) (auto simp: sort_func_def)

lemma set_sort_func [simp]: "set (sort_func c xs) = set xs"
  by (metis mset_sort_func set_mset_mset)

lemma length_sort_func [simp]: "length (sort_func c xs) = length xs"
  by (metis mset_sort_func size_mset)

lemma set_insert_func [simp]: "set (insert_func c x xs) = insert x (set xs)"
  by (induction xs) auto

lemma set_compact_from_subset: "set (compact_from eq p xs) \<subseteq> set xs"
  by (induction xs arbitrary: p) auto

lemma set_compact_func_subset: "set (compact_func eq xs) \<subseteq> set xs"
proof (cases xs)
  case (Cons x ys)
  then show ?thesis using set_compact_from_subset [of eq x ys] by auto
qed simp

lemma sorted_wrt_compact_from: "sorted_wrt P xs \<Longrightarrow> sorted_wrt P (compact_from eq p xs)"
proof (induction xs arbitrary: p)
  case (Cons x xs)
  then show ?case using set_compact_from_subset [of eq x xs] by auto
qed simp

lemma sorted_wrt_compact_func:
  assumes "sorted_wrt P xs"
  shows "sorted_wrt P (compact_func eq xs)"
proof (cases xs)
  case (Cons x ys)
  then show ?thesis
    using assms set_compact_from_subset [of eq x ys] sorted_wrt_compact_from [of P ys eq x] by auto
qed simp

text \<open>Sorting by a key is HOL's stable sort by that key.\<close>

lemma insert_func_key: "insert_func (\<lambda>x y. go_compare (f x) (f y)) x xs = insort_key f x xs"
  by (induction xs) auto

lemma sort_func_key: "sort_func (\<lambda>x y. go_compare (f x) (f y)) xs = sort_key f xs"
  by (induction xs) (simp_all add: sort_func_def insert_func_key sort_key_def)

context comparison begin

lemma sorted_insert_func:
  "sorted_wrt (\<lambda>x y. compare x y \<le> 0) xs
    \<Longrightarrow> sorted_wrt (\<lambda>x y. compare x y \<le> 0) (insert_func compare x xs)"
proof (induction xs)
  case (Cons y ys)
  then show ?case
    using compare_swap [of y x] by (auto intro: compare_trans)
qed simp

lemma sorted_sort_func: "sorted_wrt (\<lambda>x y. compare x y \<le> 0) (sort_func compare xs)"
proof (induction xs)
  case (Cons x xs)
  then show ?case using sorted_insert_func by (simp add: sort_func_def)
qed (simp add: sort_func_def)

end

context total_comparison begin

lemma sorted_unique:
  "mset xs = mset ys \<Longrightarrow> sorted_wrt (\<lambda>x y. compare x y \<le> 0) xs
    \<Longrightarrow> sorted_wrt (\<lambda>x y. compare x y \<le> 0) ys \<Longrightarrow> xs = ys"
proof (induction xs arbitrary: ys)
  case (Cons x xs)
  then obtain y ys' where ys: "ys = y # ys'" by (cases ys) auto
  have "x \<in> set ys" "y \<in> set (x # xs)"
    using Cons.prems(1) ys by (metis list.set_intros(1) set_mset_mset)+
  then have "x = y"
    using Cons.prems(2,3) ys by (auto intro: compare_antisym)
  then show ?case using Cons ys by auto
qed simp

lemma sort_func_unique:
  "mset ys = mset xs \<Longrightarrow> sorted_wrt (\<lambda>x y. compare x y \<le> 0) ys \<Longrightarrow> ys = sort_func compare xs"
  by (rule sorted_unique) (auto simp: sorted_sort_func)

lemma compact_from_set:
  "sorted_wrt (\<lambda>x y. compare x y \<le> 0) (p # xs)
    \<Longrightarrow> set (compact_from (=) p xs) = set xs - {p}
      \<and> sorted_wrt (\<lambda>x y. compare x y < 0) (p # compact_from (=) p xs)"
proof (induction xs arbitrary: p)
  case (Cons x xs)
  have px: "compare p x \<le> 0" and xs: "sorted_wrt (\<lambda>x y. compare x y \<le> 0) (x # xs)"
    and ps: "sorted_wrt (\<lambda>x y. compare x y \<le> 0) (p # xs)"
    using Cons.prems by auto
  show ?case
  proof (cases "x = p")
    case True
    then show ?thesis using Cons.IH [OF ps] by auto
  next
    case False
    then have lt: "compare p x < 0" using px by (metis compare_zero_iff less_le)
    have "p \<notin> set xs"
      using False px xs by (auto dest: compare_antisym)
    have IH: "set (compact_from (=) x xs) = set xs - {x}"
      "sorted_wrt (\<lambda>x y. compare x y < 0) (x # compact_from (=) x xs)"
      using Cons.IH [OF xs] by auto
    have "compare p y < 0" if "y \<in> set xs" for y
      using that xs lt by (auto intro: compare_strict_trans)
    then show ?thesis using False lt IH \<open>p \<notin> set xs\<close> by auto
  qed
qed simp

lemma compact_sorted:
  assumes "sorted_wrt (\<lambda>x y. compare x y \<le> 0) xs"
  shows "set (compact_func (=) xs) = set xs"
    and "sorted_wrt (\<lambda>x y. compare x y < 0) (compact_func (=) xs)"
proof -
  have "set (compact_func (=) xs) = set xs \<and> sorted_wrt (\<lambda>x y. compare x y < 0) (compact_func (=) xs)"
  proof (cases xs)
    case (Cons x ys)
    then show ?thesis using compact_from_set [of x ys] assms by auto
  qed simp
  then show "set (compact_func (=) xs) = set xs"
    and "sorted_wrt (\<lambda>x y. compare x y < 0) (compact_func (=) xs)" by auto
qed

lemma strict_sorted_unique:
  assumes "set xs = set ys" "sorted_wrt (\<lambda>x y. compare x y < 0) xs"
    "sorted_wrt (\<lambda>x y. compare x y < 0) ys"
  shows "xs = ys"
proof (rule sorted_unique)
  have d: "distinct zs" if "sorted_wrt (\<lambda>x y. compare x y < 0) zs" for zs
    using that by (induction zs) auto
  show "mset xs = mset ys"
    using assms d by (simp add: set_eq_iff_mset_eq_distinct)
  show "sorted_wrt (\<lambda>x y. compare x y \<le> 0) xs" "sorted_wrt (\<lambda>x y. compare x y \<le> 0) ys"
    using assms(2,3) by (auto elim: sorted_wrt_mono_rel [rotated])
qed

text \<open>Sorted and compacted, a list is its set: neither the order nor the repeats of what was sorted show.\<close>

lemma sort_compact_set: "set (compact_func (=) (sort_func compare xs)) = set xs"
  using compact_sorted(1) [OF sorted_sort_func] by simp

lemma sort_compact_sorted: "sorted_wrt (\<lambda>x y. compare x y < 0) (compact_func (=) (sort_func compare xs))"
  by (rule compact_sorted(2) [OF sorted_sort_func])

lemma sort_compact_cong:
  "set xs = set ys \<Longrightarrow> compact_func (=) (sort_func compare xs) = compact_func (=) (sort_func compare ys)"
  by (rule strict_sorted_unique) (auto simp: sort_compact_set sort_compact_sorted)

lemma sort_compact_id:
  "sorted_wrt (\<lambda>x y. compare x y < 0) xs \<Longrightarrow> compact_func (=) (sort_func compare xs) = xs"
  by (rule strict_sorted_unique) (auto simp: sort_compact_set sort_compact_sorted)

end

text \<open>Strings under strings.Compare, numbers under cmp.Compare, as slices.Sort orders them.\<close>

interpretation ord: total_comparison "go_compare :: 'a::linorder \<Rightarrow> 'a \<Rightarrow> int"
  by unfold_locales (auto simp: go_compare_def split: if_splits)

section \<open>Canonical lists\<close>

text \<open>
  Sorting by a rendering and dropping neighbours that render alike, the normal form the program
  gives its patterns, its union members and its terms.
\<close>

abbreviation canonical :: "('a \<Rightarrow> 'b::linorder) \<Rightarrow> 'a list \<Rightarrow> 'a list" where
  "canonical f xs \<equiv>
     compact_func (\<lambda>a b. f a = f b) (sort_func (\<lambda>a b. go_compare (f a) (f b)) xs)"

abbreviation key_sorted :: "('a \<Rightarrow> 'b::linorder) \<Rightarrow> 'a list \<Rightarrow> bool" where
  "key_sorted f xs \<equiv> sorted_wrt (\<lambda>a b. f a < f b) xs"

lemma map_compact_from: "map f (compact_from (\<lambda>a b. f a = f b) p xs) = compact_from (=) (f p) (map f xs)"
  by (induction xs arbitrary: p) auto

lemma map_compact_func: "map f (compact_func (\<lambda>a b. f a = f b) xs) = compact_func (=) (map f xs)"
  by (cases xs) (auto simp: map_compact_from)

lemma map_sort_key: "map f (sort_key f xs) = sort (map f xs)"
  by (intro properties_for_sort [symmetric]) auto

lemma map_canonical: "map f (canonical f xs) = compact_func (=) (sort_func go_compare (map f xs))"
proof -
  have "sort_func (\<lambda>a b. go_compare (f a) (f b)) xs = sort_key f xs" by (rule sort_func_key)
  moreover have "sort_func go_compare (map f xs) = sort (map f xs)"
    using sort_func_key [of "\<lambda>x. x" "map f xs"] by simp
  ultimately show ?thesis by (simp add: map_compact_func map_sort_key)
qed

lemma canonical_subset: "set (canonical f xs) \<subseteq> set xs"
  using set_compact_func_subset by fastforce

lemma canonical_image: "f ` set (canonical f xs) = f ` set xs"
  using arg_cong [OF map_canonical [of f xs], of set] by (simp add: ord.sort_compact_set)

lemma canonical_sorted: "key_sorted f (canonical f xs)"
proof -
  have "sorted_wrt (<) (map f (canonical f xs))"
    using ord.sort_compact_sorted [of "map f xs"] by (simp add: map_canonical)
  then show ?thesis by (simp add: sorted_wrt_map)
qed

lemma canonical_set: "inj_on f (set xs) \<Longrightarrow> set (canonical f xs) = set xs"
  using canonical_subset [of f xs] canonical_image [of f xs] by (metis inj_on_image_eq_iff subset_refl)

lemma key_sorted_distinct: "key_sorted f xs \<Longrightarrow> distinct xs"
  by (induction xs) auto

lemma key_sorted_inj: "key_sorted f xs \<Longrightarrow> inj_on f (set xs)"
proof (induction xs)
  case (Cons x xs)
  then have "f x \<notin> f ` set xs" by force
  then show ?case using Cons by (auto simp: inj_on_insert)
qed simp

lemma key_sorted_unique:
  assumes "set xs = set ys" "key_sorted f xs" "key_sorted f ys"
  shows "xs = ys"
proof -
  have "map f xs = map f ys"
    using assms by (intro ord.strict_sorted_unique) (auto simp: sorted_wrt_map)
  then show ?thesis using key_sorted_inj [OF assms(2)] assms(1) by (simp add: inj_on_map_eq_map)
qed

lemma canonical_cong:
  "inj_on f (set xs) \<Longrightarrow> set xs = set ys \<Longrightarrow> canonical f xs = canonical f ys"
  by (rule key_sorted_unique [OF _ canonical_sorted canonical_sorted]) (simp add: canonical_set)

lemma canonical_id: "key_sorted f xs \<Longrightarrow> canonical f xs = xs"
  by (rule key_sorted_unique [OF canonical_set [OF key_sorted_inj] canonical_sorted])

lemma canonical_Nil [simp]: "canonical f xs = [] \<longleftrightarrow> xs = []"
  using canonical_image [of f xs] by auto

end
