(* ===== verification/Utf8.thy ===== *)
theory Utf8 imports Prelude begin

text \<open>
  Package unicode/utf8 on byte strings: DecodeRuneInString, AppendRune and the conversion to a
  rune slice, as Go's specification and the package documentation give them. A byte that starts no
  valid encoding decodes to U+FFFD with width 1, and so does an encoding that is cut short, is
  longer than it needs to be, or stands for a surrogate or a value past U+10FFFF.

  The lemmas say what the matchers of package eval rest on: a rune slice splits where an ASCII
  byte stands (runes_ascii), and a rune other than U+FFFD was written by exactly its own encoding
  (encode_decode).
\<close>

section \<open>Bytes\<close>

definition byte :: "char \<Rightarrow> nat" where
  "byte c = of_char c"

definition chr :: "nat \<Rightarrow> char" where
  "chr n = char_of n"

lemma byte_chr [simp]: "n < 256 \<Longrightarrow> byte (chr n) = n"
  by (simp add: byte_def chr_def)

lemma chr_byte [simp]: "chr (byte c) = c"
  by (simp add: byte_def chr_def)

lemma byte_less [simp]: "byte c < 256"
proof -
  have "byte c = byte c mod 256"
    by (metis byte_def char_of_eq_iff of_char_of chr_byte chr_def)
  then show ?thesis by (metis mod_less_divisor zero_less_numeral)
qed

lemma byte_eq_iff [simp]: "byte c = byte d \<longleftrightarrow> c = d"
  by (simp add: byte_def)

definition rune_error :: rune where
  "rune_error = 65533"

section \<open>DecodeRuneInString\<close>

definition continues :: "char \<Rightarrow> bool" where
  "continues c \<longleftrightarrow> 128 \<le> byte c \<and> byte c < 192"

text \<open>The range the second byte of an encoding must lie in, which the first byte narrows.\<close>

definition second_ok :: "nat \<Rightarrow> char \<Rightarrow> bool" where
  "second_ok x c \<longleftrightarrow>
     (if x = 224 then 160 else if x = 240 then 144 else 128) \<le> byte c \<and>
     byte c < (if x = 237 then 160 else if x = 244 then 144 else 192)"

fun decode_rune :: "string \<Rightarrow> rune \<times> nat" where
  "decode_rune [] = (rune_error, 0)"
| "decode_rune (b # s) =
     (let x = byte b in
      if x < 128 then (x, 1)
      else if x < 194 \<or> 245 \<le> x then (rune_error, 1)
      else if x < 224 then
        (case s of
           c # _ \<Rightarrow> if second_ok x c then ((x - 192) * 64 + (byte c - 128), 2) else (rune_error, 1)
         | _ \<Rightarrow> (rune_error, 1))
      else if x < 240 then
        (case s of
           c # d # _ \<Rightarrow>
             if second_ok x c \<and> continues d
             then ((x - 224) * 4096 + (byte c - 128) * 64 + (byte d - 128), 3)
             else (rune_error, 1)
         | _ \<Rightarrow> (rune_error, 1))
      else
        (case s of
           c # d # e # _ \<Rightarrow>
             if second_ok x c \<and> continues d \<and> continues e
             then ((x - 240) * 262144 + (byte c - 128) * 4096 + (byte d - 128) * 64 + (byte e - 128), 4)
             else (rune_error, 1)
         | _ \<Rightarrow> (rune_error, 1)))"

text \<open>A rune a string can hold: no surrogate, and none past U+10FFFF.\<close>

definition valid_rune :: "rune \<Rightarrow> bool" where
  "valid_rune r \<longleftrightarrow> r < 55296 \<or> 57344 \<le> r \<and> r < 1114112"

text \<open>AppendRune: the bytes of a rune, those of U+FFFD for one that is not valid.\<close>

definition encode_valid :: "rune \<Rightarrow> string" where
  "encode_valid r =
     (if r < 128 then [chr r]
      else if r < 2048 then [chr (192 + r div 64), chr (128 + r mod 64)]
      else if r < 65536 then
        [chr (224 + r div 4096), chr (128 + r div 64 mod 64), chr (128 + r mod 64)]
      else [chr (240 + r div 262144), chr (128 + r div 4096 mod 64),
            chr (128 + r div 64 mod 64), chr (128 + r mod 64)])"

definition encode_rune :: "rune \<Rightarrow> string" where
  "encode_rune r = encode_valid (if valid_rune r then r else rune_error)"

lemma decode_width: "s \<noteq> [] \<Longrightarrow> decode_rune s = (r, n) \<Longrightarrow> 1 \<le> n \<and> n \<le> length s"
  by (cases s) (auto simp: Let_def split: if_splits list.splits)

lemma decode_ascii: "byte b < 128 \<Longrightarrow> decode_rune (b # s) = (byte b, 1)"
  by simp

text \<open>Decoding looks no further than the byte that ends the encoding, or the one that spoils it.\<close>

lemma decode_stop:
  assumes "s \<noteq> []" "byte c < 128"
  shows "decode_rune (s @ c # t) = decode_rune s"
proof -
  obtain b s' where s: "s = b # s'" using assms(1) by (cases s) auto
  have nc: "\<not> second_ok x c" "\<not> continues c" for x
    using assms(2) by (auto simp: second_ok_def continues_def split: if_splits)
  show ?thesis
    unfolding s using nc by (auto simp: Let_def split: list.splits)
qed

lemma second_ok_range: "second_ok x c \<Longrightarrow> 128 \<le> byte c \<and> byte c < 192"
  by (auto simp: second_ok_def split: if_splits)

text \<open>The six-bit digits an encoding packs into its continuation bytes.\<close>

lemma digit64: "(d::nat) < 64 \<Longrightarrow> (h * 64 + d) div 64 = h \<and> (h * 64 + d) mod 64 = d"
  by simp

lemma div_4096: "(r::nat) div 4096 = r div 64 div 64"
  using div_mult2_eq [of r 64 64] by simp

lemma div_262144: "(r::nat) div 262144 = r div 64 div 64 div 64"
  using div_mult2_eq [of r 4096 64] by (simp add: div_4096)

lemma zero64: "(0::nat) < 64"
  by simp

lemma digits64:
  fixes x c d e :: nat
  assumes "c < 64" "d < 64" "e < 64"
  shows "(x * 4096 + c * 64 + d) div 4096 = x" "(x * 4096 + c * 64 + d) div 64 mod 64 = c"
    "(x * 4096 + c * 64 + d) mod 64 = d"
    "(x * 262144 + c * 4096 + d * 64 + e) div 262144 = x"
    "(x * 262144 + c * 4096 + d * 64 + e) div 4096 mod 64 = c"
    "(x * 262144 + c * 4096 + d * 64 + e) div 64 mod 64 = d"
    "(x * 262144 + c * 4096 + d * 64 + e) mod 64 = e"
proof -
  have three: "x * 4096 + c * 64 + d = (x * 64 + c) * 64 + d" by simp
  have r3: "(x * 4096 + c * 64 + d) div 64 = x * 64 + c" "(x * 4096 + c * 64 + d) mod 64 = d"
    using digit64 [OF assms(2), of "x * 64 + c"] unfolding three by blast+
  show "(x * 4096 + c * 64 + d) div 4096 = x" "(x * 4096 + c * 64 + d) div 64 mod 64 = c"
    "(x * 4096 + c * 64 + d) mod 64 = d"
    using r3 digit64 [OF assms(1), of x] unfolding div_4096 by simp_all
  have four: "x * 262144 + c * 4096 + d * 64 + e = (x * 4096 + c * 64 + d) * 64 + e" by simp
  have r4: "(x * 262144 + c * 4096 + d * 64 + e) div 64 = x * 4096 + c * 64 + d"
    "(x * 262144 + c * 4096 + d * 64 + e) mod 64 = e"
    using digit64 [OF assms(3), of "x * 4096 + c * 64 + d"] unfolding four by blast+
  show "(x * 262144 + c * 4096 + d * 64 + e) div 262144 = x"
    "(x * 262144 + c * 4096 + d * 64 + e) div 4096 mod 64 = c"
    "(x * 262144 + c * 4096 + d * 64 + e) div 64 mod 64 = d"
    "(x * 262144 + c * 4096 + d * 64 + e) mod 64 = e"
    using r3 r4 digit64 [OF assms(1), of x] unfolding div_4096 div_262144 by simp_all
qed

lemma horner64:
  "(r::nat) = r div 64 * 64 + r mod 64"
  "r = r div 4096 * 4096 + r div 64 mod 64 * 64 + r mod 64"
  "r = r div 262144 * 262144 + r div 4096 mod 64 * 4096 + r div 64 mod 64 * 64 + r mod 64"
proof -
  have one: "n = n div 64 * 64 + n mod 64" for n :: nat by simp
  show "r = r div 64 * 64 + r mod 64" by (rule one)
  have two: "n = n div 4096 * 4096 + n div 64 mod 64 * 64 + n mod 64" for n :: nat
    using one [of n] one [of "n div 64"] unfolding div_4096 by linarith
  show "r = r div 4096 * 4096 + r div 64 mod 64 * 64 + r mod 64" by (rule two)
  show "r = r div 262144 * 262144 + r div 4096 mod 64 * 4096 + r div 64 mod 64 * 64 + r mod 64"
    using two [of r] one [of "r div 64 div 64"] unfolding div_4096 div_262144 by linarith
qed

text \<open>A width above one is a whole encoding: the bytes read are the rune's own.\<close>

lemma encode_decode:
  assumes "decode_rune s = (r, n)" "s \<noteq> []" "r = rune_error \<longrightarrow> n \<noteq> 1"
  shows "valid_rune r \<and> encode_rune r = take n s \<and> n = length (encode_rune r)"
proof -
  obtain b s' where s: "s = b # s'" using assms(2) by (cases s) auto
  let ?x = "byte b"
  consider (one) "?x < 128" "r = ?x" "n = 1"
    | (two) c t where "s' = c # t" "194 \<le> ?x" "?x < 224" "second_ok ?x c"
        "r = (?x - 192) * 64 + (byte c - 128)" "n = 2"
    | (three) c d t where "s' = c # d # t" "224 \<le> ?x" "?x < 240" "second_ok ?x c" "continues d"
        "r = (?x - 224) * 4096 + (byte c - 128) * 64 + (byte d - 128)" "n = 3"
    | (four) c d e t where "s' = c # d # e # t" "240 \<le> ?x" "?x < 245" "second_ok ?x c"
        "continues d" "continues e" "n = 4"
        "r = (?x - 240) * 262144 + (byte c - 128) * 4096 + (byte d - 128) * 64 + (byte e - 128)"
  proof (cases "?x < 128")
    case True
    then have "r = ?x" "n = 1" using assms(1) by (auto simp: s)
    with True show thesis by (rule one)
  next
    case big: False
    have ok: "\<not> ((r, n) = (rune_error, 1))" using assms(3) by auto
    with big have mid: "194 \<le> ?x" "?x < 245"
      using assms(1) by (auto simp: s Let_def split: if_splits)
    show thesis
    proof (cases "?x < 224")
      case True
      then have "decode_rune s = (case s' of
          c # _ \<Rightarrow> if second_ok ?x c then ((?x - 192) * 64 + (byte c - 128), 2) else (rune_error, 1)
        | _ \<Rightarrow> (rune_error, 1))"
        using big mid by (simp add: s Let_def)
      with assms(1) ok show thesis
        by (auto intro: two [OF _ mid(1) True] split: list.splits if_splits)
    next
      case three_up: False
      show thesis
      proof (cases "?x < 240")
        case True
        then have "decode_rune s = (case s' of
            c # d # _ \<Rightarrow>
              if second_ok ?x c \<and> continues d
              then ((?x - 224) * 4096 + (byte c - 128) * 64 + (byte d - 128), 3)
              else (rune_error, 1)
          | _ \<Rightarrow> (rune_error, 1))"
          using big mid three_up by (simp add: s Let_def)
        with assms(1) ok three_up True show thesis
          by (auto intro: three [OF _ _ True] split: list.splits if_splits)
      next
        case False
        then have "decode_rune s = (case s' of
            c # d # e # _ \<Rightarrow>
              if second_ok ?x c \<and> continues d \<and> continues e
              then ((?x - 240) * 262144 + (byte c - 128) * 4096 + (byte d - 128) * 64 + (byte e - 128), 4)
              else (rune_error, 1)
          | _ \<Rightarrow> (rune_error, 1))"
          using big mid three_up by (simp add: s Let_def)
        with assms(1) ok False show thesis
          by (auto intro: four [OF _ _ mid(2)] split: list.splits if_splits)
      qed
    qed
  qed
  then show ?thesis
  proof cases
    case one
    then show ?thesis by (simp add: s valid_rune_def encode_rune_def encode_valid_def)
  next
    case two
    define c' x' where "c' = byte c - 128" and "x' = ?x - 192"
    have b: "byte c = c' + 128" "c' < 64" "?x = x' + 192" "2 \<le> x'" "x' < 32"
      using second_ok_range [OF two(4)] two(2,3) by (auto simp: c'_def x'_def)
    have r: "r = x' * 64 + c'" using two(5) by (simp add: c'_def x'_def)
    have parts: "192 + r div 64 = ?x" "128 + r mod 64 = byte c"
      using r b digit64 [of c' x'] by simp_all
    have range: "128 \<le> r" "r < 2048" using r b by linarith+
    show ?thesis
      using range parts two(1,6) by (simp add: s valid_rune_def encode_rune_def encode_valid_def)
  next
    case three
    define c' d' x' where "c' = byte c - 128" and "d' = byte d - 128" and "x' = ?x - 224"
    have b: "byte c = c' + 128" "c' < 64" "?x = x' + 224" "x' < 16" "byte d = d' + 128" "d' < 64"
      using second_ok_range [OF three(4)] three(2,3,5) by (auto simp: c'_def x'_def d'_def continues_def)
    have lo: "x' = 0 \<longrightarrow> 32 \<le> c'" and hi: "x' = 13 \<longrightarrow> c' < 32"
      using three(4) b by (auto simp: second_ok_def)
    have r: "r = x' * 4096 + c' * 64 + d'" using three(6) by (simp add: c'_def x'_def d'_def)
    have parts: "224 + r div 4096 = ?x" "128 + r div 64 mod 64 = byte c" "128 + r mod 64 = byte d"
      using b(1,3,5) unfolding r digits64(1,2,3) [OF b(2,6) zero64] by simp_all
    have range: "2048 \<le> r" "r < 65536" using r b lo by (cases "x' = 0", linarith+)
    have "\<not> (55296 \<le> r \<and> r < 57344)"
    proof (cases "x' = 13")
      case False
      then have "x' \<le> 12 \<or> 14 \<le> x'" by arith
      then show ?thesis using r b by linarith
    qed (use r b hi in linarith)
    then have v: "valid_rune r" using range by (auto simp: valid_rune_def)
    show ?thesis
      using range v three(1,7) parts by (simp add: s encode_rune_def encode_valid_def)
  next
    case four
    define c' d' e' x' where "c' = byte c - 128" and "d' = byte d - 128" and "e' = byte e - 128"
      and "x' = ?x - 240"
    have b: "byte c = c' + 128" "c' < 64" "?x = x' + 240" "x' < 5" "byte d = d' + 128" "d' < 64"
      "byte e = e' + 128" "e' < 64"
      using second_ok_range [OF four(4)] four(2,3,5,6)
      by (auto simp: c'_def x'_def d'_def e'_def continues_def)
    have lo: "x' = 0 \<longrightarrow> 16 \<le> c'" and hi: "x' = 4 \<longrightarrow> c' < 16"
      using four(4) b by (auto simp: second_ok_def)
    have r: "r = x' * 262144 + c' * 4096 + d' * 64 + e'"
      using four(8) by (simp add: c'_def x'_def d'_def e'_def)
    have parts: "240 + r div 262144 = ?x" "128 + r div 4096 mod 64 = byte c"
      "128 + r div 64 mod 64 = byte d" "128 + r mod 64 = byte e"
      using b(1,3,5,7) unfolding r digits64 [OF b(2,6,8)] by simp_all
    have range: "65536 \<le> r" "r < 1114112"
    proof -
      show "65536 \<le> r" using r b lo by (cases "x' = 0") linarith+
      show "r < 1114112" using r b hi by (cases "x' = 4") linarith+
    qed
    then have v: "valid_rune r" by (auto simp: valid_rune_def)
    show ?thesis
      using range v four(1,7) parts by (simp add: s encode_rune_def encode_valid_def)
  qed
qed

text \<open>Conversely every valid rune reads back from its encoding, whatever follows it.\<close>

lemma decode_encode:
  assumes "valid_rune r"
  shows "decode_rune (encode_rune r @ s) = (r, length (encode_rune r))"
proof -
  have bound: "r < 1114112" and gap: "r < 55296 \<or> 57344 \<le> r"
    using assms by (auto simp: valid_rune_def)
  consider "r < 128" | (two) "128 \<le> r" "r < 2048" | (three) "2048 \<le> r" "r < 65536" | (four) "65536 \<le> r"
    by linarith
  then show ?thesis
  proof cases
    case 1
    then show ?thesis using assms by (simp add: encode_rune_def encode_valid_def)
  next
    case two
    define x c where "x = r div 64" and "c = r mod 64"
    have x: "c < 64" "r = x * 64 + c" using horner64(1) [of r] by (simp_all add: x_def c_def)
    then have "2 \<le> x" "x < 32" using two by linarith+
    show ?thesis
      using two assms x \<open>2 \<le> x\<close> \<open>x < 32\<close>
      by (simp add: encode_rune_def encode_valid_def second_ok_def flip: x_def c_def)
  next
    case three
    define x c d where "x = r div 4096" and "c = r div 64 mod 64" and "d = r mod 64"
    have r: "c < 64" "d < 64" "r = x * 4096 + c * 64 + d"
      using horner64(2) [of r] by (simp_all add: x_def c_def d_def)
    then have "x < 16" using three by linarith
    have "x = 0 \<longrightarrow> 32 \<le> c" using r three by auto
    moreover have "x = 13 \<longrightarrow> c < 32" using r gap by auto
    ultimately have "x = 0 \<longrightarrow> 32 \<le> c" "x = 13 \<longrightarrow> c < 32" by auto
    then have "second_ok (224 + x) (chr (128 + c))" using r(1) \<open>x < 16\<close> by (auto simp: second_ok_def)
    then show ?thesis
      using three assms r(1,2) \<open>x < 16\<close>
      by (simp add: encode_rune_def encode_valid_def continues_def Let_def r(3) [symmetric]
          flip: x_def c_def d_def)
  next
    case four
    define x c d e where "x = r div 262144" and "c = r div 4096 mod 64" and "d = r div 64 mod 64"
      and "e = r mod 64"
    have r: "c < 64" "d < 64" "e < 64" "r = x * 262144 + c * 4096 + d * 64 + e"
      using horner64(3) [of r] by (simp_all add: x_def c_def d_def e_def)
    then have "x < 5" using bound by linarith
    have "x = 0 \<longrightarrow> 16 \<le> c" "x = 4 \<longrightarrow> c < 16" using r four bound by auto
    then have "second_ok (240 + x) (chr (128 + c))" using r(1) \<open>x < 5\<close> by (auto simp: second_ok_def)
    then show ?thesis
      using four assms r(1,2,3) \<open>x < 5\<close>
      by (simp add: encode_rune_def encode_valid_def continues_def Let_def r(4) [symmetric]
          flip: x_def c_def d_def e_def)
  qed
qed

lemma decode_valid: "decode_rune s = (r, n) \<Longrightarrow> valid_rune r"
proof (cases "r = rune_error")
  case False
  assume d: "decode_rune s = (r, n)"
  with False have "s \<noteq> []" by auto
  with d False show ?thesis using encode_decode by blast
qed (simp add: valid_rune_def rune_error_def)

lemma encode_rune_nonempty [simp]: "encode_rune r \<noteq> []"
  by (simp add: encode_rune_def encode_valid_def)

declare decode_rune.simps(2) [simp del]

section \<open>The runes of a string\<close>

text \<open>The conversion of a string to a rune slice, and the order a range loop visits runes in.\<close>

function runes :: "string \<Rightarrow> rune list" where
  "runes s = (if s = [] then [] else fst (decode_rune s) # runes (drop (snd (decode_rune s)) s))"
  by pat_completeness auto
termination
proof (relation "measure length")
  fix s :: string
  assume "s \<noteq> []"
  then have "1 \<le> snd (decode_rune s)" using decode_width [of s] by (metis surjective_pairing)
  then show "(drop (snd (decode_rune s)) s, s) \<in> measure length" using \<open>s \<noteq> []\<close> by simp
qed simp

declare runes.simps [simp del]

lemma runes_Nil [simp]: "runes [] = []"
  by (simp add: runes.simps)

lemma runes_step: "s \<noteq> [] \<Longrightarrow> runes s = fst (decode_rune s) # runes (drop (snd (decode_rune s)) s)"
  by (subst runes.simps) simp

lemma runes_eq_Nil [simp]: "runes s = [] \<longleftrightarrow> s = []"
  by (subst runes.simps) simp

lemma runes_valid: "r \<in> set (runes s) \<Longrightarrow> valid_rune r"
proof (induction s rule: runes.induct)
  case (1 s)
  then show ?case
    using decode_valid [of s] by (cases "s = []") (auto simp: runes_step intro: surjective_pairing)
qed

text \<open>An ASCII byte is a rune of its own, and never part of another.\<close>

lemma runes_Cons_ascii: "byte c < 128 \<Longrightarrow> runes (c # s) = byte c # runes s"
  by (subst runes_step) (auto simp: decode_ascii decode_rune.simps(2))

lemma runes_ascii: "byte c < 128 \<Longrightarrow> runes (s @ c # t) = runes s @ byte c # runes t"
proof (induction s rule: runes.induct)
  case (1 s)
  show ?case
  proof (cases "s = []")
    case True
    then show ?thesis using 1 by (simp add: runes_Cons_ascii)
  next
    case False
    obtain r n where d: "decode_rune s = (r, n)" by fastforce
    then have n: "n \<le> length s" using decode_width False by blast
    have "decode_rune (s @ c # t) = (r, n)" using decode_stop False "1.prems" d by simp
    then show ?thesis
      using 1 False d n by (simp add: runes_step)
  qed
qed

lemma runes_encode: "valid_rune r \<Longrightarrow> runes (encode_rune r @ s) = r # runes s"
  by (subst runes_step) (auto simp: decode_encode)

text \<open>utf8.ValidString: no byte decodes as an error.\<close>

function valid_string :: "string \<Rightarrow> bool" where
  "valid_string s =
     (if s = [] then True
      else if decode_rune s = (rune_error, 1) then False
      else valid_string (drop (snd (decode_rune s)) s))"
  by pat_completeness auto
termination
proof (relation "measure length")
  fix s :: string
  assume "\<not> s = []" "decode_rune s \<noteq> (rune_error, 1)"
  then have "1 \<le> snd (decode_rune s)" using decode_width [of s] by (metis surjective_pairing)
  then show "(drop (snd (decode_rune s)) s, s) \<in> measure length" using \<open>\<not> s = []\<close> by simp
qed simp

declare valid_string.simps [simp del]

lemma valid_string_Nil [simp]: "valid_string []"
  by (simp add: valid_string.simps)

lemma valid_string_step:
  "s \<noteq> [] \<Longrightarrow> valid_string s \<longleftrightarrow>
    decode_rune s \<noteq> (rune_error, 1) \<and> valid_string (drop (snd (decode_rune s)) s)"
  by (subst valid_string.simps) simp

text \<open>The bytes of a rune slice, and of a string every rune of which was replaced (strings.Map).\<close>

definition encode_runes :: "rune list \<Rightarrow> string" where
  "encode_runes rs = concat (map encode_rune rs)"

lemma runes_encode_runes: "\<forall>r \<in> set rs. valid_rune r \<Longrightarrow> runes (encode_runes rs) = rs"
  by (induction rs) (auto simp: encode_runes_def runes_encode)

lemma encode_runes_valid: "valid_string s \<Longrightarrow> encode_runes (runes s) = s"
proof (induction s rule: valid_string.induct)
  case (1 s)
  show ?case
  proof (cases "s = []")
    case False
    obtain r n where d: "decode_rune s = (r, n)" by fastforce
    have ne: "decode_rune s \<noteq> (rune_error, 1)" and rest: "valid_string (drop n s)"
      using "1.prems" False d by (simp_all add: valid_string_step)
    have "encode_rune r = take n s" using encode_decode [OF d False] ne d by blast
    moreover have "encode_runes (runes (drop n s)) = drop n s"
      using "1.IH" [OF False ne] rest d by simp
    ultimately show ?thesis using False d by (simp add: runes_step encode_runes_def)
  qed (simp add: encode_runes_def)
qed

lemma valid_encode_rune:
  assumes "valid_rune r"
  shows "valid_string (encode_rune r @ s) = valid_string s"
proof -
  have "\<not> (r = rune_error \<and> length (encode_rune r) = 1)"
    by (auto simp: rune_error_def encode_rune_def encode_valid_def valid_rune_def)
  then show ?thesis
    by (auto simp: valid_string_step decode_encode [OF assms])
qed

lemma valid_encode_runes: "\<forall>r \<in> set rs. valid_rune r \<Longrightarrow> valid_string (encode_runes rs)"
proof (induction rs)
  case Nil
  show ?case by (simp add: encode_runes_def)
next
  case (Cons r rs)
  then show ?case using valid_encode_rune by (simp add: encode_runes_def)
qed

end
