(* ===== verification/Go_Strings.thy ===== *)
theory Go_Strings imports Utf8 "HOL-Library.Sublist" begin

text \<open>
  What the program uses of Go's packages strings and unicode, and of strconv.Itoa, on byte
  strings. Functions that read runes go through Utf8. The lemmas relate splitting, cutting and
  joining to list append.
\<close>

section \<open>Prefixes, suffixes, searching\<close>

definition has_prefix :: "string \<Rightarrow> string \<Rightarrow> bool" where
  "has_prefix s p = prefix p s"

definition has_suffix :: "string \<Rightarrow> string \<Rightarrow> bool" where
  "has_suffix s p = suffix p s"

definition trim_prefix :: "string \<Rightarrow> string \<Rightarrow> string" where
  "trim_prefix s p = (if has_prefix s p then drop (length p) s else s)"

definition trim_suffix :: "string \<Rightarrow> string \<Rightarrow> string" where
  "trim_suffix s p = (if has_suffix s p then take (length s - length p) s else s)"

text \<open>strings.ContainsAny for a set of ASCII characters, and strings.Contains for one.\<close>

definition contains_any :: "string \<Rightarrow> string \<Rightarrow> bool" where
  "contains_any s cs = list_ex (\<lambda>c. c \<in> set cs) s"

text \<open>strings.ContainsFunc asks of every rune.\<close>

definition contains_func :: "(rune \<Rightarrow> bool) \<Rightarrow> string \<Rightarrow> bool" where
  "contains_func f s = list_ex f (runes s)"

text \<open>strings.Index, None for Go's -1.\<close>

fun index_of :: "string \<Rightarrow> string \<Rightarrow> nat option" where
  "index_of s sub =
     (if prefix sub s then Some 0
      else case s of [] \<Rightarrow> None | _ # t \<Rightarrow> map_option Suc (index_of t sub))"

text \<open>strings.Cut: before and after the separator, and whether it was found.\<close>

definition cut :: "string \<Rightarrow> string \<Rightarrow> string \<times> string \<times> bool" where
  "cut s sep = (case index_of s sep of
     Some i \<Rightarrow> (take i s, drop (i + length sep) s, True)
   | None \<Rightarrow> (s, [], False))"

definition cut_prefix :: "string \<Rightarrow> string \<Rightarrow> string \<times> bool" where
  "cut_prefix s p = (if has_prefix s p then (drop (length p) s, True) else (s, False))"

definition cut_suffix :: "string \<Rightarrow> string \<Rightarrow> string \<times> bool" where
  "cut_suffix s p = (if has_suffix s p then (take (length s - length p) s, True) else (s, False))"

section \<open>Splitting and joining\<close>

text \<open>
  strings.Split by a one-byte separator. The result is never empty, so it is given as its first
  piece and the rest.
\<close>

fun split_byte :: "char \<Rightarrow> string \<Rightarrow> string \<times> string list" where
  "split_byte c [] = ([], [])"
| "split_byte c (x # s) =
     (let (h, t) = split_byte c s in if x = c then ([], h # t) else (x # h, t))"

text \<open>strings.SplitN by a one-byte separator, for a positive count: the last piece keeps the rest.\<close>

fun split_n :: "nat \<Rightarrow> char \<Rightarrow> string \<Rightarrow> string list" where
  "split_n n c s =
     (if n \<le> 1 then [s]
      else case cut s [c] of (h, t, found) \<Rightarrow> if found then h # split_n (n - 1) c t else [s])"

fun join_strings :: "string \<Rightarrow> string list \<Rightarrow> string" where
  "join_strings sep [] = []"
| "join_strings sep [x] = x"
| "join_strings sep (x # y # ys) = x @ sep @ join_strings sep (y # ys)"

text \<open>strings.Map. A mapping to None drops the rune, as a negative one does.\<close>

definition strings_map :: "(rune \<Rightarrow> rune option) \<Rightarrow> string \<Rightarrow> string" where
  "strings_map f s = encode_runes (List.map_filter f (runes s))"

text \<open>strings.Trim with a cutset of one ASCII byte.\<close>

definition trim_byte :: "char \<Rightarrow> string \<Rightarrow> string" where
  "trim_byte c s = rev (dropWhile (\<lambda>x. x = c) (rev (dropWhile (\<lambda>x. x = c) s)))"

text \<open>unicode.IsSpace: the runes of the White_Space property.\<close>

definition is_space :: "rune \<Rightarrow> bool" where
  "is_space r \<longleftrightarrow>
     9 \<le> r \<and> r \<le> 13 \<or> r = 32 \<or> r = 133 \<or> r = 160 \<or> r = 5760 \<or> 8192 \<le> r \<and> r \<le> 8202 \<or>
     r = 8232 \<or> r = 8233 \<or> r = 8239 \<or> r = 8287 \<or> r = 12288"

text \<open>strings.TrimSpace, of valid UTF-8.\<close>

definition trim_space :: "string \<Rightarrow> string" where
  "trim_space s = encode_runes (rev (dropWhile is_space (rev (dropWhile is_space (runes s)))))"

text \<open>strconv.Itoa.\<close>

fun digits :: "nat \<Rightarrow> string" where
  "digits n = (if n < 10 then [chr (48 + n)] else digits (n div 10) @ [chr (48 + n mod 10)])"

declare digits.simps [simp del]

definition itoa :: "int \<Rightarrow> string" where
  "itoa i = (if i < 0 then CHR ''-'' # digits (nat (- i)) else digits (nat i))"

section \<open>Lemmas\<close>

declare index_of.simps [simp del]
declare split_n.simps [simp del]

lemma has_prefix_append [simp]: "has_prefix (p @ s) p"
  by (simp add: has_prefix_def)

lemma has_prefix_Nil [simp]: "has_prefix s []"
  by (simp add: has_prefix_def)

lemma has_prefixE: "has_prefix s p \<Longrightarrow> (\<And>t. s = p @ t \<Longrightarrow> thesis) \<Longrightarrow> thesis"
  by (auto simp: has_prefix_def elim: prefixE)

lemma has_prefix_trans: "has_prefix s p \<Longrightarrow> has_prefix p q \<Longrightarrow> has_prefix s q"
  by (auto simp: has_prefix_def intro: prefix_order.trans)

lemma has_prefix_comparable: "has_prefix s p \<Longrightarrow> has_prefix s q \<Longrightarrow> has_prefix p q \<or> has_prefix q p"
  by (auto simp: has_prefix_def dest: prefix_same_cases)

lemma trim_prefix_append [simp]: "trim_prefix (p @ s) p = s"
  by (simp add: trim_prefix_def)

lemma index_of_Some: "index_of s sub = Some i \<Longrightarrow> \<exists>t. s = take i s @ sub @ t \<and> i + length sub \<le> length s"
proof (induction s arbitrary: i)
  case Nil
  then show ?case by (auto simp: index_of.simps split: if_splits)
next
  case (Cons x s)
  show ?case
  proof (cases "prefix sub (x # s)")
    case True
    then show ?thesis
      using Cons.prems prefix_length_le [OF True] by (auto simp: index_of.simps prefix_def)
  next
    case False
    then obtain j where "index_of s sub = Some j" "i = Suc j"
      using Cons.prems by (auto simp: index_of.simps)
    then show ?thesis using Cons.IH [of j] by auto
  qed
qed

lemma index_of_char_None: "index_of s [c] = None \<longleftrightarrow> c \<notin> set s"
  by (induction s) (auto simp: index_of.simps prefix_def)

lemma index_of_char_append: "c \<notin> set s \<Longrightarrow> index_of (s @ c # t) [c] = Some (length s)"
  by (induction s) (auto simp: index_of.simps)

lemma cut_char_append: "c \<notin> set s \<Longrightarrow> cut (s @ c # t) [c] = (s, t, True)"
  by (simp add: cut_def index_of_char_append)

lemma cut_char_absent: "c \<notin> set s \<Longrightarrow> cut s [c] = (s, [], False)"
  using index_of_char_None [of s c] by (simp add: cut_def)

lemma cut_found: "cut s sep = (h, t, True) \<Longrightarrow> s = h @ sep @ t"
  by (auto simp: cut_def split: option.splits dest!: index_of_Some)
    (metis add.commute append_assoc append_eq_conv_conj append_take_drop_id drop_drop length_append length_take min.absorb2 add_leD1)

lemma cut_not_found: "cut s sep = (h, t, False) \<Longrightarrow> h = s \<and> t = []"
  by (auto simp: cut_def split: option.splits)

lemma cut_char_head: "cut s [c] = (h, t, b) \<Longrightarrow> c \<notin> set h"
proof (induction s arbitrary: h t b)
  case Nil
  then show ?case by (auto simp: cut_def index_of.simps)
next
  case (Cons x s)
  show ?case
  proof (cases "x = c")
    case True
    then show ?thesis using Cons.prems by (auto simp: cut_def index_of.simps)
  next
    case False
    then have i: "index_of (x # s) [c] = map_option Suc (index_of s [c])"
      by (simp add: index_of.simps prefix_def)
    show ?thesis
    proof (cases "index_of s [c]")
      case None
      then have "c \<notin> set s" "index_of (x # s) [c] = None" by (simp_all add: i index_of_char_None)
      then show ?thesis using Cons.prems False by (auto simp: cut_def)
    next
      case (Some j)
      then have "c \<notin> set (take j s)" using Cons.IH [of "take j s"] by (simp add: cut_def)
      moreover have "index_of (x # s) [c] = Some (Suc j)" by (simp add: i Some)
      ultimately show ?thesis using Cons.prems False by (auto simp: cut_def)
    qed
  qed
qed

lemma split_byte_absent: "c \<notin> set s \<Longrightarrow> split_byte c s = (s, [])"
  by (induction s) auto

lemma split_byte_pieces: "split_byte c s = (h, t) \<Longrightarrow> c \<notin> set h \<and> (\<forall>p \<in> set t. c \<notin> set p)"
  by (induction s arbitrary: h t) (auto simp: Let_def split: prod.splits if_splits)

lemma split_byte_join: "split_byte c s = (h, t) \<Longrightarrow> s = h @ concat (map (\<lambda>p. c # p) t)"
  by (induction s arbitrary: h t) (auto simp: Let_def split: prod.splits if_splits)

lemma runes_concat_ascii:
  "byte c < 128 \<Longrightarrow>
    runes (h @ concat (map (\<lambda>p. c # p) t)) = runes h @ concat (map (\<lambda>p. byte c # runes p) t)"
proof (induction t arbitrary: h)
  case (Cons p t)
  show ?case
    using Cons.IH [OF Cons.prems, of p] runes_ascii [OF Cons.prems, of h] by simp
qed simp

lemma runes_split_byte:
  "byte c < 128 \<Longrightarrow> split_byte c s = (h, t) \<Longrightarrow>
    runes s = runes h @ concat (map (\<lambda>p. byte c # runes p) t)"
  using runes_concat_ascii split_byte_join by metis

lemma byte_in_runes: "byte c < 128 \<Longrightarrow> byte c \<in> set (runes s) \<longleftrightarrow> c \<in> set s"
proof
  assume c: "byte c < 128" and "c \<in> set s"
  then obtain h t where "s = h @ c # t" by (auto dest: split_list)
  with c show "byte c \<in> set (runes s)" by (simp add: runes_ascii)
next
  assume c: "byte c < 128" and "byte c \<in> set (runes s)"
  then show "c \<in> set s"
  proof (induction s rule: runes.induct)
    case (1 s)
    show ?case
    proof (cases "s = []")
      case False
      obtain r n where d: "decode_rune s = (r, n)" by fastforce
      have "byte c \<in> set (r # runes (drop n s))"
        using "1.prems"(2) d unfolding runes_step [OF False] by simp
      then consider "r = byte c" | "byte c \<in> set (runes (drop n s))" by auto
      then show ?thesis
      proof cases
        case 1
        then have "r \<noteq> rune_error" using c by (simp add: rune_error_def)
        then have "encode_rune r = take n s" using encode_decode [OF d False] by blast
        moreover have "encode_rune r = [c]"
          using c by (simp add: 1 encode_rune_def encode_valid_def valid_rune_def)
        ultimately show ?thesis by (metis in_set_takeD list.set_intros(1))
      next
        case 2
        then have "c \<in> set (drop n s)" using "1.IH" [OF False c] d by simp
        then show ?thesis by (rule in_set_dropD)
      qed
    qed (use "1.prems" in simp)
  qed
qed

section \<open>Valid UTF-8\<close>

lemma valid_at_ascii: "byte c < 128 \<Longrightarrow> valid_string (s @ c # t) \<longleftrightarrow> valid_string s \<and> valid_string t"
proof (induction s rule: runes.induct)
  case (1 s)
  show ?case
  proof (cases "s = []")
    case True
    have "byte c \<noteq> rune_error" using "1.prems" by (simp add: rune_error_def)
    then show ?thesis using True "1.prems" by (simp add: valid_string_step decode_ascii)
  next
    case False
    obtain r n where d: "decode_rune s = (r, n)" by fastforce
    have n: "n \<le> length s" using decode_width [OF False d] by simp
    have e: "decode_rune (s @ c # t) = (r, n)" using decode_stop False "1.prems" d by simp
    have "valid_string (drop n s @ c # t) \<longleftrightarrow> valid_string (drop n s) \<and> valid_string t" using "1.IH" [OF False] d "1.prems" by simp
    then show ?thesis using False d e n by (simp add: valid_string_step)
  qed
qed

lemma valid_ascii: "\<forall>r \<in> set (runes s). r < 128 \<Longrightarrow> valid_string s"
proof (induction s rule: runes.induct)
  case (1 s)
  show ?case
  proof (cases "s = []")
    case False
    obtain r n where d: "decode_rune s = (r, n)" by fastforce
    have "r < 128" "\<forall>r \<in> set (runes (drop n s)). r < 128" using "1.prems" runes_step [OF False] d by auto
    then show ?thesis using "1.IH" [OF False] False d by (auto simp: valid_string_step rune_error_def)
  qed simp
qed

lemma decode_append:
  assumes "valid_string s" "s \<noteq> []" "decode_rune s = (r, n)"
  shows "decode_rune (s @ x) = (r, n)"
proof -
  have "(r, n) \<noteq> (rune_error, 1)" using assms by (simp add: valid_string_step)
  then have e: "encode_rune r = take n s" using encode_decode [OF assms(3,2)] by blast
  have n: "n \<le> length s" using decode_width [OF assms(2,3)] by simp
  have sx: "s @ x = take n s @ drop n s @ x" by simp
  show ?thesis using decode_encode [OF decode_valid [OF assms(3)], of "drop n s @ x"] n unfolding e sx by simp
qed

lemma valid_append: "valid_string s \<Longrightarrow> valid_string (s @ t) \<longleftrightarrow> valid_string t"
proof (induction s rule: runes.induct)
  case (1 s)
  show ?case
  proof (cases "s = []")
    case False
    obtain r n where d: "decode_rune s = (r, n)" by fastforce
    have n: "n \<le> length s" using decode_width [OF False d] by simp
    have e: "decode_rune (s @ t) = (r, n)" by (rule decode_append [OF "1.prems" False d])
    have v: "(r, n) \<noteq> (rune_error, 1)" "valid_string (drop n s)" using "1.prems" False d by (simp_all add: valid_string_step)
    have "valid_string (drop n s @ t) \<longleftrightarrow> valid_string t" using "1.IH" [OF False] d v(2) by simp
    then show ?thesis using False e n v(1) by (simp add: valid_string_step)
  qed simp
qed

end
