(* ===== verification/Eval_Glob.thy ===== *)
theory Eval_Glob imports Go_Strings begin

text \<open>
  Package eval, glob.go: the AWS StringLike matcher. A pattern is split at its stars into
  segments, the first pinned to the start, the last to the end, and each middle one placed at the
  leftmost position after the one before it.

  The specification is wild_match, the textbook backtracking reading of a pattern: a star is any
  run of runes, a question mark any one rune, everything else itself. match_segments_wild says
  the greedy placement decides exactly that, so leftmost placement loses no match.
\<close>

definition star :: rune where "star = 42"
definition quest :: rune where "quest = 63"

text \<open>
  The struct glob: the pattern, and its pieces between the stars. A slice strings.Split returned
  is never empty, so the pieces are the first one and the rest.
\<close>

record glob =
  glob_pattern :: string
  glob_segments :: "rune list \<times> rune list list"

text \<open>matchAt: whether a segment matches at an offset, and whether it fits there at all.\<close>

definition rune_fits :: "rune \<Rightarrow> rune \<Rightarrow> bool" where
  "rune_fits r x \<longleftrightarrow> r = quest \<or> r = x"

definition match_at :: "rune list \<Rightarrow> rune list \<Rightarrow> nat \<Rightarrow> bool" where
  "match_at seg v i \<longleftrightarrow>
     i + length seg \<le> length v \<and> list_all2 rune_fits seg (take (length seg) (drop i v))"

text \<open>The inner loop: the first position from j on where the segment matches, or where it no longer fits.\<close>

function place :: "rune list \<Rightarrow> rune list \<Rightarrow> nat \<Rightarrow> nat \<Rightarrow> nat" where
  "place seg v j stop =
     (if j + length seg \<le> stop \<and> \<not> match_at seg v j then place seg v (j + 1) stop else j)"
  by pat_completeness auto
termination
  by (relation "measure (\<lambda>(seg, v, j, stop). Suc stop - j)") auto

declare place.simps [simp del]

text \<open>The outer loop over the middle segments.\<close>

fun place_all :: "rune list list \<Rightarrow> rune list \<Rightarrow> nat \<Rightarrow> nat \<Rightarrow> bool" where
  "place_all [] v i stop = True"
| "place_all (seg # segs) v i stop =
     (let j = place seg v i stop in
      if stop < j + length seg then False else place_all segs v (j + length seg) stop)"

text \<open>
  matchSegments. Go's end is an int and may be negative; the guard end < i is written as the
  inequality on lengths it is, so that no subtraction truncates.
\<close>

fun match_segments :: "rune list \<times> rune list list \<Rightarrow> rune list \<Rightarrow> bool" where
  "match_segments (first, rest) v =
     (if rest = [] then length v = length first \<and> match_at first v 0
      else if \<not> match_at first v 0 then False
      else if length v < length first + length (last rest) \<or>
              \<not> match_at (last rest) v (length v - length (last rest)) then False
      else place_all (butlast rest) v (length first) (length v - length (last rest)))"

text \<open>The glob Glob builds for a pattern that is neither a literal nor all stars.\<close>

definition make_glob :: "string \<Rightarrow> glob" where
  "make_glob p =
     (case split_byte (CHR ''*'') p of
        (h, t) \<Rightarrow> \<lparr>glob_pattern = p, glob_segments = (runes h, map runes t)\<rparr>)"

definition glob_contains :: "glob \<Rightarrow> string \<Rightarrow> bool" where
  "glob_contains g v = match_segments (glob_segments g) (runes v)"

section \<open>The specification\<close>

fun wild_match :: "rune list \<Rightarrow> rune list \<Rightarrow> bool" where
  "wild_match [] v \<longleftrightarrow> v = []"
| "wild_match (r # p) v \<longleftrightarrow>
     (if r = star then wild_match p v \<or> (case v of [] \<Rightarrow> False | _ # u \<Rightarrow> wild_match (r # p) u)
      else case v of [] \<Rightarrow> False | x # u \<Rightarrow> rune_fits r x \<and> wild_match p u)"

lemma wild_match_star: "wild_match (star # p) v \<longleftrightarrow> (\<exists>k \<le> length v. wild_match p (drop k v))"
proof (induction v)
  case (Cons x v)
  have "(\<exists>k \<le> length (x # v). wild_match p (drop k (x # v))) \<longleftrightarrow>
      wild_match p (x # v) \<or> (\<exists>k \<le> length v. wild_match p (drop k v))"
    by (metis Suc_le_mono drop0 drop_Suc_Cons length_Cons le0 not0_implies_Suc)
  then show ?case using Cons by simp
qed simp

lemma wild_match_literal:
  "star \<notin> set f \<Longrightarrow>
    wild_match (f @ p) v \<longleftrightarrow>
      length f \<le> length v \<and> list_all2 rune_fits f (take (length f) v) \<and> wild_match p (drop (length f) v)"
proof (induction f arbitrary: v)
  case (Cons r f)
  then show ?case by (cases v) auto
qed simp

lemma wild_match_segment:
  "star \<notin> set f \<Longrightarrow> i \<le> length v \<Longrightarrow>
    wild_match (f @ p) (drop i v) \<longleftrightarrow> match_at f v i \<and> wild_match p (drop (i + length f) v)"
  by (auto simp: wild_match_literal match_at_def add.commute)

text \<open>The part of a pattern from a star on, and the positions it may be matched from.\<close>

definition starred :: "rune list list \<Rightarrow> rune list" where
  "starred segs = concat (map (\<lambda>s. star # s) segs)"

lemma starred_simps [simp]: "starred [] = []" "starred (s # segs) = star # s @ starred segs"
  by (simp_all add: starred_def)

lemma wild_match_starred:
  "star \<notin> set s \<Longrightarrow> i \<le> length v \<Longrightarrow>
    wild_match (starred (s # segs)) (drop i v) \<longleftrightarrow>
      (\<exists>k \<ge> i. match_at s v k \<and> wild_match (starred segs) (drop (k + length s) v))"
  (is "_ \<Longrightarrow> _ \<Longrightarrow> ?l \<longleftrightarrow> ?r")
proof
  assume s: "star \<notin> set s" "i \<le> length v" and ?l
  then obtain k where "k \<le> length v - i" "wild_match (s @ starred segs) (drop k (drop i v))"
    unfolding starred_simps wild_match_star by auto
  with s have "i + k \<le> length v" "wild_match (s @ starred segs) (drop (i + k) v)"
    by (simp_all add: add.commute)
  with s show ?r by (auto simp: wild_match_segment intro!: exI [of _ "i + k"])
next
  assume s: "star \<notin> set s" "i \<le> length v" and ?r
  then obtain k where k: "i \<le> k" "match_at s v k" "wild_match (starred segs) (drop (k + length s) v)"
    by blast
  then have "k \<le> length v" by (simp add: match_at_def)
  then have "wild_match (s @ starred segs) (drop k v)" using s k by (simp add: wild_match_segment)
  then show ?l
    using \<open>k \<le> length v\<close> k(1) unfolding starred_simps wild_match_star
    by (intro exI [of _ "k - i"]) simp
qed

lemma place_spec:
  "i \<le> place s v i stop \<and> (\<forall>k. i \<le> k \<and> k < place s v i stop \<longrightarrow> \<not> match_at s v k)
    \<and> (place s v i stop + length s \<le> stop \<longrightarrow> match_at s v (place s v i stop))"
proof (induction s v i stop rule: place.induct)
  case (1 s v i stop)
  show ?case
  proof (cases "i + length s \<le> stop \<and> \<not> match_at s v i")
    case True
    then have eq: "place s v i stop = place s v (i + 1) stop" by (subst place.simps) simp
    have "\<not> match_at s v k" if "i \<le> k" "k < place s v (i + 1) stop" for k
      using that True 1 by (cases "k = i") auto
    moreover have "i \<le> place s v (i + 1) stop" using True 1 by auto
    ultimately show ?thesis unfolding eq using True 1 by blast
  next
    case False
    then have eq: "place s v i stop = i" by (subst place.simps) (rule if_not_P)
    show ?thesis unfolding eq using False by auto
  qed
qed

lemma place_leftmost: "i \<le> k \<Longrightarrow> match_at s v k \<Longrightarrow> place s v i stop \<le> k"
  using place_spec [of i s v stop] by (meson not_le)

text \<open>
  The greedy placement is exact: where the last segment stands at stop, the middle segments can
  be matched between i and stop just when placing each leftmost succeeds.
\<close>

lemma place_all_exact:
  assumes "star \<notin> set l" "\<forall>s \<in> set segs. star \<notin> set s" "stop + length l = length v" "match_at l v stop"
    and "i \<le> stop"
  shows "wild_match (starred (segs @ [l])) (drop i v) \<longleftrightarrow> place_all segs v i stop"
  using assms(2,5)
proof (induction segs arbitrary: i)
  case Nil
  have "match_at l v k \<and> wild_match [] (drop (k + length l) v)" if "k = stop" for k
    using that assms(3,4) by simp
  then show ?case using Nil assms(1,3) by (auto simp: wild_match_starred simp del: starred_simps(2))
next
  case (Cons s segs)
  let ?tail = "\<lambda>i. wild_match (starred (segs @ [l])) (drop i v)"
  have s: "star \<notin> set s" and segs: "\<forall>s \<in> set segs. star \<notin> set s" using Cons.prems by auto
  have end_at: "i' \<le> stop" if "?tail i'" "i' \<le> length v" for i'
    using that segs
  proof (induction segs arbitrary: i')
    case Nil
    then obtain k where "k \<ge> i'" "match_at l v k" "drop (k + length l) v = []"
      using assms(1) by (auto simp: wild_match_starred simp del: starred_simps(2))
    then show ?case using assms(3) by (auto simp: match_at_def)
  next
    case (Cons s' segs')
    then obtain k where k: "k \<ge> i'" "match_at s' v k"
      "wild_match (starred (segs' @ [l])) (drop (k + length s') v)"
      using wild_match_starred [of s' i' v "segs' @ [l]"] by auto
    then have "k + length s' \<le> stop" using Cons.IH Cons.prems by (simp add: match_at_def)
    then show ?case using k(1) by simp
  qed
  have earlier: "?tail i''" if "?tail i'" "i'' \<le> i'" "i' \<le> length v" for i' i''
  proof -
    obtain s0 rest where sr: "segs @ [l] = s0 # rest" by (cases segs) auto
    then have "star \<notin> set s0" using segs assms(1) by (cases segs) auto
    then show ?thesis
      using that wild_match_starred [of s0 i' v rest] wild_match_starred [of s0 i'' v rest]
      unfolding sr by (meson le_trans)
  qed
  let ?j = "place s v i stop"
  have "i \<le> length v" using Cons.prems assms(3) by simp
  then have "wild_match (starred ((s # segs) @ [l])) (drop i v) \<longleftrightarrow>
      (\<exists>k \<ge> i. match_at s v k \<and> ?tail (k + length s))"
    using wild_match_starred [OF s, of i v "segs @ [l]"] by simp
  also have "\<dots> \<longleftrightarrow> ?j + length s \<le> stop \<and> ?tail (?j + length s)"
  proof
    assume "\<exists>k \<ge> i. match_at s v k \<and> ?tail (k + length s)"
    then obtain k where k: "i \<le> k" "match_at s v k" "?tail (k + length s)" by blast
    then have len: "k + length s \<le> length v" by (simp add: match_at_def)
    have "?j \<le> k" using place_leftmost k by blast
    moreover have "k + length s \<le> stop" using end_at k len by blast
    ultimately show "?j + length s \<le> stop \<and> ?tail (?j + length s)"
      using earlier [OF k(3) _ len, of "?j + length s"] by simp
  next
    assume "?j + length s \<le> stop \<and> ?tail (?j + length s)"
    then show "\<exists>k \<ge> i. match_at s v k \<and> ?tail (k + length s)"
      using place_spec [of i s v stop] by blast
  qed
  also have "\<dots> \<longleftrightarrow> place_all (s # segs) v i stop"
    using Cons.IH [OF segs, of "?j + length s"] by (auto simp: Let_def)
  finally show ?case .
qed

lemma match_segments_wild:
  assumes "star \<notin> set f" "\<forall>s \<in> set rest. star \<notin> set s"
  shows "match_segments (f, rest) v \<longleftrightarrow> wild_match (f @ starred rest) v"
proof (cases "rest = []")
  case True
  then show ?thesis
    using wild_match_segment [OF assms(1), of 0 v "[]"] by (auto simp: match_at_def)
next
  case False
  define segs l where "segs = butlast rest" and "l = last rest"
  have rest: "rest = segs @ [l]" using False by (simp add: segs_def l_def)
  have l: "star \<notin> set l" and segs: "\<forall>s \<in> set segs. star \<notin> set s" using assms(2) rest by auto
  let ?stop = "length v - length l"
  have w: "wild_match (f @ starred rest) v \<longleftrightarrow> match_at f v 0 \<and> wild_match (starred rest) (drop (length f) v)"
    using wild_match_segment [OF assms(1), of 0 v "starred rest"] by simp
  have need: "length f \<le> ?stop \<and> length l \<le> length v \<and> match_at l v ?stop"
    if "wild_match (starred (ss @ [l])) (drop i v)" "i \<le> length v" "\<forall>s \<in> set ss. star \<notin> set s" "length f \<le> i"
    for ss i
    using that
  proof (induction ss arbitrary: i)
    case Nil
    then obtain k where "k \<ge> i" "match_at l v k" "drop (k + length l) v = []"
      using l by (auto simp: wild_match_starred simp del: starred_simps(2))
    moreover from this have "k + length l = length v" by (simp add: match_at_def)
    then have "length v - length l = k" by simp
    ultimately show ?case using Nil.prems(4) by (simp add: match_at_def)
  next
    case (Cons s ss)
    then obtain k where "k \<ge> i" "match_at s v k" "wild_match (starred (ss @ [l])) (drop (k + length s) v)"
      using wild_match_starred [of s i v "ss @ [l]"] by auto
    then show ?case using Cons.IH [of "k + length s"] Cons.prems by (simp add: match_at_def)
  qed
  show ?thesis
  proof (cases "match_at f v 0")
    case m: True
    then have fv: "length f \<le> length v" by (simp add: match_at_def)
    show ?thesis
    proof (cases "length f \<le> ?stop \<and> length l \<le> length v \<and> match_at l v ?stop")
      case True
      then have "wild_match (starred rest) (drop (length f) v) \<longleftrightarrow> place_all segs v (length f) ?stop"
        unfolding rest using l segs by (intro place_all_exact) auto
      moreover have "\<not> length v < length f + length l" using True by linarith
      ultimately show ?thesis using True m w by (simp add: rest)
    next
      case bad: False
      then have "\<not> wild_match (starred rest) (drop (length f) v)"
        unfolding rest using need fv segs by blast
      then show ?thesis using w m bad False by (auto simp: rest)
    qed
  next
    case nm: False
    then show ?thesis using w False by simp
  qed
qed

lemma star_byte: "byte (CHR ''*'') = star"
  by (simp add: byte_def star_def)

lemma glob_contains_wild: "glob_contains (make_glob p) v \<longleftrightarrow> wild_match (runes p) (runes v)"
proof -
  obtain h t where sp: "split_byte (CHR ''*'') p = (h, t)" by fastforce
  have ascii: "byte (CHR ''*'') < 128" by (simp add: byte_def)
  have pieces: "star \<notin> set (runes h)" "\<forall>s \<in> set (map runes t). star \<notin> set s"
    using split_byte_pieces [OF sp] byte_in_runes [OF ascii] by (auto simp: star_byte)
  have "runes p = runes h @ starred (map runes t)"
    using runes_split_byte [OF ascii sp] by (simp add: starred_def star_byte comp_def)
  then show ?thesis
    using match_segments_wild [OF pieces] by (simp add: glob_contains_def make_glob_def sp)
qed

end
