(* ===== verification/Go_Quote.thy ===== *)
theory Go_Quote imports Go_Strings begin

text \<open>
  strconv.QuoteToASCII, which every rendering of the program quotes text with, and the reading of
  one double-quoted literal at the head of a text (strconv.QuotedPrefix and Unquote), which the
  join reads renderings back with. unquote_quote is the round trip: a quoted text is read back as
  it was, byte for byte, with nothing left over and nothing taken from what follows. That makes
  quoting injective, which the canonical forms of package eval rest on.
\<close>

section \<open>QuoteToASCII\<close>

definition dquote :: char where "dquote = CHR 0x22"
definition backslash :: char where "backslash = CHR 0x5C"

definition hexdigit :: "nat \<Rightarrow> char" where
  "hexdigit n = (if n < 10 then chr (48 + n) else chr (87 + n))"

text \<open>The last k hexadecimal digits of a number, most significant first.\<close>

fun hex_digits :: "nat \<Rightarrow> nat \<Rightarrow> string" where
  "hex_digits 0 v = []"
| "hex_digits (Suc k) v = hexdigit (v div 16 ^ k mod 16) # hex_digits k v"

text \<open>appendEscapedRune with ASCIIonly set.\<close>

definition escape_rune :: "rune \<Rightarrow> string" where
  "escape_rune r =
     (if r = 34 \<or> r = 92 then [backslash, chr r]
      else if 32 \<le> r \<and> r < 127 then [chr r]
      else if r = 7 then [backslash, CHR ''a'']
      else if r = 8 then [backslash, CHR ''b'']
      else if r = 12 then [backslash, CHR ''f'']
      else if r = 10 then [backslash, CHR ''n'']
      else if r = 13 then [backslash, CHR ''r'']
      else if r = 9 then [backslash, CHR ''t'']
      else if r = 11 then [backslash, CHR ''v'']
      else if r < 32 \<or> r = 127 then backslash # CHR ''x'' # hex_digits 2 r
      else if r < 65536 then backslash # CHR ''u'' # hex_digits 4 (if valid_rune r then r else rune_error)
      else if valid_rune r then backslash # CHR ''U'' # hex_digits 8 r
      else backslash # CHR ''u'' # hex_digits 4 rune_error)"

function quote_body :: "string \<Rightarrow> string" where
  "quote_body s =
     (if s = [] then []
      else (if decode_rune s = (rune_error, 1)
            then backslash # CHR ''x'' # hex_digits 2 (byte (hd s))
            else escape_rune (fst (decode_rune s)))
           @ quote_body (drop (snd (decode_rune s)) s))"
  by pat_completeness auto
termination
proof (relation "measure length")
  fix s :: string
  assume "s \<noteq> []"
  then have "1 \<le> snd (decode_rune s)" using decode_width [of s] by (metis surjective_pairing)
  then show "(drop (snd (decode_rune s)) s, s) \<in> measure length" using \<open>s \<noteq> []\<close> by simp
qed simp

declare quote_body.simps [simp del]

definition quote_to_ascii :: "string \<Rightarrow> string" where
  "quote_to_ascii s = dquote # quote_body s @ [dquote]"

section \<open>Reading a quoted literal\<close>

definition unhex :: "char \<Rightarrow> nat option" where
  "unhex c =
     (let b = byte c in
      if 48 \<le> b \<and> b \<le> 57 then Some (b - 48)
      else if 97 \<le> b \<and> b \<le> 102 then Some (b - 87)
      else if 65 \<le> b \<and> b \<le> 70 then Some (b - 55)
      else None)"

fun read_hex :: "nat \<Rightarrow> nat \<Rightarrow> string \<Rightarrow> (nat \<times> string) option" where
  "read_hex 0 v s = Some (v, s)"
| "read_hex (Suc k) v [] = None"
| "read_hex (Suc k) v (c # s) =
     (case unhex c of None \<Rightarrow> None | Some d \<Rightarrow> read_hex k (v * 16 + d) s)"

fun read_octal :: "nat \<Rightarrow> nat \<Rightarrow> string \<Rightarrow> (nat \<times> string) option" where
  "read_octal 0 v s = Some (v, s)"
| "read_octal (Suc k) v [] = None"
| "read_octal (Suc k) v (c # s) =
     (if 48 \<le> byte c \<and> byte c \<le> 55 then read_octal k (v * 8 + (byte c - 48)) s else None)"

text \<open>
  UnquoteChar for the quote character \<open>"\<close>: the rune read, whether it is to be written as a rune
  (rather than as the byte it stands for), and the text after it.
\<close>

fun unquote_char :: "string \<Rightarrow> (rune \<times> bool \<times> string) option" where
  "unquote_char [] = None"
| "unquote_char (c # s) =
     (if c = dquote then None
      else if 128 \<le> byte c then
        Some (fst (decode_rune (c # s)), True, drop (snd (decode_rune (c # s))) (c # s))
      else if c \<noteq> backslash then Some (byte c, False, s)
      else case s of
        [] \<Rightarrow> None
      | e # t \<Rightarrow>
          if e = CHR ''a'' then Some (7, False, t)
          else if e = CHR ''b'' then Some (8, False, t)
          else if e = CHR ''f'' then Some (12, False, t)
          else if e = CHR ''n'' then Some (10, False, t)
          else if e = CHR ''r'' then Some (13, False, t)
          else if e = CHR ''t'' then Some (9, False, t)
          else if e = CHR ''v'' then Some (11, False, t)
          else if e = CHR ''x'' then map_option (\<lambda>(v, u). (v, False, u)) (read_hex 2 0 t)
          else if e = CHR ''u'' \<or> e = CHR ''U'' then
            (case read_hex (if e = CHR ''u'' then 4 else 8) 0 t of
               None \<Rightarrow> None
             | Some (v, u) \<Rightarrow> if valid_rune v then Some (v, True, u) else None)
          else if 48 \<le> byte e \<and> byte e \<le> 55 then
            (case read_octal 2 (byte e - 48) t of
               None \<Rightarrow> None
             | Some (v, u) \<Rightarrow> if v \<le> 255 then Some (v, False, u) else None)
          else if e = backslash \<or> e = dquote then Some (byte e, False, t)
          else None)"

lemma read_hex_length: "read_hex k v s = Some (w, t) \<Longrightarrow> length t \<le> length s"
  by (induction k v s rule: read_hex.induct) (fastforce split: option.splits)+

lemma read_octal_length: "read_octal k v s = Some (w, t) \<Longrightarrow> length t \<le> length s"
  by (induction k v s rule: read_octal.induct) (fastforce split: if_splits)+

lemma unquote_char_length:
  assumes "unquote_char s = Some (r, m, t)"
  shows "length t < length s"
proof (cases s)
  case (Cons c u)
  have "1 \<le> snd (decode_rune (c # u))"
    using decode_width [of "c # u"] by (metis list.discI surjective_pairing)
  then show ?thesis
    using assms Cons
    by (auto split: if_splits list.splits option.splits dest!: read_hex_length read_octal_length)
qed (use assms in simp)

text \<open>The bytes between an opening quote and the quote that closes it, and the text after that.\<close>

function unquote_body :: "string \<Rightarrow> (string \<times> string) option" where
  "unquote_body s =
     (case s of
        [] \<Rightarrow> None
      | c # t \<Rightarrow>
          if c = dquote then Some ([], t)
          else if c = CHR 0x0A then None
          else (case unquote_char s of
                  None \<Rightarrow> None
                | Some (r, multibyte, u) \<Rightarrow>
                    map_option (\<lambda>(w, rest). ((if r < 128 \<or> \<not> multibyte then [chr r] else encode_rune r) @ w, rest))
                      (unquote_body u)))"
  by pat_completeness auto
termination
  by (relation "measure length") (auto dest: unquote_char_length simp del: unquote_char.simps)

declare unquote_body.simps [simp del]

lemma unhex_hexdigit: "n < 16 \<Longrightarrow> unhex (hexdigit n) = Some n"
  by (auto simp: unhex_def hexdigit_def)

lemma read_hex_digits:
  "read_hex k a (hex_digits k v @ t) = Some (a * 16 ^ k + v mod 16 ^ k, t)"
proof (induction k arbitrary: a)
  case (Suc k)
  have "v mod 16 ^ Suc k = 16 ^ k * (v div 16 ^ k mod 16) + v mod 16 ^ k"
    by (metis mod_mult2_eq power_Suc2)
  then show ?case using Suc by (simp add: unhex_hexdigit algebra_simps)
qed simp

lemma chr_eq_iff: "n < 256 \<Longrightarrow> chr n = c \<longleftrightarrow> n = byte c"
  by (metis byte_chr chr_byte)

lemma byte_quote_chars [simp]: "byte dquote = 34" "byte backslash = 92" "byte (CHR 0x0A) = 10"
  by (simp_all add: dquote_def backslash_def byte_def)

lemma quote_chars_neq [simp]: "backslash \<noteq> dquote" "backslash \<noteq> CHR 0x0A"
  by (simp_all add: dquote_def backslash_def)

text \<open>One escape is read back as the rune it was written for.\<close>

definition reads_as :: "string \<Rightarrow> rune \<Rightarrow> bool \<Rightarrow> bool" where
  "reads_as w r m \<longleftrightarrow>
     (\<forall>t. unquote_char (w @ t) = Some (r, m, t)) \<and> w \<noteq> [] \<and> hd w \<noteq> dquote \<and> hd w \<noteq> CHR 0x0A"

lemma reads_plain: "32 \<le> r \<Longrightarrow> r < 127 \<Longrightarrow> r \<noteq> 34 \<Longrightarrow> r \<noteq> 92 \<Longrightarrow> reads_as [chr r] r False"
  by (simp add: reads_as_def chr_eq_iff)

text \<open>The runes Go writes as a backslash and one letter.\<close>

definition letter_escapes :: "(rune \<times> char) list" where
  "letter_escapes = [(34, dquote), (92, backslash), (7, CHR ''a''), (8, CHR ''b''), (12, CHR ''f''),
     (10, CHR ''n''), (13, CHR ''r''), (9, CHR ''t''), (11, CHR ''v'')]"

lemma escape_letter: "map_of letter_escapes r = Some e \<Longrightarrow> escape_rune r = [backslash, e]"
  by (auto simp: letter_escapes_def split: if_splits) (simp_all add: escape_rune_def chr_eq_iff)

lemma reads_backslash: "map_of letter_escapes r = Some e \<Longrightarrow> reads_as [backslash, e] r False \<and> r < 128"
  by (auto simp: letter_escapes_def reads_as_def dquote_def backslash_def byte_def split: if_splits)

lemma no_letter_escape:
  "map_of letter_escapes r = None \<Longrightarrow> r \<noteq> 34 \<and> r \<noteq> 92 \<and> r \<noteq> 7 \<and> r \<noteq> 8 \<and> r \<noteq> 12 \<and> r \<noteq> 10
    \<and> r \<noteq> 13 \<and> r \<noteq> 9 \<and> r \<noteq> 11"
  by (simp add: letter_escapes_def split: if_splits)

lemma reads_hex2: "v < 256 \<Longrightarrow> reads_as (backslash # CHR ''x'' # hex_digits 2 v) v False"
  using read_hex_digits [of 2 0 v] by (auto simp: reads_as_def)

lemma reads_hex4: "v < 65536 \<Longrightarrow> valid_rune v \<Longrightarrow> reads_as (backslash # CHR ''u'' # hex_digits 4 v) v True"
  using read_hex_digits [of 4 0 v] by (auto simp: reads_as_def)

lemma reads_hex8: "valid_rune v \<Longrightarrow> reads_as (backslash # CHR ''U'' # hex_digits 8 v) v True"
  using read_hex_digits [of 8 0 v] by (auto simp: reads_as_def valid_rune_def)

lemma reads_escape:
  assumes "valid_rune r"
  shows "\<exists>m. reads_as (escape_rune r) r m \<and> (r < 128 \<or> m)"
proof (cases "map_of letter_escapes r")
  case (Some e)
  then show ?thesis using escape_letter reads_backslash by metis
next
  case None
  note no = no_letter_escape [OF None]
  consider (p) "32 \<le> r" "r < 127" | (x) "r < 32 \<or> r = 127" | (u) "128 \<le> r" "r < 65536" | (U) "65536 \<le> r"
    by linarith
  then show ?thesis
  proof cases
    case p
    then have "escape_rune r = [chr r]" using no by (simp add: escape_rune_def)
    then show ?thesis using reads_plain p no by auto
  next
    case x
    then have "escape_rune r = backslash # CHR ''x'' # hex_digits 2 r"
      using no by (auto simp: escape_rune_def)
    with x show ?thesis using reads_hex2 [of r] by auto
  next
    case u
    then have "escape_rune r = backslash # CHR ''u'' # hex_digits 4 r"
      using assms by (simp add: escape_rune_def)
    with u assms show ?thesis using reads_hex4 [of r] by auto
  next
    case U
    then have "escape_rune r = backslash # CHR ''U'' # hex_digits 8 r"
      using assms by (simp add: escape_rune_def)
    with U assms show ?thesis using reads_hex8 [of r] by auto
  qed
qed

lemma unquote_body_reads:
  assumes "reads_as w r m"
  shows "unquote_body (w @ t) = map_option
    (\<lambda>(u, rest). ((if r < 128 \<or> \<not> m then [chr r] else encode_rune r) @ u, rest)) (unquote_body t)"
proof -
  obtain c u where "w = c # u" "c \<noteq> dquote" "c \<noteq> CHR 0x0A"
    using assms by (cases w) (auto simp: reads_as_def)
  moreover have "unquote_char (w @ t) = Some (r, m, t)" using assms by (simp add: reads_as_def)
  ultimately show ?thesis by (subst unquote_body.simps) simp
qed

theorem unquote_quote: "unquote_body (quote_body s @ dquote # t) = Some (s, t)"
proof (induction s rule: quote_body.induct)
  case (1 s)
  show ?case
  proof (cases "s = []")
    case True
    then show ?thesis by (simp add: quote_body.simps unquote_body.simps)
  next
    case False
    obtain r n where d: "decode_rune s = (r, n)" by fastforce
    have IH: "unquote_body (quote_body (drop n s) @ dquote # t) = Some (drop n s, t)"
      using "1.IH" False d by simp
    show ?thesis
    proof (cases "r = rune_error \<and> n = 1")
      case True
      let ?w = "backslash # CHR ''x'' # hex_digits 2 (byte (hd s))"
      have "quote_body s = ?w @ quote_body (drop n s)"
        using False d True by (subst quote_body.simps) simp
      moreover have "[hd s] @ drop n s = s" using True False by (cases s) auto
      ultimately show ?thesis
        using unquote_body_reads [OF reads_hex2 [OF byte_less]] IH by simp
    next
      case valid: False
      then have e: "encode_rune r = take n s" using encode_decode [OF d False] by blast
      obtain m where m: "reads_as (escape_rune r) r m" "r < 128 \<or> m"
        using reads_escape decode_valid [OF d] by blast
      have "quote_body s = escape_rune r @ quote_body (drop n s)"
        using False d valid by (subst quote_body.simps) auto
      moreover have "(if r < 128 \<or> \<not> m then [chr r] else encode_rune r) = take n s"
        using m(2) e by (auto simp: encode_rune_def encode_valid_def valid_rune_def)
      ultimately show ?thesis
        using unquote_body_reads [OF m(1)] IH by simp
    qed
  qed
qed

text \<open>Two quoted texts that agree up to what follows them are quotes of one text.\<close>

lemma quote_to_ascii_append_inject:
  assumes "quote_to_ascii s @ t = quote_to_ascii s' @ t'"
  shows "s = s' \<and> t = t'"
proof -
  have "unquote_body (quote_body s @ dquote # t) = unquote_body (quote_body s' @ dquote # t')"
    using assms by (simp add: quote_to_ascii_def)
  then show ?thesis by (simp add: unquote_quote)
qed

lemma quote_to_ascii_inject [simp]: "quote_to_ascii s = quote_to_ascii s' \<longleftrightarrow> s = s'"
  using quote_to_ascii_append_inject [of s "[]" s' "[]"] by auto

lemma quote_to_ascii_hd [simp]: "hd (quote_to_ascii s) = dquote" "quote_to_ascii s \<noteq> []"
  by (simp_all add: quote_to_ascii_def)

end
