(* ===== verification/Eval_String_Set.thy ===== *)
theory Eval_String_Set imports Eval_Glob Go_Quote begin

text \<open>
  Package eval, stringset.go and the constructor of glob.go: the lattice of the values one claim
  may hold. The seven nodes are a datatype, one constructor per Go type; a method of the
  interface is a function by cases on the node, and meet and join are the two shared functions.

  A type assertion that fails panics in Go. globsOf is where one could, so meet returns an
  option, None for the panic; meet_spec shows that sets the package builds never reach it.
\<close>

section \<open>The nodes\<close>

datatype string_set =
    SExact string
  | SGlob glob
  | SFull
  | SEmpty
  | SUnknown (unknown_reasons: "string list")
  | SUnion (union_members: "string_set list")
  | SInter "glob list"

fun contains :: "string_set \<Rightarrow> string \<Rightarrow> bool" where
  "contains (SExact w) v = (v = w)"
| "contains (SGlob g) v = glob_contains g v"
| "contains SFull v = True"
| "contains SEmpty v = False"
| "contains (SUnknown rs) v = True"
| "contains (SUnion ms) v = list_ex (\<lambda>m. contains m v) ms"
| "contains (SInter gs) v = list_all (\<lambda>g. glob_contains g v) gs"

fun is_empty :: "string_set \<Rightarrow> bool" where
  "is_empty SEmpty = True"
| "is_empty _ = False"

fun is_top :: "string_set \<Rightarrow> bool" where
  "is_top SFull = True"
| "is_top (SUnknown _) = True"
| "is_top _ = False"

fun is_unknown :: "string_set \<Rightarrow> bool" where
  "is_unknown (SUnknown _) = True"
| "is_unknown _ = False"

fun reason :: "string_set \<Rightarrow> string" where
  "reason (SUnknown rs) = join_strings ''; '' rs"
| "reason _ = []"

text \<open>The constructors a parser calls. None is the empty set here, so its name carries a suffix.\<close>

definition Exact :: "string \<Rightarrow> string_set" where "Exact v = SExact v"
definition Any :: string_set where "Any = SFull"
definition None_set :: string_set where "None_set = SEmpty"
definition Unknown :: "string \<Rightarrow> string_set" where "Unknown r = SUnknown [r]"

definition Glob :: "string \<Rightarrow> string_set" where
  "Glob p =
     (if \<not> contains_any p ''*?'' then SExact p
      else if trim_byte (CHR ''*'') p = [] then SFull
      else SGlob (make_glob p))"

section \<open>Rendering\<close>

definition empty_text :: string where "empty_text = [CHR 0xE2, CHR 0x88, CHR 0x85]"

definition render_glob :: "glob \<Rightarrow> string" where
  "render_glob g = ''like:'' @ quote_to_ascii (glob_pattern g)"

definition render_members :: "string list \<Rightarrow> string \<Rightarrow> string" where
  "render_members parts sep = ''('' @ join_strings sep parts @ '')''"

fun render :: "string_set \<Rightarrow> string" where
  "render (SExact v) = quote_to_ascii v"
| "render (SGlob g) = render_glob g"
| "render SFull = ''*''"
| "render SEmpty = empty_text"
| "render (SUnknown rs) = ''?('' @ join_strings '', '' (map quote_to_ascii rs) @ '')''"
| "render (SUnion ms) = render_members (map render ms) '' | ''"
| "render (SInter gs) = render_members (map render_glob gs) '' & ''"

section \<open>Meet and join\<close>

definition merge_unknown :: "string list \<Rightarrow> string list \<Rightarrow> string_set" where
  "merge_unknown a b = SUnknown (compact_func (=) (sort_func go_compare (a @ b)))"

definition meet_unknown :: "string list \<Rightarrow> string_set \<Rightarrow> string_set" where
  "meet_unknown u x = (if is_top x then SUnknown u else x)"

fun terms :: "string_set \<Rightarrow> string_set list" where
  "terms (SUnion ms) = ms"
| "terms s = [s]"

text \<open>globsOf: None where the assertion s.(glob) panics.\<close>

fun globs_of :: "string_set \<Rightarrow> glob list option" where
  "globs_of (SInter gs) = Some gs"
| "globs_of (SGlob g) = Some [g]"
| "globs_of _ = None"

definition new_inter :: "glob list \<Rightarrow> string_set" where
  "new_inter globs =
     (let globs = sort_func (\<lambda>a b. go_compare (glob_pattern a) (glob_pattern b)) globs;
          globs = compact_func (\<lambda>a b. glob_pattern a = glob_pattern b) globs in
      case globs of [g] \<Rightarrow> SGlob g | _ \<Rightarrow> SInter globs)"

definition meet_exact :: "string \<Rightarrow> string_set \<Rightarrow> string_set" where
  "meet_exact v s = (if contains s v then SExact v else SEmpty)"

definition meet_terms :: "string_set \<Rightarrow> string_set \<Rightarrow> string_set option" where
  "meet_terms s t =
     (case s of SExact v \<Rightarrow> Some (meet_exact v t)
      | _ \<Rightarrow> (case t of SExact v \<Rightarrow> Some (meet_exact v s)
              | _ \<Rightarrow> (case globs_of s of None \<Rightarrow> None
                      | Some gs \<Rightarrow> map_option (\<lambda>hs. new_inter (gs @ hs)) (globs_of t))))"

text \<open>containedByOther: whether a member other than the one at position skip contains v.\<close>

definition contained_by_other :: "string \<Rightarrow> string_set list \<Rightarrow> nat \<Rightarrow> bool" where
  "contained_by_other v members skip =
     list_ex (\<lambda>(j, m). j \<noteq> skip \<and> contains m v) (enumerate 0 members)"

definition new_union :: "string_set list \<Rightarrow> string_set" where
  "new_union members =
     (let members = sort_func (\<lambda>a b. go_compare (render a) (render b)) members;
          members = compact_func (\<lambda>a b. render a = render b) members;
          kept = [m. (i, m) \<leftarrow> enumerate 0 members,
                     \<not> (case m of SExact v \<Rightarrow> contained_by_other v members i | _ \<Rightarrow> False)] in
      case kept of [m] \<Rightarrow> m | _ \<Rightarrow> SUnion kept)"

definition join :: "string_set \<Rightarrow> string_set \<Rightarrow> string_set" where
  "join a b =
     (case (a, b) of
        (SUnknown u, SUnknown w) \<Rightarrow> merge_unknown u w
      | (SUnknown u, _) \<Rightarrow> SUnknown u
      | (_, SUnknown w) \<Rightarrow> SUnknown w
      | _ \<Rightarrow>
        if is_top a \<or> is_top b then SFull
        else if is_empty a then b
        else if is_empty b then a
        else new_union (terms a @ terms b))"

text \<open>The two nested loops of meet, over the pairs they visit in order.\<close>

fun meet_pairs :: "(string_set \<times> string_set) list \<Rightarrow> string_set \<Rightarrow> string_set option" where
  "meet_pairs [] out = Some out"
| "meet_pairs ((s, t) # ps) out =
     (case meet_terms s t of None \<Rightarrow> None | Some m \<Rightarrow> meet_pairs ps (join out m))"

definition meet :: "string_set \<Rightarrow> string_set \<Rightarrow> string_set option" where
  "meet a b =
     (if is_empty a \<or> is_empty b then Some SEmpty
      else case (a, b) of
        (SUnknown u, SUnknown w) \<Rightarrow> Some (merge_unknown u w)
      | (SUnknown u, _) \<Rightarrow> Some (meet_unknown u b)
      | (_, SUnknown w) \<Rightarrow> Some (meet_unknown w a)
      | _ \<Rightarrow>
        if is_top a then Some b
        else if is_top b then Some a
        else meet_pairs (List.product (terms a) (terms b)) SEmpty)"

section \<open>The invariant the constructors' comments state\<close>

text \<open>The pattern determines the glob, as only Glob builds one.\<close>

definition wf_glob :: "glob \<Rightarrow> bool" where
  "wf_glob g \<longleftrightarrow> Glob (glob_pattern g) = SGlob g"

fun wf_term :: "string_set \<Rightarrow> bool" where
  "wf_term (SExact v) = True"
| "wf_term (SGlob g) = wf_glob g"
| "wf_term (SInter gs) = (2 \<le> length gs \<and> key_sorted glob_pattern gs \<and> list_all wf_glob gs)"
| "wf_term _ = False"

definition absorbed :: "string_set \<Rightarrow> string_set set \<Rightarrow> bool" where
  "absorbed m S \<longleftrightarrow> (\<exists>v. m = SExact v \<and> (\<exists>m' \<in> S. m' \<noteq> m \<and> contains m' v))"

fun wf_set :: "string_set \<Rightarrow> bool" where
  "wf_set (SUnknown rs) = (rs \<noteq> [] \<and> sorted_wrt (<) rs)"
| "wf_set (SUnion ms) =
     (2 \<le> length ms \<and> key_sorted render ms \<and> list_all wf_term ms \<and> (\<forall>m \<in> set ms. \<not> absorbed m (set ms)))"
| "wf_set SFull = True"
| "wf_set SEmpty = True"
| "wf_set s = wf_term s"

lemma wf_term_wf [wf_intros]: "wf_term s \<Longrightarrow> wf_set s"
  by (cases s) auto

lemma wf_Exact [simp]: "wf_set (SExact v)" and wf_Unknown [simp]: "wf_set (SUnknown [r])"
  by simp_all

lemma Glob_wf: "wf_set (Glob p)"
  by (auto simp: Glob_def wf_glob_def make_glob_def split: prod.splits)

lemma wf_glob_inject: "wf_glob g \<Longrightarrow> wf_glob h \<Longrightarrow> glob_pattern g = glob_pattern h \<Longrightarrow> g = h"
  by (metis string_set.inject(2) wf_glob_def)

lemma wf_globs_inj: "list_all wf_glob gs \<Longrightarrow> inj_on glob_pattern (set gs)"
  by (auto simp: inj_on_def list_all_iff intro: wf_glob_inject)

section \<open>The rendering of a term is self-delimiting\<close>

lemma quote_starts: "\<exists>q. quote_to_ascii v = dquote # q"
  by (simp add: quote_to_ascii_def)

lemma render_glob_delimited: "render_glob g @ x = render_glob h @ y \<Longrightarrow> glob_pattern g = glob_pattern h \<and> x = y"
  using quote_to_ascii_append_inject [of "glob_pattern g" x "glob_pattern h" y] by (simp add: render_glob_def)

text \<open>
  A joined list of self-delimiting texts is itself self-delimiting, once closed by a parenthesis
  the separator does not begin with.
\<close>

lemma joined_delimited:
  assumes "\<And>a b x y. a \<in> A \<Longrightarrow> b \<in> B \<Longrightarrow> f a @ x = f b @ y \<Longrightarrow> a = b \<and> x = y"
    and "c \<noteq> CHR '')''" "xs \<noteq> []" "ys \<noteq> []" "set xs \<subseteq> A" "set ys \<subseteq> B"
    and "join_strings (c # sep) (map f xs) @ '')'' @ x = join_strings (c # sep) (map f ys) @ '')'' @ y"
  shows "xs = ys \<and> x = y"
  using assms(3-)
proof (induction xs arbitrary: ys)
  case (Cons a xs)
  obtain b ys' where ys: "ys = b # ys'" using Cons.prems(2) by (cases ys) auto
  have a: "a \<in> A" and b: "b \<in> B" using Cons.prems ys by auto
  obtain u where u: "join_strings (c # sep) (map f (a # xs)) @ '')'' @ x = f a @ u"
    "u = (if xs = [] then '')'' @ x else (c # sep) @ join_strings (c # sep) (map f xs) @ '')'' @ x)"
    by (cases xs) auto
  obtain w where w: "join_strings (c # sep) (map f ys) @ '')'' @ y = f b @ w"
    "w = (if ys' = [] then '')'' @ y else (c # sep) @ join_strings (c # sep) (map f ys') @ '')'' @ y)"
    by (cases ys') (auto simp: ys)
  have ab: "a = b" "u = w" using assms(1) [OF a b, of u w] Cons.prems(5) u(1) w(1) by simp_all
  show ?case
  proof (cases "xs = []")
    case True
    then have "ys' = []" using ab(2) u(2) w(2) assms(2) by (cases "ys' = []") simp_all
    then show ?thesis using True ab u(2) w(2) by (simp add: ys)
  next
    case False
    then have ne: "ys' \<noteq> []" using ab(2) u(2) w(2) assms(2) by (cases "ys' = []") simp_all
    have "xs = ys' \<and> x = y"
    proof (rule Cons.IH [OF False ne])
      show "set xs \<subseteq> A" "set ys' \<subseteq> B" using Cons.prems(3,4) ys by auto
      show "join_strings (c # sep) (map f xs) @ '')'' @ x = join_strings (c # sep) (map f ys') @ '')'' @ y"
        using ab(2) u(2) w(2) False ne by simp
    qed
    then show ?thesis using ab(1) by (simp add: ys)
  qed
qed simp

lemma joined_separators:
  assumes "\<And>a b x y. a \<in> A \<Longrightarrow> b \<in> B \<Longrightarrow> f a @ x = f' b @ y \<Longrightarrow> x = y"
    and "set xs \<subseteq> A" "set ys \<subseteq> B" "2 \<le> length xs" "2 \<le> length ys" "sep \<noteq> sep'" "length sep = length sep'"
  shows "join_strings sep (map f xs) @ x \<noteq> join_strings sep' (map f' ys) @ y"
proof
  assume eq: "join_strings sep (map f xs) @ x = join_strings sep' (map f' ys) @ y"
  obtain a a' xs' b b' ys' where l: "xs = a # a' # xs'" "ys = b # b' # ys'"
    using assms(4,5) by (metis Suc_le_length_iff numeral_2_eq_2)
  have "f a @ (sep @ join_strings sep (map f (a' # xs')) @ x) = f' b @ (sep' @ join_strings sep' (map f' (b' # ys')) @ y)"
    using eq by (simp add: l)
  then have "sep @ join_strings sep (map f (a' # xs')) @ x = sep' @ join_strings sep' (map f' (b' # ys')) @ y"
    using assms(1) [of a b] assms(2,3) by (simp add: l)
  then show False using assms(6,7) by auto
qed


text \<open>Terms render to a prefix code, so a rendering of a list of them reads back one way only.\<close>

lemma inter_delimited:
  assumes "wf_term (SInter gs)" "wf_term (SInter hs)" "render (SInter gs) @ x = render (SInter hs) @ y"
  shows "gs = hs \<and> x = y"
proof (rule joined_delimited [where A = "{g. wf_glob g}" and B = "{g. wf_glob g}" and f = render_glob
      and c = "CHR '' ''" and sep = "''& ''"])
  show "a = b \<and> x = y" if "a \<in> {g. wf_glob g}" "b \<in> {g. wf_glob g}" "render_glob a @ x = render_glob b @ y"
    for a b x y
    using that render_glob_delimited wf_glob_inject by blast
  show "gs \<noteq> []" "hs \<noteq> []" "set gs \<subseteq> {g. wf_glob g}" "set hs \<subseteq> {g. wf_glob g}"
    using assms(1,2) by (auto simp: list_all_iff)
  show "join_strings '' & '' (map render_glob gs) @ '')'' @ x = join_strings '' & '' (map render_glob hs) @ '')'' @ y"
    using assms(3) by (simp add: render_members_def)
qed simp

lemma term_text_head:
  "wf_term s \<Longrightarrow> \<exists>q. render s = (case s of SExact _ \<Rightarrow> dquote | SGlob _ \<Rightarrow> CHR ''l'' | _ \<Rightarrow> CHR ''('') # q"
  by (cases s) (auto simp: quote_to_ascii_def render_glob_def render_members_def)

lemma term_delimited:
  assumes s: "wf_term s" and t: "wf_term t" and eq: "render s @ x = render t @ y"
  shows "s = t \<and> x = y"
proof -
  have h: "(case s of SExact _ \<Rightarrow> dquote | SGlob _ \<Rightarrow> CHR ''l'' | _ \<Rightarrow> CHR ''('') =
      (case t of SExact _ \<Rightarrow> dquote | SGlob _ \<Rightarrow> CHR ''l'' | _ \<Rightarrow> CHR ''('')"
    using term_text_head [OF s] term_text_head [OF t] eq by auto
  show ?thesis
  proof (cases s)
    case (SExact v)
    then obtain w where "t = SExact w" using h t by (cases t) (auto simp: dquote_def)
    then show ?thesis using eq quote_to_ascii_append_inject [of v x w y] by (simp add: SExact)
  next
    case (SGlob g)
    then obtain g' where t': "t = SGlob g'" using h t by (cases t) (auto simp: dquote_def)
    then have "glob_pattern g = glob_pattern g' \<and> x = y"
      using eq by (intro render_glob_delimited) (simp add: SGlob)
    then show ?thesis using wf_glob_inject [of g g'] s t by (simp add: SGlob t')
  next
    case (SInter gs)
    then obtain hs where t': "t = SInter hs" using h t by (cases t) (auto simp: dquote_def)
    show ?thesis using inter_delimited s t eq unfolding SInter t' by blast
  qed (use s in simp_all)
qed

lemma wf_terms_inj: "list_all wf_term ms \<Longrightarrow> inj_on render (set ms)"
  using term_delimited [of _ _ "[]" "[]"] by (auto simp: inj_on_def list_all_iff)

lemma union_inter_differ:
  assumes "wf_set (SUnion ms)" "wf_term (SInter gs)"
  shows "render (SUnion ms) @ x \<noteq> render (SInter gs) @ y"
proof -
  have "join_strings '' | '' (map render ms) @ '')'' @ x \<noteq> join_strings '' & '' (map render_glob gs) @ '')'' @ y"
  proof (rule joined_separators [where A = "{m. wf_term m}" and B = "{g. wf_glob g}"])
    show "x = y" if "a \<in> {m. wf_term m}" "b \<in> {g. wf_glob g}" "render a @ x = render_glob b @ y" for a b x y
      using that term_delimited [of a "SGlob b" x y] by simp
  qed (use assms in \<open>auto simp: list_all_iff\<close>)
  then show ?thesis by (simp add: render_members_def)
qed

lemma union_delimited:
  assumes "wf_set (SUnion ms)" "wf_set (SUnion ns)" "render (SUnion ms) @ x = render (SUnion ns) @ y"
  shows "ms = ns \<and> x = y"
proof (rule joined_delimited [where A = "{m. wf_term m}" and B = "{m. wf_term m}" and f = render
      and c = "CHR '' ''" and sep = "''| ''"])
  show "a = b \<and> x = y" if "a \<in> {m. wf_term m}" "b \<in> {m. wf_term m}" "render a @ x = render b @ y" for a b x y
    using that term_delimited by blast
  show "ms \<noteq> []" "ns \<noteq> []" "set ms \<subseteq> {m. wf_term m}" "set ns \<subseteq> {m. wf_term m}"
    using assms(1,2) by (auto simp: list_all_iff)
  show "join_strings '' | '' (map render ms) @ '')'' @ x = join_strings '' | '' (map render ns) @ '')'' @ y"
    using assms(3) by (simp add: render_members_def)
qed simp

lemma unknown_delimited:
  assumes "rs \<noteq> []" "qs \<noteq> []" "render (SUnknown rs) @ x = render (SUnknown qs) @ y"
  shows "rs = qs \<and> x = y"
proof (rule joined_delimited [where A = UNIV and B = UNIV and f = quote_to_ascii
      and c = "CHR '',''" and sep = "'' ''"])
  show "a = b \<and> x = y" if "quote_to_ascii a @ x = quote_to_ascii b @ y" for a b x y
    using that by (rule quote_to_ascii_append_inject)
  show "join_strings '', '' (map quote_to_ascii rs) @ '')'' @ x = join_strings '', '' (map quote_to_ascii qs) @ '')'' @ y"
    using assms(3) by simp
qed (use assms in simp_all)

text \<open>Every kind of node but a union and an intersection is told apart by its first byte.\<close>

definition head_of :: "string_set \<Rightarrow> char" where
  "head_of s = (case s of SExact _ \<Rightarrow> dquote | SGlob _ \<Rightarrow> CHR ''l'' | SFull \<Rightarrow> CHR ''*'' | SEmpty \<Rightarrow> CHR 0xE2
     | SUnknown _ \<Rightarrow> CHR ''?'' | SUnion _ \<Rightarrow> CHR ''('' | SInter _ \<Rightarrow> CHR ''('')"

lemma text_head: "\<exists>q. render s = head_of s # q"
  by (cases s) (auto simp: head_of_def quote_to_ascii_def render_glob_def render_members_def empty_text_def)

lemma render_delimited:
  assumes s: "wf_set s" and t: "wf_set t" and eq: "render s @ x = render t @ y"
  shows "s = t \<and> x = y"
proof -
  have h: "head_of s = head_of t"
    using text_head [of s] text_head [of t] eq by auto
  consider (terms) "wf_term s" "wf_term t" | (other) "\<not> (wf_term s \<and> wf_term t)" by blast
  then show ?thesis
  proof cases
    case terms
    then show ?thesis using term_delimited eq by blast
  next
    case other
    show ?thesis
    proof (cases "\<exists>ms. s = SUnion ms \<or> t = SUnion ms")
      case True
      then consider ms ns where "s = SUnion ms" "t = SUnion ns" | ms gs where "s = SUnion ms" "t = SInter gs"
        | ns gs where "s = SInter gs" "t = SUnion ns"
        using h by (cases s; cases t) (auto simp: head_of_def dquote_def)
      then show ?thesis
      proof cases
        case 1
        show ?thesis using union_delimited s t eq unfolding 1 by blast
      next
        case 2
        then show ?thesis using union_inter_differ [of ms gs x y] s t eq by simp
      next
        case 3
        then show ?thesis using union_inter_differ [of ns gs y x] s t eq by simp
      qed
    next
      case False
      then consider rs qs where "s = SUnknown rs" "t = SUnknown qs" | "s = SFull" "t = SFull" | "s = SEmpty" "t = SEmpty"
        using h other s t by (cases s; cases t) (auto simp: head_of_def dquote_def)
      then show ?thesis
      proof cases
        case 1
        show ?thesis using unknown_delimited [of rs qs x y] s t eq unfolding 1 by (simp del: render.simps)
      qed (use eq in simp_all)
    qed
  qed
qed

text \<open>The comment on exact.String: two sets of the package with one rendering are one set.\<close>

lemma render_inject: "wf_set s \<Longrightarrow> wf_set t \<Longrightarrow> render s = render t \<Longrightarrow> s = t"
  using render_delimited [of s t "[]" "[]"] by simp

end
