(* ===== verification/Eval_Lattice.thy ===== *)
theory Eval_Lattice imports Eval_String_Set begin

text \<open>
  The laws of the lattice of package eval. The union node's normal form is characterised by the
  set of members it keeps (keep), which makes join an associative, commutative and idempotent
  operation on the very nodes; meet is exact and never reaches the panic of globsOf. The locale
  value_sets is the contract the conjunctions of admitted.go rely on.
\<close>

section \<open>Unions\<close>

definition keep :: "string_set set \<Rightarrow> string_set set" where
  "keep S = {m \<in> S. \<not> absorbed m S}"

text \<open>The members newUnion keeps, in their order.\<close>

definition kept_terms :: "string_set list \<Rightarrow> string_set list" where
  "kept_terms ms = filter (\<lambda>m. \<not> absorbed m (set ms)) (canonical render ms)"

lemma contained_by_other_absorbed:
  assumes "distinct ms" "i < length ms" "ms ! i = SExact v"
  shows "contained_by_other v ms i \<longleftrightarrow> absorbed (ms ! i) (set ms)"
proof -
  have "contained_by_other v ms i \<longleftrightarrow> (\<exists>j < length ms. j \<noteq> i \<and> contains (ms ! j) v)"
    by (auto simp: contained_by_other_def list_ex_iff in_set_enumerate_eq)
  also have "\<dots> \<longleftrightarrow> (\<exists>m' \<in> set ms. m' \<noteq> ms ! i \<and> contains m' v)"
    using assms(1,2) by (metis in_set_conv_nth nth_eq_iff_index_eq)
  finally show ?thesis by (auto simp: absorbed_def assms(3))
qed

lemma not_exact_absorbed: "\<not> absorbed m S" if "\<And>v. m \<noteq> SExact v"
  using that by (auto simp: absorbed_def)

lemma enumerate_filter:
  "concat (map (\<lambda>(i, m). if P i m then [m] else []) (enumerate n ms)) = filter Q ms"
  if "\<And>i. i < length ms \<Longrightarrow> P (n + i) (ms ! i) = Q (ms ! i)"
  using that
proof (induction ms arbitrary: n)
  case (Cons m ms)
  have "P (Suc n + i) (ms ! i) = Q (ms ! i)" if "i < length ms" for i
    using Cons.prems [of "Suc i"] that by simp
  then show ?case using Cons.IH [of "Suc n"] Cons.prems [of 0] by simp
qed simp

lemma new_union_kept:
  assumes "inj_on render (set ms)"
  shows "new_union ms = (case kept_terms ms of [m] \<Rightarrow> m | ks \<Rightarrow> SUnion ks)"
proof -
  let ?ms = "canonical render ms"
  have d: "distinct ?ms" by (rule key_sorted_distinct [OF canonical_sorted])
  have "(\<not> (case ?ms ! i of SExact v \<Rightarrow> contained_by_other v ?ms i | _ \<Rightarrow> False)) \<longleftrightarrow> \<not> absorbed (?ms ! i) (set ?ms)"
    if "i < length ?ms" for i
    using contained_by_other_absorbed [OF d that] by (cases "?ms ! i") (auto simp: not_exact_absorbed)
  then have e: "[m. (i, m) \<leftarrow> enumerate 0 ?ms, \<not> (case m of SExact v \<Rightarrow> contained_by_other v ?ms i | _ \<Rightarrow> False)]
      = filter (\<lambda>m. \<not> absorbed m (set ?ms)) ?ms"
    by (intro enumerate_filter) (simp only: add_0)
  then show ?thesis
    unfolding new_union_def kept_terms_def Let_def e canonical_set [OF assms] by (simp split: list.split)
qed

lemma set_kept_terms: "inj_on render (set ms) \<Longrightarrow> set (kept_terms ms) = keep (set ms)"
  by (simp add: kept_terms_def keep_def canonical_set)

lemma kept_terms_sorted: "key_sorted render (kept_terms ms)"
  unfolding kept_terms_def by (intro sorted_wrt_filter canonical_sorted)

lemma absorbed_by_kept: "absorbed m S \<Longrightarrow> \<exists>v. m = SExact v \<and> (\<exists>m' \<in> keep S. contains m' v \<and> (\<forall>w. m' \<noteq> SExact w))"
  by (fastforce simp: absorbed_def keep_def)

lemma absorbed_iff: "absorbed m S \<longleftrightarrow> (\<exists>v. m = SExact v \<and> (\<exists>m' \<in> S. contains m' v \<and> (\<forall>w. m' \<noteq> SExact w)))"
  by (auto simp: absorbed_def) (metis contains.simps(1))

lemma keep_contains: "(\<exists>m \<in> keep S. contains m v) \<longleftrightarrow> (\<exists>m \<in> S. contains m v)"
proof
  assume "\<exists>m \<in> S. contains m v"
  then obtain m where m: "m \<in> S" "contains m v" by blast
  show "\<exists>m \<in> keep S. contains m v"
  proof (cases "absorbed m S")
    case True
    then obtain w m' where "m = SExact w" "m' \<in> keep S" "contains m' w" using absorbed_by_kept by blast
    then show ?thesis using m(2) by auto
  qed (use m in \<open>auto simp: keep_def\<close>)
qed (auto simp: keep_def)

lemma keep_keep: "keep (keep A \<union> B) = keep (A \<union> B)"
proof (rule set_eqI)
  fix m
  have abs: "absorbed m (keep A \<union> B) \<longleftrightarrow> absorbed m (A \<union> B)"
    by (auto simp: absorbed_iff keep_def)
  have "m \<in> A \<Longrightarrow> absorbed m A \<Longrightarrow> absorbed m (A \<union> B)" by (auto simp: absorbed_iff)
  then show "m \<in> keep (keep A \<union> B) \<longleftrightarrow> m \<in> keep (A \<union> B)"
    using abs by (auto simp: keep_def)
qed

lemma keep_empty [simp]: "keep S = {} \<longleftrightarrow> S = {}"
proof
  assume "keep S = {}"
  then have "\<forall>m \<in> S. absorbed m S" by (auto simp: keep_def)
  then show "S = {}" using absorbed_by_kept \<open>keep S = {}\<close> by fastforce
qed (simp add: keep_def)

text \<open>A set that a union node can be part of: not one that join or meet folds away.\<close>

definition plain :: "string_set \<Rightarrow> bool" where
  "plain s \<longleftrightarrow> wf_set s \<and> \<not> is_top s \<and> \<not> is_empty s"

lemma plain_cases:
  assumes "plain s"
  obtains "wf_term s" "terms s = [s]" | ms where "s = SUnion ms" "wf_set s" "terms s = ms"
  using assms by (cases s) (auto simp: plain_def)

lemma wf_term_plain: "wf_term s \<Longrightarrow> plain s"
  by (cases s) (auto simp: plain_def)

lemma wf_term_terms: "wf_term s \<Longrightarrow> terms s = [s]"
  by (cases s) auto

lemma wf_set_cases:
  assumes "wf_set s"
  obtains u where "s = SUnknown u" "u \<noteq> []" "sorted_wrt (<) u" | "s = SFull" | "s = SEmpty" | "plain s"
  using assms by (cases s) (auto simp: plain_def)

lemma plain_terms: "plain s \<Longrightarrow> list_all wf_term (terms s) \<and> terms s \<noteq> []"
  by (cases s) (auto simp: plain_def)

lemma plain_wf: "plain s \<Longrightarrow> wf_set s"
  by (simp add: plain_def)

lemma contains_terms: "contains s v \<longleftrightarrow> (\<exists>m \<in> set (terms s). contains m v)"
  by (cases s) (auto simp: list_ex_iff)

lemma terms_append: "plain a \<Longrightarrow> plain b \<Longrightarrow> list_all wf_term (terms a @ terms b) \<and> terms a @ terms b \<noteq> []"
  using plain_terms by simp

lemma new_union_cong:
  assumes "list_all wf_term xs" "list_all wf_term ys" "keep (set xs) = keep (set ys)"
  shows "new_union xs = new_union ys"
proof -
  have i: "inj_on render (set xs)" "inj_on render (set ys)" using assms wf_terms_inj by auto
  have "kept_terms xs = kept_terms ys"
    by (rule key_sorted_unique [OF _ kept_terms_sorted kept_terms_sorted]) (simp add: set_kept_terms i assms(3))
  then show ?thesis by (simp add: new_union_kept i)
qed

lemma kept_terms_wf:
  assumes "list_all wf_term ms"
  shows "list_all wf_term (kept_terms ms)" "\<forall>m \<in> set (kept_terms ms). \<not> absorbed m (set (kept_terms ms))"
proof -
  have s: "set (kept_terms ms) = keep (set ms)" using assms by (simp add: set_kept_terms wf_terms_inj)
  show "list_all wf_term (kept_terms ms)" using assms unfolding list_all_iff s by (auto simp: keep_def)
  show "\<forall>m \<in> set (kept_terms ms). \<not> absorbed m (set (kept_terms ms))"
    unfolding s using keep_keep [of "set ms" "{}"] by (auto simp: keep_def)
qed

lemma new_union_plain:
  assumes "list_all wf_term ms" "ms \<noteq> []"
  shows "plain (new_union ms)" "terms (new_union ms) = kept_terms ms"
proof -
  have i: "inj_on render (set ms)" using assms(1) by (rule wf_terms_inj)
  have "set (kept_terms ms) \<noteq> {}" using assms(2) by (simp add: set_kept_terms [OF i])
  then have ne: "kept_terms ms \<noteq> []" by auto
  note k = kept_terms_wf [OF assms(1)] kept_terms_sorted [of ms]
  consider m where "kept_terms ms = [m]" | m m' r where "kept_terms ms = m # m' # r"
    using ne by (metis neq_Nil_conv)
  then have "plain (new_union ms) \<and> terms (new_union ms) = kept_terms ms"
  proof cases
    case 1
    then show ?thesis using k new_union_kept [OF i] by (auto simp: wf_term_terms dest: wf_term_plain)
  next
    case 2
    then have "new_union ms = SUnion (kept_terms ms)" by (simp add: new_union_kept [OF i])
    moreover have "2 \<le> length (kept_terms ms)" by (simp add: 2)
    ultimately show ?thesis using k by (simp add: plain_def)
  qed
  then show "plain (new_union ms)" "terms (new_union ms) = kept_terms ms" by auto
qed

lemma new_union_contains:
  assumes "list_all wf_term ms" "ms \<noteq> []"
  shows "contains (new_union ms) v \<longleftrightarrow> (\<exists>m \<in> set ms. contains m v)"
proof -
  have "contains (new_union ms) v \<longleftrightarrow> (\<exists>m \<in> keep (set ms). contains m v)"
    unfolding contains_terms [of "new_union ms"] new_union_plain(2) [OF assms]
    using assms(1) by (simp add: set_kept_terms wf_terms_inj)
  then show ?thesis by (simp add: keep_contains)
qed

lemma new_union_terms:
  assumes "plain s"
  shows "new_union (terms s) = s"
  using assms
proof (cases rule: plain_cases)
  case 1
  have c: "canonical render [s] = [s]" by (rule canonical_id) simp
  have "\<not> absorbed s (set [s])" by (auto simp: absorbed_def)
  then have "kept_terms [s] = [s]" unfolding kept_terms_def c by simp
  then show ?thesis using 1 new_union_kept [of "[s]"] by simp
next
  case (2 ms)
  then have w: "list_all wf_term ms" "key_sorted render ms" "\<forall>m \<in> set ms. \<not> absorbed m (set ms)" "2 \<le> length ms"
    by auto
  have "kept_terms ms = ms"
    unfolding kept_terms_def canonical_id [OF w(2)] using w(3) by simp
  then show ?thesis
    using 2 w(4) new_union_kept [OF wf_terms_inj [OF w(1)]] by (auto split: list.splits)
qed

section \<open>Join\<close>

lemma join_plain: "plain a \<Longrightarrow> plain b \<Longrightarrow> join a b = new_union (terms a @ terms b)"
  by (cases a; cases b) (auto simp: join_def plain_def)

lemma join_unknown:
  "join (SUnknown u) (SUnknown w) = merge_unknown u w"
  "\<not> is_unknown b \<Longrightarrow> join (SUnknown u) b = SUnknown u"
  "\<not> is_unknown b \<Longrightarrow> join b (SUnknown u) = SUnknown u"
  by (cases b; simp add: join_def)+

lemma join_full: "\<not> is_unknown b \<Longrightarrow> join SFull b = SFull" "\<not> is_unknown b \<Longrightarrow> join b SFull = SFull"
  by (cases b; simp add: join_def)+

lemma join_empty [simp]: "join SEmpty b = b" "join b SEmpty = b"
  by (cases b; simp add: join_def)+

lemma plain_not_unknown [simp]: "plain s \<Longrightarrow> \<not> is_unknown s"
  by (cases s) (auto simp: plain_def)

lemma merge_unknown_wf: "u @ w \<noteq> [] \<Longrightarrow> wf_set (merge_unknown u w)"
  using ord.sort_compact_sorted [of "u @ w"] ord.sort_compact_set [of "u @ w"]
  by (auto simp: merge_unknown_def)

lemma merge_unknown_comm: "merge_unknown u w = merge_unknown w u"
  unfolding merge_unknown_def by (simp add: ord.sort_compact_cong [of "u @ w" "w @ u"] Un_commute)

lemma join_unknowns: "join (merge_unknown u w) (SUnknown x) = join (SUnknown u) (merge_unknown w x)"
proof -
  have "set (compact_func (=) (sort_func go_compare (u @ w)) @ x) = set (u @ compact_func (=) (sort_func go_compare (w @ x)))"
    by (auto simp: ord.sort_compact_set)
  from ord.sort_compact_cong [OF this] show ?thesis
    by (simp only: merge_unknown_def join_unknown(1))
qed

lemma join_commute: "wf_set a \<Longrightarrow> wf_set b \<Longrightarrow> join a b = join b a"
proof (elim wf_set_cases)
  assume p: "plain a" "plain b"
  have "new_union (terms a @ terms b) = new_union (terms b @ terms a)"
  proof (rule new_union_cong)
    show "list_all wf_term (terms a @ terms b)" "list_all wf_term (terms b @ terms a)"
      using terms_append p by blast+
    show "keep (set (terms a @ terms b)) = keep (set (terms b @ terms a))" by (simp add: Un_commute)
  qed
  then show ?thesis by (simp only: join_plain p)
qed (simp_all add: join_unknown join_full merge_unknown_comm)

lemma join_idem: "wf_set a \<Longrightarrow> join a a = a"
proof (elim wf_set_cases)
  assume p: "plain a"
  have "new_union (terms a @ terms a) = new_union (terms a)"
    using plain_terms [OF p] by (intro new_union_cong) auto
  then show ?thesis by (simp add: join_plain p new_union_terms)
next
  fix u assume "a = SUnknown u" "sorted_wrt (<) u"
  then have "compact_func (=) (sort_func go_compare (u @ u)) = compact_func (=) (sort_func go_compare u)"
    "compact_func (=) (sort_func go_compare u) = u"
    by (auto intro: ord.sort_compact_cong ord.sort_compact_id)
  then show ?thesis using \<open>a = SUnknown u\<close> by (simp add: join_unknown merge_unknown_def)
qed (simp_all add: join_full)

lemma plain_join: "plain a \<Longrightarrow> plain b \<Longrightarrow> plain (join a b)"
  using new_union_plain(1) [OF terms_append [THEN conjunct1] terms_append [THEN conjunct2]]
  by (simp add: join_plain)

lemma join_wf [wf_intros]: "wf_set a \<Longrightarrow> wf_set b \<Longrightarrow> wf_set (join a b)"
proof (elim wf_set_cases)
  fix u w assume "a = SUnknown u" "u \<noteq> []" "b = SUnknown w"
  then show ?thesis using merge_unknown_wf [of u w] by (simp add: join_unknown)
next
  assume "plain a" "plain b"
  then show ?thesis using plain_join plain_wf by blast
qed (simp_all add: join_unknown join_full plain_wf)

lemma join_plain_assoc:
  assumes "plain a" "plain b" "plain c"
  shows "join (join a b) c = join a (join b c)"
proof -
  have w: "list_all wf_term (terms a)" "list_all wf_term (terms b)" "list_all wf_term (terms c)"
    "terms a \<noteq> []" "terms b \<noteq> []" "terms c \<noteq> []"
    using plain_terms assms by auto
  have kt: "set (kept_terms ms) = keep (set ms)" if "list_all wf_term ms" for ms
    using that by (simp add: set_kept_terms wf_terms_inj)
  have "join (join a b) c = new_union (kept_terms (terms a @ terms b) @ terms c)"
    using assms w plain_join new_union_plain(2) [of "terms a @ terms b"] by (simp add: join_plain)
  also have "\<dots> = new_union (terms a @ terms b @ terms c)"
    using w kept_terms_wf(1) [of "terms a @ terms b"] keep_keep [of "set (terms a) \<union> set (terms b)" "set (terms c)"]
    by (intro new_union_cong) (auto simp: kt Un_assoc)
  also have "\<dots> = new_union (terms a @ kept_terms (terms b @ terms c))"
    using w kept_terms_wf(1) [of "terms b @ terms c"] keep_keep [of "set (terms b) \<union> set (terms c)" "set (terms a)"]
    by (intro new_union_cong) (auto simp: kt Un_commute Un_left_commute)
  also have "\<dots> = join a (join b c)"
    using assms w plain_join new_union_plain(2) [of "terms b @ terms c"] by (simp add: join_plain)
  finally show ?thesis .
qed

lemma merge_not_plain [simp]: "is_unknown (merge_unknown u w)" "\<not> plain (merge_unknown u w)"
  by (simp_all add: merge_unknown_def plain_def)

lemma merge_unknown_values:
  "contains (merge_unknown u w) v" "is_top (merge_unknown u w)" "\<not> is_empty (merge_unknown u w)"
  by (simp_all add: merge_unknown_def)

lemma join_unknown_left: "\<not> is_unknown b \<Longrightarrow> join (merge_unknown u w) b = merge_unknown u w"
  "\<not> is_unknown b \<Longrightarrow> join b (merge_unknown u w) = merge_unknown u w"
  by (simp_all add: merge_unknown_def join_unknown)

lemma join_assoc: "wf_set a \<Longrightarrow> wf_set b \<Longrightarrow> wf_set c \<Longrightarrow> join (join a b) c = join a (join b c)"
  by (elim wf_set_cases)
    (simp_all add: join_plain_assoc join_unknown join_full join_unknowns join_unknown_left plain_join)

lemma join_contains [contains_simps]:
  "wf_set a \<Longrightarrow> wf_set b \<Longrightarrow> contains (join a b) v \<longleftrightarrow> contains a v \<or> contains b v"
proof (elim wf_set_cases)
  assume p: "plain a" "plain b"
  have "contains (join a b) v \<longleftrightarrow> (\<exists>m \<in> set (terms a @ terms b). contains m v)"
    using new_union_contains [of "terms a @ terms b" v] terms_append [OF p] unfolding join_plain [OF p] by blast
  then show ?thesis unfolding contains_terms [of a] contains_terms [of b] by auto
qed (simp_all add: join_unknown join_full merge_unknown_def)

lemma join_not_top: "wf_set a \<Longrightarrow> wf_set b \<Longrightarrow> is_top (join a b) \<longleftrightarrow> is_top a \<or> is_top b"
  by (elim wf_set_cases)
    (use plain_join in \<open>auto simp: join_unknown join_full merge_unknown_def plain_def\<close>)

lemma join_is_empty: "wf_set a \<Longrightarrow> wf_set b \<Longrightarrow> is_empty (join a b) \<longleftrightarrow> is_empty a \<and> is_empty b"
  by (elim wf_set_cases)
    (use plain_join in \<open>auto simp: join_unknown join_full merge_unknown_def plain_def\<close>)

lemma join_is_unknown: "wf_set a \<Longrightarrow> wf_set b \<Longrightarrow> is_unknown (join a b) \<longleftrightarrow> is_unknown a \<or> is_unknown b"
  by (elim wf_set_cases) (use plain_join plain_not_unknown in \<open>auto simp: join_unknown join_full\<close>)

section \<open>Meet\<close>

lemma new_inter_spec:
  assumes "list_all wf_glob gs" "gs \<noteq> []"
  shows "wf_term (new_inter gs)" "contains (new_inter gs) v \<longleftrightarrow> (\<forall>g \<in> set gs. glob_contains g v)"
    and "\<exists>hs. globs_of (new_inter gs) = Some hs \<and> set hs = set gs"
proof -
  let ?gs = "canonical glob_pattern gs"
  have s: "set ?gs = set gs" by (rule canonical_set [OF wf_globs_inj [OF assms(1)]])
  have w: "list_all wf_glob ?gs" using assms(1) unfolding list_all_iff s .
  have n: "new_inter gs = (case ?gs of [g] \<Rightarrow> SGlob g | _ \<Rightarrow> SInter ?gs)"
    by (simp add: new_inter_def Let_def)
  have "?gs \<noteq> []" using assms(2) by simp
  then consider g where "?gs = [g]" | g h r where "?gs = g # h # r" by (metis neq_Nil_conv)
  then have "wf_term (new_inter gs) \<and> (contains (new_inter gs) v \<longleftrightarrow> (\<forall>g \<in> set ?gs. glob_contains g v))
    \<and> (\<exists>hs. globs_of (new_inter gs) = Some hs \<and> set hs = set ?gs)"
  proof cases
    case 1
    then show ?thesis using w by (simp add: n)
  next
    case 2
    then have "new_inter gs = SInter ?gs" "2 \<le> length ?gs" by (simp_all add: n)
    then show ?thesis using w canonical_sorted [of glob_pattern gs] by (simp add: list_all_iff)
  qed
  then show "wf_term (new_inter gs)" "contains (new_inter gs) v \<longleftrightarrow> (\<forall>g \<in> set gs. glob_contains g v)"
    "\<exists>hs. globs_of (new_inter gs) = Some hs \<and> set hs = set gs"
    unfolding s by auto
qed

lemma new_inter_cong:
  assumes "list_all wf_glob gs" "set gs = set hs"
  shows "new_inter gs = new_inter hs"
  unfolding new_inter_def Let_def canonical_cong [OF wf_globs_inj [OF assms(1)] assms(2)] ..

lemma globs_of_term:
  assumes "wf_term s" "\<And>v. s \<noteq> SExact v"
  obtains gs where "globs_of s = Some gs" "gs \<noteq> []" "list_all wf_glob gs"
    "\<And>v. contains s v \<longleftrightarrow> (\<forall>g \<in> set gs. glob_contains g v)"
  using assms by (cases s) (force simp: list_all_iff)+

text \<open>What meet adds to the union it builds: nothing, or a term.\<close>

definition term_or_empty :: "string_set \<Rightarrow> bool" where
  "term_or_empty s \<longleftrightarrow> s = SEmpty \<or> wf_term s"

lemma term_or_empty_wf: "term_or_empty s \<Longrightarrow> wf_set s \<and> \<not> is_top s"
  using wf_term_plain by (auto simp: term_or_empty_def plain_def)

lemma meet_terms_spec:
  assumes "wf_term s" "wf_term t"
  obtains m where "meet_terms s t = Some m" "meet_terms t s = Some m" "term_or_empty m"
    "\<And>v. contains m v \<longleftrightarrow> contains s v \<and> contains t v"
proof (cases "\<exists>v. s = SExact v \<or> t = SExact v")
  case True
  then obtain v where v: "s = SExact v \<or> t = SExact v" by blast
  have "\<exists>m. meet_terms s t = Some m \<and> meet_terms t s = Some m \<and> term_or_empty m
      \<and> (\<forall>v. contains m v \<longleftrightarrow> contains s v \<and> contains t v)"
    using v by (cases s; cases t) (auto simp: meet_terms_def meet_exact_def term_or_empty_def)
  then show thesis using that by blast
next
  case False
  obtain gs where gs: "globs_of s = Some gs" "gs \<noteq> []" "list_all wf_glob gs"
    "\<And>v. contains s v \<longleftrightarrow> (\<forall>g \<in> set gs. glob_contains g v)"
    using globs_of_term [OF assms(1)] False by blast
  obtain hs where hs: "globs_of t = Some hs" "hs \<noteq> []" "list_all wf_glob hs"
    "\<And>v. contains t v \<longleftrightarrow> (\<forall>g \<in> set hs. glob_contains g v)"
    using globs_of_term [OF assms(2)] False by blast
  have w: "list_all wf_glob (gs @ hs)" "gs @ hs \<noteq> []" using gs hs by auto
  show thesis
  proof (rule that [of "new_inter (gs @ hs)"])
    show "meet_terms s t = Some (new_inter (gs @ hs))"
      using False gs(1) hs(1) by (cases s; cases t) (auto simp: meet_terms_def)
    have "new_inter (hs @ gs) = new_inter (gs @ hs)" by (rule new_inter_cong) (use gs hs in auto)
    then show "meet_terms t s = Some (new_inter (gs @ hs))"
      using False gs(1) hs(1) by (cases s; cases t) (auto simp: meet_terms_def)
    show "term_or_empty (new_inter (gs @ hs))" using new_inter_spec(1) [OF w] by (simp add: term_or_empty_def)
    show "contains (new_inter (gs @ hs)) v \<longleftrightarrow> contains s v \<and> contains t v" for v
      unfolding new_inter_spec(2) [OF w] gs(4) hs(4) by auto
  qed
qed

definition the_meet :: "string_set \<times> string_set \<Rightarrow> string_set" where
  "the_meet p = (case meet_terms (fst p) (snd p) of Some m \<Rightarrow> m | None \<Rightarrow> SEmpty)"

lemma the_meet:
  assumes "wf_term s" "wf_term t"
  shows "meet_terms s t = Some (the_meet (s, t))" "the_meet (s, t) = the_meet (t, s)"
    "term_or_empty (the_meet (s, t))" "contains (the_meet (s, t)) v \<longleftrightarrow> contains s v \<and> contains t v"
  by (rule meet_terms_spec [OF assms]; simp add: the_meet_def)+

lemma meet_pairs_fold:
  assumes "\<forall>(s, t) \<in> set ps. wf_term s \<and> wf_term t"
  shows "meet_pairs ps out = Some (fold (\<lambda>m out. join out m) (map the_meet ps) out)"
  using assms by (induction ps arbitrary: out) (auto simp: the_meet)

text \<open>Joining a list of sets one by one.\<close>

abbreviation joins :: "string_set list \<Rightarrow> string_set \<Rightarrow> string_set" where
  "joins ms out \<equiv> fold (\<lambda>m out. join out m) ms out"

lemma joins_spec:
  assumes "\<forall>m \<in> set ms. wf_set m" "wf_set out"
  shows "wf_set (joins ms out)"
    and "contains (joins ms out) v \<longleftrightarrow> contains out v \<or> (\<exists>m \<in> set ms. contains m v)"
    and "is_top (joins ms out) \<longleftrightarrow> is_top out \<or> (\<exists>m \<in> set ms. is_top m)"
    and "is_empty (joins ms out) \<longleftrightarrow> is_empty out \<and> (\<forall>m \<in> set ms. is_empty m)"
  using assms
proof (induction ms arbitrary: out)
  case (Cons m ms)
  {
    case 1
    then show ?case using Cons.IH(1) by (simp add: join_wf)
  next
    case 2
    then show ?case using Cons.IH(2) by (auto simp: join_wf join_contains)
  next
    case 3
    then show ?case using Cons.IH(3) by (auto simp: join_wf join_not_top)
  next
    case 4
    then show ?case using Cons.IH(4) by (auto simp: join_wf join_is_empty)
  }
qed simp_all

lemma joins_perm:
  assumes "mset ms = mset ns" "\<forall>m \<in> set ms. wf_set m" "wf_set out"
  shows "joins ms out = joins ns out"
proof (rule fold_permuted_eq [where P = wf_set, OF assms(1,3)])
  show "wf_set (join z x)" if "x \<in> set ms" "wf_set z" for x z
    using that assms(2) by (simp add: join_wf)
  show "join (join z y) x = join (join z x) y" if "x \<in> set ms" "y \<in> set ms" "wf_set z" for x y z
    using that assms(2) by (metis join_assoc join_commute)
qed

lemma product_Cons_right: "mset (List.product ys (x # xs)) = mset (map (\<lambda>y. (y, x)) ys) + mset (List.product ys xs)"
  by (induction ys) auto

lemma product_Nil_right [simp]: "List.product ys [] = []"
  by (induction ys) auto

lemma product_swap: "mset (map prod.swap (List.product xs ys)) = mset (List.product ys xs)"
proof (induction xs)
  case (Cons x xs)
  then show ?case by (simp add: product_Cons_right comp_def)
qed simp

lemma plain_meet:
  assumes "plain a" "plain b"
  shows "meet a b = Some (joins (map the_meet (List.product (terms a) (terms b))) SEmpty)"
proof -
  have w: "\<forall>(s, t) \<in> set (List.product (terms a) (terms b)). wf_term s \<and> wf_term t"
    using plain_terms [OF assms(1)] plain_terms [OF assms(2)] by (auto simp: list_all_iff)
  have "meet a b = meet_pairs (List.product (terms a) (terms b)) SEmpty"
    using assms by (cases a; cases b) (auto simp: meet_def plain_def)
  then show ?thesis using meet_pairs_fold [OF w] by simp
qed

lemma plain_meets_wf:
  assumes "plain a" "plain b"
  shows "\<forall>m \<in> set (map the_meet (List.product (terms a) (terms b))). term_or_empty m"
  using plain_terms [OF assms(1)] plain_terms [OF assms(2)] by (auto simp: list_all_iff the_meet)

lemma meet_unknown_cases:
  "meet (SUnknown u) (SUnknown w) = Some (merge_unknown u w)"
  "\<not> is_unknown b \<Longrightarrow> \<not> is_empty b \<Longrightarrow> meet (SUnknown u) b = Some (meet_unknown u b)"
  "\<not> is_unknown b \<Longrightarrow> \<not> is_empty b \<Longrightarrow> meet b (SUnknown u) = Some (meet_unknown u b)"
  by (cases b; simp add: meet_def)+

lemma meet_empty [simp]: "meet SEmpty b = Some SEmpty" "meet b SEmpty = Some SEmpty"
  by (simp_all add: meet_def)

lemma meet_full:
  "\<not> is_unknown b \<Longrightarrow> meet SFull b = Some b" "\<not> is_unknown b \<Longrightarrow> meet b SFull = Some b"
  by (cases b; simp add: meet_def)+

lemma plain_not_empty [simp]: "plain s \<Longrightarrow> \<not> is_empty s" and plain_not_top [simp]: "plain s \<Longrightarrow> \<not> is_top s"
  by (simp_all add: plain_def)

lemma meet_spec:
  assumes "wf_set a" "wf_set b"
  obtains m where "meet a b = Some m" "wf_set m" "\<And>v. contains m v \<longleftrightarrow> contains a v \<and> contains b v"
    "is_top m \<longleftrightarrow> is_top a \<and> is_top b" "is_empty a \<or> is_empty b \<longrightarrow> is_empty m"
proof -
  have "\<exists>m. meet a b = Some m \<and> wf_set m \<and> (\<forall>v. contains m v \<longleftrightarrow> contains a v \<and> contains b v)
    \<and> (is_top m \<longleftrightarrow> is_top a \<and> is_top b) \<and> (is_empty a \<or> is_empty b \<longrightarrow> is_empty m)"
    using assms
  proof (elim wf_set_cases)
    assume p: "plain a" "plain b"
    let ?ms = "map the_meet (List.product (terms a) (terms b))"
    have w: "\<forall>m \<in> set ?ms. wf_set m \<and> \<not> is_top m"
      using plain_meets_wf [OF p] term_or_empty_wf by blast
    have "contains (joins ?ms SEmpty) v \<longleftrightarrow> contains a v \<and> contains b v" for v
    proof -
      have "contains (joins ?ms SEmpty) v \<longleftrightarrow> (\<exists>m \<in> set ?ms. contains m v)"
        using joins_spec(2) [of ?ms SEmpty v] w by simp
      also have "\<dots> \<longleftrightarrow> (\<exists>s \<in> set (terms a). \<exists>t \<in> set (terms b). contains s v \<and> contains t v)"
        using plain_terms [OF p(1)] plain_terms [OF p(2)] by (auto simp: list_all_iff the_meet)
      finally show ?thesis unfolding contains_terms [of a] contains_terms [of b] by blast
    qed
    moreover have "wf_set (joins ?ms SEmpty)" "\<not> is_top (joins ?ms SEmpty)"
      using joins_spec(1,3) [of ?ms SEmpty] w by auto
    ultimately show ?thesis
      unfolding plain_meet [OF p] using plain_not_top plain_not_empty p by blast
  next
    fix u w assume "a = SUnknown u" "b = SUnknown w" "u \<noteq> []"
    moreover from this have "wf_set (merge_unknown u w)" by (simp add: merge_unknown_wf)
    ultimately show ?thesis by (auto simp: meet_unknown_cases merge_unknown_values)
  qed (auto simp: meet_unknown_cases meet_unknown_def meet_full plain_wf)
  then show thesis using that by blast
qed

lemma meet_commute:
  assumes "wf_set a" "wf_set b"
  shows "meet a b = meet b a"
  using assms
proof (elim wf_set_cases)
  assume p: "plain a" "plain b"
  have eq: "the_meet (prod.swap q) = the_meet q" if "q \<in> set (List.product (terms b) (terms a))" for q
  proof -
    obtain t s where "q = (t, s)" by fastforce
    then show ?thesis
      using that plain_terms [OF p(1)] plain_terms [OF p(2)] the_meet(2) [of s t] by (auto simp: list_all_iff)
  qed
  have "mset (map the_meet (List.product (terms a) (terms b)))
      = mset (map the_meet (map prod.swap (List.product (terms b) (terms a))))"
    unfolding mset_map [of the_meet] product_swap ..
  also have "\<dots> = mset (map the_meet (List.product (terms b) (terms a)))"
    using eq by (intro arg_cong [where f = mset]) simp
  finally have "joins (map the_meet (List.product (terms a) (terms b))) SEmpty
      = joins (map the_meet (List.product (terms b) (terms a))) SEmpty"
    by (rule joins_perm) (use plain_meets_wf [OF p] term_or_empty_wf in auto)
  then show ?thesis using p by (simp add: plain_meet)
qed (simp_all add: meet_unknown_cases meet_full merge_unknown_comm meet_unknown_def)

section \<open>The contract of a claim's constraint\<close>

text \<open>
  What a conjunction of claims relies on: a constraint is asked of a value, or of a claim the
  token does not carry, which only a constraint that admits everything lets pass.
\<close>

locale value_sets =
  fixes good :: "'s \<Rightarrow> bool"
    and holds :: "'s \<Rightarrow> string \<Rightarrow> bool"
    and empty top :: "'s \<Rightarrow> bool"
    and both :: "'s \<Rightarrow> 's \<Rightarrow> 's option"
    and either :: "'s \<Rightarrow> 's \<Rightarrow> 's"
  assumes both_law: "good a \<Longrightarrow> good b \<Longrightarrow> \<exists>m. both a b = Some m \<and> good m
      \<and> (\<forall>v. holds m v \<longleftrightarrow> holds a v \<and> holds b v) \<and> (top m \<longleftrightarrow> top a \<and> top b)"
    and either_good: "good a \<Longrightarrow> good b \<Longrightarrow> good (either a b)"
    and either_law: "good a \<Longrightarrow> good b \<Longrightarrow> holds (either a b) v \<longleftrightarrow> holds a v \<or> holds b v"
    and either_top: "good a \<Longrightarrow> good b \<Longrightarrow> top (either a b) \<longleftrightarrow> top a \<or> top b"
    and empty_sound: "good a \<Longrightarrow> empty a \<Longrightarrow> \<not> holds a v"
    and empty_top: "good a \<Longrightarrow> empty a \<Longrightarrow> \<not> top a"
    and top_sound: "good a \<Longrightarrow> top a \<Longrightarrow> holds a v"
begin

lemma both_value:
  assumes "good a" "good b" "both a b = Some m"
  shows "good m"
    and "(case x of Some v \<Rightarrow> holds m v | None \<Rightarrow> top m) \<longleftrightarrow>
      (case x of Some v \<Rightarrow> holds a v | None \<Rightarrow> top a) \<and> (case x of Some v \<Rightarrow> holds b v | None \<Rightarrow> top b)"
  using both_law [OF assms(1,2)] assms(3) by (auto split: option.splits)

lemma both_defined: "good a \<Longrightarrow> good b \<Longrightarrow> both a b \<noteq> None"
  using both_law by fastforce

lemma either_value:
  assumes "good a" "good b"
  shows "(case x of Some v \<Rightarrow> holds (either a b) v | None \<Rightarrow> top (either a b)) \<longleftrightarrow>
      (case x of Some v \<Rightarrow> holds a v | None \<Rightarrow> top a) \<or> (case x of Some v \<Rightarrow> holds b v | None \<Rightarrow> top b)"
  by (simp add: either_law either_top assms split: option.splits)

lemma empty_value: "good a \<Longrightarrow> empty a \<Longrightarrow> \<not> (case x of Some v \<Rightarrow> holds a v | None \<Rightarrow> top a)"
  by (auto simp: empty_sound empty_top split: option.splits)

lemma top_value: "good a \<Longrightarrow> top a \<Longrightarrow> (case x of Some v \<Rightarrow> holds a v | None \<Rightarrow> top a)"
  by (auto simp: top_sound split: option.splits)

end

lemma is_empty_cases: "is_empty s \<longleftrightarrow> s = SEmpty"
  by (cases s) auto

lemma is_top_contains: "is_top s \<Longrightarrow> contains s v"
  by (cases s) auto

interpretation sets: value_sets wf_set contains is_empty is_top meet join
proof unfold_locales
  show "\<exists>m. meet a b = Some m \<and> wf_set m \<and> (\<forall>v. contains m v \<longleftrightarrow> contains a v \<and> contains b v)
      \<and> (is_top m \<longleftrightarrow> is_top a \<and> is_top b)" if "wf_set a" "wf_set b" for a b
    using meet_spec [OF that] by metis
qed (auto simp: join_wf join_contains join_not_top is_empty_cases is_top_contains)

section \<open>The sets the package builds\<close>

inductive built :: "string_set \<Rightarrow> bool" where
  "built (Exact v)"
| "built (Glob p)"
| "built Any"
| "built None_set"
| "built (Unknown r)"
| "built a \<Longrightarrow> built b \<Longrightarrow> meet a b = Some m \<Longrightarrow> built m"
| "built a \<Longrightarrow> built b \<Longrightarrow> built (join a b)"

lemma built_wf: "built s \<Longrightarrow> wf_set s"
  by (induction rule: built.induct)
    (auto simp: Exact_def Any_def None_set_def Unknown_def Glob_wf join_wf intro: sets.both_value)

section \<open>What a pattern admits\<close>

lemma quest_byte: "byte (CHR ''?'') = quest"
  by (simp add: byte_def quest_def)

lemma only_stars:
  "set (runes p) \<subseteq> {star} \<Longrightarrow> set p \<subseteq> {CHR ''*''}"
proof (induction p rule: runes.induct)
  case (1 s)
  show ?case
  proof (cases "s = []")
    case False
    obtain r n where d: "decode_rune s = (r, n)" by fastforce
    have r: "r = star" "set (runes (drop n s)) \<subseteq> {star}"
      using "1.prems" d unfolding runes_step [OF False] by auto
    have "r = rune_error \<longrightarrow> n \<noteq> 1" by (simp add: r(1) star_def rune_error_def)
    then have "encode_rune r = take n s" using encode_decode [OF d False] by blast
    moreover have "encode_rune r = [CHR ''*'']"
      by (simp add: r star_def encode_rune_def valid_rune_def encode_valid_def chr_eq_iff byte_def)
    ultimately have "set (take n s) = {CHR ''*''}" by (metis list.set(1) list.set(2))
    moreover have "set (drop n s) \<subseteq> {CHR ''*''}" using "1.IH" [OF False] d r(2) by simp
    moreover have "set s = set (take n s) \<union> set (drop n s)" by (metis append_take_drop_id set_append)
    ultimately show ?thesis by auto
  qed simp
qed

lemma dropWhile_stars: "dropWhile (\<lambda>x. x = c) (rev (dropWhile (\<lambda>x. x = c) p)) = [] \<longleftrightarrow> (\<forall>x \<in> set p. x = c)"
  by (induction p) auto

lemma trim_stars: "trim_byte (CHR ''*'') p = [] \<longleftrightarrow> set p \<subseteq> {CHR ''*''}"
  using dropWhile_stars [of "CHR ''*''" p] by (auto simp: trim_byte_def)

lemma wild_match_stars: "set p \<subseteq> {star} \<Longrightarrow> p \<noteq> [] \<Longrightarrow> wild_match p v"
proof (induction p)
  case (Cons r p)
  then have r: "r = star" by simp
  show ?case
  proof (cases "p = []")
    case True
    then show ?thesis unfolding r wild_match_star by (intro exI [of _ "length v"]) simp
  next
    case False
    then show ?thesis using Cons unfolding r wild_match_star by (intro exI [of _ 0]) simp
  qed
qed simp

lemma runes_stars: "set p \<subseteq> {CHR ''*''} \<Longrightarrow> set (runes p) \<subseteq> {star}"
proof (induction p)
  case (Cons c p)
  then show ?case using runes_Cons_ascii [of "CHR ''*''" p] by (simp add: star_byte star_def)
qed simp

lemma glob_pattern_contains:
  "contains (Glob p) v \<longleftrightarrow> (if contains_any p ''*?'' then wild_match (runes p) (runes v) else v = p)"
proof (cases "contains_any p ''*?'' \<and> set p \<subseteq> {CHR ''*''}")
  case True
  then have "runes p \<noteq> []" by (auto simp: contains_any_def)
  then show ?thesis using True wild_match_stars runes_stars by (simp add: Glob_def trim_stars)
next
  case False
  then show ?thesis by (auto simp: Glob_def trim_stars glob_contains_wild)
qed

text \<open>The string a pattern always matches: no star, and some letter for each question mark.\<close>

definition pattern_witness :: "rune list \<Rightarrow> rune list" where
  "pattern_witness p = map (\<lambda>r. if r = quest then 65 else r) (filter (\<lambda>r. r \<noteq> star) p)"

lemma wild_match_witness: "wild_match p (pattern_witness p)"
  by (induction p) (auto simp: pattern_witness_def rune_fits_def split: list.splits)

lemma wild_match_empty: "wild_match p [] \<Longrightarrow> set p \<subseteq> {star}"
  by (induction p) (auto split: if_splits)

lemma Glob_witness: "\<exists>v. contains (Glob p) v"
proof (cases "contains_any p ''*?''")
  case True
  have "\<forall>r \<in> set (pattern_witness (runes p)). valid_rune r"
    using runes_valid by (auto simp: pattern_witness_def valid_rune_def)
  then have "runes (encode_runes (pattern_witness (runes p))) = pattern_witness (runes p)"
    by (rule runes_encode_runes)
  then show ?thesis using True wild_match_witness by (metis glob_pattern_contains)
qed (auto simp: glob_pattern_contains)

lemma Glob_top: "is_top (Glob p) \<longleftrightarrow> (\<forall>v. contains (Glob p) v)"
proof
  assume all: "\<forall>v. contains (Glob p) v"
  show "is_top (Glob p)"
  proof (cases "contains_any p ''*?''")
    case True
    have "contains (Glob p) []" using all by blast
    then have "set p \<subseteq> {CHR ''*''}"
      using True only_stars wild_match_empty by (simp add: glob_pattern_contains)
    then show ?thesis using True by (simp add: Glob_def trim_stars)
  next
    case False
    have "contains (Glob p) (CHR ''a'' # p)" using all by blast
    then show ?thesis using False by (simp add: glob_pattern_contains)
  qed
qed (simp add: is_top_contains)

section \<open>Properties\<close>

text \<open>
  Glob is AWS StringLike. A pattern with no star and no question mark admits itself alone,
  byte for byte; any other admits exactly the strings whose runes match it, a star standing for
  any run of runes, a question mark for one, everything else for itself. In particular placing
  each segment leftmost never loses a match.
\<close>

theorem glob_is_string_like:
  "contains (Glob p) v = (if contains_any p ''*?'' then wild_match (runes p) (runes v) else v = p)"
  by (rule glob_pattern_contains)

text \<open>
  C7: Meet is intersection, exactly: on any two sets the package builds it returns (globsOf
  never reaches the type assertion that panics), in either order the same node, which admits
  just the values both admit, and admits everything only where both do.
\<close>

theorem meet_is_intersection:
  assumes "built a" "built b"
  shows "\<exists>m. meet a b = Some m \<and> meet b a = Some m \<and> built m
    \<and> (\<forall>v. contains m v \<longleftrightarrow> contains a v \<and> contains b v) \<and> (is_top m \<longleftrightarrow> is_top a \<and> is_top b)"
proof -
  note w = built_wf [OF assms(1)] built_wf [OF assms(2)]
  obtain m where "meet a b = Some m" "\<And>v. contains m v \<longleftrightarrow> contains a v \<and> contains b v"
    "is_top m \<longleftrightarrow> is_top a \<and> is_top b"
    using meet_spec [OF w] by metis
  then show ?thesis using meet_commute [OF w] built.intros(6) [OF assms] by auto
qed

theorem meet_is_intersection_witness:
  "\<exists>m. meet (Glob ''repo:acme/*'') (join (Exact ''repo:acme/a'') (Glob ''*:x'')) = Some m
    \<and> contains m ''repo:acme/a'' \<and> \<not> contains m ''repo:acme/b''"
proof -
  let ?a = "Glob ''repo:acme/*''" and ?b = "join (Exact ''repo:acme/a'') (Glob ''*:x'')"
  obtain m where m: "meet ?a ?b = Some m" "\<forall>v. contains m v \<longleftrightarrow> contains ?a v \<and> contains ?b v"
    using meet_is_intersection [OF built.intros(2) built.intros(7) [OF built.intros(1,2)]] by blast
  moreover have "contains ?b v \<longleftrightarrow> contains (Exact ''repo:acme/a'') v \<or> contains (Glob ''*:x'') v" for v
    by (intro join_contains built_wf built.intros)
  moreover have "contains ?a ''repo:acme/a''" "contains (Exact ''repo:acme/a'') ''repo:acme/a''"
    "\<not> contains (Exact ''repo:acme/a'') ''repo:acme/b''" "\<not> contains (Glob ''*:x'') ''repo:acme/b''"
    by code_simp+
  ultimately show ?thesis by blast
qed

text \<open>
  C8: Join is union, exactly, and a semilattice on the nodes themselves: on sets the package
  builds it is commutative, associative and idempotent as a function on canonical nodes, so the
  order in which a policy lists its values cannot show, and it admits just the values one side
  admits.
\<close>

theorem join_is_union:
  assumes "built a" "built b" "built c"
  shows "(\<forall>v. contains (join a b) v \<longleftrightarrow> contains a v \<or> contains b v)
    \<and> join a b = join b a \<and> join (join a b) c = join a (join b c) \<and> join a a = a
    \<and> (is_unknown (join a b) \<longleftrightarrow> is_unknown a \<or> is_unknown b)"
  using assms [THEN built_wf] by (simp add: join_contains join_commute join_assoc join_idem join_is_unknown)

theorem join_is_union_witness:
  "join (Exact ''a'') (Glob ''b*'') = join (Glob ''b*'') (Exact ''a'')
    \<and> contains (join (Exact ''a'') (Glob ''b*'')) ''bc'' \<and> \<not> contains (join (Exact ''a'') (Glob ''b*'')) ''c''"
proof -
  have "contains (Glob ''b*'') ''bc''" "\<not> contains (Glob ''b*'') ''c''" "\<not> contains (Exact ''a'') ''c''" by code_simp+
  then show ?thesis
    using join_is_union [OF built.intros(1) built.intros(2) built.intros(3), of "''a''" "''b*''"] by blast
qed

text \<open>
  String is canonical: two sets the package builds have one rendering just when they are
  the same node. No value, pattern or reason can be chosen so that a set reads as another.
\<close>

theorem rendering_is_injective:
  assumes "built a" "built b"
  shows "render a = render b \<longleftrightarrow> a = b"
  using render_inject assms [THEN built_wf] by blast

theorem rendering_is_injective_witness:
  "render (Exact ''like:*'') \<noteq> render (Glob ''like:*'') \<and> render (join (Exact ''a'') (Exact ''b'')) \<noteq> render (Exact ''a | b'')"
proof -
  have "contains (Exact ''a'') ''a''" "\<not> contains (Exact ''a | b'') ''a''"
    by code_simp+
  moreover have "contains (join (Exact ''a'') (Exact ''b'')) v \<longleftrightarrow> contains (Exact ''a'') v \<or> contains (Exact ''b'') v" for v
    by (intro join_contains built_wf built.intros)
  ultimately have "join (Exact ''a'') (Exact ''b'') \<noteq> Exact ''a | b''" by metis
  then have "render (join (Exact ''a'') (Exact ''b'')) \<noteq> render (Exact ''a | b'')"
    by (simp only: rendering_is_injective [OF built.intros(7) [OF built.intros(1,1)] built.intros(1)]) simp
  moreover have "render (Exact ''like:*'') \<noteq> render (Glob ''like:*'')"
    unfolding rendering_is_injective [OF built.intros(1,2)] by code_simp
  ultimately show ?thesis by (rule conjI [rotated])
qed

text \<open>
  IsEmpty and IsTop never claim more than is so, on any set; and on a pattern both answers are
  exact: every pattern has a string it matches, and the ones made of stars alone are the ones
  that match every string.
\<close>

theorem emptiness_and_top:
  "(if is_empty s then \<forall>v. \<not> contains s v else True) \<and> (if is_top s then \<forall>v. contains s v else True)
    \<and> (\<exists>v. contains (Glob p) v) \<and> \<not> is_empty (Glob p) \<and> (is_top (Glob p) = (\<forall>v. contains (Glob p) v))"
  using Glob_witness [of p] Glob_top [of p] by (auto simp: is_empty_cases is_top_contains Glob_def)

end
