(* ===== verification/Eval_Admitted.thy ===== *)
theory Eval_Admitted imports Eval_Lattice begin

text \<open>
  Package eval, admitted.go and caveat.go: an admitted set is a disjunction of terms, a term a
  conjunction of constraints by claim, and caveats say why the set is only an upper bound.

  A Term is a Go map. It is modelled by the list of its entries in key order: every loop over one
  either does not depend on the order or sorts what it gathers. A map is never looked up for a
  claim it does not hold without the code asking first. Meet can reach StringSet.Meet, so it is an
  option as meet is.
\<close>

section \<open>Terms\<close>

type_synonym claim_term = "(claim_key \<times> string_set) list"

type_synonym token = "claim_key \<Rightarrow> string option"

text \<open>Assignment to a map entry.\<close>

fun put :: "claim_key \<Rightarrow> string_set \<Rightarrow> claim_term \<Rightarrow> claim_term" where
  "put k s [] = [(k, s)]"
| "put k s ((k', s') # t) =
     (if k = k' then (k, s) # t
      else if k < k' then (k, s) # (k', s') # t
      else (k', s') # put k s t)"

definition render_term :: "claim_term \<Rightarrow> string" where
  "render_term t = ''{'' @ join_strings '', '' (map (\<lambda>(k, s). k @ ''='' @ render s) t) @ ''}''"

text \<open>conjoin: y's claims merged into a clone of x.\<close>

fun conjoin :: "claim_term \<Rightarrow> claim_term \<Rightarrow> claim_term option" where
  "conjoin merged [] = Some merged"
| "conjoin merged ((k, s) # y) =
     (case map_of merged k of
        Some existing \<Rightarrow> (case meet existing s of None \<Rightarrow> None | Some m \<Rightarrow> conjoin (put k m merged) y)
      | None \<Rightarrow> conjoin (put k s merged) y)"

text \<open>normaliseTerm: None for a term that is dead.\<close>

fun normalise_term :: "claim_term \<Rightarrow> claim_term option" where
  "normalise_term [] = Some []"
| "normalise_term ((k, s) # t) =
     (if is_empty s then None
      else if is_top s \<and> \<not> is_unknown s then normalise_term t
      else map_option (\<lambda>u. (k, s) # u) (normalise_term t))"

definition all_top :: "claim_term \<Rightarrow> bool" where
  "all_top t = list_all (\<lambda>(k, s). is_top s) t"

section \<open>Caveats\<close>

record caveat =
  caveat_claim :: claim_key
  caveat_reason :: string
  caveat_source :: string

definition compare_caveats :: "caveat \<Rightarrow> caveat \<Rightarrow> int" where
  "compare_caveats x y =
     cmp_or [go_compare (caveat_source x) (caveat_source y), go_compare (caveat_claim x) (caveat_claim y),
       go_compare (caveat_reason x) (caveat_reason y)]"

definition normalise_caveats :: "caveat list \<Rightarrow> caveat list" where
  "normalise_caveats cs = (if cs = [] then [] else compact_func (=) (sort_func compare_caveats cs))"

definition term_cap :: nat where "term_cap = 256"

definition overflow :: "string \<Rightarrow> caveat" where
  "overflow oper =
     \<lparr>caveat_claim = [], caveat_reason = ''term count exceeded '' @ itoa (int term_cap) @ ''; widened to unconstrained'',
      caveat_source = oper\<rparr>"

section \<open>Admitted sets\<close>

record admitted_set =
  admitted_terms :: "claim_term list"
  admitted_caveats :: "caveat list"

definition Everything :: admitted_set where
  "Everything = \<lparr>admitted_terms = [[]], admitted_caveats = []\<rparr>"

definition Nothing :: admitted_set where
  "Nothing = \<lparr>admitted_terms = [], admitted_caveats = []\<rparr>"

text \<open>The first pass of normalise: None where it meets a term that admits everything.\<close>

fun live_terms :: "claim_term list \<Rightarrow> claim_term list option" where
  "live_terms [] = Some []"
| "live_terms (t # ts) =
     (case normalise_term t of
        None \<Rightarrow> live_terms ts
      | Some u \<Rightarrow> if all_top u then None else map_option (\<lambda>us. u # us) (live_terms ts))"

text \<open>The second pass: renders and deduplicates, None once the cap is exceeded.\<close>

fun kept_rendered :: "claim_term list \<Rightarrow> (claim_term \<times> string) list \<Rightarrow> (claim_term \<times> string) list option" where
  "kept_rendered [] kept = Some kept"
| "kept_rendered (t # ts) kept =
     (let text = render_term t in
      if text \<in> set (map snd kept) then kept_rendered ts kept
      else if term_cap < length (kept @ [(t, text)]) then None
      else kept_rendered ts (kept @ [(t, text)]))"

definition normalise :: "claim_term list \<Rightarrow> caveat list \<Rightarrow> string \<Rightarrow> admitted_set" where
  "normalise ts cs oper =
     (case live_terms ts of
        None \<Rightarrow> \<lparr>admitted_terms = [[]], admitted_caveats = normalise_caveats cs\<rparr>
      | Some live \<Rightarrow>
        (case kept_rendered live [] of
           None \<Rightarrow> \<lparr>admitted_terms = [[]], admitted_caveats = normalise_caveats (cs @ [overflow oper])\<rparr>
         | Some kept \<Rightarrow>
           \<lparr>admitted_terms = map fst (sort_func (\<lambda>x y. go_compare (snd x) (snd y)) kept),
            admitted_caveats = normalise_caveats cs\<rparr>))"

definition new_admitted_set :: "claim_term list \<Rightarrow> admitted_set" where
  "new_admitted_set ts = normalise ts [] ''NewAdmittedSet''"

text \<open>The cross product of the two term lists, None where a meet panics.\<close>

fun conjoin_all :: "(claim_term \<times> claim_term) list \<Rightarrow> claim_term list option" where
  "conjoin_all [] = Some []"
| "conjoin_all ((x, y) # ps) =
     (case conjoin x y of None \<Rightarrow> None | Some m \<Rightarrow> map_option (\<lambda>ms. m # ms) (conjoin_all ps))"

definition admitted_meet :: "admitted_set \<Rightarrow> admitted_set \<Rightarrow> admitted_set option" where
  "admitted_meet a b =
     (case conjoin_all (List.product (admitted_terms a) (admitted_terms b)) of
        None \<Rightarrow> None
      | Some ms \<Rightarrow> Some (normalise ms (admitted_caveats a @ admitted_caveats b) ''Meet''))"

definition admitted_join :: "admitted_set \<Rightarrow> admitted_set \<Rightarrow> admitted_set" where
  "admitted_join a b =
     normalise (admitted_terms a @ admitted_terms b) (admitted_caveats a @ admitted_caveats b) ''Join''"

definition with_caveat :: "caveat \<Rightarrow> admitted_set \<Rightarrow> admitted_set" where
  "with_caveat c a = a\<lparr>admitted_caveats := normalise_caveats (admitted_caveats a @ [c])\<rparr>"

text \<open>A set without caveats is the admitted set, not an upper bound on it.\<close>

definition is_exact :: "admitted_set \<Rightarrow> bool" where
  "is_exact a = (admitted_caveats a = [])"

section \<open>Reading a token\<close>

text \<open>The condition of failures: the claim's value passes, or it is absent and anything passes.\<close>

definition satisfies :: "string_set \<Rightarrow> string option \<Rightarrow> bool" where
  "satisfies s value = (case value of Some v \<Rightarrow> contains s v | None \<Rightarrow> is_top s)"

definition failures :: "claim_term \<Rightarrow> token \<Rightarrow> claim_key list" where
  "failures t token =
     sort_func go_compare (map fst (filter (\<lambda>(k, s). \<not> satisfies s (token k)) t))"

definition admits :: "admitted_set \<Rightarrow> token \<Rightarrow> bool" where
  "admits a token = list_ex (\<lambda>t. length (failures t token) = 0) (admitted_terms a)"

text \<open>The loop of Excludes. The closest failures so far are Go's nil, here [], before the first.\<close>

fun closest_term :: "token \<Rightarrow> claim_term list \<Rightarrow> claim_key list \<times> claim_term \<Rightarrow>
    (claim_key list \<times> claim_term) option" where
  "closest_term token [] best = Some best"
| "closest_term token (t # ts) (closest, closest_t) =
     (let failed = failures t token in
      if failed = [] then None
      else if closest = [] \<or> length failed < length closest
           \<or> length failed = length closest \<and> hd failed < hd closest
      then closest_term token ts (failed, t)
      else closest_term token ts (closest, closest_t))"

definition excludes :: "admitted_set \<Rightarrow> token \<Rightarrow> claim_key \<times> string_set option \<times> bool" where
  "excludes a token =
     (case closest_term token (admitted_terms a) ([], []) of
        None \<Rightarrow> ([], None, False)
      | Some (closest, t) \<Rightarrow>
        if closest = [] then ([], None, True) else (hd closest, map_of t (hd closest), True))"

definition set_is_empty :: "admitted_set \<Rightarrow> bool" where
  "set_is_empty a = (length (admitted_terms a) = 0)"

definition set_is_top :: "admitted_set \<Rightarrow> bool" where
  "set_is_top a = (length (admitted_terms a) = 1 \<and> length (hd (admitted_terms a)) = 0)"

definition render_admitted :: "admitted_set \<Rightarrow> string" where
  "render_admitted a =
     (if length (admitted_terms a) = 0 then empty_text
      else join_strings '' | '' (map render_term (admitted_terms a)))"

section \<open>Canonical terms\<close>

text \<open>
  A claim name the rendering of a term can be read back from: one without an equals sign. The
  rendering writes claim names as they are, so the laws of a canonical set hold for terms over
  such names; collision in Eval_Laws shows what two others do.
\<close>

definition good_key :: "claim_key \<Rightarrow> bool" where
  "good_key k \<longleftrightarrow> CHR ''='' \<notin> set k"

definition good_term :: "claim_term \<Rightarrow> bool" where
  "good_term t \<longleftrightarrow> sorted_wrt (<) (map fst t) \<and> (\<forall>(k, s) \<in> set t. good_key k \<and> wf_set s)"

definition term_admits :: "token \<Rightarrow> claim_term \<Rightarrow> bool" where
  "term_admits token t \<longleftrightarrow> (\<forall>(k, s) \<in> set t. satisfies s (token k))"

lemma failures_Nil: "failures t token = [] \<longleftrightarrow> term_admits token t"
proof -
  have "length (failures t token) = length (filter (\<lambda>(k, s). \<not> satisfies s (token k)) t)"
    by (simp add: failures_def)
  then have "failures t token = [] \<longleftrightarrow> filter (\<lambda>(k, s). \<not> satisfies s (token k)) t = []" by fastforce
  then show ?thesis by (auto simp: term_admits_def filter_empty_conv)
qed

lemma admits_iff: "admits a token \<longleftrightarrow> (\<exists>t \<in> set (admitted_terms a). term_admits token t)"
  by (simp add: admits_def list_ex_iff failures_Nil)

lemma set_failures: "set (failures t token) = {k. \<exists>s. (k, s) \<in> set t \<and> \<not> satisfies s (token k)}"
  by (auto simp: failures_def image_iff)

lemma map_of_put: "map_of (put k s t) = (map_of t)(k \<mapsto> s)"
  by (induction t) auto

end
