(* ===== verification/Eval_Laws.thy ===== *)
theory Eval_Laws imports Eval_Admitted begin

text \<open>
  The laws of admitted sets. normalise is given a closed form (normalise_closed): the union of
  the live terms in canonical order, everything where a term admits everything or the cap is
  exceeded. What a set admits, the order independence of its operations, the bound on its terms
  and the explanation of a rejection follow from it.
\<close>

section \<open>The rendering of a term\<close>

lemma good_term_Cons: "good_term ((k, s) # t) \<longleftrightarrow> good_key k \<and> wf_set s \<and> good_term t \<and> (\<forall>k' \<in> set (map fst t). k < k')"
  by (auto simp: good_term_def)

lemma good_term_Nil [simp]: "good_term []"
  by (simp add: good_term_def)

lemma key_delimited:
  assumes "good_key k" "good_key k'" "k @ ''='' @ x = k' @ ''='' @ y"
  shows "k = k' \<and> x = y"
  using assms by (auto simp: good_key_def append_eq_append_conv2 append_eq_Cons_conv Cons_eq_append_conv)

text \<open>An entry is self-delimiting, and so are the entries joined and closed.\<close>

lemma entry_delimited:
  assumes "good_key k" "wf_set s" "good_key k'" "wf_set s'"
    "k @ ''='' @ render s @ x = k' @ ''='' @ render s' @ y"
  shows "(k, s) = (k', s') \<and> x = y"
  using key_delimited [OF assms(1,3), of "render s @ x" "render s' @ y"] render_delimited [OF assms(2,4), of x y]
    assms(5) by simp

lemma entries_delimited:
  assumes "good_term t" "good_term u" "t \<noteq> []" "u \<noteq> []"
    and "join_strings '', '' (map (\<lambda>(k, s). k @ ''='' @ render s) t) @ ''}'' @ x =
      join_strings '', '' (map (\<lambda>(k, s). k @ ''='' @ render s) u) @ ''}'' @ y"
  shows "t = u \<and> x = y"
  using assms
proof (induction t arbitrary: u)
  case (Cons e t)
  obtain k s where e: "e = (k, s)" by fastforce
  obtain k' s' u' where u: "u = (k', s') # u'" using Cons.prems(4) by (cases u) auto
  let ?f = "\<lambda>(k, s). k @ ''='' @ render s"
  have g: "good_key k" "wf_set s" "good_key k'" "wf_set s'" "good_term t" "good_term u'"
    using Cons.prems(1,2) by (auto simp: e u good_term_Cons)
  have l: "join_strings '', '' (map ?f (e # t)) @ ''}'' @ x = k @ ''='' @ render s @
      (if t = [] then ''}'' @ x else '', '' @ join_strings '', '' (map ?f t) @ ''}'' @ x)"
    by (cases t) (auto simp: e)
  have r: "join_strings '', '' (map ?f u) @ ''}'' @ y = k' @ ''='' @ render s' @
      (if u' = [] then ''}'' @ y else '', '' @ join_strings '', '' (map ?f u') @ ''}'' @ y)"
    by (cases u') (auto simp: u)
  have eq: "(k, s) = (k', s')"
    and rest: "(if t = [] then ''}'' @ x else '', '' @ join_strings '', '' (map ?f t) @ ''}'' @ x)
      = (if u' = [] then ''}'' @ y else '', '' @ join_strings '', '' (map ?f u') @ ''}'' @ y)"
    using entry_delimited [OF g(1-4)] Cons.prems(5) unfolding l r by blast+
  show ?case
  proof (cases "t = [] \<or> u' = []")
    case True
    then have "t = [] \<and> u' = []" using rest by (cases t; cases u') simp_all
    then show ?thesis using eq rest by (simp add: e u)
  next
    case False
    then have "join_strings '', '' (map ?f t) @ ''}'' @ x = join_strings '', '' (map ?f u') @ ''}'' @ y"
      using rest by simp
    then have "t = u' \<and> x = y" using Cons.IH [OF g(5,6)] False by blast
    then show ?thesis using eq by (simp add: e u)
  qed
qed simp

lemma entries_nonempty: "t \<noteq> [] \<Longrightarrow> 2 \<le> length (join_strings '', '' (map (\<lambda>(k, s). k @ ''='' @ render s) t))"
proof -
  assume "t \<noteq> []"
  then obtain k s u where t: "t = (k, s) # u" by (cases t) auto
  obtain q where "render s = head_of s # q" using text_head by blast
  then show ?thesis by (cases u) (auto simp: t)
qed

lemma render_term_inject:
  assumes "good_term t" "good_term u" "render_term t = render_term u"
  shows "t = u"
proof (cases "t = [] \<or> u = []")
  case True
  then have "t = [] \<and> u = []"
    using entries_nonempty [of t] entries_nonempty [of u] arg_cong [OF assms(3), of length]
    by (cases t; cases u) (simp_all add: render_term_def)
  then show ?thesis by simp
next
  case False
  then show ?thesis
    using entries_delimited [of t u "[]" "[]"] assms by (auto simp: render_term_def)
qed

lemma good_terms_inj: "\<forall>t \<in> set ts. good_term t \<Longrightarrow> inj_on render_term (set ts)"
  using render_term_inject by (auto simp: inj_on_def)

section \<open>Merging and normalising terms\<close>

lemma keys_put: "set (map fst (put k s t)) = insert k (set (map fst t))"
  using arg_cong [OF map_of_put [of k s t], of dom] by (simp add: dom_map_of_conv_image_fst)

lemma good_put: "good_term t \<Longrightarrow> good_key k \<Longrightarrow> wf_set s \<Longrightarrow> good_term (put k s t)"
proof (induction t)
  case Nil
  then show ?case by (simp add: good_term_Cons)
next
  case (Cons e t)
  obtain k' s' where e: "e = (k', s')" by fastforce
  show ?case
    using Cons keys_put [of k s t] unfolding e by (auto simp: good_term_Cons simp del: set_map)
qed

lemma good_distinct: "good_term t \<Longrightarrow> distinct (map fst t)"
  using key_sorted_distinct [of "\<lambda>x. x" "map fst t"] by (simp add: good_term_def)

lemma good_in_iff: "good_term t \<Longrightarrow> (k, s) \<in> set t \<longleftrightarrow> map_of t k = Some s"
  using good_distinct by simp

lemma term_admits_map: "good_term t \<Longrightarrow> term_admits token t \<longleftrightarrow> (\<forall>k s. map_of t k = Some s \<longrightarrow> satisfies s (token k))"
  by (auto simp: term_admits_def good_in_iff [symmetric])

lemma good_term_eq:
  assumes "good_term t" "good_term u" "\<And>k. map_of t k = map_of u k"
  shows "t = u"
proof -
  have "set t = set u" using assms good_in_iff by auto
  moreover have "key_sorted fst t" "key_sorted fst u" using assms by (auto simp: good_term_def sorted_wrt_map)
  ultimately show ?thesis by (rule key_sorted_unique)
qed

text \<open>The constraint a conjunction puts on a claim.\<close>

definition both_constraints :: "string_set option \<Rightarrow> string_set option \<Rightarrow> string_set option" where
  "both_constraints a b =
     (case a of None \<Rightarrow> b | Some s \<Rightarrow> (case b of None \<Rightarrow> Some s | Some u \<Rightarrow> meet s u))"

lemma conjoin_spec:
  assumes "good_term x" "good_term y"
  shows "\<exists>m. conjoin x y = Some m \<and> good_term m \<and> (\<forall>k. map_of m k = both_constraints (map_of x k) (map_of y k))"
  using assms
proof (induction x y rule: conjoin.induct)
  case (1 x)
  then show ?case by (auto simp: both_constraints_def split: option.splits)
next
  case (2 x k s y)
  then have y: "good_key k" "wf_set s" "good_term y" "map_of y k = None"
    by (auto simp: good_term_Cons map_of_eq_None_iff)
  show ?case
  proof (cases "map_of x k")
    case None
    then obtain m where m: "conjoin (put k s x) y = Some m" "good_term m"
      "\<And>k'. map_of m k' = both_constraints (map_of (put k s x) k') (map_of y k')"
      using 2 y good_put by metis
    then show ?thesis using None y(4) by (auto simp: map_of_put both_constraints_def split: option.splits)
  next
    case (Some e)
    then have e: "wf_set e" using "2.prems"(1) by (auto simp: good_term_def dest: map_of_SomeD)
    obtain n where n: "meet e s = Some n" "wf_set n" using meet_spec [OF e y(2)] by metis
    then obtain m where m: "conjoin (put k n x) y = Some m" "good_term m"
      "\<And>k'. map_of m k' = both_constraints (map_of (put k n x) k') (map_of y k')"
      using "2.IH"(2) [OF Some n(1)] "2.prems"(1) y good_put by metis
    then show ?thesis using Some n y(4) by (auto simp: map_of_put both_constraints_def split: option.splits)
  qed
qed

lemma satisfies_both:
  assumes "wf_set a" "wf_set b" "meet a b = Some m"
  shows "satisfies m x \<longleftrightarrow> satisfies a x \<and> satisfies b x"
  using sets.both_value(2) [OF assms] by (simp add: satisfies_def)

lemma good_term_value: "good_term t \<Longrightarrow> map_of t k = Some s \<Longrightarrow> good_key k \<and> wf_set s"
  by (auto simp: good_term_def dest: map_of_SomeD)

lemma conjoin_admits:
  assumes "good_term x" "good_term y" "conjoin x y = Some m"
  shows "term_admits token m \<longleftrightarrow> term_admits token x \<and> term_admits token y"
proof -
  have m: "good_term m" "\<And>k. map_of m k = both_constraints (map_of x k) (map_of y k)"
    using conjoin_spec [OF assms(1,2)] assms(3) by auto
  have "(\<forall>s. map_of m k = Some s \<longrightarrow> satisfies s (token k)) \<longleftrightarrow>
      (\<forall>s. map_of x k = Some s \<longrightarrow> satisfies s (token k)) \<and> (\<forall>s. map_of y k = Some s \<longrightarrow> satisfies s (token k))" for k
  proof (cases "map_of x k"; cases "map_of y k")
    fix a b assume ab: "map_of x k = Some a" "map_of y k = Some b"
    then have w: "wf_set a" "wf_set b" using good_term_value assms(1,2) by blast+
    obtain n where n: "meet a b = Some n" using meet_spec [OF w] by metis
    show ?thesis using satisfies_both [OF w n] by (simp add: m(2) ab both_constraints_def n)
  qed (simp_all add: m(2) both_constraints_def)
  then show ?thesis unfolding term_admits_map [OF assms(1)] term_admits_map [OF assms(2)] term_admits_map [OF m(1)] by blast
qed

lemma conjoin_commute:
  assumes "good_term x" "good_term y"
  shows "conjoin x y = conjoin y x"
proof -
  obtain m n where m: "conjoin x y = Some m" "good_term m" "\<And>k. map_of m k = both_constraints (map_of x k) (map_of y k)"
    and n: "conjoin y x = Some n" "good_term n" "\<And>k. map_of n k = both_constraints (map_of y k) (map_of x k)"
    using conjoin_spec assms by metis
  have "both_constraints (map_of x k) (map_of y k) = both_constraints (map_of y k) (map_of x k)" for k
    using good_term_value [OF assms(1)] good_term_value [OF assms(2)]
    by (auto simp: both_constraints_def meet_commute split: option.splits)
  then have "m = n" using m n by (intro good_term_eq) simp_all
  then show ?thesis using m n by simp
qed

text \<open>normaliseTerm drops what cannot fail and reports what cannot be met.\<close>

definition lean_term :: "claim_term \<Rightarrow> bool" where
  "lean_term t \<longleftrightarrow> (\<forall>(k, s) \<in> set t. \<not> is_empty s \<and> (is_top s \<longrightarrow> is_unknown s))"

lemma satisfies_top: "is_top s \<Longrightarrow> satisfies s x"
  by (auto simp: satisfies_def is_top_contains split: option.splits)

lemma satisfies_empty: "is_empty s \<Longrightarrow> \<not> satisfies s x"
  by (auto simp: satisfies_def is_empty_cases split: option.splits)

lemma normalise_term_Some:
  "normalise_term t = Some u \<Longrightarrow> set u \<subseteq> set t \<and> lean_term u \<and> (term_admits token u \<longleftrightarrow> term_admits token t)
    \<and> (good_term t \<longrightarrow> good_term u)"
proof (induction t arbitrary: u rule: normalise_term.induct)
  case (2 k s t)
  show ?case
  proof (cases "is_top s \<and> \<not> is_unknown s")
    case True
    then show ?thesis using 2 satisfies_top [of s] by (auto simp: term_admits_def good_term_Cons split: if_splits)
  next
    case False
    then obtain u' where u: "u = (k, s) # u'" "normalise_term t = Some u'" "\<not> is_empty s"
      using "2.prems" by (auto split: if_splits)
    have IH: "set u' \<subseteq> set t" "lean_term u'" "term_admits token u' \<longleftrightarrow> term_admits token t" "good_term t \<longrightarrow> good_term u'"
      using "2.IH"(2) [OF u(3) False u(2)] by auto
    have "good_term ((k, s) # t) \<longrightarrow> good_term u"
      using IH(1,4) by (auto simp: u(1) good_term_Cons)
    then show ?thesis using IH u(3) False by (auto simp: u(1) term_admits_def lean_term_def)
  qed
qed (auto simp: lean_term_def)

lemma normalise_term_None: "normalise_term t = None \<Longrightarrow> \<not> term_admits token t"
  by (induction t rule: normalise_term.induct) (auto simp: term_admits_def satisfies_empty split: if_splits)

lemma normalise_lean: "lean_term t \<Longrightarrow> normalise_term t = Some t"
  by (induction t rule: normalise_term.induct) (auto simp: lean_term_def)

lemma all_top_admits: "all_top t \<Longrightarrow> term_admits token t"
  by (auto simp: all_top_def term_admits_def list_all_iff satisfies_top)


section \<open>normalise in closed form\<close>

definition good_set :: "admitted_set \<Rightarrow> bool" where
  "good_set a \<longleftrightarrow> (\<forall>t \<in> set (admitted_terms a). good_term t)"

lemma live_terms_None: "live_terms ts = None \<longleftrightarrow> (\<exists>t \<in> set ts. \<exists>u. normalise_term t = Some u \<and> all_top u)"
  by (induction ts) (auto split: option.splits)

lemma live_terms_Some: "live_terms ts = Some us \<Longrightarrow> set us = {u. \<exists>t \<in> set ts. normalise_term t = Some u}"
  by (induction ts arbitrary: us) (auto split: option.splits if_splits)

text \<open>The deduplication keeps one term of each rendering, and gives up when there are too many.\<close>

lemma kept_rendered_spec:
  assumes "distinct (map render_term us)" "length us \<le> term_cap"
  shows "case kept_rendered ts (map (\<lambda>t. (t, render_term t)) us) of
      None \<Rightarrow> term_cap < card (render_term ` (set us \<union> set ts))
    | Some kept \<Rightarrow> \<exists>vs. kept = map (\<lambda>t. (t, render_term t)) vs \<and> distinct (map render_term vs) \<and>
        length vs \<le> term_cap \<and> set vs \<subseteq> set us \<union> set ts \<and> render_term ` set vs = render_term ` (set us \<union> set ts)"
  using assms
proof (induction ts arbitrary: us)
  case Nil
  then show ?case by auto
next
  case (Cons t ts)
  let ?e = "\<lambda>t. (t, render_term t)"
  have texts: "set (map snd (map ?e us)) = render_term ` set us" by (auto simp: comp_def)
  show ?case
  proof (cases "render_term t \<in> render_term ` set us")
    case True
    then have "kept_rendered (t # ts) (map ?e us) = kept_rendered ts (map ?e us)"
      using texts by (simp add: Let_def)
    moreover have "render_term ` (set us \<union> set (t # ts)) = render_term ` (set us \<union> set ts)"
      using True by auto
    ultimately show ?thesis using Cons.IH [OF Cons.prems] by (auto split: option.splits)
  next
    case False
    have d: "distinct (map render_term (us @ [t]))" using Cons.prems(1) False by auto
    have app: "map ?e us @ [(t, render_term t)] = map ?e (us @ [t])" by simp
    show ?thesis
    proof (cases "term_cap < length (us @ [t])")
      case True
      then have "kept_rendered (t # ts) (map ?e us) = None" using False texts by (simp add: Let_def)
      moreover have "card (render_term ` set (us @ [t])) = length (us @ [t])"
        using distinct_card [OF d] by simp
      moreover have "card (render_term ` set (us @ [t])) \<le> card (render_term ` (set us \<union> set (t # ts)))"
        by (intro card_mono image_mono) auto
      ultimately show ?thesis using True by simp
    next
      case no: False
      then have e: "kept_rendered (t # ts) (map ?e us) = kept_rendered ts (map ?e (us @ [t]))"
        using False texts by (simp add: Let_def)
      have u: "set us \<union> set (t # ts) = set (us @ [t]) \<union> set ts" by auto
      show ?thesis unfolding e u by (rule Cons.IH [OF d]) (use no in simp)
    qed
  qed
qed

lemma kept_rendered_None: "kept_rendered ts [] = None \<Longrightarrow> term_cap < card (render_term ` set ts)"
  using kept_rendered_spec [of "[]" ts] by simp

lemma kept_rendered_Some:
  assumes "kept_rendered ts [] = Some kept"
  obtains vs where "kept = map (\<lambda>t. (t, render_term t)) vs" "distinct (map render_term vs)"
    "length vs \<le> term_cap" "set vs \<subseteq> set ts" "render_term ` set vs = render_term ` set ts"
  using kept_rendered_spec [of "[]" ts] assms by auto

lemma sort_kept:
  assumes "distinct (map render_term vs)"
  shows "key_sorted render_term (map fst (sort_func (\<lambda>x y. go_compare (snd x) (snd y)) (map (\<lambda>t. (t, render_term t)) vs)))"
    (is "key_sorted _ (map fst ?s)")
proof -
  have "sorted (map snd ?s)" by (simp add: sort_func_key)
  moreover have "mset (map snd ?s) = mset (map render_term vs)"
    by (simp add: image_mset.compositionality comp_def)
  then have "distinct (map snd ?s)" using assms mset_eq_imp_distinct_iff by blast
  ultimately have "sorted_wrt (<) (map snd ?s)" by (simp add: strict_sorted_iff)
  moreover have "map snd ?s = map render_term (map fst ?s)" by (auto simp: comp_def)
  ultimately show ?thesis by (simp add: sorted_wrt_map)
qed

text \<open>The live terms of a list, as a set.\<close>

definition live :: "claim_term list \<Rightarrow> claim_term set" where
  "live ts = {u. \<exists>t \<in> set ts. normalise_term t = Some u}"

lemma live_finite: "finite (live ts)"
proof -
  have "live ts \<subseteq> (\<lambda>t. the (normalise_term t)) ` set ts" by (force simp: live_def)
  then show ?thesis by (rule finite_subset) simp
qed

lemma live_good: "\<forall>t \<in> set ts. good_term t \<Longrightarrow> u \<in> live ts \<Longrightarrow> good_term u"
  using normalise_term_Some by (auto simp: live_def)

lemma normalise_cases [consumes 1, case_names all over terms]:
  assumes "\<forall>t \<in> set ts. good_term t"
  obtains "\<exists>u \<in> live ts. all_top u"
      "normalise ts cs oper = \<lparr>admitted_terms = [[]], admitted_caveats = normalise_caveats cs\<rparr>"
    | "\<not> (\<exists>u \<in> live ts. all_top u)" "term_cap < card (live ts)"
      "normalise ts cs oper = \<lparr>admitted_terms = [[]], admitted_caveats = normalise_caveats (cs @ [overflow oper])\<rparr>"
    | us where "\<not> (\<exists>u \<in> live ts. all_top u)" "card (live ts) \<le> term_cap" "set us = live ts"
      "key_sorted render_term us"
      "normalise ts cs oper = \<lparr>admitted_terms = us, admitted_caveats = normalise_caveats cs\<rparr>"
proof (cases "live_terms ts")
  case None
  then have "\<exists>u \<in> live ts. all_top u" using live_terms_None by (auto simp: live_def)
  then show thesis using that(1) None by (simp add: normalise_def)
next
  case (Some us)
  have none: "\<not> (\<exists>u \<in> live ts. all_top u)" using live_terms_None [of ts] Some by (auto simp: live_def)
  have us: "set us = live ts" using live_terms_Some [OF Some] by (simp add: live_def)
  have inj: "inj_on render_term (live ts)"
    using live_good [OF assms] render_term_inject by (auto simp: inj_on_def)
  have card: "card (render_term ` set us) = card (live ts)" using card_image [OF inj] by (simp add: us)
  show thesis
  proof (cases "kept_rendered us []")
    case None
    then show thesis using that(2) none Some kept_rendered_None [OF None] card by (simp add: normalise_def)
  next
    case (Some kept)
    obtain vs where kept: "kept = map (\<lambda>t. (t, render_term t)) vs" "distinct (map render_term vs)"
      "length vs \<le> term_cap" "set vs \<subseteq> set us" "render_term ` set vs = render_term ` set us"
      by (rule kept_rendered_Some [OF Some])
    note vs = kept [unfolded us]
    have sv: "set vs = live ts" using inj_on_image_eq_iff [OF inj vs(4) subset_refl] vs(5) by blast
    let ?ts = "map fst (sort_func (\<lambda>x y. go_compare (snd x) (snd y)) kept)"
    have "set ?ts = live ts" by (simp only: set_map set_sort_func) (simp add: vs(1) sv image_image)
    moreover have "key_sorted render_term ?ts" unfolding vs(1) by (rule sort_kept [OF vs(2)])
    moreover have "card (live ts) \<le> term_cap" using vs(3) card_length [of vs] by (simp add: sv)
    moreover have "normalise ts cs oper = \<lparr>admitted_terms = ?ts, admitted_caveats = normalise_caveats cs\<rparr>"
      using \<open>live_terms ts = Some us\<close> Some by (simp add: normalise_def)
    ultimately show thesis using that(3) none by blast
  qed
qed

lemma live_admits: "(\<exists>u \<in> live ts. term_admits token u) \<longleftrightarrow> (\<exists>t \<in> set ts. term_admits token t)"
proof
  assume "\<exists>t \<in> set ts. term_admits token t"
  then obtain t where t: "t \<in> set ts" "term_admits token t" by blast
  then obtain u where u: "normalise_term t = Some u" using normalise_term_None by (cases "normalise_term t") blast+
  then have "term_admits token u" using normalise_term_Some t(2) by blast
  then show "\<exists>u \<in> live ts. term_admits token u" using t(1) u by (auto simp: live_def)
next
  assume "\<exists>u \<in> live ts. term_admits token u"
  then show "\<exists>t \<in> set ts. term_admits token t"
    using normalise_term_Some unfolding live_def by blast
qed

text \<open>Caveats are sorted and without repeats, whatever order they came in.\<close>

lemma comparison_caveats: "comparison compare_caveats"
proof -
  let ?cs = "[\<lambda>x y. go_compare (caveat_source x) (caveat_source y), \<lambda>x y. go_compare (caveat_claim x) (caveat_claim y),
    \<lambda>x y. go_compare (caveat_reason x) (caveat_reason y)]"
  have "comparison (\<lambda>x y. cmp_or (map (\<lambda>c. c x y) ?cs))"
    by (rule comparison_or) (auto intro: comparison_key)
  then show ?thesis by (simp add: compare_caveats_def [abs_def])
qed

interpretation caveats: total_comparison compare_caveats
proof -
  show "total_comparison compare_caveats"
    by (intro total_comparison.intro total_comparison_axioms.intro comparison_caveats)
      (auto simp: compare_caveats_def cmp_or_zero_iff simp del: cmp_or.simps intro: caveat.equality)
qed


lemma normalise_caveats_sort: "normalise_caveats cs = compact_func (=) (sort_func compare_caveats cs)"
  by (cases cs) (auto simp: normalise_caveats_def sort_func_def)

lemma set_normalise_caveats [simp]: "set (normalise_caveats cs) = set cs"
  unfolding normalise_caveats_sort by (rule caveats.sort_compact_set)

lemma normalise_caveats_sorted: "sorted_wrt (\<lambda>x y. compare_caveats x y < 0) (normalise_caveats cs)"
  unfolding normalise_caveats_sort by (rule caveats.sort_compact_sorted)

lemma normalise_caveats_cong: "set cs = set ds \<Longrightarrow> normalise_caveats cs = normalise_caveats ds"
  unfolding normalise_caveats_sort by (rule caveats.sort_compact_cong)

lemma normalise_caveats_id: "sorted_wrt (\<lambda>x y. compare_caveats x y < 0) cs \<Longrightarrow> normalise_caveats cs = cs"
  unfolding normalise_caveats_sort by (rule caveats.sort_compact_id)

section \<open>Canonical sets\<close>

definition canonical_set :: "admitted_set \<Rightarrow> bool" where
  "canonical_set a \<longleftrightarrow>
     (admitted_terms a = [[]] \<or>
      key_sorted render_term (admitted_terms a) \<and> (\<forall>t \<in> set (admitted_terms a). good_term t \<and> lean_term t \<and> \<not> all_top t)) \<and>
     length (admitted_terms a) \<le> term_cap \<and>
     sorted_wrt (\<lambda>x y. compare_caveats x y < 0) (admitted_caveats a)"

lemma normalise_canonical:
  assumes "\<forall>t \<in> set ts. good_term t"
  shows "canonical_set (normalise ts cs oper)"
using assms
proof (cases rule: normalise_cases [where cs = cs and oper = oper])
  case (terms us)
  have "good_term u \<and> lean_term u \<and> \<not> all_top u" if "u \<in> set us" for u
    using that terms(1,3) live_good [OF assms] normalise_term_Some by (auto simp: live_def)
  moreover have "length us \<le> term_cap"
    using terms(2,3) distinct_card [OF key_sorted_distinct [OF terms(4)]] by simp
  ultimately show ?thesis using terms(4) by (simp add: terms(5) canonical_set_def normalise_caveats_sorted)
qed (simp_all add: canonical_set_def normalise_caveats_sorted term_cap_def)

lemma normalise_cong:
  assumes "\<forall>t \<in> set ts. good_term t" "set ts = set us" "set cs = set ds"
  shows "normalise ts cs oper = normalise us ds oper"
proof -
  have l: "live ts = live us" using assms(2) by (simp add: live_def)
  have c: "normalise_caveats cs = normalise_caveats ds"
    "normalise_caveats (cs @ [overflow oper]) = normalise_caveats (ds @ [overflow oper])"
    using assms(3) by (auto intro: normalise_caveats_cong)
  have g: "\<forall>t \<in> set us. good_term t" using assms by simp
  show ?thesis
  using assms(1)
  proof (cases rule: normalise_cases [where cs = cs and oper = oper])
    case all
    then show ?thesis using normalise_cases [OF g, where cs = ds and oper = oper] l c by metis
  next
    case over
    then show ?thesis using normalise_cases [OF g, where cs = ds and oper = oper] l c
      by (metis linorder_not_less)
  next
    case (terms vs)
    show ?thesis
    using g
    proof (cases rule: normalise_cases [where cs = ds and oper = oper])
      case (terms ws)
      then have "vs = ws" using \<open>set vs = live ts\<close> \<open>key_sorted render_term vs\<close> l by (auto intro: key_sorted_unique)
      then show ?thesis using terms \<open>normalise ts cs oper = _\<close> c by simp
    qed (use terms l in auto)
  qed
qed

text \<open>
  What the normal form admits: what the terms do, or everything under a caveat that says so.
\<close>

lemma term_admits_Nil [simp]: "term_admits token []"
  by (simp add: term_admits_def)

lemma normalise_admits:
  assumes "\<forall>t \<in> set ts. good_term t"
  obtains "\<And>token. admits (normalise ts cs oper) token \<longleftrightarrow> (\<exists>t \<in> set ts. term_admits token t)"
      "set (admitted_caveats (normalise ts cs oper)) = set cs"
    | "normalise ts cs oper = \<lparr>admitted_terms = [[]], admitted_caveats = normalise_caveats (cs @ [overflow oper])\<rparr>"
using assms
proof (cases rule: normalise_cases [where cs = cs and oper = oper])
  case all
  then show thesis
    using that(1) live_admits [of ts] all_top_admits by (simp add: admits_iff) blast
next
  case over
  then show thesis using that(2) by simp
next
  case (terms us)
  then show thesis using that(1) live_admits [of ts] by (simp add: admits_iff)
qed

lemma canonical_good: "canonical_set a \<Longrightarrow> t \<in> set (admitted_terms a) \<Longrightarrow> good_term t"
  by (auto simp: canonical_set_def)

lemma conjoin_all_spec:
  assumes "\<forall>(x, y) \<in> set ps. good_term x \<and> good_term y"
  obtains ms where "conjoin_all ps = Some ms" "set ms = {m. \<exists>(x, y) \<in> set ps. conjoin x y = Some m}"
    "\<forall>m \<in> set ms. good_term m"
proof -
  have "\<exists>ms. conjoin_all ps = Some ms \<and> set ms = {m. \<exists>(x, y) \<in> set ps. conjoin x y = Some m} \<and> (\<forall>m \<in> set ms. good_term m)"
    using assms
  proof (induction ps)
    case (Cons p ps)
    obtain x y where p: "p = (x, y)" by fastforce
    obtain m where "conjoin x y = Some m" "good_term m" using conjoin_spec [of x y] Cons.prems p by auto
    moreover obtain ms where "conjoin_all ps = Some ms" "set ms = {m. \<exists>(x, y) \<in> set ps. conjoin x y = Some m}"
      "\<forall>m \<in> set ms. good_term m" using Cons by auto
    ultimately show ?case by (auto simp: p)
  qed simp
  then show thesis using that by blast
qed

section \<open>The rendering of a set\<close>

lemma render_term_delimited:
  assumes "good_term t" "good_term u" "t \<noteq> []" "u \<noteq> []" "render_term t @ x = render_term u @ y"
  shows "t = u \<and> x = y"
  using entries_delimited [OF assms(1-4), of x y] assms(5) by (simp add: render_term_def)

lemma render_term_long: "t \<noteq> [] \<Longrightarrow> 4 \<le> length (render_term t)"
  using entries_nonempty [of t] by (simp add: render_term_def)

lemma render_terms_inject:
  assumes "\<forall>t \<in> set ts. good_term t \<and> t \<noteq> []" "\<forall>t \<in> set us. good_term t \<and> t \<noteq> []" "ts \<noteq> []" "us \<noteq> []"
    and "join_strings '' | '' (map render_term ts) = join_strings '' | '' (map render_term us)"
  shows "ts = us"
proof -
  let ?A = "{t. good_term t \<and> t \<noteq> []}"
  have "ts = us \<and> ([]::string) = []"
  proof (rule joined_delimited [where A = ?A and B = ?A and f = render_term and c = "CHR '' ''" and sep = "''| ''"])
    show "a = b \<and> x = y" if "a \<in> ?A" "b \<in> ?A" "render_term a @ x = render_term b @ y" for a b x y
      using that render_term_delimited by blast
    show "join_strings '' | '' (map render_term ts) @ '')'' @ [] = join_strings '' | '' (map render_term us) @ '')'' @ []"
      using assms(5) by simp
  qed (use assms in auto)
  then show ?thesis by simp
qed

lemma joined_terms_long: "ts \<noteq> [] \<Longrightarrow> \<forall>t \<in> set ts. t \<noteq> [] \<Longrightarrow> 4 \<le> length (join_strings '' | '' (map render_term ts))"
proof -
  assume a: "ts \<noteq> []" "\<forall>t \<in> set ts. t \<noteq> []"
  then obtain t us where "ts = t # us" by (cases ts) auto
  then show ?thesis using a render_term_long [of t] by (cases us) auto
qed

lemma render_admitted_inject:
  assumes "canonical_set a" "canonical_set b" "render_admitted a = render_admitted b"
  shows "admitted_terms a = admitted_terms b"
proof -
  have shape: "admitted_terms s = [] \<and> render_admitted s = empty_text
      \<or> admitted_terms s = [[]] \<and> render_admitted s = ''{}''
      \<or> (\<forall>t \<in> set (admitted_terms s). good_term t \<and> t \<noteq> []) \<and> admitted_terms s \<noteq> [] \<and>
        render_admitted s = join_strings '' | '' (map render_term (admitted_terms s)) \<and>
        4 \<le> length (render_admitted s)" if "canonical_set s" for s
  proof (cases "admitted_terms s = [] \<or> admitted_terms s = [[]]")
    case True
    then show ?thesis by (auto simp: render_admitted_def render_term_def)
  next
    case False
    then have t: "\<forall>t \<in> set (admitted_terms s). good_term t \<and> t \<noteq> []"
      using that by (auto simp: canonical_set_def all_top_def)
    then show ?thesis
      using False joined_terms_long [of "admitted_terms s"]
      by (auto simp: render_admitted_def)
  qed
  show ?thesis
    using shape [OF assms(1)] shape [OF assms(2)] arg_cong [OF assms(3), of length]
  proof (elim disjE conjE, goal_cases)
    case 9
    then have "join_strings '' | '' (map render_term (admitted_terms a)) = join_strings '' | '' (map render_term (admitted_terms b))"
      using assms(3) by metis
    then show ?thesis using 9 by (intro render_terms_inject) blast+
  qed (simp_all add: empty_text_def)
qed
section \<open>The sets the package builds\<close>

definition built_term :: "claim_term \<Rightarrow> bool" where
  "built_term t \<longleftrightarrow> sorted_wrt (<) (map fst t) \<and> (\<forall>(k, s) \<in> set t. good_key k \<and> built s)"

lemma built_term_good: "built_term t \<Longrightarrow> good_term t"
  using built_wf by (auto simp: built_term_def good_term_def)

inductive built_set :: "admitted_set \<Rightarrow> bool" where
  "\<forall>t \<in> set ts. built_term t \<Longrightarrow> built_set (new_admitted_set ts)"
| "built_set Everything"
| "built_set Nothing"
| "built_set a \<Longrightarrow> built_set b \<Longrightarrow> admitted_meet a b = Some m \<Longrightarrow> built_set m"
| "built_set a \<Longrightarrow> built_set b \<Longrightarrow> built_set (admitted_join a b)"
| "built_set a \<Longrightarrow> built_set (with_caveat c a)"

lemma product_good:
  "canonical_set a \<Longrightarrow> canonical_set b \<Longrightarrow>
    \<forall>(x, y) \<in> set (List.product (admitted_terms a) (admitted_terms b)). good_term x \<and> good_term y"
  by (auto dest: canonical_good)

lemma meet_canonical:
  assumes "canonical_set a" "canonical_set b"
  obtains ms where
    "admitted_meet a b = Some (normalise ms (admitted_caveats a @ admitted_caveats b) ''Meet'')"
    "\<forall>m \<in> set ms. good_term m"
    "set ms = {m. \<exists>x \<in> set (admitted_terms a). \<exists>y \<in> set (admitted_terms b). conjoin x y = Some m}"
proof -
  obtain ms where "conjoin_all (List.product (admitted_terms a) (admitted_terms b)) = Some ms"
    "set ms = {m. \<exists>(x, y) \<in> set (List.product (admitted_terms a) (admitted_terms b)). conjoin x y = Some m}"
    "\<forall>m \<in> set ms. good_term m"
    using conjoin_all_spec [OF product_good [OF assms]] by blast
  then show thesis using that [of ms] by (auto simp: admitted_meet_def)
qed

lemma terms_append_good: "canonical_set a \<Longrightarrow> canonical_set b \<Longrightarrow>
    \<forall>t \<in> set (admitted_terms a @ admitted_terms b). good_term t"
  by (auto dest: canonical_good)

lemma built_canonical: "built_set a \<Longrightarrow> canonical_set a"
proof (induction rule: built_set.induct)
  case (1 ts)
  then show ?case using built_term_good normalise_canonical by (simp add: new_admitted_set_def)
next
  case (4 a b m)
  obtain ms where ms: "admitted_meet a b = Some (normalise ms (admitted_caveats a @ admitted_caveats b) ''Meet'')"
    "\<forall>m \<in> set ms. good_term m"
    "set ms = {m. \<exists>x \<in> set (admitted_terms a). \<exists>y \<in> set (admitted_terms b). conjoin x y = Some m}"
    by (rule meet_canonical [OF "4.IH"])
  then show ?case using "4.hyps" normalise_canonical [OF ms(2)] by simp
next
  case (5 a b)
  then show ?case using normalise_canonical terms_append_good by (simp add: admitted_join_def)
next
  case (6 a c)
  then show ?case by (simp add: canonical_set_def with_caveat_def normalise_caveats_sorted)
qed (simp_all add: canonical_set_def Everything_def Nothing_def term_cap_def)

lemma conjunction_admits:
  assumes "canonical_set a" "canonical_set b"
    "set ms = {m. \<exists>x \<in> set (admitted_terms a). \<exists>y \<in> set (admitted_terms b). conjoin x y = Some m}"
  shows "(\<exists>m \<in> set ms. term_admits token m) \<longleftrightarrow> admits a token \<and> admits b token"
proof
  assume "\<exists>m \<in> set ms. term_admits token m"
  then show "admits a token \<and> admits b token"
    using assms(3) conjoin_admits canonical_good assms(1,2) unfolding admits_iff by blast
next
  assume "admits a token \<and> admits b token"
  then obtain x y where xy: "x \<in> set (admitted_terms a)" "term_admits token x"
    "y \<in> set (admitted_terms b)" "term_admits token y"
    unfolding admits_iff by blast
  then have g: "good_term x" "good_term y" using canonical_good assms(1,2) by blast+
  then obtain m where m: "conjoin x y = Some m" using conjoin_spec by blast
  then have "term_admits token m" using conjoin_admits [OF g m] xy by blast
  then show "\<exists>m \<in> set ms. term_admits token m" using assms(3) m xy by blast
qed

lemma everything_admits: "admitted_terms a = [[]] \<Longrightarrow> admits a token"
  by (simp add: admits_iff)

lemma canonical_normalise:
  assumes "canonical_set a" "set cs = set (admitted_caveats a)"
  shows "normalise (admitted_terms a) cs oper = a"
proof -
  have c: "normalise_caveats cs = admitted_caveats a"
    using normalise_caveats_cong [OF assms(2)] normalise_caveats_id assms(1) by (simp add: canonical_set_def)
  have g: "\<forall>t \<in> set (admitted_terms a). good_term t" using assms(1) canonical_good by blast
  show ?thesis
  proof (cases "admitted_terms a = [[]]")
    case True
    have "live [[]] = {[]}" by (auto simp: live_def)
    then have "\<exists>u \<in> live (admitted_terms a). all_top u" by (simp add: True all_top_def)
    with g show ?thesis
    proof (cases rule: normalise_cases [where cs = cs and oper = oper])
      case all
      then show ?thesis using c True by simp
    qed auto
  next
    case False
    then have t: "key_sorted render_term (admitted_terms a)"
      "\<forall>t \<in> set (admitted_terms a). good_term t \<and> lean_term t \<and> \<not> all_top t" "length (admitted_terms a) \<le> term_cap"
      using assms(1) by (auto simp: canonical_set_def)
    have l: "live (admitted_terms a) = set (admitted_terms a)"
      using t(2) normalise_lean by (auto simp: live_def)
    show ?thesis using g
    proof (cases rule: normalise_cases [where cs = cs and oper = oper])
      case all
      then show ?thesis using t(2) l by blast
    next
      case over
      then show ?thesis using t(3) card_length [of "admitted_terms a"] l by simp
    next
      case (terms us)
      then have "us = admitted_terms a" using t(1) l by (auto intro: key_sorted_unique)
      then show ?thesis using terms(5) c by simp
    qed
  qed
qed

text \<open>The loop of Excludes keeps the closest term: fewest failures, then the smallest claim.\<close>

definition closer :: "claim_key list \<Rightarrow> claim_key list \<Rightarrow> bool" where
  "closer f g \<longleftrightarrow> length f < length g \<or> length f = length g \<and> hd f \<le> hd g"

lemma closest_term_None:
  "closest_term token ts best = None \<longleftrightarrow> (\<exists>t \<in> set ts. failures t token = [])"
  by (induction token ts best rule: closest_term.induct) (auto simp: Let_def)

lemma closest_term_Some:
  assumes "closest_term token ts (f, t0) = Some (g, t)" "f = [] \<longrightarrow> ts \<noteq> []"
  shows "g \<noteq> [] \<and> (g = failures t token \<and> t \<in> set ts \<or> (g, t) = (f, t0)) \<and> (f \<noteq> [] \<longrightarrow> closer g f)
    \<and> (\<forall>u \<in> set ts. closer g (failures u token))"
  using assms
proof (induction ts arbitrary: f t0)
  case Nil
  then show ?case by (auto simp: closer_def)
next
  case (Cons u ts)
  let ?u = "failures u token"
  have u: "?u \<noteq> []" using Cons.prems(1) by (auto simp: Let_def split: if_splits)
  show ?case
  proof (cases "f = [] \<or> length ?u < length f \<or> length ?u = length f \<and> hd ?u < hd f")
    case True
    then have "closest_term token ts (?u, u) = Some (g, t)" using Cons.prems(1) u by (simp add: Let_def)
    then have IH: "g \<noteq> []" "g = failures t token \<and> t \<in> set ts \<or> (g, t) = (?u, u)" "closer g ?u"
      "\<forall>u \<in> set ts. closer g (failures u token)"
      using Cons.IH [of ?u u] u by auto
    moreover have "f \<noteq> [] \<longrightarrow> closer g f" using True IH(3) by (auto simp: closer_def)
    ultimately show ?thesis by auto
  next
    case False
    then have "closest_term token ts (f, t0) = Some (g, t)" using Cons.prems(1) u by (auto simp: Let_def)
    then have IH: "g \<noteq> []" "g = failures t token \<and> t \<in> set ts \<or> (g, t) = (f, t0)" "closer g f"
      "\<forall>u \<in> set ts. closer g (failures u token)"
      using Cons.IH [of f t0] False by auto
    moreover have "closer g ?u" using False IH(3) by (auto simp: closer_def not_less)
    ultimately show ?thesis by auto
  qed
qed

section \<open>Properties\<close>

text \<open>Two terms the instances below read, and two whose renderings are one string.\<close>

definition sub_is_a :: claim_term where "sub_is_a = [(''sub'', Exact ''a'')]"
definition aud_like_b :: claim_term where "aud_like_b = [(''aud'', Glob ''b*'')]"
definition two_claims :: claim_term where "two_claims = [(''a'', Exact ''x''), (''b'', Exact ''y'')]"

definition one_claim :: claim_term where
  "one_claim = [(''a='' @ [dquote] @ ''x'' @ [dquote] @ '', b'', Exact ''y'')]"

lemma example_terms: "built_term sub_is_a" "built_term aud_like_b"
  by (auto simp: built_term_def sub_is_a_def aud_like_b_def good_key_def intro: built.intros)

text \<open>
  C11: Canonical form is an invariant: every admitted set the operations can build, from terms
  over claim names without an equals sign, has its terms strictly sorted by rendering, each free
  of constraints that admit everything or nothing, at most 256 of them, and is the single empty
  term as soon as one term admits everything; and its caveats are strictly sorted.
\<close>

theorem admitted_sets_are_canonical:
  assumes "built_set a"
  shows "canonical_set a"
  by (rule built_canonical [OF assms])

theorem admitted_sets_are_canonical_witness:
  "canonical_set (admitted_join (new_admitted_set [sub_is_a]) (new_admitted_set [aud_like_b]))"
  by (intro admitted_sets_are_canonical built_set.intros(5) built_set.intros(1)) (use example_terms in auto)

text \<open>
  C10: Join of admitted sets is disjunction, for sets the operations build from terms over claim
  names without an equals sign: it never loses a token either side admits, it gains one only when
  the term cap widened it, which its caveats then say, and it carries every caveat of both sides.
  Over other names two terms may render alike and Join may lose the tokens of one, which
  term_rendering_collides shows.
\<close>

theorem admitted_join_is_disjunction:
  assumes "built_set a" "built_set b"
  shows "(\<forall>token. admits a token \<or> admits b token \<longrightarrow> admits (admitted_join a b) token)
    \<and> (overflow ''Join'' \<in> set (admitted_caveats (admitted_join a b))
       \<or> (\<forall>token. admits (admitted_join a b) token \<longrightarrow> admits a token \<or> admits b token))
    \<and> set (admitted_caveats a) \<union> set (admitted_caveats b) \<subseteq> set (admitted_caveats (admitted_join a b))"
  using terms_append_good [OF assms [THEN built_canonical]]
proof (rule normalise_admits [of "admitted_terms a @ admitted_terms b" "admitted_caveats a @ admitted_caveats b" "''Join''"],
    fold admitted_join_def)
  assume "\<And>token. admits (admitted_join a b) token \<longleftrightarrow> (\<exists>t \<in> set (admitted_terms a @ admitted_terms b). term_admits token t)"
    "set (admitted_caveats (admitted_join a b)) = set (admitted_caveats a @ admitted_caveats b)"
  then show ?thesis by (auto simp: admits_iff)
qed (auto simp: everything_admits)

theorem admitted_join_is_disjunction_witness:
  "admits (admitted_join (new_admitted_set [sub_is_a]) (new_admitted_set [aud_like_b])) [''sub'' \<mapsto> ''a'']
    \<and> \<not> admits (admitted_join (new_admitted_set [sub_is_a]) (new_admitted_set [aud_like_b])) [''sub'' \<mapsto> ''b'']"
proof -
  have b: "built_set (new_admitted_set [sub_is_a])" "built_set (new_admitted_set [aud_like_b])"
    by (rule built_set.intros(1); use example_terms in auto)+
  have "admits (new_admitted_set [sub_is_a]) [''sub'' \<mapsto> ''a'']"
    "\<not> admits (new_admitted_set [sub_is_a]) [''sub'' \<mapsto> ''b'']" "\<not> admits (new_admitted_set [aud_like_b]) [''sub'' \<mapsto> ''b'']"
    "overflow ''Join'' \<notin> set (admitted_caveats (admitted_join (new_admitted_set [sub_is_a]) (new_admitted_set [aud_like_b])))"
    by code_simp+
  then show ?thesis using admitted_join_is_disjunction [OF b] by blast
qed

text \<open>
  C9: Meet of admitted sets is conjunction, for sets the operations build from terms over claim
  names without an equals sign: it returns, it never loses a token both sides admit, it gains one
  only when the term cap widened it, which its caveats then say, and it carries every caveat of
  both sides. Over other names two conjunctions may render alike and one of them be dropped, as
  term_rendering_collides shows of a union.
\<close>

theorem admitted_meet_is_conjunction:
  assumes "built_set a" "built_set b"
  shows "\<exists>m. admitted_meet a b = Some m \<and> built_set m
    \<and> (\<forall>token. admits a token \<and> admits b token \<longrightarrow> admits m token)
    \<and> (overflow ''Meet'' \<in> set (admitted_caveats m)
       \<or> (\<forall>token. admits m token \<longrightarrow> admits a token \<and> admits b token))
    \<and> set (admitted_caveats a) \<union> set (admitted_caveats b) \<subseteq> set (admitted_caveats m)"
proof -
  note c = assms [THEN built_canonical]
  let ?cs = "admitted_caveats a @ admitted_caveats b"
  obtain ms where ms: "admitted_meet a b = Some (normalise ms ?cs ''Meet'')" "\<forall>m \<in> set ms. good_term m"
    "set ms = {m. \<exists>x \<in> set (admitted_terms a). \<exists>y \<in> set (admitted_terms b). conjoin x y = Some m}"
    by (rule meet_canonical [OF c])
  note conj = conjunction_admits [OF c ms(3)]
  have "built_set (normalise ms ?cs ''Meet'')" by (rule built_set.intros(4) [OF assms ms(1)])
  moreover have "(\<forall>token. admits a token \<and> admits b token \<longrightarrow> admits (normalise ms ?cs ''Meet'') token)
    \<and> (overflow ''Meet'' \<in> set (admitted_caveats (normalise ms ?cs ''Meet''))
       \<or> (\<forall>token. admits (normalise ms ?cs ''Meet'') token \<longrightarrow> admits a token \<and> admits b token))
    \<and> set (admitted_caveats a) \<union> set (admitted_caveats b) \<subseteq> set (admitted_caveats (normalise ms ?cs ''Meet''))"
    using ms(2)
    by (rule normalise_admits [of ms ?cs "''Meet''"]) (auto simp: conj everything_admits)
  ultimately show ?thesis using ms(1) by blast
qed

theorem admitted_meet_is_conjunction_witness:
  "\<exists>m. admitted_meet (new_admitted_set [sub_is_a]) (new_admitted_set [aud_like_b]) = Some m
    \<and> admits m [''sub'' \<mapsto> ''a'', ''aud'' \<mapsto> ''bc'']"
proof -
  have b: "built_set (new_admitted_set [sub_is_a])" "built_set (new_admitted_set [aud_like_b])"
    by (rule built_set.intros(1); use example_terms in auto)+
  have "admits (new_admitted_set [sub_is_a]) [''sub'' \<mapsto> ''a'', ''aud'' \<mapsto> ''bc'']"
    "admits (new_admitted_set [aud_like_b]) [''sub'' \<mapsto> ''a'', ''aud'' \<mapsto> ''bc'']"
    by code_simp+
  then show ?thesis using admitted_meet_is_conjunction [OF b] by blast
qed

text \<open>
  The order of terms, of operands and of caveats cannot show: a set built from terms depends
  on them as a set, and Meet and Join are commutative and Join idempotent on the very values.
\<close>

theorem admitted_order_independent:
  assumes "built_set a" "built_set b" "\<forall>t \<in> set ts. built_term t" "set ts = set us"
  shows "new_admitted_set ts = new_admitted_set us \<and> admitted_join a b = admitted_join b a
    \<and> admitted_meet a b = admitted_meet b a \<and> admitted_join a a = a"
proof -
  note c = assms(1,2) [THEN built_canonical]
  obtain ms where ms: "admitted_meet a b = Some (normalise ms (admitted_caveats a @ admitted_caveats b) ''Meet'')"
    "\<forall>m \<in> set ms. good_term m"
    "set ms = {m. \<exists>x \<in> set (admitted_terms a). \<exists>y \<in> set (admitted_terms b). conjoin x y = Some m}"
    by (rule meet_canonical [OF c])
  obtain ns where ns: "admitted_meet b a = Some (normalise ns (admitted_caveats b @ admitted_caveats a) ''Meet'')"
    "\<forall>m \<in> set ns. good_term m"
    "set ns = {m. \<exists>x \<in> set (admitted_terms b). \<exists>y \<in> set (admitted_terms a). conjoin x y = Some m}"
    by (rule meet_canonical [OF c(2,1)])
  have "set ms = set ns"
  proof -
    have "conjoin x y = conjoin y x" if "x \<in> set (admitted_terms a)" "y \<in> set (admitted_terms b)" for x y
      using that canonical_good c by (intro conjoin_commute) blast+
    then have "(\<exists>x \<in> set (admitted_terms a). \<exists>y \<in> set (admitted_terms b). conjoin x y = Some m) \<longleftrightarrow>
        (\<exists>x \<in> set (admitted_terms a). \<exists>y \<in> set (admitted_terms b). conjoin y x = Some m)" for m
      by (intro bex_cong refl) metis
    then show ?thesis unfolding ms(3) ns(3) by blast
  qed
  then have "admitted_meet a b = admitted_meet b a"
    unfolding ms(1) ns(1) using ms(2) by (intro arg_cong [where f = Some] normalise_cong) auto
  moreover have "admitted_join a b = admitted_join b a"
    unfolding admitted_join_def using terms_append_good [OF c] by (intro normalise_cong) auto
  moreover have "admitted_join a a = normalise (admitted_terms a) (admitted_caveats a) ''Join''"
    unfolding admitted_join_def using terms_append_good [OF c(1,1)] by (intro normalise_cong) auto
  then have "admitted_join a a = a" using canonical_normalise [OF c(1)] by simp
  moreover have "new_admitted_set ts = new_admitted_set us"
    unfolding new_admitted_set_def using assms(3,4) built_term_good by (intro normalise_cong) auto
  ultimately show ?thesis by blast
qed

theorem admitted_order_independent_witness:
  "new_admitted_set [sub_is_a, aud_like_b] = new_admitted_set [aud_like_b, sub_is_a, aud_like_b]"
  using admitted_order_independent [OF built_set.intros(2,2), of "[sub_is_a, aud_like_b]" "[aud_like_b, sub_is_a, aud_like_b]"]
    example_terms by auto

text \<open>
  String of an admitted set is canonical: two sets the package builds render alike just when
  they have the same terms, so that a comparison of renderings, by which parses are judged,
  compares the sets.
\<close>

theorem admitted_rendering_is_injective:
  assumes "built_set a" "built_set b"
  shows "render_admitted a = render_admitted b \<longleftrightarrow> admitted_terms a = admitted_terms b"
proof
  show "render_admitted a = render_admitted b \<Longrightarrow> admitted_terms a = admitted_terms b"
    by (rule render_admitted_inject [OF assms [THEN built_canonical]])
qed (simp add: render_admitted_def)

theorem admitted_rendering_is_injective_witness:
  "render_admitted (new_admitted_set [sub_is_a]) \<noteq> render_admitted (new_admitted_set [aud_like_b])"
proof -
  have b: "built_set (new_admitted_set [sub_is_a])" "built_set (new_admitted_set [aud_like_b])"
    by (rule built_set.intros(1); use example_terms in auto)+
  have "admitted_terms (new_admitted_set [sub_is_a]) \<noteq> admitted_terms (new_admitted_set [aud_like_b])" by code_simp
  then show ?thesis using admitted_rendering_is_injective [OF b] by blast
qed

text \<open>
  IsTop and IsEmpty of a set the package builds are decided by its shape: it is top just when
  one of its terms admits everything, a top set admits every token, and a set is empty just when
  no term is left, which admits none.
\<close>

theorem admitted_top_and_empty:
  assumes "built_set a"
  shows "(set_is_top a \<longleftrightarrow> (\<exists>t \<in> set (admitted_terms a). all_top t))
    \<and> (set_is_top a \<longrightarrow> admits a token) \<and> (set_is_empty a \<longrightarrow> \<not> admits a token)"
proof -
  have top: "set_is_top a \<longleftrightarrow> admitted_terms a = [[]]"
    by (cases "admitted_terms a") (auto simp: set_is_top_def)
  have "admitted_terms a = [[]] \<or> (\<forall>t \<in> set (admitted_terms a). \<not> all_top t)"
    using built_canonical [OF assms] by (auto simp: canonical_set_def)
  then show ?thesis by (auto simp: top set_is_empty_def admits_iff all_top_def)
qed

theorem admitted_top_and_empty_witness:
  "set_is_top (new_admitted_set [[(''sub'', Unknown ''why'')], sub_is_a]) \<and>
    admits (new_admitted_set [[(''sub'', Unknown ''why'')], sub_is_a]) (\<lambda>k. None)"
proof -
  have "built_set (new_admitted_set [[(''sub'', Unknown ''why'')], sub_is_a])"
    by (rule built_set.intros(1)) (use example_terms in \<open>auto simp: built_term_def good_key_def intro: built.intros\<close>)
  moreover have "set_is_top (new_admitted_set [[(''sub'', Unknown ''why'')], sub_is_a])" by code_simp
  ultimately show ?thesis using admitted_top_and_empty by blast
qed

text \<open>The constraints of a term that reject a token.\<close>

definition failing :: "claim_term \<Rightarrow> token \<Rightarrow> (claim_key \<times> string_set) list" where
  "failing t token = filter (\<lambda>(k, s). \<not> satisfies s (token k)) t"

lemma length_failures: "length (failures t token) = length (failing t token)"
  by (simp add: failures_def failing_def)

lemma first_failure:
  assumes "failures t token \<noteq> []" "(k, s) \<in> set (failing t token)"
  shows "hd (failures t token) \<le> k"
proof -
  let ?fs = "failures t token"
  have "k \<in> set ?fs" using assms(2) by (auto simp: set_failures failing_def)
  moreover have "sorted_wrt (\<lambda>x y. go_compare x y \<le> 0) ?fs" unfolding failures_def by (rule ord.sorted_sort_func)
  ultimately show ?thesis using assms(1) by (cases ?fs) auto
qed

lemma first_failure_fails: "failures t token \<noteq> [] \<Longrightarrow> \<exists>s. (hd (failures t token), s) \<in> set (failing t token)"
  using hd_in_set [of "failures t token"] by (auto simp: set_failures failing_def)

text \<open>
  C30: Excludes explains every rejection and nothing else: ok is true just when the set does not
  admit the token; then, unless the set has no term, some term rejects the token by a constraint on
  the claim it names, the constraint it returns is that term's on the claim, no claim the term
  fails on is smaller, and every other term fails on more claims, or on as many of which none is
  smaller than the claim named.
\<close>

theorem excludes_explains:
  assumes "excludes a token = (claim, got, ok)"
  shows "(ok \<longleftrightarrow> \<not> admits a token) \<and> (ok \<and> admitted_terms a \<noteq> [] \<longrightarrow>
    (\<exists>t \<in> set (admitted_terms a). map_of t claim = got
      \<and> (\<exists>s. (claim, s) \<in> set (failing t token)) \<and> (\<forall>(k, s) \<in> set (failing t token). claim \<le> k)
      \<and> (\<forall>u \<in> set (admitted_terms a). length (failing t token) < length (failing u token)
          \<or> length (failing t token) = length (failing u token) \<and> (\<forall>(k, s) \<in> set (failing u token). claim \<le> k))))"
proof (cases "closest_term token (admitted_terms a) ([], [])")
  case None
  then have "admits a token" using closest_term_None by (auto simp: admits_iff failures_Nil)
  then show ?thesis using assms None by (auto simp: excludes_def)
next
  case (Some best)
  obtain g t where b: "best = (g, t)" by fastforce
  have not: "\<not> admits a token"
    using closest_term_None [of token "admitted_terms a" "([], [])"] Some by (auto simp: admits_iff failures_Nil)
  show ?thesis
  proof (cases "admitted_terms a = []")
    case True
    then show ?thesis using assms not Some by (simp add: excludes_def)
  next
    case False
    then have g: "g \<noteq> []" "g = failures t token" "t \<in> set (admitted_terms a)"
      "\<forall>u \<in> set (admitted_terms a). closer g (failures u token)"
      using closest_term_Some [of token "admitted_terms a" "[]" "[]" g t] Some b by auto
    then have r: "claim = hd (failures t token)" "got = map_of t claim" "ok" using assms Some b by (auto simp: excludes_def)
    have first: "claim \<le> k" if "u \<in> set (admitted_terms a)" "length (failures t token) = length (failures u token)"
      "(k, s) \<in> set (failing u token)" for u k s
    proof -
      have "failures u token \<noteq> []" using that(2) g(1,2) by auto
      then have "hd (failures u token) \<le> k" by (rule first_failure [OF _ that(3)])
      moreover have "claim \<le> hd (failures u token)" using g(2,4) that(1,2) r(1) by (auto simp: closer_def)
      ultimately show ?thesis by (rule order_trans [rotated])
    qed
    have "length (failing t token) < length (failing u token)
        \<or> length (failing t token) = length (failing u token) \<and> (\<forall>(k, s) \<in> set (failing u token). claim \<le> k)"
      if "u \<in> set (admitted_terms a)" for u
      using g(4) that first [OF that] unfolding closer_def g(2) length_failures by auto
    moreover have "\<exists>s. (claim, s) \<in> set (failing t token)" unfolding r(1) using first_failure_fails g(1,2) by blast
    moreover have "\<forall>(k, s) \<in> set (failing t token). claim \<le> k" using first [OF g(3) refl] by blast
    ultimately have "\<exists>t \<in> set (admitted_terms a). map_of t claim = got
      \<and> (\<exists>s. (claim, s) \<in> set (failing t token)) \<and> (\<forall>(k, s) \<in> set (failing t token). claim \<le> k)
      \<and> (\<forall>u \<in> set (admitted_terms a). length (failing t token) < length (failing u token)
          \<or> length (failing t token) = length (failing u token) \<and> (\<forall>(k, s) \<in> set (failing u token). claim \<le> k))"
      using g(3) r(2) by blast
    then show ?thesis using not r(3) by blast
  qed
qed

theorem excludes_explains_witness:
  "\<not> admits (new_admitted_set [sub_is_a]) [''sub'' \<mapsto> ''b''] \<and> (\<exists>s. (''sub'', s) \<in> set (failing sub_is_a [''sub'' \<mapsto> ''b'']))"
proof -
  have "excludes (new_admitted_set [sub_is_a]) [''sub'' \<mapsto> ''b''] = (''sub'', Some (SExact ''a''), True)"
    "set (admitted_terms (new_admitted_set [sub_is_a])) = {sub_is_a}" by code_simp+
  then show ?thesis
    using excludes_explains [of "new_admitted_set [sub_is_a]" "[''sub'' \<mapsto> ''b'']" "''sub''" "Some (SExact ''a'')" True]
    by fastforce
qed

text \<open>
  Without the condition on claim names the canonical form loses tokens. renderTerm writes a
  claim name as it is, so a name that spells out another entry renders like the two entries it
  spells; normalise then drops one of two different terms as a repeat of the other, and a token
  its own term admits is excluded by the union.
\<close>

theorem term_rendering_collides:
  "render_term two_claims = render_term one_claim
    \<and> admits (new_admitted_set [one_claim]) [fst (hd one_claim) \<mapsto> ''y'']
    \<and> \<not> admits (new_admitted_set [two_claims, one_claim]) [fst (hd one_claim) \<mapsto> ''y'']"
  by (intro conjI) code_simp+

end
