(* ===== verification/Eval_Shape.thy ===== *)
theory Eval_Shape imports Eval_Laws begin

text \<open>
  Package eval, shape.go: a constraint read as the node it is, and the literal prefix of a
  pattern. Both are what the rings ask a constraint, so what they promise is stated against
  contains: the shape admits what its set admits, and every match begins with the prefix.
\<close>

datatype shape_kind =
    ShapeUnknown | ShapeAny | ShapeNone | ShapeExact | ShapeGlob | ShapeUnion | ShapeIntersection

datatype shape =
  Shape (shape_kind: shape_kind) (shape_text: string) (shape_members: "shape list")

text \<open>ShapeOf. A glob inside an intersection is read by the same switch.\<close>

fun shape_of :: "string_set \<Rightarrow> shape" where
  "shape_of (SExact v) = Shape ShapeExact v []"
| "shape_of (SGlob g) = Shape ShapeGlob (glob_pattern g) []"
| "shape_of SFull = Shape ShapeAny [] []"
| "shape_of SEmpty = Shape ShapeNone [] []"
| "shape_of (SUnion ms) = Shape ShapeUnion [] (map shape_of ms)"
| "shape_of (SInter gs) = Shape ShapeIntersection [] (map (\<lambda>g. Shape ShapeGlob (glob_pattern g) []) gs)"
| "shape_of (SUnknown rs) = Shape ShapeUnknown [] []"

text \<open>LiteralPrefix: the pattern up to its first rune that is not a literal.\<close>

function literal_prefix :: "string \<Rightarrow> string" where
  "literal_prefix p =
     (if p = [] then []
      else (let (r, n) = decode_rune p in
        if r = star \<or> r = quest \<or> r = rune_error then []
        else take n p @ literal_prefix (drop n p)))"
  by pat_completeness auto
termination
proof (relation "measure length")
  fix p :: string and x r n
  assume "p \<noteq> []" "x = decode_rune p" "(r, n) = x"
  then have "1 \<le> n" using decode_width [of p r n] by simp
  then show "(drop n p, p) \<in> measure length" using \<open>p \<noteq> []\<close> by simp
qed simp

declare literal_prefix.simps [simp del]

lemma literal_prefix_Nil [simp]: "literal_prefix [] = []"
  by (simp add: literal_prefix.simps)

lemma literal_prefix_stop:
  "p \<noteq> [] \<Longrightarrow> decode_rune p = (r, n) \<Longrightarrow> r = star \<or> r = quest \<or> r = rune_error \<Longrightarrow> literal_prefix p = []"
  by (subst literal_prefix.simps) auto

lemma literal_prefix_step:
  "p \<noteq> [] \<Longrightarrow> decode_rune p = (r, n) \<Longrightarrow> \<not> (r = star \<or> r = quest \<or> r = rune_error) \<Longrightarrow>
    literal_prefix p = take n p @ literal_prefix (drop n p)"
  by (subst literal_prefix.simps) simp

lemma literal_prefix_prefix: "has_prefix p (literal_prefix p)"
proof (induction p rule: literal_prefix.induct)
  case (1 p)
  show ?case
  proof (cases "p = []")
    case False
    obtain r n where d: "decode_rune p = (r, n)" by fastforce
    show ?thesis
    proof (cases "r = star \<or> r = quest \<or> r = rune_error")
      case True
      then show ?thesis using literal_prefix_stop [OF False d] by simp
    next
      case no: False
      then have "has_prefix (drop n p) (literal_prefix (drop n p))" using "1.IH" False d by auto
      then have "prefix (take n p @ literal_prefix (drop n p)) (take n p @ drop n p)"
        by (simp only: has_prefix_def same_prefix_prefix)
      then show ?thesis using literal_prefix_step [OF False d no] by (simp add: has_prefix_def)
    qed
  qed simp
qed

lemma literal_prefix_match:
  "wild_match (runes p) (runes v) \<Longrightarrow> has_prefix v (literal_prefix p)"
proof (induction p arbitrary: v rule: literal_prefix.induct)
  case (1 p)
  show ?case
  proof (cases "p = []")
    case False
    obtain r n where d: "decode_rune p = (r, n)" by fastforce
    show ?thesis
    proof (cases "r = star \<or> r = quest \<or> r = rune_error")
      case True
      then show ?thesis using literal_prefix_stop [OF False d] by simp
    next
      case no: False
      have p: "runes p = r # runes (drop n p)" using runes_step [OF False] d by simp
      then have "v \<noteq> []" using "1.prems" no by (cases v) auto
      obtain x m where e: "decode_rune v = (x, m)" by fastforce
      have v: "runes v = x # runes (drop m v)" using runes_step [OF \<open>v \<noteq> []\<close>] e by simp
      have x: "x = r" and rest: "wild_match (runes (drop n p)) (runes (drop m v))"
        using "1.prems" no unfolding p v by (auto simp: rune_fits_def)
      have r: "encode_rune r = take n p" using encode_decode [OF d False] no by blast
      have "encode_rune r = take m v" using encode_decode [OF e \<open>v \<noteq> []\<close>] no x by blast
      then have t: "take m v = take n p" using r by simp
      have "has_prefix (drop m v) (literal_prefix (drop n p))" using "1.IH" False d no rest by auto
      then have "prefix (take n p @ literal_prefix (drop n p)) (take m v @ drop m v)"
        unfolding t by (simp add: has_prefix_def)
      then show ?thesis using literal_prefix_step [OF False d no] by (simp add: has_prefix_def)
    qed
  qed simp
qed

section \<open>Properties\<close>

text \<open>The values a shape stands for, by the comments on its kinds.\<close>

fun shape_admits :: "shape \<Rightarrow> string \<Rightarrow> bool" where
  "shape_admits (Shape k text ms) v =
     (case k of
        ShapeUnknown \<Rightarrow> True | ShapeAny \<Rightarrow> True | ShapeNone \<Rightarrow> False
      | ShapeExact \<Rightarrow> v = text
      | ShapeGlob \<Rightarrow> contains (Glob text) v
      | ShapeUnion \<Rightarrow> list_ex (\<lambda>m. shape_admits m v) ms
      | ShapeIntersection \<Rightarrow> list_all (\<lambda>m. shape_admits m v) ms)"

lemma wf_glob_admits: "wf_glob g \<Longrightarrow> contains (Glob (glob_pattern g)) v \<longleftrightarrow> glob_contains g v"
  by (simp add: wf_glob_def)

lemma term_shape: "wf_term s \<Longrightarrow> shape_admits (shape_of s) v \<longleftrightarrow> contains s v"
  by (cases s) (auto simp: list_all_iff wf_glob_admits)

lemma shape_contains: "wf_set s \<Longrightarrow> shape_admits (shape_of s) v \<longleftrightarrow> contains s v"
  by (cases s) (auto simp: list_ex_iff list_all_iff term_shape wf_glob_admits)

text \<open>
  C32: A shape is faithful: read by what its kinds mean, the shape of a set the package builds
  admits exactly the set's values, and a union or an intersection shows at least two members.
\<close>

theorem shape_is_faithful:
  assumes "built s"
  shows "(shape_admits (shape_of s) v \<longleftrightarrow> contains s v)
    \<and> (shape_kind (shape_of s) \<in> {ShapeUnion, ShapeIntersection} \<longleftrightarrow> 2 \<le> length (shape_members (shape_of s)))"
proof -
  have w: "wf_set s" by (rule built_wf [OF assms])
  show ?thesis
  proof (cases s)
    case (SUnion ms)
    then show ?thesis using w shape_contains [OF w] by simp
  qed (use w shape_contains [OF w] in \<open>auto simp: list_all_iff wf_glob_admits\<close>)
qed

theorem shape_is_faithful_witness:
  "shape_admits (shape_of (join (Exact ''*'') (Glob ''a*''))) ''*'' \<and> \<not> shape_admits (shape_of (Exact ''*'')) ''a''"
proof -
  have "contains (join (Exact ''*'') (Glob ''a*'')) ''*''" "\<not> contains (Exact ''*'') ''a''" by code_simp+
  then show ?thesis
    using shape_is_faithful [OF built.intros(7) [OF built.intros(1,2)]] shape_is_faithful [OF built.intros(1)] by blast
qed

text \<open>
  LiteralPrefix vouches for every match: whatever string a pattern admits begins with the
  pattern's literal prefix, byte for byte, also where pattern or string are not valid UTF-8; and
  it is a prefix of the pattern.
\<close>

theorem literal_prefix_of_every_match:
  assumes "contains (Glob p) v"
  shows "has_prefix v (literal_prefix p) \<and> has_prefix p (literal_prefix p)"
  using assms literal_prefix_match literal_prefix_prefix [of p]
  by (auto simp: glob_pattern_contains split: if_splits)

theorem literal_prefix_of_every_match_witness:
  "has_prefix ''repo:acme/x'' (literal_prefix ''repo:acm?/*'') \<and> literal_prefix ''repo:acm?/*'' = ''repo:acm''"
proof -
  have "contains (Glob ''repo:acm?/*'') ''repo:acme/x''" "literal_prefix ''repo:acm?/*'' = ''repo:acm''" by code_simp+
  then show ?thesis using literal_prefix_of_every_match by blast
qed

end
