(* ===== verification/Go_Numbers.thy ===== *)
theory Go_Numbers imports Go_Strings begin

text \<open>
  Decimal numbers as strconv.Itoa writes them: which characters they hold, and that a number is
  read back from its digits, so that a list of numbers joined by commas tells the lists apart.
\<close>

lemma digits_nonempty [simp]: "digits n \<noteq> []"
  by (subst digits.simps) auto

lemma digits_bytes: "c \<in> set (digits n) \<Longrightarrow> 48 \<le> byte c \<and> byte c < 58"
proof (induction n rule: digits.induct)
  case (1 n)
  show ?case
  proof (cases "n < 10")
    case True
    then show ?thesis using "1.prems" by (subst (asm) digits.simps) auto
  next
    case False
    then have "c \<in> set (digits (n div 10)) \<or> c = chr (48 + n mod 10)"
      using "1.prems" by (subst (asm) digits.simps) auto
    then show ?thesis using "1.IH" [OF False] by auto
  qed
qed

definition undigits :: "string \<Rightarrow> nat" where
  "undigits s = foldl (\<lambda>a c. a * 10 + (byte c - 48)) 0 s"

lemma undigits_digits [simp]: "undigits (digits n) = n"
proof (induction n rule: digits.induct)
  case (1 n)
  then show ?case by (subst digits.simps) (auto simp: undigits_def)
qed

lemma itoa_nat [simp]: "itoa (int p) = digits p"
  by (simp add: itoa_def)

lemma digits_inject [simp]: "digits p = digits q \<longleftrightarrow> p = q"
  by (metis undigits_digits)

lemma digits_no_char: "byte c < 48 \<or> 58 \<le> byte c \<Longrightarrow> c \<notin> set (digits p)"
  using digits_bytes by fastforce

lemma char_delimited: "c \<notin> set a \<Longrightarrow> c \<notin> set b \<Longrightarrow> a @ c # x = b @ c # y \<longleftrightarrow> a = b \<and> x = y"
proof
  assume ab: "c \<notin> set a" "c \<notin> set b" and eq: "a @ c # x = b @ c # y"
  have "takeWhile (\<lambda>d. d \<noteq> c) (z @ c # w) = z" if "c \<notin> set z" for z w
    using that by (induction z) auto
  then show "a = b \<and> x = y" using ab eq by (metis append_same_eq same_append_eq list.inject)
qed auto

end
