(* ===== verification/Go_Time.thy ===== *)
theory Go_Time imports Go_Numbers begin

text \<open>
  What the program uses of package time: an instant with the zone it is shown in and the monotonic
  reading a clock attaches, Round(0), Compare, and the layout RFC3339Nano. A zone is its offset in
  minutes east of UTC, which is what the layout writes of one. The lemma shows that two times of
  one instant with one text are one time, so that a comparison by instant and then by text tells
  all others apart.
\<close>

record go_time =
  time_instant :: int
  time_zone :: int
  time_mono :: "int option"

text \<open>Round(0) drops the monotonic reading and nothing else.\<close>

definition round_zero :: "go_time \<Rightarrow> go_time" where
  "round_zero t = t\<lparr>time_mono := None\<rparr>"

definition compare_times :: "go_time \<Rightarrow> go_time \<Rightarrow> int" where
  "compare_times t u =
     (case (time_mono t, time_mono u) of
        (Some m, Some n) \<Rightarrow> go_compare m n
      | _ \<Rightarrow> go_compare (time_instant t) (time_instant u))"

section \<open>The layout\<close>

text \<open>The civil date of a day counted from 1970-01-01, in the proleptic Gregorian calendar.\<close>

definition civil_date :: "int \<Rightarrow> int \<times> int \<times> int" where
  "civil_date days =
     (let z = days + 719468; era = z div 146097; doe = z mod 146097;
          yoe = (doe - doe div 1460 + doe div 36524 - doe div 146096) div 365;
          doy = doe - (365 * yoe + yoe div 4 - yoe div 100);
          mp = (5 * doy + 2) div 153;
          d = doy - (153 * mp + 2) div 5 + 1;
          m = (if mp < 10 then mp + 3 else mp - 9) in
      (yoe + era * 400 + (if m \<le> 2 then 1 else 0), m, d))"

text \<open>appendInt: the digits of a number, padded with zeros on the left.\<close>

definition padded :: "nat \<Rightarrow> int \<Rightarrow> string" where
  "padded width i =
     (let ds = digits (nat \<bar>i\<bar>) in (if i < 0 then ''-'' else []) @ replicate (width - length ds) (CHR ''0'') @ ds)"

text \<open>The fraction of a second without its trailing zeros, and without the point where nothing is left.\<close>

definition fraction :: "int \<Rightarrow> string" where
  "fraction nanos =
     (let ds = rev (dropWhile (\<lambda>c. c = CHR ''0'') (rev (padded 9 nanos))) in if ds = [] then [] else CHR ''.'' # ds)"

definition zone_text :: "int \<Rightarrow> string" where
  "zone_text zone =
     (if zone = 0 then ''Z''
      else (if zone < 0 then CHR ''-'' else CHR ''+'') # padded 2 (\<bar>zone\<bar> div 60) @ CHR '':'' # padded 2 (\<bar>zone\<bar> mod 60))"

definition rfc3339_nano :: "go_time \<Rightarrow> string" where
  "rfc3339_nano t =
     (let local = time_instant t + time_zone t * 60000000000;
          secs = local div 1000000000; nanos = local mod 1000000000;
          days = secs div 86400; clock = secs mod 86400;
          (y, m, d) = civil_date days in
      padded 4 y @ ''-'' @ padded 2 m @ ''-'' @ padded 2 d @ ''T'' @ padded 2 (clock div 3600) @ '':'' @
      padded 2 (clock div 60 mod 60) @ '':'' @ padded 2 (clock mod 60) @ fraction nanos @ zone_text (time_zone t))"

section \<open>The zone is read back from the text\<close>

lemma undigits_zeros: "undigits (replicate k (CHR ''0'') @ s) = undigits s"
proof -
  have "foldl (\<lambda>a c. a * 10 + (byte c - 48)) 0 (replicate k (CHR ''0'')) = 0"
    by (induction k) (auto simp: byte_def)
  then show ?thesis by (simp add: undigits_def)
qed

lemma padded_inject: "0 \<le> i \<Longrightarrow> 0 \<le> j \<Longrightarrow> padded w i = padded w j \<longleftrightarrow> i = j"
proof -
  have "0 \<le> i \<Longrightarrow> undigits (padded w i) = nat i" for i
    by (simp add: padded_def Let_def undigits_zeros)
  then show "0 \<le> i \<Longrightarrow> 0 \<le> j \<Longrightarrow> padded w i = padded w j \<longleftrightarrow> i = j" by (metis eq_nat_nat_iff)
qed

lemma padded_bytes: "0 \<le> i \<Longrightarrow> c \<in> set (padded w i) \<Longrightarrow> 48 \<le> byte c \<and> byte c < 58"
  using digits_bytes [of c "nat i"] by (auto simp: padded_def Let_def byte_def split: if_splits)

lemma padded_no_char: "0 \<le> i \<Longrightarrow> byte c < 48 \<or> 58 \<le> byte c \<Longrightarrow> c \<notin> set (padded w i)"
  using padded_bytes by fastforce

text \<open>The last sign of a text splits it where the zone begins.\<close>

lemma last_sign:
  assumes "\<forall>c \<in> set a. c \<noteq> CHR ''+'' \<and> c \<noteq> CHR ''-''" "\<forall>c \<in> set b. c \<noteq> CHR ''+'' \<and> c \<noteq> CHR ''-''"
    "s = CHR ''+'' \<or> s = CHR ''-''" "t = CHR ''+'' \<or> t = CHR ''-''" "x @ s # a = y @ t # b"
  shows "s = t \<and> a = b"
proof -
  let ?p = "\<lambda>c. c \<noteq> CHR ''+'' \<and> c \<noteq> CHR ''-''"
  have go: "takeWhile ?p (u @ r # v) = u \<and> dropWhile ?p (u @ r # v) = r # v" if "\<forall>d \<in> set u. ?p d" "\<not> ?p r" for u r v
    using that by (induction u) auto
  have tw: "takeWhile ?p (rev (z @ r # c)) = rev c \<and> dropWhile ?p (rev (z @ r # c)) = r # rev z"
    if "\<forall>d \<in> set c. ?p d" "\<not> ?p r" for z r c
    using go [of "rev c" r "rev z"] that by simp
  have "takeWhile ?p (rev (x @ s # a)) = rev a \<and> dropWhile ?p (rev (x @ s # a)) = s # rev x"
    by (rule tw) (use assms in auto)
  moreover have "takeWhile ?p (rev (y @ t # b)) = rev b \<and> dropWhile ?p (rev (y @ t # b)) = t # rev y"
    by (rule tw) (use assms in auto)
  ultimately show ?thesis unfolding assms(5) by simp
qed

lemma zone_body: "c \<in> set (padded 2 (\<bar>z\<bar> div 60) @ CHR '':'' # padded 2 (\<bar>z\<bar> mod 60)) \<Longrightarrow> 48 \<le> byte c \<and> byte c < 59"
proof -
  assume "c \<in> set (padded 2 (\<bar>z\<bar> div 60) @ CHR '':'' # padded 2 (\<bar>z\<bar> mod 60))"
  then consider "c \<in> set (padded 2 (\<bar>z\<bar> div 60))" | "c = CHR '':''" | "c \<in> set (padded 2 (\<bar>z\<bar> mod 60))" by auto
  moreover have "0 \<le> \<bar>z\<bar> div 60" "0 \<le> \<bar>z\<bar> mod 60" by (simp_all add: pos_imp_zdiv_nonneg_iff)
  ultimately show ?thesis by cases (use padded_bytes [of _ c 2] in \<open>fastforce simp: byte_def\<close>)+
qed

lemma zone_text_inject:
  assumes "x @ zone_text v = y @ zone_text w"
  shows "v = w"
proof (cases "v = 0 \<or> w = 0")
  case True
  have z: "last (z @ zone_text u) = CHR ''Z'' \<longleftrightarrow> u = 0" for z u
  proof (cases "u = 0")
    case False
    let ?body = "padded 2 (\<bar>u\<bar> div 60) @ CHR '':'' # padded 2 (\<bar>u\<bar> mod 60)"
    have "last (z @ zone_text u) = last ?body" using False by (simp add: zone_text_def)
    moreover have "last ?body \<in> set ?body" by (rule last_in_set) simp
    ultimately show ?thesis using zone_body [of "last ?body" u] False by (auto simp: byte_def)
  qed (simp add: zone_text_def)
  have "v = 0 \<and> w = 0" using z [of x v] z [of y w] True unfolding assms by blast
  then show ?thesis by simp
next
  case False
  define body where "body u = padded 2 (\<bar>u\<bar> div 60) @ CHR '':'' # padded 2 (\<bar>u\<bar> mod 60)" for u :: int
  define sgn where "sgn u = (if u < 0 then CHR ''-'' else CHR ''+'')" for u :: int
  have t: "zone_text u = sgn u # body u" if "u \<noteq> 0" for u
    using that by (simp add: zone_text_def body_def sgn_def)
  have nosign: "\<forall>c \<in> set (body u). c \<noteq> CHR ''+'' \<and> c \<noteq> CHR ''-''" for u
  proof
    fix c assume "c \<in> set (body u)"
    then have "48 \<le> byte c" unfolding body_def using zone_body by blast
    then show "c \<noteq> CHR ''+'' \<and> c \<noteq> CHR ''-''" by (auto simp: byte_def)
  qed
  have "sgn v = sgn w \<and> body v = body w"
  proof (rule last_sign [OF nosign nosign])
    show "x @ sgn v # body v = y @ sgn w # body w" using assms False t by auto
  qed (auto simp: sgn_def)
  then have s: "(v < 0) = (w < 0)" and b: "body v = body w" by (auto simp: sgn_def split: if_splits)
  have colon: "CHR '':'' \<notin> set (padded 2 i)" if "0 \<le> i" for i
    using padded_no_char [OF that, of "CHR '':''"] by (simp add: byte_def)
  have "padded 2 (\<bar>v\<bar> div 60) = padded 2 (\<bar>w\<bar> div 60) \<and> padded 2 (\<bar>v\<bar> mod 60) = padded 2 (\<bar>w\<bar> mod 60)"
    using b char_delimited [OF colon colon] unfolding body_def by simp
  then have "\<bar>v\<bar> div 60 = \<bar>w\<bar> div 60" "\<bar>v\<bar> mod 60 = \<bar>w\<bar> mod 60"
    using padded_inject [of "\<bar>v\<bar> div 60" "\<bar>w\<bar> div 60" 2] padded_inject [of "\<bar>v\<bar> mod 60" "\<bar>w\<bar> mod 60" 2] by auto
  then have "\<bar>v\<bar> = \<bar>w\<bar>" by (metis div_mult_mod_eq)
  then show ?thesis using s by linarith
qed

lemma rfc3339_nano_zone: "rfc3339_nano t = rfc3339_nano u \<Longrightarrow> time_zone t = time_zone u"
proof -
  have split: "\<exists>x. rfc3339_nano t = x @ zone_text (time_zone t)" for t
    unfolding rfc3339_nano_def Let_def case_prod_beta by (metis append_assoc)
  assume "rfc3339_nano t = rfc3339_nano u"
  then show ?thesis using zone_text_inject split by metis
qed

end
