(* ===== verification/Trust_Grant.thy ===== *)
theory Trust_Grant imports Eval_Shape Go_Time begin

text \<open>
  Packages trust (grant.go, normalise.go) and evidence: the provider-neutral grant, its
  projections on the audience, the canonical name of a claim and of an issuer, and the provenance
  record with its digest.

  A defined string type of the code (Provider, Effect, IssuerRef, Status) is a string here, and
  its constants are definitions, since the code may hold any other value too. The SHA-256 of the
  standard library is an argument of the function that uses it, a time one of Go_Time.
\<close>

section \<open>Evidence\<close>

definition StatusOK :: string where "StatusOK = ''ok''"
definition StatusDenied :: string where "StatusDenied = ''denied''"
definition StatusThrottled :: string where "StatusThrottled = ''throttled''"
definition StatusUnsupported :: string where "StatusUnsupported = ''unsupported''"
definition StatusNotConfigured :: string where "StatusNotConfigured = ''not_configured''"

definition conclusive :: "string \<Rightarrow> bool" where
  "conclusive s \<longleftrightarrow> s = StatusOK \<or> s = StatusNotConfigured"

record evidence_record =
  record_api :: string
  record_params :: string
  record_status :: string
  record_bytes :: string
  record_sha256 :: string
  record_fetched_at :: go_time

definition hexdigits :: string where "hexdigits = ''0123456789abcdef''"

text \<open>hex: the high four bits of each byte, then the low four.\<close>

definition hex :: "string \<Rightarrow> string" where
  "hex b = concat (map (\<lambda>c. [hexdigits ! (byte c div 16), hexdigits ! (byte c mod 16)]) b)"

definition new_record :: "(string \<Rightarrow> string) \<Rightarrow> string \<Rightarrow> string \<Rightarrow> string \<Rightarrow> string \<Rightarrow> go_time \<Rightarrow> evidence_record" where
  "new_record sha256 api params status body at =
     \<lparr>record_api = api, record_params = params, record_status = status, record_bytes = body,
      record_sha256 = hex (sha256 body), record_fetched_at = at\<rparr>"

section \<open>Grants\<close>

definition AWS :: string where "AWS = ''aws''"
definition Azure :: string where "Azure = ''azure''"
definition GCP :: string where "GCP = ''gcp''"

definition Allow :: string where "Allow = ''Allow''"
definition Deny :: string where "Deny = ''Deny''"
definition EffectUnknown :: string where "EffectUnknown = ''Unknown''"

record target_ref =
  target_kind :: string
  target_id :: string

definition Unmodelled :: string where "Unmodelled = ''unmodelled-construct''"

record anomaly =
  anomaly_kind :: string
  anomaly_claim :: claim_key
  anomaly_construct :: string
  anomaly_message :: string
  anomaly_source :: string

record grant =
  grant_target :: target_ref
  grant_issuer :: string
  grant_admits :: admitted_set
  grant_effect :: string
  grant_provenance :: "evidence_record list"
  grant_anomalies :: "anomaly list"
  grant_source :: string

definition aud :: claim_key where "aud = ''aud''"

text \<open>project: the claims keep rejects are deleted from every term, and the caveats carried over one by one.\<close>

definition project :: "admitted_set \<Rightarrow> (claim_key \<Rightarrow> bool) \<Rightarrow> admitted_set" where
  "project s keeps =
     fold with_caveat (admitted_caveats s)
       (new_admitted_set (map (filter (\<lambda>(k, v). keeps k)) (admitted_terms s)))"

definition audience :: "grant \<Rightarrow> admitted_set" where
  "audience g = project (grant_admits g) (\<lambda>k. k = aud)"

definition without_audience :: "grant \<Rightarrow> admitted_set" where
  "without_audience g = project (grant_admits g) (\<lambda>k. k \<noteq> aud)"

definition grant_exact :: "grant \<Rightarrow> bool" where
  "grant_exact g = is_exact (grant_admits g)"

section \<open>Names\<close>

text \<open>Claim, None for Go's false.\<close>

definition claim_name :: "string \<Rightarrow> claim_key option" where
  "claim_name name = (if name = [] \<or> contains_func is_space name then None else Some name)"

definition lower_rune :: "rune \<Rightarrow> rune option" where
  "lower_rune r = Some (if 65 \<le> r \<and> r \<le> 90 then r + 97 - 65 else r)"

definition lower_ascii :: "string \<Rightarrow> string" where
  "lower_ascii s = strings_map lower_rune s"

definition https :: string where "https = ''https://''"

text \<open>NormaliseIssuer, None for Go's false.\<close>

definition normalise_issuer :: "string \<Rightarrow> string option" where
  "normalise_issuer raw =
     (let s = (case index_of raw ''://'' of Some i \<Rightarrow> drop (i + 3) raw | None \<Rightarrow> raw) in
      case cut s ''/'' of (host, path, _) \<Rightarrow>
        if host = [] then None
        else (let path = trim_suffix path ''/'';
                  path = (if path \<noteq> [] then ''/'' @ path else path) in
              Some (https @ lower_ascii host @ path)))"

section \<open>The digest\<close>

lemma hexdigits_nth: "i < 16 \<Longrightarrow> j < 16 \<Longrightarrow> hexdigits ! i = hexdigits ! j \<longleftrightarrow> i = j"
proof -
  have "distinct hexdigits" "length hexdigits = 16" by (simp_all add: hexdigits_def)
  then show "i < 16 \<Longrightarrow> j < 16 \<Longrightarrow> hexdigits ! i = hexdigits ! j \<longleftrightarrow> i = j"
    by (simp add: nth_eq_iff_index_eq)
qed

lemma hex_inject: "hex a = hex b \<longleftrightarrow> a = b"
proof
  assume "hex a = hex b"
  then show "a = b"
  proof (induction a arbitrary: b)
    case Nil
    then show ?case by (cases b) (auto simp: hex_def)
  next
    case (Cons c a)
    then obtain d b' where b: "b = d # b'" by (cases b) (auto simp: hex_def)
    have "hexdigits ! (byte c div 16) = hexdigits ! (byte d div 16)"
      "hexdigits ! (byte c mod 16) = hexdigits ! (byte d mod 16)" "hex a = hex b'"
      using Cons.prems by (simp_all add: hex_def b)
    moreover have "byte c div 16 < 16" "byte d div 16 < 16"
      using byte_less [of c] byte_less [of d] by (simp_all add: less_mult_imp_div_less)
    ultimately have "byte c div 16 = byte d div 16" "byte c mod 16 = byte d mod 16"
      by (simp_all add: hexdigits_nth)
    then have "byte c = byte d" by (metis div_mult_mod_eq)
    then show ?case using Cons.IH \<open>hex a = hex b'\<close> by (simp add: b)
  qed
qed simp

section \<open>Projections\<close>

lemma good_filter: "good_term t \<Longrightarrow> good_term (filter P t)"
  by (induction t) (auto simp: good_term_Cons)

lemma fold_caveats_terms: "admitted_terms (fold with_caveat cs a) = admitted_terms a"
  by (induction cs arbitrary: a) (simp_all add: with_caveat_def)

lemma fold_caveats: "set (admitted_caveats (fold with_caveat cs a)) = set (admitted_caveats a) \<union> set cs"
  by (induction cs arbitrary: a) (auto simp: with_caveat_def)

lemma live_card: "card (live ts) \<le> length ts"
proof -
  have "live ts \<subseteq> (\<lambda>t. the (normalise_term t)) ` set ts" by (force simp: live_def)
  then have "card (live ts) \<le> card ((\<lambda>t. the (normalise_term t)) ` set ts)" by (intro card_mono) auto
  also have "\<dots> \<le> length ts" by (meson card_image_le card_length finite_set le_trans)
  finally show ?thesis .
qed

text \<open>A list of at most 256 terms cannot overflow.\<close>

lemma normalise_small:
  assumes "\<forall>t \<in> set ts. good_term t" "length ts \<le> term_cap"
  shows "admits (normalise ts cs oper) token \<longleftrightarrow> (\<exists>t \<in> set ts. term_admits token t)"
    and "admitted_caveats (normalise ts cs oper) = normalise_caveats cs"
proof -
  have c: "\<not> term_cap < card (live ts)" using live_card [of ts] assms(2) by simp
  have "(admits (normalise ts cs oper) token \<longleftrightarrow> (\<exists>t \<in> set ts. term_admits token t))
    \<and> admitted_caveats (normalise ts cs oper) = normalise_caveats cs"
    using assms(1)
  proof (cases rule: normalise_cases [where cs = cs and oper = oper])
    case all
    then have "\<exists>t \<in> set ts. term_admits token t"
      using live_admits [where ts = ts and token = token] all_top_admits by blast
    then show ?thesis using all(2) by (simp add: everything_admits)
  next
    case over
    then show ?thesis using c by blast
  next
    case (terms us)
    then show ?thesis using live_admits [where ts = ts and token = token] by (simp add: admits_iff)
  qed
  then show "admits (normalise ts cs oper) token \<longleftrightarrow> (\<exists>t \<in> set ts. term_admits token t)"
    "admitted_caveats (normalise ts cs oper) = normalise_caveats cs" by blast+
qed

lemma project_canonical:
  assumes "canonical_set s"
  shows "admits (project s keeps) token \<longleftrightarrow>
      (\<exists>t \<in> set (admitted_terms s). \<forall>(k, c) \<in> set t. keeps k \<longrightarrow> satisfies c (token k))"
    and "set (admitted_caveats (project s keeps)) = set (admitted_caveats s)"
    and "t \<in> set (admitted_terms (project s keeps)) \<Longrightarrow> (k, c) \<in> set t \<Longrightarrow> keeps k"
proof -
  let ?ts = "map (filter (\<lambda>(k, v). keeps k)) (admitted_terms s)"
  have g: "\<forall>t \<in> set ?ts. good_term t" "length ?ts \<le> term_cap"
    using assms canonical_good good_filter by (auto simp: canonical_set_def)
  have "admits (project s keeps) token \<longleftrightarrow> admits (new_admitted_set ?ts) token"
    by (simp add: admits_iff project_def fold_caveats_terms)
  also have "\<dots> \<longleftrightarrow> (\<exists>t \<in> set ?ts. term_admits token t)"
    unfolding new_admitted_set_def using normalise_small(1) [OF g] .
  finally show "admits (project s keeps) token \<longleftrightarrow>
      (\<exists>t \<in> set (admitted_terms s). \<forall>(k, c) \<in> set t. keeps k \<longrightarrow> satisfies c (token k))"
    by (auto simp: term_admits_def)
  show "set (admitted_caveats (project s keeps)) = set (admitted_caveats s)"
    using normalise_small(2) [OF g, of "[]" "''NewAdmittedSet''"]
    by (simp add: project_def fold_caveats new_admitted_set_def)
  assume t: "t \<in> set (admitted_terms (project s keeps))" "(k, c) \<in> set t"
  then have "t \<in> set (admitted_terms (normalise ?ts [] ''NewAdmittedSet''))"
    by (simp add: project_def fold_caveats_terms new_admitted_set_def)
  with g(1) have "t = [] \<or> t \<in> live ?ts"
    by (cases rule: normalise_cases [where cs = "[]" and oper = "''NewAdmittedSet''"]) auto
  then show "keeps k"
    using t(2) normalise_term_Some by (fastforce simp: live_def)
qed

section \<open>Names of issuers\<close>

lemma strings_map_runes:
  assumes "\<And>r. valid_rune r \<Longrightarrow> case f r of Some x \<Rightarrow> valid_rune x | None \<Rightarrow> True"
  shows "runes (strings_map f s) = List.map_filter f (runes s)"
proof -
  have "\<forall>r \<in> set (List.map_filter f (runes s)). valid_rune r"
    using assms runes_valid by (fastforce simp: map_filter_def split: option.splits)
  then show ?thesis by (simp add: strings_map_def runes_encode_runes)
qed

lemma lower_rune_valid: "valid_rune r \<Longrightarrow> case lower_rune r of Some x \<Rightarrow> valid_rune x | None \<Rightarrow> True"
  by (auto simp: lower_rune_def valid_rune_def)

lemma lower_ascii_runes: "runes (lower_ascii s) = map (\<lambda>r. if 65 \<le> r \<and> r \<le> 90 then r + 97 - 65 else r) (runes s)"
  using strings_map_runes [of lower_rune s, OF lower_rune_valid]
  by (simp add: lower_ascii_def) (simp add: lower_rune_def [abs_def] map_filter_def comp_def)

lemma lower_ascii_idem: "lower_ascii (lower_ascii s) = lower_ascii s"
proof -
  have "List.map_filter lower_rune (runes (lower_ascii s)) = List.map_filter lower_rune (runes s)"
    unfolding lower_ascii_runes by (auto simp: map_filter_def lower_rune_def comp_def)
  then show ?thesis by (simp add: lower_ascii_def strings_map_def)
qed

lemma lower_ascii_Nil [simp]: "lower_ascii s = [] \<longleftrightarrow> s = []"
proof -
  have "runes (lower_ascii s) = [] \<longleftrightarrow> s = []" by (simp add: lower_ascii_runes)
  then show ?thesis by simp
qed

lemma lower_ascii_slash: "CHR ''/'' \<in> set (lower_ascii s) \<longleftrightarrow> CHR ''/'' \<in> set s"
proof -
  have b: "byte (CHR ''/'') = 47" by (simp add: byte_def)
  have "47 \<in> set (runes (lower_ascii s)) \<longleftrightarrow> 47 \<in> set (runes s)"
    by (auto simp: lower_ascii_runes image_iff)
  then show ?thesis using byte_in_runes [of "CHR ''/''"] by (simp add: b)
qed

lemma https_index: "index_of (https @ s) ''://'' = Some 5"
  by (simp add: https_def index_of.simps prefix_def)

text \<open>The issuer a host and a path stand for.\<close>

definition issuer_of :: "string \<Rightarrow> string \<Rightarrow> string" where
  "issuer_of host path = https @ host @ (if path \<noteq> [] then ''/'' @ path else path)"

lemma normalise_issuer_parts:
  assumes "normalise_issuer raw = Some i"
  obtains host path where "i = issuer_of (lower_ascii host) (trim_suffix path ''/'')" "host \<noteq> []" "CHR ''/'' \<notin> set host"
proof -
  let ?s = "case index_of raw ''://'' of Some i \<Rightarrow> drop (i + 3) raw | None \<Rightarrow> raw"
  obtain host path b where c: "cut ?s ''/'' = (host, path, b)" by (metis prod_cases3)
  have "host \<noteq> []" "i = issuer_of (lower_ascii host) (trim_suffix path ''/'')"
    using assms c by (auto simp: normalise_issuer_def issuer_of_def Let_def split: if_splits)
  moreover have "CHR ''/'' \<notin> set host" by (rule cut_char_head [OF c])
  ultimately show thesis using that by blast
qed

lemma trim_slash: "trim_suffix (s @ ''/'') ''/'' = s" "\<not> has_suffix s ''/'' \<Longrightarrow> trim_suffix s ''/'' = s"
  by (simp_all add: trim_suffix_def has_suffix_def)

lemma has_suffix_char: "has_suffix s [c] \<longleftrightarrow> s \<noteq> [] \<and> last s = c"
  by (auto simp: has_suffix_def suffix_def) (metis append_butlast_last_id)

lemma trim_fixed: "trim_suffix s ''/'' = s \<longleftrightarrow> \<not> has_suffix s ''/''"
proof (cases "has_suffix s ''/''")
  case True
  then have "s \<noteq> []" by (simp add: has_suffix_char)
  then have "length (trim_suffix s ''/'') \<noteq> length s" using True by (cases s) (simp_all add: trim_suffix_def)
  then show ?thesis using True by auto
qed (simp add: trim_slash)

lemma normalise_issuer_of:
  assumes "host \<noteq> []" "CHR ''/'' \<notin> set host"
  shows "normalise_issuer (issuer_of host path) = Some (issuer_of (lower_ascii host) (trim_suffix path ''/''))"
proof -
  have d: "drop 8 (issuer_of host path) = host @ (if path \<noteq> [] then ''/'' @ path else path)"
    by (simp add: issuer_of_def https_def)
  have "cut (host @ (if path \<noteq> [] then ''/'' @ path else path)) ''/'' = (host, path, path \<noteq> [])"
    using cut_char_append [OF assms(2), of path] cut_char_absent [OF assms(2)] by simp
  then show ?thesis
    using d assms(1) by (simp add: normalise_issuer_def https_index Let_def) (simp add: issuer_of_def https_index)
qed

section \<open>Properties\<close>

text \<open>
  C31: Audience, WithoutAudience and every other projection of a set that the operations of package
  eval build from terms over claim names without an equals sign only widen, and say so: a token the
  set admits the projection admits whatever its other claims are; a claim the projection drops is
  in none of its terms; membership is one term's kept constraints, nothing more; and every caveat
  is carried over and none added, so an inexact set never projects to a clean one.
  (Over other names two projected terms may render alike and normalise drop one of them.)
\<close>

theorem projection_widens:
  assumes "built_set s"
  shows "(admits (project s keeps) token \<longleftrightarrow>
       (\<exists>t \<in> set (admitted_terms s). \<forall>(k, c) \<in> set t. keeps k \<longrightarrow> satisfies c (token k)))
    \<and> ((\<exists>other. admits s other \<and> (\<forall>k. keeps k \<longrightarrow> other k = token k)) \<longrightarrow> admits (project s keeps) token)
    \<and> (\<forall>t \<in> set (admitted_terms (project s keeps)). \<forall>(k, c) \<in> set t. keeps k)
    \<and> set (admitted_caveats (project s keeps)) = set (admitted_caveats s)"
proof -
  note c = built_canonical [OF assms]
  have "admits (project s keeps) token" if adm: "admits s other" and eq: "\<forall>k. keeps k \<longrightarrow> other k = token k" for other
  proof -
    obtain t where t: "t \<in> set (admitted_terms s)" "\<forall>(k, c) \<in> set t. satisfies c (other k)"
      using adm unfolding admits_iff term_admits_def by (rule bexE)
    then have "\<forall>(k, c) \<in> set t. keeps k \<longrightarrow> satisfies c (token k)" using eq by auto
    then show ?thesis unfolding project_canonical(1) [OF c] using t(1) by blast
  qed
  then have widens: "(\<exists>other. admits s other \<and> (\<forall>k. keeps k \<longrightarrow> other k = token k)) \<longrightarrow> admits (project s keeps) token"
    by blast
  have "\<forall>t \<in> set (admitted_terms (project s keeps)). \<forall>(k, c) \<in> set t. keeps k"
    using project_canonical(3) [OF c] by fastforce
  then show ?thesis by (intro conjI widens project_canonical(1,2) [OF c])
qed

theorem projection_widens_witness:
  "admits (project (new_admitted_set [[(''aud'', Exact ''x''), (''sub'', Exact ''a'')]]) (\<lambda>k. k \<noteq> aud)) [''sub'' \<mapsto> ''a'']"
proof -
  let ?s = "new_admitted_set [[(''aud'', Exact ''x''), (''sub'', Exact ''a'')]]"
  have "built_set ?s"
    by (rule built_set.intros(1)) (auto simp: built_term_def good_key_def intro: built.intros)
  moreover have "admits ?s [''sub'' \<mapsto> ''a'', ''aud'' \<mapsto> ''x'']" by code_simp
  moreover have "\<forall>k. k \<noteq> aud \<longrightarrow> [''sub'' \<mapsto> ''a'', ''aud'' \<mapsto> ''x''] k = [''sub'' \<mapsto> ''a''] k"
    by (simp add: aud_def)
  ultimately show ?thesis using projection_widens by blast
qed

text \<open>
  An issuer's key is a fixed point of NormaliseIssuer exactly when it ends in no slash. The
  host is never empty and its ASCII letters are lower case; but one slash is all that is trimmed,
  so an issuer written with two keeps one, and its key, read again, is another key.
\<close>

theorem issuer_key_fixed_point:
  assumes "normalise_issuer raw = Some i"
  shows "(normalise_issuer i = Some i \<longleftrightarrow> \<not> has_suffix i ''/'') \<and> has_prefix i https"
proof -
  obtain host path where i: "i = issuer_of (lower_ascii host) (trim_suffix path ''/'')"
    and h: "host \<noteq> []" "CHR ''/'' \<notin> set host"
    by (rule normalise_issuer_parts [OF assms])
  let ?h = "lower_ascii host" and ?p = "trim_suffix path ''/''"
  have lh: "?h \<noteq> []" "CHR ''/'' \<notin> set ?h" using h by (simp_all add: lower_ascii_slash)
  have n: "normalise_issuer i = Some (issuer_of ?h (trim_suffix ?p ''/''))"
    unfolding i normalise_issuer_of [OF lh] by (simp add: lower_ascii_idem)
  have suffix: "has_suffix i ''/'' \<longleftrightarrow> ?p \<noteq> [] \<and> last ?p = CHR ''/''"
  proof -
    have "last ?h \<noteq> CHR ''/''" using last_in_set [OF lh(1)] lh(2) by metis
    then show ?thesis using lh(1) by (cases "?p = []") (auto simp: has_suffix_char i issuer_of_def)
  qed
  have inj: "issuer_of ?h p = issuer_of ?h q \<longleftrightarrow> p = q" for p q by (auto simp: issuer_of_def)
  note trim_fixed [of ?p]
  then show ?thesis
    using n suffix inj by (auto simp: i has_suffix_char issuer_of_def)
qed

theorem issuer_key_fixed_point_witness:
  "normalise_issuer ''https://h/a//'' = Some ''https://h/a/'' \<and> normalise_issuer ''https://h/a/'' \<noteq> Some ''https://h/a/''"
proof -
  have e: "normalise_issuer ''https://h/a//'' = Some ''https://h/a/''" "has_suffix ''https://h/a/'' ''/''" by code_simp+
  then show ?thesis using issuer_key_fixed_point by blast
qed

text \<open>
  A record's digest is the evidence's and nothing else's: it does not depend on when the
  response was fetched, nor on the call, and two records of equal digest have responses of equal
  hash, since the hexadecimal loses nothing.
\<close>

theorem record_digest_seals_the_response:
  "record_sha256 (new_record sha256 api params status body at) = record_sha256 (new_record sha256 api' params' status' body' at')
    \<longleftrightarrow> sha256 body = sha256 body'"
  by (simp add: new_record_def hex_inject)

end
