(* ===== verification/Trust_Conformance.thy ===== *)
theory Trust_Conformance imports Trust_Grant begin

text \<open>
  Package trust, conformance.go: the seven logical grants every parser must agree on, and the
  judgement that holds a parse to one. A parser is an argument, a Go map keyed by string the list
  of its entries.

  What the suite promises is that a parser it passes admits exactly the tokens of the expected
  set, or of the one widening the case declares; judged_clean says so for any case, and the table
  of cases is evaluated on its own witnesses and counters.
\<close>

datatype relation = Equal | WidensWithAnomaly

record trust_case =
  case_name :: string
  case_expected :: admitted_set
  case_audiences :: "(string \<times> string) list"
  case_issuer :: string
  case_effect :: string
  case_witnesses :: "token list"
  case_counters :: "token list"
  case_expressive :: string
  case_unknown_on :: claim_key
  case_construct :: string
  case_inexpressible :: "(string \<times> string) list"

definition Providers :: "string list" where "Providers = [AWS, Azure, GCP]"

definition case_relation :: "trust_case \<Rightarrow> string \<Rightarrow> relation" where
  "case_relation c p = (if p = case_expressive c then WidensWithAnomaly else Equal)"

text \<open>A map of strings read at a key it may not hold gives the empty string.\<close>

definition lookup_string :: "(string \<times> string) list \<Rightarrow> string \<Rightarrow> string" where
  "lookup_string m k = (case map_of m k of Some v \<Rightarrow> v | None \<Rightarrow> [])"

definition conformant :: "trust_case \<Rightarrow> string \<Rightarrow> grant" where
  "conformant c p =
     (let terms = map (put aud (Exact (lookup_string (case_audiences c) p))) (admitted_terms (case_expected c));
          g = \<lparr>grant_target = \<lparr>target_kind = [], target_id = []\<rparr>, grant_issuer = case_issuer c,
               grant_admits = new_admitted_set terms, grant_effect = case_effect c,
               grant_provenance = [], grant_anomalies = [], grant_source = []\<rparr> in
      if case_relation c p \<noteq> WidensWithAnomaly then g
      else (let terms = map (put (case_unknown_on c) (Unknown (case_construct c))) terms in
        g\<lparr>grant_admits := with_caveat
             \<lparr>caveat_claim = case_unknown_on c,
              caveat_reason = ''operator '' @ case_construct c @ '' is not modelled'',
              caveat_source = ''document''\<rparr> (new_admitted_set terms),
          grant_anomalies :=
            [\<lparr>anomaly_kind = Unmodelled, anomaly_claim = case_unknown_on c, anomaly_construct = case_construct c,
              anomaly_message = case_construct c @ '' on '' @ case_unknown_on c @
                '' passes when the claim is absent, so it does not restrict what it looks like it restricts'',
              anomaly_source = ''document''\<rparr>]\<rparr>))"

section \<open>Judging a parse\<close>

definition has_caveat :: "grant \<Rightarrow> claim_key \<Rightarrow> bool" where
  "has_caveat g k = list_ex (\<lambda>cv. caveat_claim cv = k) (admitted_caveats (grant_admits g))"

definition undeclared_unknowns :: "grant \<Rightarrow> string list" where
  "undeclared_unknowns g =
     compact_func (=)
       [k @ '' is Unknown without a caveat: silence read as clean''.
          t \<leftarrow> admitted_terms (grant_admits g), (k, s) \<leftarrow> t, is_unknown s \<and> \<not> has_caveat g k]"

definition judge :: "trust_case \<Rightarrow> string \<Rightarrow> grant \<Rightarrow> string list" where
  "judge c p g =
     (let want = conformant c p in
      (if grant_issuer g \<noteq> grant_issuer want
       then [''issuer '' @ quote_to_ascii (grant_issuer g) @ '', want '' @ quote_to_ascii (grant_issuer want)] else []) @
      (if grant_effect g \<noteq> grant_effect want
       then [''effect '' @ quote_to_ascii (grant_effect g) @ '', want '' @ quote_to_ascii (grant_effect want)] else []) @
      undeclared_unknowns g @
      (case case_relation c p of
         Equal \<Rightarrow>
           (let x = render_admitted (grant_admits g); y = render_admitted (grant_admits want) in
            if x \<noteq> y then [''admits '' @ x @ '', want '' @ y] else []) @
           (if \<not> grant_exact g then [''carries caveats on a grant the provider states exactly''] else [])
       | WidensWithAnomaly \<Rightarrow>
           (let beyond = (\<lambda>k. k \<noteq> case_unknown_on c);
                x = render_admitted (project (grant_admits g) beyond);
                y = render_admitted (project (grant_admits want) beyond) in
            if x \<noteq> y then [''beyond '' @ case_unknown_on c @ '' admits '' @ x @ '', want '' @ y] else []) @
           (if list_ex (\<lambda>t. case map_of t (case_unknown_on c) of None \<Rightarrow> True | Some s \<Rightarrow> \<not> is_unknown s)
                (admitted_terms (grant_admits g))
            then [case_unknown_on c @ '' must be Unknown in every term; a narrower constraint claims to model '' @
                  case_construct c] else []) @
           (if \<not> list_ex (\<lambda>a. anomaly_kind a = Unmodelled \<and> anomaly_claim a = case_unknown_on c \<and>
                  anomaly_construct a = case_construct c) (grant_anomalies g)
            then [''no '' @ Unmodelled @ '' anomaly on '' @ quote_to_ascii (case_unknown_on c) @ '' naming '' @
                  quote_to_ascii (case_construct c)] else [])))"

section \<open>Running a parser over the cases\<close>

text \<open>A parser returns its error's text or its grants.\<close>

type_synonym parser = "string \<Rightarrow> string + grant list"
type_synonym documents = "(string \<times> string) list"

record failure =
  failure_case :: string
  failure_provider :: string
  failure_reasons :: "string list"

definition render_failure :: "failure \<Rightarrow> string" where
  "render_failure f =
     (if failure_case f \<noteq> [] then failure_case f @ ''/'' @ failure_provider f else failure_provider f) @
     '': '' @ join_strings ''; '' (failure_reasons f)"

definition case_check :: "trust_case \<Rightarrow> string \<Rightarrow> parser \<Rightarrow> documents \<Rightarrow> string list" where
  "case_check c p parse documents =
     (case map_of (case_inexpressible c) p of
        Some why \<Rightarrow>
          (if map_of documents (case_name c) \<noteq> None
           then [''declared inexpressible ('' @ why @ ''), yet a document exists''] else [])
      | None \<Rightarrow>
          (case map_of documents (case_name c) of
             None \<Rightarrow> [''no document for this provider'']
           | Some doc \<Rightarrow>
               (case parse doc of
                  Inl err \<Rightarrow> [''parse: '' @ err]
                | Inr grants \<Rightarrow>
                    (case grants of
                       [g] \<Rightarrow> judge c p g
                     | _ \<Rightarrow> [''parsed '' @ itoa (int (length grants)) @ '' grants, want 1'']))))"

definition check_cases :: "trust_case list \<Rightarrow> string \<Rightarrow> parser \<Rightarrow> documents \<Rightarrow> failure list" where
  "check_cases cases p parse documents =
     [\<lparr>failure_case = case_name c, failure_provider = p, failure_reasons = case_check c p parse documents\<rparr>.
        c \<leftarrow> cases, length (case_check c p parse documents) \<noteq> 0] @
     [\<lparr>failure_case = name, failure_provider = p,
       failure_reasons = [''no case by this name; the document would be examined by nothing'']\<rparr>.
        name \<leftarrow> sort_func go_compare (map fst documents), name \<notin> set (map case_name cases)]"

section \<open>The cases\<close>

definition github :: string where "github = ''https://token.actions.githubusercontent.com''"
definition awsAudience :: string where "awsAudience = ''sts.amazonaws.com''"
definition azureAudience :: string where "azureAudience = ''api://AzureADTokenExchange''"
definition gcpAudience :: string where
  "gcpAudience = ''https://iam.googleapis.com/projects/123456789012/locations/global/workloadIdentityPools/github/providers/github''"
definition repositoryID :: string where "repositoryID = ''456789''"
definition repositoryOwner :: string where "repositoryOwner = ''123456''"
definition mainBranch :: string where "mainBranch = ''repo:acme/infra:ref:refs/heads/main''"
definition devBranch :: string where "devBranch = ''repo:acme/infra:ref:refs/heads/dev''"
definition immutableMain :: string where "immutableMain = ''repo:acme@123456/infra@456789:ref:refs/heads/main''"
definition lookalikeOrg :: string where "lookalikeOrg = ''repo:acme-evil/infra:ref:refs/heads/main''"
definition lookalikeRepo :: string where "lookalikeRepo = ''repo:acme/infra-evil:ref:refs/heads/main''"

definition azureNeedsAnImmutableClaim :: string where
  "azureNeedsAnImmutableClaim = ''a federated identity credential matches the subject exactly, and a flexible one must match sub together with an immutable claim; a subject pattern alone cannot be stated''"

definition audiences :: "(string \<times> string) list" where
  "audiences = [(AWS, awsAudience), (Azure, azureAudience), (GCP, gcpAudience)]"

definition one_case :: trust_case where
  "one_case =
     \<lparr>case_name = [], case_expected = Nothing, case_audiences = audiences, case_issuer = github, case_effect = Allow,
      case_witnesses = [], case_counters = [], case_expressive = [], case_unknown_on = [], case_construct = [],
      case_inexpressible = []\<rparr>"

definition Cases :: "trust_case list" where
  "Cases =
     [one_case\<lparr>case_name := ''01-one-repo-one-branch'',
        case_expected := new_admitted_set [[(''sub'', Exact mainBranch)]],
        case_witnesses := [[''sub'' \<mapsto> mainBranch], [''sub'' \<mapsto> mainBranch, ''repository_id'' \<mapsto> repositoryID]],
        case_counters := [[''sub'' \<mapsto> devBranch], [''sub'' \<mapsto> lookalikeOrg], [''sub'' \<mapsto> immutableMain], Map.empty]\<rparr>,
      one_case\<lparr>case_name := ''02-one-repo-any-branch'',
        case_expected := new_admitted_set [[(''sub'', Glob ''repo:acme/infra:*'')]],
        case_witnesses := [[''sub'' \<mapsto> mainBranch], [''sub'' \<mapsto> devBranch],
          [''sub'' \<mapsto> ''repo:acme/infra:environment:production'']],
        case_counters := [[''sub'' \<mapsto> lookalikeRepo], [''sub'' \<mapsto> ''repo:acme/infrastructure:ref:refs/heads/main''], Map.empty],
        case_inexpressible := [(Azure, azureNeedsAnImmutableClaim)]\<rparr>,
      one_case\<lparr>case_name := ''03-whole-organisation'',
        case_expected := new_admitted_set
          [[(''repository_owner_id'', Exact repositoryOwner), (''sub'', Glob ''repo:acme/*'')]],
        case_witnesses := [[''sub'' \<mapsto> mainBranch, ''repository_owner_id'' \<mapsto> repositoryOwner],
          [''sub'' \<mapsto> ''repo:acme/anything:environment:production'', ''repository_owner_id'' \<mapsto> repositoryOwner]],
        case_counters := [[''sub'' \<mapsto> lookalikeOrg, ''repository_owner_id'' \<mapsto> repositoryOwner],
          [''sub'' \<mapsto> ''repo:acmeco/infra:ref:refs/heads/main'', ''repository_owner_id'' \<mapsto> repositoryOwner],
          [''sub'' \<mapsto> mainBranch, ''repository_owner_id'' \<mapsto> ''999999''],
          [''sub'' \<mapsto> mainBranch]]\<rparr>,
      one_case\<lparr>case_name := ''04-immutable-subject'',
        case_expected := new_admitted_set [[(''sub'', Exact immutableMain)]],
        case_witnesses := [[''sub'' \<mapsto> immutableMain]],
        case_counters := [[''sub'' \<mapsto> mainBranch], [''sub'' \<mapsto> ''repo:acme@123456/infra@456789:ref:refs/heads/dev''], Map.empty]\<rparr>,
      one_case\<lparr>case_name := ''05-repository-id'',
        case_expected := new_admitted_set [[(''repository_id'', Exact repositoryID)]],
        case_witnesses := [[''repository_id'' \<mapsto> repositoryID, ''sub'' \<mapsto> mainBranch],
          [''repository_id'' \<mapsto> repositoryID, ''sub'' \<mapsto> ''repo:renamed/moved:ref:refs/heads/main'']],
        case_counters := [[''repository_id'' \<mapsto> ''999999'', ''sub'' \<mapsto> mainBranch], [''sub'' \<mapsto> mainBranch]]\<rparr>,
      one_case\<lparr>case_name := ''06-unconstrained'',
        case_expected := Everything,
        case_witnesses := [[''sub'' \<mapsto> mainBranch], [''sub'' \<mapsto> lookalikeOrg], Map.empty],
        case_inexpressible := [(Azure, ''a federated identity credential must pin the subject, and a flexible one must match sub together with an immutable claim; there is no way to trust every subject from an issuer'')]\<rparr>,
      one_case\<lparr>case_name := ''07-expressible-by-one-provider'',
        case_expected := new_admitted_set
          [[(''repository_id'', Exact repositoryID), (''sub'', Glob ''repo:acme/infra:*'')]],
        case_witnesses := [[''sub'' \<mapsto> mainBranch, ''repository_id'' \<mapsto> repositoryID],
          [''sub'' \<mapsto> devBranch, ''repository_id'' \<mapsto> repositoryID]],
        case_counters := [[''sub'' \<mapsto> lookalikeRepo, ''repository_id'' \<mapsto> repositoryID],
          [''sub'' \<mapsto> mainBranch, ''repository_id'' \<mapsto> ''999999'']],
        case_expressive := AWS, case_unknown_on := ''sub'', case_construct := ''ForAllValues:StringLike''\<rparr>]"

definition check_provider :: "string \<Rightarrow> parser \<Rightarrow> documents \<Rightarrow> failure list" where
  "check_provider p parse documents = check_cases Cases p parse documents"

text \<open>Suite: documents a provider has none of are a nil map.\<close>

definition Suite :: "(string \<times> parser) list \<Rightarrow> (string \<times> documents) list \<Rightarrow> failure list" where
  "Suite parsers documents =
     concat (map (\<lambda>p. case map_of parsers p of
         None \<Rightarrow> [\<lparr>failure_case = [], failure_provider = p,
                  failure_reasons = [''no parser registered; every case for this provider went unexamined'']\<rparr>]
       | Some parse \<Rightarrow> check_provider p parse (case map_of documents p of None \<Rightarrow> [] | Some ds \<Rightarrow> ds)) Providers) @
     [\<lparr>failure_case = [], failure_provider = p,
       failure_reasons = [''no triples are written for this provider; the parser would be examined by nothing'']\<rparr>.
        p \<leftarrow> sort_func go_compare (map fst parsers), p \<notin> set Providers]"

section \<open>The conformant grant\<close>

lemma normalise_term_keeps:
  "normalise_term t = Some u \<Longrightarrow> (k, s) \<in> set t \<Longrightarrow> is_unknown s \<or> \<not> is_top s \<Longrightarrow> (k, s) \<in> set u"
  by (induction t arbitrary: u rule: normalise_term.induct) (auto split: if_splits)

lemma set_put_subset: "set (put k s t) \<subseteq> insert (k, s) (set t)"
  by (induction t) (auto split: if_splits)

lemma put_member: "(k, s) \<in> set (put k s t)"
  by (induction t) auto

lemma put_other: "(k', s') \<in> set t \<Longrightarrow> k' \<noteq> k \<Longrightarrow> (k', s') \<in> set (put k s t)"
  by (induction t) auto

text \<open>The terms of a set built from terms none of which admits everything are among its live ones.\<close>

lemma new_set_terms:
  assumes "\<forall>t \<in> set ts. good_term t" "length ts \<le> term_cap" "\<forall>t \<in> set ts. \<exists>(k, s) \<in> set t. \<not> is_top s"
  shows "set (admitted_terms (new_admitted_set ts)) = live ts" "admitted_caveats (new_admitted_set ts) = []"
    "canonical_set (new_admitted_set ts)"
proof -
  have none: "\<not> all_top u" if "u \<in> live ts" for u
  proof -
    from that obtain t where t: "t \<in> set ts" "normalise_term t = Some u" unfolding live_def by blast
    obtain k s where "(k, s) \<in> set t" "\<not> is_top s" using assms(3) t(1) by blast
    then have "(k, s) \<in> set u" "\<not> is_top s" using normalise_term_keeps [OF t(2)] by blast+
    then show ?thesis by (auto simp: all_top_def list_all_iff)
  qed
  have "set (admitted_terms (new_admitted_set ts)) = live ts"
    using assms(1) unfolding new_admitted_set_def
    by (cases rule: normalise_cases [where cs = "[]" and oper = "''NewAdmittedSet''"])
      (use none live_card [of ts] assms(2) in auto)
  then show "set (admitted_terms (new_admitted_set ts)) = live ts" .
  show "admitted_caveats (new_admitted_set ts) = []"
    using normalise_small(2) [OF assms(1,2)] by (simp add: new_admitted_set_def normalise_caveats_def)
  show "canonical_set (new_admitted_set ts)"
    unfolding new_admitted_set_def by (rule normalise_canonical [OF assms(1)])
qed

text \<open>What a case must be for its conformant grant to be one: canonical, with names of its own for its claims.\<close>

definition sound_case :: "trust_case \<Rightarrow> bool" where
  "sound_case c \<longleftrightarrow> canonical_set (case_expected c) \<and> good_key (case_unknown_on c) \<and> case_unknown_on c \<noteq> aud
     \<and> (\<forall>t \<in> set (admitted_terms (case_expected c)). \<forall>(k, s) \<in> set t. \<not> is_unknown s)"

abbreviation with_audience :: "trust_case \<Rightarrow> string \<Rightarrow> claim_term list" where
  "with_audience c p \<equiv> map (put aud (Exact (lookup_string (case_audiences c) p))) (admitted_terms (case_expected c))"

abbreviation widened :: "trust_case \<Rightarrow> string \<Rightarrow> claim_term list" where
  "widened c p \<equiv> map (put (case_unknown_on c) (Unknown (case_construct c))) (with_audience c p)"

lemma aud_good: "good_key aud"
  by (simp add: good_key_def aud_def)

lemma with_audience_good:
  assumes "sound_case c"
  shows "\<forall>t \<in> set (with_audience c p). good_term t" "length (with_audience c p) \<le> term_cap"
    "\<forall>t \<in> set (with_audience c p). \<exists>(k, s) \<in> set t. \<not> is_top s"
proof -
  show "\<forall>t \<in> set (with_audience c p). good_term t"
    using assms canonical_good by (auto simp: sound_case_def Exact_def intro!: good_put aud_good)
  show "length (with_audience c p) \<le> term_cap" using assms by (simp add: sound_case_def canonical_set_def)
  show "\<forall>t \<in> set (with_audience c p). \<exists>(k, s) \<in> set t. \<not> is_top s"
    using put_member [of aud "Exact (lookup_string (case_audiences c) p)"]
    by (intro ballI bexI [where x = "(aud, Exact (lookup_string (case_audiences c) p))"]) (auto simp: Exact_def)
qed

lemma widened_good:
  assumes "sound_case c"
  shows "\<forall>t \<in> set (widened c p). good_term t" "length (widened c p) \<le> term_cap"
    "\<forall>t \<in> set (widened c p). \<exists>(k, s) \<in> set t. \<not> is_top s"
    "\<forall>t \<in> set (widened c p). (case_unknown_on c, Unknown (case_construct c)) \<in> set t"
proof -
  show "\<forall>t \<in> set (widened c p). good_term t"
    using with_audience_good(1) [OF assms, of p] assms
    by (simp add: sound_case_def Unknown_def good_put)
  show "length (widened c p) \<le> term_cap" using with_audience_good(2) [OF assms, of p] by simp
  have "(aud, Exact (lookup_string (case_audiences c) p)) \<in> set t" if "t \<in> set (widened c p)" for t
    using that put_member put_other assms by (fastforce simp: sound_case_def)
  then show "\<forall>t \<in> set (widened c p). \<exists>(k, s) \<in> set t. \<not> is_top s"
    by (intro ballI bexI [where x = "(aud, Exact (lookup_string (case_audiences c) p))"]) (simp_all add: Exact_def)
  show "\<forall>t \<in> set (widened c p). (case_unknown_on c, Unknown (case_construct c)) \<in> set t"
    using put_member by auto
qed

lemma live_member: "u \<in> live ts \<Longrightarrow> \<exists>t \<in> set ts. normalise_term t = Some u \<and> set u \<subseteq> set t"
  using normalise_term_Some by (fastforce simp: live_def)

lemma conformant_equal:
  assumes "case_relation c p = Equal"
  shows "grant_admits (conformant c p) = new_admitted_set (with_audience c p)"
  using assms by (simp add: conformant_def Let_def)

lemma conformant_widens:
  assumes "case_relation c p = WidensWithAnomaly"
  shows "admitted_terms (grant_admits (conformant c p)) = admitted_terms (new_admitted_set (widened c p))"
    and "list_ex (\<lambda>cv. caveat_claim cv = case_unknown_on c) (admitted_caveats (grant_admits (conformant c p)))"
    and "list_ex (\<lambda>a. anomaly_kind a = Unmodelled \<and> anomaly_claim a = case_unknown_on c \<and>
           anomaly_construct a = case_construct c) (grant_anomalies (conformant c p))"
  using assms by (simp_all add: conformant_def Let_def with_caveat_def comp_def list_ex_iff)

lemma conformant_issuer_effect [simp]:
  "grant_issuer (conformant c p) = case_issuer c" "grant_effect (conformant c p) = case_effect c"
  by (simp_all add: conformant_def Let_def)

lemma compact_func_Nil [simp]: "compact_func eq xs = [] \<longleftrightarrow> xs = []"
  by (cases xs) auto

lemma undeclared_Nil:
  "undeclared_unknowns g = [] \<longleftrightarrow>
    (\<forall>t \<in> set (admitted_terms (grant_admits g)). \<forall>(k, s) \<in> set t. is_unknown s \<longrightarrow> has_caveat g k)"
  unfolding undeclared_unknowns_def compact_func_Nil by (force split: prod.splits if_splits)

lemma judge_Nil:
  "judge c p g = [] \<longleftrightarrow>
     grant_issuer g = case_issuer c \<and> grant_effect g = case_effect c \<and> undeclared_unknowns g = [] \<and>
     (case case_relation c p of
        Equal \<Rightarrow> render_admitted (grant_admits g) = render_admitted (grant_admits (conformant c p)) \<and> grant_exact g
      | WidensWithAnomaly \<Rightarrow>
          render_admitted (project (grant_admits g) (\<lambda>k. k \<noteq> case_unknown_on c))
            = render_admitted (project (grant_admits (conformant c p)) (\<lambda>k. k \<noteq> case_unknown_on c)) \<and>
          (\<forall>t \<in> set (admitted_terms (grant_admits g)). \<exists>s. map_of t (case_unknown_on c) = Some s \<and> is_unknown s) \<and>
          list_ex (\<lambda>a. anomaly_kind a = Unmodelled \<and> anomaly_claim a = case_unknown_on c \<and>
            anomaly_construct a = case_construct c) (grant_anomalies g))"
  by (cases "case_relation c p") (auto simp: judge_def Let_def list_ex_iff split: option.splits)

lemma widened_terms:
  assumes "sound_case c" "t \<in> set (admitted_terms (new_admitted_set (widened c p)))"
  shows "(case_unknown_on c, Unknown (case_construct c)) \<in> set t \<and> good_term t
    \<and> (\<forall>(k, s) \<in> set t. is_unknown s \<longrightarrow> k = case_unknown_on c)"
proof -
  note w = widened_good [OF assms(1), of p]
  have "t \<in> live (widened c p)" using assms(2) new_set_terms(1) [OF w(1-3)] by blast
  then obtain u where u: "u \<in> set (widened c p)" "normalise_term u = Some t" "set t \<subseteq> set u"
    using live_member by blast
  have "(case_unknown_on c, Unknown (case_construct c)) \<in> set t"
    by (rule normalise_term_keeps [OF u(2)]) (use w(4) u(1) in \<open>auto simp: Unknown_def\<close>)
  moreover obtain e where e: "e \<in> set (admitted_terms (case_expected c))"
    "u = put (case_unknown_on c) (Unknown (case_construct c)) (put aud (Exact (lookup_string (case_audiences c) p)) e)"
    using u(1) by auto
  have "k = case_unknown_on c" if "(k, s) \<in> set t" "is_unknown s" for k s
  proof -
    have "(k, s) \<in> set u" using that(1) u(3) by blast
    then have "(k, s) = (case_unknown_on c, Unknown (case_construct c)) \<or> (k, s) = (aud, Exact (lookup_string (case_audiences c) p))
        \<or> (k, s) \<in> set e"
      unfolding e(2) using set_put_subset by blast
    then show ?thesis using that(2) e(1) assms(1) by (auto simp: sound_case_def Exact_def)
  qed
  ultimately show ?thesis
    using normalise_term_Some [OF u(2)] w(1) u(1) by auto
qed

lemma conformant_clean:
  assumes "sound_case c"
  shows "judge c p (conformant c p) = []"
proof (cases "case_relation c p")
  case Equal
  note a = with_audience_good [OF assms, of p]
  have "\<not> is_unknown s" if "t \<in> set (admitted_terms (new_admitted_set (with_audience c p)))" "(k, s) \<in> set t" for t k s
  proof -
    have "t \<in> live (with_audience c p)" using that(1) new_set_terms(1) [OF a] by simp
    then obtain u where u: "u \<in> set (with_audience c p)" "set t \<subseteq> set u" using live_member by blast
    then obtain e where e: "e \<in> set (admitted_terms (case_expected c))"
      "u = put aud (Exact (lookup_string (case_audiences c) p)) e"
      by auto
    then have "(k, s) = (aud, Exact (lookup_string (case_audiences c) p)) \<or> (k, s) \<in> set e"
      using that(2) u(2) set_put_subset by blast
    then show ?thesis using e(1) assms by (auto simp: sound_case_def Exact_def)
  qed
  then show ?thesis
    using new_set_terms(2) [OF a]
    by (auto simp: judge_Nil undeclared_Nil Equal conformant_equal grant_exact_def is_exact_def)
next
  case WidensWithAnomaly
  note w = conformant_widens [OF WidensWithAnomaly]
  have "map_of t (case_unknown_on c) = Some (Unknown (case_construct c))"
    if "t \<in> set (admitted_terms (new_admitted_set (widened c p)))" for t
    using widened_terms [OF assms that] good_in_iff by blast
  then have "\<forall>t \<in> set (admitted_terms (grant_admits (conformant c p))).
      \<exists>s. map_of t (case_unknown_on c) = Some s \<and> is_unknown s"
    unfolding w(1) by (simp add: Unknown_def)
  moreover have "undeclared_unknowns (conformant c p) = []"
  proof -
    have "has_caveat (conformant c p) (case_unknown_on c)" using w(2) by (simp add: has_caveat_def)
    moreover have "\<forall>t \<in> set (admitted_terms (grant_admits (conformant c p))).
        \<forall>(k, s) \<in> set t. is_unknown s \<longrightarrow> k = case_unknown_on c"
      unfolding w(1) using widened_terms [OF assms] by blast
    ultimately show ?thesis unfolding undeclared_Nil by fastforce
  qed
  ultimately show ?thesis using w(3) by (simp add: judge_Nil WidensWithAnomaly)
qed

text \<open>A parse judged clean admits what the conformant grant does.\<close>

lemma project_is_canonical: "canonical_set s \<Longrightarrow> canonical_set (project s keeps)"
proof -
  assume c: "canonical_set s"
  let ?ts = "map (filter (\<lambda>(k, v). keeps k)) (admitted_terms s)"
  have "canonical_set (new_admitted_set ?ts)"
    unfolding new_admitted_set_def by (rule normalise_canonical) (use c canonical_good good_filter in auto)
  moreover have "canonical_set (fold with_caveat cs a)" if "canonical_set a" for cs a
    using that by (induction cs arbitrary: a) (simp_all add: canonical_set_def with_caveat_def normalise_caveats_sorted)
  ultimately show ?thesis by (simp add: project_def)
qed

lemma project_unknown_admits:
  assumes "canonical_set s" "\<forall>t \<in> set (admitted_terms s). \<exists>u. map_of t k = Some u \<and> is_unknown u"
  shows "admits (project s (\<lambda>k'. k' \<noteq> k)) token \<longleftrightarrow> admits s token"
proof -
  have "(\<forall>(k', c) \<in> set t. k' \<noteq> k \<longrightarrow> satisfies c (token k')) \<longleftrightarrow> term_admits token t"
    if t: "t \<in> set (admitted_terms s)" for t
  proof -
    obtain u where u: "map_of t k = Some u" "is_unknown u" using assms(2) t by blast
    have "satisfies c (token k)" if "(k, c) \<in> set t" for c
    proof -
      have "c = u" using that u(1) good_in_iff [OF canonical_good [OF assms(1) t]] by simp
      then show ?thesis using u(2) by (cases u) (auto intro: satisfies_top)
    qed
    then show ?thesis by (auto simp: term_admits_def)
  qed
  then have "(\<exists>t \<in> set (admitted_terms s). \<forall>(k', c) \<in> set t. k' \<noteq> k \<longrightarrow> satisfies c (token k')) \<longleftrightarrow> admits s token"
    unfolding admits_iff by blast
  then show ?thesis by (simp only: project_canonical(1) [OF assms(1)])
qed

lemma conformant_canonical:
  assumes "sound_case c"
  shows "canonical_set (grant_admits (conformant c p))"
proof (cases "case_relation c p")
  case Equal
  then show ?thesis using new_set_terms(3) [OF with_audience_good [OF assms]] by (simp add: conformant_equal)
next
  case WidensWithAnomaly
  have "canonical_set (with_caveat cv (new_admitted_set (widened c p)))" for cv
    using new_set_terms(3) [OF widened_good(1-3) [OF assms]]
    by (simp add: canonical_set_def with_caveat_def normalise_caveats_sorted)
  then show ?thesis using WidensWithAnomaly by (simp add: conformant_def Let_def comp_def)
qed

lemma judged_admits:
  assumes "sound_case c" "canonical_set (grant_admits g)" "judge c p g = []"
  shows "admits (grant_admits g) token \<longleftrightarrow> admits (grant_admits (conformant c p)) token"
proof (cases "case_relation c p")
  case Equal
  have "admitted_terms (grant_admits g) = admitted_terms (grant_admits (conformant c p))"
    using assms(3) [unfolded judge_Nil Equal relation.case]
    by (intro render_admitted_inject assms(2) conformant_canonical assms(1)) blast
  then show ?thesis by (simp add: admits_iff)
next
  case WidensWithAnomaly
  let ?drop = "\<lambda>s. project s (\<lambda>k. k \<noteq> case_unknown_on c)"
  note j = assms(3) [unfolded judge_Nil WidensWithAnomaly relation.case]
  note clean = conformant_clean [OF assms(1), of p, unfolded judge_Nil WidensWithAnomaly relation.case]
  note cc = conformant_canonical [OF assms(1), of p]
  have "admitted_terms (?drop (grant_admits g)) = admitted_terms (?drop (grant_admits (conformant c p)))"
    using j by (intro render_admitted_inject project_is_canonical assms(2) cc) blast
  then have "admits (?drop (grant_admits g)) token \<longleftrightarrow> admits (?drop (grant_admits (conformant c p))) token"
    by (simp add: admits_iff)
  moreover have "admits (?drop (grant_admits g)) token \<longleftrightarrow> admits (grant_admits g) token"
    using j by (intro project_unknown_admits assms(2)) blast
  moreover have "admits (?drop (grant_admits (conformant c p))) token \<longleftrightarrow> admits (grant_admits (conformant c p)) token"
    using clean by (intro project_unknown_admits cc) blast
  ultimately show ?thesis by simp
qed

section \<open>The table\<close>

lemma cases_self_check:
  "list_all (\<lambda>c. list_all (admits (case_expected c)) (case_witnesses c)
     \<and> list_all (\<lambda>t. \<not> admits (case_expected c) t) (case_counters c)) Cases"
  by code_simp

lemma cases_plain_names: "list_all (\<lambda>c. case_unknown_on c \<noteq> aud \<and> CHR ''='' \<notin> set (case_unknown_on c)
    \<and> list_all (list_all (\<lambda>(k, s). \<not> is_unknown s)) (admitted_terms (case_expected c))) Cases"
  by code_simp

lemma cases_built: "c \<in> set Cases \<Longrightarrow> built_set (case_expected c)"
  by (auto simp: Cases_def one_case_def built_term_def good_key_def built.intros(1,2)
      intro!: built_set.intros(1) built_set.intros(2))

lemma cases_sound: "c \<in> set Cases \<Longrightarrow> sound_case c"
  using cases_built built_canonical cases_plain_names
  by (fastforce simp: sound_case_def good_key_def list_all_iff)

text \<open>A parser that reads a document named after a case as the case's conformant grant passes the check.\<close>

definition ideal_parser :: "string \<Rightarrow> parser" where
  "ideal_parser p doc =
     (case find (\<lambda>c. case_name c = doc) Cases of Some c \<Rightarrow> Inr [conformant c p] | None \<Rightarrow> Inl ''no such case'')"

definition ideal_documents :: "string \<Rightarrow> documents" where
  "ideal_documents p =
     map (\<lambda>c. (case_name c, case_name c)) (filter (\<lambda>c. map_of (case_inexpressible c) p = None) Cases)"

lemma cases_distinct: "distinct (map case_name Cases)"
  by code_simp

lemma find_distinct: "distinct (map f cs) \<Longrightarrow> c \<in> set cs \<Longrightarrow> find (\<lambda>d. f d = f c) cs = Some c"
  by (induction cs) (auto simp: image_iff)

lemmas find_case = find_distinct [OF cases_distinct]

lemma ideal_document:
  assumes "c \<in> set Cases"
  shows "map_of (ideal_documents p) (case_name c) = (if map_of (case_inexpressible c) p = None then Some (case_name c) else None)"
proof -
  have d: "distinct (map fst (ideal_documents p))"
    unfolding ideal_documents_def using cases_distinct by (simp add: comp_def distinct_map inj_on_def)
  show ?thesis
  proof (cases "map_of (case_inexpressible c) p")
    case None
    then have "(case_name c, case_name c) \<in> set (ideal_documents p)" using assms by (auto simp: ideal_documents_def)
    then show ?thesis using None d by simp
  next
    case (Some why)
    have "case_name c \<notin> fst ` set (ideal_documents p)"
    proof
      assume "case_name c \<in> fst ` set (ideal_documents p)"
      then obtain d where "d \<in> set Cases" "map_of (case_inexpressible d) p = None" "case_name d = case_name c"
        by (auto simp: ideal_documents_def)
      then show False using Some find_case assms by (metis option.distinct(1) option.inject)
    qed
    then show ?thesis using Some by (simp add: map_of_eq_None_iff)
  qed
qed

lemma ideal_passes: "check_provider p (ideal_parser p) (ideal_documents p) = []"
proof -
  have "case_check c p (ideal_parser p) (ideal_documents p) = []" if "c \<in> set Cases" for c
    using ideal_document [OF that, of p] find_case [OF that] conformant_clean [OF cases_sound [OF that]]
    by (auto simp: case_check_def ideal_parser_def split: option.splits)
  moreover have "set (map fst (ideal_documents p)) \<subseteq> set (map case_name Cases)"
    by (auto simp: ideal_documents_def)
  ultimately show ?thesis by (auto simp: check_provider_def check_cases_def)
qed

lemma new_set_built_terms:
  assumes "\<forall>t \<in> set ts. built_term t" "u \<in> set (admitted_terms (new_admitted_set ts))"
  shows "built_term u"
proof -
  have g: "\<forall>t \<in> set ts. good_term t" using assms(1) built_term_good by blast
  then have "u = [] \<or> u \<in> live ts"
    using assms(2) unfolding new_admitted_set_def
    by (cases rule: normalise_cases [where cs = "[]" and oper = "''NewAdmittedSet''"]) auto
  then show ?thesis
  proof
    assume "u \<in> live ts"
    then obtain t where t: "t \<in> set ts" "normalise_term t = Some u" "set u \<subseteq> set t" using live_member by blast
    then have "good_term u" using normalise_term_Some g by blast
    moreover have "\<forall>(k, s) \<in> set t. good_key k \<and> built s" using t(1) assms(1) by (simp add: built_term_def)
    ultimately show ?thesis using t(3) unfolding built_term_def good_term_def by blast
  qed (simp add: built_term_def)
qed

definition from_built_terms :: "admitted_set \<Rightarrow> bool" where
  "from_built_terms a \<longleftrightarrow> (\<forall>t \<in> set (admitted_terms a). built_term t)"

lemma from_built_terms_new: "\<forall>t \<in> set ts. built_term t \<Longrightarrow> from_built_terms (new_admitted_set ts)"
  using new_set_built_terms by (simp add: from_built_terms_def)

lemma from_built_terms_Everything: "from_built_terms Everything"
  by (simp add: from_built_terms_def Everything_def built_term_def)

lemma cases_from_terms: "c \<in> set Cases \<Longrightarrow> from_built_terms (case_expected c)"
  by (auto simp: Cases_def one_case_def built_term_def good_key_def built.intros(1,2) from_built_terms_Everything
      intro!: from_built_terms_new)

lemma cases_terms: "c \<in> set Cases \<Longrightarrow> t \<in> set (admitted_terms (case_expected c)) \<Longrightarrow> built_term t"
  using cases_from_terms by (simp add: from_built_terms_def)

lemma conformant_built:
  assumes "c \<in> set Cases"
  shows "built_set (grant_admits (conformant c p))"
proof -
  have b: "built_term (put k v t)" if "built_term t" "good_key k" "built v" for k v t
    using that keys_put [of k v t] set_put_subset [of k v t] good_put [of t k v] built_term_good [of t] built_wf [of v]
    by (auto simp: built_term_def good_term_def)
  have "\<forall>t \<in> set (admitted_terms (case_expected c)). built_term t"
    using assms cases_terms by (auto simp: list_all_iff)
  moreover have "built (Unknown x)" "built (Exact x)" for x by (rule built.intros)+
  moreover have "good_key (case_unknown_on c)" using cases_sound [OF assms] by (simp add: sound_case_def)
  ultimately show ?thesis
    unfolding conformant_def Let_def using b aud_good
    by (auto intro!: built_set.intros(1) built_set.intros(6))
qed

section \<open>Properties\<close>

text \<open>
  The table of cases is right about itself: on every case the expected set admits each of the
  tokens the case says it does, and rejects each of those it says it does not.
\<close>

theorem cases_admit_their_witnesses:
  "list_all (\<lambda>c. list_all (admits (case_expected c)) (case_witnesses c)
     \<and> list_all (\<lambda>t. \<not> admits (case_expected c) t) (case_counters c)) Cases"
  by (rule cases_self_check)

lemma concat_if_Nil: "concat (map (\<lambda>x. if P x then [f x] else []) xs) = [] \<longleftrightarrow> (\<forall>x \<in> set xs. \<not> P x)"
  by (induction xs) auto

lemma check_clean:
  assumes "check_cases cs p parse documents = []"
  shows "c \<in> set cs \<Longrightarrow> case_check c p parse documents = []"
    and "name \<in> set (map fst documents) \<Longrightarrow> name \<in> set (map case_name cs)"
  using assms unfolding check_cases_def append_is_Nil_conv concat_if_Nil set_sort_func by blast+

lemma case_check_clean:
  assumes "case_check c p parse documents = []" "map_of (case_inexpressible c) p = None"
  obtains doc g where "map_of documents (case_name c) = Some doc" "parse doc = Inr [g]" "judge c p g = []"
proof (cases "map_of documents (case_name c)")
  case None
  then show thesis using assms by (simp add: case_check_def)
next
  case (Some doc)
  show thesis
  proof (cases "parse doc")
    case (Inl err)
    then show thesis using assms Some by (simp add: case_check_def)
  next
    case (Inr grants)
    show thesis
    proof (cases "\<exists>g. grants = [g]")
      case True
      then obtain g where "grants = [g]" by blast
      then show thesis using that [of doc g] assms Some Inr by (simp add: case_check_def)
    next
      case False
      then have "case_check c p parse documents \<noteq> []"
        using assms(2) Some Inr by (cases grants rule: remdups_adj.cases) (simp_all add: case_check_def)
      then show thesis using assms(1) by blast
    qed
  qed
qed

text \<open>
  C29: A provider's parser that Check passes is held to the expectation: for each of the seven
  cases the provider can express there is a document, the parser reads it as one grant, that
  grant has the case's issuer and effect, it admits exactly the tokens the conformant grant does,
  neither narrower nor wider, and it is exact unless the case declares the widening; and no
  document went unexamined. The parser is taken to build its sets through package eval, from terms
  over claim names without an equals sign, so that no two of its terms render alike.
\<close>

theorem checked_parser_conforms:
  assumes "check_provider p parse documents = []"
    and "\<forall>doc g. parse doc = Inr [g] \<longrightarrow> built_set (grant_admits g)"
  shows "(\<forall>c \<in> set Cases. map_of (case_inexpressible c) p = None \<longrightarrow>
      (\<exists>doc g. map_of documents (case_name c) = Some doc \<and> parse doc = Inr [g]
        \<and> grant_issuer g = case_issuer c \<and> grant_effect g = case_effect c
        \<and> (\<forall>token. admits (grant_admits g) token \<longleftrightarrow> admits (grant_admits (conformant c p)) token)
        \<and> (case_relation c p = Equal \<longrightarrow> grant_exact g)))
    \<and> set (map fst documents) \<subseteq> set (map case_name Cases)"
proof
  note check = check_clean [OF assms(1) [unfolded check_provider_def]]
  show "\<forall>c \<in> set Cases. map_of (case_inexpressible c) p = None \<longrightarrow>
      (\<exists>doc g. map_of documents (case_name c) = Some doc \<and> parse doc = Inr [g]
        \<and> grant_issuer g = case_issuer c \<and> grant_effect g = case_effect c
        \<and> (\<forall>token. admits (grant_admits g) token \<longleftrightarrow> admits (grant_admits (conformant c p)) token)
        \<and> (case_relation c p = Equal \<longrightarrow> grant_exact g))"
  proof (intro ballI impI)
    fix c assume c: "c \<in> set Cases" "map_of (case_inexpressible c) p = None"
    obtain doc g where g: "map_of documents (case_name c) = Some doc" "parse doc = Inr [g]" "judge c p g = []"
      by (rule case_check_clean [OF check(1) [OF c(1)] c(2)])
    have "canonical_set (grant_admits g)" using assms(2) g(2) built_canonical by blast
    then have "admits (grant_admits g) token \<longleftrightarrow> admits (grant_admits (conformant c p)) token" for token
      by (rule judged_admits [OF cases_sound [OF c(1)] _ g(3)])
    moreover have "grant_issuer g = case_issuer c" "grant_effect g = case_effect c" "case_relation c p = Equal \<longrightarrow> grant_exact g"
      using g(3) by (auto simp: judge_Nil)
    ultimately show "\<exists>doc g. map_of documents (case_name c) = Some doc \<and> parse doc = Inr [g]
        \<and> grant_issuer g = case_issuer c \<and> grant_effect g = case_effect c
        \<and> (\<forall>token. admits (grant_admits g) token \<longleftrightarrow> admits (grant_admits (conformant c p)) token)
        \<and> (case_relation c p = Equal \<longrightarrow> grant_exact g)"
      using g(1,2) by blast
  qed
  show "set (map fst documents) \<subseteq> set (map case_name Cases)" using check(2) by blast
qed


theorem checked_parser_conforms_witness:
  "\<exists>doc g. map_of (ideal_documents AWS) ''01-one-repo-one-branch'' = Some doc \<and> ideal_parser AWS doc = Inr [g]
    \<and> grant_issuer g = github \<and> grant_exact g"
proof -
  have built: "\<forall>doc g. ideal_parser AWS doc = Inr [g] \<longrightarrow> built_set (grant_admits g)"
    using conformant_built find_Some_iff [of "\<lambda>c. case_name c = _" Cases]
    by (auto simp: ideal_parser_def split: option.splits)
  have c: "hd Cases \<in> set Cases" "map_of (case_inexpressible (hd Cases)) AWS = None" "case_relation (hd Cases) AWS = Equal"
    "case_name (hd Cases) = ''01-one-repo-one-branch''" "case_issuer (hd Cases) = github"
    by (simp_all add: Cases_def one_case_def case_relation_def AWS_def)
  then show ?thesis using checked_parser_conforms [OF ideal_passes built] by metis
qed

end
