(* ===== verification/Casefold.thy ===== *)
theory Casefold imports Trust_Grant begin

text \<open>
  Package parse/casefold: what a name may be when it is compared regardless of case. The two
  generated tables are data the functions look runes up in, so they are a record passed to every
  function, and what is proved holds for any tables; a binary search in a sorted table is
  membership, or the lookup of a row.
\<close>

record fold_tables =
  fold_variants :: "rune list"
  fold_wide :: "(rune \<times> string) list"

definition has_variants :: "fold_tables \<Rightarrow> rune \<Rightarrow> bool" where
  "has_variants T r \<longleftrightarrow> r \<in> set (fold_variants T)"

text \<open>Wide: one rune's spelling, then the whole string's.\<close>

definition wide_rune :: "fold_tables \<Rightarrow> string \<Rightarrow> rune \<Rightarrow> nat \<Rightarrow> string" where
  "wide_rune T s r n =
     (if r = rune_error \<and> n = 1 then [hd s]
      else case map_of (fold_wide T) r of Some text \<Rightarrow> text | None \<Rightarrow> encode_rune r)"

function wide :: "fold_tables \<Rightarrow> string \<Rightarrow> string" where
  "wide T s =
     (if s = [] then []
      else (let (r, n) = decode_rune s in wide_rune T s r n @ wide T (drop n s)))"
  by pat_completeness auto
termination
proof (relation "measure (length \<circ> snd)")
  fix T :: fold_tables and s :: string and x r n
  assume "s \<noteq> []" "x = decode_rune s" "(r, n) = x"
  then have "1 \<le> n" using decode_width [of s r n] by simp
  then show "((T, drop n s), T, s) \<in> measure (length \<circ> snd)" using \<open>s \<noteq> []\<close> by simp
qed simp

declare wide.simps [simp del]

definition into_ascii :: "fold_tables \<Rightarrow> rune \<Rightarrow> bool" where
  "into_ascii T r =
     (if r < 128 then False
      else case map_of (fold_wide T) r of
        None \<Rightarrow> False
      | Some text \<Rightarrow> text \<noteq> [] \<and> list_all (\<lambda>c. byte c < 128) text)"

lemma wide_Nil [simp]: "wide T [] = []"
  by (simp add: wide.simps)

lemma wide_step: "s \<noteq> [] \<Longrightarrow> decode_rune s = (r, n) \<Longrightarrow> wide T s = wide_rune T s r n @ wide T (drop n s)"
  by (subst wide.simps) simp

text \<open>A rune no row lists is spelled by its own bytes, and so is a byte that is not UTF-8.\<close>

lemma wide_rune_same:
  assumes "s \<noteq> []" "decode_rune s = (r, n)" "map_of (fold_wide T) r = None"
  shows "wide_rune T s r n = take n s"
proof (cases "r = rune_error \<and> n = 1")
  case True
  then show ?thesis using assms(1) by (cases s) (auto simp: wide_rune_def)
next
  case False
  then have "encode_rune r = take n s" using encode_decode [OF assms(2,1)] by blast
  then show ?thesis using False assms(3) by (auto simp: wide_rune_def)
qed

lemma wide_same: "\<forall>r \<in> set (runes s). map_of (fold_wide T) r = None \<Longrightarrow> wide T s = s"
proof (induction s rule: runes.induct)
  case (1 s)
  show ?case
  proof (cases "s = []")
    case False
    obtain r n where d: "decode_rune s = (r, n)" by fastforce
    have r: "map_of (fold_wide T) r = None" and rest: "\<forall>r \<in> set (runes (drop n s)). map_of (fold_wide T) r = None"
      using "1.prems" runes_step [OF False] d by auto
    have "wide T (drop n s) = drop n s" using "1.IH" [OF False] d rest by simp
    then show ?thesis using wide_step [OF False d] wide_rune_same [OF False d r] by simp
  qed simp
qed

lemma wide_append_ascii:
  assumes "byte c < 128"
  shows "wide T (s @ c # t) = wide T s @ wide_rune T [c] (byte c) 1 @ wide T t"
proof (induction s rule: runes.induct)
  case (1 s)
  have c: "wide T (c # t) = wide_rune T [c] (byte c) 1 @ wide T t"
    using wide_step [of "c # t" "byte c" 1] decode_ascii [OF assms] by (simp add: wide_rune_def)
  show ?case
  proof (cases "s = []")
    case False
    obtain r n where d: "decode_rune s = (r, n)" by fastforce
    have d': "decode_rune (s @ c # t) = (r, n)" using decode_stop [OF False assms] d by simp
    have n: "n \<le> length s" using decode_width [OF False d] by simp
    have h: "wide_rune T (s @ c # t) r n = wide_rune T s r n" using False by (simp add: wide_rune_def)
    have "wide T (drop n s @ c # t) = wide T (drop n s) @ wide_rune T [c] (byte c) 1 @ wide T t"
      using "1.IH" [OF False] d by simp
    then show ?thesis
      using wide_step [OF _ d', of T] wide_step [OF False d, of T] n h by simp
  qed (simp add: c)
qed

end
