(* ===== verification/Aws_Keys.thy ===== *)
theory Aws_Keys imports Casefold begin

text \<open>
  Package parse/aws, what the other packages ask of it: identifiers (principal.go), condition
  keys, operator names, policy variables and the two folds over values and caveats
  (condition.go), the tenants of the pseudo-issuer (tenancy.go) and the table of intermediaries
  (intermediary.go). The sentences a caveat is recognised by are built as the code builds them.
\<close>

section \<open>Issuers and identifiers\<close>

definition AWSPrincipalIssuer :: string where "AWSPrincipalIssuer = ''aws:sts''"
definition ServiceIssuerPrefix :: string where "ServiceIssuerPrefix = ''aws:service:''"

text \<open>fold lower-cases ASCII letters, as trust's lowerASCII does.\<close>

definition fold_ascii :: "string \<Rightarrow> string" where
  "fold_ascii s = strings_map lower_rune s"

definition folds_beyond_ascii :: "fold_tables \<Rightarrow> string \<Rightarrow> bool" where
  "folds_beyond_ascii T s = contains_func (\<lambda>r. 128 \<le> r \<and> has_variants T r) s"

text \<open>variableReference: the first variable a text holds, or the opening of one left open.\<close>

definition variable_open :: string where "variable_open = ''${''"

definition variable_reference :: "string \<Rightarrow> string option" where
  "variable_reference text =
     (case index_of text variable_open of
        None \<Rightarrow> None
      | Some i \<Rightarrow> (let rest = drop i text in
          case index_of rest ''}'' of Some j \<Rightarrow> Some (take (j + 1) rest) | None \<Rightarrow> Some variable_open))"

definition is_account_id :: "string \<Rightarrow> bool" where
  "is_account_id text =
     (if length text \<noteq> 12 then False else list_all (\<lambda>r. \<not> (r < 48 \<or> 57 < r)) (runes text))"

definition arn_fields :: "string \<Rightarrow> string list option" where
  "arn_fields text =
     (let fs = split_n 6 (CHR '':'') text in
      if length fs \<noteq> 6 \<or> fs ! 0 \<noteq> ''arn'' then None else Some fs)"

definition is_saml_issuer :: "string \<Rightarrow> bool" where
  "is_saml_issuer issuer =
     (case arn_fields issuer of
        None \<Rightarrow> False
      | Some fs \<Rightarrow> fs ! 2 = ''iam'' \<and> has_prefix (fs ! 5) ''saml-provider/'')"

definition names_a_host :: "string \<Rightarrow> bool" where
  "names_a_host text \<longleftrightarrow> text \<noteq> [] \<and> \<not> contains_any text [CHR ''*'', CHR '' '', CHR 0x09, CHR 0x0A, CHR 0x0D]"

definition folds_into_ascii :: "fold_tables \<Rightarrow> string \<Rightarrow> bool" where
  "folds_into_ascii T identifier =
     (case cut identifier ''://'' of (_, rest, found) \<Rightarrow>
        case cut (if found then rest else identifier) ''/'' of (host, _, _) \<Rightarrow>
          contains_func (into_ascii T) host)"

definition provider_issuer :: "fold_tables \<Rightarrow> string \<Rightarrow> string option" where
  "provider_issuer T identifier =
     (if \<not> names_a_host identifier \<or> folds_into_ascii T identifier then None
      else normalise_issuer identifier)"

text \<open>Who a grant with no issuer admits; the first constructor is the zero value.\<close>

datatype aws_population = EveryIssuer | AWSServices | AccountSAMLProviders | AWSServicesAndAccountSAMLProviders

section \<open>Condition keys\<close>

definition ExternalIDClaim :: claim_key where "ExternalIDClaim = ''sts:externalid''"

definition is_service_key :: "claim_key \<Rightarrow> bool" where
  "is_service_key key =
     (case cut key '':'' of (before, _, has_colon) \<Rightarrow> has_colon \<and> CHR ''.'' \<notin> set before)"

definition may_name :: "fold_tables \<Rightarrow> claim_key \<Rightarrow> string \<Rightarrow> claim_key \<Rightarrow> bool" where
  "may_name T k issuer claim =
     (if variable_reference k \<noteq> None then True
      else (let canon = (if folds_beyond_ascii T k then wide T else fold_ascii);
                wanted = canon claim in
        if canon k = wanted then True
        else (let provider = canon (trim_suffix (trim_prefix issuer https) ''/'') in
          list_ex (\<lambda>i. k ! i = CHR '':'' \<and> canon (trim_suffix (take i k) ''/'') = provider \<and>
            canon (drop (i + 1) k) = wanted) [0..<length k])))"

section \<open>Operators and the sentences about them\<close>

record operator =
  operator_recognised :: bool
  operator_set_prefix :: string
  operator_base :: string
  operator_if_exists :: bool
  operator_negated :: bool

definition documentedOperators :: "string list" where
  "documentedOperators =
     [''StringEquals'', ''StringNotEquals'', ''StringEqualsIgnoreCase'', ''StringNotEqualsIgnoreCase'', ''StringLike'', ''StringNotLike'',
      ''NumericEquals'', ''NumericNotEquals'', ''NumericLessThan'', ''NumericLessThanEquals'', ''NumericGreaterThan'', ''NumericGreaterThanEquals'',
      ''DateEquals'', ''DateNotEquals'', ''DateLessThan'', ''DateLessThanEquals'', ''DateGreaterThan'', ''DateGreaterThanEquals'',
      ''Bool'', ''BinaryEquals'', ''IpAddress'', ''NotIpAddress'',
      ''ArnEquals'', ''ArnLike'', ''ArnNotEquals'', ''ArnNotLike'',
      ''Null'']"

text \<open>The loop over the two set prefixes stops at the first the text begins with.\<close>

definition parse_operator :: "string \<Rightarrow> operator" where
  "parse_operator text =
     (let (set_prefix, text) =
            (if has_prefix text ''ForAllValues:'' then (''ForAllValues'', trim_prefix text ''ForAllValues:'')
             else if has_prefix text ''ForAnyValue:'' then (''ForAnyValue'', trim_prefix text ''ForAnyValue:'')
             else ([], text));
          (if_exists, text) =
            (if has_suffix text ''IfExists'' then (True, trim_suffix text ''IfExists'') else (False, text));
          recognised = (text \<in> set documentedOperators \<and> \<not> (if_exists \<and> text = ''Null'')) in
      \<lparr>operator_recognised = recognised, operator_set_prefix = set_prefix, operator_base = text,
       operator_if_exists = if_exists, operator_negated = (recognised \<and> index_of text ''Not'' \<noteq> None)\<rparr>)"

definition spell_operator :: "string \<Rightarrow> string" where
  "spell_operator text = (if operator_recognised (parse_operator text) then text else quote_to_ascii text)"

definition spell_claim :: "claim_key \<Rightarrow> string" where
  "spell_claim claim =
     (if list_ex (\<lambda>r. r \<le> 32 \<or> 126 < r) (runes claim) then quote_to_ascii claim else claim)"

definition presence_sentence :: "string \<Rightarrow> claim_key \<Rightarrow> string" where
  "presence_sentence oper claim =
     spell_operator oper @ '' on '' @ spell_claim claim @
     '' matches every value but only when the claim is present, which this parser cannot express, so the claim is not constrained''"

definition vacuous_sentence :: "string \<Rightarrow> string" where
  "vacuous_sentence on =
     on @ '' passes when the claim is absent, so it does not restrict what it looks like it restricts''"

definition complement_sentence :: "string \<Rightarrow> string" where
  "complement_sentence on =
     on @ '' admits every value but the ones listed and passes when the claim is absent; this parser does not model complements, so the claim is not constrained''"

definition null_sentence :: "string \<Rightarrow> string \<Rightarrow> string" where
  "null_sentence on polarity =
     (if polarity = ''true''
      then on @ '' is '' @ [dquote] @ ''true'' @ [dquote] @
        '': the claim must be absent, which this parser cannot express, so the claim is not constrained''
      else on @ '' is '' @ [dquote] @ ''false'' @ [dquote] @
        '': the claim must be present, which this parser cannot express, so the claim is not constrained'')"

definition asks_no_particular_value :: "caveat \<Rightarrow> bool" where
  "asks_no_particular_value c =
     (let claim = caveat_claim c; why = caveat_reason c in
      case cut why ('' on '' @ spell_claim claim @ '' '') of (text, _, found) \<Rightarrow>
        (let oper = parse_operator text; base = operator_base oper; on = text @ '' on '' @ spell_claim claim in
         if \<not> found \<or> \<not> operator_recognised oper then False
         else if operator_set_prefix oper = ''ForAllValues'' \<or> operator_if_exists oper then why = vacuous_sentence on
         else if operator_set_prefix oper \<noteq> [] then False
         else if base = ''StringLike'' then why = presence_sentence text claim
         else if base = ''Null'' then why = null_sentence on ''true'' \<or> why = null_sentence on ''false''
         else if base \<in> {''StringNotEquals'', ''StringNotLike'', ''StringNotEqualsIgnoreCase''} then why = complement_sentence on
         else False))"

section \<open>Policy variables in values\<close>

datatype variable_mode = variablesLiteral | variablesResolved | variablesUncertain

record variable_problem =
  problem_construct :: string
  problem_message :: string

text \<open>
  The loop of resolveVariables: Inl the problem, Inr the literal. What is written before the next
  variable is gathered in acc.
\<close>

function resolve_from :: "bool \<Rightarrow> string \<Rightarrow> string \<Rightarrow> variable_problem + string" where
  "resolve_from like acc rest =
     (case index_of rest variable_open of
        None \<Rightarrow> Inr (acc @ rest)
      | Some i \<Rightarrow>
        (case index_of (drop i rest) ''}'' of
           None \<Rightarrow> Inl \<lparr>problem_construct = variable_open,
             problem_message = ''holds an unterminated '' @ [dquote] @ variable_open @ [dquote] @
               '', which this parser cannot read, so the claim is not constrained''\<rparr>
         | Some j \<Rightarrow>
           (let reference = take (j + 1) (drop i rest); after = drop (j + 1) (drop i rest); acc = acc @ take i rest in
            if reference = ''${*}'' \<or> reference = ''${?}'' then
              (if like then Inl \<lparr>problem_construct = reference,
                 problem_message = ''holds the escaped wildcard '' @ reference @
                   '' under StringLike, which this parser cannot express, so the claim is not constrained''\<rparr>
               else resolve_from like (acc @ [reference ! 2]) after)
            else if reference = ''${$}'' then resolve_from like (acc @ ''$'') after
            else Inl \<lparr>problem_construct = reference,
              problem_message = ''holds the policy variable '' @ reference @
                '', which is resolved per request, so the claim is not constrained''\<rparr>)))"
  by pat_completeness auto
termination
proof (relation "measure (\<lambda>(like, acc, rest). length rest)", goal_cases)
  case (2 like acc rest i j)
  then show ?case using index_of_Some [of rest variable_open i] by (auto simp: variable_open_def)
next
  case (3 like acc rest i j)
  then show ?case using index_of_Some [of rest variable_open i] by (auto simp: variable_open_def)
qed simp

declare resolve_from.simps [simp del]

definition resolve_variables :: "string \<Rightarrow> variable_mode \<Rightarrow> bool \<Rightarrow> variable_problem + string" where
  "resolve_variables text variables like =
     (if index_of text variable_open = None then Inr text
      else case variables of
        variablesLiteral \<Rightarrow> Inr text
      | variablesUncertain \<Rightarrow> Inl \<lparr>problem_construct = variable_open,
          problem_message = ''holds '' @ [dquote] @ variable_open @ [dquote] @
            '', and whether this document's Version reads it as a policy variable is not known, so the claim is not constrained''\<rparr>
      | variablesResolved \<Rightarrow> resolve_from like [] text)"

section \<open>Escapes\<close>

text \<open>A value written so that the 2012 language reads it back: the dollar sign, and outside a pattern the two wildcards, by their escapes.\<close>

definition escape_char :: "bool \<Rightarrow> char \<Rightarrow> string" where
  "escape_char like c =
     (if c = CHR ''$'' \<or> \<not> like \<and> (c = CHR ''*'' \<or> c = CHR ''?'') then ''${'' @ [c] @ ''}'' else [c])"

definition escape_value :: "bool \<Rightarrow> string \<Rightarrow> string" where
  "escape_value like v = concat (map (escape_char like) v)"

lemma resolve_from_plain:
  assumes "c \<noteq> CHR ''$''"
  shows "resolve_from like acc (c # r) = resolve_from like (acc @ [c]) r"
proof -
  have i: "index_of (c # r) variable_open = map_option Suc (index_of r variable_open)"
    using assms by (simp add: index_of.simps [of "c # r"] variable_open_def)
  show ?thesis
    by (subst (1 2) resolve_from.simps) (simp add: i Let_def split: option.split)
qed

lemma resolve_from_escape:
  assumes "c = CHR ''$'' \<or> \<not> like \<and> (c = CHR ''*'' \<or> c = CHR ''?'')"
  shows "resolve_from like acc (''${'' @ [c] @ ''}'' @ r) = resolve_from like (acc @ [c]) r"
proof -
  let ?e = "CHR ''$'' # CHR ''{'' # c # CHR ''}'' # r"
  have o: "index_of ?e variable_open = Some 0" by (simp add: index_of.simps variable_open_def)
  have j: "index_of ?e ''}'' = Some 3" using assms by (auto simp: index_of.simps)
  have "resolve_from like acc ?e = resolve_from like (acc @ [c]) r"
    using assms by (subst resolve_from.simps) (auto simp: o j Let_def)
  then show ?thesis by simp
qed

lemma resolve_escaped: "resolve_from like acc (escape_value like v) = Inr (acc @ v)"
proof (induction v arbitrary: acc)
  case Nil
  then show ?case by (simp add: escape_value_def resolve_from.simps index_of.simps variable_open_def)
next
  case (Cons c v)
  have e: "escape_value like (c # v) = escape_char like c @ escape_value like v" by (simp add: escape_value_def)
  have "resolve_from like acc (escape_char like c @ escape_value like v) = resolve_from like (acc @ [c]) (escape_value like v)"
  proof (cases "c = CHR ''$'' \<or> \<not> like \<and> (c = CHR ''*'' \<or> c = CHR ''?'')")
    case True
    then show ?thesis using resolve_from_escape [OF True, of acc "escape_value like v"] by (simp add: escape_char_def)
  next
    case False
    then show ?thesis using resolve_from_plain [of c] by (auto simp: escape_char_def)
  qed
  then show ?case unfolding e by (simp add: Cons)
qed

lemma resolve_variables_resolved: "resolve_variables text variablesResolved like = resolve_from like [] text"
  by (simp add: resolve_variables_def resolve_from.simps)

section \<open>Properties\<close>

text \<open>
  Every value can be written under the 2012 language and is read back as itself: the dollar sign
  by its escape, and under StringEquals the two wildcards by theirs. Where the document's Version
  reads no variables the text is the literal, escapes included.
\<close>

theorem escaped_values_read_back:
  "resolve_variables (escape_value like v) variablesResolved like = Inr v
    \<and> resolve_variables text variablesLiteral like = Inr text"
  by (simp add: resolve_variables_resolved resolve_escaped) (simp add: resolve_variables_def)

end
