(* ===== verification/Aws_Json.thy ===== *)
theory Aws_Json imports Aws_Keys begin

text \<open>
  Package parse/aws, the document as the decoder hands it over: a JSON value and its place in the
  source (json.go), and what the rest of the parser does with any value: grouping an object's
  members by name, reading a string or a list of strings, and quoting a value in a sentence
  (policy.go). Members stay in document order, duplicates included.
\<close>

section \<open>Values\<close>

datatype kind = kindNull | kindBool | kindNumber | kindString | kindArray | kindObject

fun kind_string :: "kind \<Rightarrow> string" where
  "kind_string kindNull = ''null''"
| "kind_string kindBool = ''a boolean''"
| "kind_string kindNumber = ''a number''"
| "kind_string kindString = ''a string''"
| "kind_string kindArray = ''a list''"
| "kind_string kindObject = ''an object''"

datatype json_value = Value (value_kind: kind) (value_text: string) (value_boolean: bool)
    (value_members: "json_member list") (value_items: "json_value list")
    (value_source: string) (value_start: nat) (value_end: nat)
  and json_member = Member (member_name: string) (member_value: json_value) (member_start: nat)

definition value_bytes :: "json_value \<Rightarrow> string" where
  "value_bytes v = take (value_end v - value_start v) (drop (value_start v) (value_source v))"

section \<open>Characters a document may hold\<close>

text \<open>The first byte that is not UTF-8, the length where there is none.\<close>

function first_invalid_from :: "nat \<Rightarrow> string \<Rightarrow> nat" where
  "first_invalid_from i raw =
     (if raw = [] then i
      else (let (r, size) = decode_rune raw in
        if r = rune_error \<and> size = 1 then i else first_invalid_from (i + size) (drop size raw)))"
  by pat_completeness auto
termination
proof (relation "measure (length \<circ> snd)")
  fix i :: nat and raw :: string and x r size
  assume "raw \<noteq> []" "x = decode_rune raw" "(r, size) = x"
  then have "1 \<le> size" using decode_width [of raw r size] by simp
  then show "((i + size, drop size raw), i, raw) \<in> measure (length \<circ> snd)" using \<open>raw \<noteq> []\<close> by simp
qed simp

definition first_invalid_utf8 :: "string \<Rightarrow> nat" where
  "first_invalid_utf8 raw = first_invalid_from 0 raw"

definition allowed_character :: "rune \<Rightarrow> bool" where
  "allowed_character r \<longleftrightarrow> r = 9 \<or> r = 10 \<or> r = 13 \<or> 32 \<le> r \<and> r \<le> 255"

text \<open>refusedCharacter, None for Go's false: the scan stops at the first byte that is not UTF-8.\<close>

function refused_from :: "nat \<Rightarrow> string \<Rightarrow> (rune \<times> nat) option" where
  "refused_from i raw =
     (if raw = [] then None
      else (let (r, size) = decode_rune raw in
        if r = rune_error \<and> size = 1 then None
        else if allowed_character r then refused_from (i + size) (drop size raw)
        else Some (r, i)))"
  by pat_completeness auto
termination
proof (relation "measure (length \<circ> snd)")
  fix i :: nat and raw :: string and x r size
  assume "raw \<noteq> []" "x = decode_rune raw" "(r, size) = x"
  then have "1 \<le> size" using decode_width [of raw r size] by simp
  then show "((i + size, drop size raw), i, raw) \<in> measure (length \<circ> snd)" using \<open>raw \<noteq> []\<close> by simp
qed simp

declare first_invalid_from.simps [simp del] refused_from.simps [simp del]

definition refused_character :: "string \<Rightarrow> (rune \<times> nat) option" where
  "refused_character raw = refused_from 0 raw"

section \<open>Groups of members\<close>

record member_group =
  group_name :: string
  group_spellings :: "string list"
  group_values :: "json_value list"

text \<open>One round of groupMembers: the member joins the group of its name, or opens one at the end.\<close>

fun group_member :: "string \<Rightarrow> json_member \<Rightarrow> member_group list \<Rightarrow> member_group list" where
  "group_member name m [] =
     [\<lparr>group_name = name, group_spellings = [member_name m], group_values = [member_value m]\<rparr>]"
| "group_member name m (g # gs) =
     (if group_name g = name
      then g\<lparr>group_spellings := group_spellings g @ [member_name m], group_values := group_values g @ [member_value m]\<rparr> # gs
      else g # group_member name m gs)"

definition group_members :: "json_value \<Rightarrow> (string \<Rightarrow> string) \<Rightarrow> member_group list" where
  "group_members v canonicalised = fold (\<lambda>m. group_member (canonicalised (member_name m)) m) (value_members v) []"

definition exact_name :: "string \<Rightarrow> string" where "exact_name name = name"

section \<open>Reading and quoting values\<close>

text \<open>leaves: the texts, the first value that is not a string, and whether it sat in a list.\<close>

definition leaves :: "json_value \<Rightarrow> string list \<times> json_value option \<times> bool" where
  "leaves v =
     (case value_kind v of
        kindString \<Rightarrow> ([value_text v], None, False)
      | kindArray \<Rightarrow>
        (case List.find (\<lambda>item. value_kind item \<noteq> kindString) (value_items v) of
           Some item \<Rightarrow> ([], Some item, True)
         | None \<Rightarrow> (map value_text (value_items v), None, False))
      | _ \<Rightarrow> ([], Some v, False))"

definition excerpt_runes :: nat where "excerpt_runes = 48"

text \<open>The loop of excerpt: the runes left, what is collapsed, whether a space is pending, the count.\<close>

fun excerpt_from :: "rune list \<Rightarrow> string \<Rightarrow> bool \<Rightarrow> nat \<Rightarrow> string" where
  "excerpt_from [] collapsed pending n = collapsed"
| "excerpt_from (r # rs) collapsed pending n =
     (if r = 32 \<or> r = 9 \<or> r = 10 \<or> r = 13 then excerpt_from rs collapsed True n
      else (let (collapsed, n) = (if pending then (collapsed @ '' '', n + 1) else (collapsed, n));
                collapsed = collapsed @ (if 32 \<le> r \<and> r \<le> 126 then [chr r] else escape_rune r) in
        if excerpt_runes < n + 1 then collapsed @ ''...'' else excerpt_from rs collapsed False (n + 1)))"

definition excerpt :: "string \<Rightarrow> string" where
  "excerpt raw = excerpt_from (runes raw) [] False 0"

definition describe :: "json_value \<Rightarrow> string" where
  "describe v = kind_string (value_kind v) @ '' ('' @ excerpt (value_bytes v) @ '')''"

section \<open>Lemmas\<close>

text \<open>What groupMembers gathers, in closed form: one group for each name, in order of first appearance.\<close>

fun keep_first :: "'a list \<Rightarrow> 'a list" where
  "keep_first [] = []"
| "keep_first (x # xs) = x # filter (\<lambda>y. y \<noteq> x) (keep_first xs)"

lemma set_keep_first [simp]: "set (keep_first xs) = set xs"
  by (induction xs) auto

lemma distinct_keep_first [simp]: "distinct (keep_first xs)"
  by (induction xs) auto

lemma keep_first_Nil [simp]: "keep_first xs = [] \<longleftrightarrow> xs = []"
  by (cases xs) auto

lemma keep_first_snoc: "keep_first (xs @ [x]) = (if x \<in> set xs then keep_first xs else keep_first xs @ [x])"
  by (induction xs) auto

lemma keep_first_distinct: "distinct xs \<Longrightarrow> keep_first xs = xs"
proof (induction xs)
  case (Cons x xs)
  then have "filter (\<lambda>y. y \<noteq> x) xs = xs" by (auto simp: filter_id_conv)
  then show ?case using Cons by simp
qed simp

definition the_group :: "(string \<Rightarrow> string) \<Rightarrow> json_member list \<Rightarrow> string \<Rightarrow> member_group" where
  "the_group c ms n =
     (let copies = filter (\<lambda>m. c (member_name m) = n) ms in
      \<lparr>group_name = n, group_spellings = map member_name copies, group_values = map member_value copies\<rparr>)"

lemma group_member_in:
  assumes "name \<in> set ns" "distinct ns" "name = c (member_name m)"
  shows "group_member name m (map (the_group c ms) ns) = map (the_group c (ms @ [m])) ns"
  using assms
proof (induction ns)
  case (Cons n ns)
  have same: "map (the_group c (ms @ [m])) ns = map (the_group c ms) ns" if "name \<notin> set ns"
    using that Cons.prems(3) by (auto simp: the_group_def Let_def)
  show ?case
  proof (cases "n = name")
    case True
    then show ?thesis using Cons.prems same by (auto simp: the_group_def Let_def)
  next
    case False
    then show ?thesis using Cons by (auto simp: the_group_def Let_def)
  qed
qed simp

lemma group_member_new:
  assumes "name \<notin> set ns" "name = c (member_name m)" "\<forall>m \<in> set ms. c (member_name m) \<noteq> name"
  shows "group_member name m (map (the_group c ms) ns) = map (the_group c (ms @ [m])) (ns @ [name])"
  using assms
proof (induction ns)
  case Nil
  then have "filter (\<lambda>x. c (member_name x) = c (member_name m)) ms = []" by (auto simp: filter_empty_conv)
  then show ?case using Nil by (auto simp: the_group_def Let_def)
next
  case (Cons n ns)
  then show ?case by (auto simp: the_group_def Let_def)
qed

lemma group_members_closed:
  "group_members v c = map (the_group c (value_members v)) (keep_first (map (\<lambda>m. c (member_name m)) (value_members v)))"
proof -
  have "fold (\<lambda>m. group_member (c (member_name m)) m) ms [] = map (the_group c ms) (keep_first (map (\<lambda>m. c (member_name m)) ms))" for ms
  proof (induction ms rule: rev_induct)
    case (snoc m ms)
    let ?ns = "keep_first (map (\<lambda>m. c (member_name m)) ms)"
    show ?case
    proof (cases "c (member_name m) \<in> set (map (\<lambda>m. c (member_name m)) ms)")
      case True
      then show ?thesis
        using snoc group_member_in [of "c (member_name m)" ?ns c m ms] by (simp add: keep_first_snoc)
    next
      case False
      then have "\<forall>x \<in> set ms. c (member_name x) \<noteq> c (member_name m)" by (simp add: image_iff) metis
      then show ?thesis
        using False snoc group_member_new [of "c (member_name m)" ?ns c m ms] by (auto simp: keep_first_snoc)
    qed
  qed simp
  then show ?thesis by (simp add: group_members_def)
qed

lemma group_values_nonempty: "g \<in> set (group_members v c) \<Longrightarrow> group_values g \<noteq> []"
  by (auto simp: group_members_closed the_group_def Let_def filter_empty_conv)

text \<open>An excerpt is printable ASCII and short, whatever the value's bytes are.\<close>

definition printable :: "char \<Rightarrow> bool" where
  "printable c \<longleftrightarrow> 32 \<le> byte c \<and> byte c \<le> 126"

lemma hexdigit_printable: "n < 16 \<Longrightarrow> printable (hexdigit n)"
  by (auto simp: hexdigit_def printable_def)

lemma hex_digits_printable: "list_all printable (hex_digits k v)" "length (hex_digits k v) = k"
  by (induction k) (simp_all add: hexdigit_printable)

lemma printable_letters [simp]:
  "printable (CHR '' '')" "printable (CHR ''.'')" "printable backslash" "printable (CHR ''a'')" "printable (CHR ''b'')"
  "printable (CHR ''f'')" "printable (CHR ''n'')" "printable (CHR ''r'')" "printable (CHR ''t'')" "printable (CHR ''v'')"
  "printable (CHR ''x'')" "printable (CHR ''u'')" "printable (CHR ''U'')"
  by (simp_all add: printable_def byte_def backslash_def)

lemma printable_chr [simp]: "32 \<le> r \<Longrightarrow> r \<le> 126 \<Longrightarrow> printable (chr r)"
  by (simp add: printable_def)

lemma escape_printable: "list_all printable (escape_rune r)"
  by (simp add: escape_rune_def hex_digits_printable)

lemma escape_length: "length (escape_rune r) \<le> 10"
  by (simp add: escape_rune_def hex_digits_printable)

lemma excerpt_from_printable:
  "list_all printable collapsed \<Longrightarrow> list_all printable (excerpt_from rs collapsed pending n)"
proof (induction rs collapsed pending n rule: excerpt_from.induct)
  case (2 r rs collapsed pending n)
  have "list_all printable (if 32 \<le> r \<and> r \<le> 126 then [chr r] else escape_rune r)" by (simp add: escape_printable)
  then show ?case using 2 by (cases pending) (simp_all add: Let_def)
qed simp

lemma excerpt_from_length:
  "n \<le> excerpt_runes \<Longrightarrow> length collapsed \<le> 10 * n \<Longrightarrow>
   length (excerpt_from rs collapsed pending n) \<le> 10 * (excerpt_runes + 2) + 3"
proof (induction rs collapsed pending n rule: excerpt_from.induct)
  case (2 r rs collapsed pending n)
  have "length (if 32 \<le> r \<and> r \<le> 126 then [chr r] else escape_rune r) \<le> 10" using escape_length by simp
  then show ?case using 2 by (cases pending) (simp_all add: Let_def)
qed simp

end
