(* ===== verification/Aws_Tenancy.thy ===== *)
theory Aws_Tenancy imports Aws_Json begin

text \<open>
  Package parse/aws, two tables of facts about AWS: which claims of the pseudo-issuer name a tenant
  and how a value or a literal prefix names one (tenancy.go), and the services AWS documents as
  assuming a role for identities outside IAM, with the sentences each row rests on
  (intermediary.go).
\<close>

section \<open>Tenants\<close>

definition orgClaim :: claim_key where "orgClaim = ''aws:principalorgid''"
definition arnClaim :: claim_key where "arnClaim = ''aws:principalarn''"
definition accountClaim :: claim_key where "accountClaim = ''aws:principalaccount''"

definition AccountScope :: string where "AccountScope = ''account''"
definition OrganisationScope :: string where "OrganisationScope = ''organisation''"

record tenant =
  tenant_scope :: string
  tenant_id :: string

definition tenancy_claims :: "claim_key list" where
  "tenancy_claims = [accountClaim, arnClaim, orgClaim]"

definition is_organisation_id :: "string \<Rightarrow> bool" where
  "is_organisation_id text =
     (case cut_prefix text ''o-'' of (ident, ok) \<Rightarrow>
        if \<not> ok \<or> length ident < 10 \<or> 32 < length ident then False
        else list_all (\<lambda>c. 97 \<le> c \<and> c \<le> 122 \<or> 48 \<le> c \<and> c \<le> 57) (runes ident))"

text \<open>None for Go's false.\<close>

definition tenant_of_prefix :: "claim_key \<Rightarrow> string \<Rightarrow> tenant option" where
  "tenant_of_prefix claim pre =
     (case arn_fields pre of
        None \<Rightarrow> None
      | Some fs \<Rightarrow>
        if claim \<noteq> arnClaim \<or> \<not> is_account_id (fs ! 4) then None
        else Some \<lparr>tenant_scope = AccountScope, tenant_id = fs ! 4\<rparr>)"

definition tenant_of_value :: "claim_key \<Rightarrow> string \<Rightarrow> tenant option" where
  "tenant_of_value claim v =
     (if claim = accountClaim \<and> is_account_id v then Some \<lparr>tenant_scope = AccountScope, tenant_id = v\<rparr>
      else if claim = orgClaim \<and> is_organisation_id v then Some \<lparr>tenant_scope = OrganisationScope, tenant_id = v\<rparr>
      else tenant_of_prefix claim v)"

section \<open>Intermediaries\<close>

record citation =
  citation_quote :: string
  citation_source :: string
  citation_read :: string

record intermediary =
  service_name :: string
  acts_for :: string
  acts_for_in_full :: string
  service_sentences :: "citation list"
  other_uses :: "citation list"

definition has_other_uses :: "intermediary \<Rightarrow> bool" where
  "has_other_uses i \<longleftrightarrow> 0 < length (other_uses i)"

definition citations :: "intermediary \<Rightarrow> citation list" where
  "citations i = service_sentences i @ other_uses i"

text \<open>The rows of the table, one definition each.\<close>

definition row_rolesanywhere :: intermediary where
  "row_rolesanywhere =
    \<lparr>service_name = ''rolesanywhere.amazonaws.com'', acts_for = ''workloads holding a certificate'',
     acts_for_in_full = ''workloads that hold a certificate a trust anchor in the account accepts, and pass them its session'',
     service_sentences =
      [\<lparr>citation_quote = ''To use IAM Roles Anywhere, your workloads must use X.509 certificates issued by your certificate authority (CA).'',
        citation_source = ''https://docs.aws.amazon.com/rolesanywhere/latest/userguide/introduction.html'',
        citation_read = ''2026-09-27''\<rparr>,
       \<lparr>citation_quote = ''Certificates issued by any trust anchor in the account can be used to assume any target role in that same account, unless you specify conditions in the role'' @ [CHR 0x27] @ ''s trust policy.'',
        citation_source = ''https://docs.aws.amazon.com/rolesanywhere/latest/userguide/introduction.html'',
        citation_read = ''2026-09-27''\<rparr>,
       \<lparr>citation_quote = ''Temporary credentials for IAM roles are issued to IAM Roles Anywhere clients via the API method CreateSession.'',
        citation_source = ''https://docs.aws.amazon.com/rolesanywhere/latest/userguide/trust-model.html'',
        citation_read = ''2026-09-27''\<rparr>,
       \<lparr>citation_quote = ''After validating the signature, IAM Roles Anywhere checks that the certificate was issued by a certificate authority configured as a trust anchor in the account using algorithms defined by public key infrastructure X.509 (PKIX) standards.'',
        citation_source = ''https://docs.aws.amazon.com/rolesanywhere/latest/userguide/trust-model.html'',
        citation_read = ''2026-09-27''\<rparr>],
     other_uses =
      []\<rparr>"

definition row_credentials_iot :: intermediary where
  "row_credentials_iot =
    \<lparr>service_name = ''credentials.iot.amazonaws.com'', acts_for = ''devices holding a certificate'',
     acts_for_in_full = ''devices that present an X.509 certificate AWS IoT accepts, and pass them its session'',
     service_sentences =
      [\<lparr>citation_quote = ''AWS IoT Core has a credentials provider that allows you to use the built-in X.509 certificate as the unique device identity to authenticate AWS requests.'',
        citation_source = ''https://docs.aws.amazon.com/iot/latest/developerguide/authorizing-direct-aws.html'',
        citation_read = ''2026-09-27''\<rparr>,
       \<lparr>citation_quote = ''Configure the IAM role that the credentials provider assumes on behalf of your device.'',
        citation_source = ''https://docs.aws.amazon.com/iot/latest/developerguide/authorizing-direct-aws.html'',
        citation_read = ''2026-09-27''\<rparr>,
       \<lparr>citation_quote = ''The requested service invokes IAM to validate the signature and authorize the request against access policies attached to the IAM role that you created for the credentials provider.'',
        citation_source = ''https://docs.aws.amazon.com/iot/latest/developerguide/authorizing-direct-aws.html'',
        citation_read = ''2026-09-27''\<rparr>],
     other_uses =
      []\<rparr>"

definition row_ssm :: intermediary where
  "row_ssm =
    \<lparr>service_name = ''ssm.amazonaws.com'', acts_for = ''hybrid-activated machines'',
     acts_for_in_full = ''machines registered by a hybrid activation, and pass them its session'',
     service_sentences =
      [\<lparr>citation_quote = ''Non-EC2 (Amazon Elastic Compute Cloud) machines in a hybrid and multicloud environment require an AWS Identity and Access Management (IAM) service role to communicate with the AWS Systems Manager service.'',
        citation_source = ''https://docs.aws.amazon.com/systems-manager/latest/userguide/hybrid-multicloud-service-role.html'',
        citation_read = ''2026-09-27''\<rparr>,
       \<lparr>citation_quote = ''On a non-EC2 machine, SSM Agent normally gets the needed permissions from the shared credentials file, located at /root/.aws/credentials (Linux and macOS) or %USERPROFILE%'' @ [CHR 0x5C] @ ''.aws'' @ [CHR 0x5C] @ ''credentials (Windows Server).'',
        citation_source = ''https://docs.aws.amazon.com/systems-manager/latest/userguide/ssm-agent-technical-details.html'',
        citation_read = ''2026-09-27''\<rparr>,
       \<lparr>citation_quote = ''The needed permissions are added to this file during the hybrid activation process.'',
        citation_source = ''https://docs.aws.amazon.com/systems-manager/latest/userguide/ssm-agent-technical-details.html'',
        citation_read = ''2026-09-27''\<rparr>,
       \<lparr>citation_quote = ''Systems Manager supports on-premises servers, edge devices, and virtual machines running in other cloud environments, including Microsoft Azure.'',
        citation_source = ''https://docs.aws.amazon.com/systems-manager/latest/userguide/systems-manager-hybrid-multicloud.html'',
        citation_read = ''2026-09-27''\<rparr>],
     other_uses =
      [\<lparr>citation_quote = ''When you register a task with a maintenance window, you specify a service role to run the actual task operations. This is the role that the service assumes when it runs tasks on your behalf.'',
        citation_source = ''https://docs.aws.amazon.com/systems-manager/latest/userguide/sysman-maintenance-perm-console.html'',
        citation_read = ''2026-09-27''\<rparr>,
       \<lparr>citation_quote = ''Using this role, or the Amazon Resource Name (ARN) of an AWS Identity and Access Management (IAM) role, in runbooks allows Automation to perform actions in your environment, such as launch new instances and perform actions on your behalf.'',
        citation_source = ''https://docs.aws.amazon.com/systems-manager/latest/userguide/automation-setup-iam.html'',
        citation_read = ''2026-09-27''\<rparr>]\<rparr>"

definition row_pods_eks :: intermediary where
  "row_pods_eks =
    \<lparr>service_name = ''pods.eks.amazonaws.com'', acts_for = ''pods of EKS clusters'',
     acts_for_in_full = ''the pods of an EKS cluster in the account whose service account is associated with it, and pass them its session'',
     service_sentences =
      [\<lparr>citation_quote = ''EKS Pod Identity uses AssumeRole to assume the IAM role before passing the temporary credentials to your pods.'',
        citation_source = ''https://docs.aws.amazon.com/eks/latest/userguide/pod-id-role.html'',
        citation_read = ''2026-09-27''\<rparr>,
       \<lparr>citation_quote = ''Each EKS Pod Identity association maps a role to a service account in a namespace in the specified cluster.'',
        citation_source = ''https://docs.aws.amazon.com/eks/latest/userguide/pod-identities.html'',
        citation_read = ''2026-09-27''\<rparr>,
       \<lparr>citation_quote = ''If you have the same application in multiple clusters, you can make identical associations in each cluster without modifying the trust policy of the role.'',
        citation_source = ''https://docs.aws.amazon.com/eks/latest/userguide/pod-identities.html'',
        citation_read = ''2026-09-27''\<rparr>,
       \<lparr>citation_quote = ''Each Kubernetes service account in a cluster can be associated with one IAM role from the same AWS account as the cluster.'',
        citation_source = ''https://docs.aws.amazon.com/eks/latest/userguide/pod-identities.html'',
        citation_read = ''2026-09-27''\<rparr>],
     other_uses =
      []\<rparr>"

definition row_transfer :: intermediary where
  "row_transfer =
    \<lparr>service_name = ''transfer.amazonaws.com'', acts_for = ''Transfer Family users'',
     acts_for_in_full = ''the users of a Transfer Family server, and act with its session for them'',
     service_sentences =
      [\<lparr>citation_quote = ''User role '' @ [CHR 0xE2] @ [CHR 0x80] @ [CHR 0x93] @ '' Allows service-managed users to access the necessary Transfer Family resources. AWS Transfer Family assumes this role in the context of a Transfer Family user ARN.'',
        citation_source = ''https://docs.aws.amazon.com/transfer/latest/userguide/requirements-roles.html'',
        citation_read = ''2026-09-27''\<rparr>,
       \<lparr>citation_quote = ''When your user sends an authentication request to your server by using a client, your server first confirms that the user has access to the associated SSH private key.'',
        citation_source = ''https://docs.aws.amazon.com/transfer/latest/userguide/create-user.html'',
        citation_read = ''2026-09-27''\<rparr>],
     other_uses =
      [\<lparr>citation_quote = ''Invocation role '' @ [CHR 0xE2] @ [CHR 0x80] @ [CHR 0x93] @ '' For use with Amazon API Gateway as the server'' @ [CHR 0x27] @ ''s custom identity provider. Transfer Family assumes this role in the context of a Transfer Family server ARN.'',
        citation_source = ''https://docs.aws.amazon.com/transfer/latest/userguide/requirements-roles.html'',
        citation_read = ''2026-09-27''\<rparr>,
       \<lparr>citation_quote = ''Logging role '' @ [CHR 0xE2] @ [CHR 0x80] @ [CHR 0x93] @ '' Used to log entries into Amazon CloudWatch. Transfer Family uses this role to log success and failure details along with information about file transfers. Transfer Family assumes this role in the context of a Transfer Family server ARN.'',
        citation_source = ''https://docs.aws.amazon.com/transfer/latest/userguide/requirements-roles.html'',
        citation_read = ''2026-09-27''\<rparr>,
       \<lparr>citation_quote = ''Execution role '' @ [CHR 0xE2] @ [CHR 0x80] @ [CHR 0x93] @ '' Allows a Transfer Family user to call and launch workflows. Transfer Family assumes this role in the context of a Transfer Family workflow ARN.'',
        citation_source = ''https://docs.aws.amazon.com/transfer/latest/userguide/requirements-roles.html'',
        citation_read = ''2026-09-27''\<rparr>]\<rparr>"

definition intermediaries :: "intermediary list" where
  "intermediaries = [row_rolesanywhere, row_credentials_iot, row_ssm, row_pods_eks, row_transfer]"

definition intermediary_of :: "string \<Rightarrow> intermediary option" where
  "intermediary_of service =
     (let service = fold_ascii service in List.find (\<lambda>i. service_name i = service) intermediaries)"

section \<open>Lemmas\<close>

text \<open>The pieces before the last are settled by a prefix that holds them all.\<close>

lemma index_of_append: "index_of s sub = Some i \<Longrightarrow> index_of (s @ x) sub = Some i"
proof (induction s arbitrary: i)
  case Nil
  then have "sub = []" by (auto simp: index_of.simps split: if_splits)
  then show ?case using Nil by (simp add: index_of.simps)
next
  case (Cons c s)
  show ?case
  proof (cases "prefix sub (c # s)")
    case True
    then have "prefix sub ((c # s) @ x)" by (rule prefix_prefix)
    then show ?thesis using Cons.prems True by (simp add: index_of.simps [of "c # s"] index_of.simps [of "c # s @ x"])
  next
    case False
    then obtain j where j: "index_of s sub = Some j" "i = Suc j"
      using Cons.prems by (auto simp: index_of.simps [of "c # s"] split: if_splits)
    have "length sub \<le> length s" using index_of_Some [OF j(1)] by auto
    then have "\<not> prefix sub (c # s @ x)" using False prefix_length_prefix [of sub "c # s @ x" "c # s"] by auto
    then show ?thesis using Cons.IH [OF j(1)] j(2) by (simp add: index_of.simps [of "c # s @ x"])
  qed
qed

lemma cut_append:
  assumes "cut s sep = (h, t, True)"
  shows "cut (s @ x) sep = (h, t @ x, True)"
proof -
  obtain i where i: "index_of s sep = Some i" "h = take i s" "t = drop (i + length sep) s"
    using assms by (auto simp: cut_def split: option.splits)
  have "i + length sep \<le> length s" using index_of_Some [OF i(1)] by auto
  then show ?thesis using index_of_append [OF i(1)] i(2,3) by (simp add: cut_def)
qed

lemma split_n_append:
  "length (split_n n c s) = n \<Longrightarrow> 0 < n \<Longrightarrow> length (split_n n c (s @ x)) = n \<and> butlast (split_n n c (s @ x)) = butlast (split_n n c s)
    \<and> last (split_n n c (s @ x)) = last (split_n n c s) @ x"
proof (induction n arbitrary: s)
  case (Suc n)
  show ?case
  proof (cases "n = 0")
    case True
    then show ?thesis by (simp add: split_n.simps)
  next
    case False
    obtain h t b where c: "cut s [c] = (h, t, b)" by (metis prod_cases3)
    have b: "b = True" "length (split_n n c t) = n"
      using Suc.prems(1) False c by (auto simp: split_n.simps [of "Suc n"] split: if_splits)
    have IH: "length (split_n n c (t @ x)) = n" "butlast (split_n n c (t @ x)) = butlast (split_n n c t)" "last (split_n n c (t @ x)) = last (split_n n c t) @ x"
      using Suc.IH [OF b(2)] False by auto
    have e: "split_n (Suc n) c (s @ x) = h # split_n n c (t @ x)" "split_n (Suc n) c s = h # split_n n c t"
      using cut_append [OF c [unfolded b(1)], of x] c b(1) False by (simp_all add: split_n.simps [of "Suc n"])
    have "split_n n c (t @ x) \<noteq> []" "split_n n c t \<noteq> []" using IH(1) b(2) False by auto
    then show ?thesis using IH e by simp
  qed
qed simp

lemma nth_of_butlast: "length xs = length ys \<Longrightarrow> butlast xs = butlast ys \<Longrightarrow> i < length xs - 1 \<Longrightarrow> xs ! i = ys ! i"
  by (metis length_butlast nth_butlast)

lemma arn_fields_append:
  assumes "arn_fields s = Some fs"
  obtains gs where "arn_fields (s @ x) = Some gs" "gs ! 4 = fs ! 4"
proof -
  let ?a = "split_n 6 (CHR '':'') s" and ?b = "split_n 6 (CHR '':'') (s @ x)"
  have a: "length ?a = 6" "?a ! 0 = ''arn''" "fs = ?a" using assms by (auto simp: arn_fields_def Let_def split: if_splits)
  note sp = split_n_append [of 6 "CHR '':''" s x, OF a(1)]
  have "length ?b = 6" "butlast ?b = butlast ?a" using sp by simp_all
  then have "?b ! i = ?a ! i" if "i < 5" for i using nth_of_butlast [of ?b ?a i] a(1) that by simp
  then have "?b ! 0 = ''arn''" "?b ! 4 = fs ! 4" using a by simp_all
  then show thesis using that \<open>length ?b = 6\<close> by (simp add: arn_fields_def Let_def)
qed

section \<open>Properties\<close>

text \<open>
  A prefix that settles a tenant settles it for every value that begins with it, and for every
  longer prefix, and only an account is settled so: a pattern's literal prefix never names an owner
  that a value the pattern admits does not belong to.
\<close>

theorem prefix_settles_the_tenant:
  assumes "tenant_of_prefix claim pre = Some t"
  shows "tenant_of_prefix claim (pre @ x) = Some t \<and> tenant_of_value claim (pre @ x) = Some t
    \<and> claim = arnClaim \<and> tenant_scope t = AccountScope \<and> is_account_id (tenant_id t)"
proof -
  obtain fs where fs: "arn_fields pre = Some fs" "claim = arnClaim" "is_account_id (fs ! 4)" "t = \<lparr>tenant_scope = AccountScope, tenant_id = fs ! 4\<rparr>"
    using assms by (auto simp: tenant_of_prefix_def split: option.splits if_splits)
  obtain gs where gs: "arn_fields (pre @ x) = Some gs" "gs ! 4 = fs ! 4" by (rule arn_fields_append [OF fs(1)])
  have p: "tenant_of_prefix claim (pre @ x) = Some t" using fs gs by (simp add: tenant_of_prefix_def)
  have "claim \<noteq> accountClaim" "claim \<noteq> orgClaim" using fs(2) by (simp_all add: arnClaim_def accountClaim_def orgClaim_def)
  then show ?thesis using p fs by (simp add: tenant_of_value_def)
qed

theorem prefix_settles_the_tenant_witness:
  "tenant_of_value arnClaim (''arn:aws:iam::111122223333:'' @ ''role/deploy'') = Some \<lparr>tenant_scope = AccountScope, tenant_id = ''111122223333''\<rparr>"
proof -
  have "tenant_of_prefix arnClaim ''arn:aws:iam::111122223333:'' = Some \<lparr>tenant_scope = AccountScope, tenant_id = ''111122223333''\<rparr>" by code_simp
  then show ?thesis using prefix_settles_the_tenant by blast
qed

end
