(* ===== verification/Aws_Actions.thy ===== *)
theory Aws_Actions imports Aws_Json begin

text \<open>
  Package parse/aws, what reading a statement records and its Action element (policy.go): the
  findings, which pair an anomaly with the caveat that declares it, and the action patterns with
  their widest readings. Code that records through a pointer to findings takes the findings here
  and returns them beside its result.
\<close>

section \<open>Kinds of anomaly\<close>

definition DuplicateKey :: string where "DuplicateKey = ''duplicate-key''"
definition Malformed :: string where "Malformed = ''malformed''"
definition AnyPrincipal :: string where "AnyPrincipal = ''any-principal''"
definition ServicePrincipal :: string where "ServicePrincipal = ''service-principal''"
definition NotAnAssumeAction :: string where "NotAnAssumeAction = ''not-an-assume-action''"
definition VariableIsLiteral :: string where "VariableIsLiteral = ''variable-is-literal''"
definition WildcardIsLiteral :: string where "WildcardIsLiteral = ''wildcard-is-literal''"

text \<open>An anomaly as its constructor spells it: kind, claim, construct, message, source.\<close>

definition an_anomaly :: "string \<Rightarrow> claim_key \<Rightarrow> string \<Rightarrow> string \<Rightarrow> string \<Rightarrow> anomaly" where
  "an_anomaly kind claim construct message src =
     \<lparr>anomaly_kind = kind, anomaly_claim = claim, anomaly_construct = construct, anomaly_message = message, anomaly_source = src\<rparr>"

section \<open>Findings\<close>

record findings =
  findings_anomalies :: "anomaly list"
  findings_widenings :: "caveat list"
  findings_doubts :: "caveat list"

definition no_findings :: findings where
  "no_findings = \<lparr>findings_anomalies = [], findings_widenings = [], findings_doubts = []\<rparr>"

definition widen :: "anomaly \<Rightarrow> findings \<Rightarrow> findings" where
  "widen a f = f\<lparr>findings_anomalies := findings_anomalies f @ [a],
     findings_widenings := findings_widenings f @
       [\<lparr>caveat_claim = [], caveat_reason = anomaly_message a, caveat_source = anomaly_source a\<rparr>]\<rparr>"

definition doubt :: "anomaly \<Rightarrow> findings \<Rightarrow> findings" where
  "doubt a f = f\<lparr>findings_anomalies := findings_anomalies f @ [a],
     findings_doubts := findings_doubts f @
       [\<lparr>caveat_claim = anomaly_claim a, caveat_reason = anomaly_message a, caveat_source = anomaly_source a\<rparr>]\<rparr>"

definition record_note :: "anomaly \<Rightarrow> findings \<Rightarrow> findings" where
  "record_note a f = f\<lparr>findings_anomalies := findings_anomalies f @ [a]\<rparr>"

definition findings_caveats :: "findings \<Rightarrow> caveat list" where
  "findings_caveats f = findings_widenings f @ findings_doubts f"

text \<open>duplicated: the anomaly for a statement member written more than once.\<close>

definition duplicated :: "member_group \<Rightarrow> string \<Rightarrow> string \<Rightarrow> anomaly" where
  "duplicated g consequence src =
     (let message = ''the member '' @ group_name g @ '' appears more than once in the statement'';
          message = (if consequence \<noteq> []
            then message @ ''; a JSON decoder keeps one and the deployed policy may carry either, so '' @ consequence
            else message) in
      an_anomaly DuplicateKey [] (group_name g) message src)"

section \<open>Actions a role is assumed through\<close>

definition assumeRole :: string where "assumeRole = ''sts:assumerole''"
definition assumeWithWebIdentity :: string where "assumeWithWebIdentity = ''sts:assumerolewithwebidentity''"
definition assumeWithSAML :: string where "assumeWithSAML = ''sts:assumerolewithsaml''"

text \<open>actionSpelling, a Go map: a text it does not hold is spelled as nothing.\<close>

definition action_spelling :: "string \<Rightarrow> string" where
  "action_spelling a =
     (if a = assumeRole then ''sts:AssumeRole''
      else if a = assumeWithWebIdentity then ''sts:AssumeRoleWithWebIdentity''
      else if a = assumeWithSAML then ''sts:AssumeRoleWithSAML'' else [])"

text \<open>spellActions. Every caller passes at least one action.\<close>

definition spell_actions :: "string list \<Rightarrow> string" where
  "spell_actions actions =
     (let spelled = map action_spelling actions in
      if length spelled = 1 then hd spelled
      else join_strings '', '' (butlast spelled) @ '' or '' @ last spelled)"

section \<open>The Action element\<close>

record wide_action =
  wide_text :: string
  wide_reading :: string_set

record action_set =
  actions_unknown :: bool
  action_patterns :: "string_set list"
  wide_actions :: "wide_action list"

definition unknown_actions :: action_set where
  "unknown_actions = \<lparr>actions_unknown = True, action_patterns = [], wide_actions = []\<rparr>"

definition covers :: "action_set \<Rightarrow> string list \<Rightarrow> bool" where
  "covers a actions = list_ex (\<lambda>pattern. list_ex (contains pattern) actions) (action_patterns a)"

definition may_grant :: "action_set \<Rightarrow> string \<Rightarrow> bool" where
  "may_grant a action =
     (if actions_unknown a \<or> covers a [action] then True
      else list_ex (\<lambda>w. contains (wide_reading w) action) (wide_actions a))"

text \<open>One wide action of foldingDoubts, then the loop.\<close>

definition folding_doubt :: "string list \<Rightarrow> string \<Rightarrow> wide_action \<Rightarrow> findings \<Rightarrow> findings" where
  "folding_doubt actions src w f =
     (let named = filter (contains (wide_reading w)) actions in
      if 0 < length named
      then doubt (an_anomaly Unmodelled [] ''Action''
        (''the action '' @ quote_to_ascii (wide_text w) @ '' holds a letter outside ASCII with case variants of its own; AWS documents no folding for it, so whether it names '' @ spell_actions named @ '' is not known'') src) f
      else f)"

definition folding_doubts :: "action_set \<Rightarrow> string list \<Rightarrow> string \<Rightarrow> findings" where
  "folding_doubts a actions src = fold (folding_doubt actions src) (wide_actions a) no_findings"

definition foldable_beyond_ascii :: "fold_tables \<Rightarrow> rune \<Rightarrow> bool" where
  "foldable_beyond_ascii T r \<longleftrightarrow> 128 \<le> r \<and> has_variants T r"

definition widest_reading :: "fold_tables \<Rightarrow> string \<Rightarrow> string_set" where
  "widest_reading T text =
     Glob (strings_map (\<lambda>r. Some (if foldable_beyond_ascii T r then byte (CHR ''*'') else r)) (fold_ascii text))"

definition unknown_actions_text :: string where
  "unknown_actions_text = ''which actions the statement grants is not known''"

definition read_actions :: "fold_tables \<Rightarrow> string list \<Rightarrow> action_set" where
  "read_actions T texts =
     \<lparr>actions_unknown = False, action_patterns = map (\<lambda>text. Glob (fold_ascii text)) texts,
      wide_actions = map (\<lambda>text. \<lparr>wide_text = text, wide_reading = widest_reading T text\<rparr>)
        (filter (folds_beyond_ascii T) texts)\<rparr>"

definition parse_actions :: "fold_tables \<Rightarrow> member_group option \<Rightarrow> member_group option \<Rightarrow> string \<Rightarrow> findings \<Rightarrow>
    action_set \<times> findings" where
  "parse_actions T action not_action src f =
     (case (action, not_action) of
        (Some _, Some _) \<Rightarrow>
          (unknown_actions, widen (an_anomaly DuplicateKey [] ''Action''
            (''the statement has both Action and NotAction; the IAM grammar allows one, so '' @ unknown_actions_text) src) f)
      | (None, Some g) \<Rightarrow>
          (unknown_actions, widen (an_anomaly Unmodelled [] ''NotAction''
            (''NotAction grants every action but the ones listed; this parser does not compute that complement, so '' @ unknown_actions_text)
            (src @ ''.Action''))
            (if 1 < length (group_values g) then widen (duplicated g unknown_actions_text src) f else f))
      | (None, None) \<Rightarrow>
          (unknown_actions, widen (an_anomaly Unmodelled [] ''Action''
            (''the statement has neither Action nor NotAction, so '' @ unknown_actions_text) (src @ ''.Action'')) f)
      | (Some g, None) \<Rightarrow>
          if 1 < length (group_values g) then (unknown_actions, widen (duplicated g unknown_actions_text src) f)
          else (case leaves (hd (group_values g)) of
              (texts, Some bad, True) \<Rightarrow>
                (unknown_actions, widen (an_anomaly Malformed [] ''Action''
                  (''Action lists '' @ describe bad @ '' where a string is expected, so '' @ unknown_actions_text) (src @ ''.Action'')) f)
            | (texts, Some bad, False) \<Rightarrow>
                (unknown_actions, widen (an_anomaly Malformed [] ''Action''
                  (''Action is '' @ describe bad @ '' where a string or a list of strings is expected, so '' @ unknown_actions_text) (src @ ''.Action'')) f)
            | (texts, None, _) \<Rightarrow>
                if length texts = 0
                then (unknown_actions, widen (an_anomaly Malformed [] ''Action''
                  (''Action lists no actions; the IAM grammar requires at least one, so '' @ unknown_actions_text) (src @ ''.Action'')) f)
                else (read_actions T texts, f)))"

section \<open>Lemmas\<close>

text \<open>Recording never forgets, and what widens or doubts is declared.\<close>

named_theorems findings_simps

lemmas recording = widen_def doubt_def record_note_def no_findings_def

lemma findings_anomalies_record [findings_simps]:
  "findings_anomalies (widen a f) = findings_anomalies f @ [a]"
  "findings_anomalies (doubt a f) = findings_anomalies f @ [a]"
  "findings_anomalies (record_note a f) = findings_anomalies f @ [a]"
  "findings_anomalies no_findings = []"
  by (simp_all add: recording)

lemma findings_widenings_record [findings_simps]:
  "findings_widenings (widen a f) = findings_widenings f @
     [\<lparr>caveat_claim = [], caveat_reason = anomaly_message a, caveat_source = anomaly_source a\<rparr>]"
  "findings_widenings (doubt a f) = findings_widenings f"
  "findings_widenings (record_note a f) = findings_widenings f"
  "findings_widenings no_findings = []"
  by (simp_all add: recording)

lemma findings_doubts_record [findings_simps]:
  "findings_doubts (widen a f) = findings_doubts f"
  "findings_doubts (doubt a f) = findings_doubts f @
     [\<lparr>caveat_claim = anomaly_claim a, caveat_reason = anomaly_message a, caveat_source = anomaly_source a\<rparr>]"
  "findings_doubts (record_note a f) = findings_doubts f"
  "findings_doubts no_findings = []"
  by (simp_all add: recording)

text \<open>The caveats of findings are those of their anomalies, up to the claim.\<close>

definition declares :: "anomaly \<Rightarrow> caveat \<Rightarrow> bool" where
  "declares a c \<longleftrightarrow> caveat_reason c = anomaly_message a \<and> caveat_source c = anomaly_source a"

definition declared :: "findings \<Rightarrow> bool" where
  "declared f \<longleftrightarrow> (\<forall>c \<in> set (findings_caveats f). \<exists>a \<in> set (findings_anomalies f). declares a c)"

lemma declared_record:
  "declared no_findings"
  "declared f \<Longrightarrow> declared (widen a f)" "declared f \<Longrightarrow> declared (doubt a f)" "declared f \<Longrightarrow> declared (record_note a f)"
  by (auto simp: declared_def findings_caveats_def findings_simps declares_def)

lemma folding_doubts_anomalies:
  "findings_anomalies (folding_doubts a actions src) = [] \<longleftrightarrow>
     (\<forall>w \<in> set (wide_actions a). \<forall>x \<in> set actions. \<not> contains (wide_reading w) x)"
proof -
  have "findings_anomalies (fold (folding_doubt actions src) ws f) = [] \<longleftrightarrow>
      findings_anomalies f = [] \<and> (\<forall>w \<in> set ws. \<forall>x \<in> set actions. \<not> contains (wide_reading w) x)" for ws f
  proof (induction ws arbitrary: f)
    case (Cons w ws)
    then show ?case
      by (auto simp: folding_doubt_def Let_def filter_empty_conv findings_simps)
  qed simp
  then show ?thesis by (simp add: folding_doubts_def findings_simps)
qed

lemma folding_doubts_widen: "findings_widenings (folding_doubts a actions src) = []"
proof -
  have "findings_widenings (fold (folding_doubt actions src) ws f) = findings_widenings f" for ws f
    by (induction ws arbitrary: f) (simp_all add: folding_doubt_def Let_def findings_simps)
  then show ?thesis by (simp add: folding_doubts_def findings_simps)
qed

text \<open>A doubt is recorded exactly where an anomaly is, so the two lists are empty together.\<close>

lemma folding_doubts_doubts:
  "findings_doubts (folding_doubts a actions src) = [] \<longleftrightarrow> findings_anomalies (folding_doubts a actions src) = []"
proof -
  have "findings_doubts (fold (folding_doubt actions src) ws f) = [] \<longleftrightarrow> findings_anomalies (fold (folding_doubt actions src) ws f) = []"
    if "findings_doubts f = [] \<longleftrightarrow> findings_anomalies f = []" for ws f
    using that
  proof (induction ws arbitrary: f)
    case (Cons w ws)
    have "findings_doubts (folding_doubt actions src w f) = [] \<longleftrightarrow> findings_anomalies (folding_doubt actions src w f) = []"
      using Cons.prems by (simp add: folding_doubt_def Let_def findings_simps)
    from Cons.IH [OF this] show ?case by simp
  qed simp
  then show ?thesis by (simp add: folding_doubts_def findings_simps)
qed

text \<open>parse_actions widens exactly where it gives up.\<close>

lemma parse_actions_widen:
  "case parse_actions T action not_action src f of (a, f') \<Rightarrow>
     (actions_unknown a \<longrightarrow> length (findings_widenings f) < length (findings_widenings f')) \<and>
     (\<not> actions_unknown a \<longrightarrow> f' = f \<and> action_patterns a \<noteq> [])"
  by (auto simp: parse_actions_def unknown_actions_def read_actions_def findings_simps split: option.split prod.split bool.split)

end
