(* ===== verification/Aws_Principal.thy ===== *)
theory Aws_Principal imports Aws_Tenancy Aws_Actions begin

text \<open>
  Package parse/aws, principal.go: who a statement names. A principal is resolved to its issuer,
  the identifier its own condition keys start with, the account it belongs to and what its parse
  recorded; "*" is two faces. The case folding tables are passed as T.
\<close>

section \<open>Principals\<close>

datatype principal_kind =
    principalUnreadable
  | principalAnyone
  | principalAnyIssuer
  | principalAccount
  | principalIdentity
  | principalOpaque
  | principalOIDC
  | principalSAML
  | principalService
  | principalCanonicalUser
  | principalOtherService

record principal =
  principal_kind :: principal_kind
  principal_member :: string
  principal_start :: nat
  principal_end :: nat
  principal_text :: string
  principal_issuer :: string
  principal_identifier :: string
  principal_ident :: string
  principal_wide_ident :: string
  principal_account :: string
  principal_undecided :: claim_key
  principal_findings :: findings

text \<open>A principal of the fields its composite literal names; the others hold their zero value.\<close>

definition a_principal :: "principal_kind \<Rightarrow> string \<Rightarrow> string \<Rightarrow> principal" where
  "a_principal kind text issuer =
     \<lparr>principal_kind = kind, principal_member = [], principal_start = 0, principal_end = 0, principal_text = text,
      principal_issuer = issuer, principal_identifier = [], principal_ident = [], principal_wide_ident = [],
      principal_account = [], principal_undecided = [], principal_findings = no_findings\<rparr>"

definition record_finding :: "(findings \<Rightarrow> findings) \<Rightarrow> principal \<Rightarrow> principal" where
  "record_finding act p = p\<lparr>principal_findings := act (principal_findings p)\<rparr>"

definition nobody :: "principal list" where
  "nobody = [a_principal principalUnreadable [] []]"

definition unmodelled :: "principal_kind \<Rightarrow> string \<Rightarrow> string \<Rightarrow> anomaly \<Rightarrow> principal" where
  "unmodelled kind text issuer a = record_finding (widen a) (a_principal kind text issuer)"

definition anyone :: "string \<Rightarrow> principal" where
  "anyone src = record_finding (record_note (an_anomaly AnyPrincipal [] ''Principal''
     ''the statement applies to every principal, including anonymous ones'' src))
     (a_principal principalAnyone ''*'' AWSPrincipalIssuer)"

section \<open>AWS principals\<close>

text \<open>The closure opaque of awsPrincipal.\<close>

definition opaque :: "string \<Rightarrow> string \<Rightarrow> string \<Rightarrow> claim_key \<Rightarrow> string \<Rightarrow> string \<Rightarrow> principal" where
  "opaque text src kind undecided account message =
     record_finding (doubt (an_anomaly kind undecided text (''the AWS principal '' @ quote_to_ascii text @ '' '' @ message) src))
       ((a_principal principalOpaque text AWSPrincipalIssuer)\<lparr>principal_account := account, principal_undecided := undecided\<rparr>)"

definition aws_principal :: "string \<Rightarrow> string \<Rightarrow> principal" where
  "aws_principal text src =
     (if text = ''*'' then anyone src
      else if is_account_id text
      then (a_principal principalAccount text AWSPrincipalIssuer)\<lparr>principal_account := text\<rparr>
      else case arn_fields text of
        None \<Rightarrow> opaque text src Unmodelled arnClaim []
          ''is neither an account id nor an ARN; it may be the unique id of a principal that has been deleted, so who it names is not known''
      | Some fs \<Rightarrow>
        (let partition = fs ! 1; service = fs ! 2; region = fs ! 3; account = fs ! 4; resource = fs ! 5 in
         if service \<noteq> ''iam'' \<and> service \<noteq> ''sts''
         then (opaque text src Unmodelled arnClaim []
             ''is an ARN of a service other than IAM or STS, which names no principal this parser knows, so who it names is not known'')
           \<lparr>principal_kind := principalOtherService\<rparr>
         else
          (let in_account = (if is_account_id account then account else []);
               malformed = opaque text src Malformed arnClaim in_account in
           if contains_any text ''*?''
           then malformed ''holds a wildcard, which AWS documents cannot match part of a principal name or ARN, so who it names is not known''
           else if partition = [] then malformed ''has no partition, so who it names is not known''
           else if region \<noteq> []
           then malformed ''names a region, which an IAM or STS principal ARN never has, so who it names is not known''
           else if account \<noteq> [] \<and> in_account = []
           then malformed (''has '' @ quote_to_ascii account @ '' where a 12-digit account id belongs, so who it names is not known'')
           else if service = ''iam'' \<and> resource = ''root'' \<and> account = []
           then opaque text src Unmodelled accountClaim [] ''is a root ARN with no account id, so which account it names is not known''
           else if service = ''iam'' \<and> resource = ''root''
           then (a_principal principalAccount text AWSPrincipalIssuer)\<lparr>principal_account := account\<rparr>
           else
            (case cut resource ''/'' of (kind, name, _) \<Rightarrow>
              (let named = (name \<noteq> []) in
               if service = ''iam'' \<and> \<not> (named \<and> (kind = ''role'' \<or> kind = ''user''))
               then malformed ''names no account root, role or user, which are the IAM principals AWS documents, so who it names is not known''
               else if account = [] then malformed ''has no account id, so who it names is not known''
               else if service = ''iam'' \<or> named \<and> kind = ''federated-user''
               then (a_principal principalIdentity text AWSPrincipalIssuer)\<lparr>principal_account := account\<rparr>
               else if named \<and> kind = ''assumed-role''
               then opaque text src Unmodelled arnClaim account
                 (''is one session of a role in account '' @ account @ ''; aws:PrincipalArn holds the role'' @ [CHR 0x27] @ ''s ARN, which the session ARN does not spell, so which identity of that account it names is not known'')
               else opaque text src Unmodelled arnClaim account
                 (''is an STS ARN of a kind this parser does not know, so which identity of account '' @ account @ '' it names is not known''))))))"

section \<open>Federated and service principals\<close>

definition oidc_principal :: "fold_tables \<Rightarrow> string \<Rightarrow> string \<Rightarrow> string \<Rightarrow> principal" where
  "oidc_principal T text identifier issuer =
     (a_principal principalOIDC text issuer)
       \<lparr>principal_identifier := identifier, principal_ident := fold_ascii identifier,
        principal_wide_ident := (if folds_beyond_ascii T identifier then wide T identifier else [])\<rparr>"

text \<open>The closure unreadable of federatedPrincipal, and what follows once the identifier is read.\<close>

definition unreadable_provider :: "string \<Rightarrow> string \<Rightarrow> string \<Rightarrow> string \<Rightarrow> principal" where
  "unreadable_provider text src kind message =
     unmodelled principalUnreadable text [] (an_anomaly kind [] ''Federated''
       (''the Federated principal '' @ quote_to_ascii text @ '' '' @ message @ '', so its issuer is not known'') src)"

definition provider_principal :: "fold_tables \<Rightarrow> string \<Rightarrow> string \<Rightarrow> string \<Rightarrow> string \<Rightarrow> principal" where
  "provider_principal T text src identifier not_a_provider =
     (if folds_into_ascii T identifier
      then unreadable_provider text src Unmodelled
        ''names a host holding a letter outside ASCII that case folding may turn into ASCII text, and whether AWS reads the host with that letter or with that text is not documented''
      else case provider_issuer T identifier of
        None \<Rightarrow> unreadable_provider text src Malformed not_a_provider
      | Some issuer \<Rightarrow> oidc_principal T text identifier issuer)"

definition federated_principal :: "fold_tables \<Rightarrow> string \<Rightarrow> string \<Rightarrow> principal" where
  "federated_principal T text src =
     (if has_prefix text ''arn:''
      then (let fs = (case arn_fields text of Some fs \<Rightarrow> fs | None \<Rightarrow> []) in
        if arn_fields text = None \<or> fs ! 2 \<noteq> ''iam''
        then unreadable_provider text src Malformed ''is not an IAM provider ARN''
        else if is_saml_issuer text
        then unmodelled principalSAML text text (an_anomaly Unmodelled [] ''SAML''
          (''SAML federation through '' @ quote_to_ascii text @ '' is not modelled by this parser, so which identities it admits is not known'') src)
        else if \<not> has_prefix (fs ! 5) ''oidc-provider/''
        then unreadable_provider text src Unmodelled ''is neither an OIDC nor a SAML provider''
        else provider_principal T text src (trim_prefix (fs ! 5) ''oidc-provider/'') ''names no provider'')
      else provider_principal T text src text ''is not a provider identifier'')"

definition service_note :: "string \<Rightarrow> string" where
  "service_note text =
     (case intermediary_of text of
        None \<Rightarrow> text @ '' is an AWS service principal; who can make it act, or receives its session, is not read''
      | Some i \<Rightarrow>
        if has_other_uses i
        then text @ '' can assume a role for '' @ acts_for_in_full i @ '', among other uses; who can make it act, or receives its session, is not read''
        else text @ '' can assume a role for '' @ acts_for_in_full i @ ''; who they are is not read'')"

definition service_principal :: "string \<Rightarrow> string \<Rightarrow> principal" where
  "service_principal text src =
     (if \<not> names_a_host text
      then unmodelled principalUnreadable text [] (an_anomaly Malformed [] ''Service''
        (''the Service principal '' @ quote_to_ascii text @ '' is not a service identifier, so which service it names is not known'') src)
      else record_finding (record_note (an_anomaly ServicePrincipal [] ''Service'' (service_note text) src))
        (a_principal principalService text (ServiceIssuerPrefix @ fold_ascii text)))"

section \<open>The Principal element\<close>

definition principal_of_kind :: "fold_tables \<Rightarrow> string \<Rightarrow> string \<Rightarrow> string \<Rightarrow> principal" where
  "principal_of_kind T kind text src =
     (case variable_reference text of
        Some reference \<Rightarrow> unmodelled principalUnreadable text [] (an_anomaly Unmodelled [] reference
          (''the '' @ kind @ '' principal '' @ quote_to_ascii text @ '' holds the policy variable '' @ reference @ ''; a policy variable is resolved per request and names no principal this parser can read, so who it names is not known'') src)
      | None \<Rightarrow>
        if kind = ''AWS'' then aws_principal text src
        else if kind = ''Federated'' then federated_principal T text src
        else if kind = ''Service'' then service_principal text src
        else unmodelled principalCanonicalUser text AWSPrincipalIssuer (an_anomaly Unmodelled [] ''CanonicalUser''
          ''a CanonicalUser principal is not modelled by this parser, so who it names is not known'' src))"

text \<open>One item of principalsOfKind, then the loop.\<close>

definition principal_item :: "fold_tables \<Rightarrow> string \<Rightarrow> bool \<Rightarrow> string \<Rightarrow> json_value \<Rightarrow> principal" where
  "principal_item T kind in_list src item =
     (if value_kind item = kindString
      then (principal_of_kind T kind (value_text item) src)
        \<lparr>principal_member := kind, principal_start := value_start item, principal_end := value_end item\<rparr>
      else if in_list
      then unmodelled principalUnreadable [] [] (an_anomaly Malformed [] kind
        (''the '' @ kind @ '' principal lists '' @ describe item @ '' where a string is expected, so who it names is not known'') src)
      else unmodelled principalUnreadable [] [] (an_anomaly Malformed [] kind
        (''the '' @ kind @ '' principal is '' @ describe item @ '' where a string or a list of strings is expected, so who it names is not known'') src))"

definition principals_of_kind :: "fold_tables \<Rightarrow> string \<Rightarrow> json_value \<Rightarrow> string \<Rightarrow> principal list" where
  "principals_of_kind T kind v src =
     (let (its, in_list) = (if value_kind v = kindArray then (value_items v, True) else ([v], False)) in
      map (principal_item T kind in_list src) its)"

text \<open>One value of a known kind in principalsIn: an empty list is doubted and names nobody.\<close>

fun read_kind :: "fold_tables \<Rightarrow> string \<Rightarrow> string \<Rightarrow> json_value list \<Rightarrow> findings \<Rightarrow> principal list \<times> findings" where
  "read_kind T kind src [] f = ([], f)"
| "read_kind T kind src (v # vs) f =
     (if value_kind v = kindArray \<and> length (value_items v) = 0
      then read_kind T kind src vs (doubt (an_anomaly Malformed [] kind
        (''the '' @ kind @ '' principal lists no principals; the IAM grammar requires at least one, so whether the statement deploys as written is not known'') src) f)
      else (let (found, f) = read_kind T kind src vs f in (principals_of_kind T kind v src @ found, f)))"

definition principal_kinds :: "string list" where
  "principal_kinds = [''AWS'', ''Federated'', ''Service'', ''CanonicalUser'']"

text \<open>One group of principalsIn, then the loop over the groups.\<close>

definition read_group :: "fold_tables \<Rightarrow> string \<Rightarrow> member_group \<Rightarrow> findings \<Rightarrow> principal list \<times> findings" where
  "read_group T src g f =
     (let kind = group_name g;
          (found, f) = (if kind \<in> set principal_kinds then read_kind T kind src (group_values g) f
            else ([unmodelled principalUnreadable [] [] (an_anomaly Unmodelled [] kind
              (''the principal kind '' @ quote_to_ascii kind @ '' is not AWS, Federated, Service or CanonicalUser, so who it names is not known'') src)], f)) in
      (if 1 < length (group_values g)
       then map (record_finding (doubt (an_anomaly DuplicateKey [] kind
         (''the member '' @ kind @ '' appears more than once in Principal; a JSON decoder keeps one and the deployed policy may carry either, so whether this principal is deployed is not known'') src))) found
       else found, f))"

fun read_groups :: "fold_tables \<Rightarrow> string \<Rightarrow> member_group list \<Rightarrow> findings \<Rightarrow> principal list \<times> findings" where
  "read_groups T src [] f = ([], f)"
| "read_groups T src (g # gs) f =
     (let (found, f) = read_group T src g f; (others, f) = read_groups T src gs f in (found @ others, f))"

definition principals_in :: "fold_tables \<Rightarrow> json_value \<Rightarrow> string \<Rightarrow> findings \<Rightarrow> principal list \<times> findings" where
  "principals_in T v src f =
     (if value_kind v = kindString \<and> value_text v = ''*''
      then ([(anyone src)\<lparr>principal_start := value_start v, principal_end := value_end v\<rparr>], f)
      else if value_kind v \<noteq> kindObject
      then ([a_principal principalUnreadable [] []], widen (an_anomaly Malformed [] ''Principal''
        (''Principal is '' @ describe v @ '', not '' @ [dquote] @ ''*'' @ [dquote] @ '' or an object, so who it names is not known'') src) f)
      else read_groups T src (group_members v exact_name) f)"

fun principals_of :: "fold_tables \<Rightarrow> string \<Rightarrow> json_value list \<Rightarrow> findings \<Rightarrow> principal list \<times> findings" where
  "principals_of T src [] f = ([], f)"
| "principals_of T src (v # vs) f =
     (let (found, f) = principals_in T v src f; (others, f) = principals_of T src vs f in (found @ others, f))"

definition no_principal :: "string \<Rightarrow> anomaly" where
  "no_principal src = an_anomaly Unmodelled [] ''Principal''
     ''the statement names no Principal, so who may assume the role through it is not known'' (src @ ''.Principal'')"

definition parse_principals :: "fold_tables \<Rightarrow> member_group option \<Rightarrow> member_group option \<Rightarrow> string \<Rightarrow> findings \<Rightarrow>
    principal list \<times> findings" where
  "parse_principals T named excluded src f =
     (case (named, excluded) of
        (Some _, Some _) \<Rightarrow>
          (nobody, widen (an_anomaly DuplicateKey [] ''Principal''
            ''the statement has both Principal and NotPrincipal; the IAM grammar allows one, so who it names is not known'' src) f)
      | (None, Some g) \<Rightarrow>
          (nobody, widen (an_anomaly Unmodelled [] ''NotPrincipal''
            ''NotPrincipal is not supported in a role trust policy and names who is excluded rather than who is admitted, so who the statement admits is not known''
            (src @ ''.Principal''))
            (if 1 < length (group_values g) then record_note (duplicated g ''who it excludes is not known'' src) f else f))
      | (None, None) \<Rightarrow> (nobody, widen (no_principal src) f)
      | (Some g, None) \<Rightarrow>
          (let f = (if 1 < length (group_values g)
                 then widen (duplicated g ''every principal named in any copy is taken and who the statement names is not known'' src) f else f);
               (found, f) = principals_of T (src @ ''.Principal'') (group_values g) f in
           if length found = 0 then (nobody, widen (no_principal src) f) else (found, f)))"

section \<open>What a principal projects to\<close>

definition assume_actions :: "principal \<Rightarrow> string list" where
  "assume_actions p =
     (case principal_kind p of
        principalOIDC \<Rightarrow> [assumeWithWebIdentity]
      | principalSAML \<Rightarrow> [assumeWithSAML]
      | principalAnyIssuer \<Rightarrow> [assumeRole, assumeWithWebIdentity, assumeWithSAML]
      | principalUnreadable \<Rightarrow> [assumeRole, assumeWithWebIdentity, assumeWithSAML]
      | principalCanonicalUser \<Rightarrow> [assumeRole, assumeWithWebIdentity, assumeWithSAML]
      | _ \<Rightarrow> [assumeRole])"

definition faces :: "principal \<Rightarrow> action_set \<Rightarrow> string \<Rightarrow> principal list" where
  "faces p actions src =
     (if principal_kind p \<noteq> principalAnyone then [p]
      else (let granted = filter (may_grant actions) [assumeRole, assumeWithWebIdentity, assumeWithSAML] in
        if length granted = 0 then [p]
        else (let whose = (if length granted = 1 \<and> granted ! 0 = assumeRole then ''AWS services''
                 else if assumeRole \<notin> set granted then ''identity providers'' @ [CHR 0x27] @ '' tokens''
                 else ''AWS services and identity providers'' @ [CHR 0x27] @ '' tokens'');
              other = (a_principal principalAnyIssuer (principal_text p) [])
                \<lparr>principal_member := principal_member p, principal_start := principal_start p, principal_end := principal_end p,
                 principal_findings := widen (an_anomaly Unmodelled [] ''Principal''
                   (''the statement applies to every principal, and which '' @ whose @ '' it covers through '' @ spell_actions granted @ '' is not known'') src)
                   (principal_findings p)\<rparr> in
          [p, other])))"

definition identity :: "principal \<Rightarrow> claim_term" where
  "identity p =
     (let t = (if principal_account p \<noteq> [] then put accountClaim (Exact (principal_account p)) [] else []) in
      case principal_kind p of
        principalIdentity \<Rightarrow> put arnClaim (Exact (principal_text p)) t
      | principalOpaque \<Rightarrow> put (principal_undecided p) (Unknown (principal_text p)) t
      | principalOtherService \<Rightarrow> put (principal_undecided p) (Unknown (principal_text p)) t
      | _ \<Rightarrow> t)"

definition aws_identity :: "principal \<Rightarrow> bool" where
  "aws_identity p \<longleftrightarrow>
     principal_kind p \<in> {principalAnyone, principalAccount, principalIdentity, principalOpaque, principalOtherService}"

definition is_modelled :: "principal \<Rightarrow> bool" where
  "is_modelled p \<longleftrightarrow> principal_kind p \<notin> {principalUnreadable, principalCanonicalUser, principalOtherService}"

definition projects :: "principal \<Rightarrow> grant \<Rightarrow> bool" where
  "projects p g = (\<not> list_ex (\<lambda>a. a \<notin> set (grant_anomalies g)) (findings_anomalies (principal_findings p)))"

text \<open>ownClaim, None for Go's false: the first colon after the identifier.\<close>

definition own_claim :: "principal \<Rightarrow> string \<Rightarrow> string option" where
  "own_claim p key =
     (if principal_kind p \<noteq> principalOIDC then None
      else map_option (\<lambda>i. fold_ascii (drop (i + 1) key))
        (List.find (\<lambda>i. key ! i = CHR '':'' \<and> fold_ascii (take i key) = principal_ident p) [0..<length key]))"

definition may_own :: "fold_tables \<Rightarrow> principal \<Rightarrow> string \<Rightarrow> bool" where
  "may_own T p key =
     (if principal_wide_ident p = [] then False
      else list_ex (\<lambda>i. key ! i = CHR '':'' \<and> wide T (take i key) = principal_wide_ident p) [0..<length key])"

end
