(* ===== verification/Aws_Condition.thy ===== *)
theory Aws_Condition imports Aws_Principal begin

text \<open>
  Package parse/aws, condition.go: a Condition element read into constraints, and each constraint
  evaluated for one principal. Every reason a constraint cannot be evaluated is a fact, every fact
  an anomaly and a caveat, and one fact makes the claim Unknown. The case folding tables are passed
  as T; the claim vocabulary, which the issuer registry fills, is an argument, None for Go's nil.
\<close>

section \<open>Folding a list with join\<close>

text \<open>One pass of joinAll pairs neighbours; the loop runs until one item is left.\<close>

fun join_pairs :: "('a \<Rightarrow> 'a \<Rightarrow> 'a) \<Rightarrow> 'a list \<Rightarrow> 'a list" where
  "join_pairs op (x # y # xs) = op x y # join_pairs op xs"
| "join_pairs op xs = xs"

lemma length_join_pairs: "length (join_pairs op xs) = (length xs + 1) div 2"
  by (induction op xs rule: join_pairs.induct) auto

text \<open>joinAll. The items are never empty where the parser calls it.\<close>

function join_all :: "('a \<Rightarrow> 'a \<Rightarrow> 'a) \<Rightarrow> 'a list \<Rightarrow> 'a" where
  "join_all op items = (if 1 < length items then join_all op (join_pairs op items) else hd items)"
  by pat_completeness auto
termination
  by (relation "measure (length \<circ> snd)") (auto simp: length_join_pairs)

declare join_all.simps [simp del]

definition with_caveats :: "admitted_set \<Rightarrow> caveat list \<Rightarrow> admitted_set" where
  "with_caveats s cs =
     (if length cs = 0 then s
      else admitted_join s (join_all admitted_join (map (\<lambda>c. with_caveat c Nothing) cs)))"

section \<open>Constraints\<close>

record repeat =
  repeat_what :: string
  repeat_message :: string

record written_constraint =
  constraint_operator :: string
  constraint_key :: string
  constraint_value :: json_value
  constraint_repeated :: repeat

text \<open>enumerate: every caller passes at least two items.\<close>

definition enumerate_items :: "string list \<Rightarrow> string" where
  "enumerate_items its = join_strings '', '' (butlast its) @ '' and '' @ last its"

text \<open>
  The maps of repeatOf: the folds in order of first appearance, how many spellings have a fold, and
  the first of them, quoted.
\<close>

definition copies_of :: "string list \<Rightarrow> string \<Rightarrow> nat" where
  "copies_of spellings f = length (filter (\<lambda>s. fold_ascii s = f) spellings)"

definition first_spelling :: "string list \<Rightarrow> string \<Rightarrow> string" where
  "first_spelling spellings f =
     (case List.find (\<lambda>s. fold_ascii s = f) spellings of Some s \<Rightarrow> quote_to_ascii s | None \<Rightarrow> [])"

definition repeat_of :: "member_group \<Rightarrow> string \<Rightarrow> bool \<Rightarrow> repeat" where
  "repeat_of key oper block_repeated =
     (let name = spell_operator oper in
      if block_repeated
      then \<lparr>repeat_what = ''operator '' @ oper,
        repeat_message = ''the operator '' @ name @ '' appears more than once in the Condition; a JSON decoder keeps one block and the deployed policy may carry either, so the claim is not constrained''\<rparr>
      else if length (group_values key) = 1 then \<lparr>repeat_what = [], repeat_message = []\<rparr>
      else (let spellings = group_spellings key;
                folds = keep_first (map fold_ascii spellings);
                every = map (first_spelling spellings) folds;
                certain_folds = filter (\<lambda>f. 1 < copies_of spellings f) folds;
                certain = map (first_spelling spellings) certain_folds;
                wider = '' are one key if AWS folds letters outside ASCII, which no page documents'';
                decoder = ''; a JSON decoder keeps one and the deployed policy may carry either, so the claim is not constrained'' in
        if length folds = 1
        then \<lparr>repeat_what = ''duplicate key '' @ folds ! 0,
          repeat_message = ''the key '' @ certain ! 0 @ '' appears more than once under '' @ name @ decoder\<rparr>
        else if length certain = 0
        then \<lparr>repeat_what = ''possible duplicate key '' @ folds ! 0,
          repeat_message = ''the keys '' @ enumerate_items every @ '' under '' @ name @ wider @ ''; a JSON decoder would then keep one and the deployed policy may carry either, so the claim is not constrained''\<rparr>
        else if length certain = 1
        then \<lparr>repeat_what = ''duplicate key '' @ certain_folds ! 0,
          repeat_message = ''the key '' @ certain ! 0 @ '' appears more than once under '' @ name @ ''; '' @ enumerate_items every @ wider @ decoder\<rparr>
        else \<lparr>repeat_what = ''duplicate key '' @ certain_folds ! 0,
          repeat_message = ''the keys '' @ enumerate_items certain @ '' each appear more than once under '' @ name @ ''; '' @ enumerate_items every @ wider @ decoder\<rparr>))"

section \<open>Reading the Condition element\<close>

text \<open>The innermost loops of parseConditions: every copy of every key of one block.\<close>

definition block_constraints :: "fold_tables \<Rightarrow> string \<Rightarrow> bool \<Rightarrow> json_value \<Rightarrow> written_constraint list" where
  "block_constraints T oper block_repeated block =
     concat (map (\<lambda>key. map2 (\<lambda>spelling v. \<lparr>constraint_operator = oper, constraint_key = spelling, constraint_value = v,
         constraint_repeated = repeat_of key oper block_repeated\<rparr>) (group_spellings key) (group_values key))
       (group_members block (wide T)))"

text \<open>The loop over the copies of one operator's block.\<close>

fun read_blocks :: "fold_tables \<Rightarrow> string \<Rightarrow> string \<Rightarrow> bool \<Rightarrow> json_value list \<Rightarrow> findings \<Rightarrow> written_constraint list \<times> findings" where
  "read_blocks T src oper repeated [] f = ([], f)"
| "read_blocks T src oper repeated (block # blocks) f =
     (if value_kind block \<noteq> kindObject
      then read_blocks T src oper repeated blocks (widen (an_anomaly Malformed [] oper
        (''the operator block '' @ spell_operator oper @ '' is '' @ describe block @ '', not an object, so what it requires is not known'') src) f)
      else if length (value_members block) = 0
      then read_blocks T src oper repeated blocks (doubt (an_anomaly Malformed [] oper
        (''the operator block '' @ spell_operator oper @ '' lists no keys; the IAM grammar requires at least one, so what it requires is not known'') src) f)
      else (let (cs, f) = read_blocks T src oper repeated blocks f in (block_constraints T oper repeated block @ cs, f)))"

text \<open>The loop over the operators.\<close>

fun read_operators :: "fold_tables \<Rightarrow> string \<Rightarrow> member_group list \<Rightarrow> findings \<Rightarrow> written_constraint list \<times> findings" where
  "read_operators T src [] f = ([], f)"
| "read_operators T src (g # gs) f =
     (let repeated = 1 < length (group_values g);
          f = (if repeated
            then record_note (an_anomaly DuplicateKey [] (group_name g)
              (''the operator '' @ spell_operator (group_name g) @ '' appears more than once in the Condition; a JSON decoder keeps one block and the deployed policy may carry either'') src) f
            else f);
          (cs, f) = read_blocks T src (group_name g) repeated (group_values g) f;
          (ds, f) = read_operators T src gs f in
      (cs @ ds, f))"

definition parse_conditions :: "fold_tables \<Rightarrow> member_group option \<Rightarrow> string \<Rightarrow> findings \<Rightarrow> written_constraint list \<times> findings" where
  "parse_conditions T grp src f =
     (case grp of
        None \<Rightarrow> ([], f)
      | Some g \<Rightarrow>
        if 1 < length (group_values g) then ([], widen (duplicated g ''what the conditions require is not known'' src) f)
        else (let src = src @ ''.Condition''; v = hd (group_values g) in
          if value_kind v \<noteq> kindObject
          then ([], widen (an_anomaly Malformed [] ''Condition''
            (''Condition is '' @ describe v @ '', not an object, so what it requires is not known'') src) f)
          else read_operators T src (group_members v exact_name) f))"

section \<open>Which claim a key names\<close>

datatype key_scope = ownClaim | identityClaim | requestContext | foreignKey | unknownProvider | noPrefix | notAName

definition identity_keys :: "string list" where
  "identity_keys = [''aws:principalarn'', ''aws:principalaccount'', ''aws:principalorgid'', ''aws:principaltype'', ExternalIDClaim]"

definition scope :: "principal \<Rightarrow> string \<Rightarrow> claim_key \<times> key_scope" where
  "scope p key =
     (let folded = fold_ascii key in
      case own_claim p key of
        Some claim \<Rightarrow> if claim_name claim = None then (folded, notAName) else (claim, ownClaim)
      | None \<Rightarrow>
        if CHR '':'' \<notin> set folded then (folded, noPrefix)
        else if is_service_key folded
        then (if aws_identity p \<and> folded \<in> set identity_keys then (folded, identityClaim) else (folded, requestContext))
        else if principal_kind p = principalAnyone \<or> principal_kind p = principalAnyIssuer then (folded, unknownProvider)
        else (folded, foreignKey))"

datatype key_reading = IssuerNotKnown | KeyNotDocumented | ClaimRead | MultivaluedRead | MultiValuedClaimRead

type_synonym vocabulary = "string \<Rightarrow> string \<Rightarrow> claim_key \<times> key_reading"

definition lowercase_vocabulary :: "string list \<Rightarrow> vocabulary" where
  "lowercase_vocabulary issuers issuer spelling =
     (if issuer \<notin> set issuers then ([], IssuerNotKnown) else (fold_ascii spelling, ClaimRead))"

text \<open>The answer of documents is whether AWS lists the key, and whether the list is known.\<close>

definition documented_keys ::
  "(string \<Rightarrow> string \<Rightarrow> bool \<times> bool) \<Rightarrow> (string \<Rightarrow> string \<Rightarrow> bool) \<Rightarrow> (string \<Rightarrow> string \<Rightarrow> bool) \<Rightarrow> vocabulary" where
  "documented_keys documents multivalued multi_valued_claim issuer spelling =
     (case documents issuer spelling of (documented, known) \<Rightarrow>
        if \<not> known then ([], IssuerNotKnown)
        else if \<not> documented then ([], KeyNotDocumented)
        else if multivalued issuer spelling then (fold_ascii spelling, MultivaluedRead)
        else if multi_valued_claim issuer spelling then (fold_ascii spelling, MultiValuedClaimRead)
        else (fold_ascii spelling, ClaimRead))"

section \<open>Facts that keep a constraint from being evaluated\<close>

record fact =
  fact_reason :: string
  fact_kind :: string
  fact_construct :: string
  fact_message :: string

definition a_fact :: "string \<Rightarrow> string \<Rightarrow> string \<Rightarrow> string \<Rightarrow> fact" where
  "a_fact why kind construct message =
     \<lparr>fact_reason = why, fact_kind = kind, fact_construct = construct, fact_message = message\<rparr>"

text \<open>evaluate, the facts about the key itself, then whether one says which key it is is not known.\<close>

definition key_facts :: "fold_tables \<Rightarrow> principal \<Rightarrow> variable_mode \<Rightarrow> written_constraint \<Rightarrow> fact list" where
  "key_facts T p variables c =
     (let key = constraint_key c; quoted = quote_to_ascii key in
      (if repeat_message (constraint_repeated c) \<noteq> []
       then [a_fact (repeat_what (constraint_repeated c)) DuplicateKey (constraint_operator c) (repeat_message (constraint_repeated c))]
       else []) @
      (if folds_beyond_ascii T key
       then [a_fact (''folding of '' @ key) Unmodelled key
         (''the condition key '' @ quoted @ '' holds a letter outside ASCII with case variants of its own; AWS documents no folding for it, so which key it names is not known and the claim is not constrained'')]
       else []) @
      (if snd (scope p key) \<noteq> ownClaim \<and> may_own T p key
       then [a_fact (''folding of provider '' @ principal_identifier p) Unmodelled key
         (''the condition key '' @ quoted @ '' is a claim of the Federated principal '' @ quote_to_ascii (principal_text p) @ '' if AWS folds letters outside ASCII, which no page documents, so which key it names is not known and the claim is not constrained'')]
       else []) @
      (case variable_reference key of
         Some reference \<Rightarrow>
           if variables = variablesLiteral then []
           else [a_fact reference Unmodelled reference
             (''the condition key '' @ quoted @ '' holds the policy variable '' @ reference @ ''; AWS documents variables in condition values and the Resource element, not in keys, so which key it names is not known and the claim is not constrained'')]
       | None \<Rightarrow> []))"

definition key_not_known :: "fold_tables \<Rightarrow> principal \<Rightarrow> variable_mode \<Rightarrow> written_constraint \<Rightarrow> bool" where
  "key_not_known T p variables c \<longleftrightarrow>
     folds_beyond_ascii T (constraint_key c) \<or>
     snd (scope p (constraint_key c)) \<noteq> ownClaim \<and> may_own T p (constraint_key c) \<or>
     variable_reference (constraint_key c) \<noteq> None \<and> variables \<noteq> variablesLiteral"

text \<open>The note for a key that holds a variable the document's Version reads as text.\<close>

definition literal_variable :: "string \<Rightarrow> claim_key \<Rightarrow> string \<Rightarrow> string \<Rightarrow> anomaly" where
  "literal_variable what claim reference src =
     an_anomaly VariableIsLiteral claim reference
       (what @ '' holds '' @ quote_to_ascii reference @ '', which is literal text because this document'' @ [CHR 0x27] @ ''s Version does not resolve policy variables; if a variable was meant, the condition does not do what it looks like it does'') src"

definition key_notes :: "principal \<Rightarrow> variable_mode \<Rightarrow> string \<Rightarrow> written_constraint \<Rightarrow> anomaly list" where
  "key_notes p variables src c =
     (case variable_reference (constraint_key c) of
        Some reference \<Rightarrow>
          if variables = variablesLiteral
          then [literal_variable (''the condition key '' @ quote_to_ascii (constraint_key c)) (fst (scope p (constraint_key c))) reference src]
          else []
      | None \<Rightarrow> [])"

text \<open>The switch on scope: the claim, how the vocabulary read the key, and the facts.\<close>

definition scope_facts :: "fold_tables \<Rightarrow> principal \<Rightarrow> vocabulary option \<Rightarrow> variable_mode \<Rightarrow> written_constraint \<Rightarrow>
    claim_key \<times> key_reading \<times> fact list" where
  "scope_facts T p vocab variables c =
     (let key = constraint_key c; quoted = quote_to_ascii key in
      case scope p key of
        (claim, notAName) \<Rightarrow> (claim, ClaimRead, [a_fact claim Malformed key
          (''the condition key '' @ quoted @ '' names no claim, so the claim is not constrained'')])
      | (claim, noPrefix) \<Rightarrow> (claim, ClaimRead, [a_fact claim Malformed key
          (''the condition key '' @ quoted @ '' has no provider prefix, so which request value it names is not known and the claim is not constrained'')])
      | (claim, requestContext) \<Rightarrow> (claim, ClaimRead, [a_fact claim Unmodelled key
          (''the condition key '' @ quoted @ '' is a fact about the request, not a claim of the token, so this parser does not evaluate it and the claim is not constrained'')])
      | (claim, unknownProvider) \<Rightarrow> (claim, ClaimRead, [a_fact claim Unmodelled key
          (''the condition key '' @ quoted @ '' is a claim of a provider this statement does not name; with every principal admitted, which provider populates it is not known, so the claim is not constrained'')])
      | (claim, ownClaim) \<Rightarrow>
        (case (case vocab of Some v \<Rightarrow> v (principal_issuer p) claim | None \<Rightarrow> ([], IssuerNotKnown)) of
           (name, ClaimRead) \<Rightarrow> (name, ClaimRead, [])
         | (name, MultivaluedRead) \<Rightarrow> (name, MultivaluedRead, [])
         | (name, MultiValuedClaimRead) \<Rightarrow> (name, MultiValuedClaimRead, [])
         | (_, KeyNotDocumented) \<Rightarrow> (claim, ClaimRead,
             if \<not> key_not_known T p variables c
             then [a_fact ''key not documented'' Unmodelled key
               (''the condition key '' @ quoted @ '' is not one AWS documents for the tokens of '' @ quote_to_ascii (principal_issuer p) @ '', so whether a request carries it is not known and the claim is not constrained'')]
             else [])
         | (_, IssuerNotKnown) \<Rightarrow> (claim, ClaimRead,
             [a_fact (''vocabulary of '' @ principal_issuer p @ '' unknown'') Unmodelled key
               (''the claim vocabulary of '' @ quote_to_ascii (principal_issuer p) @ '' is not known to this parser, so the spelling '' @ quote_to_ascii claim @ '' of the condition key '' @ quoted @ '' cannot be reconciled with the token'' @ [CHR 0x27] @ ''s and the claim is not constrained'')]))
      | (claim, _) \<Rightarrow> (claim, ClaimRead, []))"

definition quote_or_describe :: "json_value \<Rightarrow> string" where
  "quote_or_describe v = (if value_kind v = kindString then quote_to_ascii (value_text v) else describe v)"

definition null_message :: "written_constraint \<Rightarrow> string \<Rightarrow> string" where
  "null_message c on =
     (let v = constraint_value c;
          v = (if value_kind v = kindArray \<and> length (value_items v) = 1 then hd (value_items v) else v);
          polarity = (case value_kind v of
            kindBool \<Rightarrow> if value_boolean v then ''true'' else ''false''
          | kindString \<Rightarrow> value_text v
          | _ \<Rightarrow> []) in
      if polarity = ''true'' \<or> polarity = ''false'' then null_sentence on polarity
      else on @ '' has the value '' @ quote_or_describe (constraint_value c) @ '', which is neither '' @ [dquote] @ ''true'' @ [dquote] @ '' nor '' @ [dquote] @ ''false'' @ [dquote] @ '', so the claim is not constrained'')"

text \<open>The sentence vacuous is set to, then the switch on the operator.\<close>

definition vacuous_for :: "string \<Rightarrow> operator \<Rightarrow> string \<Rightarrow> string" where
  "vacuous_for effect oper on =
     (if effect = Deny \<and> operator_negated oper
      then on @ '' passes when the claim is absent, so this Deny denies tokens without the claim as well as every token whose claim does not match the values it names''
      else if effect = Deny
      then on @ '' passes when the claim is absent, so this Deny denies tokens without the claim as well as the ones it names''
      else vacuous_sentence on)"

definition operator_facts :: "string \<Rightarrow> written_constraint \<Rightarrow> string \<Rightarrow> fact list" where
  "operator_facts effect c on =
     (let text = constraint_operator c; oper = parse_operator text; base = operator_base oper;
          said = (\<lambda>message. [a_fact text Unmodelled text message]) in
      if \<not> operator_recognised oper then said (''operator '' @ on @ '' is not modelled by this parser, so the claim is not constrained'')
      else if operator_set_prefix oper = ''ForAllValues'' \<or> operator_if_exists oper then said (vacuous_for effect oper on)
      else if operator_set_prefix oper = ''ForAnyValue''
      then said (on @ '' compares a set of request values, which this parser does not model, so the claim is not constrained'')
      else if base = ''Null'' then said (null_message c on)
      else if base = ''StringNotEquals'' \<or> base = ''StringNotLike'' \<or> base = ''StringNotEqualsIgnoreCase''
      then said (complement_sentence on)
      else if base = ''StringEqualsIgnoreCase''
      then said (on @ '' matches the value in any casing, which this parser cannot express, so the claim is not constrained'')
      else if base \<noteq> ''StringEquals'' \<and> base \<noteq> ''StringLike''
      then said (''operator '' @ on @ '' is not modelled by this parser, so the claim is not constrained'')
      else [])"

definition several_values :: "written_constraint \<Rightarrow> key_reading \<Rightarrow> string \<Rightarrow> string \<Rightarrow> fact" where
  "several_values c values on issuer =
     (let key = constraint_key c; quoted = quote_to_ascii key in
      if values = MultivaluedRead
      then a_fact ''multivalued key'' Unmodelled key
        (on @ '' has no set prefix, and AWS documents the condition key '' @ quoted @ '' as multivalued, which a policy tests with condition set operators; what an operator without one does on such a key AWS does not document, so the claim is not constrained'')
      else a_fact ''multi-valued claim'' Unmodelled key
        (on @ '' has no set prefix, and a token of '' @ quote_to_ascii issuer @ '' may carry several values in the claim AWS reads the condition key '' @ quoted @ '' from; how many of them AWS compares, and what an operator without a set prefix does on them, AWS does not document, so the claim is not constrained''))"

section \<open>The values a constraint lists\<close>

definition subjectClaim :: claim_key where "subjectClaim = ''sub''"

text \<open>strings.NewReplacer with the two escapes, both replaced by nothing.\<close>

fun without_escapes :: "string \<Rightarrow> string" where
  "without_escapes [] = []"
| "without_escapes (c # s) =
     (if has_prefix (c # s) ''${*}'' \<or> has_prefix (c # s) ''${?}'' then without_escapes (drop 3 s) else c # without_escapes s)"

definition wildcards_held :: "string \<Rightarrow> string list" where
  "wildcards_held text = map quote_to_ascii (filter (\<lambda>w. index_of (without_escapes text) w \<noteq> None) [''*'', ''?''])"

definition literal_wildcards :: "string list \<Rightarrow> string \<Rightarrow> claim_key \<Rightarrow> string \<Rightarrow> anomaly list" where
  "literal_wildcards texts oper claim src =
     map (\<lambda>text. an_anomaly WildcardIsLiteral claim oper
         (''the value '' @ quote_to_ascii text @ '' on '' @ spell_claim claim @ '' is compared as written: AWS'' @ [CHR 0x27] @ ''s condition operators table gives StringEquals as '' @ [dquote] @ ''Exact matching, case sensitive'' @ [dquote] @ '', so each '' @ join_strings '' and '' (wildcards_held text) @ '' it holds is the character, not a wildcard, and the value matches only a '' @ spell_claim claim @ '' that is exactly this text; StringLike is the operator that reads * and ? as wildcards'') src)
       (filter (\<lambda>text. wildcards_held text \<noteq> []) texts)"

text \<open>The loop of valueSet: Inl the fact that ends it, Inr the sets and the notes.\<close>

fun read_values :: "claim_key \<Rightarrow> bool \<Rightarrow> variable_mode \<Rightarrow> string \<Rightarrow> string list \<Rightarrow> fact + string_set list \<times> anomaly list" where
  "read_values claim like variables src [] = Inr ([], [])"
| "read_values claim like variables src (text # texts) =
     (case resolve_variables text variables like of
        Inl problem \<Rightarrow> Inl (a_fact (problem_construct problem) Unmodelled (problem_construct problem)
          (''the value '' @ quote_to_ascii text @ '' on '' @ spell_claim claim @ '' '' @ problem_message problem))
      | Inr literal \<Rightarrow>
        (case read_values claim like variables src texts of
           Inl problem \<Rightarrow> Inl problem
         | Inr (sets, notes) \<Rightarrow>
           Inr ((if like then Glob literal else Exact literal) # sets,
             (case variable_reference text of
                Some reference \<Rightarrow>
                  if variables = variablesLiteral
                  then [literal_variable (''the value '' @ quote_to_ascii text @ '' on '' @ spell_claim claim) claim reference src] else []
              | None \<Rightarrow> []) @ notes)))"

text \<open>valueSet. Where there are facts the code's set is nil and never read; here it is the empty set.\<close>

definition value_set :: "written_constraint \<Rightarrow> string list \<Rightarrow> claim_key \<Rightarrow> bool \<Rightarrow> variable_mode \<Rightarrow> string \<Rightarrow>
    string_set \<times> fact list \<times> anomaly list" where
  "value_set c texts claim like variables src =
     (case read_values claim like variables src texts of
        Inl problem \<Rightarrow> (None_set, [problem], [])
      | Inr (sets, notes) \<Rightarrow>
        (let s = join_all join sets in
         if is_top s
         then (None_set, [a_fact (constraint_operator c) Unmodelled (constraint_operator c)
           (presence_sentence (constraint_operator c) claim)], notes)
         else (s, [], notes)))"

section \<open>One constraint, and the block\<close>

record outcome =
  outcome_claim :: claim_key
  outcome_set :: string_set
  outcome_anomalies :: "anomaly list"
  outcome_notes :: "anomaly list"

text \<open>The facts gathered before the values are read, given what the scope made of the key.\<close>

definition standing_facts :: "fold_tables \<Rightarrow> principal \<Rightarrow> string \<Rightarrow> variable_mode \<Rightarrow> written_constraint \<Rightarrow> string \<Rightarrow>
    key_reading \<Rightarrow> fact list \<Rightarrow> fact list" where
  "standing_facts T p effect variables c on vals scoped =
     (let oper = parse_operator (constraint_operator c) in
      key_facts T p variables c @ scoped @ operator_facts effect c on @
      (if vals \<noteq> ClaimRead \<and> operator_set_prefix oper = [] \<and> operator_base oper \<noteq> ''Null''
       then [several_values c vals on (principal_issuer p)] else []))"

text \<open>The switch on the leaves: the set, the facts about the values, the notes.\<close>

definition value_switch :: "written_constraint \<Rightarrow> claim_key \<Rightarrow> string \<Rightarrow> bool \<Rightarrow> variable_mode \<Rightarrow> string \<Rightarrow>
    string_set \<times> fact list \<times> anomaly list" where
  "value_switch c claim on modelled variables src =
     (let text = constraint_operator c; base = operator_base (parse_operator text) in
      case leaves (constraint_value c) of (texts, bad, in_list) \<Rightarrow>
        (case bad of
           Some b \<Rightarrow>
             if base = ''Null'' then (None_set, [], [])
             else if in_list
             then (None_set, [a_fact text Malformed text (on @ '' lists '' @ describe b @ '' where a string is expected, so the claim is not constrained'')], [])
             else (None_set, [a_fact text Malformed text (on @ '' has a value that is '' @ describe b @ '' where a string or a list of strings is expected, so the claim is not constrained'')], [])
         | None \<Rightarrow>
             if length texts = 0
             then (None_set, [a_fact text Unmodelled text (on @ '' lists no values; AWS documents no meaning for an empty list, so the claim is not constrained'')], [])
             else if modelled then value_set c texts claim (base = ''StringLike'') variables src
             else (None_set, [], [])))"

definition wildcard_notes :: "written_constraint \<Rightarrow> claim_key \<Rightarrow> string \<Rightarrow> anomaly list" where
  "wildcard_notes c claim src =
     (let text = constraint_operator c; oper = parse_operator text in
      case leaves (constraint_value c) of (texts, bad, in_list) \<Rightarrow>
        if operator_recognised oper \<and> operator_base oper = ''StringEquals'' \<and> claim = subjectClaim \<and> bad = None
        then literal_wildcards texts text claim src else [])"

definition evaluate :: "fold_tables \<Rightarrow> principal \<Rightarrow> string \<Rightarrow> vocabulary option \<Rightarrow> variable_mode \<Rightarrow> string \<Rightarrow> written_constraint \<Rightarrow> outcome" where
  "evaluate T p effect vocab variables src c =
     (case scope_facts T p vocab variables c of (claim, vals, scoped) \<Rightarrow>
      (let on = spell_operator (constraint_operator c) @ '' on '' @ spell_claim claim;
           facts = standing_facts T p effect variables c on vals scoped in
       case value_switch c claim on (length facts = 0) variables src of (s, value_facts, value_notes) \<Rightarrow>
       (let facts = facts @ value_facts in
        \<lparr>outcome_claim = claim,
         outcome_set = (if length facts = 0 then s else join_all join (map (\<lambda>f. Unknown (fact_reason f)) facts)),
         outcome_anomalies = map (\<lambda>f. an_anomaly (fact_kind f) claim (fact_construct f) (fact_message f) src) facts,
         outcome_notes = key_notes p variables src c @ value_notes @ wildcard_notes c claim src\<rparr>)))"

text \<open>The loop of project: the term so far, the caveats and the anomalies. A meet that panics is None.\<close>

fun project_constraints :: "(written_constraint \<Rightarrow> outcome) \<Rightarrow> string \<Rightarrow> written_constraint list \<Rightarrow>
    claim_term \<times> caveat list \<times> anomaly list \<Rightarrow> (claim_term \<times> caveat list \<times> anomaly list) option" where
  "project_constraints ev src [] st = Some st"
| "project_constraints ev src (c # cs) (t, caveats, anomalies) =
     (let o1 = ev c in
      case (case map_of t (outcome_claim o1) of
          Some existing \<Rightarrow> meet existing (outcome_set o1)
        | None \<Rightarrow> Some (outcome_set o1)) of
        None \<Rightarrow> None
      | Some s \<Rightarrow> project_constraints ev src cs
          (put (outcome_claim o1) s t,
           caveats @ map (\<lambda>a. \<lparr>caveat_claim = outcome_claim o1, caveat_reason = anomaly_message a, caveat_source = src\<rparr>) (outcome_anomalies o1),
           anomalies @ outcome_anomalies o1 @ outcome_notes o1))"

definition project_conditions :: "fold_tables \<Rightarrow> written_constraint list \<Rightarrow> principal \<Rightarrow> string \<Rightarrow> vocabulary option \<Rightarrow> variable_mode \<Rightarrow> string \<Rightarrow>
    (admitted_set \<times> anomaly list) option" where
  "project_conditions T constraints p effect vocab variables src =
     (case project_constraints (evaluate T p effect vocab variables src) src constraints (identity p, [], []) of
        None \<Rightarrow> None
      | Some (t, caveats, anomalies) \<Rightarrow> Some (with_caveats (new_admitted_set [t]) caveats, anomalies))"

end
