(* ===== verification/Aws_Condition_Laws.thy ===== *)
theory Aws_Condition_Laws imports Aws_Condition begin

text \<open>
  What evaluating a Condition element promises: the balanced fold is the fold, a constraint with a
  fact against it admits every value and one without exactly the values it lists, and the
  projected set is the conjunction of the principal's identity and the constraints.
\<close>

section \<open>The balanced fold\<close>

locale associative_join =
  fixes good :: "'a \<Rightarrow> bool"
    and op :: "'a \<Rightarrow> 'a \<Rightarrow> 'a"
  assumes op_good: "good x \<Longrightarrow> good y \<Longrightarrow> good (op x y)"
    and op_assoc: "good x \<Longrightarrow> good y \<Longrightarrow> good z \<Longrightarrow> op (op x y) z = op x (op y z)"
begin

lemma foldl_good: "good x \<Longrightarrow> \<forall>y \<in> set ys. good y \<Longrightarrow> good (foldl op x ys)"
  by (induction ys arbitrary: x) (auto simp: op_good)

lemma foldl_head: "good x \<Longrightarrow> good y \<Longrightarrow> \<forall>z \<in> set zs. good z \<Longrightarrow> foldl op (op x y) zs = op x (foldl op y zs)"
  by (induction zs arbitrary: y) (auto simp: op_good op_assoc)

lemma join_pairs_fold:
  assumes "xs \<noteq> []" "\<forall>x \<in> set xs. good x"
  shows "join_pairs op xs \<noteq> []" "\<forall>x \<in> set (join_pairs op xs). good x"
    "foldl op (hd (join_pairs op xs)) (tl (join_pairs op xs)) = foldl op (hd xs) (tl xs)"
proof -
  have "join_pairs op xs \<noteq> [] \<and> (\<forall>x \<in> set (join_pairs op xs). good x) \<and>
      foldl op (hd (join_pairs op xs)) (tl (join_pairs op xs)) = foldl op (hd xs) (tl xs)"
    using assms
  proof (induction xs rule: induct_list012)
    case (3 x y zs)
    show ?case
    proof (cases zs)
      case (Cons z us)
      note IH = "3.IH"(1) [unfolded Cons]
      have g: "good x" "good y" "good z" "\<forall>u \<in> set us. good u" using "3.prems" Cons by auto
      obtain w ws where w: "join_pairs op zs = w # ws" using IH g by (cases "join_pairs op zs") (auto simp: Cons)
      then have gw: "good w" "\<forall>x \<in> set ws. good x" and f: "foldl op w ws = foldl op z us"
        using IH g by (auto simp: Cons)
      have "foldl op (op (op x y) w) ws = op (op x y) (foldl op w ws)"
        by (rule foldl_head) (use g gw op_good in auto)
      also have "\<dots> = foldl op (op (op x y) z) us"
        unfolding f by (rule foldl_head [symmetric]) (use g op_good in auto)
      finally show ?thesis using g gw op_good w [unfolded Cons] by (simp add: Cons)
    qed (use "3.prems" op_good in auto)
  qed auto
  then show "join_pairs op xs \<noteq> []" "\<forall>x \<in> set (join_pairs op xs). good x"
    "foldl op (hd (join_pairs op xs)) (tl (join_pairs op xs)) = foldl op (hd xs) (tl xs)" by auto
qed

lemma join_all_fold:
  assumes "xs \<noteq> []" "\<forall>x \<in> set xs. good x"
  shows "join_all op xs = foldl op (hd xs) (tl xs)"
  using assms
proof (induction xs rule: length_induct)
  case (1 xs)
  show ?case
  proof (cases "1 < length xs")
    case True
    note pairs = join_pairs_fold [OF "1.prems"]
    have "length (join_pairs op xs) < length xs" using True by (simp add: length_join_pairs)
    then have "join_all op (join_pairs op xs) = foldl op (hd xs) (tl xs)"
      using 1 pairs by metis
    then show ?thesis using True by (subst join_all.simps) simp
  next
    case False
    then show ?thesis using "1.prems" by (subst join_all.simps) (cases xs, auto)
  qed
qed

end

interpretation set_join: associative_join wf_set join
  by unfold_locales (auto intro: join_wf join_assoc)

lemma join_all_contains:
  assumes "xs \<noteq> []" "\<forall>x \<in> set xs. wf_set x"
  shows "wf_set (join_all join xs)" "contains (join_all join xs) v \<longleftrightarrow> (\<exists>x \<in> set xs. contains x v)"
    "is_top (join_all join xs) \<longleftrightarrow> (\<exists>x \<in> set xs. is_top x)"
    "is_unknown (join_all join xs) \<longleftrightarrow> (\<exists>x \<in> set xs. is_unknown x)"
proof -
  have "wf_set (foldl join x ys) \<and> (contains (foldl join x ys) v \<longleftrightarrow> (\<exists>y \<in> set (x # ys). contains y v))
      \<and> (is_top (foldl join x ys) \<longleftrightarrow> (\<exists>y \<in> set (x # ys). is_top y))
      \<and> (is_unknown (foldl join x ys) \<longleftrightarrow> (\<exists>y \<in> set (x # ys). is_unknown y))"
    if "wf_set x" "\<forall>y \<in> set ys. wf_set y" for x ys
    using that
  proof (induction ys arbitrary: x)
    case (Cons y ys)
    then have "wf_set (join x y)" by (simp add: join_wf)
    with Cons.IH [OF this] Cons.prems show ?case
      by (simp add: join_contains join_not_top join_is_unknown)
  qed simp
  with assms set_join.join_all_fold [OF assms] show "wf_set (join_all join xs)"
    "contains (join_all join xs) v \<longleftrightarrow> (\<exists>x \<in> set xs. contains x v)"
    "is_top (join_all join xs) \<longleftrightarrow> (\<exists>x \<in> set xs. is_top x)"
    "is_unknown (join_all join xs) \<longleftrightarrow> (\<exists>x \<in> set xs. is_unknown x)"
    by (cases xs; simp)+
qed

section \<open>Caveats on a set of one term\<close>

text \<open>
  A grant's set has at most one term, and that term renders apart from every other whatever its
  claim names hold, so what is proved here needs no condition on them.
\<close>

lemma normalise_none: "normalise [] cs oper = \<lparr>admitted_terms = [], admitted_caveats = normalise_caveats cs\<rparr>"
  by (simp add: normalise_def sort_func_def)

lemma normalise_one:
  "normalise [t] cs oper =
     \<lparr>admitted_terms = (case normalise_term t of None \<Rightarrow> [] | Some u \<Rightarrow> if all_top u then [[]] else [u]),
      admitted_caveats = normalise_caveats cs\<rparr>"
  by (simp add: normalise_def sort_func_def term_cap_def split: option.split)

definition settled :: "admitted_set \<Rightarrow> bool" where
  "settled a \<longleftrightarrow> (admitted_terms a = [] \<or> admitted_terms a = [[]] \<or>
       (\<exists>t. admitted_terms a = [t] \<and> lean_term t \<and> \<not> all_top t))
     \<and> admitted_caveats a = normalise_caveats (admitted_caveats a)"

lemma settled_normalise:
  assumes "settled a"
  shows "normalise (admitted_terms a) cs oper = \<lparr>admitted_terms = admitted_terms a, admitted_caveats = normalise_caveats cs\<rparr>"
  using assms by (auto simp: settled_def normalise_none normalise_one normalise_lean all_top_def)

lemma normalise_caveats_twice: "normalise_caveats (normalise_caveats cs) = normalise_caveats cs"
  by (rule normalise_caveats_cong) simp

lemma settled_record: "settled \<lparr>admitted_terms = [], admitted_caveats = normalise_caveats cs\<rparr>"
  "settled \<lparr>admitted_terms = [[]], admitted_caveats = normalise_caveats cs\<rparr>"
  by (simp_all add: settled_def normalise_caveats_twice)

lemma settled_one: "settled (new_admitted_set [t])"
  using normalise_term_Some [where t = t]
  by (auto simp: settled_def new_admitted_set_def normalise_one normalise_caveats_twice split: option.split)

lemma settled_constants: "settled Everything" "settled Nothing"
  using settled_record [of "[]"] by (simp_all add: Everything_def Nothing_def normalise_caveats_def)

lemma normalise_caveats_Nil [simp]: "normalise_caveats cs = [] \<longleftrightarrow> cs = []"
  using set_normalise_caveats [of cs] by (metis set_empty)

text \<open>A carrier is an empty set with caveats; joining carriers gathers them.\<close>

definition carrier :: "admitted_set \<Rightarrow> bool" where
  "carrier a \<longleftrightarrow> admitted_terms a = []"

lemma carrier_join: "carrier a \<Longrightarrow> carrier b \<Longrightarrow>
    admitted_join a b = \<lparr>admitted_terms = [], admitted_caveats = normalise_caveats (admitted_caveats a @ admitted_caveats b)\<rparr>"
  by (simp add: carrier_def admitted_join_def normalise_none)

interpretation carrier_join: associative_join carrier admitted_join
proof unfold_locales
  show "carrier (admitted_join x y)" if "carrier x" "carrier y" for x y
    using that by (simp add: carrier_join) (simp add: carrier_def)
  show "admitted_join (admitted_join x y) z = admitted_join x (admitted_join y z)"
    if "carrier x" "carrier y" "carrier z" for x y z
  proof -
    have "normalise_caveats (normalise_caveats (admitted_caveats x @ admitted_caveats y) @ admitted_caveats z)
        = normalise_caveats (admitted_caveats x @ normalise_caveats (admitted_caveats y @ admitted_caveats z))"
      by (rule normalise_caveats_cong) auto
    then show ?thesis using that by (simp add: carrier_join) (simp add: carrier_def carrier_join admitted_join_def normalise_none)
  qed
qed

lemma carriers_caveats:
  assumes "cs \<noteq> []"
  shows "admitted_terms (join_all admitted_join (map (\<lambda>c. with_caveat c Nothing) cs)) = []"
    "set (admitted_caveats (join_all admitted_join (map (\<lambda>c. with_caveat c Nothing) cs))) = set cs"
proof -
  have one: "carrier (with_caveat c Nothing)" "set (admitted_caveats (with_caveat c Nothing)) = {c}" for c
    by (simp_all add: carrier_def with_caveat_def Nothing_def)
  have "carrier (foldl admitted_join a (map (\<lambda>c. with_caveat c Nothing) ds)) \<and>
      set (admitted_caveats (foldl admitted_join a (map (\<lambda>c. with_caveat c Nothing) ds))) = set (admitted_caveats a) \<union> set ds"
    if "carrier a" for a ds
    using that
  proof (induction ds arbitrary: a)
    case (Cons d ds)
    have "carrier (admitted_join a (with_caveat d Nothing))" by (rule carrier_join.op_good [OF Cons.prems one(1)])
    from Cons.IH [OF this] show ?case using Cons.prems one by (auto simp: carrier_join)
  qed simp
  moreover have "join_all admitted_join (map (\<lambda>c. with_caveat c Nothing) cs) =
      foldl admitted_join (with_caveat (hd cs) Nothing) (map (\<lambda>c. with_caveat c Nothing) (tl cs))"
    using carrier_join.join_all_fold [of "map (\<lambda>c. with_caveat c Nothing) cs"] assms one
    by (simp add: hd_map map_tl)
  moreover obtain d ds where "cs = d # ds" using assms by (cases cs) auto
  ultimately show "admitted_terms (join_all admitted_join (map (\<lambda>c. with_caveat c Nothing) cs)) = []"
    "set (admitted_caveats (join_all admitted_join (map (\<lambda>c. with_caveat c Nothing) cs))) = set cs"
    using one by (simp_all add: carrier_def)
qed

lemma with_caveats_settled:
  assumes "settled s"
  shows "with_caveats s cs = s\<lparr>admitted_caveats := normalise_caveats (admitted_caveats s @ cs)\<rparr>"
proof (cases "cs = []")
  case True
  then show ?thesis using assms by (simp add: with_caveats_def settled_def)
next
  case False
  have "normalise_caveats (admitted_caveats s @ admitted_caveats (join_all admitted_join (map (\<lambda>c. with_caveat c Nothing) cs)))
      = normalise_caveats (admitted_caveats s @ cs)"
    by (rule normalise_caveats_cong) (simp add: carriers_caveats [OF False])
  then show ?thesis
    using False carriers_caveats(1) [OF False] settled_normalise [OF assms]
    by (simp add: with_caveats_def admitted_join_def)
qed

lemma settled_with_caveats: "settled s \<Longrightarrow> settled (with_caveats s cs)"
  by (simp add: with_caveats_settled) (simp add: settled_def normalise_caveats_twice)

lemma fold_with_caveat_settled:
  assumes "settled s"
  shows "fold with_caveat cs s = s\<lparr>admitted_caveats := normalise_caveats (admitted_caveats s @ cs)\<rparr>"
  using assms
proof (induction cs arbitrary: s)
  case Nil
  then show ?case by (simp add: settled_def)
next
  case (Cons c cs)
  have "settled (with_caveat c s)" using Cons.prems by (simp add: with_caveat_def settled_def normalise_caveats_twice)
  then have "fold with_caveat (c # cs) s = s\<lparr>admitted_caveats :=
      normalise_caveats (normalise_caveats (admitted_caveats s @ [c]) @ cs)\<rparr>"
    using Cons.IH by (simp add: with_caveat_def [of c s])
  also have "normalise_caveats (normalise_caveats (admitted_caveats s @ [c]) @ cs) = normalise_caveats (admitted_caveats s @ c # cs)"
    by (rule normalise_caveats_cong) auto
  finally show ?case .
qed

lemma with_caveats_terms: "settled s \<Longrightarrow> admitted_terms (with_caveats s cs) = admitted_terms s"
  and with_caveats_caveats: "settled s \<Longrightarrow> set (admitted_caveats (with_caveats s cs)) = set (admitted_caveats s) \<union> set cs"
  and with_caveats_exact: "settled s \<Longrightarrow> is_exact (with_caveats s cs) \<longleftrightarrow> is_exact s \<and> cs = []"
  by (simp_all add: with_caveats_settled is_exact_def)

lemma with_caveats_admits: "settled s \<Longrightarrow> admits (with_caveats s cs) token \<longleftrightarrow> admits s token"
  by (simp add: admits_iff with_caveats_terms)

lemma one_admits: "admits (new_admitted_set [t]) token \<longleftrightarrow> term_admits token t"
proof (cases "normalise_term t")
  case None
  then show ?thesis using normalise_term_None [OF None] by (simp add: new_admitted_set_def normalise_one admits_iff)
next
  case (Some u)
  then have "term_admits token u \<longleftrightarrow> term_admits token t" using normalise_term_Some by blast
  then show ?thesis
    using Some all_top_admits [of u token] by (auto simp: new_admitted_set_def normalise_one admits_iff term_admits_def)
qed

lemma one_exact: "is_exact (new_admitted_set [t])"
  by (simp add: is_exact_def new_admitted_set_def normalise_one normalise_caveats_def)

section \<open>One constraint\<close>

text \<open>What a listed text admits under StringEquals or StringLike.\<close>

definition lists_value :: "bool \<Rightarrow> variable_mode \<Rightarrow> string \<Rightarrow> string \<Rightarrow> bool" where
  "lists_value like variables text v =
     (case resolve_variables text variables like of
        Inl _ \<Rightarrow> False
      | Inr literal \<Rightarrow> if like then contains (Glob literal) v else v = literal)"

lemma read_values_sets:
  assumes "read_values claim like variables src texts = Inr (sets, ns)"
  shows "length sets = length texts" "\<forall>s \<in> set sets. wf_set s \<and> \<not> is_unknown s"
    "(\<exists>s \<in> set sets. contains s v) \<longleftrightarrow> (\<exists>text \<in> set texts. lists_value like variables text v)"
proof -
  have "length sets = length texts \<and> (\<forall>s \<in> set sets. wf_set s \<and> \<not> is_unknown s) \<and>
      ((\<exists>s \<in> set sets. contains s v) \<longleftrightarrow> (\<exists>text \<in> set texts. lists_value like variables text v))"
    using assms
  proof (induction texts arbitrary: sets ns)
    case (Cons t ts)
    obtain literal where l: "resolve_variables t variables like = Inr literal"
      using Cons.prems by (auto split: sum.splits)
    obtain sets' ns' where r: "read_values claim like variables src ts = Inr (sets', ns')"
      using Cons.prems l by (auto split: sum.splits)
    have sets: "sets = (if like then Glob literal else Exact literal) # sets'"
      using Cons.prems l r by auto
    have "\<not> is_unknown (Glob literal)" by (simp add: Glob_def)
    then show ?case using Cons.IH [OF r] Glob_wf
      by (auto simp: sets lists_value_def l Exact_def)
  qed auto
  then show "length sets = length texts" "\<forall>s \<in> set sets. wf_set s \<and> \<not> is_unknown s"
    "(\<exists>s \<in> set sets. contains s v) \<longleftrightarrow> (\<exists>text \<in> set texts. lists_value like variables text v)" by blast+
qed

lemma value_set_sets:
  assumes "value_set c texts claim like variables src = (s, fs, ns)" "texts \<noteq> []" "fs = []"
  shows "wf_set s" "\<not> is_top s" "contains s v \<longleftrightarrow> (\<exists>text \<in> set texts. lists_value like variables text v)"
proof -
  obtain sets ns' where r: "read_values claim like variables src texts = Inr (sets, ns')"
    using assms(1,3) by (auto simp: value_set_def split: sum.splits)
  have s: "s = join_all join sets" "\<not> is_top s"
    using assms(1,3) r by (auto simp: value_set_def Let_def split: if_splits)
  have "sets \<noteq> []" using read_values_sets(1) [OF r] assms(2) by auto
  then show "wf_set s" "\<not> is_top s" "contains s v \<longleftrightarrow> (\<exists>text \<in> set texts. lists_value like variables text v)"
    using s join_all_contains [of sets] read_values_sets(2,3) [OF r] by auto
qed

lemma operator_facts_none:
  "operator_facts effect c on = [] \<longleftrightarrow>
     (let oper = parse_operator (constraint_operator c) in
      operator_recognised oper \<and> operator_set_prefix oper \<noteq> ''ForAllValues'' \<and> operator_set_prefix oper \<noteq> ''ForAnyValue'' \<and>
      \<not> operator_if_exists oper \<and> operator_base oper \<in> {''StringEquals'', ''StringLike''})"
  by (auto simp: operator_facts_def Let_def)

lemma set_prefix_cases: "operator_set_prefix (parse_operator text) \<in> {[], ''ForAllValues'', ''ForAnyValue''}"
  by (auto simp: parse_operator_def Let_def split: prod.split)

lemma unknown_set:
  assumes "fs \<noteq> []"
  shows "wf_set (join_all join (map (\<lambda>f. Unknown (fact_reason f)) fs))"
    "is_unknown (join_all join (map (\<lambda>f. Unknown (fact_reason f)) fs))"
    "is_top (join_all join (map (\<lambda>f. Unknown (fact_reason f)) fs))"
proof -
  have "\<forall>s \<in> set (map (\<lambda>f. Unknown (fact_reason f)) fs). wf_set s \<and> is_unknown s \<and> is_top s"
    by (auto simp: Unknown_def)
  then show "wf_set (join_all join (map (\<lambda>f. Unknown (fact_reason f)) fs))"
    "is_unknown (join_all join (map (\<lambda>f. Unknown (fact_reason f)) fs))"
    "is_top (join_all join (map (\<lambda>f. Unknown (fact_reason f)) fs))"
    using join_all_contains [of "map (\<lambda>f. Unknown (fact_reason f)) fs"] assms
    by (metis (no_types, lifting) last_in_set list.map_disc_iff)+
qed

text \<open>The facts of evaluate, gathered, and the set it computes where there is none.\<close>

definition plain_string :: "written_constraint \<Rightarrow> bool" where
  "plain_string c \<longleftrightarrow> (let oper = parse_operator (constraint_operator c) in
     operator_recognised oper \<and> operator_set_prefix oper = [] \<and> \<not> operator_if_exists oper \<and>
     operator_base oper \<in> {''StringEquals'', ''StringLike''})"

definition reads_like :: "written_constraint \<Rightarrow> bool" where
  "reads_like c \<longleftrightarrow> operator_base (parse_operator (constraint_operator c)) = ''StringLike''"

lemma evaluate_fields:
  assumes "scope_facts T p vocab variables c = (claim, vals, scoped)"
    "on = spell_operator (constraint_operator c) @ '' on '' @ spell_claim claim"
    "facts = standing_facts T p effect variables c on vals scoped"
    "value_switch c claim on (facts = []) variables src = (s, value_facts, value_notes)"
  shows "outcome_claim (evaluate T p effect vocab variables src c) = claim"
    "outcome_set (evaluate T p effect vocab variables src c) =
       (if facts @ value_facts = [] then s else join_all join (map (\<lambda>f. Unknown (fact_reason f)) (facts @ value_facts)))"
    "outcome_anomalies (evaluate T p effect vocab variables src c) =
       map (\<lambda>f. an_anomaly (fact_kind f) claim (fact_construct f) (fact_message f) src) (facts @ value_facts)"
    "outcome_notes (evaluate T p effect vocab variables src c) = key_notes p variables src c @ value_notes @ wildcard_notes c claim src"
  unfolding evaluate_def assms(1) prod.case Let_def assms(2) [symmetric] assms(3) [symmetric] length_0_conv assms(4)
  by (simp_all only: outcome.simps)

text \<open>The stages of one evaluation, named.\<close>

lemma evaluate_stages:
  obtains claim vals scoped on facts s value_facts value_notes where
    "scope_facts T p vocab variables c = (claim, vals, scoped)"
    "on = spell_operator (constraint_operator c) @ '' on '' @ spell_claim claim"
    "facts = standing_facts T p effect variables c on vals scoped"
    "value_switch c claim on (facts = []) variables src = (s, value_facts, value_notes)"
  by (metis prod_cases3)

lemma evaluate_anomalies:
  assumes "outcome_anomalies (evaluate T p effect vocab variables src c) \<noteq> []"
  shows "wf_set (outcome_set (evaluate T p effect vocab variables src c))"
    "is_unknown (outcome_set (evaluate T p effect vocab variables src c))"
    "is_top (outcome_set (evaluate T p effect vocab variables src c))"
proof -
  obtain claim vals scoped on facts s vf vn where st:
    "scope_facts T p vocab variables c = (claim, vals, scoped)"
    "on = spell_operator (constraint_operator c) @ '' on '' @ spell_claim claim"
    "facts = standing_facts T p effect variables c on vals scoped"
    "value_switch c claim on (facts = []) variables src = (s, vf, vn)" by (rule evaluate_stages)
  note ev = evaluate_fields [OF st]
  have ne: "facts @ vf \<noteq> []" using assms unfolding ev(3) by blast
  show "wf_set (outcome_set (evaluate T p effect vocab variables src c))"
    "is_unknown (outcome_set (evaluate T p effect vocab variables src c))"
    "is_top (outcome_set (evaluate T p effect vocab variables src c))"
    unfolding ev(2) if_not_P [OF ne] by (rule unknown_set [OF ne])+
qed

lemma value_switch_plain:
  assumes "value_switch c claim on True variables src = (s, [], ns)" "plain_string c"
  obtains texts b where "leaves (constraint_value c) = (texts, None, b)" "texts \<noteq> []"
    "value_set c texts claim (reads_like c) variables src = (s, [], ns)"
proof -
  obtain texts bad b where lv: "leaves (constraint_value c) = (texts, bad, b)" by (metis prod_cases3)
  have "operator_base (parse_operator (constraint_operator c)) \<noteq> ''Null''" using assms(2) by (auto simp: plain_string_def Let_def)
  then have "bad = None" "texts \<noteq> []" "value_set c texts claim (reads_like c) variables src = (s, [], ns)"
    using assms(1) unfolding value_switch_def lv by (auto simp: Let_def reads_like_def split: option.splits if_splits)
  then show thesis using that lv by blast
qed

lemma standing_none:
  assumes "standing_facts T p effect variables c on vals scoped = []"
  shows "key_facts T p variables c = []" "scoped = []" "plain_string c"
proof -
  have e: "key_facts T p variables c = []" "scoped = []" "operator_facts effect c on = []"
    using assms by (simp_all add: standing_facts_def Let_def)
  then show "key_facts T p variables c = []" "scoped = []" by blast+
  show "plain_string c"
    using e(3) set_prefix_cases [of "constraint_operator c"] by (auto simp: operator_facts_none plain_string_def Let_def)
qed

lemma evaluate_plain:
  assumes "outcome_anomalies (evaluate T p effect vocab variables src c) = []"
  obtains texts b where "leaves (constraint_value c) = (texts, None, b)" "texts \<noteq> []" "plain_string c"
    "key_facts T p variables c = []" "snd (snd (scope_facts T p vocab variables c)) = []"
    "outcome_claim (evaluate T p effect vocab variables src c) = fst (scope_facts T p vocab variables c)"
    "wf_set (outcome_set (evaluate T p effect vocab variables src c))"
    "\<not> is_top (outcome_set (evaluate T p effect vocab variables src c))"
    "\<And>v. contains (outcome_set (evaluate T p effect vocab variables src c)) v \<longleftrightarrow>
       (\<exists>text \<in> set texts. lists_value (reads_like c) variables text v)"
proof -
  obtain claim vals scoped on facts s vf vn where st:
    "scope_facts T p vocab variables c = (claim, vals, scoped)"
    "on = spell_operator (constraint_operator c) @ '' on '' @ spell_claim claim"
    "facts = standing_facts T p effect variables c on vals scoped"
    "value_switch c claim on (facts = []) variables src = (s, vf, vn)" by (rule evaluate_stages)
  note ev = evaluate_fields [OF st]
  have none: "facts = []" "vf = []" using assms unfolding ev(3) by simp_all
  note standing = standing_none [OF st(3) [symmetric, unfolded none(1)]]
  have "value_switch c claim on True variables src = (s, [], vn)" using st(4) none by simp
  then obtain texts b where tx: "leaves (constraint_value c) = (texts, None, b)" "texts \<noteq> []"
    "value_set c texts claim (reads_like c) variables src = (s, [], vn)"
    by (rule value_switch_plain [OF _ standing(3)])
  have set_eq: "outcome_set (evaluate T p effect vocab variables src c) = s" unfolding ev(2) none by simp
  have "\<And>v. contains s v \<longleftrightarrow> (\<exists>text \<in> set texts. lists_value (reads_like c) variables text v)"
    by (rule value_set_sets(3) [OF tx(3,2)]) simp
  then show thesis
    using tx(1,2) standing(3,1) st(1) standing(2) ev(1) value_set_sets(1,2) [OF tx(3,2) refl]
    by (intro that [of texts b]) (simp_all add: set_eq)
qed

lemma evaluate_wf: "wf_set (outcome_set (evaluate T p effect vocab variables src c))"
proof (cases "outcome_anomalies (evaluate T p effect vocab variables src c) = []")
  case True
  then show ?thesis by (rule evaluate_plain)
qed (rule evaluate_anomalies(1))

section \<open>The block\<close>

definition keyed_term :: "claim_term \<Rightarrow> bool" where
  "keyed_term t \<longleftrightarrow> sorted_wrt (<) (map fst t) \<and> (\<forall>(k, s) \<in> set t. wf_set s)"

lemma keyed_put:
  assumes "keyed_term t" "wf_set s"
  shows "keyed_term (put k s t)"
proof -
  have "sorted_wrt (<) (map fst (put k s t)) \<and> (\<forall>(k, s) \<in> set (put k s t). wf_set s)"
    using assms
  proof (induction k s t rule: put.induct)
    case (2 k s k' s' t)
    then show ?case using keys_put [of k s t] by (auto simp: keyed_term_def)
  qed (auto simp: keyed_term_def)
  then show ?thesis by (simp add: keyed_term_def)
qed

lemma keyed_admits:
  assumes "keyed_term t"
  shows "term_admits token t \<longleftrightarrow> (\<forall>k s. map_of t k = Some s \<longrightarrow> satisfies s (token k))"
proof -
  have "distinct (map fst t)" using assms by (simp add: keyed_term_def strict_sorted_iff)
  then show ?thesis by (auto simp: term_admits_def)
qed

lemma admits_put_new:
  assumes "keyed_term t" "wf_set s" "map_of t k = None"
  shows "term_admits token (put k s t) \<longleftrightarrow> term_admits token t \<and> satisfies s (token k)"
  using assms(3) unfolding keyed_admits [OF assms(1)] keyed_admits [OF keyed_put [OF assms(1,2)]] map_of_put
  by (auto split: if_splits)

lemma admits_put_old:
  assumes "keyed_term t" "wf_set s" "map_of t k = Some e"
    "satisfies s (token k) \<longleftrightarrow> satisfies e (token k) \<and> satisfies s' (token k)"
  shows "term_admits token (put k s t) \<longleftrightarrow> term_admits token t \<and> satisfies s' (token k)"
  using assms(3,4) unfolding keyed_admits [OF assms(1)] keyed_admits [OF keyed_put [OF assms(1,2)]] map_of_put
  by (auto split: if_splits)

lemma satisfies_meet:
  assumes "wf_set a" "wf_set b"
  obtains m where "meet a b = Some m" "wf_set m" "\<And>x. satisfies m x \<longleftrightarrow> satisfies a x \<and> satisfies b x"
proof -
  obtain m where m: "meet a b = Some m" using sets.both_defined [OF assms] by auto
  then show thesis using that sets.both_value [OF assms m] by (auto simp: satisfies_def)
qed

lemma project_constraints_spec:
  assumes "keyed_term t" "\<And>c. wf_set (outcome_set (ev c))"
  obtains t' where "project_constraints ev src cs (t, cvs, as) = Some (t',
       cvs @ concat (map (\<lambda>c. map (\<lambda>a. \<lparr>caveat_claim = outcome_claim (ev c), caveat_reason = anomaly_message a, caveat_source = src\<rparr>)
         (outcome_anomalies (ev c))) cs),
       as @ concat (map (\<lambda>c. outcome_anomalies (ev c) @ outcome_notes (ev c)) cs))"
    "keyed_term t'"
    "\<And>token. term_admits token t' \<longleftrightarrow> term_admits token t \<and> (\<forall>c \<in> set cs. satisfies (outcome_set (ev c)) (token (outcome_claim (ev c))))"
proof -
  have "\<exists>t'. project_constraints ev src cs (t, cvs, as) = Some (t',
       cvs @ concat (map (\<lambda>c. map (\<lambda>a. \<lparr>caveat_claim = outcome_claim (ev c), caveat_reason = anomaly_message a, caveat_source = src\<rparr>)
         (outcome_anomalies (ev c))) cs),
       as @ concat (map (\<lambda>c. outcome_anomalies (ev c) @ outcome_notes (ev c)) cs)) \<and> keyed_term t' \<and>
       (\<forall>token. term_admits token t' \<longleftrightarrow> term_admits token t \<and> (\<forall>c \<in> set cs. satisfies (outcome_set (ev c)) (token (outcome_claim (ev c)))))"
    using assms(1)
  proof (induction cs arbitrary: t cvs as)
    case (Cons c cs)
    let ?k = "outcome_claim (ev c)" and ?s = "outcome_set (ev c)"
    obtain s where s: "(case map_of t ?k of Some existing \<Rightarrow> meet existing ?s | None \<Rightarrow> Some ?s) = Some s" "wf_set s"
      "\<And>token. term_admits token (put ?k s t) \<longleftrightarrow> term_admits token t \<and> satisfies ?s (token ?k)"
    proof (cases "map_of t ?k")
      case None
      then show thesis using that [of ?s] admits_put_new [OF Cons.prems assms(2)] assms(2) by simp
    next
      case (Some e)
      then have "wf_set e" using Cons.prems map_of_SomeD by (fastforce simp: keyed_term_def)
      then obtain m where m: "meet e ?s = Some m" "wf_set m" "\<And>x. satisfies m x \<longleftrightarrow> satisfies e x \<and> satisfies ?s x"
        using satisfies_meet [OF _ assms(2)] by blast
      then have "\<And>token. term_admits token (put ?k m t) \<longleftrightarrow> term_admits token t \<and> satisfies ?s (token ?k)"
        by (intro admits_put_old [OF Cons.prems m(2) Some])
      then show thesis using that [of m] m Some by simp
    qed
    obtain t' where t': "project_constraints ev src cs (put ?k s t,
         cvs @ map (\<lambda>a. \<lparr>caveat_claim = ?k, caveat_reason = anomaly_message a, caveat_source = src\<rparr>) (outcome_anomalies (ev c)),
         as @ outcome_anomalies (ev c) @ outcome_notes (ev c)) = Some (t',
       (cvs @ map (\<lambda>a. \<lparr>caveat_claim = ?k, caveat_reason = anomaly_message a, caveat_source = src\<rparr>) (outcome_anomalies (ev c))) @
         concat (map (\<lambda>c. map (\<lambda>a. \<lparr>caveat_claim = outcome_claim (ev c), caveat_reason = anomaly_message a, caveat_source = src\<rparr>)
           (outcome_anomalies (ev c))) cs),
       (as @ outcome_anomalies (ev c) @ outcome_notes (ev c)) @ concat (map (\<lambda>c. outcome_anomalies (ev c) @ outcome_notes (ev c)) cs))"
      "keyed_term t'"
      "\<forall>token. term_admits token t' \<longleftrightarrow> term_admits token (put ?k s t) \<and> (\<forall>c \<in> set cs. satisfies (outcome_set (ev c)) (token (outcome_claim (ev c))))"
      using Cons.IH [OF keyed_put [OF Cons.prems s(2)]] by blast
    show ?case
      by (rule exI [of _ t']) (use t' s(1,3) in \<open>simp add: Let_def\<close>)
  qed simp
  then show thesis using that by blast
qed

lemma keyed_identity: "keyed_term (identity p)"
proof -
  have nil: "keyed_term []" by (simp add: keyed_term_def)
  have wf: "wf_set (Exact v)" "wf_set (Unknown v)" for v by (simp_all add: Exact_def Unknown_def)
  show ?thesis
    by (simp add: identity_def Let_def nil wf keyed_put del: put.simps split: principal_kind.split)
qed

lemma project_conditions_spec:
  obtains a as where "project_conditions T cs p effect vocab variables src = Some (a, as)" "settled a"
    "\<And>token. admits a token \<longleftrightarrow> term_admits token (identity p) \<and>
       (\<forall>c \<in> set cs. satisfies (outcome_set (evaluate T p effect vocab variables src c)) (token (outcome_claim (evaluate T p effect vocab variables src c))))"
    "set (admitted_caveats a) = {\<lparr>caveat_claim = outcome_claim (evaluate T p effect vocab variables src c), caveat_reason = anomaly_message x, caveat_source = src\<rparr> |
       c x. c \<in> set cs \<and> x \<in> set (outcome_anomalies (evaluate T p effect vocab variables src c))}"
    "as = concat (map (\<lambda>c. outcome_anomalies (evaluate T p effect vocab variables src c) @ outcome_notes (evaluate T p effect vocab variables src c)) cs)"
proof -
  let ?ev = "evaluate T p effect vocab variables src"
  obtain t where t: "project_constraints ?ev src cs (identity p, [], []) = Some (t,
       [] @ concat (map (\<lambda>c. map (\<lambda>a. \<lparr>caveat_claim = outcome_claim (?ev c), caveat_reason = anomaly_message a, caveat_source = src\<rparr>)
         (outcome_anomalies (?ev c))) cs),
       [] @ concat (map (\<lambda>c. outcome_anomalies (?ev c) @ outcome_notes (?ev c)) cs))"
    "keyed_term t" "\<And>token. term_admits token t \<longleftrightarrow> term_admits token (identity p) \<and> (\<forall>c \<in> set cs. satisfies (outcome_set (?ev c)) (token (outcome_claim (?ev c))))"
    by (rule project_constraints_spec [of "identity p" ?ev src cs "[]" "[]", OF keyed_identity evaluate_wf], rule that)
  let ?cvs = "concat (map (\<lambda>c. map (\<lambda>a. \<lparr>caveat_claim = outcome_claim (?ev c), caveat_reason = anomaly_message a, caveat_source = src\<rparr>)
         (outcome_anomalies (?ev c))) cs)"
  show thesis
  proof (rule that)
    show "project_conditions T cs p effect vocab variables src = Some (with_caveats (new_admitted_set [t]) ?cvs,
        concat (map (\<lambda>c. outcome_anomalies (?ev c) @ outcome_notes (?ev c)) cs))"
      by (simp add: project_conditions_def t(1))
    show "settled (with_caveats (new_admitted_set [t]) ?cvs)" by (rule settled_with_caveats [OF settled_one])
    show "admits (with_caveats (new_admitted_set [t]) ?cvs) token \<longleftrightarrow> term_admits token (identity p) \<and>
       (\<forall>c \<in> set cs. satisfies (outcome_set (?ev c)) (token (outcome_claim (?ev c))))" for token
      unfolding with_caveats_admits [OF settled_one] one_admits t(3) ..
    have "admitted_caveats (new_admitted_set [t]) = []" using one_exact by (simp add: is_exact_def)
    then show "set (admitted_caveats (with_caveats (new_admitted_set [t]) ?cvs)) =
        {\<lparr>caveat_claim = outcome_claim (?ev c), caveat_reason = anomaly_message x, caveat_source = src\<rparr> |
           c x. c \<in> set cs \<and> x \<in> set (outcome_anomalies (?ev c))}"
      by (auto simp: with_caveats_caveats [OF settled_one])
  qed (rule refl)
qed

section \<open>What the conditions of a statement ask of a token\<close>

text \<open>
  The specification: a constraint the parser read in full passes on a token that carries the claim
  with a value one of the listed texts admits; a constraint with a fact against it asks nothing.
\<close>

definition passes :: "fold_tables \<Rightarrow> principal \<Rightarrow> string \<Rightarrow> vocabulary option \<Rightarrow> variable_mode \<Rightarrow> string \<Rightarrow> token \<Rightarrow> written_constraint \<Rightarrow> bool" where
  "passes T p effect vocab variables src token c \<longleftrightarrow>
     outcome_anomalies (evaluate T p effect vocab variables src c) \<noteq> [] \<or>
     (case token (outcome_claim (evaluate T p effect vocab variables src c)) of
        None \<Rightarrow> False
      | Some v \<Rightarrow> list_ex (\<lambda>text. lists_value (reads_like c) variables text v) (fst (leaves (constraint_value c))))"

lemma evaluate_values:
  assumes "outcome_anomalies (evaluate T p effect vocab variables src c) = []"
  shows "plain_string c" "fst (snd (leaves (constraint_value c))) = None"
    "satisfies (outcome_set (evaluate T p effect vocab variables src c)) x \<longleftrightarrow>
       (\<exists>v text. x = Some v \<and> text \<in> set (fst (leaves (constraint_value c))) \<and> lists_value (reads_like c) variables text v)"
proof -
  obtain texts b where e: "leaves (constraint_value c) = (texts, None, b)" "texts \<noteq> []" "plain_string c"
    "key_facts T p variables c = []" "snd (snd (scope_facts T p vocab variables c)) = []"
    "outcome_claim (evaluate T p effect vocab variables src c) = fst (scope_facts T p vocab variables c)"
    "wf_set (outcome_set (evaluate T p effect vocab variables src c))"
    "\<not> is_top (outcome_set (evaluate T p effect vocab variables src c))"
    "\<And>v. contains (outcome_set (evaluate T p effect vocab variables src c)) v \<longleftrightarrow>
       (\<exists>text \<in> set texts. lists_value (reads_like c) variables text v)"
    by (rule evaluate_plain [OF assms], rule that)
  show "plain_string c" by (rule e(3))
  show "fst (snd (leaves (constraint_value c))) = None" by (simp add: e(1))
  show "satisfies (outcome_set (evaluate T p effect vocab variables src c)) x \<longleftrightarrow>
       (\<exists>v text. x = Some v \<and> text \<in> set (fst (leaves (constraint_value c))) \<and> lists_value (reads_like c) variables text v)"
    using e(8) by (cases x) (simp_all add: satisfies_def e(1) e(9) Bex_def)
qed

lemma passes_iff:
  "passes T p effect vocab variables src token c \<longleftrightarrow>
     satisfies (outcome_set (evaluate T p effect vocab variables src c)) (token (outcome_claim (evaluate T p effect vocab variables src c)))"
proof (cases "outcome_anomalies (evaluate T p effect vocab variables src c) = []")
  case True
  show ?thesis
    unfolding passes_def evaluate_values(3) [OF True] using True
    by (simp add: list_ex_iff Bex_def split: option.split)
next
  case False
  then show ?thesis using satisfies_top [OF evaluate_anomalies(3) [OF False]] by (simp add: passes_def)
qed

lemma gathered_empty: "{f c x | c x. c \<in> C \<and> x \<in> g c} = {} \<longleftrightarrow> (\<forall>c \<in> C. g c = {})"
  by auto

section \<open>Properties\<close>

text \<open>
  C36: A constraint is evaluated exactly or not at all: where any fact stands against it, its set is
  Unknown and admits every value and the absence of the claim; where none does, it is a StringEquals
  or a StringLike without a set prefix or IfExists, whose claim must be present with a value that
  one of the listed texts admits once its policy variables are resolved.
\<close>

theorem constraint_is_exact_or_unknown:
  "if outcome_anomalies (evaluate T p effect vocab variables src c) = []
   then plain_string c \<and> fst (snd (leaves (constraint_value c))) = None \<and>
     (\<forall>x. satisfies (outcome_set (evaluate T p effect vocab variables src c)) x \<longleftrightarrow>
       (\<exists>v text. x = Some v \<and> text \<in> set (fst (leaves (constraint_value c))) \<and> lists_value (reads_like c) variables text v))
   else is_unknown (outcome_set (evaluate T p effect vocab variables src c)) \<and>
     (\<forall>x. satisfies (outcome_set (evaluate T p effect vocab variables src c)) x)"
proof (cases "outcome_anomalies (evaluate T p effect vocab variables src c) = []")
  case True
  then show ?thesis using evaluate_values [OF True] by simp
next
  case False
  then show ?thesis using evaluate_anomalies(2) [OF False] satisfies_top [OF evaluate_anomalies(3) [OF False]] by auto
qed

text \<open>
  C34: The set a Condition element projects to is the conjunction it can prove: evaluation never
  fails, a token is admitted exactly when it meets the principal's own identity and passes every
  constraint that was read, a constraint that was not read takes nothing away, and the set is exact
  just when every constraint was read. Every fact that kept one from being read is an anomaly.
\<close>

theorem conditions_are_an_upper_bound:
  "\<exists>a as. project_conditions T cs p effect vocab variables src = Some (a, as)
     \<and> (\<forall>token. admits a token \<longleftrightarrow> term_admits token (identity p) \<and> (\<forall>c \<in> set cs. passes T p effect vocab variables src token c))
     \<and> (is_exact a \<longleftrightarrow> (\<forall>c \<in> set cs. outcome_anomalies (evaluate T p effect vocab variables src c) = []))
     \<and> (\<Union>c \<in> set cs. set (outcome_anomalies (evaluate T p effect vocab variables src c))) \<subseteq> set as"
proof -
  obtain a as where a: "project_conditions T cs p effect vocab variables src = Some (a, as)" "settled a"
    "\<And>token. admits a token \<longleftrightarrow> term_admits token (identity p) \<and>
       (\<forall>c \<in> set cs. satisfies (outcome_set (evaluate T p effect vocab variables src c)) (token (outcome_claim (evaluate T p effect vocab variables src c))))"
    "set (admitted_caveats a) = {\<lparr>caveat_claim = outcome_claim (evaluate T p effect vocab variables src c), caveat_reason = anomaly_message x, caveat_source = src\<rparr> |
       c x. c \<in> set cs \<and> x \<in> set (outcome_anomalies (evaluate T p effect vocab variables src c))}"
    "as = concat (map (\<lambda>c. outcome_anomalies (evaluate T p effect vocab variables src c) @ outcome_notes (evaluate T p effect vocab variables src c)) cs)"
    by (rule project_conditions_spec, rule that)
  have "is_exact a \<longleftrightarrow> set (admitted_caveats a) = {}" by (simp add: is_exact_def)
  also have "\<dots> \<longleftrightarrow> (\<forall>c \<in> set cs. set (outcome_anomalies (evaluate T p effect vocab variables src c)) = {})"
    unfolding a(4) by (rule gathered_empty)
  finally have exact: "is_exact a \<longleftrightarrow> (\<forall>c \<in> set cs. outcome_anomalies (evaluate T p effect vocab variables src c) = [])" by simp
  have admits: "\<forall>token. admits a token \<longleftrightarrow> term_admits token (identity p) \<and> (\<forall>c \<in> set cs. passes T p effect vocab variables src token c)"
    using a(3) by (simp add: passes_iff)
  show ?thesis
    by (rule exI [of _ a], rule exI [of _ as], intro conjI a(1) admits exact) (auto simp: a(5))
qed

definition sample_string :: "string \<Rightarrow> json_value" where
  "sample_string text = Value kindString text False [] [] (dquote # text @ [dquote]) 0 (length text + 2)"

definition sample_constraint :: "string \<Rightarrow> string \<Rightarrow> string \<Rightarrow> written_constraint" where
  "sample_constraint oper key text =
     \<lparr>constraint_operator = oper, constraint_key = key, constraint_value = sample_string text,
      constraint_repeated = \<lparr>repeat_what = [], repeat_message = []\<rparr>\<rparr>"

definition no_tables :: fold_tables where
  "no_tables = \<lparr>fold_variants = [], fold_wide = []\<rparr>"

theorem conditions_are_an_upper_bound_witness:
  "\<exists>a as. project_conditions no_tables [sample_constraint ''StringLike'' ''h.io:sub'' ''repo:o/*'']
      (oidc_principal no_tables ''h.io'' ''h.io'' ''https://h.io'') Allow (Some (lowercase_vocabulary [''https://h.io''])) variablesResolved ''s'' = Some (a, as)
    \<and> admits a [''sub'' \<mapsto> ''repo:o/r''] \<and> \<not> admits a [''sub'' \<mapsto> ''repo:x''] \<and> \<not> admits a Map.empty \<and> is_exact a"
proof -
  let ?c = "sample_constraint ''StringLike'' ''h.io:sub'' ''repo:o/*''" and ?p = "oidc_principal no_tables ''h.io'' ''h.io'' ''https://h.io''"
  let ?v = "Some (lowercase_vocabulary [''https://h.io''])"
  have e: "term_admits [''sub'' \<mapsto> ''repo:o/r''] (identity ?p)"
    "passes no_tables ?p Allow ?v variablesResolved ''s'' [''sub'' \<mapsto> ''repo:o/r''] ?c"
    "\<not> passes no_tables ?p Allow ?v variablesResolved ''s'' [''sub'' \<mapsto> ''repo:x''] ?c"
    "\<not> passes no_tables ?p Allow ?v variablesResolved ''s'' Map.empty ?c"
    "outcome_anomalies (evaluate no_tables ?p Allow ?v variablesResolved ''s'' ?c) = []"
    by (simp add: term_admits_def identity_def oidc_principal_def a_principal_def) code_simp+
  show ?thesis
    using conditions_are_an_upper_bound [of no_tables "[?c]" ?p Allow ?v variablesResolved "''s''"] e by auto
qed

text \<open>
  The balanced folds are the plain ones: joining a list of constraints in pairs gives what
  joining them from the left does, to the node, and declaring caveats through empty carriers gives
  what declaring them one after another does.
\<close>

theorem balanced_folds_agree:
  assumes "\<forall>s \<in> set (x # xs). built s"
  shows "join_all join (x # xs) = foldl join x xs
    \<and> with_caveats (new_admitted_set [t]) cs = fold with_caveat cs (new_admitted_set [t])"
proof
  have "\<forall>s \<in> set (x # xs). wf_set s" using assms built_wf by blast
  then show "join_all join (x # xs) = foldl join x xs" using set_join.join_all_fold [of "x # xs"] by simp
  show "with_caveats (new_admitted_set [t]) cs = fold with_caveat cs (new_admitted_set [t])"
    unfolding with_caveats_settled [OF settled_one] fold_with_caveat_settled [OF settled_one] ..
qed

theorem balanced_folds_agree_witness:
  "join_all join [Exact ''a'', Glob ''b*'', Exact ''bc''] = foldl join (Exact ''a'') [Glob ''b*'', Exact ''bc'']"
proof -
  have "\<forall>s \<in> set [Exact ''a'', Glob ''b*'', Exact ''bc'']. built s"
    by (auto intro: built.intros(1) built.intros(2))
  then show ?thesis using balanced_folds_agree by blast
qed

end
