(* ===== verification/Aws_Policy.thy ===== *)
theory Aws_Policy imports Aws_Condition_Laws begin

text \<open>
  Package parse/aws, the statement and the document (policy.go, and the questions principal.go
  answers from a whole statement). The root value is what json.go decodes; from it on every
  function is total, and whatever could not be read is recorded, never dropped.
\<close>

section \<open>Statements\<close>

record statement =
  statement_sid :: string
  statement_effect :: string
  statement_principals :: "principal list"
  statement_actions :: action_set
  statement_conditions :: "written_constraint list"
  statement_raw :: string
  statement_findings :: findings

definition statement_members :: "string list" where
  "statement_members = [''Sid'', ''Effect'', ''Principal'', ''NotPrincipal'', ''Action'', ''NotAction'', ''Condition'']"

definition parse_sid :: "member_group option \<Rightarrow> string \<Rightarrow> findings \<Rightarrow> string \<times> findings" where
  "parse_sid grp src f =
     (case grp of
        None \<Rightarrow> ([], f)
      | Some g \<Rightarrow>
        (let f = (if 1 < length (group_values g) then record_note (duplicated g [] src) f else f);
             v = hd (group_values g) in
         if value_kind v \<noteq> kindString
         then ([], record_note (an_anomaly Malformed [] ''Sid'' (''Sid is '' @ describe v @ '', not a string'') (src @ ''.Sid'')) f)
         else (value_text v, f)))"

definition effect_consequence :: string where
  "effect_consequence = ''the effect is not known and is read as possibly Allow''"

definition parse_effect :: "member_group option \<Rightarrow> string \<Rightarrow> findings \<Rightarrow> string \<times> findings" where
  "parse_effect grp src f =
     (case grp of
        None \<Rightarrow> (EffectUnknown, record_note (an_anomaly Malformed [] ''Effect''
          (''the statement has no Effect member, so '' @ effect_consequence) (src @ ''.Effect'')) f)
      | Some g \<Rightarrow>
        if 1 < length (group_values g) then (EffectUnknown, record_note (duplicated g effect_consequence src) f)
        else (let v = hd (group_values g) in
          if value_kind v \<noteq> kindString
          then (EffectUnknown, record_note (an_anomaly Malformed [] ''Effect''
            (''Effect is '' @ describe v @ '', not a string, so '' @ effect_consequence) (src @ ''.Effect'')) f)
          else if value_text v = ''Allow'' then (Allow, f)
          else if value_text v = ''Deny'' then (Deny, f)
          else (EffectUnknown, record_note (an_anomaly Malformed [] ''Effect''
            (''Effect is '' @ quote_to_ascii (value_text v) @ ''; AWS accepts exactly '' @ [dquote] @ ''Allow'' @ [dquote] @ '' or '' @ [dquote] @ ''Deny'' @ [dquote] @ '', so '' @ effect_consequence) (src @ ''.Effect'')) f)))"

text \<open>The loop over a statement's members: one the parser does not model widens.\<close>

definition unmodelled_member :: "string \<Rightarrow> member_group \<Rightarrow> findings \<Rightarrow> findings" where
  "unmodelled_member src g f =
     (if group_name g \<in> set statement_members then f
      else widen (an_anomaly Unmodelled [] (group_name g)
        (''the statement member '' @ quote_to_ascii (group_name g) @ '' is not one this parser models, so what it does to the statement is not known'') src) f)"

text \<open>byName: the group of that name, None for Go's nil.\<close>

definition by_name :: "member_group list \<Rightarrow> string \<Rightarrow> member_group option" where
  "by_name groups name = List.find (\<lambda>g. group_name g = name) groups"

definition unread_statement :: "json_value \<Rightarrow> anomaly \<Rightarrow> statement" where
  "unread_statement v a =
     \<lparr>statement_sid = [], statement_effect = EffectUnknown, statement_principals = nobody, statement_actions = unknown_actions,
      statement_conditions = [], statement_raw = value_bytes v, statement_findings = widen a no_findings\<rparr>"

definition parse_statement :: "fold_tables \<Rightarrow> json_value \<Rightarrow> string \<Rightarrow> statement" where
  "parse_statement T v src =
     (if value_kind v \<noteq> kindObject
      then unread_statement v (an_anomaly Malformed [] ''Statement''
        (''the statement is '' @ describe v @ '', not an object, so what it grants is not known'') src)
      else (let groups = group_members v exact_name;
                f = fold (unmodelled_member src) groups no_findings;
                (sid, f) = parse_sid (by_name groups ''Sid'') src f;
                (effect, f) = parse_effect (by_name groups ''Effect'') src f;
                (principals, f) = parse_principals T (by_name groups ''Principal'') (by_name groups ''NotPrincipal'') src f;
                (actions, f) = parse_actions T (by_name groups ''Action'') (by_name groups ''NotAction'') src f;
                (conditions, f) = parse_conditions T (by_name groups ''Condition'') src f in
        \<lparr>statement_sid = sid, statement_effect = effect, statement_principals = principals, statement_actions = actions,
         statement_conditions = conditions, statement_raw = value_bytes v, statement_findings = f\<rparr>))"

section \<open>Documents\<close>

record document =
  document_version :: string
  document_statements :: "statement list"
  document_anomalies :: "anomaly list"
  document_variables :: variable_mode

definition note_document :: "anomaly \<Rightarrow> document \<Rightarrow> document" where
  "note_document a d = d\<lparr>document_anomalies := document_anomalies d @ [a]\<rparr>"

definition statement_source :: "nat \<Rightarrow> string" where
  "statement_source i = ''statement['' @ itoa (int i) @ '']''"

definition append_unreadable :: "json_value \<Rightarrow> anomaly \<Rightarrow> document \<Rightarrow> document" where
  "append_unreadable v a d =
     d\<lparr>document_statements := document_statements d @
       [unread_statement v (a\<lparr>anomaly_source := statement_source (length (document_statements d))\<rparr>)]\<rparr>"

definition parse_version :: "member_group \<Rightarrow> document \<Rightarrow> document" where
  "parse_version g d =
     (let v = hd (group_values g);
          uncertain = (\<lambda>kind message d. (note_document (an_anomaly kind [] ''Version'' message ''document'') d)
            \<lparr>document_variables := variablesUncertain\<rparr>) in
      if 1 < length (group_values g)
      then uncertain DuplicateKey ''the member Version appears more than once in the document; policy variables are read as unresolved'' d
      else if value_kind v \<noteq> kindString
      then uncertain Malformed (''Version is '' @ describe v @ '', not a string; policy variables are read as unresolved'') d
      else (let d = d\<lparr>document_version := value_text v\<rparr> in
        if value_text v = ''2012-10-17'' then d\<lparr>document_variables := variablesResolved\<rparr>
        else if value_text v = ''2008-10-17'' then d\<lparr>document_variables := variablesLiteral\<rparr>
        else uncertain Malformed (''Version '' @ quote_to_ascii (value_text v) @ '' is neither '' @ [dquote] @ ''2012-10-17'' @ [dquote] @ '' nor '' @ [dquote] @ ''2008-10-17'' @ [dquote] @ ''; policy variables are read as unresolved'') d))"

definition parse_id :: "member_group \<Rightarrow> document \<Rightarrow> document" where
  "parse_id g d =
     fold (\<lambda>v d. if value_kind v \<noteq> kindString
         then note_document (an_anomaly Malformed [] ''Id'' (''Id is '' @ describe v @ '', not a string'') ''document'') d else d)
       (group_values g)
       (if 1 < length (group_values g)
        then note_document (an_anomaly DuplicateKey [] ''Id'' ''the member Id appears more than once in the document'' ''document'') d else d)"

text \<open>One statement of parseStatements, at the next index; the items of one copy; all of them.\<close>

definition add_statement :: "fold_tables \<Rightarrow> bool \<Rightarrow> json_value \<Rightarrow> document \<Rightarrow> document" where
  "add_statement T repeated item d =
     (let src = statement_source (length (document_statements d)); s = parse_statement T item src in
      d\<lparr>document_statements := document_statements d @
        [if repeated
         then s\<lparr>statement_findings := doubt (an_anomaly DuplicateKey [] ''Statement''
           ''the member Statement appears more than once in the document; a JSON decoder keeps one copy and the deployed policy may carry either, so whether this statement is deployed is not known'' src) (statement_findings s)\<rparr>
         else s]\<rparr>)"

definition statement_items :: "json_value list \<Rightarrow> json_value list" where
  "statement_items vs = concat (map (\<lambda>v. if value_kind v = kindArray then value_items v else [v]) vs)"

definition parse_statements :: "fold_tables \<Rightarrow> member_group \<Rightarrow> document \<Rightarrow> document" where
  "parse_statements T g d =
     (let repeated = 1 < length (group_values g);
          d = (if repeated
            then note_document (an_anomaly DuplicateKey [] ''Statement'' ''the member Statement appears more than once in the document; every statement in every copy is kept'' ''document'') d
            else d);
          its = statement_items (group_values g);
          d = fold (add_statement T repeated) its d in
      if length its = 0
      then note_document (an_anomaly Malformed [] ''Statement'' ''Statement is an empty list, so the document grants nothing'' ''document'') d
      else d)"

text \<open>One member of the document, by its name.\<close>

definition parse_member :: "fold_tables \<Rightarrow> member_group \<Rightarrow> document \<Rightarrow> document" where
  "parse_member T g d =
     (if group_name g = ''Version'' then parse_version g d
      else if group_name g = ''Id'' then parse_id g d
      else if group_name g = ''Statement'' then parse_statements T g d
      else fold (\<lambda>v. append_unreadable v (an_anomaly Malformed [] (group_name g)
          (''the document member '' @ quote_to_ascii (group_name g) @ '' is not one the IAM policy grammar defines, so what it grants is not known'') []))
        (group_values g) d)"

definition parse_document :: "fold_tables \<Rightarrow> json_value \<Rightarrow> document" where
  "parse_document T root =
     (let groups = group_members root exact_name;
          d = fold (parse_member T) groups \<lparr>document_version = [], document_statements = [], document_anomalies = [],
            document_variables = variablesLiteral\<rparr> in
      if \<not> list_ex (\<lambda>g. group_name g = ''Statement'') groups
      then note_document (an_anomaly Malformed [] ''Statement'' ''the document has no Statement member; the IAM grammar requires one'' ''document'') d
      else d)"

section \<open>Questions a classifier asks of a statement\<close>

text \<open>The loop of IssuerlessPopulation over the patterns: None for the return of EveryIssuer.\<close>

fun population_of :: "fold_tables \<Rightarrow> string_set list \<Rightarrow> bool \<times> bool \<Rightarrow> (bool \<times> bool) option" where
  "population_of T [] (services, saml) = Some (services, saml)"
| "population_of T (pattern # ps) (services, saml) =
     (let action = shape_of pattern in
      if shape_kind action \<noteq> ShapeExact \<or> folds_beyond_ascii T (shape_text action) \<or> shape_text action = assumeWithWebIdentity
      then None
      else if shape_text action = assumeRole then population_of T ps (True, saml)
      else if shape_text action = assumeWithSAML then population_of T ps (services, True)
      else population_of T ps (services, saml))"

definition issuerless_population :: "fold_tables \<Rightarrow> statement \<Rightarrow> aws_population" where
  "issuerless_population T s =
     (let kinds = map principal_kind (statement_principals s) in
      if principalUnreadable \<in> set kinds \<or> principalAnyone \<notin> set kinds \<or> actions_unknown (statement_actions s)
      then EveryIssuer
      else case population_of T (action_patterns (statement_actions s)) (False, False) of
        None \<Rightarrow> EveryIssuer
      | Some (services, saml) \<Rightarrow>
        if services \<and> saml then AWSServicesAndAccountSAMLProviders
        else if services then AWSServices
        else if saml then AccountSAMLProviders
        else EveryIssuer)"

definition models_principal_of :: "statement \<Rightarrow> grant \<Rightarrow> bool" where
  "models_principal_of s g = (\<not> list_ex (\<lambda>p. \<not> is_modelled p \<and> projects p g) (statement_principals s))"

end
