(* ===== verification/Aws_Grant.thy ===== *)
theory Aws_Grant imports Aws_Policy begin

text \<open>
  Package parse/aws, grant.go: a document projected onto the trust model, one grant for each
  statement and face of its principals, in canonical order; and the conditions a grant did not
  read (condition.go, Unread).
\<close>

section \<open>One statement\<close>

definition distinct_anomalies :: "anomaly list \<Rightarrow> anomaly list" where
  "distinct_anomalies as = keep_first as"

definition deny_not_applied :: string where
  "deny_not_applied = ''this Deny statement could not be fully evaluated, so it is not applied; the admitted set is an upper bound''"

text \<open>The end of grant: the set, widened and doubted as the findings say, and a Deny that is not exact.\<close>

definition admits_of :: "statement \<Rightarrow> principal \<Rightarrow> findings \<Rightarrow> admitted_set \<Rightarrow> admitted_set" where
  "admits_of s p foldings conditions =
     (let f = statement_findings s; pf = principal_findings p;
          adm = (if 0 < length (findings_widenings f) + length (findings_widenings pf)
            then with_caveats Everything (admitted_caveats conditions) else conditions) in
      with_caveats adm (findings_caveats f @ findings_caveats pf @ findings_caveats foldings))"

definition apply_effect :: "string \<Rightarrow> string \<Rightarrow> admitted_set \<Rightarrow> admitted_set \<times> anomaly list" where
  "apply_effect effect src adm =
     (if effect = Deny \<and> \<not> is_exact adm
      then (with_caveats Nothing (admitted_caveats adm @
          [\<lparr>caveat_claim = [], caveat_reason = deny_not_applied, caveat_source = src\<rparr>]),
        [an_anomaly Unmodelled [] ''Deny'' deny_not_applied src])
      else (adm, []))"

definition statement_grant :: "fold_tables \<Rightarrow> statement \<Rightarrow> principal \<Rightarrow> string \<Rightarrow> target_ref \<Rightarrow> vocabulary option \<Rightarrow> variable_mode \<Rightarrow>
    grant option" where
  "statement_grant T s p src target vocab variables =
     (case project_conditions T (statement_conditions s) p (statement_effect s) vocab variables (src @ ''.Condition'') of
        None \<Rightarrow> None
      | Some (conditions, condition_anomalies) \<Rightarrow>
        (let found = distinct_anomalies (findings_anomalies (statement_findings s) @
               findings_anomalies (principal_findings p) @ condition_anomalies);
             assume_acts = assume_actions p;
             untaken = (\<not> actions_unknown (statement_actions s) \<and> \<not> covers (statement_actions s) assume_acts);
             foldings = (if untaken then folding_doubts (statement_actions s) assume_acts (src @ ''.Action'') else no_findings);
             granted = (\<lambda>adm anomalies. \<lparr>grant_target = target, grant_issuer = principal_issuer p, grant_admits = adm,
               grant_effect = statement_effect s, grant_provenance = [], grant_anomalies = anomalies, grant_source = statement_raw s\<rparr>) in
         if untaken \<and> length (findings_anomalies foldings) = 0
         then Some (granted Nothing (found @ [an_anomaly NotAnAssumeAction [] ''Action''
           (''the actions do not include '' @ spell_actions assume_acts @ '', so this statement lets nobody assume the role through this principal'') (src @ ''.Action'')]))
         else (let found = (if untaken then distinct_anomalies (found @ findings_anomalies foldings) else found) in
           case apply_effect (statement_effect s) src (admits_of s p foldings conditions) of
             (adm, denied) \<Rightarrow> Some (granted adm (found @ denied)))))"

section \<open>The order of grants\<close>

definition nul :: string where "nul = [CHR 0x00]"

definition grant_key :: "grant \<Rightarrow> string" where
  "grant_key g =
     grant_issuer g @ nul @ grant_effect g @ nul @ render_admitted (grant_admits g) @ nul @
     concat (map (\<lambda>c. caveat_claim c @ ''='' @ caveat_reason c @ '';'') (admitted_caveats (grant_admits g))) @ nul @
     concat (map (\<lambda>a. anomaly_kind a @ ''/'' @ anomaly_claim a @ ''/'' @ anomaly_construct a @ ''/'' @ anomaly_message a @ '';'')
       (grant_anomalies g))"

record written =
  written_member :: string
  written_text :: string
  written_start :: nat
  written_end :: nat

definition principal_written :: "principal \<Rightarrow> written" where
  "principal_written p =
     (if principal_kind p = principalCanonicalUser
      then \<lparr>written_member = [], written_text = [], written_start = 0, written_end = 0\<rparr>
      else \<lparr>written_member = principal_member p, written_text = principal_text p,
        written_start = principal_start p, written_end = principal_end p\<rparr>)"

record written_grant =
  the_grant :: grant
  the_written :: written

text \<open>sortGrants: the keys are computed once, and the sort is stable.\<close>

definition sort_grants :: "written_grant list \<Rightarrow> written_grant list" where
  "sort_grants gs =
     map snd (sort_func (\<lambda>a b. go_compare (fst a) (fst b)) (map (\<lambda>g. (grant_key (the_grant g), g)) gs))"

section \<open>The document\<close>

text \<open>The three loops of GrantsWritten: statements, principals, faces. None where a grant panics.\<close>

definition statement_faces :: "statement \<Rightarrow> string \<Rightarrow> principal list" where
  "statement_faces s src = concat (map (\<lambda>p. faces p (statement_actions s) (src @ ''.Principal'')) (statement_principals s))"

fun face_grants :: "fold_tables \<Rightarrow> statement \<Rightarrow> string \<Rightarrow> target_ref \<Rightarrow> vocabulary option \<Rightarrow> variable_mode \<Rightarrow> principal list \<Rightarrow>
    written_grant list option" where
  "face_grants T s src target vocab variables [] = Some []"
| "face_grants T s src target vocab variables (face # fs) =
     (case statement_grant T s face src target vocab variables of
        None \<Rightarrow> None
      | Some g \<Rightarrow> map_option (\<lambda>gs. \<lparr>the_grant = g, the_written = principal_written face\<rparr> # gs)
          (face_grants T s src target vocab variables fs))"

fun statement_grants :: "fold_tables \<Rightarrow> target_ref \<Rightarrow> vocabulary option \<Rightarrow> variable_mode \<Rightarrow> nat \<Rightarrow> statement list \<Rightarrow>
    written_grant list option" where
  "statement_grants T target vocab variables i [] = Some []"
| "statement_grants T target vocab variables i (s # ss) =
     (case face_grants T s (statement_source i) target vocab variables (statement_faces s (statement_source i)) of
        None \<Rightarrow> None
      | Some gs \<Rightarrow> map_option (\<lambda>hs. gs @ hs) (statement_grants T target vocab variables (i + 1) ss))"

definition grants_written :: "fold_tables \<Rightarrow> document \<Rightarrow> target_ref \<Rightarrow> vocabulary option \<Rightarrow> (grant list \<times> written list) option" where
  "grants_written T d target vocab =
     (case statement_grants T target vocab (document_variables d) 0 (document_statements d) of
        None \<Rightarrow> None
      | Some out \<Rightarrow> (let out = sort_grants out in Some (map the_grant out, map the_written out)))"

definition grants :: "fold_tables \<Rightarrow> document \<Rightarrow> target_ref \<Rightarrow> vocabulary option \<Rightarrow> grant list option" where
  "grants T d target vocab = map_option fst (grants_written T d target vocab)"

section \<open>Conditions a grant did not read\<close>

record unread_condition =
  condition_operator :: string
  condition_key :: string
  condition_values :: "string list"

definition value_as_text :: "json_value \<Rightarrow> string" where
  "value_as_text v =
     (case value_kind v of
        kindString \<Rightarrow> value_text v
      | kindNumber \<Rightarrow> value_text v
      | kindBool \<Rightarrow> if value_boolean v then ''true'' else ''false''
      | kindNull \<Rightarrow> ''null''
      | _ \<Rightarrow> value_bytes v)"

definition values_written :: "json_value \<Rightarrow> string list" where
  "values_written v =
     (if value_kind v \<noteq> kindArray then [value_as_text v] else map value_as_text (value_items v))"

text \<open>Unread, None for Go's false. The statement index is an int, as the code takes it.\<close>

definition unread :: "fold_tables \<Rightarrow> document \<Rightarrow> int \<Rightarrow> written \<Rightarrow> string \<Rightarrow> vocabulary option \<Rightarrow> unread_condition list option" where
  "unread T d i w issuer vocab =
     (if i < 0 \<or> int (length (document_statements d)) \<le> i then None
      else (let s = document_statements d ! nat i;
                src = ''statement['' @ itoa i @ '']'';
                fs = concat (map (\<lambda>p. if principal_written p \<noteq> w then []
                  else filter (\<lambda>face. principal_issuer face = issuer) (faces p (statement_actions s) (src @ ''.Principal'')))
                  (statement_principals s)) in
        if length fs \<noteq> 1 then None
        else (let face = hd fs;
                  widened = (0 < length (findings_widenings (statement_findings s)) + length (findings_widenings (principal_findings face))) in
          Some (map (\<lambda>c. \<lparr>condition_operator = constraint_operator c, condition_key = constraint_key c,
                condition_values = values_written (constraint_value c)\<rparr>)
              (filter (\<lambda>c. widened \<or> 0 < length (outcome_anomalies (evaluate T face (statement_effect s) vocab (document_variables d)
                  (src @ ''.Condition'') c)))
                (statement_conditions s))))))"

end
