(* ===== verification/Aws_Grant_Laws.thy ===== *)
theory Aws_Grant_Laws imports Aws_Grant begin

text \<open>
  What a projected grant promises: an Allow is never narrower than the statement, a Deny never
  wider, a set is exact only where everything was read, every statement projects, and the order of
  the grants is a stable sort.
\<close>

section \<open>One grant\<close>

text \<open>Whether a statement's actions reach an assume action of the principal, in full or under a folding AWS does not document.\<close>

definition reaches :: "statement \<Rightarrow> principal \<Rightarrow> bool" where
  "reaches s p \<longleftrightarrow> actions_unknown (statement_actions s) \<or> covers (statement_actions s) (assume_actions p) \<or>
     list_ex (\<lambda>w. list_ex (contains (wide_reading w)) (assume_actions p)) (wide_actions (statement_actions s))"

text \<open>Whether some finding leaves the whole statement, or the principal, unevaluated.\<close>

definition unevaluated :: "statement \<Rightarrow> principal \<Rightarrow> bool" where
  "unevaluated s p \<longleftrightarrow> findings_widenings (statement_findings s) \<noteq> [] \<or> findings_widenings (principal_findings p) \<noteq> []"

text \<open>Whether everything that decides who is admitted was read.\<close>

definition read_in_full :: "fold_tables \<Rightarrow> statement \<Rightarrow> principal \<Rightarrow> string \<Rightarrow> vocabulary option \<Rightarrow> variable_mode \<Rightarrow> bool" where
  "read_in_full T s p src vocab variables \<longleftrightarrow>
     findings_caveats (statement_findings s) = [] \<and> findings_caveats (principal_findings p) = [] \<and>
     (actions_unknown (statement_actions s) \<or> covers (statement_actions s) (assume_actions p)) \<and>
     list_all (\<lambda>c. outcome_anomalies (evaluate T p (statement_effect s) vocab variables (src @ ''.Condition'') c) = []) (statement_conditions s)"

text \<open>Whether a token meets the principal's identity and every condition that was read.\<close>

definition meets :: "fold_tables \<Rightarrow> statement \<Rightarrow> principal \<Rightarrow> string \<Rightarrow> vocabulary option \<Rightarrow> variable_mode \<Rightarrow> token \<Rightarrow> bool" where
  "meets T s p src vocab variables token \<longleftrightarrow>
     term_admits token (identity p) \<and>
     (\<forall>c \<in> set (statement_conditions s). passes T p (statement_effect s) vocab variables (src @ ''.Condition'') token c)"

lemma everything_set: "admits Everything token" "\<not> admits Nothing token"
  by (simp_all add: Everything_def Nothing_def admits_iff term_admits_def)

lemma admits_of_spec:
  assumes "settled a" "fv = findings_caveats (statement_findings s) @ findings_caveats (principal_findings p) @ findings_caveats f"
  shows "settled (admits_of s p f a)"
    "admits (admits_of s p f a) token \<longleftrightarrow> unevaluated s p \<or> admits a token"
    "is_exact (admits_of s p f a) \<longleftrightarrow> is_exact a \<and> fv = []"
    "set (admitted_caveats (admits_of s p f a)) = set (admitted_caveats a) \<union> set fv"
proof -
  let ?w = "0 < length (findings_widenings (statement_findings s)) + length (findings_widenings (principal_findings p))"
  have w: "?w \<longleftrightarrow> unevaluated s p" by (simp add: unevaluated_def)
  let ?b = "if ?w then with_caveats Everything (admitted_caveats a) else a"
  have b: "settled ?b" "admits ?b token \<longleftrightarrow> unevaluated s p \<or> admits a token" "is_exact ?b \<longleftrightarrow> is_exact a"
    "set (admitted_caveats ?b) = set (admitted_caveats a)"
    using assms(1) w by (simp_all add: settled_with_caveats settled_constants with_caveats_admits with_caveats_exact with_caveats_caveats everything_set)
      (simp_all add: Everything_def is_exact_def)
  have e: "admits_of s p f a = with_caveats ?b fv" by (simp add: admits_of_def Let_def assms(2))
  show "settled (admits_of s p f a)"
    "admits (admits_of s p f a) token \<longleftrightarrow> unevaluated s p \<or> admits a token"
    "is_exact (admits_of s p f a) \<longleftrightarrow> is_exact a \<and> fv = []"
    "set (admitted_caveats (admits_of s p f a)) = set (admitted_caveats a) \<union> set fv"
    unfolding e using b by (simp_all add: settled_with_caveats with_caveats_admits with_caveats_exact with_caveats_caveats)
qed

lemma apply_effect_spec:
  assumes "settled a" "apply_effect effect src a = (b, denied)"
  shows "admits b token \<longleftrightarrow> \<not> (effect = Deny \<and> \<not> is_exact a) \<and> admits a token" "is_exact b \<longleftrightarrow> is_exact a"
proof -
  have n: "is_exact (with_caveats Nothing (cs @ [c])) = False" for cs c
    by (simp add: with_caveats_exact settled_constants)
  show "admits b token \<longleftrightarrow> \<not> (effect = Deny \<and> \<not> is_exact a) \<and> admits a token" "is_exact b \<longleftrightarrow> is_exact a"
    using assms n by (auto simp: apply_effect_def everything_set with_caveats_admits settled_constants split: if_splits)
qed

lemma folding_caveats:
  "findings_caveats (folding_doubts a actions src) = [] \<longleftrightarrow> findings_anomalies (folding_doubts a actions src) = []"
  by (simp add: findings_caveats_def folding_doubts_widen folding_doubts_doubts)

lemma statement_grant_spec:
  obtains g where "statement_grant T s p src target vocab variables = Some g"
    "grant_issuer g = principal_issuer p" "grant_effect g = statement_effect s" "grant_source g = statement_raw s" "grant_target g = target"
    "\<And>token. admits (grant_admits g) token \<longleftrightarrow> reaches s p \<and>
       (statement_effect s = Deny \<longrightarrow> read_in_full T s p src vocab variables) \<and>
       (unevaluated s p \<or> meets T s p src vocab variables token)"
    "is_exact (grant_admits g) \<longleftrightarrow> \<not> reaches s p \<or> read_in_full T s p src vocab variables"
    "set (findings_anomalies (statement_findings s)) \<union> set (findings_anomalies (principal_findings p)) \<subseteq> set (grant_anomalies g)"
proof -
  let ?src = "src @ ''.Condition''" and ?acts = "statement_actions s" and ?as = "assume_actions p"
  obtain a as where a: "project_conditions T (statement_conditions s) p (statement_effect s) vocab variables ?src = Some (a, as)" "settled a"
    "\<And>token. admits a token \<longleftrightarrow> term_admits token (identity p) \<and>
       (\<forall>c \<in> set (statement_conditions s). satisfies (outcome_set (evaluate T p (statement_effect s) vocab variables ?src c)) (token (outcome_claim (evaluate T p (statement_effect s) vocab variables ?src c))))"
    "set (admitted_caveats a) = {\<lparr>caveat_claim = outcome_claim (evaluate T p (statement_effect s) vocab variables ?src c), caveat_reason = anomaly_message x, caveat_source = ?src\<rparr> |
       c x. c \<in> set (statement_conditions s) \<and> x \<in> set (outcome_anomalies (evaluate T p (statement_effect s) vocab variables ?src c))}"
    "as = concat (map (\<lambda>c. outcome_anomalies (evaluate T p (statement_effect s) vocab variables ?src c) @ outcome_notes (evaluate T p (statement_effect s) vocab variables ?src c)) (statement_conditions s))"
    by (rule project_conditions_spec, rule that)
  have meets: "admits a token \<longleftrightarrow> meets T s p src vocab variables token" for token
    using a(3) by (simp add: meets_def passes_iff)
  have "is_exact a \<longleftrightarrow> set (admitted_caveats a) = {}" by (simp add: is_exact_def)
  also have "\<dots> \<longleftrightarrow> (\<forall>c \<in> set (statement_conditions s). set (outcome_anomalies (evaluate T p (statement_effect s) vocab variables ?src c)) = {})"
    unfolding a(4) by (rule gathered_empty)
  finally have exact: "is_exact a \<longleftrightarrow> list_all (\<lambda>c. outcome_anomalies (evaluate T p (statement_effect s) vocab variables ?src c) = []) (statement_conditions s)"
    by (simp add: list_all_iff)
  define untaken where "untaken \<longleftrightarrow> \<not> actions_unknown ?acts \<and> \<not> covers ?acts ?as"
  define f where "f = (if untaken then folding_doubts ?acts ?as (src @ ''.Action'') else no_findings)"
  define found where "found = distinct_anomalies (findings_anomalies (statement_findings s) @ findings_anomalies (principal_findings p) @ as)"
  have found: "set (findings_anomalies (statement_findings s)) \<union> set (findings_anomalies (principal_findings p)) \<subseteq> set found"
    by (auto simp: found_def distinct_anomalies_def)
  have fc: "findings_caveats f = [] \<longleftrightarrow> findings_anomalies f = []"
    by (simp add: f_def folding_caveats) (simp add: findings_caveats_def findings_simps)
  have none: "findings_anomalies f = [] \<longleftrightarrow> \<not> untaken \<or> \<not> reaches s p"
    by (auto simp: f_def folding_doubts_anomalies findings_simps reaches_def untaken_def list_ex_iff)
  have full: "read_in_full T s p src vocab variables \<longleftrightarrow> findings_caveats (statement_findings s) = [] \<and>
      findings_caveats (principal_findings p) = [] \<and> \<not> untaken \<and> is_exact a"
    by (auto simp: read_in_full_def untaken_def exact)
  show thesis
  proof (cases "untaken \<and> findings_anomalies f = []")
    case True
    then have r: "\<not> reaches s p" using none by blast
    let ?g = "\<lparr>grant_target = target, grant_issuer = principal_issuer p, grant_admits = Nothing,
               grant_effect = statement_effect s, grant_provenance = [], grant_anomalies = found @ [an_anomaly NotAnAssumeAction [] ''Action''
           (''the actions do not include '' @ spell_actions ?as @ '', so this statement lets nobody assume the role through this principal'') (src @ ''.Action'')],
           grant_source = statement_raw s\<rparr>"
    have "statement_grant T s p src target vocab variables = Some ?g"
      using True by (auto simp: statement_grant_def a(1) Let_def untaken_def f_def found_def)
    then show thesis
      by (rule that) (use r found in \<open>auto simp: everything_set\<close>, simp_all add: Nothing_def is_exact_def)
  next
    case False
    then have r: "reaches s p" using none by (auto simp: reaches_def untaken_def)
    let ?b = "admits_of s p f a"
    obtain b denied where ap: "apply_effect (statement_effect s) src ?b = (b, denied)" by fastforce
    let ?anoms = "(if untaken then distinct_anomalies (found @ findings_anomalies f) else found) @ denied"
    have g: "statement_grant T s p src target vocab variables = Some \<lparr>grant_target = target, grant_issuer = principal_issuer p, grant_admits = b,
               grant_effect = statement_effect s, grant_provenance = [], grant_anomalies = ?anoms, grant_source = statement_raw s\<rparr>"
      using False ap by (auto simp: statement_grant_def a(1) Let_def untaken_def f_def found_def split: if_splits)
    note sp = admits_of_spec [OF a(2) refl, of s p f]
    have ex: "is_exact ?b \<longleftrightarrow> read_in_full T s p src vocab variables"
      unfolding sp(3) full using none r fc by auto
    note ef = apply_effect_spec [OF sp(1) ap]
    have "set found \<subseteq> set ?anoms" by (auto simp: distinct_anomalies_def)
    then show thesis
      by (intro that [OF g]) (use found r in \<open>auto simp: ef ex sp(2) meets\<close>)
  qed
qed

section \<open>No statement is dropped\<close>

lemma faces_nonempty: "faces p actions src \<noteq> []"
  by (simp add: faces_def Let_def)

lemma parse_principals_nonempty: "fst (parse_principals T named excluded src f) \<noteq> []"
  by (auto simp: parse_principals_def nobody_def Let_def split: option.split prod.split)

definition populated :: "document \<Rightarrow> bool" where
  "populated d \<longleftrightarrow> (\<forall>s \<in> set (document_statements d). statement_principals s \<noteq> [])"

text \<open>The values a document's statements are read from, in order.\<close>

definition member_items :: "member_group \<Rightarrow> json_value list" where
  "member_items g =
     (if group_name g = ''Version'' \<or> group_name g = ''Id'' then []
      else if group_name g = ''Statement'' then statement_items (group_values g) else group_values g)"

definition document_items :: "json_value \<Rightarrow> json_value list" where
  "document_items root = concat (map member_items (group_members root exact_name))"

lemma note_document_statements [simp]: "document_statements (note_document a d) = document_statements d"
  by (simp add: note_document_def)

lemma unread_statement_fields [simp]:
  "statement_raw (unread_statement v a) = value_bytes v" "statement_principals (unread_statement v a) \<noteq> []"
  "statement_effect (unread_statement v a) = EffectUnknown"
  by (simp_all add: unread_statement_def nobody_def)

lemma parse_statement_fields: "statement_raw (parse_statement T v src) = value_bytes v \<and> statement_principals (parse_statement T v src) \<noteq> []"
proof (cases "value_kind v = kindObject")
  case True
  let ?gs = "group_members v exact_name"
  obtain sid f1 where 1: "parse_sid (by_name ?gs ''Sid'') src (fold (unmodelled_member src) ?gs no_findings) = (sid, f1)" by fastforce
  obtain effect f2 where 2: "parse_effect (by_name ?gs ''Effect'') src f1 = (effect, f2)" by fastforce
  obtain ps f3 where 3: "parse_principals T (by_name ?gs ''Principal'') (by_name ?gs ''NotPrincipal'') src f2 = (ps, f3)" by fastforce
  have "ps \<noteq> []" using parse_principals_nonempty [of T _ _ src f2] 3 by (metis fst_conv)
  then show ?thesis
    using True by (simp add: parse_statement_def 1 2 3 Let_def split: prod.split)
next
  case False
  then show ?thesis by (simp add: parse_statement_def)
qed

definition grows_by :: "json_value list \<Rightarrow> document \<Rightarrow> document \<Rightarrow> bool" where
  "grows_by vs d d' \<longleftrightarrow> map statement_raw (document_statements d') = map statement_raw (document_statements d) @ map value_bytes vs \<and>
     (populated d \<longrightarrow> populated d')"

lemma grows_refl: "document_statements d' = document_statements d \<Longrightarrow> grows_by [] d d'"
  by (simp add: grows_by_def populated_def)

lemma grows_trans: "grows_by vs d d' \<Longrightarrow> grows_by ws d' d'' \<Longrightarrow> grows_by (vs @ ws) d d''"
  by (simp add: grows_by_def)

lemma grows_fold: "(\<And>v d. v \<in> set vs \<Longrightarrow> grows_by (items_of v) d (step v d)) \<Longrightarrow> grows_by (concat (map items_of vs)) d (fold step vs d)"
proof (induction vs arbitrary: d)
  case (Cons v vs)
  have "grows_by (concat (map items_of vs)) (step v d) (fold step vs (step v d))"
    by (rule Cons.IH) (use Cons.prems in simp)
  then show ?case using grows_trans [of "items_of v" d "step v d"] Cons.prems by simp
qed (simp add: grows_refl)

lemma grows_add: "grows_by [v] d (add_statement T repeated v d)"
  using parse_statement_fields by (auto simp: grows_by_def add_statement_def Let_def populated_def)

lemma grows_unreadable: "grows_by [v] d (append_unreadable v a d)"
  by (auto simp: grows_by_def append_unreadable_def populated_def)

lemma concat_single: "concat (map (\<lambda>v. [v]) vs) = vs"
  by (induction vs) auto

lemma grows_statements: "grows_by (statement_items (group_values g)) d (parse_statements T g d)"
proof -
  let ?d = "if 1 < length (group_values g)
            then note_document (an_anomaly DuplicateKey [] ''Statement'' ''the member Statement appears more than once in the document; every statement in every copy is kept'' ''document'') d
            else d"
  let ?its = "statement_items (group_values g)"
  have "grows_by (concat (map (\<lambda>v. [v]) ?its)) ?d (fold (add_statement T (1 < length (group_values g))) ?its ?d)"
    by (rule grows_fold) (rule grows_add)
  then have "grows_by ?its d (fold (add_statement T (1 < length (group_values g))) ?its ?d)"
    by (simp add: concat_single grows_by_def populated_def)
  then show ?thesis unfolding parse_statements_def Let_def by (simp add: grows_by_def populated_def)
qed

lemma parse_version_statements: "document_statements (parse_version g d) = document_statements d"
  by (simp add: parse_version_def Let_def)

lemma parse_id_statements: "document_statements (parse_id g d) = document_statements d"
proof -
  have "document_statements (fold (\<lambda>v d. if value_kind v \<noteq> kindString
      then note_document (an_anomaly Malformed [] ''Id'' (''Id is '' @ describe v @ '', not a string'') ''document'') d else d) vs d)
      = document_statements d" for vs d
    by (induction vs arbitrary: d) simp_all
  then show ?thesis by (simp add: parse_id_def)
qed

lemma grows_member: "grows_by (member_items g) d (parse_member T g d)"
proof -
  have "grows_by (concat (map (\<lambda>v. [v]) (group_values g))) d (fold (\<lambda>v. append_unreadable v a) (group_values g) d)" for a
    by (rule grows_fold) (rule grows_unreadable)
  then have unread: "grows_by (group_values g) d (fold (\<lambda>v. append_unreadable v a) (group_values g) d)" for a
    by (simp add: concat_single)
  show ?thesis
    using grows_refl [OF parse_version_statements] grows_refl [OF parse_id_statements] grows_statements unread
    by (simp add: parse_member_def member_items_def)
qed

lemma parse_document_grows:
  "map statement_raw (document_statements (parse_document T root)) = map value_bytes (document_items root)"
  "populated (parse_document T root)"
proof -
  let ?d = "\<lparr>document_version = [], document_statements = [], document_anomalies = [], document_variables = variablesLiteral\<rparr>"
  have "grows_by (document_items root) ?d (fold (parse_member T) (group_members root exact_name) ?d)"
    unfolding document_items_def by (rule grows_fold) (rule grows_member)
  then have "grows_by (document_items root) ?d (parse_document T root)"
    unfolding parse_document_def Let_def by (simp add: grows_by_def populated_def)
  then show "map statement_raw (document_statements (parse_document T root)) = map value_bytes (document_items root)"
    "populated (parse_document T root)" by (simp_all add: grows_by_def populated_def)
qed

section \<open>The grants of a document\<close>

text \<open>A grant a statement yields, through one of its faces.\<close>

definition yields :: "fold_tables \<Rightarrow> target_ref \<Rightarrow> vocabulary option \<Rightarrow> variable_mode \<Rightarrow> nat \<Rightarrow> statement \<Rightarrow> principal \<Rightarrow> written_grant \<Rightarrow> bool" where
  "yields T target vocab variables i s face w \<longleftrightarrow>
     face \<in> set (statement_faces s (statement_source i)) \<and>
     statement_grant T s face (statement_source i) target vocab variables = Some (the_grant w) \<and> the_written w = principal_written face"

lemma face_grants_spec:
  obtains gs where "face_grants T s src target vocab variables fs = Some gs" "length gs = length fs"
    "set gs = {w. \<exists>face \<in> set fs. statement_grant T s face src target vocab variables = Some (the_grant w) \<and> the_written w = principal_written face}"
proof -
  have "\<exists>gs. face_grants T s src target vocab variables fs = Some gs \<and> length gs = length fs \<and>
    set gs = {w. \<exists>face \<in> set fs. statement_grant T s face src target vocab variables = Some (the_grant w) \<and> the_written w = principal_written face}"
  proof (induction fs)
    case (Cons face fs)
    obtain g where g: "statement_grant T s face src target vocab variables = Some g" by (rule statement_grant_spec)
    have "{w. statement_grant T s face src target vocab variables = Some (the_grant w) \<and> the_written w = principal_written face}
        = {\<lparr>the_grant = g, the_written = principal_written face\<rparr>}"
      by (auto simp: g)
    then show ?case using Cons g by auto
  qed simp
  then show thesis using that by blast
qed

lemma statement_grants_spec:
  obtains gs where "statement_grants T target vocab variables i ss = Some gs"
    "set gs = {w. \<exists>j < length ss. \<exists>face. yields T target vocab variables (i + j) (ss ! j) face w}"
proof -
  have "\<exists>gs. statement_grants T target vocab variables i ss = Some gs \<and>
    set gs = {w. \<exists>j < length ss. \<exists>face. yields T target vocab variables (i + j) (ss ! j) face w}"
  proof (induction ss arbitrary: i)
    case (Cons s ss)
    obtain gs where gs: "face_grants T s (statement_source i) target vocab variables (statement_faces s (statement_source i)) = Some gs"
      "length gs = length (statement_faces s (statement_source i))"
      "set gs = {w. \<exists>face \<in> set (statement_faces s (statement_source i)). statement_grant T s face (statement_source i) target vocab variables = Some (the_grant w) \<and> the_written w = principal_written face}"
      by (rule face_grants_spec)
    have g: "set gs = {w. \<exists>face. yields T target vocab variables i s face w}" unfolding gs(3) by (auto simp: yields_def)
    obtain hs where hs: "statement_grants T target vocab variables (i + 1) ss = Some hs"
      "set hs = {w. \<exists>j < length ss. \<exists>face. yields T target vocab variables (i + 1 + j) (ss ! j) face w}"
      using Cons.IH by blast
    have "set (gs @ hs) = {w. \<exists>j < length (s # ss). \<exists>face. yields T target vocab variables (i + j) ((s # ss) ! j) face w}"
      unfolding set_append g hs(2) by (simp add: Ex_less_Suc2 Collect_disj_eq)
    then show ?case using gs(1) hs(1) by simp
  qed simp
  then show thesis using that by blast
qed

lemma sort_grants_mset: "mset (sort_grants gs) = mset gs"
  by (simp add: sort_grants_def image_mset.compositionality comp_def)

lemma sort_grants_key: "sort_grants gs = sort_key (\<lambda>w. grant_key (the_grant w)) gs"
proof -
  have "map snd (sort_key fst (map (\<lambda>g. (k g, g)) gs)) = sort_key k gs" for k :: "written_grant \<Rightarrow> string"
  proof -
    have "insort_key fst (k x, x) (map (\<lambda>g. (k g, g)) ys) = map (\<lambda>g. (k g, g)) (insort_key k x ys)" for x ys
      by (induction ys) auto
    then have "sort_key fst (map (\<lambda>g. (k g, g)) gs) = map (\<lambda>g. (k g, g)) (sort_key k gs)"
      by (induction gs) (simp_all add: sort_key_def)
    then show ?thesis by (simp add: comp_def)
  qed
  then show ?thesis by (simp add: sort_grants_def sort_func_key)
qed

section \<open>Findings only grow\<close>

definition extends :: "findings \<Rightarrow> findings \<Rightarrow> bool" where
  "extends f f' \<longleftrightarrow> set (findings_widenings f) \<subseteq> set (findings_widenings f') \<and> set (findings_anomalies f) \<subseteq> set (findings_anomalies f')"

lemma extends_refl [simp]: "extends f f"
  by (simp add: extends_def)

lemma extends_trans: "extends f f' \<Longrightarrow> extends f' f'' \<Longrightarrow> extends f f''"
  by (auto simp: extends_def)

lemma extends_record [simp]: "extends f (widen a f)" "extends f (doubt a f)" "extends f (record_note a f)"
  by (auto simp: extends_def findings_simps)

lemma extends_record_on: "extends f f' \<Longrightarrow> extends f (widen a f')" "extends f f' \<Longrightarrow> extends f (doubt a f')"
  "extends f f' \<Longrightarrow> extends f (record_note a f')"
  using extends_trans extends_record by blast+

lemma parse_sid_extends: "extends f (snd (parse_sid grp src f))"
  by (auto simp: parse_sid_def Let_def extends_record_on split: option.split)

lemma parse_effect_extends: "extends f (snd (parse_effect grp src f))"
  by (auto simp: parse_effect_def Let_def split: option.split)

lemma parse_actions_extends: "extends f (snd (parse_actions T action not_action src f))"
  by (auto simp: parse_actions_def extends_record_on simp del: append.simps split: option.split prod.split bool.split)

lemma read_kind_extends: "extends f (snd (read_kind T kind src vs f))"
proof (induction vs arbitrary: f)
  case (Cons v vs)
  show ?case
    using Cons [of f] extends_trans [OF extends_record(2) Cons]
    by (simp del: append.simps split: prod.split) (metis snd_conv)
qed simp

lemma read_group_extends: "extends f (snd (read_group T src g f))"
  using read_kind_extends [of f T "group_name g" src "group_values g"]
  by (auto simp: read_group_def Let_def split: prod.split)

lemma read_groups_extends: "extends f (snd (read_groups T src gs f))"
proof (induction gs arbitrary: f)
  case (Cons g gs)
  obtain found f' where 1: "read_group T src g f = (found, f')" by fastforce
  then have "extends f f'" using read_group_extends [of f T src g] by simp
  then have "extends f (snd (read_groups T src gs f'))" using Cons [of f'] extends_trans by blast
  then show ?case by (simp add: 1 split: prod.split) (metis snd_conv)
qed simp

lemma principals_of_extends: "extends f (snd (principals_of T src vs f))"
proof (induction vs arbitrary: f)
  case (Cons v vs)
  obtain found f' where 1: "principals_in T v src f = (found, f')" by fastforce
  then have "extends f f'"
    using read_groups_extends [of f T src "group_members v exact_name"] by (auto simp: principals_in_def split: if_splits)
  then have "extends f (snd (principals_of T src vs f'))" using Cons [of f'] extends_trans by blast
  then show ?case by (simp add: 1 split: prod.split) (metis snd_conv)
qed simp

lemma parse_principals_extends: "extends f (snd (parse_principals T named excluded src f))"
proof -
  have p: "extends f f'" if "principals_of T src' vs (if b then widen a f else f) = (found, f')" for b a src' vs found f'
    using principals_of_extends [of "if b then widen a f else f" T src' vs] extends_trans [OF extends_record(1)] that
    by (auto split: if_splits)
  show ?thesis
  proof (cases named)
    case None
    then show ?thesis
      by (auto simp: parse_principals_def extends_record_on simp del: append.simps split: option.split)
  next
    case (Some g)
    show ?thesis
    proof (cases excluded)
      case None
      let ?m = "duplicated g ''every principal named in any copy is taken and who the statement names is not known'' src"
      obtain found f' where 1: "principals_of T (src @ ''.Principal'') (group_values g)
          (if 1 < length (group_values g) then widen ?m f else f) = (found, f')" by fastforce
      show ?thesis
        unfolding parse_principals_def Some None prod.case option.case Let_def 1
        using p [OF 1] by (simp add: extends_record_on)
    qed (simp add: parse_principals_def Some del: append.simps)
  qed
qed

lemma read_blocks_extends: "extends f (snd (read_blocks T src oper repeated blocks f))"
proof (induction blocks arbitrary: f)
  case (Cons b bs)
  show ?case
    using Cons [of f] extends_trans [OF extends_record(1) Cons] extends_trans [OF extends_record(2) Cons]
    by (simp del: append.simps split: prod.split) (metis snd_conv)
qed simp

lemma read_operators_extends: "extends f (snd (read_operators T src gs f))"
proof (induction gs arbitrary: f)
  case (Cons g gs)
  let ?m = "an_anomaly DuplicateKey [] (group_name g)
              (''the operator '' @ spell_operator (group_name g) @ '' appears more than once in the Condition; a JSON decoder keeps one block and the deployed policy may carry either'') src"
  let ?f = "if 1 < length (group_values g) then record_note ?m f else f"
  obtain cs f' where 1: "read_blocks T src (group_name g) (1 < length (group_values g)) (group_values g) ?f = (cs, f')" by fastforce
  obtain ds f'' where 2: "read_operators T src gs f' = (ds, f'')" by fastforce
  have "extends f ?f" by simp
  moreover have "extends ?f f'" using read_blocks_extends [of ?f T src "group_name g" _ "group_values g"] 1 by (metis snd_conv)
  moreover have "extends f' f''" using Cons [of f'] 2 by simp
  ultimately have "extends f f''" using extends_trans by blast
  then show ?case unfolding read_operators.simps Let_def 1 prod.case 2 by simp
qed simp

lemma parse_conditions_extends: "extends f (snd (parse_conditions T grp src f))"
  by (simp add: parse_conditions_def Let_def read_operators_extends del: append.simps split: option.split)

lemma parse_statement_extends:
  assumes "value_kind v = kindObject"
  shows "extends (fold (unmodelled_member src) (group_members v exact_name) no_findings) (statement_findings (parse_statement T v src))"
proof -
  let ?gs = "group_members v exact_name"
  let ?f0 = "fold (unmodelled_member src) ?gs no_findings"
  obtain sid f1 where 1: "parse_sid (by_name ?gs ''Sid'') src ?f0 = (sid, f1)" by fastforce
  obtain effect f2 where 2: "parse_effect (by_name ?gs ''Effect'') src f1 = (effect, f2)" by fastforce
  obtain ps f3 where 3: "parse_principals T (by_name ?gs ''Principal'') (by_name ?gs ''NotPrincipal'') src f2 = (ps, f3)" by fastforce
  obtain acts f4 where 4: "parse_actions T (by_name ?gs ''Action'') (by_name ?gs ''NotAction'') src f3 = (acts, f4)" by fastforce
  obtain cs f5 where 5: "parse_conditions T (by_name ?gs ''Condition'') src f4 = (cs, f5)" by fastforce
  have e1: "extends ?f0 f1" using parse_sid_extends [of ?f0] 1 by (metis snd_conv)
  have "extends f1 f2" using parse_effect_extends [of f1] 2 by (metis snd_conv)
  moreover have "extends f2 f3" using parse_principals_extends [of f2] 3 by (metis snd_conv)
  moreover have "extends f3 f4" using parse_actions_extends [of f3] 4 by (metis snd_conv)
  moreover have "extends f4 f5" using parse_conditions_extends [of f4] 5 by (metis snd_conv)
  ultimately have "extends ?f0 f5" using e1 extends_trans by blast
  then show ?thesis
    unfolding parse_statement_def if_not_P [OF assms [THEN not_not [THEN iffD2]]] Let_def 1 2 3 4 5 prod.case
    by simp
qed

lemma unmodelled_members_widen:
  assumes "g \<in> set gs" "group_name g \<notin> set statement_members"
  shows "findings_widenings (fold (unmodelled_member src) gs f) \<noteq> []"
proof -
  have mono: "extends f (fold (unmodelled_member src) gs f)" for gs f
  proof (induction gs arbitrary: f)
    case (Cons g gs)
    have "extends f (unmodelled_member src g f)" by (simp add: unmodelled_member_def)
    then show ?case using Cons extends_trans by simp
  qed simp
  show ?thesis
    using assms(1)
  proof (induction gs arbitrary: f)
    case (Cons h gs)
    show ?case
    proof (cases "g = h")
      case True
      then have "findings_widenings (unmodelled_member src h f) \<noteq> []"
        using assms(2) by (simp add: unmodelled_member_def findings_simps del: append.simps)
      then show ?thesis using mono [of "unmodelled_member src h f" gs] by (auto simp: extends_def)
    next
      case False
      then show ?thesis using Cons by simp
    qed
  qed simp
qed

section \<open>Properties\<close>

text \<open>
  C33: A grant is a sound bound, whatever its statement holds: the projection never fails; a token
  is admitted exactly when an action reaches the role, and the statement was left unevaluated or
  the token meets the principal's identity and every condition that was read; a Deny that was not
  read in full admits nobody, so it never takes away what the policy leaves; and the set is exact
  only where no action reaches the role or everything was read.
\<close>

theorem grant_is_a_sound_bound:
  "\<exists>g. statement_grant T s p src target vocab variables = Some g \<and> grant_effect g = statement_effect s \<and> grant_issuer g = principal_issuer p
    \<and> (\<forall>token. admits (grant_admits g) token \<longleftrightarrow> reaches s p \<and>
        (if statement_effect s = Deny then read_in_full T s p src vocab variables else True) \<and>
        (unevaluated s p \<or> meets T s p src vocab variables token))
    \<and> (is_exact (grant_admits g) \<longleftrightarrow> \<not> reaches s p \<or> read_in_full T s p src vocab variables)"
proof -
  obtain g where g: "statement_grant T s p src target vocab variables = Some g"
    "grant_issuer g = principal_issuer p" "grant_effect g = statement_effect s" "grant_source g = statement_raw s" "grant_target g = target"
    "\<And>token. admits (grant_admits g) token \<longleftrightarrow> reaches s p \<and>
       (statement_effect s = Deny \<longrightarrow> read_in_full T s p src vocab variables) \<and>
       (unevaluated s p \<or> meets T s p src vocab variables token)"
    "is_exact (grant_admits g) \<longleftrightarrow> \<not> reaches s p \<or> read_in_full T s p src vocab variables"
    "set (findings_anomalies (statement_findings s)) \<union> set (findings_anomalies (principal_findings p)) \<subseteq> set (grant_anomalies g)"
    by (rule statement_grant_spec, rule that)
  show ?thesis by (rule exI [of _ g]) (simp add: g(1-3) g(6,7))
qed

definition sample_object :: "(string \<times> json_value) list \<Rightarrow> json_value" where
  "sample_object ms = Value kindObject [] False (map (\<lambda>(n, v). Member n v 1) ms) [] ''{}'' 0 2"

definition sample_statement :: "string \<Rightarrow> (string \<times> json_value) list \<Rightarrow> json_value" where
  "sample_statement effect more_members = sample_object
     ([(''Effect'', sample_string effect), (''Principal'', sample_object [(''AWS'', sample_string ''111122223333'')]),
       (''Action'', sample_string ''sts:AssumeRole'')] @ more_members)"

definition sample_principal :: principal where
  "sample_principal = aws_principal ''111122223333'' ''p''"

theorem grant_is_a_sound_bound_witness:
  "\<exists>g. statement_grant no_tables (parse_statement no_tables (sample_statement ''Deny'' [(''Condition'', sample_string ''x'')]) ''s'') sample_principal ''s''
      \<lparr>target_kind = ''role'', target_id = ''r''\<rparr> None variablesLiteral = Some g
    \<and> (\<forall>token. \<not> admits (grant_admits g) token) \<and> \<not> is_exact (grant_admits g)"
proof -
  let ?s = "parse_statement no_tables (sample_statement ''Deny'' [(''Condition'', sample_string ''x'')]) ''s''"
  have "reaches ?s sample_principal" "statement_effect ?s = Deny" "\<not> read_in_full no_tables ?s sample_principal ''s'' None variablesLiteral"
    by code_simp+
  then show ?thesis using grant_is_a_sound_bound [of no_tables ?s sample_principal "''s''" _ None variablesLiteral] by auto
qed

text \<open>
  C35: No statement is dropped. The document has one statement for every value its Statement member
  and every member outside the grammar hold, in document order, with the value's own bytes; every
  statement projects at least one grant carrying those bytes; each grant keeps the principal it was
  projected from beside it; and the grants come out in the order of their keys.
\<close>

theorem nothing_is_dropped:
  "map statement_raw (document_statements (parse_document T root)) = map value_bytes (document_items root) \<and>
   (\<exists>gs ws. grants_written T (parse_document T root) target vocab = Some (gs, ws) \<and> length gs = length ws \<and>
      sorted (map grant_key gs) \<and> (\<forall>v \<in> set (document_items root). \<exists>g \<in> set gs. grant_source g = value_bytes v))"
proof
  let ?d = "parse_document T root"
  show raws: "map statement_raw (document_statements ?d) = map value_bytes (document_items root)" by (rule parse_document_grows)
  obtain out where out: "statement_grants T target vocab (document_variables ?d) 0 (document_statements ?d) = Some out"
    "set out = {w. \<exists>j < length (document_statements ?d). \<exists>face. yields T target vocab (document_variables ?d) (0 + j) (document_statements ?d ! j) face w}"
    by (rule statement_grants_spec)
  have written: "grants_written T ?d target vocab = Some (map the_grant (sort_grants out), map the_written (sort_grants out))"
    by (simp add: grants_written_def out(1) Let_def)
  have sorted: "sorted (map grant_key (map the_grant (sort_grants out)))"
    by (simp add: sort_grants_key comp_def)
  have found: "\<exists>g \<in> set (map the_grant (sort_grants out)). grant_source g = value_bytes v" if v: "v \<in> set (document_items root)" for v
  proof -
    have "value_bytes v \<in> set (map statement_raw (document_statements ?d))" unfolding raws using v by simp
    then obtain j where j: "j < length (document_statements ?d)" "statement_raw (document_statements ?d ! j) = value_bytes v"
      by (auto simp: in_set_conv_nth)
    let ?s = "document_statements ?d ! j"
    have "statement_principals ?s \<noteq> []" using parse_document_grows(2) [of T root] j(1) nth_mem unfolding populated_def by blast
    then have "statement_faces ?s (statement_source j) \<noteq> []" using faces_nonempty by (cases "statement_principals ?s") (auto simp: statement_faces_def)
    then obtain face where face: "face \<in> set (statement_faces ?s (statement_source j))" by (meson last_in_set)
    obtain g where g: "statement_grant T ?s face (statement_source j) target vocab (document_variables ?d) = Some g"
      "grant_issuer g = principal_issuer face" "grant_effect g = statement_effect ?s" "grant_source g = statement_raw ?s"
      by (rule statement_grant_spec)
    have "yields T target vocab (document_variables ?d) (0 + j) ?s face \<lparr>the_grant = g, the_written = principal_written face\<rparr>"
      using face g(1) by (simp add: yields_def)
    then have "\<lparr>the_grant = g, the_written = principal_written face\<rparr> \<in> set out" unfolding out(2) using j(1) by blast
    then have "g \<in> set (map the_grant (sort_grants out))"
      using sort_grants_mset [of out] by (metis image_eqI list.set_map set_mset_mset written_grant.select_convs(1))
    then show ?thesis using g(4) j(2) by metis
  qed
  show "\<exists>gs ws. grants_written T ?d target vocab = Some (gs, ws) \<and> length gs = length ws \<and>
      sorted (map grant_key gs) \<and> (\<forall>v \<in> set (document_items root). \<exists>g \<in> set gs. grant_source g = value_bytes v)"
    using written sorted found by (intro exI conjI ballI) auto
qed

theorem nothing_is_dropped_witness:
  "\<exists>gs ws. grants_written no_tables (parse_document no_tables (sample_object [(''Statement'', sample_statement ''Allow'' []), (''Statment'', sample_string ''y'')]))
      \<lparr>target_kind = ''role'', target_id = ''r''\<rparr> None = Some (gs, ws)
    \<and> (\<exists>g \<in> set gs. grant_source g = [dquote] @ ''y'' @ [dquote]) \<and> (\<exists>g \<in> set gs. grant_source g = ''{}'')"
proof -
  let ?root = "sample_object [(''Statement'', sample_statement ''Allow'' []), (''Statment'', sample_string ''y'')]"
  have "document_items ?root = [sample_statement ''Allow'' [], sample_string ''y'']" by code_simp
  moreover have "value_bytes (sample_statement ''Allow'' []) = ''{}''" "value_bytes (sample_string ''y'') = [dquote] @ ''y'' @ [dquote]"
    by code_simp+
  ultimately show ?thesis using nothing_is_dropped [of no_tables ?root "\<lparr>target_kind = ''role'', target_id = ''r''\<rparr>" None] by auto
qed

text \<open>
  A statement that holds a member the parser does not model, Resource among them, is left
  unevaluated: unless it is a Deny, every grant of it that an action can reach admits everyone, and
  never as an exact answer.
\<close>

theorem unmodelled_members_admit_everything:
  assumes "value_kind v = kindObject" "m \<in> set (value_members v)" "member_name m \<notin> set statement_members"
    "statement_effect (parse_statement T v src) \<noteq> Deny" "reaches (parse_statement T v src) p"
  shows "\<exists>g. statement_grant T (parse_statement T v src) p src target vocab variables = Some g \<and>
    (\<forall>token. admits (grant_admits g) token) \<and> \<not> is_exact (grant_admits g)"
proof -
  let ?s = "parse_statement T v src"
  have "the_group exact_name (value_members v) (member_name m) \<in> set (group_members v exact_name)"
    using assms(2) by (auto simp: group_members_closed exact_name_def)
  then have "findings_widenings (fold (unmodelled_member src) (group_members v exact_name) no_findings) \<noteq> []"
    by (rule unmodelled_members_widen) (use assms(3) in \<open>simp add: the_group_def Let_def\<close>)
  then have w: "findings_widenings (statement_findings ?s) \<noteq> []"
    using parse_statement_extends [OF assms(1), of src T] by (auto simp: extends_def)
  then have u: "unevaluated ?s p" "\<not> read_in_full T ?s p src vocab variables"
    by (simp_all add: unevaluated_def read_in_full_def findings_caveats_def)
  obtain g where g: "statement_grant T ?s p src target vocab variables = Some g"
    "grant_issuer g = principal_issuer p" "grant_effect g = statement_effect ?s" "grant_source g = statement_raw ?s" "grant_target g = target"
    "\<And>token. admits (grant_admits g) token \<longleftrightarrow> reaches ?s p \<and>
       (statement_effect ?s = Deny \<longrightarrow> read_in_full T ?s p src vocab variables) \<and>
       (unevaluated ?s p \<or> meets T ?s p src vocab variables token)"
    "is_exact (grant_admits g) \<longleftrightarrow> \<not> reaches ?s p \<or> read_in_full T ?s p src vocab variables"
    "set (findings_anomalies (statement_findings ?s)) \<union> set (findings_anomalies (principal_findings p)) \<subseteq> set (grant_anomalies g)"
    by (rule statement_grant_spec, rule that)
  show ?thesis by (rule exI [of _ g]) (use g(1) u assms(4,5) in \<open>simp add: g(6,7)\<close>)
qed

theorem unmodelled_members_admit_everything_witness:
  "\<exists>g. statement_grant no_tables (parse_statement no_tables (sample_statement ''Allow'' [(''Resource'', sample_string ''*'')]) ''s'') sample_principal ''s''
      \<lparr>target_kind = ''role'', target_id = ''r''\<rparr> None variablesLiteral = Some g
    \<and> (\<forall>token. admits (grant_admits g) token) \<and> \<not> is_exact (grant_admits g)"
proof (rule unmodelled_members_admit_everything)
  let ?v = "sample_statement ''Allow'' [(''Resource'', sample_string ''*'')]"
  show "value_kind ?v = kindObject" "Member ''Resource'' (sample_string ''*'') 1 \<in> set (value_members ?v)"
    by (simp_all add: sample_statement_def sample_object_def)
  show "member_name (Member ''Resource'' (sample_string ''*'') 1) \<notin> set statement_members" by (simp add: statement_members_def)
  show "statement_effect (parse_statement no_tables ?v ''s'') \<noteq> Deny" "reaches (parse_statement no_tables ?v ''s'') sample_principal"
    by code_simp+
qed

end
