(* ===== verification/Aws_Questions.thy ===== *)
theory Aws_Questions imports Aws_Grant_Laws begin

text \<open>
  What a reader of the parsed document may rely on: no two classes of principal share an issuer, a
  key of a provider's is its own claim, the population of an issuerless grant is never understated,
  a principal the parser does not model is never reported as modelled, and the conditions a grant
  did not read are exactly the ones Unread lists.
\<close>

section \<open>Issuers\<close>

datatype issuer_class = AwsClass | OidcClass | SamlClass | ServiceClass

text \<open>The class of an issuer a modelled principal is filed under, by its kind.\<close>

definition class_of :: "principal \<Rightarrow> issuer_class" where
  "class_of p =
     (case principal_kind p of principalOIDC \<Rightarrow> OidcClass | principalSAML \<Rightarrow> SamlClass | principalService \<Rightarrow> ServiceClass | _ \<Rightarrow> AwsClass)"

definition class_prefix :: "issuer_class \<Rightarrow> string" where
  "class_prefix c = (case c of AwsClass \<Rightarrow> ''aws:st'' | OidcClass \<Rightarrow> ''https:/'' | SamlClass \<Rightarrow> ''arn:'' | ServiceClass \<Rightarrow> ''aws:se'')"

lemma record_finding_fields [simp]:
  "principal_kind (record_finding act p) = principal_kind p" "principal_issuer (record_finding act p) = principal_issuer p"
  "principal_text (record_finding act p) = principal_text p"
  by (simp_all add: record_finding_def)

lemma a_principal_fields [simp]:
  "principal_kind (a_principal k t i) = k" "principal_issuer (a_principal k t i) = i" "principal_text (a_principal k t i) = t"
  "principal_findings (a_principal k t i) = no_findings"
  by (simp_all add: a_principal_def)

lemma unmodelled_fields [simp]: "principal_kind (unmodelled k t i a) = k" "principal_issuer (unmodelled k t i a) = i"
  by (simp_all add: unmodelled_def)

lemma opaque_fields [simp]:
  "principal_kind (opaque t s k u a m) = principalOpaque" "principal_issuer (opaque t s k u a m) = AWSPrincipalIssuer"
  by (simp_all add: opaque_def)

lemma anyone_fields [simp]: "principal_kind (anyone src) = principalAnyone" "principal_issuer (anyone src) = AWSPrincipalIssuer"
  by (simp_all add: anyone_def)

definition in_aws_class :: "principal \<Rightarrow> bool" where
  "in_aws_class p \<longleftrightarrow> class_of p = AwsClass \<and> principal_issuer p = AWSPrincipalIssuer"

lemma in_aws_class_if: "in_aws_class (if b then p else q) = (if b then in_aws_class p else in_aws_class q)"
  by simp

lemma in_aws_class_made:
  "in_aws_class (anyone src)" "in_aws_class (opaque t src k u a m)"
  "in_aws_class ((opaque t src k u a m)\<lparr>principal_kind := principalOtherService\<rparr>)"
  "in_aws_class ((a_principal principalAccount t AWSPrincipalIssuer)\<lparr>principal_account := a\<rparr>)"
  "in_aws_class ((a_principal principalIdentity t AWSPrincipalIssuer)\<lparr>principal_account := a\<rparr>)"
  by (simp_all add: in_aws_class_def class_of_def)

lemma aws_principal_class: "in_aws_class (aws_principal text src)"
  unfolding aws_principal_def Let_def
  by (simp only: in_aws_class_if in_aws_class_made if_cancel split: option.split prod.split) simp

lemma provider_class:
  assumes "is_modelled (provider_principal T text src identifier msg)"
  shows "principal_kind (provider_principal T text src identifier msg) = principalOIDC"
    "has_prefix (principal_issuer (provider_principal T text src identifier msg)) https"
proof -
  obtain issuer where i: "provider_issuer T identifier = Some issuer" "\<not> folds_into_ascii T identifier"
    using assms by (auto simp: provider_principal_def unreadable_provider_def is_modelled_def simp del: append.simps split: if_splits option.splits)
  then have "normalise_issuer identifier = Some issuer" by (simp add: provider_issuer_def split: if_splits)
  then have "has_prefix issuer https" by (rule normalise_issuer_parts) (simp add: issuer_of_def)
  then show "principal_kind (provider_principal T text src identifier msg) = principalOIDC"
    "has_prefix (principal_issuer (provider_principal T text src identifier msg)) https"
    using i by (simp_all add: provider_principal_def oidc_principal_def)
qed

lemma https_class: "has_prefix s https \<Longrightarrow> has_prefix s (class_prefix OidcClass)"
  by (auto simp: https_def class_prefix_def has_prefix_def prefix_def)

lemma provider_has_class:
  assumes "is_modelled (provider_principal T text src identifier msg)"
  shows "has_prefix (principal_issuer (provider_principal T text src identifier msg)) (class_prefix (class_of (provider_principal T text src identifier msg)))"
  using https_class [OF provider_class(2) [OF assms]] provider_class(1) [OF assms] by (simp add: class_of_def)

lemma federated_cases:
  obtains (unread) kind msg where "federated_principal T text src = unreadable_provider text src kind msg"
  | (saml) a where "federated_principal T text src = unmodelled principalSAML text text a" "has_prefix text ''arn:''"
  | (oidc) ident msg where "federated_principal T text src = provider_principal T text src ident msg"
  using that unfolding federated_principal_def Let_def by metis

lemma federated_class:
  assumes "is_modelled (federated_principal T text src)"
  shows "has_prefix (principal_issuer (federated_principal T text src)) (class_prefix (class_of (federated_principal T text src)))"
proof (cases T "text" src rule: federated_cases)
  case (unread kind msg)
  then show ?thesis using assms by (simp add: unreadable_provider_def is_modelled_def)
next
  case (saml a)
  then show ?thesis by (simp add: class_of_def class_prefix_def)
next
  case (oidc ident msg)
  then show ?thesis using assms provider_has_class by simp
qed

lemma service_class:
  assumes "is_modelled (service_principal text src)"
  shows "has_prefix (principal_issuer (service_principal text src)) (class_prefix (class_of (service_principal text src)))"
  using assms by (auto simp: service_principal_def is_modelled_def class_of_def class_prefix_def ServiceIssuerPrefix_def has_prefix_def split: if_splits)

lemma class_prefixes_differ: "has_prefix s (class_prefix c) \<Longrightarrow> has_prefix s (class_prefix d) \<Longrightarrow> c = d"
  by (cases c; cases d; auto simp: class_prefix_def has_prefix_def prefix_def)

lemma principal_of_kind_class:
  assumes "is_modelled (principal_of_kind T kind text src)"
  shows "has_prefix (principal_issuer (principal_of_kind T kind text src)) (class_prefix (class_of (principal_of_kind T kind text src)))"
proof -
  have v: "variable_reference text = None" using assms by (auto simp: principal_of_kind_def is_modelled_def split: option.splits)
  have aws: "has_prefix AWSPrincipalIssuer (class_prefix AwsClass)" by (simp add: AWSPrincipalIssuer_def class_prefix_def has_prefix_def)
  consider "kind = ''AWS''" | "kind = ''Federated''" | "kind = ''Service''"
    using assms v by (auto simp: principal_of_kind_def is_modelled_def split: if_splits)
  then show ?thesis
  proof cases
    case 1
    then show ?thesis using v aws aws_principal_class [of "text" src] by (simp add: principal_of_kind_def in_aws_class_def)
  next
    case 2
    then show ?thesis using v assms federated_class by (simp add: principal_of_kind_def)
  next
    case 3
    then show ?thesis using v assms service_class by (simp add: principal_of_kind_def)
  qed
qed

section \<open>A provider's own keys\<close>

lemma fold_ascii_lower: "fold_ascii s = lower_ascii s"
  by (simp add: fold_ascii_def lower_ascii_def)

lemma fold_ascii_length: "length (runes (fold_ascii s)) = length (runes s)"
  by (simp add: fold_ascii_lower lower_ascii_runes)

lemma colon_byte: "byte (CHR '':'') = 58"
  by (simp add: byte_def)

lemma shorter_fold_differs:
  assumes "i < length s" "s ! i = CHR '':''"
  shows "fold_ascii (take i s) \<noteq> fold_ascii s"
proof
  assume e: "fold_ascii (take i s) = fold_ascii s"
  have "s = take i s @ CHR '':'' # drop (Suc i) s" using assms by (metis id_take_nth_drop)
  then have "runes s = runes (take i s) @ 58 # runes (drop (Suc i) s)"
    using runes_ascii [of "CHR '':''" "take i s" "drop (Suc i) s"] by (simp add: colon_byte)
  then have "length (runes (take i s)) < length (runes s)" by simp
  moreover have "length (runes (take i s)) = length (runes s)" using e fold_ascii_length by metis
  ultimately show False by simp
qed

lemma find_first:
  assumes "i < n" "P i" "\<And>j. j < i \<Longrightarrow> \<not> P j"
  shows "List.find P [0..<n] = Some i"
  unfolding find_Some_iff using assms by (intro exI [of _ i]) auto

lemma own_claim_of_identifier:
  assumes "fold_ascii spelt = fold_ascii ident"
  shows "own_claim (oidc_principal T text ident issuer) (spelt @ '':'' @ claim) = Some (fold_ascii claim)"
proof -
  let ?key = "spelt @ '':'' @ claim" and ?p = "oidc_principal T text ident issuer"
  have p: "principal_kind ?p = principalOIDC" "principal_ident ?p = fold_ascii ident" by (simp_all add: oidc_principal_def)
  have "List.find (\<lambda>i. ?key ! i = CHR '':'' \<and> fold_ascii (take i ?key) = fold_ascii ident) [0..<length ?key] = Some (length spelt)"
  proof (rule find_first)
    show "\<not> (?key ! j = CHR '':'' \<and> fold_ascii (take j ?key) = fold_ascii ident)" if "j < length spelt" for j
      using shorter_fold_differs [of j spelt] that assms by (auto simp: nth_append)
  qed (use assms in \<open>simp_all add: nth_append\<close>)
  then show ?thesis unfolding own_claim_def p by simp
qed

section \<open>Actions written out in full\<close>

text \<open>The actions a pattern list names in full, where the loop of IssuerlessPopulation returns.\<close>

lemma population_of_Some:
  assumes "population_of T ps (services, saml) = Some (services', saml')"
  shows "\<forall>p \<in> set ps. \<exists>v. p = SExact v \<and> \<not> folds_beyond_ascii T v \<and> v \<noteq> assumeWithWebIdentity"
    "services' \<longleftrightarrow> services \<or> SExact assumeRole \<in> set ps" "saml' \<longleftrightarrow> saml \<or> SExact assumeWithSAML \<in> set ps"
proof -
  have ne: "assumeRole \<noteq> assumeWithSAML" by (simp add: assumeRole_def assumeWithSAML_def)
  have "(\<forall>p \<in> set ps. \<exists>v. p = SExact v \<and> \<not> folds_beyond_ascii T v \<and> v \<noteq> assumeWithWebIdentity) \<and>
      (services' \<longleftrightarrow> services \<or> SExact assumeRole \<in> set ps) \<and> (saml' \<longleftrightarrow> saml \<or> SExact assumeWithSAML \<in> set ps)"
    using assms
  proof (induction ps arbitrary: services saml)
    case (Cons p ps)
    have k: "shape_kind (shape_of p) = ShapeExact" "\<not> folds_beyond_ascii T (shape_text (shape_of p))" "shape_text (shape_of p) \<noteq> assumeWithWebIdentity"
      using Cons.prems by (auto simp: Let_def split: if_splits)
    then obtain v where v: "p = SExact v" by (cases p) auto
    then have k': "\<not> folds_beyond_ascii T v" "v \<noteq> assumeWithWebIdentity" using k by simp_all
    have "population_of T ps (if v = assumeRole then True else services, if v \<noteq> assumeRole \<and> v = assumeWithSAML then True else saml) = Some (services', saml')"
      using Cons.prems v k' by (auto simp: Let_def split: if_splits)
    from Cons.IH [OF this] show ?case using v k' ne by (auto split: if_splits)
  qed simp
  then show "\<forall>p \<in> set ps. \<exists>v. p = SExact v \<and> \<not> folds_beyond_ascii T v \<and> v \<noteq> assumeWithWebIdentity"
    "services' \<longleftrightarrow> services \<or> SExact assumeRole \<in> set ps" "saml' \<longleftrightarrow> saml \<or> SExact assumeWithSAML \<in> set ps" by blast+
qed

lemma exact_patterns_cover:
  assumes "\<forall>p \<in> set (action_patterns a). \<exists>v. p = SExact v"
  shows "covers a [action] \<longleftrightarrow> SExact action \<in> set (action_patterns a)"
  using assms by (force simp: covers_def list_ex_iff)

lemma folds_beyond_fold: "folds_beyond_ascii T (fold_ascii s) \<longleftrightarrow> folds_beyond_ascii T s"
  by (auto simp: folds_beyond_ascii_def contains_func_def list_ex_iff fold_ascii_lower lower_ascii_runes)

text \<open>A pattern without wildcards is the text itself.\<close>

lemma Glob_SExact: "Glob p = SExact v \<Longrightarrow> v = p"
  by (auto simp: Glob_def split: if_splits)

lemma read_actions_narrow:
  assumes "\<forall>p \<in> set (action_patterns (read_actions T texts)). \<exists>v. p = SExact v \<and> \<not> folds_beyond_ascii T v"
  shows "wide_actions (read_actions T texts) = []"
proof -
  have "\<not> folds_beyond_ascii T t" if "t \<in> set texts" for t
  proof -
    have "Glob (fold_ascii t) \<in> set (action_patterns (read_actions T texts))" using that by (simp add: read_actions_def)
    then obtain v where "Glob (fold_ascii t) = SExact v" "\<not> folds_beyond_ascii T v" using assms by metis
    then show ?thesis using Glob_SExact folds_beyond_fold by metis
  qed
  then show ?thesis by (simp add: read_actions_def filter_empty_conv)
qed

lemma issuerless_cases:
  assumes "statement_actions s = read_actions T texts" "issuerless_population T s \<noteq> EveryIssuer"
  shows "\<not> may_grant (statement_actions s) assumeWithWebIdentity"
    "issuerless_population T s = AWSServices \<Longrightarrow> \<not> may_grant (statement_actions s) assumeWithSAML"
    "issuerless_population T s = AccountSAMLProviders \<Longrightarrow> \<not> may_grant (statement_actions s) assumeRole"
    "principalUnreadable \<notin> set (map principal_kind (statement_principals s))"
proof -
  let ?a = "statement_actions s"
  obtain services saml where p: "population_of T (action_patterns ?a) (False, False) = Some (services, saml)"
    and kinds: "principalUnreadable \<notin> set (map principal_kind (statement_principals s))"
    and pop: "issuerless_population T s = (if services \<and> saml then AWSServicesAndAccountSAMLProviders
        else if services then AWSServices else if saml then AccountSAMLProviders else EveryIssuer)"
    using assms(2) by (auto simp: issuerless_population_def Let_def split: if_splits option.splits)
  note sp = population_of_Some [OF p]
  have "\<forall>p \<in> set (action_patterns (read_actions T texts)). \<exists>v. p = SExact v \<and> \<not> folds_beyond_ascii T v"
    using sp(1) assms(1) by metis
  then have w: "wide_actions ?a = []" using read_actions_narrow assms(1) by metis
  have e: "\<forall>p \<in> set (action_patterns ?a). \<exists>v. p = SExact v" using sp(1) by blast
  have m: "may_grant ?a x \<longleftrightarrow> SExact x \<in> set (action_patterns ?a)" for x
    unfolding may_grant_def w exact_patterns_cover [OF e] using assms(1) by (simp add: read_actions_def)
  show "\<not> may_grant ?a assumeWithWebIdentity" unfolding m using sp(1) by force
  show "\<not> may_grant ?a assumeWithSAML" if "issuerless_population T s = AWSServices"
    unfolding m using sp(3) that by (auto simp: pop split: if_splits)
  show "\<not> may_grant ?a assumeRole" if "issuerless_population T s = AccountSAMLProviders"
    unfolding m using sp(2) that by (auto simp: pop split: if_splits)
  show "principalUnreadable \<notin> set (map principal_kind (statement_principals s))" by (rule kinds)
qed

section \<open>Properties\<close>

text \<open>
  C37: Two principals the parser models share an issuer only if they are of one class, the
  principals of AWS accounts, an OIDC provider's, a SAML provider's or a service's, so a Deny on one
  never takes away from a grant of another class, whatever hosts and names a policy spells.
\<close>

theorem issuers_never_collide:
  assumes "is_modelled (principal_of_kind T kind text src)" "is_modelled (principal_of_kind T kind' text' src')"
    "principal_issuer (principal_of_kind T kind text src) = principal_issuer (principal_of_kind T kind' text' src')"
  shows "class_of (principal_of_kind T kind text src) = class_of (principal_of_kind T kind' text' src')"
  using principal_of_kind_class [OF assms(1)] principal_of_kind_class [OF assms(2)] class_prefixes_differ assms(3) by metis

theorem issuers_never_collide_witness:
  "class_of (principal_of_kind no_tables ''Service'' ''ec2.amazonaws.com'' ''s'') = class_of (principal_of_kind no_tables ''Service'' ''EC2.amazonaws.com'' ''t'')
    \<and> principal_issuer (principal_of_kind no_tables ''Service'' ''sts.amazonaws.com'' ''s'') \<noteq> principal_issuer (principal_of_kind no_tables ''Federated'' ''sts.amazonaws.com'' ''s'')"
proof
  show "class_of (principal_of_kind no_tables ''Service'' ''ec2.amazonaws.com'' ''s'') = class_of (principal_of_kind no_tables ''Service'' ''EC2.amazonaws.com'' ''t'')"
    by (rule issuers_never_collide) code_simp+
  have "is_modelled (principal_of_kind no_tables ''Service'' ''sts.amazonaws.com'' ''s'')" "is_modelled (principal_of_kind no_tables ''Federated'' ''sts.amazonaws.com'' ''s'')"
    "class_of (principal_of_kind no_tables ''Service'' ''sts.amazonaws.com'' ''s'') \<noteq> class_of (principal_of_kind no_tables ''Federated'' ''sts.amazonaws.com'' ''s'')"
    by code_simp+
  then show "principal_issuer (principal_of_kind no_tables ''Service'' ''sts.amazonaws.com'' ''s'') \<noteq> principal_issuer (principal_of_kind no_tables ''Federated'' ''sts.amazonaws.com'' ''s'')"
    using issuers_never_collide by blast
qed

text \<open>
  C38: The population of an issuerless grant is never understated: where it is not every issuer,
  every principal of the statement was read, no action reaches sts:AssumeRoleWithWebIdentity, even
  under a folding AWS does not document, AWSServices leaves out sts:AssumeRoleWithSAML and
  AccountSAMLProviders leaves out sts:AssumeRole.
\<close>

theorem issuerless_population_is_sound:
  assumes "statement_actions s = read_actions T texts" "issuerless_population T s \<noteq> EveryIssuer"
  shows "\<not> may_grant (statement_actions s) assumeWithWebIdentity
    \<and> (issuerless_population T s = AWSServices \<longrightarrow> \<not> may_grant (statement_actions s) assumeWithSAML)
    \<and> (issuerless_population T s = AccountSAMLProviders \<longrightarrow> \<not> may_grant (statement_actions s) assumeRole)
    \<and> principalUnreadable \<notin> set (map principal_kind (statement_principals s))"
  using issuerless_cases [OF assms] by blast

definition sample_star :: statement where
  "sample_star = parse_statement no_tables (sample_object
     [(''Effect'', sample_string ''Allow''), (''Principal'', sample_string ''*''), (''Action'', sample_string ''sts:AssumeRole'')]) ''s''"

theorem issuerless_population_is_sound_witness:
  "issuerless_population no_tables sample_star = AWSServices \<and> \<not> may_grant (statement_actions sample_star) assumeWithSAML"
proof -
  have "statement_actions sample_star = read_actions no_tables [''sts:AssumeRole'']" "issuerless_population no_tables sample_star = AWSServices"
    by code_simp+
  then show ?thesis using issuerless_population_is_sound [of sample_star no_tables "[''sts:AssumeRole'']"] by auto
qed

text \<open>
  A grant projected from a principal the parser does not model is never reported as modelled,
  so whoever places it places it as if anyone could present a credential it admits.
\<close>

theorem unmodelled_principals_are_reported:
  assumes "p \<in> set (statement_principals s)" "\<not> is_modelled p" "face \<in> set (faces p (statement_actions s) src')"
    "statement_grant T s face src target vocab variables = Some g"
  shows "\<not> models_principal_of s g"
proof -
  have "principal_kind p \<noteq> principalAnyone" using assms(2) by (auto simp: is_modelled_def)
  then have face: "face = p" using assms(3) by (simp add: faces_def)
  obtain h where h: "statement_grant T s face src target vocab variables = Some h"
    "grant_issuer h = principal_issuer face" "grant_effect h = statement_effect s" "grant_source h = statement_raw s" "grant_target h = target"
    "\<And>token. admits (grant_admits h) token \<longleftrightarrow> reaches s face \<and>
       (statement_effect s = Deny \<longrightarrow> read_in_full T s face src vocab variables) \<and>
       (unevaluated s face \<or> meets T s face src vocab variables token)"
    "is_exact (grant_admits h) \<longleftrightarrow> \<not> reaches s face \<or> read_in_full T s face src vocab variables"
    "set (findings_anomalies (statement_findings s)) \<union> set (findings_anomalies (principal_findings face)) \<subseteq> set (grant_anomalies h)"
    by (rule statement_grant_spec, rule that)
  then have "projects p g" using assms(4) by (auto simp: projects_def list_ex_iff face)
  then show ?thesis using assms(1,2) by (auto simp: models_principal_of_def list_ex_iff)
qed

theorem unmodelled_principals_are_reported_witness:
  "\<exists>g. statement_grant no_tables (parse_statement no_tables (sample_object [(''Principal'', sample_object [(''CanonicalUser'', sample_string ''x'')])]) ''s'')
      (principal_item no_tables ''CanonicalUser'' False ''s.Principal'' (sample_string ''x'')) ''s'' \<lparr>target_kind = [], target_id = []\<rparr> None variablesLiteral = Some g
    \<and> \<not> models_principal_of (parse_statement no_tables (sample_object [(''Principal'', sample_object [(''CanonicalUser'', sample_string ''x'')])]) ''s'') g"
proof -
  let ?s = "parse_statement no_tables (sample_object [(''Principal'', sample_object [(''CanonicalUser'', sample_string ''x'')])]) ''s''"
  let ?p = "principal_item no_tables ''CanonicalUser'' False ''s.Principal'' (sample_string ''x'')"
  obtain g where g: "statement_grant no_tables ?s ?p ''s'' \<lparr>target_kind = [], target_id = []\<rparr> None variablesLiteral = Some g"
    by (rule statement_grant_spec)
  have "?p \<in> set (statement_principals ?s)" "\<not> is_modelled ?p" "?p \<in> set (faces ?p (statement_actions ?s) [])" by code_simp+
  then show ?thesis using unmodelled_principals_are_reported g by blast
qed

lemma unread_spec:
  assumes "unread T d i w issuer vocab = Some us" "s = document_statements d ! nat i" "src = statement_source (nat i)"
  obtains p face where "p \<in> set (statement_principals s)" "principal_written p = w" "face \<in> set (faces p (statement_actions s) (src @ ''.Principal''))"
    "principal_issuer face = issuer" "map condition_key us = map constraint_key (filter (\<lambda>c. unevaluated s face \<or>
       outcome_anomalies (evaluate T face (statement_effect s) vocab (document_variables d) (src @ ''.Condition'') c) \<noteq> []) (statement_conditions s))"
proof -
  have i: "\<not> (i < 0 \<or> int (length (document_statements d)) \<le> i)" using assms(1) by (auto simp: unread_def split: if_splits)
  then have src: "src = ''statement['' @ itoa i @ '']''" by (simp add: assms(3) statement_source_def)
  let ?fs = "concat (map (\<lambda>p. if principal_written p \<noteq> w then []
                  else filter (\<lambda>face. principal_issuer face = issuer) (faces p (statement_actions s) (src @ ''.Principal'')))
                  (statement_principals s))"
  note u = assms(1) [unfolded unread_def if_not_P [OF i] Let_def assms(2) [symmetric] src [symmetric]]
  have one: "length ?fs = 1" using u by (metis option.distinct(1))
  then obtain face where face: "?fs = [face]" by (auto simp: length_Suc_conv)
  then have "face \<in> set ?fs" by simp
  then obtain p where p: "p \<in> set (statement_principals s)" "principal_written p = w"
    "face \<in> set (faces p (statement_actions s) (src @ ''.Principal''))" "principal_issuer face = issuer"
    by (auto split: if_splits)
  have "map condition_key us = map constraint_key (filter (\<lambda>c. unevaluated s face \<or>
       outcome_anomalies (evaluate T face (statement_effect s) vocab (document_variables d) (src @ ''.Condition'') c) \<noteq> []) (statement_conditions s))"
    using u unfolding face by (auto simp: comp_def unevaluated_def)
  then show thesis using that p by blast
qed

text \<open>
  Unread lists what a grant did not read: for the one face it was asked of, the keys it gives
  are those of the conditions that have a fact against them, or all where the statement or the
  principal was left unevaluated; so a grant that is exact, and that an action can reach, has none.
\<close>

theorem unread_lists_what_was_not_read:
  assumes "unread T d i w issuer vocab = Some us"
  shows "\<exists>p face g. p \<in> set (statement_principals (document_statements d ! nat i)) \<and> principal_written p = w \<and> principal_issuer face = issuer
    \<and> face \<in> set (faces p (statement_actions (document_statements d ! nat i)) (statement_source (nat i) @ ''.Principal''))
    \<and> map condition_key us = map constraint_key (filter (\<lambda>c. unevaluated (document_statements d ! nat i) face \<or>
         outcome_anomalies (evaluate T face (statement_effect (document_statements d ! nat i)) vocab (document_variables d)
           (statement_source (nat i) @ ''.Condition'') c) \<noteq> []) (statement_conditions (document_statements d ! nat i)))
    \<and> statement_grant T (document_statements d ! nat i) face (statement_source (nat i)) target vocab (document_variables d) = Some g
    \<and> (is_exact (grant_admits g) \<and> reaches (document_statements d ! nat i) face \<longrightarrow> us = [])"
proof -
  let ?s = "document_statements d ! nat i" and ?src = "statement_source (nat i)"
  obtain p face where p: "p \<in> set (statement_principals ?s)" "principal_written p = w" "face \<in> set (faces p (statement_actions ?s) (?src @ ''.Principal''))"
    "principal_issuer face = issuer" and keys: "map condition_key us = map constraint_key (filter (\<lambda>c. unevaluated ?s face \<or>
       outcome_anomalies (evaluate T face (statement_effect ?s) vocab (document_variables d) (?src @ ''.Condition'') c) \<noteq> []) (statement_conditions ?s))"
    by (rule unread_spec [OF assms refl refl])
  obtain g where g: "statement_grant T ?s face ?src target vocab (document_variables d) = Some g"
    "grant_issuer g = principal_issuer face" "grant_effect g = statement_effect ?s" "grant_source g = statement_raw ?s" "grant_target g = target"
    "\<And>token. admits (grant_admits g) token \<longleftrightarrow> reaches ?s face \<and>
       (statement_effect ?s = Deny \<longrightarrow> read_in_full T ?s face ?src vocab (document_variables d)) \<and>
       (unevaluated ?s face \<or> meets T ?s face ?src vocab (document_variables d) token)"
    "is_exact (grant_admits g) \<longleftrightarrow> \<not> reaches ?s face \<or> read_in_full T ?s face ?src vocab (document_variables d)"
    "set (findings_anomalies (statement_findings ?s)) \<union> set (findings_anomalies (principal_findings face)) \<subseteq> set (grant_anomalies g)"
    by (rule statement_grant_spec, rule that)
  have "us = []" if "is_exact (grant_admits g)" "reaches ?s face"
  proof -
    have r: "read_in_full T ?s face ?src vocab (document_variables d)" using that by (simp add: g(7))
    then have "\<not> unevaluated ?s face" by (simp add: read_in_full_def unevaluated_def findings_caveats_def)
    then have "map condition_key us = []" unfolding keys using r by (auto simp: read_in_full_def list_all_iff filter_empty_conv)
    then show ?thesis by simp
  qed
  then show ?thesis using p keys g(1) by blast
qed

definition sample_document :: document where
  "sample_document = parse_document no_tables (sample_object [(''Statement'', sample_statement ''Allow''
     [(''Condition'', sample_object [(''Bool'', sample_object [(''aws:MultiFactorAuthPresent'', sample_string ''true'')])])])])"

theorem unread_lists_what_was_not_read_witness:
  "unread no_tables sample_document 0
     \<lparr>written_member = ''AWS'', written_text = ''111122223333'', written_start = 0, written_end = 14\<rparr> AWSPrincipalIssuer None
   = Some [\<lparr>condition_operator = ''Bool'', condition_key = ''aws:MultiFactorAuthPresent'', condition_values = [''true'']\<rparr>]
   \<and> (\<exists>face. \<exists>g. statement_grant no_tables (document_statements sample_document ! nat 0) face
       (statement_source (nat 0)) \<lparr>target_kind = [], target_id = []\<rparr> None variablesLiteral = Some g \<and>
       \<not> (is_exact (grant_admits g) \<and> reaches (document_statements sample_document ! nat 0) face))"
proof
  let ?d = sample_document
  let ?w = "\<lparr>written_member = ''AWS'', written_text = ''111122223333'', written_start = 0, written_end = 14\<rparr>"
  let ?us = "[\<lparr>condition_operator = ''Bool'', condition_key = ''aws:MultiFactorAuthPresent'', condition_values = [''true'']\<rparr>]"
  show u: "unread no_tables ?d 0 ?w AWSPrincipalIssuer None = Some ?us" by code_simp
  have v: "document_variables ?d = variablesLiteral" by code_simp
  from unread_lists_what_was_not_read [OF u, of "\<lparr>target_kind = [], target_id = []\<rparr>"]
  show "\<exists>face. \<exists>g. statement_grant no_tables (document_statements ?d ! nat 0) face (statement_source (nat 0)) \<lparr>target_kind = [], target_id = []\<rparr> None variablesLiteral = Some g \<and>
       \<not> (is_exact (grant_admits g) \<and> reaches (document_statements ?d ! nat 0) face)"
    unfolding v by blast
qed

section \<open>Recognising a caveat by its sentence\<close>

lemma recognised_no_space:
  assumes "operator_recognised (parse_operator text)"
  shows "CHR '' '' \<notin> set text"
proof -
  have docs: "list_all (\<lambda>d. CHR '' '' \<notin> set d) documentedOperators" by (simp add: documentedOperators_def)
  have pre: "CHR '' '' \<in> set s \<Longrightarrow> CHR '' '' \<notin> set p \<Longrightarrow> CHR '' '' \<in> set (trim_prefix s p)" for s p
    by (auto simp: trim_prefix_def elim: has_prefixE)
  have suf: "CHR '' '' \<in> set s \<Longrightarrow> CHR '' '' \<notin> set p \<Longrightarrow> CHR '' '' \<in> set (trim_suffix s p)" for s p
    by (auto simp: trim_suffix_def has_suffix_def suffix_def)
  show ?thesis
  proof
    assume sp: "CHR '' '' \<in> set text"
    have "CHR '' '' \<in> set (operator_base (parse_operator text))"
      using sp pre suf by (auto simp: parse_operator_def Let_def split: prod.split)
    moreover have "operator_base (parse_operator text) \<in> set documentedOperators"
      using assms by (auto simp: parse_operator_def Let_def split: prod.split_asm if_splits)
    ultimately show False using docs by (auto simp: list_all_iff)
  qed
qed

lemma cut_at_space:
  assumes "CHR '' '' \<notin> set s"
  shows "cut (s @ (CHR '' '' # sep) @ r) (CHR '' '' # sep) = (s, r, True)"
proof -
  have "index_of (s @ (CHR '' '' # sep) @ r) (CHR '' '' # sep) = Some (length s)"
    using assms
  proof (induction s)
    case Nil
    then show ?case by (simp add: index_of.simps)
  next
    case (Cons c s)
    then show ?case by (simp add: index_of.simps [of "c # _"])
  qed
  then show ?thesis by (simp add: cut_def)
qed

text \<open>The sentence of a caveat on an operator AWS documents, taken apart as AsksNoParticularValue does.\<close>

definition on_claim :: "string \<Rightarrow> claim_key \<Rightarrow> string" where
  "on_claim text claim = text @ '' on '' @ spell_claim claim"

lemma cut_sentence:
  assumes "operator_recognised (parse_operator text)"
  shows "cut (on_claim text claim @ CHR '' '' # r) ('' on '' @ spell_claim claim @ '' '') = (text, r, True)"
  using cut_at_space [OF recognised_no_space [OF assms], of "''on '' @ spell_claim claim @ '' ''" r] by (simp add: on_claim_def)

lemma takeWhile_to_space:
  assumes "CHR '' '' \<notin> set s"
  shows "takeWhile (\<lambda>c. c \<noteq> CHR '' '') (s @ CHR '' '' # r) = s"
  using assms by (induction s) auto

lemma cut_unmodelled_sentence:
  assumes "operator_recognised (parse_operator text)" "cut (''operator '' @ on_claim text claim @ r) ('' on '' @ spell_claim claim @ '' '') = (t, r', found)"
  shows "\<not> found \<or> \<not> operator_recognised (parse_operator t)"
proof (rule ccontr)
  assume "\<not> ?thesis"
  then have f: "found" "operator_recognised (parse_operator t)" by auto
  have s: "''operator '' @ on_claim text claim @ r = t @ ('' on '' @ spell_claim claim @ '' '') @ r'"
    by (rule cut_found) (use assms(2) f(1) in \<open>simp only: simp_thms\<close>)
  have "CHR '' '' \<notin> set t" by (rule recognised_no_space [OF f(2)])
  then have "t = ''operator''"
  proof -
    have a: "takeWhile (\<lambda>c. c \<noteq> CHR '' '') (''operator '' @ on_claim text claim @ r) = ''operator''" by simp
    have b: "takeWhile (\<lambda>c. c \<noteq> CHR '' '') (t @ ('' on '' @ spell_claim claim @ '' '') @ r') = t"
      using takeWhile_to_space [OF \<open>CHR '' '' \<notin> set t\<close>] by simp
    show ?thesis using arg_cong [OF s, of "takeWhile (\<lambda>c. c \<noteq> CHR '' '')"] unfolding a b by (rule sym)
  qed
  moreover have "\<not> operator_recognised (parse_operator ''operator'')" by code_simp
  ultimately show False using f(2) by simp
qed

text \<open>The operators whose condition a caller meets without sending a value AWS would compare.\<close>

definition null_polarity :: "written_constraint \<Rightarrow> bool" where
  "null_polarity c \<longleftrightarrow>
     (let v = constraint_value c; v = (if value_kind v = kindArray \<and> length (value_items v) = 1 then hd (value_items v) else v) in
      value_kind v = kindBool \<or> value_kind v = kindString \<and> value_text v \<in> {''true'', ''false''})"

definition bare_operator :: "string \<Rightarrow> written_constraint \<Rightarrow> bool" where
  "bare_operator base c \<longleftrightarrow> (let oper = parse_operator (constraint_operator c) in
     operator_set_prefix oper = [] \<and> \<not> operator_if_exists oper \<and> operator_base oper = base)"

definition asks_nothing :: "written_constraint \<Rightarrow> bool" where
  "asks_nothing c \<longleftrightarrow> (let oper = parse_operator (constraint_operator c) in
     operator_set_prefix oper = ''ForAllValues'' \<or> operator_if_exists oper \<or>
     operator_set_prefix oper = [] \<and> (operator_base oper \<in> {''StringNotEquals'', ''StringNotLike'', ''StringNotEqualsIgnoreCase''} \<or>
       operator_base oper = ''Null'' \<and> null_polarity c))"

lemma null_message_polarity:
  "null_message c on = null_sentence on ''true'' \<or> null_message c on = null_sentence on ''false'' \<longleftrightarrow> null_polarity c"
  by (cases "value_kind (if value_kind (constraint_value c) = kindArray \<and> length (value_items (constraint_value c)) = 1
      then hd (value_items (constraint_value c)) else constraint_value c)")
    (simp_all add: null_message_def null_sentence_def null_polarity_def Let_def)

text \<open>The three sentences begin with what they are about.\<close>

lemma sentence_starts:
  "\<exists>r. vacuous_sentence on = on @ CHR '' '' # r" "\<exists>r. complement_sentence on = on @ CHR '' '' # r"
  "\<exists>r. null_message c on = on @ CHR '' '' # r"
  "\<exists>r. presence_sentence text claim = spell_operator text @ '' on '' @ spell_claim claim @ CHR '' '' # r"
  by (auto simp: vacuous_sentence_def complement_sentence_def presence_sentence_def null_message_def null_sentence_def Let_def)

lemma asks_sentence:
  assumes "operator_recognised (parse_operator text)" "message = on_claim text claim @ CHR '' '' # r"
  shows "asks_no_particular_value \<lparr>caveat_claim = claim, caveat_reason = message, caveat_source = src\<rparr> \<longleftrightarrow>
    (let oper = parse_operator text; base = operator_base oper; on = on_claim text claim in
     if operator_set_prefix oper = ''ForAllValues'' \<or> operator_if_exists oper then message = vacuous_sentence on
     else if operator_set_prefix oper \<noteq> [] then False
     else if base = ''StringLike'' then message = presence_sentence text claim
     else if base = ''Null'' then message = null_sentence on ''true'' \<or> message = null_sentence on ''false''
     else if base \<in> {''StringNotEquals'', ''StringNotLike'', ''StringNotEqualsIgnoreCase''} then message = complement_sentence on
     else False)"
  unfolding asks_no_particular_value_def Let_def caveat.simps assms(2) cut_sentence [OF assms(1)] prod.case
  using assms(1) by (simp add: on_claim_def)

lemma asks_iff:
  assumes "operator_recognised (parse_operator (constraint_operator c))" "f \<in> set (operator_facts Allow c (on_claim (constraint_operator c) claim))"
  shows "asks_no_particular_value \<lparr>caveat_claim = claim, caveat_reason = fact_message f, caveat_source = src\<rparr> \<longleftrightarrow> asks_nothing c"
proof -
  let ?t = "constraint_operator c"
  let ?op = "parse_operator ?t" and ?on = "on_claim ?t claim"
  have effect: "vacuous_for Allow ?op ?on = vacuous_sentence ?on" by (simp add: vacuous_for_def Allow_def Deny_def)
  note pre = set_prefix_cases [of ?t]
  consider (vacuous) "operator_set_prefix ?op = ''ForAllValues'' \<or> operator_if_exists ?op" "fact_message f = vacuous_sentence ?on"
    | (any) r where "operator_set_prefix ?op = ''ForAnyValue''" "\<not> operator_if_exists ?op" "fact_message f = ?on @ CHR '' '' # r"
    | (null) "operator_set_prefix ?op = []" "\<not> operator_if_exists ?op" "operator_base ?op = ''Null''" "fact_message f = null_message c ?on"
    | (complement) "operator_set_prefix ?op = []" "\<not> operator_if_exists ?op" "operator_base ?op \<in> {''StringNotEquals'', ''StringNotLike'', ''StringNotEqualsIgnoreCase''}"
        "fact_message f = complement_sentence ?on"
    | (casing) r where "operator_set_prefix ?op = []" "\<not> operator_if_exists ?op" "operator_base ?op = ''StringEqualsIgnoreCase''" "fact_message f = ?on @ CHR '' '' # r"
    | (other) r where "operator_set_prefix ?op = []" "\<not> operator_if_exists ?op" "operator_base ?op \<notin> {''Null'', ''StringNotEquals'', ''StringNotLike'', ''StringNotEqualsIgnoreCase''}"
        "fact_message f = ''operator '' @ ?on @ r"
    using assms pre effect unfolding operator_facts_def Let_def a_fact_def
    by (auto split: if_splits)
  then show ?thesis
  proof cases
    case vacuous
    obtain r where r: "fact_message f = ?on @ CHR '' '' # r" using sentence_starts(1) vacuous(2) by metis
    show ?thesis unfolding asks_sentence [OF assms(1) r] using vacuous by (auto simp: asks_nothing_def Let_def)
  next
    case any
    show ?thesis unfolding asks_sentence [OF assms(1) any(3)] using any(1,2) by (simp add: asks_nothing_def Let_def)
  next
    case null
    obtain r where r: "fact_message f = ?on @ CHR '' '' # r" using sentence_starts(3) null(4) by metis
    show ?thesis unfolding asks_sentence [OF assms(1) r]
      unfolding null(4) using null(1-3) null_message_polarity [of c ?on] by (simp add: asks_nothing_def Let_def)
  next
    case complement
    obtain r where r: "fact_message f = ?on @ CHR '' '' # r" using sentence_starts(2) complement(4) by metis
    show ?thesis unfolding asks_sentence [OF assms(1) r]
      using complement by (auto simp: asks_nothing_def Let_def)
  next
    case casing
    show ?thesis unfolding asks_sentence [OF assms(1) casing(4)] using casing(1-3) by (simp add: asks_nothing_def Let_def)
  next
    case other
    obtain t r' found where c: "cut (''operator '' @ ?on @ r) ('' on '' @ spell_claim claim @ '' '') = (t, r', found)" by (metis prod_cases3)
    have "\<not> found \<or> \<not> operator_recognised (parse_operator t)" by (rule cut_unmodelled_sentence [OF assms(1) c])
    then have "\<not> asks_no_particular_value \<lparr>caveat_claim = claim, caveat_reason = fact_message f, caveat_source = src\<rparr>"
      unfolding asks_no_particular_value_def Let_def caveat.simps other(4) c prod.case by auto
    then show ?thesis using other(1-3) by (auto simp: asks_nothing_def Let_def)
  qed
qed

text \<open>
  A caveat is known again by its sentence: AsksNoParticularValue says yes to the caveat an
  operator of an Allow leaves exactly when the operator is met by a caller that sends no value AWS
  would compare (a vacuous ForAllValues or IfExists, a complement, a Null of either polarity), and to
  the caveat of a wildcard match exactly when the operator is a bare StringLike.
\<close>

theorem caveats_known_by_their_sentence:
  assumes "operator_recognised (parse_operator (constraint_operator c))"
  shows "(\<forall>f \<in> set (operator_facts Allow c (spell_operator (constraint_operator c) @ '' on '' @ spell_claim claim)).
      asks_no_particular_value \<lparr>caveat_claim = claim, caveat_reason = fact_message f, caveat_source = src\<rparr> = asks_nothing c)
    \<and> (asks_no_particular_value \<lparr>caveat_claim = claim, caveat_reason = presence_sentence (constraint_operator c) claim, caveat_source = src\<rparr>
      \<longleftrightarrow> bare_operator ''StringLike'' c)"
proof -
  let ?t = "constraint_operator c"
  have spell: "spell_operator ?t = ?t" using assms by (simp add: spell_operator_def)
  have on: "spell_operator ?t @ '' on '' @ spell_claim claim = on_claim ?t claim" by (simp add: spell on_claim_def)
  have a: "\<forall>f \<in> set (operator_facts Allow c (spell_operator ?t @ '' on '' @ spell_claim claim)).
      asks_no_particular_value \<lparr>caveat_claim = claim, caveat_reason = fact_message f, caveat_source = src\<rparr> = asks_nothing c"
    unfolding on using asks_iff [OF assms] by blast
  obtain r where r: "presence_sentence ?t claim = on_claim ?t claim @ CHR '' '' # r"
    using sentence_starts(4) [of ?t claim] by (auto simp: spell on_claim_def)
  have ne: "presence_sentence ?t claim \<noteq> vacuous_sentence (on_claim ?t claim)" "presence_sentence ?t claim \<noteq> complement_sentence (on_claim ?t claim)"
    "presence_sentence ?t claim \<noteq> null_sentence (on_claim ?t claim) q" for q
    by (simp_all add: presence_sentence_def vacuous_sentence_def complement_sentence_def null_sentence_def spell on_claim_def)
  have b: "asks_no_particular_value \<lparr>caveat_claim = claim, caveat_reason = presence_sentence ?t claim, caveat_source = src\<rparr>
      \<longleftrightarrow> bare_operator ''StringLike'' c"
    unfolding asks_sentence [OF assms r] Let_def using ne by (auto simp: bare_operator_def Let_def)
  show ?thesis using a b by (rule conjI)
qed

theorem caveats_known_by_their_sentence_witness:
  "asks_no_particular_value \<lparr>caveat_claim = ''sub'', caveat_reason = presence_sentence ''StringLike'' ''sub'', caveat_source = ''s''\<rparr>
    \<and> asks_no_particular_value \<lparr>caveat_claim = ''sub'', caveat_reason = complement_sentence ''StringNotEquals on sub'', caveat_source = ''s''\<rparr>"
proof -
  let ?like = "sample_constraint ''StringLike'' ''h.io:sub'' ''x''" and ?not = "sample_constraint ''StringNotEquals'' ''h.io:sub'' ''x''"
  have a: "operator_recognised (parse_operator (constraint_operator ?like))" "operator_recognised (parse_operator (constraint_operator ?not))"
    "bare_operator ''StringLike'' ?like" "asks_nothing ?not" by code_simp+
  have f: "operator_facts Allow ?not (spell_operator (constraint_operator ?not) @ '' on '' @ spell_claim ''sub'') =
      [a_fact ''StringNotEquals'' Unmodelled ''StringNotEquals'' (complement_sentence ''StringNotEquals on sub'')]" by code_simp
  have o: "constraint_operator (sample_constraint oper k x) = oper" for oper k x by (simp add: sample_constraint_def)
  show ?thesis
    using caveats_known_by_their_sentence [OF a(1), of "''sub''" "''s''"] caveats_known_by_their_sentence [OF a(2), of "''sub''" "''s''"] a(3,4)
    unfolding f by (simp add: o a_fact_def)
qed

end
