(* ===== verification/Ring_Owner.thy ===== *)
theory Ring_Owner imports Eval_Shape begin

text \<open>
  Package ring, place.go and owner.go: the places a population can land at, the owners it can be
  confined to, the text of both, and the order owners are listed in (compareOwners, sortOwners and
  distinct of classify.go). An enumeration of the code is a datatype with its constants in the
  code's order, so the table its String indexes always has a name for it; name itself is kept whole,
  with the branch a number outside the table takes.
\<close>

section \<open>Enumerations and their names\<close>

definition name_of :: "string list \<Rightarrow> int \<Rightarrow> string \<Rightarrow> string" where
  "name_of names i kind =
     (if 0 \<le> i \<and> i < int (length names) then names ! nat i else kind @ ''('' @ itoa i @ '')'')"

datatype ring_place = Anyone | Platform | Outsider | Yours | People | SAML | Service

primrec place_number :: "ring_place \<Rightarrow> int" where
  "place_number Anyone = 0" | "place_number Platform = 1" | "place_number Outsider = 2" | "place_number Yours = 3"
| "place_number People = 4" | "place_number SAML = 5" | "place_number Service = 6"

definition placeNames :: "string list" where
  "placeNames = [''anyone'', ''platform'', ''outsider'', ''yours'', ''people'', ''saml'', ''service'']"

definition place_string :: "ring_place \<Rightarrow> string" where
  "place_string p = name_of placeNames (place_number p) ''place''"

definition is_ring :: "ring_place \<Rightarrow> bool" where
  "is_ring p \<longleftrightarrow> place_number Anyone \<le> place_number p \<and> place_number p \<le> place_number People"

datatype place_state = StateUnknown | StateExact

primrec state_number :: "place_state \<Rightarrow> int" where
  "state_number StateUnknown = 0" | "state_number StateExact = 1"

definition stateNames :: "string list" where "stateNames = [''unknown'', ''exact'']"

definition state_string :: "place_state \<Rightarrow> string" where
  "state_string s = name_of stateNames (state_number s) ''state''"

datatype basis =
    IssuerNotSurveyed | TokensWithoutAccount | AccountNotVerified | AnyIssuer | PrincipalNotModelled | Unpinned
  | UnreadConstraint | TenancyNotRecorded | OpenTenant | MembershipNotVerified | Pinned | ControlledTenant
  | SAMLProvider | AccountSAML | ServicePrincipal | AnyService | ServiceIntermediary

primrec basis_number :: "basis \<Rightarrow> int" where
  "basis_number IssuerNotSurveyed = 0" | "basis_number TokensWithoutAccount = 1" | "basis_number AccountNotVerified = 2"
| "basis_number AnyIssuer = 3" | "basis_number PrincipalNotModelled = 4" | "basis_number Unpinned = 5"
| "basis_number UnreadConstraint = 6" | "basis_number TenancyNotRecorded = 7" | "basis_number OpenTenant = 8"
| "basis_number MembershipNotVerified = 9" | "basis_number Pinned = 10" | "basis_number ControlledTenant = 11"
| "basis_number SAMLProvider = 12" | "basis_number AccountSAML = 13" | "basis_number ServicePrincipal = 14"
| "basis_number AnyService = 15" | "basis_number ServiceIntermediary = 16"

definition basisNames :: "string list" where
  "basisNames =
     [''issuer-not-surveyed'', ''tokens-without-account'', ''account-not-verified'', ''any-issuer'',
      ''principal-not-modelled'', ''unpinned'', ''unread-constraint'', ''tenancy-not-recorded'', ''open-tenant'',
      ''membership-not-verified'', ''pinned'', ''controlled-tenant'',
      ''saml-provider'', ''account-saml-providers'', ''service-principal'', ''any-service'', ''service-intermediary'']"

definition basis_string :: "basis \<Rightarrow> string" where
  "basis_string b = name_of basisNames (basis_number b) ''basis''"

datatype ring_outcome = Placed | Refused | Nobody

primrec outcome_number :: "ring_outcome \<Rightarrow> int" where
  "outcome_number Placed = 0" | "outcome_number Refused = 1" | "outcome_number Nobody = 2"

definition outcomeNames :: "string list" where "outcomeNames = [''placed'', ''refused'', ''nobody'']"

definition outcome_string :: "ring_outcome \<Rightarrow> string" where
  "outcome_string x = name_of outcomeNames (outcome_number x) ''outcome''"

datatype owner_scope =
    ScopeNone | ScopeOwner | ScopeRepository | ScopeEnterprise | ScopeAccount | ScopeOrganisation | ScopeTenant | ScopeProvider

primrec scope_number :: "owner_scope \<Rightarrow> int" where
  "scope_number ScopeNone = 0" | "scope_number ScopeOwner = 1" | "scope_number ScopeRepository = 2"
| "scope_number ScopeEnterprise = 3" | "scope_number ScopeAccount = 4" | "scope_number ScopeOrganisation = 5"
| "scope_number ScopeTenant = 6" | "scope_number ScopeProvider = 7"

definition scopeNames :: "string list" where
  "scopeNames = [''none'', ''owner'', ''repository'', ''enterprise'', ''account'', ''organisation'', ''tenant'', ''provider'']"

definition scope_string :: "owner_scope \<Rightarrow> string" where
  "scope_string s = name_of scopeNames (scope_number s) ''scope''"

datatype owner_kind = KindName | KindID

primrec owner_kind_number :: "owner_kind \<Rightarrow> int" where
  "owner_kind_number KindName = 0" | "owner_kind_number KindID = 1"

definition kindNames :: "string list" where "kindNames = [''name'', ''id'']"

definition owner_kind_string :: "owner_kind \<Rightarrow> string" where
  "owner_kind_string k = name_of kindNames (owner_kind_number k) ''kind''"

section \<open>Owners\<close>

definition NamespaceGitHub :: string where "NamespaceGitHub = ''github''"
definition NamespaceAWS :: string where "NamespaceAWS = ''aws''"
definition NamespaceSAML :: string where "NamespaceSAML = ''saml''"
definition NamespaceIssuer :: string where "NamespaceIssuer = ''issuer''"

lemmas namespace_defs = NamespaceGitHub_def NamespaceAWS_def NamespaceSAML_def NamespaceIssuer_def

record tenant_owner =
  owner_issuer :: string
  owner_namespace :: string
  owner_scope :: owner_scope
  owner_kind :: owner_kind
  owner_value :: string
  owner_name :: string
  owner_recyclable :: bool
  owner_declared :: bool

text \<open>Owner.Declaration: what a user writes to declare the owner.\<close>

definition owner_declaration :: "tenant_owner \<Rightarrow> string" where
  "owner_declaration w =
     (if owner_namespace w = NamespaceGitHub \<and> owner_scope w = ScopeOwner \<and> owner_kind w = KindName
      then ''github:'' @ owner_value w
      else if owner_namespace w = NamespaceGitHub \<and> owner_scope w = ScopeOwner \<and> owner_kind w = KindID
      then ''github:'' @ owner_name w @ ''@'' @ owner_value w
      else if owner_namespace w = NamespaceAWS \<and> (owner_scope w = ScopeAccount \<or> owner_scope w = ScopeOrganisation)
      then ''aws:'' @ owner_value w
      else if owner_namespace w = NamespaceSAML \<and> owner_scope w = ScopeProvider then ''saml:'' @ owner_value w
      else if owner_namespace w = NamespaceIssuer \<and> owner_scope w = ScopeTenant then ''issuer:'' @ owner_issuer w
      else [])"

definition owner_string :: "tenant_owner \<Rightarrow> string" where
  "owner_string w =
     scope_string (owner_scope w) @ '' '' @ owner_kind_string (owner_kind w) @ '' '' @ quote_to_ascii (owner_value w) @
     (if owner_name w \<noteq> [] then '' named '' @ quote_to_ascii (owner_name w) else []) @
     '' on '' @ quote_to_ascii (owner_issuer w) @
     (if owner_namespace w \<noteq> [] then '' in '' @ owner_namespace w else []) @
     (if owner_recyclable w then '' recyclable'' else []) @
     (if owner_declared w then '' declared'' else [])"

section \<open>The order of owners\<close>

definition compare_bool :: "bool \<Rightarrow> bool \<Rightarrow> int" where
  "compare_bool a b = (if a = b then 0 else if a then 1 else - 1)"

definition compare_owners :: "tenant_owner \<Rightarrow> tenant_owner \<Rightarrow> int" where
  "compare_owners a b =
     cmp_or
       [go_compare (owner_namespace a) (owner_namespace b),
        go_compare (scope_number (owner_scope a)) (scope_number (owner_scope b)),
        go_compare (owner_kind_number (owner_kind a)) (owner_kind_number (owner_kind b)),
        go_compare (owner_value a) (owner_value b),
        go_compare (owner_name a) (owner_name b),
        go_compare (owner_issuer a) (owner_issuer b),
        compare_bool (owner_recyclable a) (owner_recyclable b),
        compare_bool (owner_declared a) (owner_declared b)]"

text \<open>The merge of sortOwners: the right half's next owner only where it is less, what is left of the left half, then the right's.\<close>

fun merge_owners :: "tenant_owner list \<Rightarrow> tenant_owner list \<Rightarrow> tenant_owner list" where
  "merge_owners [] rs = rs"
| "merge_owners (l # ls) [] = l # ls"
| "merge_owners (l # ls) (r # rs) =
     (if compare_owners r l < 0 then r # merge_owners (l # ls) rs else l # merge_owners ls (r # rs))"

function sort_owners :: "tenant_owner list \<Rightarrow> tenant_owner list" where
  "sort_owners ws =
     (if length ws < 2 then ws
      else (let mid = length ws div 2 in merge_owners (sort_owners (take mid ws)) (sort_owners (drop mid ws))))"
  by pat_completeness auto
termination by (relation "measure length") auto

declare sort_owners.simps [simp del]

definition distinct_owners :: "tenant_owner list \<Rightarrow> tenant_owner list" where
  "distinct_owners ws = compact_func (=) (sort_owners ws)"

section \<open>Populations and placements\<close>

record population =
  population_term :: nat
  population_place :: ring_place
  population_state :: place_state
  population_basis :: basis
  population_owners :: "tenant_owner list"
  owner_starts :: "string list"
  population_bounded :: bool

record placement =
  placement_outcome :: ring_outcome
  placement_places :: "ring_place list"
  placement_state :: place_state
  placement_owners :: "tenant_owner list"
  placement_populations :: "population list"

definition render_owners :: "tenant_owner list \<Rightarrow> string" where
  "render_owners ws =
     (if length ws = 0 then [] else '' ['' @ join_strings ''; '' (map owner_string ws) @ '']'')"

definition placement_string :: "placement \<Rightarrow> string" where
  "placement_string p =
     (if placement_outcome p \<noteq> Placed then outcome_string (placement_outcome p)
      else join_strings ''+'' (map place_string (placement_places p)) @ '' '' @ state_string (placement_state p) @
        render_owners (placement_owners p))"

definition population_string :: "population \<Rightarrow> string" where
  "population_string p =
     itoa (int (population_term p)) @ '': '' @ place_string (population_place p) @ '' '' @ state_string (population_state p) @
     '' '' @ basis_string (population_basis p) @ render_owners (population_owners p)"

section \<open>Lemmas\<close>

text \<open>Places under the order of their numbers, outermost first.\<close>

instantiation ring_place :: linorder
begin

definition less_eq_ring_place :: "ring_place \<Rightarrow> ring_place \<Rightarrow> bool" where
  "less_eq_ring_place p q \<longleftrightarrow> place_number p \<le> place_number q"

definition less_ring_place :: "ring_place \<Rightarrow> ring_place \<Rightarrow> bool" where
  "less_ring_place p q \<longleftrightarrow> place_number p < place_number q"

lemma place_number_inj: "place_number p = place_number q \<Longrightarrow> p = q"
  by (cases p; cases q) simp_all

instance
  by standard (auto simp: less_eq_ring_place_def less_ring_place_def intro: place_number_inj)

end

lemma is_ring_iff: "is_ring p \<longleftrightarrow> p \<le> People" "is_ring p \<longleftrightarrow> p \<noteq> SAML \<and> p \<noteq> Service"
  by (cases p; simp add: is_ring_def less_eq_ring_place_def)+

text \<open>The tables name every value once, so no id is ever the fallback and two values never share one.\<close>

lemma inj_name_of:
  assumes "inj number" "distinct names" "\<And>x. 0 \<le> number x \<and> number x < int (length names)"
  shows "inj (\<lambda>x. name_of names (number x) what)"
proof (rule injI)
  fix x y
  assume "name_of names (number x) what = name_of names (number y) what"
  then have "names ! nat (number x) = names ! nat (number y)" using assms(3) by (simp add: name_of_def)
  moreover have "nat (number z) < length names" for z using assms(3) [of z] by linarith
  ultimately have "nat (number x) = nat (number y)" using assms(2) nth_eq_iff_index_eq by blast
  then have "number x = number y" using assms(3) by (metis nat_eq_iff2)
  then show "x = y" using assms(1) by (simp add: inj_def)
qed

lemma numbers_inj: "inj place_number" "inj state_number" "inj basis_number" "inj outcome_number" "inj scope_number" "inj owner_kind_number"
proof -
  show "inj place_number" by (rule injI) (rule place_number_inj)
  show "inj state_number" by (rule injI) (rename_tac x y, case_tac x; case_tac y; simp)
  show "inj outcome_number" by (rule injI) (rename_tac x y, case_tac x; case_tac y; simp)
  show "inj owner_kind_number" by (rule injI) (rename_tac x y, case_tac x; case_tac y; simp)
  show "inj scope_number" by (rule injI) (rename_tac x y, case_tac x; case_tac y; simp)
  show "inj basis_number" by (rule injI) (rename_tac x y, case_tac x; case_tac y; simp)
qed

lemma enumeration_strings:
  "inj place_string" "inj state_string" "inj basis_string" "inj outcome_string" "inj scope_string" "inj owner_kind_string"
proof -
  show "inj place_string" unfolding place_string_def
    apply (rule inj_name_of [OF numbers_inj(1)])
    subgoal by (simp add: placeNames_def)
    subgoal for x by (cases x) (simp_all add: placeNames_def)
    done
  show "inj state_string" unfolding state_string_def
    apply (rule inj_name_of [OF numbers_inj(2)])
    subgoal by (simp add: stateNames_def)
    subgoal for x by (cases x) (simp_all add: stateNames_def)
    done
  show "inj basis_string" unfolding basis_string_def
    apply (rule inj_name_of [OF numbers_inj(3)])
    subgoal by (simp add: basisNames_def)
    subgoal for x by (cases x) (simp_all add: basisNames_def)
    done
  show "inj outcome_string" unfolding outcome_string_def
    apply (rule inj_name_of [OF numbers_inj(4)])
    subgoal by (simp add: outcomeNames_def)
    subgoal for x by (cases x) (simp_all add: outcomeNames_def)
    done
  show "inj scope_string" unfolding scope_string_def
    apply (rule inj_name_of [OF numbers_inj(5)])
    subgoal by (simp add: scopeNames_def)
    subgoal for x by (cases x) (simp_all add: scopeNames_def)
    done
  show "inj owner_kind_string" unfolding owner_kind_string_def
    apply (rule inj_name_of [OF numbers_inj(6)])
    subgoal by (simp add: kindNames_def)
    subgoal for x by (cases x) (simp_all add: kindNames_def)
    done
qed

text \<open>compareOwners is a total order on owners: no two different owners compare equal.\<close>

lemma comparison_bool: "comparison (\<lambda>x y. compare_bool (f x) (f y))"
  by unfold_locales (auto simp: compare_bool_def split: if_splits)

lemma compare_bool_zero [simp]: "compare_bool a b = 0 \<longleftrightarrow> a = b"
  by (auto simp: compare_bool_def)

lemma owner_comparison: "comparison compare_owners"
proof -
  let ?cs = "[\<lambda>(x::tenant_owner) (y::tenant_owner). go_compare (owner_namespace x) (owner_namespace y),
      \<lambda>x y. go_compare (scope_number (owner_scope x)) (scope_number (owner_scope y)),
      \<lambda>x y. go_compare (owner_kind_number (owner_kind x)) (owner_kind_number (owner_kind y)),
      \<lambda>x y. go_compare (owner_value x) (owner_value y), \<lambda>x y. go_compare (owner_name x) (owner_name y),
      \<lambda>x y. go_compare (owner_issuer x) (owner_issuer y), \<lambda>x y. compare_bool (owner_recyclable x) (owner_recyclable y),
      \<lambda>x y. compare_bool (owner_declared x) (owner_declared y)]"
  have e: "compare_owners = (\<lambda>x y. cmp_or (map (\<lambda>c. c x y) ?cs))" by (intro ext) (simp add: compare_owners_def)
  have c: "comparison (\<lambda>x y. cmp_or (map (\<lambda>c. c x y) ?cs))"
    by (rule comparison_or) (simp only: list.set ball_simps comparison_key comparison_bool simp_thms)
  show ?thesis unfolding e by (rule c)
qed

interpretation owner_order: total_comparison compare_owners
proof (intro total_comparison.intro owner_comparison total_comparison_axioms.intro)
  fix x y
  assume "compare_owners x y = 0"
  then have "owner_namespace x = owner_namespace y" "owner_scope x = owner_scope y" "owner_kind x = owner_kind y" "owner_value x = owner_value y"
    "owner_name x = owner_name y" "owner_issuer x = owner_issuer y" "owner_recyclable x = owner_recyclable y" "owner_declared x = owner_declared y"
    using injD [OF numbers_inj(5)] injD [OF numbers_inj(6)] by (auto simp: compare_owners_def split: if_splits)
  then show "x = y" by simp
qed

section \<open>The merge sort\<close>

lemma mset_merge_owners [simp]: "mset (merge_owners ls rs) = mset ls + mset rs"
  by (induction ls rs rule: merge_owners.induct) auto

lemma set_merge_owners: "set (merge_owners ls rs) = set ls \<union> set rs"
  by (metis mset_merge_owners set_mset_mset set_mset_union)

abbreviation owners_ordered :: "tenant_owner list \<Rightarrow> bool" where
  "owners_ordered \<equiv> sorted_wrt (\<lambda>x y. compare_owners x y \<le> 0)"

lemma sorted_merge_owners: "owners_ordered ls \<Longrightarrow> owners_ordered rs \<Longrightarrow> owners_ordered (merge_owners ls rs)"
proof (induction ls rs rule: merge_owners.induct)
  case (3 l ls r rs)
  have rl: "compare_owners r l < 0 \<Longrightarrow> \<forall>x \<in> set (l # ls) \<union> set rs. compare_owners r x \<le> 0"
    using 3(3,4) by (auto intro: owner_order.compare_trans [of r l] less_imp_le)
  have "\<not> compare_owners r l < 0 \<Longrightarrow> compare_owners l r \<le> 0" using owner_order.compare_swap [of l r] by simp
  then have lr: "\<not> compare_owners r l < 0 \<Longrightarrow> \<forall>x \<in> set ls \<union> set (r # rs). compare_owners l x \<le> 0"
    using 3(3,4) by (auto intro: owner_order.compare_trans [of l r])
  show ?case using 3 rl lr by (auto simp: set_merge_owners)
qed auto

lemma mset_sort_owners [simp]: "mset (sort_owners ws) = mset ws"
proof (induction ws rule: sort_owners.induct)
  case (1 ws)
  show ?case
  proof (cases "length ws < 2")
    case False
    have "mset (sort_owners ws) = mset (take (length ws div 2) ws) + mset (drop (length ws div 2) ws)"
      using False 1 by (subst sort_owners.simps) (simp add: Let_def)
    then show ?thesis by (metis append_take_drop_id mset_append)
  qed (simp add: sort_owners.simps)
qed

lemma sorted_sort_owners: "owners_ordered (sort_owners ws)"
proof (induction ws rule: sort_owners.induct)
  case (1 ws)
  show ?case
  proof (cases "length ws < 2")
    case True
    then show ?thesis by (cases ws) (simp_all add: sort_owners.simps)
  next
    case False
    then show ?thesis using 1 by (subst sort_owners.simps) (simp add: Let_def sorted_merge_owners)
  qed
qed

text \<open>The written-out merge sort is the library's sort.\<close>

lemma sort_owners_is_sort: "sort_owners = sort_func compare_owners"
  by (rule ext, rule owner_order.sort_func_unique [OF mset_sort_owners sorted_sort_owners])

lemma distinct_owners_set [simp]: "set (distinct_owners ws) = set ws"
  by (simp add: distinct_owners_def sort_owners_is_sort owner_order.sort_compact_set)

lemma distinct_owners_cong: "set ws = set vs \<Longrightarrow> distinct_owners ws = distinct_owners vs"
  unfolding distinct_owners_def sort_owners_is_sort by (rule owner_order.sort_compact_cong)

lemma distinct_owners_sorted: "sorted_wrt (\<lambda>x y. compare_owners x y < 0) (distinct_owners ws)"
  by (simp add: distinct_owners_def sort_owners_is_sort owner_order.sort_compact_sorted)

section \<open>What an owner renders as\<close>

lemma names_in_tables: "scope_string s \<in> set scopeNames" "owner_kind_string k \<in> set kindNames"
proof -
  show "scope_string s \<in> set scopeNames" by (cases s) (simp_all add: scope_string_def name_of_def scopeNames_def)
  show "owner_kind_string k \<in> set kindNames" by (cases k) (simp_all add: owner_kind_string_def name_of_def kindNames_def)
qed

lemma no_space_names: "CHR '' '' \<notin> set (scope_string s)" "CHR '' '' \<notin> set (owner_kind_string k)"
proof -
  have "list_all (\<lambda>n. CHR '' '' \<notin> set n) scopeNames" "list_all (\<lambda>n. CHR '' '' \<notin> set n) kindNames" by code_simp+
  then show "CHR '' '' \<notin> set (scope_string s)" "CHR '' '' \<notin> set (owner_kind_string k)"
    using names_in_tables by (auto simp only: list_all_iff)
qed

lemma char_append_inject:
  assumes "s @ c # x = t @ c # y" "c \<notin> set s" "c \<notin> set t"
  shows "s = t \<and> x = y"
  using assms
proof (induction s arbitrary: t)
  case Nil
  then show ?case by (cases t) auto
next
  case (Cons d s)
  then show ?case by (cases t) auto
qed

text \<open>What follows the issuer, which tells the namespace where it holds no space, and the two marks.\<close>

definition owner_marks :: "tenant_owner \<Rightarrow> string" where
  "owner_marks w = (if owner_namespace w \<noteq> [] then '' in '' @ owner_namespace w else []) @
     (if owner_recyclable w then '' recyclable'' else []) @ (if owner_declared w then '' declared'' else [])"

definition owner_tail :: "tenant_owner \<Rightarrow> string" where
  "owner_tail w = (if owner_name w \<noteq> [] then '' named '' @ quote_to_ascii (owner_name w) else []) @
     '' on '' @ quote_to_ascii (owner_issuer w) @ owner_marks w"

lemma owner_string_tail:
  "owner_string w = scope_string (owner_scope w) @ CHR '' '' # owner_kind_string (owner_kind w) @ CHR '' '' # quote_to_ascii (owner_value w) @ owner_tail w"
  by (simp add: owner_string_def owner_tail_def owner_marks_def)

lemma to_space_inject:
  assumes "s @ x = t @ y" "CHR '' '' \<notin> set s" "CHR '' '' \<notin> set t" "x = [] \<or> hd x = CHR '' ''" "y = [] \<or> hd y = CHR '' ''"
  shows "s = t \<and> x = y"
proof -
  have tw: "takeWhile (\<lambda>c. c \<noteq> CHR '' '') (u @ z) = u" if "CHR '' '' \<notin> set u" "z = [] \<or> hd z = CHR '' ''" for u z :: string
    using that by (induction u) (cases z, auto)
  have "s = t" using tw [OF assms(2,4)] tw [OF assms(3,5)] assms(1) by simp
  then show ?thesis using assms(1) by simp
qed

lemma owner_marks_inject:
  assumes "owner_marks v = owner_marks w" "CHR '' '' \<notin> set (owner_namespace v)" "CHR '' '' \<notin> set (owner_namespace w)"
  shows "owner_namespace v = owner_namespace w \<and> owner_recyclable v = owner_recyclable w \<and> owner_declared v = owner_declared w"
proof -
  define m :: "tenant_owner \<Rightarrow> string" where "m u = (if owner_recyclable u then '' recyclable'' else []) @ (if owner_declared u then '' declared'' else [])" for u
  have m: "m u = [] \<or> hd (m u) = CHR '' ''" "m u \<noteq> '' in '' @ n" for u n by (auto simp: m_def)
  have e: "owner_marks u = (if owner_namespace u \<noteq> [] then '' in '' @ owner_namespace u @ m u else m u)" for u
    by (simp add: owner_marks_def m_def)
  have "owner_namespace v = owner_namespace w \<and> m v = m w"
  proof (cases "owner_namespace v = [] \<or> owner_namespace w = []")
    case True
    then show ?thesis using assms(1) m(2) [of v "owner_namespace w @ m w"] m(2) [of w "owner_namespace v @ m v"]
      unfolding e by (auto split: if_splits)
  next
    case False
    then have "owner_namespace v @ m v = owner_namespace w @ m w" using assms(1) by (simp add: e)
    then show ?thesis by (rule to_space_inject) (use assms m(1) in auto)
  qed
  then show ?thesis by (auto simp: m_def split: if_splits)
qed

lemma owner_tail_inject:
  assumes "owner_tail v = owner_tail w"
  shows "owner_name v = owner_name w \<and> owner_issuer v = owner_issuer w \<and> owner_marks v = owner_marks w"
proof -
  have d: "'' named '' @ x \<noteq> '' on '' @ y" for x y :: string by simp
  have "owner_name v = owner_name w \<and> quote_to_ascii (owner_issuer v) @ owner_marks v = quote_to_ascii (owner_issuer w) @ owner_marks w"
    using assms unfolding owner_tail_def
    by (cases "owner_name v = []"; cases "owner_name w = []") (auto dest: quote_to_ascii_append_inject)
  then show ?thesis by (blast dest: quote_to_ascii_append_inject)
qed

section \<open>Properties\<close>

text \<open>
  The owners a placement lists are a set: the written-out merge sort with its compaction gives,
  whatever order the claims were read in and however often an owner was pinned, each owner once, in
  the strictly ascending order of compareOwners.
\<close>

theorem owners_are_a_set:
  "set (distinct_owners ws) = set ws \<and> sorted_wrt (\<lambda>x y. compare_owners x y < 0) (distinct_owners ws)
    \<and> (distinct_owners ws = distinct_owners vs \<longleftrightarrow> set ws = set vs)"
  using distinct_owners_sorted distinct_owners_cong by (metis distinct_owners_set)

text \<open>
  Two different owners never render alike, whatever values, names and issuers a policy spells,
  where a namespace holds no space, as the four the program declares owners in hold none.
\<close>

theorem owners_render_apart:
  assumes "CHR '' '' \<notin> set (owner_namespace v)" "CHR '' '' \<notin> set (owner_namespace w)"
  shows "owner_string v = owner_string w \<longleftrightarrow> v = w"
proof
  assume "owner_string v = owner_string w"
  then have a: "scope_string (owner_scope v) = scope_string (owner_scope w)"
    and b: "owner_kind_string (owner_kind v) @ CHR '' '' # quote_to_ascii (owner_value v) @ owner_tail v =
      owner_kind_string (owner_kind w) @ CHR '' '' # quote_to_ascii (owner_value w) @ owner_tail w"
    using char_append_inject [OF _ no_space_names(1) no_space_names(1)] unfolding owner_string_tail by blast+
  have c: "owner_kind_string (owner_kind v) = owner_kind_string (owner_kind w)"
    "quote_to_ascii (owner_value v) @ owner_tail v = quote_to_ascii (owner_value w) @ owner_tail w"
    using char_append_inject [OF b no_space_names(2) no_space_names(2)] by auto
  have d: "owner_value v = owner_value w" "owner_tail v = owner_tail w" using quote_to_ascii_append_inject [OF c(2)] by auto
  show "v = w"
    using injD [OF enumeration_strings(5) a] injD [OF enumeration_strings(6) c(1)] d(1) owner_tail_inject [OF d(2)]
      owner_marks_inject [OF _ assms] by simp
qed simp

definition sample_owner :: "string \<Rightarrow> tenant_owner" where
  "sample_owner v = \<lparr>owner_issuer = ''https://h.io'', owner_namespace = NamespaceGitHub, owner_scope = ScopeOwner, owner_kind = KindName,
     owner_value = v, owner_name = [], owner_recyclable = True, owner_declared = False\<rparr>"

theorem owners_render_apart_witness:
  "owner_string (sample_owner ''a'') \<noteq> owner_string (sample_owner ''b'')"
proof -
  have "CHR '' '' \<notin> set (owner_namespace (sample_owner ''a''))" "CHR '' '' \<notin> set (owner_namespace (sample_owner ''b''))"
    "sample_owner ''a'' \<noteq> sample_owner ''b''"
    by (simp_all add: sample_owner_def NamespaceGitHub_def)
  then show ?thesis using owners_render_apart by blast
qed

end
