(* ===== verification/Ring_Declare.thy ===== *)
theory Ring_Declare imports Ring_Owner Aws_Tenancy "HOL-Library.AList" begin

text \<open>
  Package ring, declare.go and facts.go: the owners a user declares as theirs, read one to a line
  within the code's bounds, what a declaration covers, and the facts about an issuer the classifier
  is given. A line's reading is Inr the declaration or Inl the reason it declares nothing; the map
  from texts to declarations is an association list, which the code only reads back in the order of
  its sorted keys.
\<close>

section \<open>Facts about an issuer\<close>

datatype issuer_kind = NotSurveyed | Shared | PerTenant

datatype established = Unverified | Yes | No

record tenancy_claim =
  tenancy_claim_key :: claim_key
  claim_scope :: owner_scope
  claim_kind :: owner_kind
  claim_recyclable :: established

record subject_part =
  part_kind :: owner_kind
  part_delimiter :: string

record subject_form =
  form_lead :: string
  form_scope :: owner_scope
  form_parts :: "subject_part list"

record char_range =
  range_first :: rune
  range_last :: rune

record tenancy =
  census_claims :: "tenancy_claim list"
  not_tenancy :: "claim_key list"
  subject_forms :: "subject_form list"
  never_pin :: "string list"
  owner_characters :: "char_range list"
  names_ignore_case :: bool

datatype membership = MembershipUnverified | Controlled | OpenToAnyone

record issuer_tenant =
  issuer_tenant_value :: string
  issuer_tenant_kind :: owner_kind
  issuer_tenant_recyclable :: established
  issuer_tenant_membership :: membership

record facts =
  facts_issuer_kind :: issuer_kind
  facts_namespace :: string
  facts_anonymous :: established
  facts_tenancy :: "tenancy option"
  facts_tenant :: issuer_tenant
  facts_issuerless :: aws_population
  facts_modelled :: bool

section \<open>Declarations\<close>

definition MaxDeclarationBytes :: nat where "MaxDeclarationBytes = 16 * 1024"
definition MaxDeclarationLines :: nat where "MaxDeclarationLines = 64"
definition MaxDeclarationLineBytes :: nat where "MaxDeclarationLineBytes = 512"

lemmas declaration_bounds = MaxDeclarationBytes_def MaxDeclarationLines_def MaxDeclarationLineBytes_def

record declared_owner =
  decl_namespace :: string
  decl_scope :: owner_scope
  decl_name :: string
  decl_id :: string
  decl_value :: string

datatype bound = DeclarationBytes | DeclarationLines | LineBytes

record overrun =
  overrun_bound :: bound
  overrun_line :: nat
  overrun_size :: nat

datatype refusal_reason =
    NoReason | NotUTF8 | NoNamespace | UnknownNamespace | ClaimsNotRead | NoOwner | ARepository
  | NotAGitHubOwner | NotAnAWSID | NotASAMLProvider | NotAnIssuerURL

record refusal =
  refusal_line :: nat
  refusal_text :: string
  refusal_reason :: refusal_reason

record declarations =
  declared_owners :: "declared_owner list"
  refused_lines :: "refusal list"
  declarations_overrun :: "overrun option"

primrec reason_number :: "refusal_reason \<Rightarrow> int" where
  "reason_number NoReason = 0" | "reason_number NotUTF8 = 1" | "reason_number NoNamespace = 2"
| "reason_number UnknownNamespace = 3" | "reason_number ClaimsNotRead = 4" | "reason_number NoOwner = 5"
| "reason_number ARepository = 6" | "reason_number NotAGitHubOwner = 7" | "reason_number NotAnAWSID = 8"
| "reason_number NotASAMLProvider = 9" | "reason_number NotAnIssuerURL = 10"

definition reasonNames :: "string list" where
  "reasonNames =
     [''none'', ''not-utf-8'', ''no-namespace'', ''unknown-namespace'', ''claims-not-read'', ''no-owner'', ''a-repository'',
      ''not-a-github-owner'', ''not-an-aws-id'', ''not-a-saml-provider'', ''not-an-issuer-url'']"

definition reason_string :: "refusal_reason \<Rightarrow> string" where
  "reason_string r = name_of reasonNames (reason_number r) ''reason''"

text \<open>Declaration.String.\<close>

definition declaration_string :: "declared_owner \<Rightarrow> string" where
  "declaration_string d =
     (if decl_namespace d \<noteq> NamespaceGitHub then decl_namespace d @ '':'' @ decl_value d
      else if decl_id d = [] then ''github:'' @ decl_name d
      else ''github:'' @ decl_name d @ ''@'' @ decl_id d)"

definition trim_blanks :: "string \<Rightarrow> string" where
  "trim_blanks s =
     rev (dropWhile (\<lambda>c. c = CHR '' '' \<or> c = CHR 0x09) (rev (dropWhile (\<lambda>c. c = CHR '' '' \<or> c = CHR 0x09) s)))"

text \<open>lowerASCII and equalFoldASCII.\<close>

definition ring_lower_ascii :: "string \<Rightarrow> string" where
  "ring_lower_ascii s = strings_map (\<lambda>r. Some (if 65 \<le> r \<and> r \<le> 90 then r + 97 - 65 else r)) s"

definition equal_fold_ascii :: "string \<Rightarrow> string \<Rightarrow> bool" where
  "equal_fold_ascii a b \<longleftrightarrow> ring_lower_ascii a = ring_lower_ascii b"

definition is_name :: "string \<Rightarrow> bool" where
  "is_name s \<longleftrightarrow> s \<noteq> [] \<and> \<not> contains_func (\<lambda>r. r \<le> 32 \<or> 126 < r \<or> r \<in> set (runes '':@/'')) s"

definition is_number :: "string \<Rightarrow> bool" where
  "is_number s \<longleftrightarrow> s \<noteq> [] \<and> \<not> contains_func (\<lambda>r. r < 48 \<or> 57 < r) s"

definition aws_scope :: "tenant \<Rightarrow> owner_scope option" where
  "aws_scope t =
     map_of [(AccountScope, ScopeAccount), (OrganisationScope, ScopeOrganisation)] (tenant_scope t)"

definition github_declaration :: "string \<Rightarrow> refusal_reason + declared_owner" where
  "github_declaration v =
     (if v = [] then Inl NoOwner
      else if CHR ''/'' \<in> set v then Inl ARepository
      else (case cut v ''@'' of (name, ident, with_id) \<Rightarrow>
        (let name_ok = is_name name \<or> with_id \<and> name = [];
             id_ok = \<not> with_id \<or> is_number ident in
         if \<not> name_ok \<or> \<not> id_ok then Inl NotAGitHubOwner
         else Inr \<lparr>decl_namespace = NamespaceGitHub, decl_scope = ScopeOwner, decl_name = name, decl_id = ident, decl_value = []\<rparr>)))"

fun aws_declaration_by :: "claim_key list \<Rightarrow> string \<Rightarrow> refusal_reason + declared_owner" where
  "aws_declaration_by [] v = Inl NotAnAWSID"
| "aws_declaration_by (claim # claims) v =
     (case tenant_of_value claim v of
        None \<Rightarrow> aws_declaration_by claims v
      | Some t \<Rightarrow>
        (case aws_scope t of
           None \<Rightarrow> aws_declaration_by claims v
         | Some s \<Rightarrow>
           if tenant_id t = v
           then Inr \<lparr>decl_namespace = NamespaceAWS, decl_scope = s, decl_name = [], decl_id = [], decl_value = v\<rparr>
           else aws_declaration_by claims v))"

definition aws_declaration :: "string \<Rightarrow> refusal_reason + declared_owner" where
  "aws_declaration v = aws_declaration_by tenancy_claims v"

definition issuer_declaration :: "fold_tables \<Rightarrow> string \<Rightarrow> refusal_reason + declared_owner" where
  "issuer_declaration T v =
     (if length v < length https \<or> ring_lower_ascii (take (length https) v) \<noteq> https \<or> contains_func is_space v
      then Inl NotAnIssuerURL
      else case provider_issuer T v of
        None \<Rightarrow> Inl NotAnIssuerURL
      | Some issuer \<Rightarrow>
        Inr \<lparr>decl_namespace = NamespaceIssuer, decl_scope = ScopeTenant, decl_name = [], decl_id = [], decl_value = issuer\<rparr>)"

definition read_declaration :: "fold_tables \<Rightarrow> string \<Rightarrow> refusal_reason + declared_owner" where
  "read_declaration T line =
     (if \<not> valid_string line then Inl NotUTF8
      else case cut line '':'' of (namespace, v, found) \<Rightarrow>
        if \<not> found then Inl NoNamespace
        else (let ns = ring_lower_ascii namespace in
          if ns = NamespaceGitHub then github_declaration v
          else if ns = NamespaceAWS then aws_declaration v
          else if ns = NamespaceSAML
          then (if \<not> is_saml_issuer v then Inl NotASAMLProvider
                else Inr \<lparr>decl_namespace = NamespaceSAML, decl_scope = ScopeProvider, decl_name = [], decl_id = [], decl_value = v\<rparr>)
          else if ns = NamespaceIssuer then issuer_declaration T v
          else if ns = ''gitlab'' \<or> ns = ''terraform'' \<or> ns = ''buildkite'' then Inl ClaimsNotRead
          else Inl UnknownNamespace))"

section \<open>A whole declaration\<close>

definition newline :: char where "newline = CHR 0x0A"

definition no_declarations :: declarations where
  "no_declarations = \<lparr>declared_owners = [], refused_lines = [], declarations_overrun = None\<rparr>"

definition overran :: "bound \<Rightarrow> nat \<Rightarrow> nat \<Rightarrow> declarations" where
  "overran b line n =
     no_declarations\<lparr>declarations_overrun := Some \<lparr>overrun_bound = b, overrun_line = line, overrun_size = n\<rparr>\<rparr>"

text \<open>The loop over the lines from the one of index i: Inl an overrun, Inr what was refused and what was declared, by its text.\<close>

fun read_lines :: "fold_tables \<Rightarrow> nat \<Rightarrow> string list \<Rightarrow> refusal list \<Rightarrow> (string \<times> declared_owner) list \<Rightarrow>
    declarations + refusal list \<times> (string \<times> declared_owner) list" where
  "read_lines T i [] refused by_text = Inr (refused, by_text)"
| "read_lines T i (raw # lines) refused by_text =
     (let raw = trim_suffix raw [CHR 0x0D] in
      if MaxDeclarationLineBytes < length raw then Inl (overran LineBytes (i + 1) (length raw))
      else (let line = trim_blanks raw in
        if line = [] then read_lines T (i + 1) lines refused by_text
        else case read_declaration T line of
          Inl r \<Rightarrow> read_lines T (i + 1) lines (refused @ [\<lparr>refusal_line = i + 1, refusal_text = raw, refusal_reason = r\<rparr>]) by_text
        | Inr d \<Rightarrow> read_lines T (i + 1) lines refused (AList.update (declaration_string d) d by_text)))"

definition declaration_lines :: "string \<Rightarrow> string list" where
  "declaration_lines text = (case split_byte newline (trim_suffix text [newline]) of (first, rest) \<Rightarrow> first # rest)"

definition read_declarations :: "fold_tables \<Rightarrow> string \<Rightarrow> declarations" where
  "read_declarations T src =
     (if MaxDeclarationBytes < length src then overran DeclarationBytes 0 (length src)
      else (let lines = declaration_lines src in
        if MaxDeclarationLines < length lines then overran DeclarationLines 0 (length lines)
        else case read_lines T 0 lines [] [] of
          Inl over \<Rightarrow> over
        | Inr (refused, by_text) \<Rightarrow>
          (let texts = sort_func go_compare (map fst by_text) in
           \<lparr>declared_owners = map (\<lambda>t. the (map_of by_text t)) texts, refused_lines = refused, declarations_overrun = None\<rparr>)))"

section \<open>What a declaration covers\<close>

definition declaration_covers :: "declared_owner \<Rightarrow> tenant_owner \<Rightarrow> bool \<Rightarrow> bool" where
  "declaration_covers d w ignore_case =
     (if owner_namespace w = [] \<or> decl_namespace d \<noteq> owner_namespace w \<or> decl_scope d \<noteq> owner_scope w then False
      else if decl_namespace d = NamespaceGitHub \<and> owner_kind w = KindName
      then decl_name d \<noteq> [] \<and> (decl_name d = owner_value w \<or> ignore_case \<and> equal_fold_ascii (decl_name d) (owner_value w))
      else if decl_namespace d = NamespaceGitHub then decl_id d \<noteq> [] \<and> decl_id d = owner_value w
      else if decl_namespace d = NamespaceIssuer
      then decl_value d = (case normalise_issuer (owner_issuer w) of Some i \<Rightarrow> i | None \<Rightarrow> [])
      else decl_value d = owner_value w)"

definition declaration_names :: "declared_owner \<Rightarrow> tenant_owner \<Rightarrow> facts \<Rightarrow> bool" where
  "declaration_names d w f =
     declaration_covers d w (case facts_tenancy f of Some t \<Rightarrow> names_ignore_case t | None \<Rightarrow> False)"

definition spelled_like :: "declared_owner \<Rightarrow> tenant_owner \<Rightarrow> bool" where
  "spelled_like d w =
     (let written = declaration_string d; pinned = owner_declaration w in
      pinned \<noteq> [] \<and> pinned \<noteq> written \<and> ring_lower_ascii pinned = ring_lower_ascii written)"

end
