(* ===== verification/Ring_Classify.thy ===== *)
theory Ring_Classify imports Ring_Declare begin

text \<open>
  Package ring, classify.go: where a grant lands. A nil slice and an empty one are the empty list,
  which is the only difference the code draws between them where it draws one; the functions that
  read a value or a prefix are arguments, None for the nil of a claim whose patterns are not read;
  the record classifier is the struct, with the fold tables beside it.
\<close>

section \<open>Confinements\<close>

record confinement =
  conf_owners :: "tenant_owner list"
  conf_unread :: bool
  conf_doubt :: basis
  conf_starts :: "string list"
  conf_bounded :: bool

definition no_confinement :: confinement where
  "no_confinement = \<lparr>conf_owners = [], conf_unread = False, conf_doubt = IssuerNotSurveyed, conf_starts = [], conf_bounded = False\<rparr>"

definition unread_for :: "basis \<Rightarrow> confinement" where
  "unread_for b = no_confinement\<lparr>conf_unread := True, conf_doubt := b\<rparr>"

definition confined_to :: "tenant_owner list \<Rightarrow> confinement" where
  "confined_to ws = no_confinement\<lparr>conf_owners := ws\<rparr>"

definition exactly :: "(string \<Rightarrow> tenant_owner list) \<Rightarrow> string \<Rightarrow> confinement" where
  "exactly val v = confined_to (val v)"

record reading =
  reading_pins :: "tenant_owner list list"
  reading_unread :: bool
  reading_doubt :: basis
  reading_starts :: "string list"
  reading_bounded :: bool

definition no_reading :: reading where
  "no_reading = \<lparr>reading_pins = [], reading_unread = False, reading_doubt = IssuerNotSurveyed, reading_starts = [], reading_bounded = False\<rparr>"

definition add_reading :: "confinement \<Rightarrow> reading \<Rightarrow> reading" where
  "add_reading c r =
     (let r = r\<lparr>reading_bounded := reading_bounded r \<or> conf_bounded c\<rparr> in
      if conf_owners c \<noteq> [] then r\<lparr>reading_pins := reading_pins r @ [conf_owners c]\<rparr>
      else if conf_unread c \<and> (\<not> reading_unread r \<or> conf_doubt c = TenancyNotRecorded)
      then r\<lparr>reading_unread := True, reading_doubt := conf_doubt c\<rparr>
      else if conf_starts c \<noteq> [] then r\<lparr>reading_starts := conf_starts c\<rparr>
      else r)"

text \<open>confineShape: the loops over the members of a union and of an intersection.\<close>

fun union_confinement :: "confinement list \<Rightarrow> confinement \<Rightarrow> confinement option \<Rightarrow> confinement" where
  "union_confinement [] read bound = (case bound of Some b \<Rightarrow> b | None \<Rightarrow> read)"
| "union_confinement (m # ms) read bound =
     (if conf_owners m = [] \<and> \<not> conf_bounded m then m
      else union_confinement ms
        (read\<lparr>conf_owners := conf_owners read @ conf_owners m, conf_bounded := conf_bounded read \<or> conf_bounded m\<rparr>)
        (if conf_owners m = [] \<and> bound = None then Some m else bound))"

fun intersection_confinement :: "confinement list \<Rightarrow> tenant_owner list \<Rightarrow> confinement \<Rightarrow> confinement" where
  "intersection_confinement [] owners unread = (if owners = [] then unread else confined_to owners)"
| "intersection_confinement (m # ms) owners unread =
     intersection_confinement ms (owners @ conf_owners m) (if conf_unread m then m else unread)"

fun confine_shape :: "shape \<Rightarrow> (string \<Rightarrow> confinement) \<Rightarrow> (string \<Rightarrow> tenant_owner list) option \<Rightarrow> confinement" where
  "confine_shape (Shape k text ms) val pre =
     (case k of
        ShapeExact \<Rightarrow> val text
      | ShapeGlob \<Rightarrow>
        (case pre of None \<Rightarrow> unread_for UnreadConstraint | Some p \<Rightarrow> confined_to (p (literal_prefix text)))
      | ShapeUnion \<Rightarrow> union_confinement (map (\<lambda>m. confine_shape m val pre) ms) no_confinement None
      | ShapeIntersection \<Rightarrow> intersection_confinement (map (\<lambda>m. confine_shape m val pre) ms) [] no_confinement
      | ShapeUnknown \<Rightarrow> unread_for UnreadConstraint
      | _ \<Rightarrow> no_confinement)"

section \<open>Reading a subject\<close>

definition allows :: "tenancy \<Rightarrow> rune \<Rightarrow> bool" where
  "allows t r = list_ex (\<lambda>cr. range_first cr \<le> r \<and> r \<le> range_last cr) (owner_characters t)"

function owner_run :: "tenancy \<Rightarrow> string \<Rightarrow> string" where
  "owner_run t s =
     (if s = [] then []
      else (let (r, n) = decode_rune s in if \<not> allows t r then [] else take n s @ owner_run t (drop n s)))"
  by pat_completeness auto
termination
proof (relation "measure (length \<circ> snd)")
  fix t :: tenancy and s :: string and x r n
  assume "s \<noteq> []" "x = decode_rune s" "(r, n) = x"
  then have "1 \<le> n" using decode_width [of s r n] by simp
  then show "((t, drop n s), t, s) \<in> measure (length \<circ> snd)" using \<open>s \<noteq> []\<close> by simp
qed simp

declare owner_run.simps [simp del]

definition names_no_tenant :: "tenancy \<Rightarrow> claim_key \<Rightarrow> bool" where
  "names_no_tenant t claim =
     list_ex (\<lambda>listed. case cut_suffix listed ''*'' of (pre, every) \<Rightarrow> listed = claim \<or> every \<and> has_prefix claim pre) (not_tenancy t)"

definition readable_form :: "tenancy \<Rightarrow> subject_form \<Rightarrow> bool" where
  "readable_form t f \<longleftrightarrow> form_scope f \<noteq> ScopeNone \<and>
     list_all (\<lambda>p. case decode_rune (part_delimiter p) of (r, n) \<Rightarrow>
       \<not> (part_delimiter p = [] \<or> n \<noteq> length (part_delimiter p) \<or> allows t r)) (form_parts f)"

definition leads :: "string \<Rightarrow> string \<Rightarrow> bool \<Rightarrow> bool" where
  "leads text lead complete \<longleftrightarrow> has_prefix text lead \<or> \<not> complete \<and> has_prefix lead text"

definition part_recyclable :: "tenancy \<Rightarrow> owner_scope \<Rightarrow> owner_kind \<Rightarrow> bool" where
  "part_recyclable t s k =
     (let these = filter (\<lambda>c. claim_scope c = s \<and> claim_kind c = k) (census_claims t) in
      length these \<noteq> 1 \<or> claim_recyclable (these ! 0) \<noteq> No)"

record classifier =
  classifier_grant :: grant
  classifier_facts :: facts
  classifier_declared :: "declared_owner list"
  classifier_tables :: fold_tables

definition part_owner :: "classifier \<Rightarrow> tenancy \<Rightarrow> subject_form \<Rightarrow> owner_kind \<Rightarrow> string \<Rightarrow> string \<Rightarrow> tenant_owner" where
  "part_owner c t f k run name =
     \<lparr>owner_issuer = grant_issuer (classifier_grant c), owner_namespace = facts_namespace (classifier_facts c), owner_scope = form_scope f,
      owner_kind = k, owner_value = run, owner_name = (if k = KindID then name else []),
      owner_recyclable = part_recyclable t (form_scope f) k, owner_declared = False\<rparr>"

text \<open>The loop of readForm over the parts of a form: the owner, the open run, whether it fits.\<close>

fun read_parts :: "classifier \<Rightarrow> tenancy \<Rightarrow> subject_form \<Rightarrow> bool \<Rightarrow> subject_part list \<Rightarrow> string \<Rightarrow> string \<Rightarrow> tenant_owner option \<Rightarrow>
    tenant_owner option \<times> string \<times> bool" where
  "read_parts c t f complete [] rest name owner = (owner, [], True)"
| "read_parts c t f complete (p # ps) rest name owner =
     (let run = owner_run t rest; after = drop (length run) rest in
      if after = [] \<and> \<not> complete \<and> owner = None then (None, run, True)
      else if after = [] \<and> \<not> complete then (owner, [], True)
      else if after \<noteq> [] \<and> \<not> has_prefix after (part_delimiter p) then (None, [], False)
      else if run = [] then (owner, [], True)
      else (let w = part_owner c t f (part_kind p) run name in
        if after = [] then (Some w, [], True)
        else read_parts c t f complete ps (drop (length (part_delimiter p)) after) (if part_kind p = KindID then name else run) (Some w)))"

definition read_form :: "classifier \<Rightarrow> tenancy \<Rightarrow> subject_form \<Rightarrow> string \<Rightarrow> bool \<Rightarrow> tenant_owner option \<times> string \<times> bool" where
  "read_form c t f text complete =
     (if \<not> leads text (form_lead f) complete then (None, [], False)
      else if length text < length (form_lead f) \<or> \<not> readable_form t f then (None, [], True)
      else read_parts c t f complete (form_parts f) (drop (length (form_lead f)) text) [] None)"

definition some_form_reads :: "classifier \<Rightarrow> tenancy \<Rightarrow> string \<Rightarrow> bool" where
  "some_form_reads c t v = list_ex (\<lambda>f. snd (snd (read_form c t f v True))) (subject_forms t)"

text \<open>The loop of subjectOwners over the forms, None for its early nil.\<close>

fun form_owners :: "classifier \<Rightarrow> tenancy \<Rightarrow> string \<Rightarrow> bool \<Rightarrow> subject_form list \<Rightarrow> tenant_owner list option" where
  "form_owners c t text complete [] = Some []"
| "form_owners c t text complete (f # fs) =
     (case read_form c t f text complete of (owner, _, fits) \<Rightarrow>
        if \<not> fits then form_owners c t text complete fs
        else case owner of None \<Rightarrow> None | Some w \<Rightarrow> map_option (\<lambda>ws. w # ws) (form_owners c t text complete fs))"

definition subject_owners :: "classifier \<Rightarrow> tenancy \<Rightarrow> string \<Rightarrow> bool \<Rightarrow> tenant_owner list" where
  "subject_owners c t text complete =
     (if list_ex (\<lambda>lead. leads text lead complete) (never_pin t) then []
      else case form_owners c t text complete (subject_forms t) of None \<Rightarrow> [] | Some ws \<Rightarrow> ws)"

text \<open>The loop of writtenStart over the forms.\<close>

fun form_starts :: "classifier \<Rightarrow> tenancy \<Rightarrow> string \<Rightarrow> subject_form list \<Rightarrow> string \<Rightarrow> string" where
  "form_starts c t text [] start = start"
| "form_starts c t text (f # fs) start =
     (case read_form c t f text False of (owner, opened, fits) \<Rightarrow>
        if \<not> fits then form_starts c t text fs start
        else if owner \<noteq> None \<or> opened = [] \<or> start \<noteq> [] \<and> opened \<noteq> start then []
        else form_starts c t text fs opened)"

definition written_start :: "classifier \<Rightarrow> tenancy \<Rightarrow> string \<Rightarrow> string" where
  "written_start c t text =
     (if list_ex (\<lambda>lead. leads text lead False) (never_pin t) then [] else form_starts c t text (subject_forms t) [])"

fun keep_shortest :: "string list \<Rightarrow> string list \<Rightarrow> string list" where
  "keep_shortest [] out = out"
| "keep_shortest (s # ss) out =
     keep_shortest ss (if length out = 0 \<or> \<not> has_prefix s (last out) then out @ [s] else out)"

definition shortest :: "string list \<Rightarrow> string list" where
  "shortest starts = keep_shortest (sort_func go_compare starts) []"

definition longer_of :: "string list \<Rightarrow> string list \<Rightarrow> string list" where
  "longer_of a b =
     concat (map (\<lambda>x. concat (map (\<lambda>y. if has_prefix y x then [y] else if has_prefix x y then [x] else []) b)) a)"

text \<open>The loops of ownerStarts: over the members of a union that pin no owner, and of an intersection.\<close>

fun union_starts :: "(bool \<times> string list) list \<Rightarrow> string list \<Rightarrow> string list" where
  "union_starts [] starts = shortest starts"
| "union_starts ((pins, ms) # rest) starts =
     (if pins then union_starts rest starts else if ms = [] then [] else union_starts rest (starts @ ms))"

fun intersection_starts :: "string list list \<Rightarrow> string list \<Rightarrow> string list" where
  "intersection_starts [] starts = shortest starts"
| "intersection_starts (ms # rest) starts =
     (if ms = [] then intersection_starts rest starts
      else (let starts = (if starts = [] then ms else longer_of starts ms) in
        if length starts = 0 then [] else intersection_starts rest starts))"

fun shape_starts :: "classifier \<Rightarrow> tenancy \<Rightarrow> shape \<Rightarrow> (string \<Rightarrow> confinement) \<Rightarrow> (string \<Rightarrow> tenant_owner list) option \<Rightarrow> string list" where
  "shape_starts c t (Shape k text ms) val pre =
     (case k of
        ShapeGlob \<Rightarrow> (let start = written_start c t (literal_prefix text) in if start \<noteq> [] then [start] else [])
      | ShapeUnion \<Rightarrow>
        union_starts (map (\<lambda>m. (conf_owners (confine_shape m val pre) \<noteq> [], shape_starts c t m val pre)) ms) []
      | ShapeIntersection \<Rightarrow> intersection_starts (map (\<lambda>m. shape_starts c t m val pre) ms) []
      | _ \<Rightarrow> [])"

section \<open>One claim\<close>

definition covered :: "classifier \<Rightarrow> tenant_owner \<Rightarrow> bool" where
  "covered c w = list_ex (\<lambda>d. declaration_names d w (classifier_facts c)) (classifier_declared c)"

definition widened_on :: "classifier \<Rightarrow> claim_key \<Rightarrow> bool" where
  "widened_on c claim =
     list_ex (\<lambda>cv. caveat_claim cv = [] \<or>
         may_name (classifier_tables c) (caveat_claim cv) (grant_issuer (classifier_grant c)) claim)
       (admitted_caveats (grant_admits (classifier_grant c)))"

definition confine :: "classifier \<Rightarrow> claim_term \<Rightarrow> claim_key \<Rightarrow> (string \<Rightarrow> confinement) \<Rightarrow> (string \<Rightarrow> tenant_owner list) option \<Rightarrow> confinement" where
  "confine c trm claim val pre =
     (let read = (case map_of trm claim of Some s \<Rightarrow> confine_shape (shape_of s) val pre | None \<Rightarrow> no_confinement) in
      if conf_owners read = [] \<and> \<not> conf_unread read \<and> widened_on c claim then unread_for UnreadConstraint else read)"

definition no_owner :: "string \<Rightarrow> tenant_owner list" where
  "no_owner p = []"

definition pattern_on :: "tenancy_claim \<Rightarrow> (string \<Rightarrow> tenant_owner list) option" where
  "pattern_on claim = (if claim_scope claim = ScopeRepository \<and> claim_kind claim = KindName then None else Some no_owner)"

definition claim_owner :: "classifier \<Rightarrow> tenancy \<Rightarrow> tenancy_claim \<Rightarrow> string \<Rightarrow> tenant_owner list" where
  "claim_owner c t claim v =
     (if v = [] \<or> claim_scope claim = ScopeOwner \<and> 0 < length (owner_characters t) \<and> owner_run t v \<noteq> v then []
      else [\<lparr>owner_issuer = grant_issuer (classifier_grant c), owner_namespace = facts_namespace (classifier_facts c),
             owner_scope = claim_scope claim, owner_kind = claim_kind claim, owner_value = v, owner_name = [],
             owner_recyclable = (claim_recyclable claim \<noteq> No), owner_declared = False\<rparr>])"

definition aws_owner :: "classifier \<Rightarrow> tenant option \<Rightarrow> tenant_owner list" where
  "aws_owner c got =
     (case got of
        None \<Rightarrow> []
      | Some t \<Rightarrow>
        (case aws_scope t of
           None \<Rightarrow> []
         | Some s \<Rightarrow>
           [\<lparr>owner_issuer = grant_issuer (classifier_grant c), owner_namespace = NamespaceAWS, owner_scope = s, owner_kind = KindID,
             owner_value = tenant_id t, owner_name = [], owner_recyclable = False, owner_declared = False\<rparr>]))"

definition subject_claim_key :: claim_key where "subject_claim_key = ''sub''"

text \<open>subject, with the closure that reads one exact value.\<close>

definition subject_value :: "classifier \<Rightarrow> tenancy \<Rightarrow> string \<Rightarrow> confinement" where
  "subject_value c t v =
     (if \<not> contains_any v ''*?'' then confined_to (subject_owners c t v True)
      else if some_form_reads c t v then (confined_to (subject_owners c t v True))\<lparr>conf_bounded := True\<rparr>
      else (confined_to (subject_owners c t (literal_prefix v) False))\<lparr>conf_bounded := True\<rparr>)"

definition read_subject :: "classifier \<Rightarrow> claim_term \<Rightarrow> tenancy \<Rightarrow> confinement" where
  "read_subject c trm t =
     (if map_of trm subject_claim_key \<noteq> None \<and> length (owner_characters t) = 0 then unread_for TenancyNotRecorded
      else (let pre = Some (\<lambda>p. subject_owners c t p False); read = confine c trm subject_claim_key (subject_value c t) pre in
        case map_of trm subject_claim_key of
          None \<Rightarrow> read
        | Some s \<Rightarrow>
          if conf_owners read = [] \<and> \<not> conf_unread read
          then read\<lparr>conf_starts := shape_starts c t (shape_of s) (subject_value c t) pre\<rparr> else read))"

section \<open>One alternative\<close>

definition at_place :: "ring_place \<Rightarrow> place_state \<Rightarrow> basis \<Rightarrow> population" where
  "at_place p s b =
     \<lparr>population_term = 0, population_place = p, population_state = s, population_basis = b, population_owners = [],
      owner_starts = [], population_bounded = False\<rparr>"

definition bounded_in :: "reading \<Rightarrow> population \<Rightarrow> population" where
  "bounded_in r pop = (if reading_bounded r then pop\<lparr>population_state := StateUnknown, population_bounded := True\<rparr> else pop)"

definition request_unread :: "classifier \<Rightarrow> bool" where
  "request_unread c =
     list_ex (\<lambda>cv. is_service_key (caveat_claim cv) \<and> \<not> (caveat_claim cv = ExternalIDClaim \<and> asks_no_particular_value cv))
       (admitted_caveats (grant_admits (classifier_grant c)))"

definition mark_declared :: "classifier \<Rightarrow> tenant_owner \<Rightarrow> tenant_owner" where
  "mark_declared c w = w\<lparr>owner_declared := covered c w\<rparr>"

definition pinned :: "classifier \<Rightarrow> tenant_owner list list \<Rightarrow> basis \<Rightarrow> population" where
  "pinned c pins b =
     (let marked = map (map (mark_declared c)) pins in
      (at_place (if list_ex (list_all owner_declared) marked then Yours else Outsider) StateExact b)
        \<lparr>population_owners := distinct_owners (concat marked)\<rparr>)"

definition decide :: "classifier \<Rightarrow> reading \<Rightarrow> population" where
  "decide c r =
     (if 0 < length (reading_pins r) then bounded_in r (pinned c (reading_pins r) Pinned)
      else if reading_unread r then at_place Platform StateUnknown (reading_doubt r)
      else if request_unread c then at_place Platform StateUnknown UnreadConstraint
      else bounded_in r ((at_place Platform StateExact Unpinned)\<lparr>owner_starts := reading_starts r\<rparr>))"

definition service_population :: "string \<Rightarrow> population" where
  "service_population issuer =
     at_place Service StateUnknown
       (if intermediary_of (trim_prefix issuer ServiceIssuerPrefix) \<noteq> None then ServiceIntermediary else ServicePrincipal)"

definition issuerless_places :: "aws_population \<Rightarrow> population list" where
  "issuerless_places p =
     (case p of
        AWSServices \<Rightarrow> [at_place Service StateUnknown AnyService]
      | AccountSAMLProviders \<Rightarrow> [at_place SAML StateUnknown AccountSAML]
      | AWSServicesAndAccountSAMLProviders \<Rightarrow> [at_place SAML StateUnknown AccountSAML, at_place Service StateUnknown AnyService]
      | EveryIssuer \<Rightarrow> [at_place Anyone StateUnknown AnyIssuer])"

definition saml_provider :: "classifier \<Rightarrow> population" where
  "saml_provider c =
     (let issuer = grant_issuer (classifier_grant c);
          w = \<lparr>owner_issuer = issuer, owner_namespace = NamespaceSAML, owner_scope = ScopeProvider, owner_kind = KindName, owner_value = issuer,
               owner_name = [], owner_recyclable = True, owner_declared = False\<rparr> in
      if covered c w then (at_place People StateUnknown SAMLProvider)\<lparr>population_owners := [w\<lparr>owner_declared := True\<rparr>]\<rparr>
      else (at_place SAML StateUnknown SAMLProvider)\<lparr>population_owners := [w]\<rparr>)"

definition tenant_population :: "classifier \<Rightarrow> population" where
  "tenant_population c =
     (let t = facts_tenant (classifier_facts c) in
      if issuer_tenant_membership t = OpenToAnyone then at_place Platform StateExact OpenTenant
      else if issuer_tenant_membership t \<noteq> Controlled \<or> issuer_tenant_value t = [] then at_place Platform StateUnknown MembershipNotVerified
      else pinned c
        [[\<lparr>owner_issuer = grant_issuer (classifier_grant c), owner_namespace = NamespaceIssuer, owner_scope = ScopeTenant,
           owner_kind = issuer_tenant_kind t, owner_value = issuer_tenant_value t, owner_name = [],
           owner_recyclable = (issuer_tenant_recyclable t \<noteq> No), owner_declared = False\<rparr>]]
        ControlledTenant)"

definition claim_reading :: "classifier \<Rightarrow> claim_term \<Rightarrow> tenancy \<Rightarrow> reading" where
  "claim_reading c trm t =
     fold (\<lambda>claim r.
         if claim_scope claim = ScopeNone \<or> names_no_tenant t (tenancy_claim_key claim) then r
         else add_reading (confine c trm (tenancy_claim_key claim) (exactly (claim_owner c t claim)) (pattern_on claim)) r)
       (census_claims t) no_reading"

definition shared_population :: "classifier \<Rightarrow> claim_term \<Rightarrow> population" where
  "shared_population c trm =
     (case facts_tenancy (classifier_facts c) of
        None \<Rightarrow> at_place Platform StateUnknown TenancyNotRecorded
      | Some t \<Rightarrow> decide c (add_reading (read_subject c trm t) (claim_reading c trm t)))"

definition aws_population_of :: "classifier \<Rightarrow> claim_term \<Rightarrow> population" where
  "aws_population_of c trm =
     decide c (fold (\<lambda>claim. add_reading (confine c trm claim
         (exactly (\<lambda>v. aws_owner c (tenant_of_value claim v))) (Some (\<lambda>p. aws_owner c (tenant_of_prefix claim p)))))
       tenancy_claims no_reading)"

definition oidc_population :: "classifier \<Rightarrow> claim_term \<Rightarrow> population" where
  "oidc_population c trm =
     (let f = classifier_facts c in
      if facts_issuer_kind f \<noteq> Shared \<and> facts_issuer_kind f \<noteq> PerTenant then at_place Anyone StateUnknown IssuerNotSurveyed
      else if facts_anonymous f = Yes then at_place Anyone StateUnknown TokensWithoutAccount
      else if facts_anonymous f \<noteq> No then at_place Anyone StateUnknown AccountNotVerified
      else if facts_issuer_kind f = PerTenant then tenant_population c
      else shared_population c trm)"

definition place_term :: "classifier \<Rightarrow> claim_term \<Rightarrow> population list" where
  "place_term c trm =
     (let issuer = grant_issuer (classifier_grant c); f = classifier_facts c in
      if \<not> facts_modelled f then [at_place Anyone StateUnknown PrincipalNotModelled]
      else if issuer = [] then issuerless_places (facts_issuerless f)
      else if is_saml_issuer issuer then [saml_provider c]
      else if has_prefix issuer ServiceIssuerPrefix then [service_population issuer]
      else if issuer = AWSPrincipalIssuer then [aws_population_of c trm]
      else [oidc_population c trm])"

section \<open>A grant\<close>

text \<open>outermost: the ring loop with its -1 for none, the two lines, the state, the owners.\<close>

definition outer_ring :: "population list \<Rightarrow> int" where
  "outer_ring ps =
     fold (\<lambda>pop ring. if is_ring (population_place pop) \<and> (ring < 0 \<or> place_number (population_place pop) < ring)
         then place_number (population_place pop) else ring) ps (- 1)"

definition place_of_number :: "int \<Rightarrow> ring_place" where
  "place_of_number i =
     (if i = 0 then Anyone else if i = 1 then Platform else if i = 2 then Outsider else if i = 3 then Yours
      else if i = 4 then People else if i = 5 then SAML else Service)"

definition named_places :: "population list \<Rightarrow> ring_place list" where
  "named_places ps =
     (let ring = outer_ring ps in (if 0 \<le> ring then [place_of_number ring] else []) @
        filter (\<lambda>line. list_ex (\<lambda>pop. population_place pop = line) ps) [SAML, Service])"

definition outermost :: "population list \<Rightarrow> placement" where
  "outermost ps =
     (let named = named_places ps in
      \<lparr>placement_outcome = Placed, placement_places = named,
       placement_state = (if list_ex (\<lambda>pl. \<not> list_ex (\<lambda>pop. population_place pop = pl \<and> population_state pop = StateExact) ps) named
         then StateUnknown else StateExact),
       placement_owners = distinct_owners (concat (map population_owners (filter (\<lambda>pop. population_place pop \<in> set named) ps))),
       placement_populations = ps\<rparr>)"

text \<open>The two loops of Classify.\<close>

definition in_term :: "grant \<Rightarrow> nat \<Rightarrow> population \<Rightarrow> population" where
  "in_term g i pop =
     (let pop = pop\<lparr>population_term := i\<rparr> in if grant_effect g = EffectUnknown then pop\<lparr>population_state := StateUnknown\<rparr> else pop)"

definition populations_of :: "classifier \<Rightarrow> population list" where
  "populations_of c =
     concat (map (\<lambda>(i, trm). map (in_term (classifier_grant c) i) (place_term c trm))
       (enumerate 0 (admitted_terms (grant_admits (classifier_grant c)))))"

definition not_placed :: "ring_outcome \<Rightarrow> placement" where
  "not_placed x = \<lparr>placement_outcome = x, placement_places = [], placement_state = StateUnknown, placement_owners = [], placement_populations = []\<rparr>"

definition classify :: "fold_tables \<Rightarrow> grant \<Rightarrow> facts \<Rightarrow> declared_owner list \<Rightarrow> placement" where
  "classify T g f ds =
     (if grant_effect g = Deny then not_placed Refused
      else if set_is_empty (grant_admits g) then not_placed Nobody
      else outermost (populations_of
        \<lparr>classifier_grant = g, classifier_facts = f, classifier_declared = ds, classifier_tables = T\<rparr>))"

end
