(* ===== verification/Registry.thy ===== *)
theory Registry imports Ring_Classify begin

text \<open>
  Package registry: what the engine reads of the census of issuers. The census itself is another
  module, its Issuer type in two forms (the whole one and the one of its tenancy package), so what
  the code reads of an entry, a field or the answer of a method, is a field of a record here, and
  the lookups of that module are the fields of the record census, an argument of every definition.
  A method that answers a value and whether it is known is a pair. Go's nil slice, which means not
  surveyed, is None.
\<close>

section \<open>What is read of the census\<close>

record census_issuer =
  entry_issuer :: string
  entry_pattern :: string
  entry_host :: string
  entry_name :: string
  entry_vendor :: string
  entry_tenancy_model :: string
  entry_claims :: "string list option"
  entry_immutable :: "string list option"
  entry_controlled_by :: string
  entry_boundary :: "bool \<times> bool"
  entry_recyclable :: bool

record census_claim =
  listed_claim :: string
  listed_scope :: string
  listed_kind :: string
  listed_recyclable :: "bool \<times> bool"

record census_part =
  written_kind :: string
  delimiter_after :: string

record census_form =
  leading_literal :: string
  owner_parts :: "census_part list"
  repository_parts :: "census_part list"

record condition_key =
  read_claim :: string
  fallback_claim :: string
  table_claim :: string
  key_multivalued :: "bool \<times> bool"

record tenancy_issuer =
  census_name :: string
  census_platform :: string
  anonymous_tokens :: "bool \<times> bool"
  tenant_placeholder :: string
  tenant_kind_word :: string
  tenant_recyclable :: "bool \<times> bool"
  controlled_tenant :: "string \<Rightarrow> bool \<times> bool"
  declaration_prefix :: string
  listed_claims :: "census_claim list"
  listed_forms :: "census_form list"
  listed_not_tenancy :: "string list"
  listed_never_pin :: "string list"
  listed_characters :: "string list"
  without_case :: "bool \<times> bool"
  maps_condition_key :: "string \<Rightarrow> bool \<times> bool"
  aws_condition_key :: "string \<Rightarrow> condition_key option"
  claim_multi_valued :: "string \<Rightarrow> bool \<times> bool"

text \<open>issuers.Get, All, MultiTenantHosts and CensusDate, and tenancy.Match.\<close>

record census =
  census_get :: "string \<Rightarrow> census_issuer option"
  census_all :: "census_issuer list"
  census_hosts :: "string list"
  census_date :: string
  census_match :: "string \<Rightarrow> (tenancy_issuer \<times> string) option"

section \<open>Asking the census\<close>

text \<open>censusKey, None for Go's false; utf8.RuneSelf is 128.\<close>

definition census_key :: "string \<Rightarrow> string option" where
  "census_key ref = (if list_ex (\<lambda>c. 128 \<le> byte c) ref then None else normalise_issuer ref)"

definition census_of :: "census \<Rightarrow> string \<Rightarrow> census_issuer option" where
  "census_of C ref =
     (case census_key ref of
        None \<Rightarrow> None
      | Some key \<Rightarrow>
        (case census_get C key of
           None \<Rightarrow> None
         | Some e \<Rightarrow> if has_prefix (entry_issuer e) https \<or> has_prefix (entry_pattern e) https then Some e else None))"

definition exact_issuer :: "census_issuer \<Rightarrow> string option" where
  "exact_issuer e =
     (if \<not> has_prefix (entry_issuer e) https \<or> list_ex (\<lambda>c. c \<in> set ''<> '') (entry_issuer e) then None
      else normalise_issuer (entry_issuer e))"

text \<open>Entry, and entryOf; claimKeys is the list itself.\<close>

record surveyed_entry =
  surveyed_issuer :: string
  surveyed_host :: string
  surveyed_name :: string
  surveyed_vendor :: string
  surveyed_tenancy :: string
  surveyed_claims :: "claim_key list option"
  surveyed_immutable :: "claim_key list option"
  surveyed_controlled_by :: string

definition entry_of :: "census_issuer \<Rightarrow> surveyed_entry" where
  "entry_of e = \<lparr>surveyed_issuer = (case exact_issuer e of Some ref \<Rightarrow> ref | None \<Rightarrow> []),
     surveyed_host = entry_host e, surveyed_name = entry_name e, surveyed_vendor = entry_vendor e,
     surveyed_tenancy = entry_tenancy_model e, surveyed_claims = entry_claims e, surveyed_immutable = entry_immutable e,
     surveyed_controlled_by = entry_controlled_by e\<rparr>"

definition lookup_issuer :: "census \<Rightarrow> string \<Rightarrow> surveyed_entry option" where
  "lookup_issuer C ref = map_option entry_of (census_of C ref)"

definition audience_is_boundary :: "census \<Rightarrow> string \<Rightarrow> bool \<times> bool" where
  "audience_is_boundary C ref = (case census_of C ref of None \<Rightarrow> (False, False) | Some e \<Rightarrow> entry_boundary e)"

definition subjects_are_recyclable :: "census \<Rightarrow> string \<Rightarrow> bool \<times> bool" where
  "subjects_are_recyclable C ref =
     (case census_of C ref of
        None \<Rightarrow> (True, False)
      | Some e \<Rightarrow> if entry_immutable e = None then (True, False) else (entry_recyclable e, True))"

definition known_issuers :: "census \<Rightarrow> string list" where
  "known_issuers C = compact_func (=) (sort_func go_compare (List.map_filter exact_issuer (census_all C)))"

definition multi_tenant_hosts :: "census \<Rightarrow> string list" where
  "multi_tenant_hosts C = compact_func (=) (sort_func go_compare (census_hosts C))"

section \<open>Facts of an issuer\<close>

text \<open>established, membership, tenantKind, scope and partKind, which reads an unknown kind as a name.\<close>

fun census_established :: "bool \<times> bool \<Rightarrow> established" where
  "census_established (holds, known) = (if \<not> known then Unverified else if holds then Yes else No)"

fun membership_of :: "bool \<times> bool \<Rightarrow> membership" where
  "membership_of (controlled, known) = (if \<not> known then MembershipUnverified else if controlled then Controlled else OpenToAnyone)"

definition tenant_kind :: "string \<Rightarrow> owner_kind" where
  "tenant_kind kind = (if kind = ''id'' then KindID else KindName)"

definition scope_of :: "string \<Rightarrow> owner_scope" where
  "scope_of s = (if s = ''owner'' then ScopeOwner else if s = ''repository'' then ScopeRepository
     else if s = ''enterprise'' then ScopeEnterprise else ScopeNone)"

definition part_kind_of :: "string \<Rightarrow> owner_kind \<times> bool" where
  "part_kind_of s = (if s = ''name'' then (KindName, True) else if s = ''id'' then (KindID, True) else (KindName, False))"

definition namespace_of :: "string \<Rightarrow> string" where
  "namespace_of written = (if written = NamespaceGitHub then NamespaceGitHub else [])"

text \<open>characters: one entry it cannot read leaves the whole set unread, Go's nil.\<close>

definition char_range_of :: "string \<Rightarrow> char_range option" where
  "char_range_of c =
     (if length c = 1 then Some \<lparr>range_first = byte (c ! 0), range_last = byte (c ! 0)\<rparr>
      else if length c = 3 \<and> c ! 1 = CHR ''-'' \<and> byte (c ! 0) < byte (c ! 2)
      then Some \<lparr>range_first = byte (c ! 0), range_last = byte (c ! 2)\<rparr>
      else None)"

fun characters_from :: "string list \<Rightarrow> char_range list \<Rightarrow> char_range list" where
  "characters_from [] out = out"
| "characters_from (c # cs) out = (case char_range_of c of Some r \<Rightarrow> characters_from cs (out @ [r]) | None \<Rightarrow> [])"

definition characters :: "string list \<Rightarrow> char_range list" where
  "characters cs = characters_from cs []"

definition reads_its_own_claim :: "tenancy_issuer \<Rightarrow> string \<Rightarrow> bool" where
  "reads_its_own_claim e claim =
     (case aws_condition_key e claim of
        None \<Rightarrow> True
      | Some r \<Rightarrow> read_claim r = claim \<and> fallback_claim r = [])"

definition subject_form_of :: "census_form \<Rightarrow> subject_form" where
  "subject_form_of f =
     (let (sc, parts) = (if length (owner_parts f) = 0 then (ScopeRepository, repository_parts f) else (ScopeOwner, owner_parts f));
          sc = (if length parts = 0 then ScopeNone else sc);
          sc = (if list_ex (\<lambda>p. \<not> snd (part_kind_of (written_kind p))) parts then ScopeNone else sc) in
      \<lparr>form_lead = leading_literal f, form_scope = sc,
       form_parts = map (\<lambda>p. \<lparr>part_kind = fst (part_kind_of (written_kind p)), part_delimiter = delimiter_after p\<rparr>) parts\<rparr>)"

definition tenancy_claim_of :: "tenancy_issuer \<Rightarrow> census_claim \<Rightarrow> tenancy_claim" where
  "tenancy_claim_of e c =
     (let (kind, known) = part_kind_of (listed_kind c) in
      \<lparr>tenancy_claim_key = listed_claim c,
       claim_scope = (if \<not> known \<or> \<not> reads_its_own_claim e (listed_claim c) then ScopeNone else scope_of (listed_scope c)),
       claim_kind = kind, claim_recyclable = census_established (listed_recyclable c)\<rparr>)"

definition tenancy_of :: "tenancy_issuer \<Rightarrow> tenancy option" where
  "tenancy_of e =
     (if length (listed_claims e) = 0 \<or> length (listed_forms e) = 0 \<or> \<not> reads_its_own_claim e ''sub'' then None
      else Some \<lparr>census_claims = map (tenancy_claim_of e) (listed_claims e), not_tenancy = listed_not_tenancy e,
        subject_forms = map subject_form_of (listed_forms e), never_pin = listed_never_pin e,
        owner_characters = characters (listed_characters e),
        names_ignore_case = fst (without_case e) \<and> snd (without_case e)\<rparr>)"

text \<open>The zero Tenant and the zero Facts.\<close>

definition no_tenant :: issuer_tenant where
  "no_tenant = \<lparr>issuer_tenant_value = [], issuer_tenant_kind = KindName, issuer_tenant_recyclable = Unverified,
     issuer_tenant_membership = MembershipUnverified\<rparr>"

definition no_facts :: facts where
  "no_facts = \<lparr>facts_issuer_kind = NotSurveyed, facts_namespace = [], facts_anonymous = Unverified, facts_tenancy = None,
     facts_tenant = no_tenant, facts_issuerless = EveryIssuer, facts_modelled = False\<rparr>"

definition facts_of :: "tenancy_issuer \<Rightarrow> string \<Rightarrow> facts" where
  "facts_of e tenant =
     (let f = no_facts\<lparr>facts_anonymous := census_established (anonymous_tokens e)\<rparr> in
      if tenant_placeholder e \<noteq> []
      then f\<lparr>facts_issuer_kind := PerTenant, facts_namespace := NamespaceIssuer,
             facts_tenant := \<lparr>issuer_tenant_value = tenant, issuer_tenant_kind = tenant_kind (tenant_kind_word e),
               issuer_tenant_recyclable = census_established (tenant_recyclable e),
               issuer_tenant_membership = membership_of (controlled_tenant e tenant)\<rparr>\<rparr>
      else f\<lparr>facts_issuer_kind := Shared, facts_namespace := namespace_of (declaration_prefix e), facts_tenancy := tenancy_of e\<rparr>)"

record issuer_names =
  names_entry :: string
  names_platform :: string

text \<open>Facts: the zero facts and no names for an issuer the census has not surveyed.\<close>

definition registry_facts :: "census \<Rightarrow> string \<Rightarrow> facts \<times> issuer_names" where
  "registry_facts C issuer =
     (case Option.bind (census_key issuer) (census_match C) of
        None \<Rightarrow> (no_facts, \<lparr>names_entry = [], names_platform = []\<rparr>)
      | Some (e, tenant) \<Rightarrow> (facts_of e tenant, \<lparr>names_entry = census_name e, names_platform = census_platform e\<rparr>))"

section \<open>Condition keys\<close>

text \<open>The variable keyed, and keyEntry, which answers from it while the issuer is the same.\<close>

record key_cache =
  cache_asked :: bool
  cache_issuer :: string
  cache_entry :: "tenancy_issuer option"

definition empty_cache :: key_cache where
  "empty_cache = \<lparr>cache_asked = False, cache_issuer = [], cache_entry = None\<rparr>"

definition key_entry :: "census \<Rightarrow> string \<Rightarrow> key_cache \<Rightarrow> tenancy_issuer option \<times> key_cache" where
  "key_entry C issuer k =
     (let k' = (if \<not> cache_asked k \<or> cache_issuer k \<noteq> issuer
                then \<lparr>cache_asked = True, cache_issuer = issuer,
                      cache_entry = map_option fst (Option.bind (census_key issuer) (census_match C))\<rparr>
                else k) in
      (cache_entry k', k'))"

definition documents_condition_key :: "census \<Rightarrow> string \<Rightarrow> string \<Rightarrow> key_cache \<Rightarrow> (bool \<times> bool) \<times> key_cache" where
  "documents_condition_key C issuer key k =
     (let (found, k') = key_entry C issuer k in
      (case found of None \<Rightarrow> (False, False) | Some e \<Rightarrow> maps_condition_key e key, k'))"

definition documents_multivalued :: "census \<Rightarrow> string \<Rightarrow> string \<Rightarrow> key_cache \<Rightarrow> bool \<times> key_cache" where
  "documents_multivalued C issuer key k =
     (let (found, k') = key_entry C issuer k in
      (case Option.bind found (\<lambda>e. aws_condition_key e key) of
         None \<Rightarrow> False
       | Some r \<Rightarrow> fst (key_multivalued r) \<and> snd (key_multivalued r), k'))"

definition reads_a_multi_valued_claim :: "census \<Rightarrow> string \<Rightarrow> string \<Rightarrow> key_cache \<Rightarrow> bool \<times> key_cache" where
  "reads_a_multi_valued_claim C issuer key k =
     (let (found, k') = key_entry C issuer k in
      (case found of
         None \<Rightarrow> False
       | Some e \<Rightarrow>
         (case aws_condition_key e key of
            None \<Rightarrow> False
          | Some r \<Rightarrow> list_ex (\<lambda>claim. claim \<noteq> [] \<and> fst (claim_multi_valued e claim) \<and> snd (claim_multi_valued e claim))
              [read_claim r, fallback_claim r]), k'))"

text \<open>KeyClaim, and AWSConditionKeyClaim.\<close>

record key_claim =
  key_claim_read :: string
  key_claim_fallback :: string
  key_claim_table :: string

definition condition_key_claim :: "census \<Rightarrow> string \<Rightarrow> string \<Rightarrow> key_cache \<Rightarrow> key_claim option \<times> key_cache" where
  "condition_key_claim C issuer key k =
     (let (found, k') = key_entry C issuer k in
      (map_option (\<lambda>r. \<lparr>key_claim_read = read_claim r, key_claim_fallback = fallback_claim r,
          key_claim_table = (if read_claim r \<noteq> [] then read_claim r else table_claim r)\<rparr>)
         (Option.bind found (\<lambda>e. aws_condition_key e key)), k'))"

end
