(* ===== verification/Report_Place.thy ===== *)
theory Report_Place imports Registry Aws_Questions begin

text \<open>
  Package report, the part of answer.go that puts the pieces together: the vocabulary condition keys
  are read with, and the placing of every grant of a policy with the census's facts for its issuer,
  what the parser reads of its statement, and the owners declared and recognised.
\<close>

section \<open>The vocabulary\<close>

text \<open>
  The variable vocabulary: DocumentedKeys over the three lookups of the registry, which keep a copy
  of the last entry; they are asked here from one state k of that copy.
\<close>

definition engine_vocabulary :: "census \<Rightarrow> key_cache \<Rightarrow> vocabulary" where
  "engine_vocabulary C k = documented_keys (\<lambda>issuer key. fst (documents_condition_key C issuer key k))
     (\<lambda>issuer key. fst (documents_multivalued C issuer key k)) (\<lambda>issuer key. fst (reads_a_multi_valued_claim C issuer key k))"

section \<open>Owners\<close>

record ownership =
  owners_declared :: "declared_owner list"
  owners_recognised :: "declared_owner list"

definition every_owner :: "ownership \<Rightarrow> declared_owner list" where
  "every_owner m = (if length (owners_recognised m) = 0 then owners_declared m else owners_declared m @ owners_recognised m)"

text \<open>marks.\<close>

definition owner_marks :: "ownership \<Rightarrow> tenant_owner \<Rightarrow> facts \<Rightarrow> bool \<times> bool" where
  "owner_marks m w f =
     (if \<not> owner_declared w then (False, False)
      else (list_ex (\<lambda>d. declaration_names d w f) (owners_declared m), list_ex (\<lambda>d. declaration_names d w f) (owners_recognised m)))"

section \<open>Platforms\<close>

text \<open>host, and the number of strings.Fields: the maximal runs of runes that are no space.\<close>

definition issuer_host_path :: "string \<Rightarrow> string" where
  "issuer_host_path issuer = trim_prefix issuer https"

fun field_count :: "bool \<Rightarrow> rune list \<Rightarrow> nat" where
  "field_count inside [] = 0"
| "field_count inside (r # rs) = (if is_space r then field_count False rs else if inside then field_count True rs else 1 + field_count True rs)"

definition platform_name :: "string \<Rightarrow> issuer_names \<Rightarrow> string" where
  "platform_name issuer names =
     (if issuer = AWSPrincipalIssuer then ''AWS''
      else if names_platform names \<noteq> [] then names_platform names
      else (let name = fst (cut (names_entry names) '' ('') in
        if name \<noteq> [] \<and> field_count False (runes name) \<le> 2 then name
        else fst (cut (issuer_host_path issuer) ''/'')))"

section \<open>Placing\<close>

text \<open>placed, the principal's text apart, which is read off the layout of the document.\<close>

record placed =
  placed_number :: nat
  placed_issuer :: string
  placed_facts :: facts
  placed_platform :: string
  placed_placement :: placement
  placed_mine :: ownership

text \<open>The grants of a policy, each with the statement it came from.\<close>

type_synonym grants_read = "(grant \<times> statement) list"

text \<open>What place keeps of an issuer it looked up, and the issuers looked up so far, in order.\<close>

definition issuer_read :: "census \<Rightarrow> string \<Rightarrow> facts \<times> string" where
  "issuer_read C issuer = (case registry_facts C issuer of (f, names) \<Rightarrow> (f, platform_name issuer names))"

definition looked_up :: "census \<Rightarrow> (string \<times> facts \<times> string) list \<Rightarrow> string \<Rightarrow>
    (facts \<times> string) \<times> (string \<times> facts \<times> string) list" where
  "looked_up C memo issuer =
     (case map_of memo issuer of
        Some found \<Rightarrow> (found, memo)
      | None \<Rightarrow> (issuer_read C issuer, memo @ [(issuer, issuer_read C issuer)]))"

definition place_grant :: "fold_tables \<Rightarrow> ownership \<Rightarrow> nat \<Rightarrow> grant \<Rightarrow> statement \<Rightarrow> facts \<times> string \<Rightarrow> placed" where
  "place_grant T mine i g s found =
     (let f = (fst found)\<lparr>facts_issuerless := issuerless_population T s, facts_modelled := models_principal_of s g\<rparr> in
      \<lparr>placed_number = i + 1, placed_issuer = grant_issuer g, placed_facts = f, placed_platform = snd found,
       placed_placement = classify T g f (every_owner mine), placed_mine = mine\<rparr>)"

fun place_from :: "fold_tables \<Rightarrow> census \<Rightarrow> ownership \<Rightarrow> nat \<Rightarrow> (string \<times> facts \<times> string) list \<Rightarrow> grants_read \<Rightarrow> placed list" where
  "place_from T C mine i memo [] = []"
| "place_from T C mine i memo ((g, s) # gs) =
     (case looked_up C memo (grant_issuer g) of
        (found, memo') \<Rightarrow> place_grant T mine i g s found # place_from T C mine (i + 1) memo' gs)"

definition place_grants :: "fold_tables \<Rightarrow> census \<Rightarrow> grants_read \<Rightarrow> ownership \<Rightarrow> placed list" where
  "place_grants T C gs mine = place_from T C mine 0 [] gs"

end
