(* ===== verification/Ring_Declare_Laws.thy ===== *)
theory Ring_Declare_Laws imports Ring_Declare begin

text \<open>
  What reading declarations promises: no line is lost and no two texts name one owner, a
  declaration's own text reads back as it, and the text the answer prints for an owner declares that
  owner.
\<close>

section \<open>Bytes and runes\<close>

lemma byte_of: "byte (CHR ''@'') = 64" "byte (CHR '':'') = 58" "byte (CHR ''/'') = 47"
  by (simp_all add: byte_def)

lemma is_name_runes: "is_name s \<Longrightarrow> r \<in> set (runes s) \<Longrightarrow> 32 < r \<and> r \<le> 126 \<and> r \<noteq> 58 \<and> r \<noteq> 64 \<and> r \<noteq> 47"
proof -
  assume n: "is_name s" and r: "r \<in> set (runes s)"
  have e: "set (runes '':@/'') = {58, 64, 47}" by code_simp
  have "\<not> (r \<le> 32 \<or> 126 < r \<or> r \<in> {58, 64, 47})"
    using n r unfolding is_name_def contains_func_def list_ex_iff e by blast
  then show "32 < r \<and> r \<le> 126 \<and> r \<noteq> 58 \<and> r \<noteq> 64 \<and> r \<noteq> 47" by auto
qed

lemma is_number_runes: "is_number s \<Longrightarrow> r \<in> set (runes s) \<Longrightarrow> 48 \<le> r \<and> r \<le> 57"
  by (auto simp: is_number_def contains_func_def list_ex_iff)

lemma is_name_chars: "is_name s \<Longrightarrow> CHR ''@'' \<notin> set s \<and> CHR '':'' \<notin> set s \<and> CHR ''/'' \<notin> set s"
  using is_name_runes [of s] byte_in_runes [of "CHR ''@''" s] byte_in_runes [of "CHR '':''" s] byte_in_runes [of "CHR ''/''" s]
  unfolding byte_of by force

lemma is_number_chars: "is_number s \<Longrightarrow> CHR ''/'' \<notin> set s"
  using is_number_runes [of s] byte_in_runes [of "CHR ''/''" s] unfolding byte_of by force

lemma valid_name: "is_name s \<Longrightarrow> valid_string s" "is_number s \<Longrightarrow> valid_string s"
  using is_name_runes is_number_runes valid_ascii by fastforce+

section \<open>The owners a line can declare\<close>

text \<open>The records of the four namespaces.\<close>

definition github_owner :: "string \<Rightarrow> string \<Rightarrow> declared_owner" where
  "github_owner name ident = \<lparr>decl_namespace = NamespaceGitHub, decl_scope = ScopeOwner, decl_name = name, decl_id = ident, decl_value = []\<rparr>"

definition plain_owner :: "string \<Rightarrow> owner_scope \<Rightarrow> string \<Rightarrow> declared_owner" where
  "plain_owner ns s v = \<lparr>decl_namespace = ns, decl_scope = s, decl_name = [], decl_id = [], decl_value = v\<rparr>"

lemma owner_fields [simp]:
  "decl_namespace (github_owner n i) = NamespaceGitHub" "decl_scope (github_owner n i) = ScopeOwner" "decl_name (github_owner n i) = n"
  "decl_id (github_owner n i) = i" "decl_value (github_owner n i) = []"
  "decl_namespace (plain_owner ns s v) = ns" "decl_scope (plain_owner ns s v) = s" "decl_name (plain_owner ns s v) = []"
  "decl_id (plain_owner ns s v) = []" "decl_value (plain_owner ns s v) = v"
  by (simp_all add: github_owner_def plain_owner_def)

definition good_github :: "string \<Rightarrow> string \<Rightarrow> bool" where
  "good_github name ident \<longleftrightarrow> (is_name name \<or> name = [] \<and> ident \<noteq> []) \<and> (ident = [] \<or> is_number ident)"

definition github_text :: "string \<Rightarrow> string \<Rightarrow> string" where
  "github_text name ident = (if ident = [] then name else name @ CHR ''@'' # ident)"

lemma github_declaration_Inr: "github_declaration v = Inr d \<longleftrightarrow> (\<exists>name ident. d = github_owner name ident \<and> good_github name ident \<and> v = github_text name ident)"
proof
  assume a: "github_declaration v = Inr d"
  obtain name ident w where c: "cut v ''@'' = (name, ident, w)" by (metis prod_cases3)
  have d: "d = github_owner name ident" and ok: "is_name name \<or> w \<and> name = []" "\<not> w \<or> is_number ident"
    using a c by (auto simp: github_declaration_def github_owner_def Let_def split: if_splits)
  have "v = github_text name ident \<and> good_github name ident"
  proof (cases w)
    case True
    then have "v = name @ ''@'' @ ident" using c cut_found [of v "''@''"] by simp
    moreover have "is_number ident" using ok True by simp
    ultimately show ?thesis using ok(1) by (auto simp: github_text_def good_github_def is_number_def)
  next
    case False
    then have "name = v \<and> ident = []" using c cut_not_found [of v "''@''"] by simp
    then show ?thesis using ok False by (simp add: github_text_def good_github_def)
  qed
  then show "\<exists>name ident. d = github_owner name ident \<and> good_github name ident \<and> v = github_text name ident" using d by blast
next
  assume "\<exists>name ident. d = github_owner name ident \<and> good_github name ident \<and> v = github_text name ident"
  then obtain name ident where d: "d = github_owner name ident" and g: "good_github name ident" and v: "v = github_text name ident" by blast
  have at: "CHR ''@'' \<notin> set name" using g is_name_chars by (auto simp: good_github_def)
  have c: "cut v ''@'' = (name, ident, ident \<noteq> [])"
    using cut_char_append [OF at] cut_char_absent [OF at] by (simp add: v github_text_def)
  have "v \<noteq> []" "CHR ''/'' \<notin> set v"
    using g is_name_chars is_number_chars by (auto simp: v github_text_def good_github_def is_name_def)
  then show "github_declaration v = Inr d"
    using c g by (auto simp: github_declaration_def good_github_def d github_owner_def Let_def is_number_def)
qed

lemma aws_declaration_by_Inr: "aws_declaration_by claims v = Inr d \<Longrightarrow> \<exists>s. d = plain_owner NamespaceAWS s v"
  by (induction claims) (auto simp: plain_owner_def split: option.splits if_splits)

lemma aws_declaration_Inr: "aws_declaration v = Inr d \<Longrightarrow> \<exists>s. d = plain_owner NamespaceAWS s v"
  using aws_declaration_by_Inr by (simp add: aws_declaration_def)

lemma issuer_declaration_Inr:
  "issuer_declaration T v = Inr d \<longleftrightarrow> (\<exists>i. d = plain_owner NamespaceIssuer ScopeTenant i \<and> provider_issuer T v = Some i \<and>
    length https \<le> length v \<and> ring_lower_ascii (take (length https) v) = https \<and> \<not> contains_func is_space v)"
  by (auto simp: issuer_declaration_def plain_owner_def split: option.splits)

lemma lower_namespaces: "ring_lower_ascii NamespaceGitHub = NamespaceGitHub" "ring_lower_ascii NamespaceAWS = NamespaceAWS"
  "ring_lower_ascii NamespaceSAML = NamespaceSAML" "ring_lower_ascii NamespaceIssuer = NamespaceIssuer"
  by code_simp+

lemma namespaces_differ: "distinct [NamespaceGitHub, NamespaceAWS, NamespaceSAML, NamespaceIssuer]"
  by (simp add: namespace_defs)

text \<open>What a line says after its namespace, by the namespace.\<close>

definition reads_as :: "fold_tables \<Rightarrow> string \<Rightarrow> string \<Rightarrow> declared_owner \<Rightarrow> bool" where
  "reads_as T ns v d \<longleftrightarrow>
     ns = NamespaceGitHub \<and> github_declaration v = Inr d \<or>
     ns = NamespaceAWS \<and> aws_declaration v = Inr d \<or>
     ns = NamespaceSAML \<and> is_saml_issuer v \<and> d = plain_owner NamespaceSAML ScopeProvider v \<or>
     ns = NamespaceIssuer \<and> issuer_declaration T v = Inr d"

lemma read_declaration_Inr:
  "read_declaration T line = Inr d \<longleftrightarrow>
    valid_string line \<and> (\<exists>ns v. cut line '':'' = (ns, v, True) \<and> reads_as T (ring_lower_ascii ns) v d)"
proof -
  obtain ns v found where c: "cut line '':'' = (ns, v, found)" by (metis prod_cases3)
  show ?thesis
    using namespaces_differ unfolding read_declaration_def c prod.case Let_def reads_as_def
    by (auto simp: plain_owner_def)
qed

text \<open>The text of a declaration is its namespace, a colon and a value that reads as it.\<close>

definition declaration_body :: "declared_owner \<Rightarrow> string" where
  "declaration_body d = (if decl_namespace d = NamespaceGitHub then github_text (decl_name d) (decl_id d) else decl_value d)"

lemma declaration_string_body: "declaration_string d = decl_namespace d @ CHR '':'' # declaration_body d"
  by (simp add: declaration_string_def declaration_body_def github_text_def NamespaceGitHub_def)

lemma reads_as_namespace: "reads_as T ns v d \<Longrightarrow> decl_namespace d = ns"
  by (auto simp: reads_as_def github_declaration_Inr issuer_declaration_Inr dest!: aws_declaration_Inr)

lemma reads_as_body: "reads_as T ns v d \<Longrightarrow> ns \<noteq> NamespaceIssuer \<Longrightarrow> declaration_body d = v"
  using namespaces_differ
  by (auto simp: reads_as_def github_declaration_Inr issuer_declaration_Inr declaration_body_def dest!: aws_declaration_Inr)

lemma read_at_body:
  assumes "reads_as T ns v d" "valid_string v"
  shows "read_declaration T (ns @ CHR '':'' # v) = Inr d"
proof -
  have ns: "ns \<in> {NamespaceGitHub, NamespaceAWS, NamespaceSAML, NamespaceIssuer}" using assms(1) by (auto simp: reads_as_def)
  then have "CHR '':'' \<notin> set ns" by (auto simp: namespace_defs)
  moreover have "valid_string ns" using ns by (elim insertE emptyE; simp only: namespace_defs; code_simp)
  moreover have "ring_lower_ascii ns = ns" using ns lower_namespaces by auto
  ultimately show ?thesis
    using assms cut_char_append [of "CHR '':''" ns v] by (simp add: read_declaration_Inr valid_at_ascii byte_of)
qed

section \<open>Reading a declaration's own text\<close>

text \<open>No two readable declarations have one text.\<close>

lemma reads_as_issuer: "reads_as T NamespaceIssuer v d \<Longrightarrow> \<exists>i. d = plain_owner NamespaceIssuer ScopeTenant i"
  using namespaces_differ by (auto simp: reads_as_def issuer_declaration_Inr)

lemma declaration_string_inj:
  assumes "read_declaration T l = Inr d" "read_declaration T l' = Inr e" "declaration_string d = declaration_string e"
  shows "d = e"
proof -
  obtain ns v ns' v' where d: "reads_as T ns v d" and e: "reads_as T ns' v' e"
    using assms(1,2) by (auto simp: read_declaration_Inr)
  note n = reads_as_namespace [OF d] reads_as_namespace [OF e]
  have "CHR '':'' \<notin> set ns" "CHR '':'' \<notin> set ns'" using d e by (auto simp: reads_as_def namespace_defs)
  then have ns: "ns = ns'" and body: "declaration_body d = declaration_body e"
    using assms(3) char_append_inject [of ns "CHR '':''"] by (simp_all add: declaration_string_body n)
  show ?thesis
  proof (cases "ns = NamespaceIssuer")
    case True
    then obtain i i' where "d = plain_owner NamespaceIssuer ScopeTenant i" "e = plain_owner NamespaceIssuer ScopeTenant i'"
      using reads_as_issuer d e ns by blast
    then show ?thesis using body by (simp add: declaration_body_def NamespaceIssuer_def NamespaceGitHub_def)
  next
    case False
    then have "v = v'" using reads_as_body [OF d] reads_as_body [OF e] body ns by simp
    then show ?thesis using d e ns namespaces_differ by (auto simp: reads_as_def)
  qed
qed

text \<open>What NormaliseIssuer takes an issuer apart into.\<close>

definition issuer_host :: "string \<Rightarrow> string" where
  "issuer_host raw = (let s = (case index_of raw ''://'' of Some i \<Rightarrow> drop (i + 3) raw | None \<Rightarrow> raw) in fst (cut s ''/''))"

definition issuer_path :: "string \<Rightarrow> string" where
  "issuer_path raw = (let s = (case index_of raw ''://'' of Some i \<Rightarrow> drop (i + 3) raw | None \<Rightarrow> raw) in fst (snd (cut s ''/'')))"

lemma normalise_issuer_host:
  "normalise_issuer raw =
    (if issuer_host raw = [] then None else Some (issuer_of (lower_ascii (issuer_host raw)) (trim_suffix (issuer_path raw) ''/'')))"
proof -
  let ?s = "case index_of raw ''://'' of Some i \<Rightarrow> drop (i + 3) raw | None \<Rightarrow> raw"
  obtain h p b where c: "cut ?s ''/'' = (h, p, b)" by (metis prod_cases3)
  show ?thesis using c unfolding normalise_issuer_def issuer_host_def issuer_path_def Let_def c by (simp add: issuer_of_def)
qed

lemma folds_into_ascii_host: "folds_into_ascii T raw = contains_func (into_ascii T) (issuer_host raw)"
proof -
  let ?s = "case index_of raw ''://'' of Some i \<Rightarrow> drop (i + 3) raw | None \<Rightarrow> raw"
  obtain a r f where c: "cut raw ''://'' = (a, r, f)" by (metis prod_cases3)
  then have "(if f then r else raw) = ?s" by (auto simp: cut_def numeral_3_eq_3 split: option.splits)
  then show ?thesis unfolding folds_into_ascii_def issuer_host_def Let_def c prod.case by (auto split: prod.split)
qed

lemma issuer_slices:
  obtains a m where "raw = a @ issuer_host raw @ m" "m = [] \<and> issuer_path raw = [] \<or> m = CHR ''/'' # issuer_path raw"
    "a = [] \<or> (\<exists>b. a = b @ ''/'')"
proof -
  let ?s = "case index_of raw ''://'' of Some i \<Rightarrow> drop (i + 3) raw | None \<Rightarrow> raw"
  obtain a where a: "raw = a @ ?s" "a = [] \<or> (\<exists>b. a = b @ ''/'')"
  proof (cases "index_of raw ''://''")
    case None
    then show thesis using that [of "[]"] by simp
  next
    case (Some i)
    then obtain t where t: "raw = take i raw @ ''://'' @ t" "i + 3 \<le> length raw" using index_of_Some [OF Some] by auto
    have l: "length (take i raw @ ''://'') = i + 3" using t(2) by simp
    have "raw = (take i raw @ ''://'') @ t" using t(1) by simp
    then have "drop (i + 3) raw = t" using l by (metis append_eq_conv_conj)
    then show thesis using that [of "take i raw @ ''://''"] t(1) Some by (auto intro: exI [of _ "take i raw @ '':/''"])
  qed
  obtain h p b where c: "cut ?s ''/'' = (h, p, b)" by (metis prod_cases3)
  then have hp: "issuer_host raw = h" "issuer_path raw = p" by (simp_all add: issuer_host_def issuer_path_def)
  have "?s = h @ (if b then CHR ''/'' # p else [])" "b \<or> p = []"
    using c cut_found [of ?s "''/''" h p] cut_not_found [of ?s "''/''" h p] by (cases b; simp)+
  then show thesis using that [of a "if b then CHR ''/'' # p else []"] a hp by auto
qed

lemma lower_ascii_char: "byte c < 65 \<Longrightarrow> c \<in> set (lower_ascii s) \<longleftrightarrow> c \<in> set s"
proof -
  assume c: "byte c < 65"
  have "byte c \<in> set (runes (lower_ascii s)) \<longleftrightarrow> byte c \<in> set (runes s)"
    using c by (auto simp: lower_ascii_runes image_iff)
  then show ?thesis using byte_in_runes [of c] c by simp
qed

lemma trim_subset: "set (trim_suffix s p) \<subseteq> set s"
  by (auto simp: trim_suffix_def dest: in_set_takeD)

lemma trim_slash_cases: "trim_suffix s ''/'' = s \<and> \<not> has_suffix s ''/'' \<or> s = trim_suffix s ''/'' @ ''/''"
  by (auto simp: trim_suffix_def has_suffix_def suffix_def)

lemma runes_trim: "set (runes (trim_suffix s ''/'')) \<subseteq> set (runes s)"
  using trim_slash_cases [of s] runes_ascii [of "CHR ''/''" "trim_suffix s ''/''" "[]"]
  by (cases "trim_suffix s ''/'' = s") (auto simp: byte_of)

lemma after_slash: "raw = a @ t \<Longrightarrow> a = [] \<or> (\<exists>b. a = b @ ''/'') \<Longrightarrow> raw = t \<or> (\<exists>b. raw = b @ CHR ''/'' # t)"
  by auto

lemma after_slash_valid: "raw = t \<or> (\<exists>b. raw = b @ CHR ''/'' # t) \<Longrightarrow> valid_string raw \<Longrightarrow> valid_string t"
  by (auto simp: valid_at_ascii byte_of)

lemma after_slash_runes: "raw = t \<or> (\<exists>b. raw = b @ CHR ''/'' # t) \<Longrightarrow> set (runes t) \<subseteq> set (runes raw)"
  by (auto simp: runes_ascii byte_of)

text \<open>A valid raw issuer has a valid host and path, and no rune of the key is foreign to it.\<close>

lemma issuer_valid:
  assumes "valid_string raw"
  shows "valid_string (issuer_of (lower_ascii (issuer_host raw)) (trim_suffix (issuer_path raw) ''/''))"
proof -
  obtain a m where sl: "raw = a @ issuer_host raw @ m" "m = [] \<and> issuer_path raw = [] \<or> m = CHR ''/'' # issuer_path raw" "a = [] \<or> (\<exists>b. a = b @ ''/'')"
    by (rule issuer_slices)
  have tail: "valid_string (issuer_host raw @ m)"
    using after_slash_valid [OF after_slash [OF sl(1,3)] assms] .
  then have "valid_string (issuer_path raw)" using sl(2) valid_at_ascii [of "CHR ''/''"] by (auto simp: byte_of)
  then have p: "valid_string (trim_suffix (issuer_path raw) ''/'')"
    using trim_slash_cases [of "issuer_path raw"] valid_at_ascii [of "CHR ''/''" "trim_suffix (issuer_path raw) ''/''" "[]"] by (auto simp: byte_of)
  have h: "valid_string (lower_ascii (issuer_host raw))"
    unfolding lower_ascii_def strings_map_def
    by (rule valid_encode_runes) (use lower_rune_valid runes_valid in \<open>fastforce simp: map_filter_def split: option.splits\<close>)
  have v: "valid_string (https @ x) = valid_string x" for x
    using valid_at_ascii [of "CHR ''/''" "''https:/''" x] valid_ascii [of "''https:/''"] by (simp add: https_def byte_of) code_simp
  show ?thesis using h p valid_at_ascii [of "CHR ''/''"] by (simp add: issuer_of_def v byte_of)
qed

lemma issuer_runes:
  assumes "r \<in> set (runes (issuer_of (lower_ascii (issuer_host raw)) (trim_suffix (issuer_path raw) ''/'')))"
  shows "r \<in> set (runes raw) \<or> r \<in> set (runes https) \<or> (\<exists>x \<in> set (runes raw). 65 \<le> x \<and> x \<le> 90 \<and> r = x + 97 - 65)"
proof -
  obtain a m where sl: "raw = a @ issuer_host raw @ m" "m = [] \<and> issuer_path raw = [] \<or> m = CHR ''/'' # issuer_path raw" "a = [] \<or> (\<exists>b. a = b @ ''/'')"
    by (rule issuer_slices)
  have "set (runes (issuer_host raw @ m)) \<subseteq> set (runes raw)"
    using after_slash_runes [OF after_slash [OF sl(1,3)]] .
  then have hp: "set (runes (issuer_host raw)) \<subseteq> set (runes raw)" "set (runes (issuer_path raw)) \<subseteq> set (runes raw)"
    using sl(2) runes_ascii [of "CHR ''/''" "issuer_host raw" "issuer_path raw"] by (auto simp: byte_of)
  have w: "runes (https @ x) = runes https @ runes x" for x
    using runes_ascii [of "CHR ''/''" "''https:/''" x] runes_ascii [of "CHR ''/''" "''https:/''" "[]"] by (simp add: https_def byte_of)
  have "set (runes (issuer_of h q)) \<subseteq> set (runes https) \<union> set (runes h) \<union> {47} \<union> set (runes q)" for h q
    using runes_ascii [of "CHR ''/''" h q] by (auto simp: issuer_of_def w byte_of)
  moreover have "47 \<in> set (runes https)" by code_simp
  ultimately have "r \<in> set (runes https) \<or> r \<in> set (runes (lower_ascii (issuer_host raw))) \<or> r \<in> set (runes (issuer_path raw))"
    using assms runes_trim by blast
  then show ?thesis using hp by (auto simp: lower_ascii_runes image_iff split: if_splits)
qed

lemma is_space_not: "is_space r \<Longrightarrow> \<not> (65 \<le> r \<and> r \<le> 122)"
  by (auto simp: is_space_def)

lemma issuer_key_space:
  "\<not> contains_func is_space raw \<Longrightarrow> \<not> contains_func is_space (issuer_of (lower_ascii (issuer_host raw)) (trim_suffix (issuer_path raw) ''/''))"
proof
  assume raw: "\<not> contains_func is_space raw" and "contains_func is_space (issuer_of (lower_ascii (issuer_host raw)) (trim_suffix (issuer_path raw) ''/''))"
  then obtain r where r: "is_space r" "r \<in> set (runes (issuer_of (lower_ascii (issuer_host raw)) (trim_suffix (issuer_path raw) ''/'')))"
    by (auto simp: contains_func_def list_ex_iff)
  have "list_all (\<lambda>r. \<not> is_space r) (runes https)" by code_simp
  then have "r \<notin> set (runes https)" using r(1) by (auto simp: list_all_iff)
  moreover have "\<not> (65 \<le> x \<and> x \<le> 90 \<and> r = x + 97 - 65)" for x using is_space_not [OF r(1)] by auto
  ultimately have "r \<in> set (runes raw)" using issuer_runes [OF r(2)] by blast
  then show False using raw r(1) by (auto simp: contains_func_def list_ex_iff)
qed

lemma issuer_key_host:
  assumes "names_a_host raw" "issuer_host raw \<noteq> []"
  shows "names_a_host (issuer_of (lower_ascii (issuer_host raw)) (trim_suffix (issuer_path raw) ''/''))"
proof -
  let ?i = "issuer_of (lower_ascii (issuer_host raw)) (trim_suffix (issuer_path raw) ''/'')"
  obtain a m where sl: "raw = a @ issuer_host raw @ m" "m = [] \<and> issuer_path raw = [] \<or> m = CHR ''/'' # issuer_path raw" "a = [] \<or> (\<exists>b. a = b @ ''/'')"
    by (rule issuer_slices)
  have sub: "set (issuer_host raw) \<subseteq> set raw" "set (issuer_path raw) \<subseteq> set raw" using sl(1,2) by (auto intro: subsetI simp: set_append [symmetric] simp del: set_append) (metis Un_iff list.set_intros(2) set_append)+
  have "set ?i \<subseteq> set https \<union> {CHR ''/''} \<union> set (lower_ascii (issuer_host raw)) \<union> set (issuer_path raw)"
    using trim_subset by (auto simp: issuer_of_def)
  then have "c \<notin> set ?i" if "c \<in> set [CHR ''*'', CHR '' '', CHR 0x09, CHR 0x0A, CHR 0x0D]" for c
  proof -
    have "byte c < 65" "c \<notin> set https" "c \<noteq> CHR ''/''" using that by (auto simp: byte_def https_def)
    moreover have "c \<notin> set raw" using assms(1) that by (auto simp: names_a_host_def contains_any_def list_ex_iff)
    ultimately show ?thesis using \<open>set ?i \<subseteq> _\<close> sub lower_ascii_char [of c] by blast
  qed
  moreover have "?i \<noteq> []" by (simp add: issuer_of_def https_def)
  ultimately show ?thesis by (auto simp: names_a_host_def contains_any_def list_ex_iff)
qed

lemma issuer_of_again:
  assumes "h \<noteq> []" "CHR ''/'' \<notin> set h"
  shows "issuer_host (issuer_of h p) = h" "issuer_path (issuer_of h p) = p"
proof -
  have "index_of (issuer_of h p) ''://'' = Some 5" by (simp add: issuer_of_def https_index)
  moreover have "drop 8 (issuer_of h p) = h @ (if p \<noteq> [] then CHR ''/'' # p else [])" by (simp add: issuer_of_def https_def)
  ultimately show "issuer_host (issuer_of h p) = h" "issuer_path (issuer_of h p) = p"
    using cut_char_append [OF assms(2)] cut_char_absent [OF assms(2)] by (simp_all add: issuer_host_def issuer_path_def Let_def)
qed

lemma issuer_host_slash: "CHR ''/'' \<notin> set (issuer_host raw)"
  unfolding issuer_host_def Let_def by (metis cut_char_head prod.collapse)

lemma issuer_of_suffix: "h \<noteq> [] \<Longrightarrow> CHR ''/'' \<notin> set h \<Longrightarrow> has_suffix (issuer_of h p) ''/'' \<longleftrightarrow> has_suffix p ''/''"
proof -
  assume "h \<noteq> []" "CHR ''/'' \<notin> set h"
  then have "last h \<noteq> CHR ''/''" using last_in_set by metis
  then show ?thesis using \<open>h \<noteq> []\<close> by (cases "p = []") (auto simp: has_suffix_char issuer_of_def)
qed

lemma issuer_key_again:
  assumes "provider_issuer T raw = Some i" "\<not> has_suffix i ''/''"
  shows "provider_issuer T i = Some i"
proof -
  let ?h = "issuer_host raw" and ?p = "trim_suffix (issuer_path raw) ''/''"
  have a: "names_a_host raw" "\<not> contains_func (into_ascii T) ?h" "?h \<noteq> []" and i: "i = issuer_of (lower_ascii ?h) ?p"
    using assms(1) by (auto simp: provider_issuer_def folds_into_ascii_host normalise_issuer_host split: if_splits)
  have l: "lower_ascii ?h \<noteq> []" "CHR ''/'' \<notin> set (lower_ascii ?h)" using a(3) issuer_host_slash by (simp_all add: lower_ascii_slash)
  have "trim_suffix ?p ''/'' = ?p" using assms(2) unfolding i issuer_of_suffix [OF l] trim_fixed .
  then have "normalise_issuer i = Some i" by (simp add: normalise_issuer_host i issuer_of_again [OF l] a(3) lower_ascii_idem)
  moreover have "\<not> contains_func (into_ascii T) (lower_ascii ?h)"
    using a(2) by (auto simp: contains_func_def list_ex_iff lower_ascii_runes into_ascii_def split: if_splits)
  moreover have "names_a_host i" unfolding i by (rule issuer_key_host [OF a(1,3)])
  ultimately show ?thesis by (simp add: provider_issuer_def folds_into_ascii_host i issuer_of_again [OF l])
qed

lemma issuer_declaration_again:
  assumes "issuer_declaration T v = Inr d" "\<not> has_suffix (decl_value d) ''/''" "valid_string v"
  shows "issuer_declaration T (decl_value d) = Inr d \<and> valid_string (decl_value d)"
proof -
  obtain i where i: "d = plain_owner NamespaceIssuer ScopeTenant i" "provider_issuer T v = Some i" "\<not> contains_func is_space v"
    using assms(1) by (auto simp: issuer_declaration_Inr)
  have n: "i = issuer_of (lower_ascii (issuer_host v)) (trim_suffix (issuer_path v) ''/'')"
    using i(2) by (auto simp: provider_issuer_def normalise_issuer_host split: if_splits)
  have "provider_issuer T i = Some i" using issuer_key_again [OF i(2)] assms(2) by (simp add: i(1))
  moreover have "\<not> contains_func is_space i" unfolding n by (rule issuer_key_space [OF i(3)])
  moreover have "valid_string i" unfolding n by (rule issuer_valid [OF assms(3)])
  moreover have "length https \<le> length i" "take (length https) i = https" by (simp_all add: n issuer_of_def)
  moreover have "ring_lower_ascii https = https" by code_simp
  ultimately show ?thesis by (auto simp: issuer_declaration_Inr i(1))
qed

lemma declaration_again:
  assumes "read_declaration T line = Inr d" "\<not> has_suffix (decl_value d) ''/'' \<or> decl_namespace d \<noteq> NamespaceIssuer"
  shows "read_declaration T (declaration_string d) = Inr d"
proof -
  obtain ns v where c: "cut line '':'' = (ns, v, True)" and r: "reads_as T (ring_lower_ascii ns) v d" and valid: "valid_string line"
    using assms(1) by (auto simp: read_declaration_Inr)
  have "line = ns @ CHR '':'' # v" using cut_found [OF c] by simp
  then have v: "valid_string v" using valid valid_at_ascii [of "CHR '':''" ns v] by (simp add: byte_of)
  have "reads_as T (decl_namespace d) (declaration_body d) d \<and> valid_string (declaration_body d)"
  proof (cases "ring_lower_ascii ns = NamespaceIssuer")
    case True
    then have d: "issuer_declaration T v = Inr d" using r namespaces_differ by (auto simp: reads_as_def)
    then have ns: "decl_namespace d = NamespaceIssuer" by (auto simp: issuer_declaration_Inr)
    then have "issuer_declaration T (decl_value d) = Inr d \<and> valid_string (decl_value d)"
      using issuer_declaration_again [OF d _ v] assms(2) by blast
    then show ?thesis using namespaces_differ by (auto simp: reads_as_def declaration_body_def ns)
  next
    case False
    then show ?thesis using r v reads_as_body [OF r] reads_as_namespace [OF r] by simp
  qed
  then show ?thesis using read_at_body by (simp add: declaration_string_body)
qed

section \<open>Declaring an owner\<close>

text \<open>
  The owners the classifier makes: a GitHub name and an id's name hold no at sign, and an AWS
  owner's scope is the one its id has.
\<close>

definition well_named :: "tenant_owner \<Rightarrow> bool" where
  "well_named w \<longleftrightarrow>
     (if owner_kind w = KindName then CHR ''@'' \<notin> set (owner_value w) else CHR ''@'' \<notin> set (owner_name w)) \<and>
     (owner_namespace w = NamespaceAWS \<longrightarrow> (owner_scope w = ScopeAccount \<longleftrightarrow> is_account_id (owner_value w)) \<and> owner_scope w \<in> {ScopeAccount, ScopeOrganisation})"

lemma aws_declaration_scope:
  assumes "aws_declaration v = Inr d"
  shows "decl_scope d = (if is_account_id v then ScopeAccount else ScopeOrganisation)"
proof -
  have "tenant_of_value accountClaim v = Some \<lparr>tenant_scope = AccountScope, tenant_id = v\<rparr>" if "is_account_id v"
    using that by (simp add: tenant_of_value_def)
  moreover have "aws_scope \<lparr>tenant_scope = AccountScope, tenant_id = v\<rparr> = Some ScopeAccount" by (simp add: aws_scope_def)
  ultimately have acc: "is_account_id v \<Longrightarrow> decl_scope d = ScopeAccount"
    using assms by (auto simp: aws_declaration_def tenancy_claims_def)
  have "decl_scope e = ScopeOrganisation" if "aws_declaration_by claims v = Inr e" "\<not> is_account_id v" for claims e
    using that
    by (induction claims)
      (auto simp: tenant_of_value_def tenant_of_prefix_def aws_scope_def AccountScope_def OrganisationScope_def split: option.splits if_splits)
  then show ?thesis using acc assms by (auto simp: aws_declaration_def)
qed

lemma reads_as_at:
  "reads_as T NamespaceGitHub v d \<longleftrightarrow> github_declaration v = Inr d" "reads_as T NamespaceAWS v d \<longleftrightarrow> aws_declaration v = Inr d"
  "reads_as T NamespaceSAML v d \<longleftrightarrow> is_saml_issuer v \<and> d = plain_owner NamespaceSAML ScopeProvider v"
  "reads_as T NamespaceIssuer v d \<longleftrightarrow> issuer_declaration T v = Inr d"
  using namespaces_differ by (auto simp: reads_as_def)

lemma read_named:
  assumes "ns \<in> {NamespaceGitHub, NamespaceAWS, NamespaceSAML, NamespaceIssuer}" "read_declaration T (ns @ CHR '':'' # v) = Inr d"
  shows "reads_as T ns v d"
proof -
  have "CHR '':'' \<notin> set ns" using assms(1) by (auto simp: namespace_defs)
  moreover have "ring_lower_ascii ns = ns" using assms(1) lower_namespaces by auto
  ultimately show ?thesis using assms(2) cut_char_append [of "CHR '':''" ns v] by (simp add: read_declaration_Inr)
qed

lemma declaring_covers:
  assumes "well_named w" "read_declaration T (owner_declaration w) = Inr d"
  shows "declaration_covers d w ignore_case"
proof -
  have "owner_declaration w \<noteq> []"
    using assms(2) by (auto simp: read_declaration_Inr cut_def index_of.simps)
  then consider (name) "owner_namespace w = NamespaceGitHub" "owner_scope w = ScopeOwner" "owner_kind w = KindName" "owner_declaration w = NamespaceGitHub @ CHR '':'' # owner_value w"
    | (ident) "owner_namespace w = NamespaceGitHub" "owner_scope w = ScopeOwner" "owner_kind w = KindID" "owner_declaration w = NamespaceGitHub @ CHR '':'' # owner_name w @ CHR ''@'' # owner_value w"
    | (aws) "owner_namespace w = NamespaceAWS" "owner_declaration w = NamespaceAWS @ CHR '':'' # owner_value w"
    | (saml) "owner_namespace w = NamespaceSAML" "owner_scope w = ScopeProvider" "owner_declaration w = NamespaceSAML @ CHR '':'' # owner_value w"
    | (issuer) "owner_namespace w = NamespaceIssuer" "owner_scope w = ScopeTenant" "owner_declaration w = NamespaceIssuer @ CHR '':'' # owner_issuer w"
    by (auto simp: owner_declaration_def namespace_defs split: if_splits)
  then show ?thesis
  proof cases
    case name
    have "github_declaration (owner_value w) = Inr d"
      using read_named [OF _ assms(2) [unfolded name(4)]] by (simp add: reads_as_at)
    then obtain nm ident where g: "d = github_owner nm ident" "good_github nm ident" "owner_value w = github_text nm ident" by (auto simp: github_declaration_Inr)
    have "ident = []" using assms(1) name(3) g(3) by (cases "ident = []") (simp_all add: well_named_def github_text_def)
    then show ?thesis using g name by (auto simp: declaration_covers_def github_text_def good_github_def is_name_def namespace_defs)
  next
    case ident
    have "github_declaration (owner_name w @ CHR ''@'' # owner_value w) = Inr d"
      using read_named [OF _ assms(2) [unfolded ident(4)]] by (simp add: reads_as_at)
    then obtain nm i where g: "d = github_owner nm i" "good_github nm i" "owner_name w @ CHR ''@'' # owner_value w = github_text nm i" by (auto simp: github_declaration_Inr)
    have at: "CHR ''@'' \<notin> set nm" using g(2) is_name_chars by (auto simp: good_github_def)
    then have "i \<noteq> []" using arg_cong [OF g(3), of set] by (auto simp: github_text_def split: if_splits)
    then have "owner_value w = i" using assms(1) ident(3) g(3) at char_append_inject [of "owner_name w" "CHR ''@''"] by (simp add: well_named_def github_text_def)
    then show ?thesis using g ident \<open>i \<noteq> []\<close> by (simp add: declaration_covers_def NamespaceGitHub_def)
  next
    case aws
    have "aws_declaration (owner_value w) = Inr d"
      using read_named [OF _ assms(2) [unfolded aws(2)]] by (simp add: reads_as_at)
    then show ?thesis
      using aws_declaration_Inr [of "owner_value w" d] aws_declaration_scope [of "owner_value w" d] assms(1) aws(1)
      by (auto simp: declaration_covers_def well_named_def namespace_defs)
  next
    case saml
    have "d = plain_owner NamespaceSAML ScopeProvider (owner_value w)"
      using read_named [OF _ assms(2) [unfolded saml(3)]] by (simp add: reads_as_at)
    then show ?thesis using saml by (simp add: declaration_covers_def namespace_defs)
  next
    case issuer
    have "issuer_declaration T (owner_issuer w) = Inr d"
      using read_named [OF _ assms(2) [unfolded issuer(3)]] by (simp add: reads_as_at)
    then obtain i where "d = plain_owner NamespaceIssuer ScopeTenant i" "normalise_issuer (owner_issuer w) = Some i"
      by (auto simp: issuer_declaration_Inr provider_issuer_def split: if_splits)
    then show ?thesis using issuer by (simp add: declaration_covers_def namespace_defs)
  qed
qed

section \<open>Reading the lines\<close>

definition the_line :: "string \<Rightarrow> string" where
  "the_line raw = trim_suffix raw [CHR 0x0D]"

text \<open>A blank line reads as nothing.\<close>

definition line_reading :: "fold_tables \<Rightarrow> string \<Rightarrow> (refusal_reason + declared_owner) option" where
  "line_reading T raw = (let line = trim_blanks (the_line raw) in if line = [] then None else Some (read_declaration T line))"

definition line_refusals :: "fold_tables \<Rightarrow> nat \<times> string \<Rightarrow> refusal list" where
  "line_refusals T = (\<lambda>(k, raw). case line_reading T raw of
     Some (Inl r) \<Rightarrow> [\<lparr>refusal_line = k + 1, refusal_text = the_line raw, refusal_reason = r\<rparr>] | _ \<Rightarrow> [])"

definition declares :: "fold_tables \<Rightarrow> string list \<Rightarrow> declared_owner set" where
  "declares T lines = {d. \<exists>raw \<in> set lines. line_reading T raw = Some (Inr d)}"

text \<open>What the map from texts holds once the owners of D were declared.\<close>

definition holds_owners :: "(string \<times> declared_owner) list \<Rightarrow> declared_owner set \<Rightarrow> bool" where
  "holds_owners m D \<longleftrightarrow> distinct (map fst m) \<and> (\<forall>t d. map_of m t = Some d \<longleftrightarrow> d \<in> D \<and> t = declaration_string d)"

definition readable :: "fold_tables \<Rightarrow> declared_owner \<Rightarrow> bool" where
  "readable T d \<longleftrightarrow> (\<exists>l. read_declaration T l = Inr d)"

lemma holds_owners_update:
  assumes "holds_owners m D" "readable T d" "\<forall>e \<in> D. readable T e"
  shows "holds_owners (AList.update (declaration_string d) d m) (insert d D)"
proof -
  have "e = d" if "e \<in> D" "declaration_string e = declaration_string d" for e
    using that assms(2,3) declaration_string_inj unfolding readable_def by metis
  then show ?thesis using assms(1) by (auto simp: holds_owners_def update_conv' distinct_update)
qed

lemma read_lines_Inr:
  assumes "read_lines T i lines refused m = Inr (refused', m')" "holds_owners m D" "\<forall>e \<in> D. readable T e"
  shows "(\<forall>raw \<in> set lines. length (the_line raw) \<le> MaxDeclarationLineBytes)
    \<and> refused' = refused @ concat (map (line_refusals T) (enumerate i lines)) \<and> holds_owners m' (D \<union> declares T lines)"
  using assms
proof (induction T i lines refused m arbitrary: D rule: read_lines.induct)
  case (1 T i refused m)
  then show ?case by (simp add: declares_def)
next
  case (2 T i raw lines refused m)
  let ?l = "trim_blanks (the_line raw)"
  have fits: "length (the_line raw) \<le> MaxDeclarationLineBytes"
    using "2.prems"(1) by (auto simp: Let_def the_line_def split: if_splits)
  have ds: "declares T (raw # lines) = {d. line_reading T raw = Some (Inr d)} \<union> declares T lines" by (auto simp: declares_def)
  note red = read_lines.simps(2) [of T i raw lines refused m, folded the_line_def, unfolded Let_def]
  consider (blank) "?l = []" | (bad) r where "?l \<noteq> []" "read_declaration T ?l = Inl r" | (good) d where "?l \<noteq> []" "read_declaration T ?l = Inr d"
    by (metis sum.exhaust)
  then show ?case
  proof cases
    case blank
    then have "line_reading T raw = None" by (simp add: line_reading_def)
    moreover have "read_lines T (i + 1) lines refused m = Inr (refused', m')"
      using "2.prems"(1) fits blank unfolding red by simp
    ultimately show ?thesis using "2.IH"(1) [folded the_line_def, OF refl _ refl blank _ "2.prems"(2,3)] fits ds by (simp add: line_refusals_def)
  next
    case bad
    then have lr: "line_reading T raw = Some (Inl r)" by (simp add: line_reading_def)
    moreover have "read_lines T (i + 1) lines (refused @ [\<lparr>refusal_line = i + 1, refusal_text = the_line raw, refusal_reason = r\<rparr>]) m = Inr (refused', m')"
      using "2.prems"(1) fits bad unfolding red by simp
    ultimately show ?thesis using "2.IH"(2) [folded the_line_def, OF refl _ refl bad _ "2.prems"(2,3)] fits ds by (simp add: line_refusals_def)
  next
    case good
    then have lr: "line_reading T raw = Some (Inr d)" by (simp add: line_reading_def)
    have r: "readable T d" using good(2) by (auto simp: readable_def)
    have "read_lines T (i + 1) lines refused (AList.update (declaration_string d) d m) = Inr (refused', m')"
      using "2.prems"(1) fits good unfolding red by simp
    moreover have "holds_owners (AList.update (declaration_string d) d m) (insert d D)"
      by (rule holds_owners_update [OF "2.prems"(2) r "2.prems"(3)])
    ultimately show ?thesis
      using "2.IH"(3) [folded the_line_def, OF refl _ refl good, of "insert d D"] r "2.prems"(3) fits ds lr by (simp add: line_refusals_def)
  qed
qed

lemma read_lines_Inl:
  assumes "read_lines T i lines refused m = Inl over"
  shows "\<exists>k < length lines. over = overran LineBytes (i + k + 1) (length (the_line (lines ! k))) \<and> MaxDeclarationLineBytes < length (the_line (lines ! k))"
  using assms
proof (induction T i lines refused m rule: read_lines.induct)
  case (2 T i raw lines refused m)
  note red = read_lines.simps(2) [of T i raw lines refused m, folded the_line_def, unfolded Let_def]
  have step: ?case if ex: "\<exists>k < length lines. over = overran LineBytes (i + 1 + k + 1) (length (the_line (lines ! k))) \<and> MaxDeclarationLineBytes < length (the_line (lines ! k))"
  proof -
    obtain k where "k < length lines \<and> over = overran LineBytes (i + 1 + k + 1) (length (the_line (lines ! k))) \<and>
        MaxDeclarationLineBytes < length (the_line (lines ! k))" using ex by blast
    then show ?thesis by (intro exI [of _ "Suc k"]) simp
  qed
  show ?case
  proof (cases "MaxDeclarationLineBytes < length (the_line raw)")
    case True
    then show ?thesis using "2.prems" unfolding red by (auto intro!: exI [of _ 0])
  next
    case fits: False
    let ?l = "trim_blanks (the_line raw)"
    show ?thesis
      using "2.prems" fits "2.IH" [folded the_line_def, OF refl fits refl] step unfolding red
      by (cases "?l = []"; cases "read_declaration T ?l") simp_all
  qed
qed simp

lemma line_refusals_length: "length (concat (map (line_refusals T) xs)) \<le> length xs"
proof (induction xs)
  case (Cons x xs)
  have "length (line_refusals T x) \<le> 1" by (auto simp: line_refusals_def split: prod.split option.split sum.split)
  then show ?case using Cons by simp
qed simp

text \<open>The owners read back from the map in the order of its sorted keys.\<close>

definition owners_of :: "(string \<times> declared_owner) list \<Rightarrow> declared_owner list" where
  "owners_of m = map (\<lambda>t. the (map_of m t)) (sort_func go_compare (map fst m))"

lemma owners_of_holds:
  assumes "holds_owners m D"
  shows "set (owners_of m) = D" and "sorted_wrt (\<lambda>d e. declaration_string d < declaration_string e) (owners_of m)"
proof -
  have keys: "t \<in> set (map fst m) \<longleftrightarrow> (\<exists>d. map_of m t = Some d)" for t
    using map_of_eq_None_iff [of m t] by (cases "map_of m t") auto
  have got: "t \<in> set (map fst m) \<Longrightarrow> the (map_of m t) \<in> D \<and> declaration_string (the (map_of m t)) = t" for t
    using assms keys [of t] by (auto simp: holds_owners_def)
  have "d \<in> D \<Longrightarrow> declaration_string d \<in> set (map fst m) \<and> the (map_of m (declaration_string d)) = d" for d
    using assms keys by (auto simp: holds_owners_def)
  moreover have "d \<in> set (owners_of m) \<longleftrightarrow> (\<exists>t \<in> set (map fst m). d = the (map_of m t))" for d by (auto simp: owners_of_def)
  ultimately show "set (owners_of m) = D" using got by (intro set_eqI) metis
  have "sort_func go_compare (map fst m) = sort (map fst m)" using sort_func_key [of "\<lambda>x. x" "map fst m"] by simp
  moreover have "sorted_wrt (<) (sort (map fst m))" using assms by (simp add: holds_owners_def strict_sorted_iff)
  moreover have "map (\<lambda>t. declaration_string (the (map_of m t))) (sort (map fst m)) = sort (map fst m)"
    by (rule map_idI) (use got in simp)
  ultimately have "sorted_wrt (<) (map declaration_string (owners_of m))" by (simp add: owners_of_def comp_def)
  then show "sorted_wrt (\<lambda>d e. declaration_string d < declaration_string e) (owners_of m)" by (simp add: sorted_wrt_map)
qed

definition tables_of_none :: fold_tables where
  "tables_of_none = \<lparr>fold_variants = [], fold_wide = []\<rparr>"

section \<open>Properties\<close>

text \<open>
  C39: A declaration is read within its bounds or refused whole. Within them no line is lost: each
  declares an owner, is listed as refused with its reason, or is blank; the owners come out once
  each, in the strict order of their texts, though they were kept in a map from texts; and there are
  at most 64 lines refused. Past a bound the answer is the bound gone past and nothing else.
\<close>

theorem declarations_are_read_whole:
  "case declarations_overrun (read_declarations T src) of
     None \<Rightarrow> length src \<le> MaxDeclarationBytes \<and> length (declaration_lines src) \<le> MaxDeclarationLines
       \<and> (\<forall>raw \<in> set (declaration_lines src). length (the_line raw) \<le> MaxDeclarationLineBytes)
       \<and> set (declared_owners (read_declarations T src)) = declares T (declaration_lines src)
       \<and> sorted_wrt (\<lambda>d e. declaration_string d < declaration_string e) (declared_owners (read_declarations T src))
       \<and> refused_lines (read_declarations T src) = concat (map (line_refusals T) (enumerate 0 (declaration_lines src)))
       \<and> length (refused_lines (read_declarations T src)) \<le> MaxDeclarationLines
   | Some over \<Rightarrow> declared_owners (read_declarations T src) = [] \<and> refused_lines (read_declarations T src) = [] \<and>
       (case overrun_bound over of
          DeclarationBytes \<Rightarrow> overrun_size over = length src \<and> MaxDeclarationBytes < length src
        | DeclarationLines \<Rightarrow> overrun_size over = length (declaration_lines src) \<and> MaxDeclarationLines < length (declaration_lines src)
        | LineBytes \<Rightarrow> \<exists>k < length (declaration_lines src). overrun_line over = k + 1 \<and>
            overrun_size over = length (the_line (declaration_lines src ! k)) \<and> MaxDeclarationLineBytes < overrun_size over)"
proof -
  let ?ls = "declaration_lines src"
  consider (bytes) "MaxDeclarationBytes < length src" | (lines) "length src \<le> MaxDeclarationBytes" "MaxDeclarationLines < length ?ls"
    | (line) over where "length src \<le> MaxDeclarationBytes" "length ?ls \<le> MaxDeclarationLines" "read_lines T 0 ?ls [] [] = Inl over"
    | (fine) refused m where "length src \<le> MaxDeclarationBytes" "length ?ls \<le> MaxDeclarationLines" "read_lines T 0 ?ls [] [] = Inr (refused, m)"
    by (metis sum.exhaust prod.exhaust not_le)
  then show ?thesis
  proof cases
    case bytes
    then show ?thesis by (simp add: read_declarations_def overran_def no_declarations_def)
  next
    case lines
    then show ?thesis by (simp add: read_declarations_def overran_def no_declarations_def)
  next
    case line
    obtain k where "k < length ?ls" "over = overran LineBytes (k + 1) (length (the_line (?ls ! k)))" "MaxDeclarationLineBytes < length (the_line (?ls ! k))"
      using read_lines_Inl [OF line(3)] by auto
    then show ?thesis using line by (auto simp: read_declarations_def overran_def no_declarations_def)
  next
    case fine
    have e: "read_declarations T src = \<lparr>declared_owners = owners_of m, refused_lines = refused, declarations_overrun = None\<rparr>"
      using fine by (simp add: read_declarations_def owners_of_def)
    have "holds_owners [] {}" by (simp add: holds_owners_def)
    note r = read_lines_Inr [OF fine(3) this]
    then have m: "holds_owners m (declares T ?ls)" and refused: "refused = concat (map (line_refusals T) (enumerate 0 ?ls))" by simp_all
    have "length refused \<le> MaxDeclarationLines" using line_refusals_length [of T "enumerate 0 ?ls"] fine(2) by (simp add: refused)
    then show ?thesis using fine(1,2) r refused owners_of_holds [OF m] by (simp add: e)
  qed
qed

theorem declarations_are_read_whole_witness:
  "set (declared_owners (read_declarations tables_of_none [CHR ''a'', CHR ''w'', CHR ''s'', CHR '':'', newline])) = declares tables_of_none [''aws:'']
    \<and> length (refused_lines (read_declarations tables_of_none [CHR ''a'', CHR ''w'', CHR ''s'', CHR '':'', newline])) = 1"
proof -
  let ?src = "[CHR ''a'', CHR ''w'', CHR ''s'', CHR '':'', newline]"
  have e: "declarations_overrun (read_declarations tables_of_none ?src) = None" "declaration_lines ?src = [''aws:'']"
    "length (refused_lines (read_declarations tables_of_none ?src)) = 1" by code_simp+
  have "set (declared_owners (read_declarations tables_of_none ?src)) = declares tables_of_none [''aws:'']"
    using declarations_are_read_whole [where T = tables_of_none and src = ?src] unfolding e(1,2) option.case by blast
  then show ?thesis using e(3) by blast
qed

text \<open>
  C40: The text a declaration is echoed as reads back as the same declaration, and no two
  declarations share a text, save that an issuer kept with a trailing slash reads back as another.
\<close>

theorem declarations_read_back:
  assumes "read_declaration T line = Inr d"
  shows "(\<not> has_suffix (decl_value d) ''/'' \<or> decl_namespace d \<noteq> NamespaceIssuer \<longrightarrow> read_declaration T (declaration_string d) = Inr d)
    \<and> (\<forall>line' e. read_declaration T line' = Inr e \<and> declaration_string e = declaration_string d \<longrightarrow> e = d)"
  using declaration_again [OF assms] declaration_string_inj [OF _ assms] by blast

theorem declarations_read_back_witness:
  "read_declaration tables_of_none ''GitHub:acme@12'' = read_declaration tables_of_none ''github:acme@12''"
proof -
  have a: "read_declaration tables_of_none ''GitHub:acme@12'' = Inr (github_owner ''acme'' ''12'')"
    "decl_namespace (github_owner ''acme'' ''12'') \<noteq> NamespaceIssuer" "declaration_string (github_owner ''acme'' ''12'') = ''github:acme@12''"
    by code_simp+
  have "read_declaration tables_of_none (declaration_string (github_owner ''acme'' ''12'')) = Inr (github_owner ''acme'' ''12'')"
    using declarations_read_back [OF a(1)] a(2) by blast
  then show ?thesis by (simp only: a)
qed

text \<open>
  What the answer prints for an owner declares that owner: where the text of an owner's
  declaration reads at all, the declaration covers the owner, whatever the case rule of its issuer.
\<close>

theorem printed_declarations_cover:
  assumes "well_named w" "read_declaration T (owner_declaration w) = Inr d"
  shows "declaration_names d w f"
  unfolding declaration_names_def by (rule declaring_covers [OF assms])

definition sample_facts :: facts where
  "sample_facts = \<lparr>facts_issuer_kind = Shared, facts_namespace = NamespaceGitHub, facts_anonymous = No, facts_tenancy = None,
     facts_tenant = \<lparr>issuer_tenant_value = [], issuer_tenant_kind = KindName, issuer_tenant_recyclable = Unverified, issuer_tenant_membership = MembershipUnverified\<rparr>,
     facts_issuerless = EveryIssuer, facts_modelled = True\<rparr>"

theorem printed_declarations_cover_witness:
  "declaration_names (github_owner ''acme'' []) (sample_owner ''acme'') sample_facts"
proof -
  have "well_named (sample_owner ''acme'')" "read_declaration tables_of_none (owner_declaration (sample_owner ''acme'')) = Inr (github_owner ''acme'' [])"
    by code_simp+
  then show ?thesis by (rule printed_declarations_cover)
qed

end
