(* ===== verification/Ring_Laws.thy ===== *)
theory Ring_Laws imports Ring_Classify Ring_Declare_Laws begin

text \<open>
  What placing a grant promises: no population lands farther out than the placement says, a
  credential nobody vouches for is anyone's, and declaring an owner moves a population inward, from
  a named outsider to the user's own or from a SAML provider's sign-ins to the user's people, and
  changes nothing else.
\<close>

section \<open>The outermost place\<close>

lemma place_of_number [simp]: "place_of_number (place_number p) = p"
  by (cases p) (simp_all add: place_of_number_def)

lemma place_number_nonneg [simp]: "0 \<le> place_number p"
  by (cases p) simp_all

definition rings_of :: "population list \<Rightarrow> ring_place set" where
  "rings_of ps = {population_place pop | pop. pop \<in> set ps \<and> is_ring (population_place pop)}"

lemma rings_of_simps [simp]:
  "rings_of [] = {}"
  "rings_of (p # ps) = (if is_ring (population_place p) then insert (population_place p) (rings_of ps) else rings_of ps)"
  by (auto simp: rings_of_def)

lemma finite_rings [simp]: "finite (rings_of ps)"
  by (induction ps) simp_all

lemma outer_ring_fold:
  "fold (\<lambda>pop ring. if is_ring (population_place pop) \<and> (ring < 0 \<or> place_number (population_place pop) < ring)
     then place_number (population_place pop) else ring) ps r =
   (if rings_of ps = {} then r
    else if r < 0 then place_number (Min (rings_of ps)) else min r (place_number (Min (rings_of ps))))"
proof (induction ps arbitrary: r)
  case (Cons p ps)
  have pn: "place_number (min x y) = min (place_number x) (place_number y)" for x y
    by (auto simp: min_def less_eq_ring_place_def)
  show ?case
  proof (cases "is_ring (population_place p)")
    case True
    let ?n = "place_number (population_place p)"
    have n: "\<not> ?n < 0" by (simp add: not_less)
    have m: "place_number (Min (rings_of (p # ps))) = (if rings_of ps = {} then ?n else min ?n (place_number (Min (rings_of ps))))"
      using True by (simp add: pn)
    show ?thesis unfolding m using True Cons [of "if r < 0 \<or> ?n < r then ?n else r"] n
      by (cases "r < 0"; cases "?n < r"; cases "rings_of ps = {}") (simp_all add: min_def)
  qed (use Cons in simp)
qed simp

lemma outer_ring: "outer_ring ps = (if rings_of ps = {} then - 1 else place_number (Min (rings_of ps)))"
  unfolding outer_ring_def outer_ring_fold by simp

lemma set_named_places:
  "set (named_places ps) = (if rings_of ps = {} then {} else {Min (rings_of ps)}) \<union>
     {line \<in> {SAML, Service}. \<exists>pop \<in> set ps. population_place pop = line}"
  by (auto simp: named_places_def outer_ring Let_def list_ex_iff)

text \<open>Every population is at a named place or further in.\<close>

lemma named_covers:
  assumes "pop \<in> set ps"
  shows "if is_ring (population_place pop) then \<exists>ring \<in> set (named_places ps). is_ring ring \<and> ring \<le> population_place pop
    else population_place pop \<in> set (named_places ps)"
proof (cases "is_ring (population_place pop)")
  case True
  then have p: "population_place pop \<in> rings_of ps" using assms by (auto simp: rings_of_def)
  then have "Min (rings_of ps) \<in> rings_of ps" by (intro Min_in) auto
  then show ?thesis using True p by (auto simp: set_named_places rings_of_def intro!: Min_le)
next
  case False
  then show ?thesis using assms by (auto simp: set_named_places is_ring_iff(2))
qed

lemma named_reached: "pl \<in> set (named_places ps) \<Longrightarrow> \<exists>pop \<in> set ps. population_place pop = pl"
proof -
  assume "pl \<in> set (named_places ps)"
  then consider "rings_of ps \<noteq> {}" "pl = Min (rings_of ps)" | "\<exists>pop \<in> set ps. population_place pop = pl"
    by (auto simp: set_named_places split: if_splits)
  then show ?thesis
  proof cases
    case 1
    then have "pl \<in> rings_of ps" by simp
    then show ?thesis by (auto simp: rings_of_def)
  qed
qed

lemma named_nonempty: "ps \<noteq> [] \<Longrightarrow> named_places ps \<noteq> []"
proof -
  assume "ps \<noteq> []"
  then obtain pop where "pop \<in> set ps" by (cases ps) auto
  then have "set (named_places ps) \<noteq> {}" using named_covers [of pop ps] by (auto split: if_splits)
  then show ?thesis by auto
qed

section \<open>Where one alternative lands\<close>

lemma at_place_fields [simp]:
  "population_term (at_place p s b) = 0" "population_place (at_place p s b) = p" "population_state (at_place p s b) = s"
  "population_basis (at_place p s b) = b" "population_owners (at_place p s b) = []" "owner_starts (at_place p s b) = []"
  "population_bounded (at_place p s b) = False"
  by (simp_all add: at_place_def)

lemma in_term_fields [simp]:
  "population_place (in_term g i pop) = population_place pop" "population_term (in_term g i pop) = i"
  "population_basis (in_term g i pop) = population_basis pop" "population_owners (in_term g i pop) = population_owners pop"
  "owner_starts (in_term g i pop) = owner_starts pop" "population_bounded (in_term g i pop) = population_bounded pop"
  "population_state (in_term g i pop) = (if grant_effect g = EffectUnknown then StateUnknown else population_state pop)"
  by (simp_all add: in_term_def Let_def)

lemma pinned_fields:
  "population_place (pinned c pins b) \<in> {Outsider, Yours}" "population_basis (pinned c pins b) = b"
  "population_state (pinned c pins b) = StateExact" "owner_starts (pinned c pins b) = []" "population_bounded (pinned c pins b) = False"
  "set (population_owners (pinned c pins b)) = {mark_declared c w | w. \<exists>pin \<in> set pins. w \<in> set pin}"
  by (auto simp: pinned_def Let_def)

lemma bounded_in_fields [simp]:
  "population_place (bounded_in r pop) = population_place pop" "population_basis (bounded_in r pop) = population_basis pop"
  "population_owners (bounded_in r pop) = population_owners pop" "owner_starts (bounded_in r pop) = owner_starts pop"
  "population_bounded (bounded_in r pop) = (reading_bounded r \<or> population_bounded pop)"
  "population_state (bounded_in r pop) = (if reading_bounded r then StateUnknown else population_state pop)"
  by (auto simp: bounded_in_def)

text \<open>Exactness is claimed on the platform, of outsiders and of the user's own alone, and never of a bound.\<close>

definition sober :: "population \<Rightarrow> bool" where
  "sober pop \<longleftrightarrow> (population_state pop = StateExact \<longrightarrow> population_place pop \<in> {Platform, Outsider, Yours} \<and> \<not> population_bounded pop)"

lemma sober_made: "sober (at_place p StateUnknown b)" "sober ((at_place p StateUnknown b)\<lparr>population_owners := ws\<rparr>)" "sober (at_place Platform StateExact b)"
  by (simp_all add: sober_def)

lemma sober_pinned: "sober (pinned c pins b)"
  using pinned_fields(1,5) [of c pins b] by (auto simp: sober_def)

lemma sober_bounded: "sober pop \<Longrightarrow> sober (bounded_in r pop)"
  by (auto simp: sober_def)

lemma sober_if: "sober (if b then p else q) = (if b then sober p else sober q)"
  by simp

lemma decide_sober: "sober (decide c r)"
  unfolding decide_def sober_if
  by (simp add: sober_made sober_bounded sober_pinned) (simp add: sober_def)

lemma oidc_sober: "sober (oidc_population c trm)"
  unfolding oidc_population_def Let_def shared_population_def tenant_population_def sober_if
  by (simp add: sober_made sober_pinned decide_sober split: option.split)

lemma place_term_sober: "pop \<in> set (place_term c trm) \<Longrightarrow> sober pop"
  by (auto simp: place_term_def Let_def issuerless_places_def saml_provider_def service_population_def aws_population_of_def
    sober_made decide_sober oidc_sober split: if_splits aws_population.splits)

lemma place_term_nonempty: "place_term c trm \<noteq> []"
  by (simp add: place_term_def Let_def issuerless_places_def split: aws_population.split)

lemma enumerate_upt: "enumerate 0 xs = map (\<lambda>i. (i, xs ! i)) [0..<length xs]"
  by (rule nth_equalityI) (simp_all add: nth_enumerate_eq)

lemma populations_of_iff:
  "pop \<in> set (populations_of c) \<longleftrightarrow> (\<exists>i < length (admitted_terms (grant_admits (classifier_grant c))). \<exists>q \<in> set (place_term c (admitted_terms (grant_admits (classifier_grant c)) ! i)).
     pop = in_term (classifier_grant c) i q)"
  by (auto simp: populations_of_def enumerate_upt)

section \<open>Properties\<close>

text \<open>The examples: an issuer whose subjects lead with an owner and a repository.\<close>

definition sample_tenancy :: tenancy where
  "sample_tenancy =
     \<lparr>census_claims = [\<lparr>tenancy_claim_key = ''repository_owner'', claim_scope = ScopeOwner, claim_kind = KindName, claim_recyclable = Unverified\<rparr>],
      not_tenancy = [], subject_forms = [\<lparr>form_lead = ''repo:'', form_scope = ScopeOwner, form_parts = [\<lparr>part_kind = KindName, part_delimiter = ''/''\<rparr>]\<rparr>],
      never_pin = [], owner_characters = [\<lparr>range_first = 97, range_last = 122\<rparr>], names_ignore_case = False\<rparr>"

definition sample_shared :: facts where
  "sample_shared = sample_facts\<lparr>facts_tenancy := Some sample_tenancy\<rparr>"

definition sample_grant :: "string_set \<Rightarrow> grant" where
  "sample_grant s =
     \<lparr>grant_target = \<lparr>target_kind = [], target_id = []\<rparr>, grant_issuer = ''https://h.io'', grant_admits = new_admitted_set [[(''sub'', s)]],
      grant_effect = Allow, grant_provenance = [], grant_anomalies = [], grant_source = []\<rparr>"

abbreviation the_classifier :: "fold_tables \<Rightarrow> grant \<Rightarrow> facts \<Rightarrow> declared_owner list \<Rightarrow> classifier" where
  "the_classifier T g f ds \<equiv> \<lparr>classifier_grant = g, classifier_facts = f, classifier_declared = ds, classifier_tables = T\<rparr>"

lemma classify_placed:
  assumes "grant_effect g \<noteq> Deny" "admitted_terms (grant_admits g) \<noteq> []"
  shows "classify T g f ds = outermost (populations_of (the_classifier T g f ds))"
  using assms by (simp add: classify_def set_is_empty_def)

lemma classified_population:
  assumes "pop \<in> set (placement_populations (classify T g f ds))"
  shows "grant_effect g \<noteq> Deny" "pop \<in> set (populations_of (the_classifier T g f ds))"
  using assms by (auto simp: classify_def not_placed_def outermost_def Let_def split: if_splits)

text \<open>
  C2: A placement is never nearer than what it stands for. A Deny is refused and a set that admits
  no token is nobody; every other grant is placed, every alternative of its admitted set is among
  its populations, each ring population lies at the ring the placement names or further in, and each
  population beside the rings has its line named. A place is called exact only where an exact
  population reaches it, which is never anyone, a line beside the rings, a bound or a grant whose
  effect was not read.
\<close>

theorem placement_is_outermost:
  "if grant_effect g = Deny then placement_outcome (classify T g f ds) = Refused
   else if \<not> (\<exists>token. admits (grant_admits g) token) \<and> admitted_terms (grant_admits g) = []
   then placement_outcome (classify T g f ds) = Nobody
   else placement_outcome (classify T g f ds) = Placed \<and> placement_places (classify T g f ds) \<noteq> []
     \<and> (\<forall>i < length (admitted_terms (grant_admits g)). \<exists>pop \<in> set (placement_populations (classify T g f ds)). population_term pop = i)
     \<and> (\<forall>pop \<in> set (placement_populations (classify T g f ds)).
         (if is_ring (population_place pop)
          then \<exists>ring \<in> set (placement_places (classify T g f ds)). is_ring ring \<and> ring \<le> population_place pop
          else population_place pop \<in> set (placement_places (classify T g f ds))))
     \<and> (placement_state (classify T g f ds) = StateExact \<longrightarrow> grant_effect g \<noteq> EffectUnknown
         \<and> (\<forall>pl \<in> set (placement_places (classify T g f ds)). pl \<in> {Platform, Outsider, Yours}
           \<and> (\<exists>pop \<in> set (placement_populations (classify T g f ds)). population_place pop = pl \<and> population_state pop = StateExact \<and> \<not> population_bounded pop)))"
proof -
  let ?c = "the_classifier T g f ds" and ?ts = "admitted_terms (grant_admits g)"
  consider (deny) "grant_effect g = Deny" | (empty) "grant_effect g \<noteq> Deny" "?ts = []" | (placed) "grant_effect g \<noteq> Deny" "?ts \<noteq> []" by blast
  then show ?thesis
  proof cases
    case deny
    then show ?thesis by (simp add: classify_def not_placed_def)
  next
    case empty
    then show ?thesis by (simp add: classify_def set_is_empty_def not_placed_def admits_iff)
  next
    case placed
    let ?ps = "populations_of ?c"
    have e: "classify T g f ds = outermost ?ps" by (rule classify_placed [OF placed])
    have fields: "placement_outcome (outermost ?ps) = Placed" "placement_places (outermost ?ps) = named_places ?ps"
      "placement_populations (outermost ?ps) = ?ps"
      "placement_state (outermost ?ps) = StateExact \<longleftrightarrow>
        (\<forall>pl \<in> set (named_places ?ps). \<exists>pop \<in> set ?ps. population_place pop = pl \<and> population_state pop = StateExact)"
      by (auto simp: outermost_def Let_def list_ex_iff)
    have every: "\<exists>pop \<in> set ?ps. population_term pop = i" if "i < length ?ts" for i
    proof -
      obtain q where "q \<in> set (place_term ?c (?ts ! i))" using place_term_nonempty [of ?c "?ts ! i"] by (meson last_in_set)
      then have "in_term g i q \<in> set ?ps" using that by (auto simp: populations_of_iff)
      then show ?thesis by (rule bexI [rotated]) simp
    qed
    then have "?ps \<noteq> []" using placed(2) by (metis empty_iff length_greater_0_conv list.set(1))
    have exact: "grant_effect g \<noteq> EffectUnknown \<and> population_place pop \<in> {Platform, Outsider, Yours} \<and> \<not> population_bounded pop"
      if mem: "pop \<in> set ?ps" and ex: "population_state pop = StateExact" for pop
    proof -
      obtain i q where q: "q \<in> set (place_term ?c (?ts ! i))" "pop = in_term g i q"
        using mem unfolding populations_of_iff classifier.simps by blast
      then show ?thesis using place_term_sober [OF q(1)] ex by (auto simp: sober_def split: if_splits)
    qed
    have nonempty: "named_places ?ps \<noteq> []" by (rule named_nonempty [OF \<open>?ps \<noteq> []\<close>])
    have cov: "\<forall>pop \<in> set ?ps. (if is_ring (population_place pop) then \<exists>ring \<in> set (named_places ?ps). is_ring ring \<and> ring \<le> population_place pop
        else population_place pop \<in> set (named_places ?ps))" using named_covers by blast
    have st: "placement_state (outermost ?ps) = StateExact \<longrightarrow> grant_effect g \<noteq> EffectUnknown
         \<and> (\<forall>pl \<in> set (named_places ?ps). pl \<in> {Platform, Outsider, Yours}
           \<and> (\<exists>pop \<in> set ?ps. population_place pop = pl \<and> population_state pop = StateExact \<and> \<not> population_bounded pop))"
      unfolding fields(4) using exact nonempty by (metis last_in_set)
    show ?thesis using placed every nonempty cov st unfolding e fields(1-3) by simp
  qed
qed

theorem placement_is_outermost_witness:
  "placement_places (classify tables_of_none (sample_grant (Glob ''repo:acme/*'')) sample_shared []) = [Outsider]
    \<and> (\<exists>pop \<in> set (placement_populations (classify tables_of_none (sample_grant (Glob ''repo:acme/*'')) sample_shared [])). population_place pop = Outsider
       \<and> population_state pop = StateExact \<and> \<not> population_bounded pop)"
proof -
  let ?g = "sample_grant (Glob ''repo:acme/*'')"
  have e: "placement_places (classify tables_of_none ?g sample_shared []) = [Outsider]"
    "placement_state (classify tables_of_none ?g sample_shared []) = StateExact" "grant_effect ?g \<noteq> Deny" "admitted_terms (grant_admits ?g) \<noteq> []" by code_simp+
  have "\<forall>pl \<in> set (placement_places (classify tables_of_none ?g sample_shared [])). \<exists>pop \<in> set (placement_populations (classify tables_of_none ?g sample_shared [])).
      population_place pop = pl \<and> population_state pop = StateExact \<and> \<not> population_bounded pop"
    using placement_is_outermost [of ?g tables_of_none sample_shared "[]"] e(2-4) by (simp only: simp_thms if_False) blast
  then show ?thesis using e(1) by simp
qed

definition unvouched :: "grant \<Rightarrow> facts \<Rightarrow> bool" where
  "unvouched g f \<longleftrightarrow> \<not> facts_modelled f \<or> grant_issuer g = [] \<and> facts_issuerless f = EveryIssuer \<or>
     grant_issuer g \<noteq> [] \<and> \<not> is_saml_issuer (grant_issuer g) \<and> \<not> has_prefix (grant_issuer g) ServiceIssuerPrefix \<and>
     grant_issuer g \<noteq> AWSPrincipalIssuer \<and> (facts_issuer_kind f = NotSurveyed \<or> facts_anonymous f \<noteq> No)"

lemma unvouched_term:
  assumes "unvouched g f" "pop \<in> set (place_term (the_classifier T g f ds) trm)"
  shows "population_place pop = Anyone \<and> population_state pop = StateUnknown \<and> population_owners pop = []"
proof -
  have "\<exists>b. place_term (the_classifier T g f ds) trm = [at_place Anyone StateUnknown b]"
    using assms(1) by (cases "facts_issuer_kind f") (auto simp: unvouched_def place_term_def issuerless_places_def oidc_population_def Let_def)
  then show ?thesis using assms(2) by auto
qed

lemma distinct_owners_Nil: "distinct_owners [] = []"
  by (simp add: distinct_owners_def sort_owners.simps)

text \<open>
  C3: What nobody vouches for is anyone's: where the parser did not model the principal, where the
  statement admits every issuer, or where no vendor sentence shows that an OIDC issuer's tokens need
  an account, the grant lands anyone, unknown, with no owner, whatever it constrains and whatever
  the user declares.
\<close>

theorem unvouched_is_anyone:
  assumes "unvouched g f" "grant_effect g \<noteq> Deny" "admits (grant_admits g) token"
  shows "placement_places (classify T g f ds) = [Anyone] \<and> placement_state (classify T g f ds) = StateUnknown
    \<and> placement_owners (classify T g f ds) = []"
proof -
  let ?c = "the_classifier T g f ds"
  have ts: "admitted_terms (grant_admits g) \<noteq> []" using assms(3) by (auto simp: admits_iff)
  let ?ps = "populations_of ?c"
  have all: "\<forall>pop \<in> set ?ps. population_place pop = Anyone \<and> population_state pop = StateUnknown \<and> population_owners pop = []"
    using unvouched_term [OF assms(1)] by (auto simp: populations_of_iff)
  obtain q where "q \<in> set (place_term ?c (admitted_terms (grant_admits g) ! 0))" using place_term_nonempty [of ?c] by (meson last_in_set)
  then have "in_term g 0 q \<in> set ?ps" using ts by (auto simp: populations_of_iff)
  then have r: "rings_of ?ps = {Anyone}" using all unfolding rings_of_def is_ring_def by force
  have "filter (\<lambda>line. list_ex (\<lambda>pop. population_place pop = line) ?ps) [SAML, Service] = []" using all by (auto simp: list_ex_iff)
  then have named: "named_places ?ps = [Anyone]" by (simp add: named_places_def outer_ring r place_of_number_def)
  have "concat (map population_owners (filter (\<lambda>pop. population_place pop = Anyone) ?ps)) = []" using all by auto
  then have owners: "distinct_owners (concat (map population_owners (filter (\<lambda>pop. population_place pop = Anyone) ?ps))) = []"
    by (simp only: distinct_owners_Nil)
  have "list_ex (\<lambda>pl. \<not> list_ex (\<lambda>pop. population_place pop = pl \<and> population_state pop = StateExact) ?ps) [Anyone]"
    using all by (auto simp: list_ex_iff)
  then show ?thesis unfolding classify_placed [OF assms(2) ts] outermost_def Let_def named using owners by simp
qed

theorem unvouched_is_anyone_witness:
  "placement_places (classify tables_of_none (sample_grant (Exact ''repo:acme/x'')) (sample_shared\<lparr>facts_anonymous := Unverified\<rparr>) [github_owner ''acme'' []]) = [Anyone]"
proof -
  have "unvouched (sample_grant (Exact ''repo:acme/x'')) (sample_shared\<lparr>facts_anonymous := Unverified\<rparr>)"
    "grant_effect (sample_grant (Exact ''repo:acme/x'')) \<noteq> Deny" "admits (grant_admits (sample_grant (Exact ''repo:acme/x''))) [''sub'' \<mapsto> ''repo:acme/x'']"
    by code_simp+
  then show ?thesis using unvouched_is_anyone by blast
qed

section \<open>Declaring an owner\<close>

definition redeclared :: "declared_owner list \<Rightarrow> classifier \<Rightarrow> classifier" where
  "redeclared ds c = c\<lparr>classifier_declared := ds\<rparr>"

lemma redeclared_fields [simp]:
  "classifier_grant (redeclared ds c) = classifier_grant c" "classifier_facts (redeclared ds c) = classifier_facts c"
  "classifier_tables (redeclared ds c) = classifier_tables c" "classifier_declared (redeclared ds c) = ds"
  by (simp_all add: redeclared_def)

lemma redeclared_reads [simp]:
  "widened_on (redeclared ds c) = widened_on c" "request_unread (redeclared ds c) = request_unread c"
  "claim_owner (redeclared ds c) = claim_owner c" "aws_owner (redeclared ds c) = aws_owner c" "part_owner (redeclared ds c) = part_owner c"
  by (simp_all add: fun_eq_iff widened_on_def request_unread_def claim_owner_def aws_owner_def part_owner_def cong: option.case_cong)

lemma redeclared_confine [simp]: "confine (redeclared ds c) = confine c"
  by (intro ext) (simp add: confine_def)

lemma redeclared_parts [simp]: "read_parts (redeclared ds c) t f complete ps rest name owner = read_parts c t f complete ps rest name owner"
proof (induction ps arbitrary: rest name owner)
  case (Cons p ps)
  show ?case unfolding read_parts.simps redeclared_reads Cons ..
qed simp

lemma redeclared_form [simp]: "read_form (redeclared ds c) = read_form c"
  by (intro ext) (simp add: read_form_def)

lemma redeclared_owners [simp]: "form_owners (redeclared ds c) t text complete fs = form_owners c t text complete fs"
proof (induction fs)
  case (Cons f fs)
  show ?case unfolding form_owners.simps redeclared_form Cons ..
qed simp

lemma redeclared_starts [simp]: "form_starts (redeclared ds c) t text fs start = form_starts c t text fs start"
proof (induction fs arbitrary: start)
  case (Cons f fs)
  show ?case unfolding form_starts.simps redeclared_form Cons ..
qed simp

lemma redeclared_subject [simp]:
  "subject_owners (redeclared ds c) = subject_owners c" "some_form_reads (redeclared ds c) = some_form_reads c"
  "written_start (redeclared ds c) = written_start c"
  by (simp_all add: fun_eq_iff subject_owners_def some_form_reads_def written_start_def)

lemma redeclared_value [simp]: "subject_value (redeclared ds c) = subject_value c"
  by (intro ext) (simp add: subject_value_def)

lemma redeclared_shape [simp]: "shape_starts (redeclared ds c) t s val pre = shape_starts c t s val pre"
proof (induction s)
  case (Shape k x ms)
  then have "map (\<lambda>m. (conf_owners (confine_shape m val pre) \<noteq> [], shape_starts (redeclared ds c) t m val pre)) ms =
      map (\<lambda>m. (conf_owners (confine_shape m val pre) \<noteq> [], shape_starts c t m val pre)) ms"
    "map (\<lambda>m. shape_starts (redeclared ds c) t m val pre) ms = map (\<lambda>m. shape_starts c t m val pre) ms" by simp_all
  then show ?case by (simp only: shape_starts.simps redeclared_subject)
qed

lemma redeclared_readings [simp]: "read_subject (redeclared ds c) = read_subject c" "claim_reading (redeclared ds c) = claim_reading c"
proof -
  show "read_subject (redeclared ds c) = read_subject c"
    unfolding read_subject_def [abs_def] redeclared_subject redeclared_confine redeclared_value redeclared_shape ..
  show "claim_reading (redeclared ds c) = claim_reading c"
    unfolding claim_reading_def [abs_def] redeclared_confine redeclared_reads ..
qed

text \<open>An owner with its mark taken off, and the marks of two lists of declarations.\<close>

definition unmarked :: "tenant_owner \<Rightarrow> tenant_owner" where
  "unmarked w = w\<lparr>owner_declared := False\<rparr>"

lemma unmarked_mark [simp]: "unmarked (mark_declared c w) = unmarked w"
  by (simp add: unmarked_def mark_declared_def)

lemma covered_unmarked: "covered c (unmarked w) = covered c w"
  by (simp add: covered_def declaration_names_def declaration_covers_def unmarked_def)

lemma mark_of_unmarked: "unmarked v = unmarked w \<Longrightarrow> mark_declared c v = mark_declared c w"
proof -
  assume a: "unmarked v = unmarked w"
  have "covered c v = covered c w" using arg_cong [OF a, of "covered c"] by (simp add: covered_unmarked)
  then show ?thesis using a by (cases v; cases w) (simp add: mark_declared_def unmarked_def)
qed

lemma compare_unmarked: "compare_owners v w < 0 \<Longrightarrow> unmarked v = unmarked w \<or> compare_owners (unmarked v) (unmarked w) < 0"
  by (cases v; cases w) (auto simp: compare_owners_def unmarked_def compare_bool_def split: if_splits dest: injD [OF numbers_inj(5)] injD [OF numbers_inj(6)])

lemma unmarked_distinct: "map unmarked (distinct_owners (map (mark_declared c) ws)) = distinct_owners (map unmarked ws)"
proof (rule owner_order.strict_sorted_unique)
  show "set (map unmarked (distinct_owners (map (mark_declared c) ws))) = set (distinct_owners (map unmarked ws))"
    by (auto simp: image_iff)
  let ?vs = "distinct_owners (map (mark_declared c) ws)"
  have "sorted_wrt (\<lambda>v w. compare_owners (unmarked v) (unmarked w) < 0) ?vs"
  proof (rule sorted_wrt_mono_rel [OF _ distinct_owners_sorted])
    fix v w
    assume vw: "v \<in> set ?vs" "w \<in> set ?vs" "compare_owners v w < 0"
    obtain v' w' where "v = mark_declared c v'" "w = mark_declared c w'" using vw(1,2) by auto
    then have "unmarked v = unmarked w \<Longrightarrow> v = w" using mark_of_unmarked [of v' w'] by simp
    then show "compare_owners (unmarked v) (unmarked w) < 0" using compare_unmarked [OF vw(3)] vw(3) by auto
  qed
  then show "sorted_wrt (\<lambda>x y. compare_owners x y < 0) (map unmarked ?vs)" by (simp add: sorted_wrt_map)
qed (rule distinct_owners_sorted)

text \<open>What declaring more may do to a population.\<close>

definition inward :: "population \<Rightarrow> population \<Rightarrow> bool" where
  "inward p q \<longleftrightarrow>
     (population_place q = population_place p \<or> population_place p = Outsider \<and> population_place q = Yours \<or>
       population_place p = SAML \<and> population_place q = People) \<and>
     map unmarked (population_owners q) = map unmarked (population_owners p) \<and>
     population_term q = population_term p \<and> population_state q = population_state p \<and> population_basis q = population_basis p \<and>
     owner_starts q = owner_starts p \<and> population_bounded q = population_bounded p"

lemma inward_refl [simp]: "inward p p"
  by (simp add: inward_def)

lemma covered_mono: "set ds \<subseteq> set ds' \<Longrightarrow> covered (redeclared ds c) w \<Longrightarrow> covered (redeclared ds' c) w"
  by (auto simp: covered_def list_ex_iff)

lemma pinned_inward: "set ds \<subseteq> set ds' \<Longrightarrow> inward (pinned (redeclared ds c) pins b) (pinned (redeclared ds' c) pins b)"
proof -
  assume sub: "set ds \<subseteq> set ds'"
  have u: "map unmarked (distinct_owners (concat (map (map (mark_declared c')) pins))) = distinct_owners (map unmarked (concat pins))" for c'
    using unmarked_distinct [of c' "concat pins"] by (simp add: map_concat)
  have "list_ex (list_all owner_declared) (map (map (mark_declared (redeclared ds c))) pins) \<Longrightarrow>
      list_ex (list_all owner_declared) (map (map (mark_declared (redeclared ds' c))) pins)"
    using covered_mono [OF sub, of c] by (fastforce simp: list_ex_iff list_all_iff mark_declared_def)
  then show ?thesis by (auto simp: inward_def pinned_def Let_def u)
qed

lemma inward_bounded: "inward p q \<Longrightarrow> inward (bounded_in r p) (bounded_in r q)"
  by (auto simp: inward_def bounded_in_def)

lemma inward_in_term: "inward p q \<Longrightarrow> inward (in_term g i p) (in_term g i q)"
  by (auto simp: inward_def)

lemma decide_inward: "set ds \<subseteq> set ds' \<Longrightarrow> inward (decide (redeclared ds c) r) (decide (redeclared ds' c) r)"
  by (simp add: decide_def inward_bounded pinned_inward)

lemma place_term_inward:
  assumes "set ds \<subseteq> set ds'"
  shows "list_all2 inward (place_term (redeclared ds c) trm) (place_term (redeclared ds' c) trm)"
proof -
  have "inward (saml_provider (redeclared ds c)) (saml_provider (redeclared ds' c))"
    using covered_mono [OF assms, of c] by (auto simp: saml_provider_def Let_def inward_def unmarked_def)
  moreover have "inward (oidc_population (redeclared ds c) trm) (oidc_population (redeclared ds' c) trm)"
    using decide_inward [OF assms] pinned_inward [OF assms]
    by (auto simp: oidc_population_def Let_def tenant_population_def shared_population_def split: option.split)
  moreover have "inward (aws_population_of (redeclared ds c) trm) (aws_population_of (redeclared ds' c) trm)"
    using decide_inward [OF assms] by (simp add: aws_population_of_def)
  ultimately show ?thesis by (simp add: place_term_def Let_def list_all2_same)
qed

lemma populations_inward:
  assumes "set ds \<subseteq> set ds'"
  shows "list_all2 inward (populations_of (redeclared ds c)) (populations_of (redeclared ds' c))"
proof -
  have "list_all2 inward (concat (map (\<lambda>i. map (in_term g i) (place_term (redeclared ds c) (ts ! i))) is))
      (concat (map (\<lambda>i. map (in_term g i) (place_term (redeclared ds' c) (ts ! i))) is))" for "is" ts g
  proof (induction "is")
    case (Cons i js)
    have "list_all2 inward (map (in_term g i) (place_term (redeclared ds c) (ts ! i))) (map (in_term g i) (place_term (redeclared ds' c) (ts ! i)))"
      unfolding list_all2_map1 list_all2_map2 by (rule list_all2_mono [OF place_term_inward [OF assms]]) (rule inward_in_term)
    then show ?case using Cons by (simp add: list_all2_appendI)
  qed simp
  then show ?thesis by (simp add: populations_of_def enumerate_upt comp_def)
qed

text \<open>
  C4: Declaring an owner never moves anyone outward: with more declared, a grant is placed or not
  as before, and each of its populations stays where it was or moves from a named outsider to the
  user's own, or from a SAML provider's sign-ins to the user's people; its state, its basis and its
  owners, the marks apart, are the same.
\<close>

theorem declaring_moves_inward:
  assumes "set ds \<subseteq> set ds'"
  shows "placement_outcome (classify T g f ds') = placement_outcome (classify T g f ds)
    \<and> list_all2 inward (placement_populations (classify T g f ds)) (placement_populations (classify T g f ds'))"
proof -
  have "the_classifier T g f es = redeclared es (the_classifier T g f [])" for es by (simp add: redeclared_def)
  then show ?thesis
    using populations_inward [OF assms, of "the_classifier T g f []"]
    by (simp add: classify_def not_placed_def outermost_def Let_def redeclared_def)
qed

theorem declaring_moves_inward_witness:
  "inward (hd (placement_populations (classify tables_of_none (sample_grant (Glob ''repo:acme/*'')) sample_shared [])))
      (hd (placement_populations (classify tables_of_none (sample_grant (Glob ''repo:acme/*'')) sample_shared [github_owner ''acme'' []])))
    \<and> map population_place (placement_populations (classify tables_of_none (sample_grant (Glob ''repo:acme/*'')) sample_shared [github_owner ''acme'' []])) = [Yours]"
proof -
  let ?p = "\<lambda>ds. placement_populations (classify tables_of_none (sample_grant (Glob ''repo:acme/*'')) sample_shared ds)"
  have y: "map population_place (?p [github_owner ''acme'' []]) = [Yours]" by code_simp
  have "list_all2 inward (?p []) (?p [github_owner ''acme'' []])"
    using declaring_moves_inward [of "[]" "[github_owner ''acme'' []]"] by simp
  then show ?thesis using y by (cases "?p []"; cases "?p [github_owner ''acme'' []]") simp_all
qed

end
