(* ===== verification/Ring_Pins.thy ===== *)
theory Ring_Pins imports Ring_Laws begin

text \<open>
  What a pin promises: whoever holds a credential that an alternative pinned to owners admits is
  vouched for as one of them, by a claim the census lists or by a subject one of its forms reads;
  and where the population is the user's own, as one the user declared. The only thing asked of the
  census is that a form's lead is ASCII and each delimiter one ASCII character.
\<close>

section \<open>Runs of an owner's characters\<close>

lemma owner_run_Nil [simp]: "owner_run t [] = []"
  by (simp add: owner_run.simps)

lemma owner_run_step: "s \<noteq> [] \<Longrightarrow> decode_rune s = (r, n) \<Longrightarrow> owner_run t s = (if allows t r then take n s @ owner_run t (drop n s) else [])"
  by (subst owner_run.simps) simp

lemma owner_run_prefix: "\<exists>after. s = owner_run t s @ after"
proof (induction s rule: runes.induct)
  case (1 s)
  show ?case
  proof (cases "s = []")
    case False
    obtain r n where d: "decode_rune s = (r, n)" by fastforce
    obtain after where "drop n s = owner_run t (drop n s) @ after" using 1 [OF False] d by auto
    then have "s = take n s @ owner_run t (drop n s) @ after" by (metis append_take_drop_id)
    then show ?thesis using owner_run_step [OF False d, of t] by (cases "allows t r") auto
  qed simp
qed

lemma owner_run_after: "s = owner_run t s @ drop (length (owner_run t s)) s"
  using owner_run_prefix [of s t] by (metis append_eq_conv_conj)

lemma owner_run_stop:
  assumes "byte c < 128" "\<not> allows t (byte c)"
  shows "owner_run t (s @ c # y) = owner_run t s"
proof (induction s rule: runes.induct)
  case (1 s)
  show ?case
  proof (cases "s = []")
    case True
    have "decode_rune (c # y) = (byte c, 1)" using assms(1) by (rule decode_ascii)
    then show ?thesis using True assms(2) owner_run_step [of "c # y"] by simp
  next
    case False
    obtain r n where d: "decode_rune s = (r, n)" by fastforce
    have n: "n \<le> length s" using decode_width [OF False d] by simp
    have e: "decode_rune (s @ c # y) = (r, n)" using decode_stop False assms(1) d by simp
    show ?thesis using 1 [OF False] d n owner_run_step [OF False d] owner_run_step [OF _ e] by simp
  qed
qed

lemma owner_run_valid:
  assumes "valid_string s" "owner_run t s \<noteq> s"
  shows "owner_run t (s @ x) = owner_run t s"
  using assms
proof (induction s rule: runes.induct)
  case (1 s)
  show ?case
  proof (cases "s = []")
    case False
    obtain r n where d: "decode_rune s = (r, n)" by fastforce
    have n: "n \<le> length s" using decode_width [OF False d] by simp
    have v: "valid_string (drop n s)" using "1.prems"(1) False d by (simp add: valid_string_step)
    note e = decode_append [OF "1.prems"(1) False d, of x]
    have s: "owner_run t (s @ x) = (if allows t r then take n s @ owner_run t (drop n s @ x) else [])"
      using owner_run_step [OF _ e, of t] False n by simp
    show ?thesis
    proof (cases "allows t r")
      case True
      then have "owner_run t (drop n s) \<noteq> drop n s" using "1.prems"(2) owner_run_step [OF False d, of t] by auto
      then show ?thesis using "1.IH" [OF False] d v True s owner_run_step [OF False d, of t] by simp
    next
      case no: False
      then show ?thesis using s owner_run_step [OF False d, of t] by simp
    qed
  qed (use "1.prems" in simp)
qed

section \<open>What a subject names\<close>

text \<open>The owner of kind k and value v that some part of a form closes in s, by the form's grammar alone.\<close>

fun part_names :: "tenancy \<Rightarrow> subject_part list \<Rightarrow> string \<Rightarrow> owner_kind \<Rightarrow> string \<Rightarrow> bool" where
  "part_names t [] s k v = False"
| "part_names t (p # ps) s k v =
     (let run = owner_run t s; after = drop (length run) s in
      run \<noteq> [] \<and> (after = [] \<or> has_prefix after (part_delimiter p)) \<and>
      (k = part_kind p \<and> v = run \<or> after \<noteq> [] \<and> part_names t ps (drop (length (part_delimiter p)) after) k v))"

definition subject_names :: "tenancy \<Rightarrow> subject_form \<Rightarrow> string \<Rightarrow> tenant_owner \<Rightarrow> bool" where
  "subject_names t f v w \<longleftrightarrow> has_prefix v (form_lead f) \<and> owner_scope w = form_scope f \<and>
     part_names t (form_parts f) (drop (length (form_lead f)) v) (owner_kind w) (owner_value w)"

definition ascii_parts :: "subject_part list \<Rightarrow> bool" where
  "ascii_parts ps \<longleftrightarrow> list_all (\<lambda>p. case part_delimiter p of [c] \<Rightarrow> byte c < 128 | _ \<Rightarrow> False) ps"

definition ascii_form :: "subject_form \<Rightarrow> bool" where
  "ascii_form f \<longleftrightarrow> list_all (\<lambda>c. byte c < 128) (form_lead f) \<and> ascii_parts (form_parts f)"

definition ascii_census :: "tenancy \<Rightarrow> bool" where
  "ascii_census t \<longleftrightarrow> list_all ascii_form (subject_forms t)"

definition readable_parts :: "tenancy \<Rightarrow> subject_part list \<Rightarrow> bool" where
  "readable_parts t ps \<longleftrightarrow> list_all (\<lambda>p. \<exists>c. part_delimiter p = [c] \<and> byte c < 128 \<and> \<not> allows t (byte c)) ps"

lemma readable_form_parts: "readable_form t f \<Longrightarrow> ascii_parts (form_parts f) \<Longrightarrow> readable_parts t (form_parts f)"
  unfolding readable_parts_def list_all_iff
proof
  fix p
  assume a: "readable_form t f" "ascii_parts (form_parts f)" "p \<in> set (form_parts f)"
  then have "case part_delimiter p of [c] \<Rightarrow> byte c < 128 | _ \<Rightarrow> False" by (simp add: ascii_parts_def list_all_iff)
  then obtain c where c: "part_delimiter p = [c]" "byte c < 128" by (auto split: list.splits)
  have "case decode_rune (part_delimiter p) of (r, n) \<Rightarrow> \<not> (part_delimiter p = [] \<or> n \<noteq> length (part_delimiter p) \<or> allows t r)"
    using a(1,3) by (simp add: readable_form_def list_all_iff)
  then have "\<not> allows t (byte c)" using c decode_ascii [of c "[]"] by simp
  then show "\<exists>c. part_delimiter p = [c] \<and> byte c < 128 \<and> \<not> allows t (byte c)" using c by blast
qed

text \<open>
  A part that a delimiter closes is closed in every continuation, and by the same run.
\<close>

lemma closed_run:
  assumes "part_delimiter p = [c]" "byte c < 128" "\<not> allows t (byte c)" "has_prefix (drop (length (owner_run t s)) s) (part_delimiter p)"
  shows "owner_run t (s @ x) = owner_run t s" and "drop (length (owner_run t s)) (s @ x) = drop (length (owner_run t s)) s @ x"
proof -
  obtain y where "drop (length (owner_run t s)) s = c # y" using assms(1,4) by (auto elim: has_prefixE)
  then have s: "s = owner_run t s @ c # y" using owner_run_after [of s t] by simp
  have "owner_run t s = owner_run t (owner_run t s)" using owner_run_stop [OF assms(2,3), of "owner_run t s" y] s by simp
  moreover have "owner_run t (s @ x) = owner_run t (owner_run t s)"
    using owner_run_stop [OF assms(2,3), of "owner_run t s" "y @ x"] s by (metis append_Cons append_assoc)
  ultimately show "owner_run t (s @ x) = owner_run t s" by simp
  have "length (owner_run t s) \<le> length s" by (subst (2) s) simp
  then show "drop (length (owner_run t s)) (s @ x) = drop (length (owner_run t s)) s @ x" by simp
qed

lemma part_owner_fields [simp]:
  "owner_scope (part_owner c t f k run nm) = form_scope f" "owner_kind (part_owner c t f k run nm) = k" "owner_value (part_owner c t f k run nm) = run"
  by (simp_all add: part_owner_def)

lemma read_parts_names:
  assumes "read_parts c t f complete ps rest nm owner = (Some w, opened, fits)" "readable_parts t ps" "complete \<longrightarrow> x = []"
  shows "owner = Some w \<or> owner_scope w = form_scope f \<and> part_names t ps (rest @ x) (owner_kind w) (owner_value w)"
  using assms(1,2)
proof (induction ps arbitrary: rest nm owner)
  case (Cons p ps)
  let ?run = "owner_run t rest" and ?after = "drop (length (owner_run t rest)) rest"
  obtain d where d: "part_delimiter p = [d]" "byte d < 128" "\<not> allows t (byte d)" and ps: "readable_parts t ps"
    using Cons.prems(2) by (auto simp: readable_parts_def)
  let ?w = "part_owner c t f (part_kind p) ?run nm"
  note red = Cons.prems(1) [unfolded read_parts.simps Let_def]
  consider (kept) "owner = Some w" | (ends) "?run \<noteq> []" "?after = []" "complete" "w = ?w"
    | (goes) "?run \<noteq> []" "?after \<noteq> []" "has_prefix ?after (part_delimiter p)"
        "read_parts c t f complete ps (drop (length (part_delimiter p)) ?after) (if part_kind p = KindID then nm else ?run) (Some ?w) = (Some w, opened, fits)"
    using red by (auto split: if_splits)
  then show ?case
  proof cases
    case kept
    then show ?thesis by simp
  next
    case ends
    then show ?thesis using assms(3) by (simp add: Let_def)
  next
    case goes
    have x: "owner_run t (rest @ x) = ?run" "drop (length ?run) (rest @ x) = ?after @ x"
      using closed_run [OF d goes(3)] by auto
    have px: "has_prefix (?after @ x) (part_delimiter p)" using goes(3) by (auto elim: has_prefixE)
    have dx: "drop (length (part_delimiter p)) (?after @ x) = drop (length (part_delimiter p)) ?after @ x"
      using goes(2) d(1) by (cases ?after) simp_all
    show ?thesis using Cons.IH [OF goes(4) ps] goes(1,2) px unfolding part_names.simps Let_def x dx by auto
  qed
qed auto

text \<open>A form that fits a whole subject fits every beginning of it that ends between two runes.\<close>

lemma read_parts_fits:
  assumes "snd (snd (read_parts c t f True ps (rest @ x) nm owner))" "readable_parts t ps" "valid_string rest"
  shows "snd (snd (read_parts c t f False ps rest nm' owner'))"
  using assms
proof (induction ps arbitrary: rest nm owner nm' owner')
  case (Cons p ps)
  let ?run = "owner_run t rest" and ?after = "drop (length (owner_run t rest)) rest"
  obtain d where d: "part_delimiter p = [d]" "byte d < 128" "\<not> allows t (byte d)" and ps: "readable_parts t ps"
    using Cons.prems(2) by (auto simp: readable_parts_def)
  show ?case
  proof (cases "?after = []")
    case False
    have le: "length ?run \<le> length rest" using owner_run_after [of rest t] by (metis le_add1 length_append)
    have "?run \<noteq> rest" using False by (metis drop_all order_refl)
    then have run: "owner_run t (rest @ x) = ?run" by (rule owner_run_valid [OF Cons.prems(3)])
    have after: "drop (length ?run) (rest @ x) = ?after @ x" using le by simp
    obtain b y where a: "?after = b # y" using False by (cases ?after) auto
    have fit: "snd (snd (read_parts c t f True (p # ps) (rest @ x) nm owner))" by (rule Cons.prems(1))
    then have pre: "b = d" unfolding read_parts.simps Let_def run after a by (simp add: d(1) has_prefix_def split: if_splits)
    show ?thesis
    proof (cases "?run = []")
      case True
      then show ?thesis using False a pre by (simp add: Let_def d(1) has_prefix_def)
    next
      case ne: False
      have "snd (snd (read_parts c t f True ps (y @ x) (if part_kind p = KindID then nm else ?run) (Some (part_owner c t f (part_kind p) ?run nm))))"
        using fit ne unfolding read_parts.simps Let_def run after a by (simp add: d(1) pre has_prefix_def)
      moreover have "valid_string y"
        using Cons.prems(3) owner_run_after [of rest t] valid_at_ascii [OF d(2), of ?run y] a pre by simp
      ultimately have "snd (snd (read_parts c t f False ps y (if part_kind p = KindID then nm' else ?run) (Some (part_owner c t f (part_kind p) ?run nm'))))"
        using Cons.IH [OF _ ps] by blast
      then show ?thesis using ne unfolding read_parts.simps Let_def a by (simp add: d(1) pre has_prefix_def)
    qed
  qed (simp add: Let_def)
qed simp

section \<open>Forms\<close>

lemma valid_ascii_append: "list_all (\<lambda>c. byte c < 128) l \<Longrightarrow> valid_string (l @ y) = valid_string y"
proof (induction l)
  case (Cons c l)
  then show ?case using valid_at_ascii [of c "[]" "l @ y"] by simp
qed simp

lemma read_form_names:
  assumes "read_form c t f u complete = (Some w, opened, fits)" "ascii_parts (form_parts f)" "complete \<longrightarrow> x = []"
  shows "subject_names t f (u @ x) w"
proof -
  let ?l = "form_lead f"
  have r: "readable_form t f" "leads u ?l complete" "length ?l \<le> length u"
    "read_parts c t f complete (form_parts f) (drop (length ?l) u) [] None = (Some w, opened, fits)"
    using assms(1) by (auto simp: read_form_def split: if_splits)
  have "has_prefix u ?l" using r(2,3) by (auto simp: leads_def has_prefix_def prefix_def)
  then obtain y where u: "u = ?l @ y" by (rule has_prefixE)
  have "owner_scope w = form_scope f \<and> part_names t (form_parts f) (y @ x) (owner_kind w) (owner_value w)"
    using read_parts_names [OF r(4) readable_form_parts [OF r(1) assms(2)] assms(3)] u by simp
  then show ?thesis by (simp add: subject_names_def u)
qed

lemma read_form_fits:
  assumes "snd (snd (read_form c t f (u @ x) True))" "ascii_form f" "valid_string u"
  shows "snd (snd (read_form c t f u False))"
proof (cases "length u < length (form_lead f) \<or> \<not> readable_form t f")
  case True
  have "has_prefix (u @ x) (form_lead f)" using assms(1) by (auto simp: read_form_def leads_def split: if_splits)
  then have "leads u (form_lead f) False"
    using has_prefix_comparable [of "u @ x" u "form_lead f"] by (auto simp: leads_def)
  then show ?thesis using True by (simp add: read_form_def)
next
  case False
  let ?l = "form_lead f"
  have "has_prefix (u @ x) ?l" using assms(1) by (auto simp: read_form_def leads_def split: if_splits)
  then have "has_prefix u ?l" using False has_prefix_comparable [of "u @ x" u ?l] by (auto simp: has_prefix_def prefix_def)
  then obtain y where u: "u = ?l @ y" by (rule has_prefixE)
  have y: "valid_string y" using assms(2,3) u valid_ascii_append [of ?l y] by (simp add: ascii_form_def)
  have "snd (snd (read_parts c t f True (form_parts f) (y @ x) [] None))"
    using assms(1) False u by (auto simp: read_form_def leads_def split: if_splits)
  then have "snd (snd (read_parts c t f False (form_parts f) y [] None))"
    using read_parts_fits y readable_form_parts assms(2) False by (auto simp: ascii_form_def)
  then show ?thesis using False by (simp add: read_form_def leads_def u)
qed

lemma form_owners_Some:
  assumes "form_owners c t u complete fs = Some ws"
  shows "w \<in> set ws \<Longrightarrow> \<exists>f \<in> set fs. \<exists>opened fits. read_form c t f u complete = (Some w, opened, fits)"
    and "f \<in> set fs \<Longrightarrow> snd (snd (read_form c t f u complete)) \<Longrightarrow> \<exists>w \<in> set ws. \<exists>opened fits. read_form c t f u complete = (Some w, opened, fits)"
  using assms
proof (induction fs arbitrary: ws)
  case (Cons g gs)
  obtain owner opened fits where r: "read_form c t g u complete = (owner, opened, fits)" by (metis prod_cases3)
  {
    case 1
    then show ?case using Cons.IH(1) r by (cases fits; cases owner) (fastforce split: option.splits)+
  next
    case 2
    then show ?case using Cons.IH(2) r by (cases fits; cases owner) (fastforce split: option.splits)+
  }
qed auto

text \<open>The owners of W a subject v names: some form names one, and whichever form can read v names one.\<close>

definition subject_vouches :: "classifier \<Rightarrow> tenancy \<Rightarrow> string \<Rightarrow> tenant_owner set \<Rightarrow> bool" where
  "subject_vouches c t v W \<longleftrightarrow>
     (\<exists>w \<in> W. \<exists>f \<in> set (subject_forms t). subject_names t f v w) \<and>
     (\<forall>f \<in> set (subject_forms t). snd (snd (read_form c t f v True)) \<longrightarrow> (\<exists>w \<in> W. subject_names t f v w))"

lemma subject_vouches_mono: "subject_vouches c t v W \<Longrightarrow> W \<subseteq> W' \<Longrightarrow> subject_vouches c t v W'"
  unfolding subject_vouches_def by blast

lemma subject_owners_vouch:
  assumes "ascii_census t" "subject_owners c t u complete \<noteq> []" "complete \<longrightarrow> x = []" "complete \<or> valid_string u"
  shows "subject_vouches c t (u @ x) (set (subject_owners c t u complete))"
proof -
  obtain ws where ws: "form_owners c t u complete (subject_forms t) = Some ws" "subject_owners c t u complete = ws"
    using assms(2) by (auto simp: subject_owners_def split: if_splits option.splits)
  have asc: "f \<in> set (subject_forms t) \<Longrightarrow> ascii_form f" for f using assms(1) by (simp add: ascii_census_def list_all_iff)
  have named: "\<exists>f \<in> set (subject_forms t). subject_names t f (u @ x) w" if w: "w \<in> set ws" for w
  proof -
    obtain f opened fits where f: "f \<in> set (subject_forms t)" "read_form c t f u complete = (Some w, opened, fits)"
      using form_owners_Some(1) [OF ws(1) w] by blast
    then show ?thesis using read_form_names [OF f(2) _ assms(3)] asc by (auto simp: ascii_form_def)
  qed
  have every: "\<exists>w \<in> set ws. subject_names t f (u @ x) w" if f: "f \<in> set (subject_forms t)" and full: "snd (snd (read_form c t f (u @ x) True))" for f
  proof -
    have "snd (snd (read_form c t f u complete))"
      using full assms(3,4) read_form_fits [of c t f u x] asc [OF f] by (cases complete) auto
    then obtain w opened fits where w: "w \<in> set ws" "read_form c t f u complete = (Some w, opened, fits)"
      using form_owners_Some(2) [OF ws(1) f] by blast
    then show ?thesis using read_form_names [OF w(2) _ assms(3)] asc [OF f] by (auto simp: ascii_form_def)
  qed
  have "\<exists>w. w \<in> set ws" using assms(2) ws(2) by (cases ws) auto
  then show ?thesis unfolding subject_vouches_def ws(2) using named every by blast
qed

lemma valid_literal_prefix: "valid_string (literal_prefix p)"
proof (induction p rule: literal_prefix.induct)
  case (1 p)
  show ?case
  proof (cases "p = []")
    case False
    obtain r n where d: "decode_rune p = (r, n)" by fastforce
    show ?thesis
    proof (cases "r = star \<or> r = quest \<or> r = rune_error")
      case True
      then show ?thesis using literal_prefix_stop [OF False d] by simp
    next
      case no: False
      then have e: "encode_rune r = take n p" using encode_decode [OF d False] by blast
      have "valid_string (literal_prefix (drop n p))" using "1.IH" [OF False] d no by auto
      then have "valid_string (encode_rune r @ literal_prefix (drop n p))" using valid_encode_rune [OF decode_valid [OF d]] by simp
      then show ?thesis using literal_prefix_step [OF False d no] e by simp
    qed
  qed simp
qed

lemma subject_value_vouches:
  assumes "ascii_census t" "conf_owners (subject_value c t v) \<noteq> []"
  shows "subject_vouches c t v (set (conf_owners (subject_value c t v)))"
proof -
  obtain x where x: "v = literal_prefix v @ x" using literal_prefix_prefix [of v] by (auto elim: has_prefixE)
  consider "subject_value c t v = confined_to (subject_owners c t v True)" | "subject_value c t v = (confined_to (subject_owners c t v True))\<lparr>conf_bounded := True\<rparr>"
    | "subject_value c t v = (confined_to (subject_owners c t (literal_prefix v) False))\<lparr>conf_bounded := True\<rparr>"
    unfolding subject_value_def by metis
  then show ?thesis
  proof cases
    case 3
    then show ?thesis using subject_owners_vouch [OF assms(1), of c "literal_prefix v" False x] assms(2) valid_literal_prefix x
      by (simp add: confined_to_def)
  qed (use subject_owners_vouch [OF assms(1), of c v True "[]"] assms(2) in \<open>simp_all add: confined_to_def\<close>)
qed

section \<open>Constraints\<close>

text \<open>
  What the readers of a claim promise: R holds of a value and the owners it is confined to, and of
  more owners too. Reading a whole constraint keeps the promise for every value the constraint admits.
\<close>

locale confining =
  fixes R :: "string \<Rightarrow> tenant_owner set \<Rightarrow> bool"
    and val :: "string \<Rightarrow> confinement"
    and pre :: "(string \<Rightarrow> tenant_owner list) option"
  assumes mono: "R v W \<Longrightarrow> W \<subseteq> W' \<Longrightarrow> R v W'"
    and value_reads: "conf_owners (val v) \<noteq> [] \<Longrightarrow> R v (set (conf_owners (val v)))"
    and prefix_reads: "pre = Some p \<Longrightarrow> p (literal_prefix u) \<noteq> [] \<Longrightarrow> has_prefix v (literal_prefix u) \<Longrightarrow> R v (set (p (literal_prefix u)))"
begin

lemma union_owners:
  assumes "conf_owners (union_confinement ms read bound) \<noteq> []" "bound \<noteq> None \<longrightarrow> conf_owners (the bound) = []"
  shows "bound = None \<and> conf_owners (union_confinement ms read bound) = conf_owners read @ concat (map conf_owners ms) \<and> (\<forall>m \<in> set ms. conf_owners m \<noteq> [])"
  using assms
proof (induction ms arbitrary: read bound)
  case Nil
  then show ?case by (auto split: option.splits)
next
  case (Cons m ms)
  have "\<not> (conf_owners m = [] \<and> \<not> conf_bounded m)"
  proof
    assume "conf_owners m = [] \<and> \<not> conf_bounded m"
    then show False using Cons.prems(1) by simp
  qed
  let ?read = "read\<lparr>conf_owners := conf_owners read @ conf_owners m, conf_bounded := conf_bounded read \<or> conf_bounded m\<rparr>"
  let ?bound = "if conf_owners m = [] \<and> bound = None then Some m else bound"
  have e: "union_confinement (m # ms) read bound = union_confinement ms ?read ?bound"
    unfolding union_confinement.simps by (rule if_not_P) fact
  have b: "?bound \<noteq> None \<longrightarrow> conf_owners (the ?bound) = []" using Cons.prems(2) by simp
  have "?bound = None \<and> conf_owners (union_confinement ms ?read ?bound) = conf_owners ?read @ concat (map conf_owners ms) \<and> (\<forall>m \<in> set ms. conf_owners m \<noteq> [])"
    by (rule Cons.IH [OF Cons.prems(1) [unfolded e] b])
  then show ?case unfolding e by (cases "conf_owners m = []"; cases bound) simp_all
qed

lemma union_unread:
  "\<forall>m \<in> set ms. conf_unread m \<longrightarrow> conf_owners m = [] \<Longrightarrow> \<not> conf_unread read \<Longrightarrow> bound \<noteq> None \<longrightarrow> conf_owners (the bound) = [] \<Longrightarrow>
    conf_unread (union_confinement ms read bound) \<Longrightarrow> conf_owners (union_confinement ms read bound) = []"
  by (induction ms arbitrary: read bound) (auto split: option.splits if_splits)

lemma intersection_owners:
  "conf_owners unread = [] \<Longrightarrow> (\<forall>m \<in> set ms. conf_unread m \<longrightarrow> conf_owners m = []) \<Longrightarrow>
    conf_owners (intersection_confinement ms ws unread) = ws @ concat (map conf_owners ms)"
  by (induction ms arbitrary: ws unread) (auto simp: confined_to_def)

lemma intersection_unread:
  "conf_owners unread = [] \<Longrightarrow> (\<forall>m \<in> set ms. conf_unread m \<longrightarrow> conf_owners m = []) \<Longrightarrow>
    conf_unread (intersection_confinement ms ws unread) \<Longrightarrow> conf_owners (intersection_confinement ms ws unread) = []"
  by (induction ms arbitrary: ws unread) (auto simp: confined_to_def no_confinement_def split: if_splits)

lemma unread_owners:
  "\<forall>x. conf_unread (val x) \<longrightarrow> conf_owners (val x) = [] \<Longrightarrow> conf_unread (confine_shape s val pre) \<Longrightarrow> conf_owners (confine_shape s val pre) = []"
proof (induction s)
  case (Shape k x ms)
  let ?cs = "map (\<lambda>m. confine_shape m val pre) ms"
  have ur: "\<forall>m \<in> set ?cs. conf_unread m \<longrightarrow> conf_owners m = []" using Shape by auto
  show ?case
    using Shape.prems union_unread [OF ur, of no_confinement None] intersection_unread [OF _ ur, of no_confinement "[]"]
    by (cases k) (auto simp: unread_for_def confined_to_def no_confinement_def split: option.splits)
qed

lemma shape_reads:
  assumes "shape_admits s v" "conf_owners (confine_shape s val pre) \<noteq> []" "\<forall>x. conf_unread (val x) \<longrightarrow> conf_owners (val x) = []"
  shows "R v (set (conf_owners (confine_shape s val pre)))"
  using assms(1,2)
proof (induction s)
  case (Shape k x ms)
  show ?case
  proof (cases k)
    case ShapeExact
    then show ?thesis using Shape.prems value_reads by simp
  next
    case ShapeGlob
    then obtain p where p: "pre = Some p" "p (literal_prefix x) \<noteq> []"
      using Shape.prems(2) by (auto simp: unread_for_def no_confinement_def confined_to_def split: option.splits)
    have "contains (Glob x) v" using Shape.prems(1) ShapeGlob by simp
    then have "has_prefix v (literal_prefix x)" using literal_prefix_match literal_prefix_prefix [of x] by (auto simp: glob_pattern_contains split: if_splits)
    then show ?thesis using prefix_reads [OF p] ShapeGlob p by (simp add: confined_to_def)
  next
    case ShapeUnion
    obtain m where m: "m \<in> set ms" "shape_admits m v" using Shape.prems(1) ShapeUnion by (auto simp: list_ex_iff)
    let ?cs = "map (\<lambda>m. confine_shape m val pre) ms"
    have none: "conf_owners no_confinement = []" by (simp add: no_confinement_def)
    have ne: "conf_owners (union_confinement ?cs no_confinement None) \<noteq> []" using Shape.prems(2) ShapeUnion by simp
    have u: "conf_owners (union_confinement ?cs no_confinement None) = concat (map conf_owners ?cs)" "\<forall>c \<in> set ?cs. conf_owners c \<noteq> []"
      using union_owners [OF ne] unfolding none by simp_all
    have "R v (set (conf_owners (confine_shape m val pre)))" using Shape.IH [OF m] u(2) m(1) by simp
    then show ?thesis by (rule mono) (use m(1) u(1) ShapeUnion in auto)
  next
    case ShapeIntersection
    let ?cs = "map (\<lambda>m. confine_shape m val pre) ms"
    have ur: "\<forall>c \<in> set ?cs. conf_unread c \<longrightarrow> conf_owners c = []"
      using unread_owners [OF assms(3)] by auto
    have none: "conf_owners no_confinement = []" by (simp add: no_confinement_def)
    have i: "conf_owners (intersection_confinement ?cs [] no_confinement) = concat (map conf_owners ?cs)"
      unfolding intersection_owners [OF none ur] by simp
    then obtain m where m: "m \<in> set ms" "conf_owners (confine_shape m val pre) \<noteq> []" using Shape.prems(2) ShapeIntersection by auto
    have "shape_admits m v" using Shape.prems(1) ShapeIntersection m(1) by (auto simp: list_all_iff)
    then have "R v (set (conf_owners (confine_shape m val pre)))" using Shape.IH [OF m(1)] m(2) by simp
    then show ?thesis by (rule mono) (use m(1) i ShapeIntersection in auto)
  qed (use Shape.prems in \<open>simp_all add: unread_for_def no_confinement_def\<close>)
qed

text \<open>A claim confined to owners is present in every token the term admits, with a value of theirs.\<close>

lemma confine_reads:
  assumes "good_term trm" "term_admits token trm" "conf_owners (confine c trm claim val pre) \<noteq> []" "\<forall>x. conf_unread (val x) \<longrightarrow> conf_owners (val x) = []"
  shows "\<exists>v. token claim = Some v \<and> R v (set (conf_owners (confine c trm claim val pre)))"
proof -
  let ?read = "case map_of trm claim of Some s \<Rightarrow> confine_shape (shape_of s) val pre | None \<Rightarrow> no_confinement"
  have e: "confine c trm claim val pre = ?read"
    using assms(3) by (auto simp: confine_def Let_def unread_for_def no_confinement_def split: if_splits)
  then obtain s where s: "map_of trm claim = Some s" using assms(3) by (cases "map_of trm claim") (simp_all add: no_confinement_def)
  then have mem: "(claim, s) \<in> set trm" by (rule map_of_SomeD)
  have w: "wf_set s" "satisfies s (token claim)" using assms(1,2) mem by (auto simp: good_term_def term_admits_def)
  have "\<not> is_top s" using assms(3) e s by (cases s) (auto simp: unread_for_def no_confinement_def)
  then obtain v where v: "token claim = Some v" "contains s v" using w(2) by (cases "token claim") (auto simp: satisfies_def)
  then have "R v (set (conf_owners ?read))" using shape_reads [OF _ _ assms(4)] shape_contains [OF w(1)] e s assms(3) by simp
  then show ?thesis using v(1) e by auto
qed

end

section \<open>The three readers of the code\<close>

text \<open>An AWS principal's claim vouches for the tenant its value names.\<close>

definition aws_vouches :: "claim_key \<Rightarrow> string \<Rightarrow> tenant_owner set \<Rightarrow> bool" where
  "aws_vouches claim v W \<longleftrightarrow>
     (\<exists>w \<in> W. \<exists>t. tenant_of_value claim v = Some t \<and> aws_scope t = Some (owner_scope w) \<and> owner_value w = tenant_id t)"

text \<open>A claim the census lists vouches for the owner its value is.\<close>

definition claim_vouches :: "tenancy_claim \<Rightarrow> string \<Rightarrow> tenant_owner set \<Rightarrow> bool" where
  "claim_vouches claim v W \<longleftrightarrow>
     (\<exists>w \<in> W. owner_value w = v \<and> owner_scope w = claim_scope claim \<and> owner_kind w = claim_kind claim)"

lemma settled_prefix: "tenant_of_prefix claim pre = Some t \<Longrightarrow> tenant_of_value claim (pre @ x) = Some t"
proof -
  assume "tenant_of_prefix claim pre = Some t"
  then obtain fs where fs: "arn_fields pre = Some fs" "claim = arnClaim" "is_account_id (fs ! 4)" "t = \<lparr>tenant_scope = AccountScope, tenant_id = fs ! 4\<rparr>"
    by (auto simp: tenant_of_prefix_def split: option.splits if_splits)
  obtain gs where gs: "arn_fields (pre @ x) = Some gs" "gs ! 4 = fs ! 4" by (rule arn_fields_append [OF fs(1)])
  have "claim \<noteq> accountClaim" "claim \<noteq> orgClaim" using fs(2) by (simp_all add: arnClaim_def accountClaim_def orgClaim_def)
  then show ?thesis using fs gs by (simp add: tenant_of_value_def tenant_of_prefix_def)
qed

lemma aws_owner_fields:
  "w \<in> set (aws_owner c got) \<Longrightarrow> \<exists>t. got = Some t \<and> aws_scope t = Some (owner_scope w) \<and> owner_value w = tenant_id t"
  by (auto simp: aws_owner_def split: option.splits)

lemma nonempty_member: "xs \<noteq> [] \<Longrightarrow> \<exists>x. x \<in> set xs"
  by (cases xs) auto

interpretation aws_reader: confining "aws_vouches claim" "exactly (\<lambda>v. aws_owner c (tenant_of_value claim v))" "Some (\<lambda>p. aws_owner c (tenant_of_prefix claim p))"
  for claim c
proof
  show "aws_vouches claim v W \<Longrightarrow> W \<subseteq> W' \<Longrightarrow> aws_vouches claim v W'" for v W W' unfolding aws_vouches_def by blast
  show "aws_vouches claim v (set (conf_owners (exactly (\<lambda>v. aws_owner c (tenant_of_value claim v)) v)))"
    if "conf_owners (exactly (\<lambda>v. aws_owner c (tenant_of_value claim v)) v) \<noteq> []" for v
    using nonempty_member [OF that] aws_owner_fields by (force simp: aws_vouches_def exactly_def confined_to_def)
  show "aws_vouches claim v (set (p (literal_prefix u)))"
    if p: "Some (\<lambda>p. aws_owner c (tenant_of_prefix claim p)) = Some p" "p (literal_prefix u) \<noteq> []" "has_prefix v (literal_prefix u)" for p u v
  proof -
    have pe: "p = (\<lambda>p. aws_owner c (tenant_of_prefix claim p))" using p(1) by simp
    obtain w t where w: "w \<in> set (p (literal_prefix u))" "tenant_of_prefix claim (literal_prefix u) = Some t" "aws_scope t = Some (owner_scope w)" "owner_value w = tenant_id t"
      using nonempty_member [OF p(2)] aws_owner_fields [of _ c "tenant_of_prefix claim (literal_prefix u)"] unfolding pe by blast
    have "tenant_of_value claim v = Some t" using p(3) settled_prefix [OF w(2)] by (auto elim: has_prefixE)
    then show ?thesis using w unfolding aws_vouches_def by blast
  qed
qed

interpretation claim_reader: confining "claim_vouches claim" "exactly (claim_owner c t claim)" "pattern_on claim" for claim c t
proof
  show "claim_vouches claim v W \<Longrightarrow> W \<subseteq> W' \<Longrightarrow> claim_vouches claim v W'" for v W W' unfolding claim_vouches_def by blast
  show "claim_vouches claim v (set (conf_owners (exactly (claim_owner c t claim) v)))" if "conf_owners (exactly (claim_owner c t claim) v) \<noteq> []" for v
    using that by (auto simp: claim_vouches_def exactly_def confined_to_def claim_owner_def split: if_splits)
  show "claim_vouches claim v (set (p (literal_prefix u)))" if "pattern_on claim = Some p" "p (literal_prefix u) \<noteq> []" for p u v
    using that by (auto simp: pattern_on_def no_owner_def split: if_splits)
qed

text \<open>The reader of subjects keeps its promise for the censuses whose forms are ASCII.\<close>

definition subject_vouches_if :: "classifier \<Rightarrow> tenancy \<Rightarrow> string \<Rightarrow> tenant_owner set \<Rightarrow> bool" where
  "subject_vouches_if c t v W \<longleftrightarrow> (ascii_census t \<longrightarrow> subject_vouches c t v W)"

interpretation subject_reader: confining "subject_vouches_if c t" "subject_value c t" "Some (\<lambda>p. subject_owners c t p False)" for c t
proof
  show "subject_vouches_if c t v W \<Longrightarrow> W \<subseteq> W' \<Longrightarrow> subject_vouches_if c t v W'" for v W W'
    unfolding subject_vouches_if_def using subject_vouches_mono by blast
  show "subject_vouches_if c t v (set (conf_owners (subject_value c t v)))" if "conf_owners (subject_value c t v) \<noteq> []" for v
    unfolding subject_vouches_if_def using subject_value_vouches that by blast
  show "subject_vouches_if c t v (set (p (literal_prefix u)))"
    if p: "Some (\<lambda>p. subject_owners c t p False) = Some p" "p (literal_prefix u) \<noteq> []" "has_prefix v (literal_prefix u)" for p u v
  proof -
    obtain x where "v = literal_prefix u @ x" using p(3) by (rule has_prefixE)
    then show ?thesis using subject_owners_vouch [of t c "literal_prefix u" False x] p(1,2) valid_literal_prefix by (auto simp: subject_vouches_if_def)
  qed
qed

section \<open>Readings\<close>

text \<open>A reading holds for a token when each pin vouches for the token.\<close>

definition holds_for :: "(tenant_owner set \<Rightarrow> bool) \<Rightarrow> reading \<Rightarrow> bool" where
  "holds_for V r \<longleftrightarrow> (\<forall>pin \<in> set (reading_pins r). V (set pin))"

lemma holds_for_none [simp]: "holds_for V no_reading"
  by (simp add: holds_for_def no_reading_def)

lemma holds_for_add: "holds_for V r \<Longrightarrow> (conf_owners cf \<noteq> [] \<Longrightarrow> V (set (conf_owners cf))) \<Longrightarrow> holds_for V (add_reading cf r)"
  by (auto simp: holds_for_def add_reading_def Let_def)

lemma holds_for_fold: "holds_for V r \<Longrightarrow> (\<And>x r. x \<in> set xs \<Longrightarrow> holds_for V r \<Longrightarrow> holds_for V (step x r)) \<Longrightarrow> holds_for V (fold step xs r)"
  by (induction xs arbitrary: r) auto

text \<open>The token of an issuer vouches for some owner of W.\<close>

definition shared_vouches :: "classifier \<Rightarrow> tenancy \<Rightarrow> token \<Rightarrow> tenant_owner set \<Rightarrow> bool" where
  "shared_vouches c t token W \<longleftrightarrow>
     (\<exists>claim \<in> set (census_claims t). claim_scope claim \<noteq> ScopeNone \<and> \<not> names_no_tenant t (tenancy_claim_key claim) \<and>
       (\<exists>v. token (tenancy_claim_key claim) = Some v \<and> claim_vouches claim v W)) \<or>
     (\<exists>v. token subject_claim_key = Some v \<and> subject_vouches c t v W)"

definition principal_vouches :: "token \<Rightarrow> tenant_owner set \<Rightarrow> bool" where
  "principal_vouches token W \<longleftrightarrow> (\<exists>claim \<in> set tenancy_claims. \<exists>v. token claim = Some v \<and> aws_vouches claim v W)"

definition vouches :: "classifier \<Rightarrow> token \<Rightarrow> tenant_owner set \<Rightarrow> bool" where
  "vouches c token W \<longleftrightarrow>
     (if grant_issuer (classifier_grant c) = AWSPrincipalIssuer then principal_vouches token W
      else case facts_tenancy (classifier_facts c) of None \<Rightarrow> False | Some t \<Rightarrow> shared_vouches c t token W)"

lemma unread_never_owned: "conf_unread (exactly f x) \<longrightarrow> conf_owners (exactly f x) = []" "conf_unread (subject_value c t x) \<longrightarrow> conf_owners (subject_value c t x) = []"
  by (simp_all add: exactly_def confined_to_def no_confinement_def subject_value_def)

lemma claim_reading_holds:
  assumes "good_term trm" "term_admits token trm"
  shows "holds_for (shared_vouches c t token) (claim_reading c trm t)"
  unfolding claim_reading_def
proof (rule holds_for_fold)
  fix claim r
  assume m: "claim \<in> set (census_claims t)" and r: "holds_for (shared_vouches c t token) r"
  let ?cf = "confine c trm (tenancy_claim_key claim) (exactly (claim_owner c t claim)) (pattern_on claim)"
  have "shared_vouches c t token (set (conf_owners ?cf))"
    if "conf_owners ?cf \<noteq> []" "\<not> (claim_scope claim = ScopeNone \<or> names_no_tenant t (tenancy_claim_key claim))"
    using claim_reader.confine_reads [OF assms that(1)] unread_never_owned m that(2) unfolding shared_vouches_def by blast
  then show "holds_for (shared_vouches c t token)
      (if claim_scope claim = ScopeNone \<or> names_no_tenant t (tenancy_claim_key claim) then r else add_reading ?cf r)"
    using r holds_for_add by simp
qed simp

lemma read_subject_holds:
  assumes "good_term trm" "term_admits token trm" "ascii_census t" "conf_owners (read_subject c trm t) \<noteq> []"
  shows "shared_vouches c t token (set (conf_owners (read_subject c trm t)))"
proof -
  let ?cf = "confine c trm subject_claim_key (subject_value c t) (Some (\<lambda>p. subject_owners c t p False))"
  have e: "conf_owners (read_subject c trm t) = conf_owners ?cf"
    using assms(4) by (auto simp: read_subject_def Let_def unread_for_def no_confinement_def split: option.splits if_splits)
  then show ?thesis
    using subject_reader.confine_reads [OF assms(1,2), of c subject_claim_key c t] assms(3,4) unread_never_owned
    unfolding shared_vouches_def subject_vouches_if_def by auto
qed

lemma aws_reading_holds:
  assumes "good_term trm" "term_admits token trm"
  shows "holds_for (principal_vouches token) (fold (\<lambda>claim. add_reading (confine c trm claim
         (exactly (\<lambda>v. aws_owner c (tenant_of_value claim v))) (Some (\<lambda>p. aws_owner c (tenant_of_prefix claim p))))) tenancy_claims no_reading)"
proof (rule holds_for_fold)
  fix claim r
  assume m: "claim \<in> set tenancy_claims" and r: "holds_for (principal_vouches token) r"
  let ?cf = "confine c trm claim (exactly (\<lambda>v. aws_owner c (tenant_of_value claim v))) (Some (\<lambda>p. aws_owner c (tenant_of_prefix claim p)))"
  have "principal_vouches token (set (conf_owners ?cf))" if "conf_owners ?cf \<noteq> []"
    using aws_reader.confine_reads [OF assms that] unread_never_owned(1) m unfolding principal_vouches_def by blast
  then show "holds_for (principal_vouches token) (add_reading ?cf r)" using r holds_for_add by blast
qed simp

section \<open>Pinned populations\<close>

lemma mark_fields [simp]:
  "owner_scope (mark_declared c w) = owner_scope w" "owner_kind (mark_declared c w) = owner_kind w" "owner_value (mark_declared c w) = owner_value w"
  "owner_declared (mark_declared c w) = covered c w"
  by (simp_all add: mark_declared_def)

lemma vouches_marked: "vouches c token W \<Longrightarrow> mark_declared c' ` W \<subseteq> W' \<Longrightarrow> vouches c token W'"
proof -
  assume v: "vouches c token W" and sub: "mark_declared c' ` W \<subseteq> W'"
  have aws: "aws_vouches claim x W \<Longrightarrow> aws_vouches claim x W'" for claim x
    unfolding aws_vouches_def using sub mark_fields by (metis imageI subsetD)
  have claims: "claim_vouches claim x W \<Longrightarrow> claim_vouches claim x W'" for claim x
    unfolding claim_vouches_def using sub mark_fields by (metis imageI subsetD)
  have names: "subject_names t f x (mark_declared c' w) = subject_names t f x w" for t f x w by (simp add: subject_names_def)
  have some: "\<exists>w \<in> W. subject_names t f x w \<Longrightarrow> \<exists>w \<in> W'. subject_names t f x w" for t f x
    using sub names by blast
  have subj: "subject_vouches c t x W \<Longrightarrow> subject_vouches c t x W'" for t x
    unfolding subject_vouches_def using some by blast
  show ?thesis using v aws claims subj unfolding vouches_def principal_vouches_def shared_vouches_def
    by (auto split: if_splits option.splits)
qed

lemma decide_pinned:
  assumes "population_basis (decide c r) = Pinned" "reading_unread r \<longrightarrow> reading_doubt r \<noteq> Pinned"
  shows "reading_pins r \<noteq> [] \<and> decide c r = bounded_in r (pinned c (reading_pins r) Pinned)"
  using assms by (auto simp: decide_def split: if_splits)

lemma pinned_declared: "population_place (pinned c pins b) = Yours \<Longrightarrow> \<exists>pin \<in> set pins. \<forall>w \<in> set pin. covered c w"
  by (auto simp: pinned_def Let_def list_ex_iff list_all_iff split: if_splits)

lemma pinned_vouches:
  assumes "holds_for (vouches c token) r" "reading_pins r \<noteq> []" "pop = bounded_in r (pinned c (reading_pins r) Pinned)"
  shows "vouches c token (set (population_owners pop))"
    and "population_place pop = Yours \<Longrightarrow> vouches c token {w \<in> set (population_owners pop). owner_declared w \<and> covered c w}"
proof -
  have owners: "set (population_owners pop) = {mark_declared c w | w. \<exists>pin \<in> set (reading_pins r). w \<in> set pin}"
    by (simp add: assms(3) pinned_fields)
  obtain pin where pin: "pin \<in> set (reading_pins r)" using assms(2) nonempty_member by blast
  show "vouches c token (set (population_owners pop))"
    by (rule vouches_marked [where c' = c]) (use pin assms(1) owners in \<open>auto simp: holds_for_def\<close>)
  assume "population_place pop = Yours"
  then obtain pin where p: "pin \<in> set (reading_pins r)" "\<forall>w \<in> set pin. covered c w"
    using pinned_declared [of c "reading_pins r" Pinned] by (auto simp: assms(3))
  have cov: "covered c (mark_declared c w) = covered c w" for w
    using covered_unmarked [of c "mark_declared c w"] covered_unmarked [of c w] by simp
  show "vouches c token {w \<in> set (population_owners pop). owner_declared w \<and> covered c w}"
    by (rule vouches_marked [where c' = c]) (use p assms(1) owners cov in \<open>auto simp: holds_for_def\<close>)
qed

text \<open>The doubts a reading can have are not a pin.\<close>

definition doubt_kept :: "reading \<Rightarrow> bool" where
  "doubt_kept r \<longleftrightarrow> (reading_unread r \<longrightarrow> reading_doubt r \<noteq> Pinned)"

lemma doubt_kept_none [simp]: "doubt_kept no_reading"
  by (simp add: doubt_kept_def no_reading_def)

lemma doubt_kept_add: "doubt_kept r \<Longrightarrow> (conf_unread cf \<longrightarrow> conf_doubt cf \<noteq> Pinned) \<Longrightarrow> doubt_kept (add_reading cf r)"
  by (auto simp: doubt_kept_def add_reading_def Let_def)

definition plain_doubt :: "confinement \<Rightarrow> bool" where
  "plain_doubt cf \<longleftrightarrow> (conf_unread cf \<longrightarrow> conf_doubt cf \<noteq> Pinned)"

lemma plain_doubts [simp]: "plain_doubt no_confinement" "plain_doubt (unread_for UnreadConstraint)" "plain_doubt (unread_for TenancyNotRecorded)" "plain_doubt (confined_to ws)"
  "plain_doubt (exactly f x)" "plain_doubt (subject_value c t x)" "plain_doubt (cf\<lparr>conf_starts := ss\<rparr>) = plain_doubt cf"
  by (simp_all add: plain_doubt_def no_confinement_def unread_for_def confined_to_def exactly_def subject_value_def)

lemma plain_union: "\<forall>m \<in> set ms. plain_doubt m \<Longrightarrow> plain_doubt read \<Longrightarrow> (\<forall>b. bound = Some b \<longrightarrow> plain_doubt b) \<Longrightarrow> plain_doubt (union_confinement ms read bound)"
proof (induction ms arbitrary: read bound)
  case (Cons m ms)
  have r: "plain_doubt (read\<lparr>conf_owners := x, conf_bounded := y\<rparr>)" for x y using Cons.prems(2) by (simp add: plain_doubt_def)
  show ?case
    unfolding union_confinement.simps by (simp only: if_distrib [of plain_doubt]) (use Cons.prems(1,3) Cons.IH [OF _ r] in \<open>auto split: if_splits\<close>)
qed (simp split: option.split)

lemma plain_intersection: "\<forall>m \<in> set ms. plain_doubt m \<Longrightarrow> plain_doubt unread \<Longrightarrow> plain_doubt (intersection_confinement ms ws unread)"
  by (induction ms arbitrary: ws unread) auto

lemma plain_shape: "(\<And>x. plain_doubt (val x)) \<Longrightarrow> plain_doubt (confine_shape s val pre)"
proof (induction s)
  case (Shape k x ms)
  then show ?case
    using plain_union [of "map (\<lambda>m. confine_shape m val pre) ms" no_confinement None] plain_intersection [of "map (\<lambda>m. confine_shape m val pre) ms" no_confinement "[]"]
    by (cases k) (auto split: option.split)
qed

lemma plain_confine: "(\<And>x. plain_doubt (val x)) \<Longrightarrow> plain_doubt (confine c trm claim val pre)"
  using plain_shape by (auto simp: confine_def Let_def split: option.split)

lemma plain_subject: "plain_doubt (read_subject c trm t)"
  using plain_confine [of "subject_value c t" c trm subject_claim_key] by (auto simp: read_subject_def Let_def split: option.split)

lemma doubt_kept_fold: "doubt_kept r \<Longrightarrow> (\<And>x r. doubt_kept r \<Longrightarrow> doubt_kept (step x r)) \<Longrightarrow> doubt_kept (fold step xs r)"
  by (induction xs arbitrary: r) auto

lemma doubt_kept_plain: "doubt_kept r \<Longrightarrow> plain_doubt cf \<Longrightarrow> doubt_kept (add_reading cf r)"
  using doubt_kept_add by (simp add: plain_doubt_def)

lemma doubts_kept: "doubt_kept (claim_reading c trm t)" "doubt_kept (fold (\<lambda>claim. add_reading (confine c trm claim (exactly (f claim)) (p claim))) xs no_reading)"
  by (auto simp: claim_reading_def intro!: doubt_kept_fold doubt_kept_plain plain_confine)

lemma oidc_pinned:
  assumes "population_basis (oidc_population c trm) = Pinned"
  shows "\<exists>t. facts_tenancy (classifier_facts c) = Some t \<and> oidc_population c trm = decide c (add_reading (read_subject c trm t) (claim_reading c trm t))"
  using assms by (auto simp: oidc_population_def Let_def shared_population_def tenant_population_def pinned_fields split: if_splits option.splits)

lemma place_term_pinned:
  assumes "pop \<in> set (place_term c trm)" "population_basis pop = Pinned" "good_term trm" "term_admits token trm"
    "\<forall>t. facts_tenancy (classifier_facts c) = Some t \<longrightarrow> ascii_census t"
  shows "vouches c token (set (population_owners pop))
    \<and> (population_place pop = Yours \<longrightarrow> vouches c token {w \<in> set (population_owners pop). owner_declared w \<and> covered c w})"
proof -
  let ?aws = "fold (\<lambda>claim. add_reading (confine c trm claim
      (exactly (\<lambda>v. aws_owner c (tenant_of_value claim v))) (Some (\<lambda>p. aws_owner c (tenant_of_prefix claim p))))) tenancy_claims no_reading"
  have "\<exists>r. pop = decide c r \<and> doubt_kept r \<and> holds_for (vouches c token) r"
  proof (cases "pop = aws_population_of c trm \<and> grant_issuer (classifier_grant c) = AWSPrincipalIssuer")
    case True
    then have v: "vouches c token = principal_vouches token" by (simp add: vouches_def fun_eq_iff)
    have "pop = decide c ?aws" using True by (simp only: aws_population_of_def)
    moreover have "doubt_kept ?aws" by (rule doubts_kept(2))
    moreover have "holds_for (vouches c token) ?aws" unfolding v by (rule aws_reading_holds [OF assms(3,4)])
    ultimately show ?thesis by (intro exI conjI)
  next
    case False
    then have pop: "pop = oidc_population c trm" "grant_issuer (classifier_grant c) \<noteq> AWSPrincipalIssuer"
      using assms(1,2) by (auto simp: place_term_def Let_def issuerless_places_def saml_provider_def service_population_def split: if_splits aws_population.splits)
    obtain t where t: "facts_tenancy (classifier_facts c) = Some t" "pop = decide c (add_reading (read_subject c trm t) (claim_reading c trm t))"
      using oidc_pinned assms(2) pop(1) by blast
    have "vouches c token = shared_vouches c t token" using pop(2) t(1) by (simp add: vouches_def fun_eq_iff)
    moreover have "holds_for (shared_vouches c t token) (add_reading (read_subject c trm t) (claim_reading c trm t))"
      using holds_for_add claim_reading_holds [OF assms(3,4)] read_subject_holds [OF assms(3,4)] assms(5) t(1) by blast
    ultimately show ?thesis using t(2) doubt_kept_plain [OF doubts_kept(1) plain_subject] by metis
  qed
  then obtain r where r: "pop = decide c r" "doubt_kept r" "holds_for (vouches c token) r" by blast
  then have "reading_pins r \<noteq> []" "pop = bounded_in r (pinned c (reading_pins r) Pinned)"
    using decide_pinned [of c r] assms(2) by (auto simp: doubt_kept_def)
  then show ?thesis using pinned_vouches [OF r(3)] by blast
qed

lemma classified_pin:
  assumes "built_set (grant_admits g)" "\<forall>t. facts_tenancy f = Some t \<longrightarrow> ascii_census t"
    "pop \<in> set (placement_populations (classify T g f ds))" "population_basis pop = Pinned"
    "term_admits token (admitted_terms (grant_admits g) ! population_term pop)"
  shows "vouches (the_classifier T g f ds) token (set (population_owners pop))
    \<and> (population_place pop = Yours \<longrightarrow>
        vouches (the_classifier T g f ds) token {w \<in> set (population_owners pop). owner_declared w \<and> covered (the_classifier T g f ds) w})"
proof -
  let ?c = "the_classifier T g f ds"
  obtain i q where q: "i < length (admitted_terms (grant_admits g))" "q \<in> set (place_term ?c (admitted_terms (grant_admits g) ! i))" "pop = in_term g i q"
    using classified_population(2) [OF assms(3)] unfolding populations_of_iff classifier.simps by blast
  have "good_term (admitted_terms (grant_admits g) ! i)"
    by (rule canonical_good [OF built_canonical [OF assms(1)]]) (use q(1) in simp)
  then show ?thesis using place_term_pinned [OF q(2)] q(3) assms(2,4,5) by simp
qed

section \<open>Properties\<close>

text \<open>
  C1: A pin confines. Where the classifier places an alternative of a grant at named owners because
  its claims pin them, every token the alternative admits is vouched for as one of them: a claim the
  census lists holds the owner's name or id, an AWS claim's value names its account or organisation,
  or the subject names it under a form of the census, and under every form that can read the
  subject. Where the population is the user's own, the owner so vouched for is one the user declared.
  The grant's set is taken to be built by package eval over claim names without an equals sign, and
  the census's forms to lead with ASCII text and to end each part with one ASCII character.
\<close>

theorem pinned_tokens_belong_to_owners:
  assumes "built_set (grant_admits g)" "\<forall>t. facts_tenancy f = Some t \<longrightarrow> ascii_census t" "grant_effect g \<noteq> Deny"
    "pop \<in> set (placement_populations (classify T g f ds))" "population_basis pop = Pinned"
    "term_admits token (admitted_terms (grant_admits g) ! population_term pop)"
  shows "vouches (the_classifier T g f ds) token (set (population_owners pop))
    \<and> (population_place pop = Yours \<longrightarrow>
        vouches (the_classifier T g f ds) token {w \<in> set (population_owners pop). owner_declared w \<and> covered (the_classifier T g f ds) w})"
  using classified_pin [OF assms(1,2,4-6)] .

theorem pinned_tokens_belong_to_owners_witness:
  "\<exists>pop \<in> set (placement_populations (classify tables_of_none (sample_grant (Glob ''repo:acme/*'')) sample_shared [github_owner ''acme'' []])).
     population_place pop = Yours \<and> vouches (the_classifier tables_of_none (sample_grant (Glob ''repo:acme/*'')) sample_shared [github_owner ''acme'' []])
       [''sub'' \<mapsto> ''repo:acme/x''] {w \<in> set (population_owners pop). owner_declared w \<and> covered (the_classifier tables_of_none (sample_grant (Glob ''repo:acme/*'')) sample_shared [github_owner ''acme'' []]) w}"
proof -
  let ?g = "sample_grant (Glob ''repo:acme/*'')" and ?ds = "[github_owner ''acme'' []]"
  let ?ps = "placement_populations (classify tables_of_none ?g sample_shared ?ds)"
  have b: "built_set (grant_admits ?g)"
    unfolding sample_grant_def grant.simps by (rule built_set.intros(1)) (auto simp: built_term_def good_key_def intro: built.intros)
  have a: "\<forall>t. facts_tenancy sample_shared = Some t \<longrightarrow> ascii_census t"
  proof -
    have "facts_tenancy sample_shared = Some sample_tenancy" by (simp add: sample_shared_def)
    moreover have "ascii_census sample_tenancy" by code_simp
    ultimately show ?thesis by simp
  qed
  have e: "grant_effect ?g \<noteq> Deny" "map population_place ?ps = [Yours]" "map population_basis ?ps = [Pinned]" "map population_term ?ps = [0]"
    "admitted_terms (grant_admits ?g) ! 0 = [(''sub'', Glob ''repo:acme/*'')]" "satisfies (Glob ''repo:acme/*'') (Some ''repo:acme/x'')"
    by code_simp+
  then obtain pop where pop: "?ps = [pop]" by (cases ?ps) auto
  have "term_admits [''sub'' \<mapsto> ''repo:acme/x''] (admitted_terms (grant_admits ?g) ! population_term pop)"
    using e(4-6) unfolding pop by (simp add: term_admits_def del: satisfies_def)
  then show ?thesis
    using pinned_tokens_belong_to_owners [OF b a e(1), of pop tables_of_none ?ds "[''sub'' \<mapsto> ''repo:acme/x'']"] e(2,3) unfolding pop by simp
qed

end
