(* ===== verification/Registry_Laws.thy ===== *)
theory Registry_Laws imports Report_Place Ring_Pins begin

text \<open>
  What the engine may take from the census. The copy of the last entry that the condition-key
  lookups keep never shows in an answer; an issuer the census does not hold vouches for nobody, so
  its grants land anyone; and where a pin names owners, the claim it rests on is one the census
  lists, of a kind and a scope the classifier knows, and one AWS reads under its own name alone.
\<close>

section \<open>The copy of the last entry\<close>

definition surveyed :: "census \<Rightarrow> string \<Rightarrow> tenancy_issuer option" where
  "surveyed C issuer = map_option fst (Option.bind (census_key issuer) (census_match C))"

text \<open>The caches the lookups leave behind, whatever issuers they are asked about and in whatever order.\<close>

inductive reached :: "census \<Rightarrow> key_cache \<Rightarrow> bool" for C where
  start: "reached C empty_cache"
| asked: "reached C k \<Longrightarrow> reached C (snd (key_entry C issuer k))"

lemma reached_holds: "reached C k \<Longrightarrow> cache_asked k \<Longrightarrow> cache_entry k = surveyed C (cache_issuer k)"
  by (induction rule: reached.induct) (auto simp: empty_cache_def key_entry_def surveyed_def Let_def split: if_splits)

lemma key_entry_answer: "reached C k \<Longrightarrow> fst (key_entry C issuer k) = surveyed C issuer"
  using reached_holds [of C k] by (auto simp: key_entry_def surveyed_def Let_def)

lemma key_entry_fields:
  "fst (documents_condition_key C issuer key k) = (case fst (key_entry C issuer k) of None \<Rightarrow> (False, False) | Some e \<Rightarrow> maps_condition_key e key)"
  "fst (documents_multivalued C issuer key k) = (case Option.bind (fst (key_entry C issuer k)) (\<lambda>e. aws_condition_key e key) of
     None \<Rightarrow> False | Some r \<Rightarrow> fst (key_multivalued r) \<and> snd (key_multivalued r))"
  "fst (reads_a_multi_valued_claim C issuer key k) = (case fst (key_entry C issuer k) of None \<Rightarrow> False
     | Some e \<Rightarrow> (case aws_condition_key e key of None \<Rightarrow> False
        | Some r \<Rightarrow> list_ex (\<lambda>claim. claim \<noteq> [] \<and> fst (claim_multi_valued e claim) \<and> snd (claim_multi_valued e claim)) [read_claim r, fallback_claim r]))"
  "fst (condition_key_claim C issuer key k) = map_option (\<lambda>r. \<lparr>key_claim_read = read_claim r, key_claim_fallback = fallback_claim r,
     key_claim_table = (if read_claim r \<noteq> [] then read_claim r else table_claim r)\<rparr>)
       (Option.bind (fst (key_entry C issuer k)) (\<lambda>e. aws_condition_key e key))"
  by (simp_all add: documents_condition_key_def documents_multivalued_def reads_a_multi_valued_claim_def condition_key_claim_def split_def Let_def)

lemma key_entry_states:
  "snd (documents_condition_key C issuer key k) = snd (key_entry C issuer k)" "snd (documents_multivalued C issuer key k) = snd (key_entry C issuer k)"
  "snd (reads_a_multi_valued_claim C issuer key k) = snd (key_entry C issuer k)" "snd (condition_key_claim C issuer key k) = snd (key_entry C issuer k)"
  by (simp_all add: documents_condition_key_def documents_multivalued_def reads_a_multi_valued_claim_def condition_key_claim_def split_def Let_def)

lemma engine_vocabulary_reached: "reached C k \<Longrightarrow> engine_vocabulary C k = engine_vocabulary C empty_cache"
  unfolding engine_vocabulary_def key_entry_fields by (simp add: key_entry_answer reached.start)

section \<open>Issuers nobody surveyed\<close>

lemma registry_facts_cases:
  obtains "census_key issuer = None \<or> Option.bind (census_key issuer) (census_match C) = None" "fst (registry_facts C issuer) = no_facts"
  | key e tenant where "census_key issuer = Some key" "census_match C key = Some (e, tenant)" "fst (registry_facts C issuer) = facts_of e tenant"
  by (cases "census_key issuer"; cases "Option.bind (census_key issuer) (census_match C)") (auto simp: registry_facts_def)

lemma facts_of_fields [simp]:
  "facts_anonymous (facts_of e tenant) = census_established (anonymous_tokens e)"
  "facts_issuer_kind (facts_of e tenant) = (if tenant_placeholder e \<noteq> [] then PerTenant else Shared)"
  "facts_tenancy (facts_of e tenant) = (if tenant_placeholder e \<noteq> [] then None else tenancy_of e)"
  by (simp_all add: facts_of_def Let_def no_facts_def)

lemma census_established_No: "census_established p = No \<longleftrightarrow> p = (False, True)"
  by (cases p) auto

definition vouched_by :: "census \<Rightarrow> string \<Rightarrow> bool" where
  "vouched_by C issuer \<longleftrightarrow> (\<exists>key e tenant. census_key issuer = Some key \<and> census_match C key = Some (e, tenant) \<and>
     anonymous_tokens e = (False, True))"

definition token_issuer :: "string \<Rightarrow> bool" where
  "token_issuer i \<longleftrightarrow> i \<noteq> [] \<and> \<not> is_saml_issuer i \<and> \<not> has_prefix i ServiceIssuerPrefix \<and> i \<noteq> AWSPrincipalIssuer"

lemma unvouched_unsurveyed:
  "token_issuer (grant_issuer g) \<Longrightarrow> \<not> vouched_by C (grant_issuer g) \<Longrightarrow> unvouched g ((fst (registry_facts C (grant_issuer g)))\<lparr>facts_issuerless := p, facts_modelled := m\<rparr>)"
  by (rule registry_facts_cases [of "grant_issuer g" C])
    (auto simp: unvouched_def token_issuer_def vouched_by_def no_facts_def census_established_No)

lemma unvouched_populations:
  assumes "unvouched g f" "pop \<in> set (placement_populations (classify T g f ds))"
  shows "population_place pop = Anyone \<and> population_owners pop = []"
  using unvouched_term [OF assms(1)] classified_population(2) [OF assms(2)] by (auto simp: populations_of_iff)

section \<open>Claims a pin rests on\<close>

text \<open>AWS reads a claim under its own name alone: no condition key it documents for the claim reads another, or falls back on one.\<close>

definition read_alone :: "tenancy_issuer \<Rightarrow> claim_key \<Rightarrow> bool" where
  "read_alone e k \<longleftrightarrow> (\<forall>r. aws_condition_key e k = Some r \<longrightarrow> read_claim r = k \<and> fallback_claim r = [])"

lemma reads_read_alone: "reads_its_own_claim e k \<longleftrightarrow> read_alone e k"
  by (simp add: reads_its_own_claim_def read_alone_def split: option.split)

lemma tenancy_of_Some:
  "tenancy_of e = Some t \<Longrightarrow> read_alone e ''sub'' \<and> census_claims t = map (tenancy_claim_of e) (listed_claims e) \<and>
    subject_forms t = map subject_form_of (listed_forms e)"
  by (auto simp: tenancy_of_def reads_read_alone split: if_splits)

text \<open>A claim of the census that names a tenant: listed with a scope and a kind the classifier knows, and read by AWS under its own name alone.\<close>

definition pinning_claim :: "tenancy_issuer \<Rightarrow> claim_key \<Rightarrow> owner_scope \<Rightarrow> owner_kind \<Rightarrow> bool" where
  "pinning_claim e k sc kind \<longleftrightarrow> read_alone e k \<and>
     (\<exists>c \<in> set (listed_claims e). listed_claim c = k \<and> sc = scope_of (listed_scope c) \<and>
        (kind = KindName \<and> listed_kind c = ''name'' \<or> kind = KindID \<and> listed_kind c = ''id''))"

lemma tenancy_claim_pins:
  "c \<in> set (listed_claims e) \<Longrightarrow> claim_scope (tenancy_claim_of e c) \<noteq> ScopeNone \<Longrightarrow>
    pinning_claim e (tenancy_claim_key (tenancy_claim_of e c)) (claim_scope (tenancy_claim_of e c)) (claim_kind (tenancy_claim_of e c))"
  by (auto simp: pinning_claim_def tenancy_claim_of_def part_kind_of_def reads_read_alone Let_def split: if_splits intro!: bexI [of _ c])

section \<open>Placing every grant\<close>

lemma place_from_nth:
  assumes "\<And>j r. map_of memo j = Some r \<Longrightarrow> r = issuer_read C j"
  shows "place_from T C mine i memo gs = map (\<lambda>(n, (g, s)). place_grant T mine n g s (issuer_read C (grant_issuer g))) (enumerate i gs)"
  using assms
proof (induction gs arbitrary: i memo)
  case (Cons p gs)
  obtain g s where p: "p = (g, s)" by (cases p)
  have l: "looked_up C memo (grant_issuer g) = (issuer_read C (grant_issuer g), snd (looked_up C memo (grant_issuer g)))"
    using Cons.prems [of "grant_issuer g"] by (cases "map_of memo (grant_issuer g)") (auto simp: looked_up_def)
  have "r = issuer_read C j" if "map_of (snd (looked_up C memo (grant_issuer g))) j = Some r" for j r
    using that Cons.prems [of j r]
    by (cases "map_of memo (grant_issuer g)") (auto simp: looked_up_def map_add_Some_iff split: if_splits)
  then show ?case unfolding p place_from.simps by (subst l) (simp add: Cons.IH)
qed simp

lemma place_grants_map:
  "place_grants T C gs mine = map (\<lambda>(n, (g, s)). place_grant T mine n g s (issuer_read C (grant_issuer g))) (enumerate 0 gs)"
  unfolding place_grants_def by (rule place_from_nth) simp

lemma place_grants_member:
  assumes "p \<in> set (place_grants T C gs mine)"
  obtains g s n where "(g, s) \<in> set gs" "p = place_grant T mine n g s (issuer_read C (grant_issuer g))"
  using assms unfolding place_grants_map by (auto simp: in_set_enumerate_eq) (metis nth_mem)

lemma place_grant_fields [simp]:
  "placed_issuer (place_grant T mine n g s found) = grant_issuer g"
  "placed_placement (place_grant T mine n g s found) = classify T g (placed_facts (place_grant T mine n g s found)) (every_owner mine)"
  "placed_facts (place_grant T mine n g s found) = (fst found)\<lparr>facts_issuerless := issuerless_population T s, facts_modelled := models_principal_of s g\<rparr>"
  by (simp_all add: place_grant_def Let_def)

lemma fst_issuer_read [simp]: "fst (issuer_read C i) = fst (registry_facts C i)"
  by (simp add: issuer_read_def split_def)

definition ascii_forms :: "census \<Rightarrow> bool" where
  "ascii_forms C \<longleftrightarrow> (\<forall>key e tenant. census_match C key = Some (e, tenant) \<longrightarrow> (\<forall>f \<in> set (listed_forms e). ascii_form (subject_form_of f)))"

text \<open>What a pin of an issuer's tokens rests on, by the census's entry for the issuer.\<close>

definition rests_on :: "tenancy_issuer \<Rightarrow> token \<Rightarrow> tenant_owner set \<Rightarrow> bool" where
  "rests_on e token W \<longleftrightarrow>
     (\<exists>k v w. token k = Some v \<and> w \<in> W \<and> owner_value w = v \<and> pinning_claim e k (owner_scope w) (owner_kind w)) \<or>
     (read_alone e ''sub'' \<and>
       (\<exists>v w t. token ''sub'' = Some v \<and> w \<in> W \<and> tenancy_of e = Some t \<and> (\<exists>f \<in> set (listed_forms e). subject_names t (subject_form_of f) v w)))"

lemma vouches_rests:
  assumes "vouches c token W" "token_issuer (grant_issuer (classifier_grant c))" "facts_tenancy (classifier_facts c) = tenancy_of e"
  shows "rests_on e token W"
proof -
  obtain t where t: "tenancy_of e = Some t" "shared_vouches c t token W"
    using assms by (auto simp: vouches_def token_issuer_def split: option.splits)
  note parts = tenancy_of_Some [OF t(1)]
  from t(2) consider claim v where "claim \<in> set (census_claims t)" "claim_scope claim \<noteq> ScopeNone" "token (tenancy_claim_key claim) = Some v" "claim_vouches claim v W"
    | v where "token subject_claim_key = Some v" "subject_vouches c t v W"
    by (auto simp: shared_vouches_def)
  then show ?thesis
  proof cases
    case (1 claim v)
    then obtain c' where c: "c' \<in> set (listed_claims e)" "claim = tenancy_claim_of e c'" using parts by auto
    obtain w where w: "w \<in> W" "owner_value w = v" "owner_scope w = claim_scope claim" "owner_kind w = claim_kind claim"
      using 1(4) by (auto simp: claim_vouches_def)
    have "pinning_claim e (tenancy_claim_key claim) (owner_scope w) (owner_kind w)"
      using tenancy_claim_pins [OF c(1)] 1(2) c(2) w(3,4) by simp
    then show ?thesis unfolding rests_on_def using 1(3) w(1,2) by blast
  next
    case (2 v)
    then obtain w f where "w \<in> W" "f \<in> set (listed_forms e)" "subject_names t (subject_form_of f) v w"
      using parts by (auto simp: subject_vouches_def)
    then show ?thesis unfolding rests_on_def using 2(1) parts t(1) by (auto simp: subject_claim_key_def)
  qed
qed

lemma placed_pins:
  assumes "ascii_forms C" "p = place_grant T mine n g s (issuer_read C (grant_issuer g))" "built_set (grant_admits g)" "token_issuer (grant_issuer g)"
    and "pop \<in> set (placement_populations (placed_placement p))" "population_basis pop = Pinned"
    and "term_admits token (admitted_terms (grant_admits g) ! population_term pop)"
  shows "\<exists>key e tenant. census_key (grant_issuer g) = Some key \<and> census_match C key = Some (e, tenant) \<and> rests_on e token (set (population_owners pop))"
proof (rule registry_facts_cases [of "grant_issuer g" C])
  let ?c = "the_classifier T g (placed_facts p) (every_owner mine)"
  have pl: "placed_placement p = classify T g (placed_facts p) (every_owner mine)" by (simp add: assms(2))
  have f: "facts_tenancy (placed_facts p) = facts_tenancy (fst (registry_facts C (grant_issuer g)))" by (simp add: assms(2))
  have v: "vouches ?c token (set (population_owners pop))" if "\<forall>t. facts_tenancy (placed_facts p) = Some t \<longrightarrow> ascii_census t"
    using classified_pin [OF assms(3) that assms(5) [unfolded pl] assms(6,7)] ..
  {
    assume none: "fst (registry_facts C (grant_issuer g)) = no_facts"
    then have n: "facts_tenancy (placed_facts p) = None" using f by (simp add: no_facts_def)
    then have "vouches ?c token (set (population_owners pop))" using v by simp
    then show ?thesis using n assms(4) by (simp add: vouches_def token_issuer_def)
  }
  fix key e tenant
  assume m: "census_key (grant_issuer g) = Some key" "census_match C key = Some (e, tenant)" "fst (registry_facts C (grant_issuer g)) = facts_of e tenant"
  have ft: "facts_tenancy (placed_facts p) = (if tenant_placeholder e \<noteq> [] then None else tenancy_of e)" using f m(3) by simp
  have "ascii_census t" if "facts_tenancy (placed_facts p) = Some t" for t
    using that ft assms(1) m(2) tenancy_of_Some [of e t] by (auto simp: ascii_census_def list_all_iff ascii_forms_def split: if_splits)
  then have vv: "vouches ?c token (set (population_owners pop))" using v by blast
  then have "facts_tenancy (placed_facts p) \<noteq> None" using assms(4) by (auto simp: vouches_def token_issuer_def split: option.splits)
  then have "facts_tenancy (classifier_facts ?c) = tenancy_of e" using ft by (auto split: if_splits)
  then have "rests_on e token (set (population_owners pop))" using vouches_rests [OF vv] assms(4) by simp
  then show ?thesis using m(1,2) by blast
qed

section \<open>A census to look at\<close>

definition sample_entry :: tenancy_issuer where
  "sample_entry = \<lparr>census_name = ''Forge Actions'', census_platform = ''Forge'', anonymous_tokens = (False, True), tenant_placeholder = [],
     tenant_kind_word = [], tenant_recyclable = (False, False), controlled_tenant = (\<lambda>_. (False, False)), declaration_prefix = [],
     listed_claims = [\<lparr>listed_claim = ''owner'', listed_scope = ''owner'', listed_kind = ''name'', listed_recyclable = (False, False)\<rparr>],
     listed_forms = [\<lparr>leading_literal = ''repo:'', owner_parts = [\<lparr>written_kind = ''name'', delimiter_after = ''/''\<rparr>], repository_parts = []\<rparr>],
     listed_not_tenancy = [], listed_never_pin = [], listed_characters = [''a-z''], without_case = (False, False),
     maps_condition_key = (\<lambda>key. (key = ''sub'', True)), aws_condition_key = (\<lambda>_. None), claim_multi_valued = (\<lambda>_. (False, False))\<rparr>"

definition sample_census :: census where
  "sample_census = \<lparr>census_get = (\<lambda>_. None), census_all = [], census_hosts = [], census_date = ''2025-01-01'',
     census_match = (\<lambda>key. if key = ''https://h.io'' then Some (sample_entry, []) else None)\<rparr>"

definition sample_read :: statement where
  "sample_read = \<lparr>statement_sid = [], statement_effect = Allow, statement_principals = [], statement_actions = unknown_actions,
     statement_conditions = [], statement_raw = [], statement_findings = no_findings\<rparr>"

definition sample_placed :: "string \<Rightarrow> placed" where
  "sample_placed issuer = place_grant tables_of_none \<lparr>owners_declared = [], owners_recognised = []\<rparr> 0
     ((sample_grant (Glob ''repo:acme/*''))\<lparr>grant_issuer := issuer\<rparr>) sample_read (issuer_read sample_census issuer)"

lemma sample_census_ascii: "ascii_forms sample_census"
proof -
  have "list_all (ascii_form \<circ> subject_form_of) (listed_forms sample_entry)" by code_simp
  then show ?thesis by (auto simp: ascii_forms_def sample_census_def list_all_iff split: if_splits)
qed

section \<open>Properties\<close>

text \<open>
  The copy of the last entry never shows. Whatever condition keys of whatever issuers were asked
  about before, and in whatever order, each of the four lookups answers as it does when asked first,
  from the entry the census matches the issuer with and no other, and leaves a copy of which the
  same holds; so every policy is read with one vocabulary.
\<close>

theorem the_last_entry_never_shows:
  assumes "reached C k"
  shows "fst (documents_condition_key C issuer key k) = fst (documents_condition_key C issuer key empty_cache)
    \<and> fst (documents_multivalued C issuer key k) = fst (documents_multivalued C issuer key empty_cache)
    \<and> fst (reads_a_multi_valued_claim C issuer key k) = fst (reads_a_multi_valued_claim C issuer key empty_cache)
    \<and> fst (condition_key_claim C issuer key k) = fst (condition_key_claim C issuer key empty_cache)
    \<and> (\<forall>k' \<in> {snd (documents_condition_key C issuer key k), snd (documents_multivalued C issuer key k),
          snd (reads_a_multi_valued_claim C issuer key k), snd (condition_key_claim C issuer key k)}. reached C k')
    \<and> engine_vocabulary C k = engine_vocabulary C empty_cache"
  unfolding key_entry_fields key_entry_states key_entry_answer [OF assms] key_entry_answer [OF reached.start]
  using engine_vocabulary_reached [OF assms] reached.asked [OF assms] by simp

theorem the_last_entry_never_shows_witness:
  "fst (documents_condition_key sample_census ''https://other'' ''sub'' (snd (key_entry sample_census ''https://h.io'' empty_cache))) = (False, False)
    \<and> fst (documents_condition_key sample_census ''https://h.io'' ''sub'' (snd (key_entry sample_census ''https://h.io'' empty_cache))) = (True, True)"
proof -
  have "fst (documents_condition_key sample_census ''https://other'' ''sub'' empty_cache) = (False, False)"
    "fst (documents_condition_key sample_census ''https://h.io'' ''sub'' empty_cache) = (True, True)" by code_simp+
  then show ?thesis using the_last_entry_never_shows [OF reached.asked [OF reached.start]] by simp
qed

text \<open>
  C6: Nobody is vouched for by an issuer nobody surveyed. A grant of an issuer of tokens reaches a
  population nearer than anyone, or one with an owner, only where the issuer is all ASCII, normalises
  to a key the census matches, and the matched entry says, as known, that the issuer mints no tokens
  to people with no account; a look-alike host, an issuer no entry matches and one the census is
  unsure of are anyone's, whatever the grant constrains and whoever declares what.
\<close>

theorem only_surveyed_issuers_vouch:
  assumes "p \<in> set (place_grants T C gs mine)" "token_issuer (placed_issuer p)"
    and "pop \<in> set (placement_populations (placed_placement p))" "population_place pop \<noteq> Anyone \<or> population_owners pop \<noteq> []"
  shows "vouched_by C (placed_issuer p)"
proof (rule ccontr)
  assume no: "\<not> vouched_by C (placed_issuer p)"
  obtain g s n where p: "p = place_grant T mine n g s (issuer_read C (grant_issuer g))" by (rule place_grants_member [OF assms(1)])
  let ?f = "(fst (registry_facts C (grant_issuer g)))\<lparr>facts_issuerless := issuerless_population T s, facts_modelled := models_principal_of s g\<rparr>"
  have pop: "pop \<in> set (placement_populations (classify T g ?f (every_owner mine)))" using assms(3) by (simp add: p)
  have "unvouched g ?f" by (rule unvouched_unsurveyed) (use assms(2) no p in simp_all)
  then show False using unvouched_populations [OF _ pop] assms(4) by blast
qed

theorem only_surveyed_issuers_vouch_witness:
  "vouched_by sample_census ''https://h.io''"
proof -
  let ?gs = "[(sample_grant (Glob ''repo:acme/*''), sample_read)]" and ?mine = "\<lparr>owners_declared = [], owners_recognised = []\<rparr>"
  have "list_ex (\<lambda>p. token_issuer (placed_issuer p) \<and> placed_issuer p = ''https://h.io'' \<and>
      list_ex (\<lambda>pop. population_owners pop \<noteq> []) (placement_populations (placed_placement p)))
      (place_grants tables_of_none sample_census ?gs ?mine)" by code_simp
  then obtain p pop where "p \<in> set (place_grants tables_of_none sample_census ?gs ?mine)" "token_issuer (placed_issuer p)" "placed_issuer p = ''https://h.io''"
    "pop \<in> set (placement_populations (placed_placement p))" "population_owners pop \<noteq> []" unfolding list_ex_iff by blast
  then show ?thesis using only_surveyed_issuers_vouch by metis
qed

text \<open>
  C5: A pin is the census's word. Where the placing of a policy pins an alternative of a token
  issuer's grant to owners, the census holds an entry for the issuer, and every token of the
  alternative carries the owner in a claim the entry lists, with a scope and a kind it spells, whose
  condition key, if AWS documents one, reads that claim with no fallback; or in a subject that names
  the owner in a form the entry lists, and then the key of sub, if documented, reads sub alone. The
  census's forms are taken to lead with ASCII text and to end each part with one ASCII character, and
  the grant's set to be built by package eval over claim names without an equals sign.
\<close>

theorem pins_are_the_census_word:
  assumes "ascii_forms C" "p = place_grant T mine n g s (issuer_read C (grant_issuer g))" "built_set (grant_admits g)" "token_issuer (grant_issuer g)"
    and "pop \<in> set (placement_populations (placed_placement p))" "population_basis pop = Pinned"
    and "term_admits token (admitted_terms (grant_admits g) ! population_term pop)"
  shows "\<exists>key e tenant. census_key (grant_issuer g) = Some key \<and> census_match C key = Some (e, tenant) \<and> rests_on e token (set (population_owners pop))"
  using placed_pins [OF assms] .

theorem pins_are_the_census_word_witness:
  "\<exists>W. rests_on sample_entry [''sub'' \<mapsto> ''repo:acme/x''] W"
proof -
  let ?g = "(sample_grant (Glob ''repo:acme/*''))\<lparr>grant_issuer := ''https://h.io''\<rparr>" and ?p = "sample_placed ''https://h.io''"
  have b: "built_set (grant_admits ?g)"
    unfolding sample_grant_def grant.simps by (rule built_set.intros(1)) (auto simp: built_term_def good_key_def intro: built.intros)
  have "list_ex (\<lambda>pop. population_basis pop = Pinned \<and> population_term pop = 0) (placement_populations (placed_placement ?p))" by code_simp
  then obtain pop where pop: "pop \<in> set (placement_populations (placed_placement ?p))" "population_basis pop = Pinned" "population_term pop = 0"
    unfolding list_ex_iff by blast
  have t: "token_issuer (grant_issuer ?g)" by code_simp
  have "admitted_terms (grant_admits ?g) = [[(''sub'', Glob ''repo:acme/*'')]]" "contains (Glob ''repo:acme/*'') ''repo:acme/x''" by code_simp+
  then have a: "term_admits [''sub'' \<mapsto> ''repo:acme/x''] (admitted_terms (grant_admits ?g) ! population_term pop)"
    by (simp add: pop(3) term_admits_def satisfies_def)
  have p: "?p = place_grant tables_of_none \<lparr>owners_declared = [], owners_recognised = []\<rparr> 0 ?g sample_read (issuer_read sample_census (grant_issuer ?g))"
    by (simp add: sample_placed_def)
  from pins_are_the_census_word [OF sample_census_ascii p b t pop(1,2) a]
  show ?thesis by (auto simp: sample_census_def split: if_splits)
qed

text \<open>
  Placing reads each grant alone. The loop looks an issuer up once a policy and keeps what it
  found; every grant is placed, in order, as the classifier places it on the facts the registry gives
  for its own issuer, what the parser reads of its own statement, and every owner declared or
  recognised.
\<close>

theorem every_grant_is_placed:
  "length (place_grants T C gs mine) = length gs
    \<and> (\<forall>i g s. i < length gs \<and> gs ! i = (g, s) \<longrightarrow>
        (let f = (fst (registry_facts C (grant_issuer g)))\<lparr>facts_issuerless := issuerless_population T s, facts_modelled := models_principal_of s g\<rparr> in
         place_grants T C gs mine ! i = \<lparr>placed_number = i + 1, placed_issuer = grant_issuer g, placed_facts = f,
           placed_platform = platform_name (grant_issuer g) (snd (registry_facts C (grant_issuer g))),
           placed_placement = classify T g f (owners_declared mine @ owners_recognised mine), placed_mine = mine\<rparr>))"
proof -
  have e: "every_owner mine = owners_declared mine @ owners_recognised mine" by (simp add: every_owner_def)
  show ?thesis unfolding place_grants_map
    by (auto simp: nth_enumerate_eq place_grant_def Let_def e issuer_read_def split_def)
qed

theorem every_grant_is_placed_witness:
  "placed_issuer (place_grants tables_of_none sample_census [(sample_grant (Glob ''repo:acme/*''), sample_read)]
    \<lparr>owners_declared = [], owners_recognised = []\<rparr> ! 0) = ''https://h.io''"
proof -
  let ?gs = "[(sample_grant (Glob ''repo:acme/*''), sample_read)]"
  have "0 < length ?gs \<and> ?gs ! 0 = (sample_grant (Glob ''repo:acme/*''), sample_read)" by simp
  from every_grant_is_placed [THEN conjunct2, rule_format, OF this]
  show ?thesis by (simp add: Let_def sample_grant_def)
qed

end
