(* ===== verification/Join_Walk.thy ===== *)
theory Join_Walk imports Eval_Shape Go_Numbers begin

text \<open>
  Package join, the walk of witness.go: the search, level by level, for the shortest string a list
  of StringLike patterns all match. A state is one position in each pattern; the walk visits each
  state once and gives up past a bound, so it always ends. The lemmas show that what it finds is
  matched by every pattern and is shortest, and that its no is a decision where the bound was not
  reached, which a bound on the product of the patterns' lengths ensures.
\<close>

section \<open>The walk\<close>

record walk_step =
  step_at :: "nat list"
  step_text :: "rune list"

definition state_key :: "nat list \<Rightarrow> string" where
  "state_key at = join_strings '','' (map (\<lambda>p. itoa (int p)) at)"

text \<open>The map seen is the list of its keys, none twice, so that its length is the map's.\<close>

definition exhausted :: "nat \<Rightarrow> string list \<Rightarrow> bool" where
  "exhausted bound seen \<longleftrightarrow> bound \<le> length seen"

definition waiting_star :: "rune list list \<Rightarrow> nat list \<Rightarrow> nat \<Rightarrow> bool" where
  "waiting_star units at i \<longleftrightarrow> i < length at \<and> at ! i < length (units ! i) \<and> units ! i ! (at ! i) = star"

definition advance :: "nat list \<Rightarrow> nat \<Rightarrow> nat list" where
  "advance at i = at[i := at ! i + 1]"

text \<open>The closure visit of skipStars, on the seen states and the level so far.\<close>

function visit :: "rune list list \<Rightarrow> nat \<Rightarrow> walk_step \<Rightarrow> string list \<times> walk_step list \<Rightarrow> string list \<times> walk_step list" where
  "visit units bound s (seen, out) =
     (if exhausted bound seen \<or> state_key (step_at s) \<in> set seen then (seen, out)
      else fold (\<lambda>i st. if waiting_star units (step_at s) i then visit units bound (s\<lparr>step_at := advance (step_at s) i\<rparr>) st else st)
        [0..<length units] (state_key (step_at s) # seen, out @ [s]))"
  by pat_completeness auto

text \<open>What is left of the patterns past a state; a skip shortens it.\<close>

definition remaining :: "rune list list \<Rightarrow> nat list \<Rightarrow> nat" where
  "remaining units at = sum_list (map2 (\<lambda>u p. length u - p) units at)"

lemma remaining_advance:
  "i < length units \<Longrightarrow> waiting_star units at i \<Longrightarrow> remaining units (advance at i) < remaining units at"
proof (induction units at arbitrary: i rule: list_induct2')
  case (4 u units p at)
  show ?case
  proof (cases i)
    case 0
    then show ?thesis using 4 by (auto simp: remaining_def advance_def waiting_star_def)
  next
    case (Suc j)
    then have "remaining units (advance at j) < remaining units at"
      using 4 by (auto simp: waiting_star_def)
    then show ?thesis using Suc by (simp add: remaining_def advance_def)
  qed
qed (auto simp: waiting_star_def)

termination visit
  by (relation "measure (\<lambda>(units, bound, s, st). remaining units (step_at s))") (auto intro: remaining_advance)

declare visit.simps [simp del]

definition skip_stars :: "rune list list \<Rightarrow> nat \<Rightarrow> walk_step list \<Rightarrow> string list \<Rightarrow> string list \<times> walk_step list" where
  "skip_stars units bound states seen = fold (visit units bound) states (seen, [])"

definition accepting :: "rune list list \<Rightarrow> nat list \<Rightarrow> bool" where
  "accepting units at \<longleftrightarrow> list_all2 (\<lambda>u p. p = length u) units at"

text \<open>The loop of consume: the rune so far, and whether a literal fixed it.\<close>

fun consume_from :: "rune list list \<Rightarrow> nat list \<Rightarrow> rune \<Rightarrow> bool \<Rightarrow> (rune \<times> nat list) option" where
  "consume_from (u # us) (p # ps) r fixed =
     (if p = length u then None
      else (let c = u ! p in
        if c = star then map_option (\<lambda>(r, onward). (r, p # onward)) (consume_from us ps r fixed)
        else if c = quest then map_option (\<lambda>(r, onward). (r, (p + 1) # onward)) (consume_from us ps r fixed)
        else if fixed \<and> c \<noteq> r then None
        else map_option (\<lambda>(r, onward). (r, (p + 1) # onward)) (consume_from us ps c True)))"
| "consume_from _ _ r fixed = Some (r, [])"

definition consume :: "rune list list \<Rightarrow> nat list \<Rightarrow> (rune \<times> nat list) option" where
  "consume units at = consume_from units at 120 False"

definition next_level :: "rune list list \<Rightarrow> walk_step list \<Rightarrow> walk_step list" where
  "next_level units frontier =
     List.map_filter (\<lambda>s. map_option (\<lambda>(r, at). \<lparr>step_at = at, step_text = step_text s @ [r]\<rparr>) (consume units (step_at s))) frontier"

section \<open>The keys of states\<close>

lemma comma_no_digit: "CHR '','' \<notin> set (digits p)"
  by (rule digits_no_char) (simp add: byte_def)

lemma state_key_inject: "length a = length b \<Longrightarrow> state_key a = state_key b \<longleftrightarrow> a = b"
proof (induction a b rule: list_induct2)
  case (Cons p a q b)
  show ?case
  proof (cases a)
    case Nil
    then show ?thesis using Cons by (simp add: state_key_def)
  next
    case (Cons p' a')
    then obtain q' b' where b: "b = q' # b'" using Cons.hyps by (cases b) auto
    have "state_key (p # a) = digits p @ CHR '','' # state_key a" "state_key (q # b) = digits q @ CHR '','' # state_key b"
      by (simp_all add: state_key_def Cons b)
    then show ?thesis
      using char_delimited [OF comma_no_digit comma_no_digit, of p "state_key a" q "state_key b"] Cons.IH by simp
  qed
qed simp

section \<open>The words a state accepts\<close>

definition well_placed :: "rune list list \<Rightarrow> nat list \<Rightarrow> bool" where
  "well_placed units at \<longleftrightarrow> list_all2 (\<lambda>u p. p \<le> length u) units at"

definition accepts :: "rune list list \<Rightarrow> nat list \<Rightarrow> rune list \<Rightarrow> bool" where
  "accepts units at v \<longleftrightarrow> list_all2 (\<lambda>u p. wild_match (drop p u) v) units at"

lemma well_placed_length: "well_placed units at \<Longrightarrow> length at = length units"
  by (auto simp: well_placed_def list_all2_lengthD)

lemma well_placed_nth: "well_placed units at \<longleftrightarrow> length at = length units \<and> (\<forall>i < length units. at ! i \<le> length (units ! i))"
  by (auto simp: well_placed_def list_all2_conv_all_nth)

lemma accepts_nth: "accepts units at v \<longleftrightarrow> length at = length units \<and> (\<forall>i < length units. wild_match (drop (at ! i) (units ! i)) v)"
  by (auto simp: accepts_def list_all2_conv_all_nth)

lemma accepting_nth: "accepting units at \<longleftrightarrow> length at = length units \<and> (\<forall>i < length units. at ! i = length (units ! i))"
  by (auto simp: accepting_def list_all2_conv_all_nth)

lemma length_advance [simp]: "length (advance at i) = length at"
  by (simp add: advance_def)

lemma well_placed_advance: "well_placed units at \<Longrightarrow> waiting_star units at i \<Longrightarrow> well_placed units (advance at i)"
  by (auto simp: well_placed_nth advance_def waiting_star_def nth_list_update)

lemma wild_match_at_star: "p < length u \<Longrightarrow> u ! p = star \<Longrightarrow>
    wild_match (drop p u) v \<longleftrightarrow> wild_match (drop (p + 1) u) v \<or> (case v of [] \<Rightarrow> False | _ # w \<Rightarrow> wild_match (drop p u) w)"
  using Cons_nth_drop_Suc [of p u] by (metis add.commute plus_1_eq_Suc wild_match.simps(2))

text \<open>A skip only takes words away.\<close>

lemma accepts_advance: "accepts units (advance at i) v \<Longrightarrow> waiting_star units at i \<Longrightarrow> accepts units at v"
proof -
  assume a: "accepts units (advance at i) v" and w: "waiting_star units at i"
  have "wild_match (drop (at ! j) (units ! j)) v" if "j < length units" for j
  proof (cases "j = i")
    case True
    then have "wild_match (drop (at ! i + 1) (units ! i)) v"
      using a w that by (auto simp: accepts_nth advance_def waiting_star_def)
    then show ?thesis using True w wild_match_at_star [of "at ! i" "units ! i" v] by (simp add: waiting_star_def)
  next
    case False
    then show ?thesis using a that by (auto simp: accepts_nth advance_def)
  qed
  then show ?thesis using a by (simp add: accepts_nth)
qed

text \<open>A rune consumed is one every pattern takes.\<close>

lemma consume_from_fixed: "consume_from us ps r True = Some (r', onward) \<Longrightarrow> r' = r"
proof (induction us ps r True arbitrary: onward rule: consume_from.induct)
  case (1 u us p ps r)
  then show ?case by (auto simp: Let_def split: if_splits)
qed auto

lemma consume_from_sound:
  "consume_from us ps r fixed = Some (r', onward) \<Longrightarrow> length ps = length us \<Longrightarrow>
    list_all2 (\<lambda>u p. p \<le> length u) us ps \<Longrightarrow>
    list_all2 (\<lambda>u p. p \<le> length u) us onward \<and>
    (\<forall>w. list_all2 (\<lambda>u p. wild_match (drop p u) w) us onward \<longrightarrow> list_all2 (\<lambda>u p. wild_match (drop p u) (r' # w)) us ps)"
proof (induction us ps r fixed arbitrary: onward rule: consume_from.induct)
  case (1 u us p ps r fixed)
  let ?c = "u ! p"
  have p: "p < length u" using "1.prems" by (auto split: if_splits)
  have d: "drop p u = ?c # drop (Suc p) u" using p by (simp add: Cons_nth_drop_Suc)
  have len: "length ps = length us" "list_all2 (\<lambda>u p. p \<le> length u) us ps" using "1.prems" by auto
  consider (s) "?c = star" | (q) "?c \<noteq> star" "?c = quest" | (l) "?c \<noteq> star" "?c \<noteq> quest" "\<not> (fixed \<and> ?c \<noteq> r)"
    using "1.prems"(1) p by (auto simp: Let_def split: if_splits)
  then show ?case
  proof cases
    case s
    then obtain n where n: "consume_from us ps r fixed = Some (r', n)" "onward = p # n"
      using "1.prems"(1) p by (auto simp: Let_def)
    then show ?thesis using "1.IH"(1) [OF _ refl s n(1) len] p s by (simp add: d)
  next
    case q
    then obtain n where n: "consume_from us ps r fixed = Some (r', n)" "onward = (p + 1) # n"
      using "1.prems"(1) p by (auto simp: Let_def)
    then show ?thesis using "1.IH"(2) [OF _ refl q n(1) len] p q by (auto simp: d rune_fits_def)
  next
    case l
    then obtain n where n: "consume_from us ps ?c True = Some (r', n)" "onward = (p + 1) # n"
      using "1.prems"(1) p by (auto simp: Let_def split: if_splits)
    then have "r' = ?c" using consume_from_fixed by blast
    then show ?thesis using "1.IH"(3) [OF _ refl l n(1) len] p l n by (auto simp: d rune_fits_def)
  qed
qed auto

lemma consume_sound:
  "consume units at = Some (r, at') \<Longrightarrow> well_placed units at \<Longrightarrow>
    well_placed units at' \<and> (\<forall>w. accepts units at' w \<longrightarrow> accepts units at (r # w))"
  using consume_from_sound [of units at 120 False r at'] well_placed_length [of units at]
  by (auto simp: consume_def well_placed_def accepts_def)

lemma consume_from_complete:
  "list_all2 (\<lambda>u p. p < length u \<and> (if u ! p = star then wild_match (drop p u) w
      else rune_fits (u ! p) c \<and> wild_match (drop (Suc p) u) w)) us ps \<Longrightarrow> (fixed \<longrightarrow> r = c) \<Longrightarrow>
    \<exists>r' onward. consume_from us ps r fixed = Some (r', onward) \<and> list_all2 (\<lambda>u p. wild_match (drop p u) w) us onward"
proof (induction us ps r fixed rule: consume_from.induct)
  case (1 u us p ps r fixed)
  let ?c = "u ! p"
  have p: "p < length u" and rest: "list_all2 (\<lambda>u p. p < length u \<and> (if u ! p = star then wild_match (drop p u) w
      else rune_fits (u ! p) c \<and> wild_match (drop (Suc p) u) w)) us ps" using "1.prems"(1) by auto
  then have ne: "p \<noteq> length u" by simp
  consider (s) "?c = star" | (q) "?c \<noteq> star" "?c = quest" | (l) "?c \<noteq> star" "?c \<noteq> quest" by blast
  then show ?case
  proof cases
    case s
    then show ?thesis using "1.IH"(1) [OF ne refl s rest "1.prems"(2)] "1.prems"(1) by (auto simp: ne)
  next
    case q
    then show ?thesis using "1.IH"(2) [OF ne refl q rest "1.prems"(2)] "1.prems"(1) by (auto simp: ne)
  next
    case l
    then have c: "?c = c" using "1.prems"(1) by (auto simp: rune_fits_def)
    then have nf: "\<not> (fixed \<and> ?c \<noteq> r)" using "1.prems"(2) by auto
    then show ?thesis using "1.IH"(3) [OF ne refl l nf rest] "1.prems"(1) l c by (auto simp: ne)
  qed
qed auto

text \<open>From a state that accepts a word, skips lead to one that consumes its first rune or has ended.\<close>

lemma accepts_step:
  assumes "accepts units at v" "at \<in> S" "\<And>at i. at \<in> S \<Longrightarrow> i < length units \<Longrightarrow> waiting_star units at i \<Longrightarrow> advance at i \<in> S"
    "well_placed units at"
  shows "\<exists>at' \<in> S. well_placed units at' \<and> (case v of [] \<Rightarrow> accepting units at'
    | c # w \<Rightarrow> \<exists>r onward. consume units at' = Some (r, onward) \<and> accepts units onward w)"
  using assms(1,2,4)
proof (induction "remaining units at" arbitrary: at rule: less_induct)
  case less
  have len: "length at = length units" using less.prems by (simp add: well_placed_length)
  show ?case
  proof (cases "\<exists>i < length units. waiting_star units at i \<and> wild_match (drop (at ! i + 1) (units ! i)) v")
    case True
    then obtain i where i: "i < length units" "waiting_star units at i" "wild_match (drop (at ! i + 1) (units ! i)) v" by blast
    have "accepts units (advance at i) v"
      using less.prems(1) i by (auto simp: accepts_nth advance_def nth_list_update)
    then show ?thesis
      using less.hyps [OF remaining_advance [OF i(1,2)]] assms(3) [OF less.prems(2) i(1,2)] well_placed_advance [OF less.prems(3) i(2)] by blast
  next
    case none: False
    have stay: "\<not> wild_match (drop (at ! i + 1) (units ! i)) v"
      if "i < length units" "at ! i < length (units ! i)" "units ! i ! (at ! i) = star" for i
      using none that len by (auto simp: waiting_star_def)
    have m: "wild_match (drop (at ! i) (units ! i)) v" if "i < length units" for i
      using less.prems(1) that by (auto simp: accepts_nth)
    have le: "at ! i \<le> length (units ! i)" if "i < length units" for i
      using less.prems(3) that by (simp add: well_placed_nth)
    show ?thesis
    proof (cases v)
      case Nil
      have "at ! i = length (units ! i)" if i: "i < length units" for i
      proof (rule ccontr)
        assume "at ! i \<noteq> length (units ! i)"
        then have lt: "at ! i < length (units ! i)" using le [OF i] by simp
        then show False
          using m [OF i] stay [OF i] wild_match_at_star [OF lt]
          by (cases "units ! i ! (at ! i) = star") (auto simp: Nil Cons_nth_drop_Suc [symmetric] simp del: drop_Suc_Cons)
      qed
      then have "accepting units at" using len by (simp add: accepting_nth)
      then show ?thesis using less.prems Nil by auto
    next
      case (Cons c w)
      have "list_all2 (\<lambda>u p. p < length u \<and> (if u ! p = star then wild_match (drop p u) w
          else rune_fits (u ! p) c \<and> wild_match (drop (Suc p) u) w)) units at"
      proof (unfold list_all2_conv_all_nth, intro conjI allI impI)
        fix i assume i: "i < length units"
        show lt: "at ! i < length (units ! i)" using m [OF i] le [OF i] Cons by (cases "at ! i = length (units ! i)") auto
        show "if units ! i ! (at ! i) = star then wild_match (drop (at ! i) (units ! i)) w
          else rune_fits (units ! i ! (at ! i)) c \<and> wild_match (drop (Suc (at ! i)) (units ! i)) w"
          using m [OF i] stay [OF i lt] wild_match_at_star [OF lt, of v]
          by (cases "units ! i ! (at ! i) = star") (auto simp: Cons Cons_nth_drop_Suc [OF lt, symmetric] simp del: drop_Suc_Cons)
      qed (use len in simp)
      then have "\<exists>r onward. consume units at = Some (r, onward) \<and> accepts units onward w"
        unfolding consume_def accepts_def by (rule consume_from_complete) simp
      then show ?thesis using less.prems Cons by auto
    qed
  qed
qed

section \<open>A level closed under skips\<close>

text \<open>
  What a visit does to the walk: the level grows by states not seen before, each of which has its
  skips among the seen ones once the visit ends short of the bound.
\<close>

definition grows :: "rune list list \<Rightarrow> nat \<Rightarrow> (walk_step \<Rightarrow> bool) \<Rightarrow> string list \<times> walk_step list \<Rightarrow> string list \<times> walk_step list \<Rightarrow> bool" where
  "grows units bound P st st' \<longleftrightarrow> (\<exists>new. snd st' = snd st @ new \<and> (distinct (fst st) \<longrightarrow> distinct (fst st')) \<and>
     set (fst st') = set (fst st) \<union> state_key ` step_at ` set new \<and> length (fst st') = length (fst st) + length new \<and>
     (\<forall>x \<in> set new. P x) \<and>
     (\<not> exhausted bound (fst st') \<longrightarrow>
       (\<forall>x \<in> set new. \<forall>i < length units. waiting_star units (step_at x) i \<longrightarrow> state_key (advance (step_at x) i) \<in> set (fst st'))))"

lemma level_grows_refl: "grows units bound P st st"
  by (auto simp: grows_def)

lemma grows_more: "grows units bound P st st' \<Longrightarrow> set (fst st) \<subseteq> set (fst st') \<and> length (fst st) \<le> length (fst st')"
  by (auto simp: grows_def)

lemma exhausted_mono: "exhausted bound seen \<Longrightarrow> length seen \<le> length seen' \<Longrightarrow> exhausted bound seen'"
  by (simp add: exhausted_def)

lemma grows_weaken: "grows units bound P st st' \<Longrightarrow> (\<And>x. P x \<Longrightarrow> Q x) \<Longrightarrow> grows units bound Q st st'"
  unfolding grows_def by meson

lemma level_grows_trans:
  assumes "grows units bound P st st'" "grows units bound P st' st''"
  shows "grows units bound P st st''"
proof -
  obtain new where n: "snd st' = snd st @ new" "distinct (fst st) \<longrightarrow> distinct (fst st')"
    "set (fst st') = set (fst st) \<union> state_key ` step_at ` set new" "length (fst st') = length (fst st) + length new" "\<forall>x \<in> set new. P x"
    "\<not> exhausted bound (fst st') \<longrightarrow>
       (\<forall>x \<in> set new. \<forall>i < length units. waiting_star units (step_at x) i \<longrightarrow> state_key (advance (step_at x) i) \<in> set (fst st'))"
    using assms(1) unfolding grows_def by blast
  obtain more where m: "snd st'' = snd st' @ more" "distinct (fst st') \<longrightarrow> distinct (fst st'')"
    "set (fst st'') = set (fst st') \<union> state_key ` step_at ` set more" "length (fst st'') = length (fst st') + length more" "\<forall>x \<in> set more. P x"
    "\<not> exhausted bound (fst st'') \<longrightarrow>
       (\<forall>x \<in> set more. \<forall>i < length units. waiting_star units (step_at x) i \<longrightarrow> state_key (advance (step_at x) i) \<in> set (fst st''))"
    using assms(2) unfolding grows_def by blast
  have ex: "\<not> exhausted bound (fst st'') \<Longrightarrow> \<not> exhausted bound (fst st')"
    using exhausted_mono m(4) by (metis le_add1)
  show ?thesis
    unfolding grows_def
  proof (intro exI [of _ "new @ more"] conjI)
    show "\<forall>x \<in> set (new @ more). P x" using n(5) m(5) by auto
    show "\<not> exhausted bound (fst st'') \<longrightarrow> (\<forall>x \<in> set (new @ more). \<forall>i < length units. waiting_star units (step_at x) i \<longrightarrow>
        state_key (advance (step_at x) i) \<in> set (fst st''))"
      using n(6) m(6) ex m(3) by auto
  qed (use n(1-4) m(1-4) in auto)
qed

lemma level_grows_fold:
  assumes "\<And>i st. i \<in> set xs \<Longrightarrow> grows units bound P st (f i st) \<and> (\<not> exhausted bound (fst (f i st)) \<longrightarrow> K i \<subseteq> set (fst (f i st)))"
  shows "grows units bound P st (fold f xs st) \<and>
    (\<not> exhausted bound (fst (fold f xs st)) \<longrightarrow> (\<Union>i \<in> set xs. K i) \<subseteq> set (fst (fold f xs st)))"
  using assms
proof (induction xs arbitrary: st)
  case Nil
  then show ?case by (simp add: level_grows_refl)
next
  case (Cons i xs)
  let ?one = "f i st"
  have one: "grows units bound P st ?one" "\<not> exhausted bound (fst ?one) \<longrightarrow> K i \<subseteq> set (fst ?one)"
    using Cons.prems [of i st] by auto
  have rest: "grows units bound P ?one (fold f xs ?one)"
    "\<not> exhausted bound (fst (fold f xs ?one)) \<longrightarrow> (\<Union>i \<in> set xs. K i) \<subseteq> set (fst (fold f xs ?one))"
    using Cons.IH [of ?one] Cons.prems by auto
  note more = grows_more [OF rest(1)]
  have "\<not> exhausted bound (fst (fold f xs ?one)) \<Longrightarrow> K i \<subseteq> set (fst (fold f xs ?one))"
    using one(2) more exhausted_mono by blast
  then show ?case using level_grows_trans [OF one(1) rest(1)] rest(2) by auto
qed

lemma grows_first:
  assumes "k \<notin> set seen" "state_key (step_at s) = k" "P s" "grows units bound P (k # seen, out @ [s]) st"
    "\<not> exhausted bound (fst st) \<longrightarrow> (\<forall>i < length units. waiting_star units (step_at s) i \<longrightarrow> state_key (advance (step_at s) i) \<in> set (fst st))"
  shows "grows units bound P (seen, out) st"
proof -
  obtain new where "snd st = (out @ [s]) @ new" "distinct (k # seen) \<longrightarrow> distinct (fst st)"
    "set (fst st) = set (k # seen) \<union> state_key ` step_at ` set new" "length (fst st) = length (k # seen) + length new" "\<forall>x \<in> set new. P x"
    "\<not> exhausted bound (fst st) \<longrightarrow>
       (\<forall>x \<in> set new. \<forall>i < length units. waiting_star units (step_at x) i \<longrightarrow> state_key (advance (step_at x) i) \<in> set (fst st))"
    using assms(4) unfolding grows_def fst_conv snd_conv by blast
  then show ?thesis
    unfolding grows_def using assms(1-3,5) by (intro exI [of _ "s # new"]) auto
qed

text \<open>What a state new to the level has in common with the one the visit began at.\<close>

definition skipped_from :: "rune list list \<Rightarrow> walk_step \<Rightarrow> walk_step \<Rightarrow> bool" where
  "skipped_from units s x \<longleftrightarrow> step_text x = step_text s \<and> (well_placed units (step_at s) \<longrightarrow> well_placed units (step_at x)) \<and>
     (\<forall>v. accepts units (step_at x) v \<longrightarrow> accepts units (step_at s) v)"

lemma visit_grows:
  "grows units bound (skipped_from units s) st (visit units bound s st) \<and>
    (\<not> exhausted bound (fst (visit units bound s st)) \<longrightarrow> {state_key (step_at s)} \<subseteq> set (fst (visit units bound s st)))"
proof (induction units bound s st rule: visit.induct)
  case (1 units bound s seen out)
  let ?k = "state_key (step_at s)"
  show ?case
  proof (cases "exhausted bound seen \<or> ?k \<in> set seen")
    case True
    then have "visit units bound s (seen, out) = (seen, out)" by (subst visit.simps) simp
    then show ?thesis using True by (auto simp: level_grows_refl)
  next
    case False
    let ?f = "\<lambda>i st. if waiting_star units (step_at s) i then visit units bound (s\<lparr>step_at := advance (step_at s) i\<rparr>) st else st"
    let ?K = "\<lambda>i. if waiting_star units (step_at s) i then {state_key (advance (step_at s) i)} else {}"
    have step: "grows units bound (skipped_from units s) st (?f i st) \<and> (\<not> exhausted bound (fst (?f i st)) \<longrightarrow> ?K i \<subseteq> set (fst (?f i st)))"
      if i: "i \<in> set [0..<length units]" for i st
    proof (cases "waiting_star units (step_at s) i")
      case w: True
      let ?s = "s\<lparr>step_at := advance (step_at s) i\<rparr>"
      from "1.IH" [OF False i w, of st]
      have "grows units bound (skipped_from units ?s) st (visit units bound ?s st)"
        "\<not> exhausted bound (fst (visit units bound ?s st)) \<longrightarrow> {state_key (step_at ?s)} \<subseteq> set (fst (visit units bound ?s st))" by auto
      moreover have "skipped_from units ?s x \<Longrightarrow> skipped_from units s x" for x
        using accepts_advance well_placed_advance w by (auto simp: skipped_from_def)
      ultimately show ?thesis using w by (auto intro: grows_weaken)
    qed (auto simp: level_grows_refl)
    have v: "visit units bound s (seen, out) = fold ?f [0..<length units] (?k # seen, out @ [s])"
      using False by (subst visit.simps) simp
    note g = level_grows_fold [of "[0..<length units]" units bound "skipped_from units s" ?f ?K "(?k # seen, out @ [s])", OF step]
    let ?st = "visit units bound s (seen, out)"
    have g1: "grows units bound (skipped_from units s) (?k # seen, out @ [s]) ?st"
      and g2: "\<not> exhausted bound (fst ?st) \<longrightarrow> (\<Union>i \<in> set [0..<length units]. ?K i) \<subseteq> set (fst ?st)"
      using g unfolding v by blast+
    have k: "?k \<in> set (fst ?st)" using grows_more [OF g1] by simp
    have "grows units bound (skipped_from units s) (seen, out) ?st"
    proof (rule grows_first [OF _ refl _ g1])
      show "?k \<notin> set seen" using False by blast
      show "skipped_from units s s" by (simp add: skipped_from_def)
      show "\<not> exhausted bound (fst ?st) \<longrightarrow> (\<forall>i < length units. waiting_star units (step_at s) i \<longrightarrow>
          state_key (advance (step_at s) i) \<in> set (fst ?st))"
      proof (intro impI allI)
        fix i assume "\<not> exhausted bound (fst ?st)" and i: "i < length units" "waiting_star units (step_at s) i"
        then have "(\<Union>i \<in> set [0..<length units]. ?K i) \<subseteq> set (fst ?st)" using g2 by blast
        moreover have "state_key (advance (step_at s) i) \<in> ?K i" "i \<in> set [0..<length units]" using i by simp_all
        ultimately show "state_key (advance (step_at s) i) \<in> set (fst ?st)" by blast
      qed
    qed
    then show ?thesis using k by simp
  qed
qed

lemma skip_stars_grows:
  "grows units bound (\<lambda>x. \<exists>s \<in> set states. skipped_from units s x) (seen, []) (skip_stars units bound states seen) \<and>
    (\<not> exhausted bound (fst (skip_stars units bound states seen)) \<longrightarrow>
      state_key ` step_at ` set states \<subseteq> set (fst (skip_stars units bound states seen)))"
proof -
  let ?P = "\<lambda>x. \<exists>s \<in> set states. skipped_from units s x"
  have v: "grows units bound ?P st (visit units bound s st) \<and>
      (\<not> exhausted bound (fst (visit units bound s st)) \<longrightarrow> {state_key (step_at s)} \<subseteq> set (fst (visit units bound s st)))"
    if "s \<in> set states" for s st
    using visit_grows [of units bound s st] that by (auto intro: grows_weaken)
  have "(\<Union>s \<in> set states. {state_key (step_at s)}) = state_key ` step_at ` set states" by auto
  then show ?thesis
    using level_grows_fold [of states units bound ?P "visit units bound" "\<lambda>s. {state_key (step_at s)}" "(seen, [])", OF v]
    unfolding skip_stars_def by simp
qed

lemma skip_stars_spec:
  assumes "skip_stars units bound states seen = (seen', frontier')"
  shows "length seen' = length seen + length frontier'" "distinct seen \<Longrightarrow> distinct seen'"
    "set seen' = set seen \<union> state_key ` step_at ` set frontier'"
    "x \<in> set frontier' \<Longrightarrow> \<exists>s \<in> set states. skipped_from units s x"
    "\<not> exhausted bound seen' \<Longrightarrow> x \<in> set frontier' \<Longrightarrow> i < length units \<Longrightarrow> waiting_star units (step_at x) i \<Longrightarrow>
      state_key (advance (step_at x) i) \<in> set seen'"
    "\<not> exhausted bound seen' \<Longrightarrow> s \<in> set states \<Longrightarrow> state_key (step_at s) \<in> set seen'"
proof -
  have g: "grows units bound (\<lambda>x. \<exists>s \<in> set states. skipped_from units s x) (seen, []) (seen', frontier')"
    and k: "\<not> exhausted bound seen' \<Longrightarrow> state_key ` step_at ` set states \<subseteq> set seen'"
    using skip_stars_grows [of units bound states seen] unfolding assms by simp_all
  then show "length seen' = length seen + length frontier'" "distinct seen \<Longrightarrow> distinct seen'"
    "set seen' = set seen \<union> state_key ` step_at ` set frontier'"
    "x \<in> set frontier' \<Longrightarrow> \<exists>s \<in> set states. skipped_from units s x"
    "\<not> exhausted bound seen' \<Longrightarrow> x \<in> set frontier' \<Longrightarrow> i < length units \<Longrightarrow> waiting_star units (step_at x) i \<Longrightarrow>
      state_key (advance (step_at x) i) \<in> set seen'"
    unfolding grows_def fst_conv snd_conv append_Nil by metis+
  show "\<not> exhausted bound seen' \<Longrightarrow> s \<in> set states \<Longrightarrow> state_key (step_at s) \<in> set seen'"
    using k by blast
qed

section \<open>Level by level\<close>

text \<open>The loop of shortestShared, on the level it is at and the seen states.\<close>

function walk_levels :: "rune list list \<Rightarrow> nat \<Rightarrow> walk_step list \<Rightarrow> string list \<Rightarrow> rune list option" where
  "walk_levels units bound frontier seen =
     (if frontier = [] then None
      else case List.find (\<lambda>s. accepting units (step_at s)) frontier of
        Some s \<Rightarrow> Some (step_text s)
      | None \<Rightarrow>
        if exhausted bound seen then None
        else (case skip_stars units bound (next_level units frontier) seen of
          (seen, frontier) \<Rightarrow> walk_levels units bound frontier seen))"
  by pat_completeness auto

termination walk_levels
  by (relation "measure (\<lambda>(units, bound, frontier, seen). 2 * (bound - length seen) + (if frontier = [] then 0 else 1))")
    (auto dest!: sym [of "(_, _)"] skip_stars_spec(1) simp: exhausted_def neq_Nil_conv)

declare walk_levels.simps [simp del]

definition shortest_shared :: "string list \<Rightarrow> nat \<Rightarrow> string option" where
  "shortest_shared patterns bound =
     (let units = map runes patterns in
      case skip_stars units bound [\<lparr>step_at = replicate (length patterns) 0, step_text = []\<rparr>] [] of
        (seen, frontier) \<Rightarrow> map_option encode_runes (walk_levels units bound frontier seen))"

definition walkBound :: nat where "walkBound = 65536"

definition shared_instance :: "string list \<Rightarrow> string option" where
  "shared_instance patterns = shortest_shared patterns walkBound"

section \<open>What the walk finds\<close>

lemma accepting_accepts: "accepting units at \<Longrightarrow> accepts units at []"
  by (auto simp: accepting_nth accepts_nth)

lemma in_next_level: "x \<in> set (next_level units frontier) \<longleftrightarrow>
    (\<exists>s \<in> set frontier. \<exists>r at. consume units (step_at s) = Some (r, at) \<and> x = \<lparr>step_at = at, step_text = step_text s @ [r]\<rparr>)"
  by (auto simp: next_level_def List.map_filter_def image_iff split: option.splits)

lemma found_accepting:
  "List.find (\<lambda>s. accepting units (step_at s)) frontier = Some s \<Longrightarrow> s \<in> set frontier \<and> accepting units (step_at s)"
  by (auto simp: find_Some_iff)

lemma none_accepting:
  "List.find (\<lambda>s. accepting units (step_at s)) frontier = None \<Longrightarrow> s \<in> set frontier \<Longrightarrow> \<not> accepting units (step_at s)"
  by (auto simp: find_None_iff)

definition leads_from :: "rune list list \<Rightarrow> nat list \<Rightarrow> walk_step \<Rightarrow> bool" where
  "leads_from units start s \<longleftrightarrow> well_placed units (step_at s) \<and> set (step_text s) \<subseteq> insert 120 (\<Union>(set ` set units)) \<and>
     (\<forall>v. accepts units (step_at s) v \<longrightarrow> accepts units start (step_text s @ v))"

lemma leads_skip: "leads_from units start s \<Longrightarrow> skipped_from units s x \<Longrightarrow> leads_from units start x"
  by (auto simp: leads_from_def skipped_from_def)

lemma consume_from_rune:
  "consume_from us ps r fixed = Some (r', onward) \<Longrightarrow> list_all2 (\<lambda>u p. p \<le> length u) us ps \<Longrightarrow>
    r' = r \<or> r' \<in> (\<Union>(set ` set us))"
proof (induction us ps r fixed arbitrary: onward rule: consume_from.induct)
  case (1 u us p ps r fixed)
  have "p < length u" using "1.prems" by (auto split: if_splits)
  then have "u ! p \<in> set u" by simp
  then show ?case using "1.prems" "1.IH" by (fastforce simp: Let_def split: if_splits)
qed auto

lemma leads_next:
  assumes "\<forall>s \<in> set frontier. leads_from units start s" "x \<in> set (next_level units frontier)"
  shows "leads_from units start x"
proof -
  obtain s r at where s: "s \<in> set frontier" "consume units (step_at s) = Some (r, at)" "x = \<lparr>step_at = at, step_text = step_text s @ [r]\<rparr>"
    using assms(2) in_next_level by blast
  then have "leads_from units start s" using assms(1) by blast
  then show ?thesis
    using consume_sound [OF s(2)] consume_from_rune [OF s(2) [unfolded consume_def]] s(3)
    by (fastforce simp: leads_from_def well_placed_def)
qed

lemma walk_levels_sound:
  "\<forall>s \<in> set frontier. leads_from units start s \<Longrightarrow> walk_levels units bound frontier seen = Some t \<Longrightarrow>
    accepts units start t \<and> set t \<subseteq> insert 120 (\<Union>(set ` set units))"
proof (induction units bound frontier seen rule: walk_levels.induct)
  case (1 units bound frontier seen)
  have ne: "frontier \<noteq> []" using "1.prems"(2) by (subst (asm) walk_levels.simps) auto
  show ?case
  proof (cases "List.find (\<lambda>s. accepting units (step_at s)) frontier")
    case (Some s)
    then have "t = step_text s" using "1.prems"(2) ne by (subst (asm) walk_levels.simps) simp
    moreover have "accepts units (step_at s) []" "leads_from units start s"
      using found_accepting [OF Some] accepting_accepts "1.prems"(1) by auto
    ultimately show ?thesis by (auto simp: leads_from_def dest: spec [of _ "[]"])
  next
    case None
    have ex: "\<not> exhausted bound seen" using "1.prems"(2) None by (subst (asm) walk_levels.simps) (auto split: if_splits)
    obtain seen' frontier' where sk: "skip_stars units bound (next_level units frontier) seen = (seen', frontier')" by fastforce
    have w: "walk_levels units bound frontier' seen' = Some t"
      using "1.prems"(2) ne None ex sk by (subst (asm) walk_levels.simps) simp
    have "leads_from units start x" if x: "x \<in> set frontier'" for x
    proof -
      obtain y where "y \<in> set (next_level units frontier)" "skipped_from units y x"
        using skip_stars_spec(4) [OF sk x] by blast
      then show ?thesis using leads_next [OF "1.prems"(1)] leads_skip by blast
    qed
    then show ?thesis using "1.IH" [OF ne None ex sk [symmetric] _ w] by blast
  qed
qed

text \<open>
  The invariant of the search while the bound is not reached: the seen states are closed under
  skips, and one that is not in the level was found not accepting and its successor is seen.
\<close>

definition seen_states :: "rune list list \<Rightarrow> string list \<Rightarrow> nat list set" where
  "seen_states units seen = {at. well_placed units at \<and> state_key at \<in> set seen}"

definition settled :: "rune list list \<Rightarrow> string list \<Rightarrow> nat list \<Rightarrow> bool" where
  "settled units seen at \<longleftrightarrow> \<not> accepting units at \<and> (\<forall>r onward. consume units at = Some (r, onward) \<longrightarrow> onward \<in> seen_states units seen)"

definition searched :: "rune list list \<Rightarrow> walk_step list \<Rightarrow> string list \<Rightarrow> bool" where
  "searched units frontier seen \<longleftrightarrow>
     (\<forall>at \<in> seen_states units seen. (at \<in> step_at ` set frontier \<or> settled units seen at) \<and>
       (\<forall>i < length units. waiting_star units at i \<longrightarrow> advance at i \<in> seen_states units seen))"

definition on_level :: "rune list list \<Rightarrow> nat \<Rightarrow> walk_step list \<Rightarrow> bool" where
  "on_level units n frontier \<longleftrightarrow> (\<forall>s \<in> set frontier. well_placed units (step_at s) \<and> length (step_text s) = n)"

lemma key_of_step:
  "well_placed units at \<Longrightarrow> well_placed units (step_at x) \<Longrightarrow> state_key at = state_key (step_at x) \<Longrightarrow> at = step_at x"
  using state_key_inject well_placed_length by metis

lemma on_next_level:
  assumes "on_level units n frontier" "skip_stars units bound (next_level units frontier) seen = (seen', frontier')"
  shows "on_level units (n + 1) frontier'"
  unfolding on_level_def
proof
  fix x assume x: "x \<in> set frontier'"
  obtain y where y: "y \<in> set (next_level units frontier)" "skipped_from units y x"
    using skip_stars_spec(4) [OF assms(2) x] by blast
  then obtain s r at where s: "s \<in> set frontier" "consume units (step_at s) = Some (r, at)" "y = \<lparr>step_at = at, step_text = step_text s @ [r]\<rparr>"
    using in_next_level by blast
  have "well_placed units (step_at s)" "length (step_text s) = n" using assms(1) s(1) by (auto simp: on_level_def)
  then show "well_placed units (step_at x) \<and> length (step_text x) = n + 1"
    using consume_sound [OF s(2)] y(2) s(3) by (simp add: skipped_from_def)
qed

lemma searched_next:
  assumes inv: "searched units frontier seen" and lev: "on_level units n frontier"
    and none: "List.find (\<lambda>s. accepting units (step_at s)) frontier = None"
    and sk: "skip_stars units bound (next_level units frontier) seen = (seen', frontier')" and ex: "\<not> exhausted bound seen'"
  shows "searched units frontier' seen' \<and> (\<forall>at \<in> seen_states units seen. settled units seen' at)"
proof -
  note lev' = on_next_level [OF lev sk]
  have sub: "seen_states units seen \<subseteq> seen_states units seen'"
    using skip_stars_spec(3) [OF sk] by (auto simp: seen_states_def)
  have mono: "settled units seen at \<Longrightarrow> settled units seen' at" for at
    using sub by (auto simp: settled_def)
  have old: "settled units seen' at" if at: "at \<in> seen_states units seen" for at
  proof (cases "at \<in> step_at ` set frontier")
    case True
    then obtain s where s: "s \<in> set frontier" "at = step_at s" by blast
    have "onward \<in> seen_states units seen'" if c: "consume units at = Some (r, onward)" for r onward
    proof -
      have "\<lparr>step_at = onward, step_text = step_text s @ [r]\<rparr> \<in> set (next_level units frontier)"
        using s c in_next_level by blast
      then have "state_key onward \<in> set seen'" using skip_stars_spec(6) [OF sk ex] by fastforce
      moreover have "well_placed units onward" using consume_sound [OF c] at by (simp add: seen_states_def)
      ultimately show ?thesis by (simp add: seen_states_def)
    qed
    then show ?thesis using none_accepting [OF none s(1)] s(2) by (simp add: settled_def)
  next
    case False
    then show ?thesis using inv at mono by (auto simp: searched_def)
  qed
  have "(at \<in> step_at ` set frontier' \<or> settled units seen' at) \<and>
      (\<forall>i < length units. waiting_star units at i \<longrightarrow> advance at i \<in> seen_states units seen')" if at: "at \<in> seen_states units seen'" for at
  proof (cases "at \<in> seen_states units seen")
    case True
    then show ?thesis using old sub inv by (auto simp: searched_def)
  next
    case False
    then have "state_key at \<notin> set seen" "well_placed units at" using at by (auto simp: seen_states_def)
    then obtain x where x: "x \<in> set frontier'" "state_key at = state_key (step_at x)"
      using at skip_stars_spec(3) [OF sk] by (auto simp: seen_states_def)
    then have a: "at = step_at x" using key_of_step lev' \<open>well_placed units at\<close> by (auto simp: on_level_def)
    have "advance at i \<in> seen_states units seen'" if "i < length units" "waiting_star units at i" for i
      using skip_stars_spec(5) [OF sk ex x(1) that(1)] that well_placed_advance [OF \<open>well_placed units at\<close>] a
      by (simp add: seen_states_def)
    then show ?thesis using x(1) a by blast
  qed
  then show ?thesis using old by (simp add: searched_def)
qed

lemma walk_levels_stopped:
  assumes "exhausted bound seen" "walk_levels units bound frontier seen = Some t" "on_level units n frontier"
  shows "length t = n"
proof (cases "List.find (\<lambda>s. accepting units (step_at s)) frontier")
  case None
  have "walk_levels units bound frontier seen = None" by (subst walk_levels.simps) (simp add: None assms(1))
  then show ?thesis using assms(2) by simp
next
  case (Some s)
  then have "walk_levels units bound frontier seen = Some (step_text s)" by (subst walk_levels.simps) auto
  then show ?thesis using assms(2,3) found_accepting [OF Some] by (auto simp: on_level_def)
qed

text \<open>What the walk returns is as short as any word a seen state accepts.\<close>

lemma walk_levels_shortest:
  "on_level units n frontier \<Longrightarrow> (\<not> exhausted bound seen \<Longrightarrow> searched units frontier seen) \<Longrightarrow>
    walk_levels units bound frontier seen = Some t \<Longrightarrow>
    \<exists>k. length t = n + k \<and> (\<forall>at \<in> seen_states units seen. \<forall>v. accepts units at v \<longrightarrow> k \<le> length v)"
proof (induction units bound frontier seen arbitrary: n rule: walk_levels.induct)
  case (1 units bound frontier seen)
  have ne: "frontier \<noteq> []" using "1.prems"(3) by (subst (asm) walk_levels.simps) auto
  show ?case
  proof (cases "List.find (\<lambda>s. accepting units (step_at s)) frontier")
    case (Some s)
    then have "t = step_text s" using "1.prems"(3) ne by (subst (asm) walk_levels.simps) simp
    then show ?thesis using found_accepting [OF Some] "1.prems"(1) by (auto simp: on_level_def intro!: exI [of _ 0])
  next
    case None
    have ex: "\<not> exhausted bound seen" using "1.prems"(3) None by (subst (asm) walk_levels.simps) (auto split: if_splits)
    then have inv: "searched units frontier seen" using "1.prems"(2) by blast
    obtain seen' frontier' where sk: "skip_stars units bound (next_level units frontier) seen = (seen', frontier')" by fastforce
    have w: "walk_levels units bound frontier' seen' = Some t"
      using "1.prems"(3) ne None ex sk by (subst (asm) walk_levels.simps) simp
    note nxt = searched_next [OF inv "1.prems"(1) None sk]
    obtain k where k: "length t = (n + 1) + k" "\<forall>at \<in> seen_states units seen'. \<forall>v. accepts units at v \<longrightarrow> k \<le> length v"
      using "1.IH" [OF ne None ex sk [symmetric] on_next_level [OF "1.prems"(1) sk] _ w] nxt by blast
    have z: "k = 0" if "exhausted bound seen'"
      using walk_levels_stopped [OF that w on_next_level [OF "1.prems"(1) sk]] k(1) by simp
    have na: "\<not> accepting units at" if "at \<in> seen_states units seen" for at
      using inv that none_accepting [OF None] by (auto simp: searched_def settled_def)
    have "k + 1 \<le> length v" if at: "at \<in> seen_states units seen" and acc: "accepts units at v" for at v
    proof -
      obtain at' where a: "at' \<in> seen_states units seen" "well_placed units at'" "case v of [] \<Rightarrow> accepting units at'
          | c # w \<Rightarrow> \<exists>r onward. consume units at' = Some (r, onward) \<and> accepts units onward w"
        using accepts_step [OF acc at] inv at by (auto simp: searched_def seen_states_def)
      then obtain c w where v: "v = c # w" using na by (cases v) auto
      then obtain r onward where o: "consume units at' = Some (r, onward)" "accepts units onward w" using a(3) by auto
      show ?thesis
      proof (cases "exhausted bound seen'")
        case True
        then show ?thesis using z v by simp
      next
        case False
        then have "onward \<in> seen_states units seen'" using nxt a(1) o(1) by (auto simp: settled_def)
        then show ?thesis using k(2) o(2) v by auto
      qed
    qed
    then show ?thesis using k(1) by (intro exI [of _ "k + 1"]) auto
  qed
qed

text \<open>The states a bound has to cover: one position in each pattern, past its end included.\<close>

definition product_states :: "rune list list \<Rightarrow> nat" where
  "product_states units = prod_list (map (\<lambda>u. length u + 1) units)"

lemma well_placed_product: "{at. well_placed units at} = set (product_lists (map (\<lambda>u. [0..<length u + 1]) units))"
  by (auto simp: well_placed_def product_lists_set list_all2_conv_all_nth less_Suc_eq_le simp del: upt_Suc)

lemma length_product_states: "length (product_lists (map (\<lambda>u. [0..<length u + 1]) units)) = product_states units"
  unfolding product_states_def by (induction units) (simp_all add: length_concat o_def sum_list_triv)

lemma seen_bounded:
  assumes "distinct seen" "set seen \<subseteq> state_key ` {at. well_placed units at}"
  shows "length seen \<le> product_states units"
proof -
  have "length seen = card (set seen)" using assms(1) by (simp add: distinct_card)
  also have "\<dots> \<le> card (state_key ` {at. well_placed units at})"
    by (rule card_mono) (use assms(2) in \<open>auto simp: well_placed_product\<close>)
  also have "\<dots> \<le> card {at. well_placed units at}" by (rule card_image_le) (simp add: well_placed_product)
  also have "\<dots> \<le> product_states units"
    unfolding well_placed_product by (metis card_length length_product_states)
  finally show ?thesis .
qed

lemma seen_next:
  assumes "skip_stars units bound states seen = (seen', frontier')" "\<forall>s \<in> set states. well_placed units (step_at s)"
    "distinct seen" "set seen \<subseteq> state_key ` {at. well_placed units at}"
  shows "distinct seen' \<and> set seen' \<subseteq> state_key ` {at. well_placed units at}"
proof
  show "distinct seen'" using skip_stars_spec(2) [OF assms(1,3)] .
  have "well_placed units (step_at x)" if "x \<in> set frontier'" for x
    using skip_stars_spec(4) [OF assms(1) that] assms(2) by (auto simp: skipped_from_def)
  then show "set seen' \<subseteq> state_key ` {at. well_placed units at}"
    using skip_stars_spec(3) [OF assms(1)] assms(4) by auto
qed

lemma settled_rejects:
  assumes inv: "\<And>at. at \<in> seen_states units seen \<Longrightarrow> settled units seen at \<and>
    (\<forall>i < length units. waiting_star units at i \<longrightarrow> advance at i \<in> seen_states units seen)"
  shows "at \<in> seen_states units seen \<Longrightarrow> \<not> accepts units at v"
proof (induction v arbitrary: at)
  case Nil
  show ?case
  proof
    assume "accepts units at []"
    then obtain at' where "at' \<in> seen_states units seen" "accepting units at'"
      using accepts_step [of units at "[]" "seen_states units seen"] Nil inv by (auto simp: seen_states_def)
    then show False using inv by (simp add: settled_def)
  qed
next
  case (Cons c w)
  show ?case
  proof
    assume "accepts units at (c # w)"
    then obtain at' r onward where at': "at' \<in> seen_states units seen" "consume units at' = Some (r, onward)" "accepts units onward w"
      using accepts_step [of units at "c # w" "seen_states units seen"] Cons.prems inv by (auto simp: seen_states_def)
    then have "onward \<in> seen_states units seen" using inv [OF at'(1)] by (simp add: settled_def)
    then show False using Cons.IH at'(3) by blast
  qed
qed

lemma walk_levels_complete:
  "on_level units n frontier \<Longrightarrow> searched units frontier seen \<Longrightarrow> distinct seen \<Longrightarrow>
    set seen \<subseteq> state_key ` {at. well_placed units at} \<Longrightarrow> product_states units < bound \<Longrightarrow>
    walk_levels units bound frontier seen = None \<Longrightarrow> at \<in> seen_states units seen \<Longrightarrow> \<not> accepts units at v"
proof (induction units bound frontier seen arbitrary: n at v rule: walk_levels.induct)
  case (1 units bound frontier seen)
  show ?case
  proof (cases "frontier = []")
    case True
    then show ?thesis using "1.prems"(2) by (intro settled_rejects [OF _ "1.prems"(7)]) (simp add: searched_def)
  next
    case ne: False
    have find: "List.find (\<lambda>s. accepting units (step_at s)) frontier = None"
      using "1.prems"(6) ne by (subst (asm) walk_levels.simps) (auto split: option.splits)
    have ex: "\<not> exhausted bound seen"
      using seen_bounded [OF "1.prems"(3,4)] "1.prems"(5) by (simp add: exhausted_def)
    obtain seen' frontier' where sk: "skip_stars units bound (next_level units frontier) seen = (seen', frontier')" by fastforce
    have w: "walk_levels units bound frontier' seen' = None"
      using "1.prems"(6) ne find ex sk by (subst (asm) walk_levels.simps) simp
    have "well_placed units (step_at s)" if s: "s \<in> set (next_level units frontier)" for s
    proof -
      obtain s' r at where "s' \<in> set frontier" "consume units (step_at s') = Some (r, at)" "s = \<lparr>step_at = at, step_text = step_text s' @ [r]\<rparr>"
        using s in_next_level by blast
      then show ?thesis using consume_sound "1.prems"(1) by (auto simp: on_level_def)
    qed
    then have seen': "distinct seen'" "set seen' \<subseteq> state_key ` {at. well_placed units at}"
      using seen_next [OF sk _ "1.prems"(3,4)] by auto
    then have "\<not> exhausted bound seen'" using seen_bounded "1.prems"(5) by (fastforce simp: exhausted_def)
    then have "searched units frontier' seen'" using searched_next [OF "1.prems"(2,1) find sk] by blast
    moreover have "at \<in> seen_states units seen'"
      using "1.prems"(7) skip_stars_spec(3) [OF sk] by (auto simp: seen_states_def)
    ultimately show ?thesis
      using "1.IH" [OF ne find ex sk [symmetric] on_next_level [OF "1.prems"(1) sk] _ seen' "1.prems"(5) w] by blast
  qed
qed

section \<open>Properties\<close>

lemma start_state:
  fixes ps
  defines "units \<equiv> map runes ps" and "start \<equiv> replicate (length ps) 0"
  assumes sk: "skip_stars units bound [\<lparr>step_at = start, step_text = []\<rparr>] [] = (seen, frontier)"
  shows "well_placed units start" "accepts units start v \<longleftrightarrow> (\<forall>p \<in> set ps. wild_match (runes p) v)"
    "\<forall>s \<in> set frontier. leads_from units start s" "on_level units 0 frontier"
    "\<not> exhausted bound seen \<Longrightarrow> searched units frontier seen \<and> start \<in> seen_states units seen"
proof -
  show w: "well_placed units start" by (simp add: well_placed_nth units_def start_def)
  show "accepts units start v \<longleftrightarrow> (\<forall>p \<in> set ps. wild_match (runes p) v)"
    by (auto simp: accepts_nth units_def start_def all_set_conv_all_nth)
  have leads: "leads_from units start \<lparr>step_at = start, step_text = []\<rparr>" using w by (simp add: leads_from_def)
  have via: "skipped_from units \<lparr>step_at = start, step_text = []\<rparr> x" if "x \<in> set frontier" for x
    using skip_stars_spec(4) [OF sk that] by simp
  show "\<forall>s \<in> set frontier. leads_from units start s" using via leads leads_skip by blast
  show lev: "on_level units 0 frontier" using via w by (auto simp: on_level_def skipped_from_def)
  assume ex: "\<not> exhausted bound seen"
  have key: "state_key start \<in> set seen" using skip_stars_spec(6) [OF sk ex] by simp
  have "at \<in> step_at ` set frontier \<and> (\<forall>i < length units. waiting_star units at i \<longrightarrow> advance at i \<in> seen_states units seen)"
    if at: "at \<in> seen_states units seen" for at
  proof -
    obtain x where x: "x \<in> set frontier" "state_key at = state_key (step_at x)" and wat: "well_placed units at"
      using at skip_stars_spec(3) [OF sk] by (auto simp: seen_states_def)
    then have a: "at = step_at x" using key_of_step lev by (auto simp: on_level_def)
    then show ?thesis using x(1) skip_stars_spec(5) [OF sk ex x(1)] well_placed_advance [OF wat] by (auto simp: seen_states_def)
  qed
  then show "searched units frontier seen \<and> start \<in> seen_states units seen"
    using key w by (auto simp: searched_def seen_states_def)
qed

text \<open>What shared_instance returns every pattern matches, and nothing shorter does.\<close>

lemma shortest_shared_Some:
  assumes "shortest_shared ps bound = Some w"
  shows "(\<forall>p \<in> set ps. wild_match (runes p) (runes w)) \<and>
    (\<forall>v. (\<forall>p \<in> set ps. wild_match (runes p) v) \<longrightarrow> length (runes w) \<le> length v)"
proof -
  let ?units = "map runes ps"
  obtain seen frontier where sk: "skip_stars ?units bound [\<lparr>step_at = replicate (length ps) 0, step_text = []\<rparr>] [] = (seen, frontier)"
    by fastforce
  note start = start_state [OF sk]
  obtain t where t: "walk_levels ?units bound frontier seen = Some t" "w = encode_runes t"
    using assms sk by (auto simp: shortest_shared_def)
  have sound: "accepts ?units (replicate (length ps) 0) t" "set t \<subseteq> insert 120 (\<Union>(set ` set ?units))"
    using walk_levels_sound [OF start(3) t(1)] by auto
  have "\<forall>r \<in> set t. r = 120 \<or> (\<exists>p \<in> set ps. r \<in> set (runes p))" using sound(2) by auto
  moreover have "valid_rune 120" by (simp add: valid_rune_def)
  ultimately have "\<forall>r \<in> set t. valid_rune r" using runes_valid by metis
  then have w: "runes w = t" using t(2) runes_encode_runes by simp
  obtain k where k: "length t = 0 + k" "\<forall>at \<in> seen_states ?units seen. \<forall>v. accepts ?units at v \<longrightarrow> k \<le> length v"
    using walk_levels_shortest [OF start(4) _ t(1)] start(5) by blast
  have "length t \<le> length v" if v: "\<forall>p \<in> set ps. wild_match (runes p) v" for v
  proof (cases "exhausted bound seen")
    case True
    then show ?thesis using walk_levels_stopped [OF _ t(1) start(4)] by simp
  next
    case False
    then have "replicate (length ps) 0 \<in> seen_states ?units seen" using start(5) by blast
    moreover have "accepts ?units (replicate (length ps) 0) v" using start(2) v by blast
    ultimately show ?thesis using k by auto
  qed
  then show ?thesis using w sound(1) start(2) by blast
qed

lemma shortest_shared_None:
  assumes "shortest_shared ps bound = None" "product_states (map runes ps) < bound"
  shows "\<exists>p \<in> set ps. \<not> wild_match (runes p) v"
proof -
  let ?units = "map runes ps" and ?start = "\<lparr>step_at = replicate (length ps) 0, step_text = []\<rparr>"
  obtain seen frontier where sk: "skip_stars ?units bound [?start] [] = (seen, frontier)" by fastforce
  note start = start_state [OF sk]
  have none: "walk_levels ?units bound frontier seen = None" using assms(1) sk by (simp add: shortest_shared_def)
  have seen: "distinct seen" "set seen \<subseteq> state_key ` {at. well_placed ?units at}"
    using seen_next [OF sk] start(1) by auto
  then have "\<not> exhausted bound seen" using seen_bounded assms(2) by (fastforce simp: exhausted_def)
  then have "\<not> accepts ?units (replicate (length ps) 0) v"
    using walk_levels_complete [OF start(4) _ seen assms(2) none] start(5) by blast
  then show ?thesis using start(2) by blast
qed

text \<open>
  C27: The search for an example is right and, below its bound, decides: the string it returns
  is matched by every pattern of the list and no shorter one is; and where the patterns have fewer
  positions to combine than the bound, its no means that no string matches them all.
\<close>

theorem walk_finds_the_shortest:
  "(\<forall>w. shared_instance ps = Some w \<longrightarrow>
      (\<forall>p \<in> set ps. glob_contains (make_glob p) w) \<and>
      (\<forall>v. (\<forall>p \<in> set ps. glob_contains (make_glob p) v) \<longrightarrow> length (runes w) \<le> length (runes v)))
    \<and> (shared_instance ps = None \<and> product_states (map runes ps) < walkBound \<longrightarrow>
      \<not> (\<exists>v. \<forall>p \<in> set ps. glob_contains (make_glob p) v))"
  using shortest_shared_Some [of ps walkBound] shortest_shared_None [of ps walkBound]
  unfolding shared_instance_def glob_contains_wild by blast

theorem walk_finds_the_shortest_witness:
  "shared_instance [''repo:acme/*'', ''*:ref:*main''] = Some ''repo:acme/:ref:main''
    \<and> glob_contains (make_glob ''repo:acme/*'') ''repo:acme/:ref:main'' \<and> (\<nexists>v. glob_contains (make_glob ''a*'') v \<and> glob_contains (make_glob ''b?'') v)"
proof -
  have s: "shared_instance [''repo:acme/*'', ''*:ref:*main''] = Some ''repo:acme/:ref:main''" by code_simp
  have n: "shared_instance [''a*'', ''b?''] = None \<and> product_states (map runes [''a*'', ''b?'']) < walkBound" by code_simp
  show ?thesis using s walk_finds_the_shortest [of "[''repo:acme/*'', ''*:ref:*main'']"]
    n walk_finds_the_shortest [of "[''a*'', ''b?'']"] by simp
qed

end
