(* ===== verification/Join_Shape.thy ===== *)
theory Join_Shape imports Join_Walk begin

text \<open>
  Package join, the readings of witness.go: a constraint read back from the rendering package eval
  gives it, which is all the join can see of one, and the example values built from it. The round
  trip shows that every constraint package eval builds, top and empty apart, is read back as it
  is, so that the panic on an unknown rendering is never reached, and that an example is a value
  the constraint admits.
\<close>

section \<open>Shapes read from renderings\<close>

datatype join_kind = exactValue | globPattern | allOf | anyOf

datatype join_shape = JoinShape (join_kind: join_kind) (join_text: string) (join_members: "join_shape list")

text \<open>
  quoted. QuotedPrefix would also read a raw or a rune literal; no rendering holds one, and only
  the literal in double quotes is read here.
\<close>

fun quoted :: "string \<Rightarrow> (string \<times> string) option" where
  "quoted [] = None"
| "quoted (c # text) = (if c = dquote then unquote_body text else None)"

text \<open>The separator parseMembers settles on after the first member, and its checks after the last.\<close>

definition separator :: "string \<Rightarrow> string" where
  "separator rest = (if has_prefix rest '' & '' then '' & '' else '' | '')"

definition close_members :: "string \<Rightarrow> join_shape list \<Rightarrow> string \<Rightarrow> (join_shape \<times> string) option" where
  "close_members sep members rest =
     (let kind = (if sep = '' & '' then allOf else anyOf) in
      if length members < 2 \<or> \<not> has_prefix rest '')'' then None
      else if kind = allOf \<and> list_ex (\<lambda>m. join_kind m \<noteq> globPattern) members then None
      else Some (JoinShape kind [] members, drop 1 rest))"

text \<open>parseShape with parseMembers in its last branch, whose loop over the members is the second function.\<close>

function parse_shape :: "string \<Rightarrow> (join_shape \<times> string) option"
  and parse_more :: "string \<Rightarrow> string \<Rightarrow> join_shape list \<Rightarrow> (join_shape list \<times> string) option" where
  "parse_shape s =
     (if has_prefix s ''like:'' then map_option (\<lambda>(p, rest). (JoinShape globPattern p [], rest)) (quoted (drop 5 s))
      else if has_prefix s [dquote] then map_option (\<lambda>(v, rest). (JoinShape exactValue v [], rest)) (quoted s)
      else if has_prefix s ''('' then
        (case parse_shape (drop 1 s) of
           None \<Rightarrow> None
         | Some (first, rest) \<Rightarrow>
           (case parse_more (separator rest) rest [first] of
              None \<Rightarrow> None
            | Some (members, rest') \<Rightarrow> close_members (separator rest) members rest'))
      else None)"
| "parse_more sep rest members =
     (if has_prefix rest sep
      then (case parse_shape (drop (length sep) rest) of None \<Rightarrow> None | Some (m, rest') \<Rightarrow> parse_more sep rest' (members @ [m]))
      else Some (members, rest))"
  by pat_completeness auto

lemma unquote_body_length: "unquote_body s = Some (w, t) \<Longrightarrow> length t < length s"
proof (induction s arbitrary: w rule: unquote_body.induct)
  case (1 s)
  show ?case
  proof (cases s)
    case Nil
    then show ?thesis using "1.prems" by (subst (asm) unquote_body.simps) simp
  next
    case (Cons c u)
    show ?thesis
    proof (cases "c = dquote \<or> c = CHR 0x0A")
      case True
      then show ?thesis using "1.prems" Cons by (subst (asm) unquote_body.simps) (auto split: if_splits)
    next
      case False
      then obtain r m v w' where v: "unquote_char s = Some (r, m, v)" "unquote_body v = Some (w', t)"
        using "1.prems" Cons by (subst (asm) unquote_body.simps) (auto split: option.splits simp del: unquote_char.simps)
      then have "length t < length v" using "1.IH" [OF Cons _ _ v(1) refl refl v(2)] False by blast
      then show ?thesis using unquote_char_length [OF v(1)] by simp
    qed
  qed
qed

lemma quoted_length: "quoted s = Some (w, t) \<Longrightarrow> length t < length s"
  by (cases s) (auto split: if_splits dest: unquote_body_length)

lemma close_members_length: "close_members sep ms r = Some (m, u) \<Longrightarrow> length u < length r"
  by (cases r) (auto simp: close_members_def Let_def has_prefix_def split: if_splits)

lemma parse_lengths:
  "parse_shape_parse_more_dom (Inl s) \<Longrightarrow> (\<And>m u. parse_shape s = Some (m, u) \<Longrightarrow> length u < length s)"
  "parse_shape_parse_more_dom (Inr (sep, rest, ms)) \<Longrightarrow> (\<And>ms' v. parse_more sep rest ms = Some (ms', v) \<Longrightarrow> length v \<le> length rest)"
proof (induct rule: parse_shape_parse_more.pinduct)
  case (1 s)
  show ?case
  proof (cases "\<not> has_prefix s ''like:'' \<and> \<not> has_prefix s [dquote]")
    case False
    then show ?thesis using "1.prems" "1.hyps" by (auto simp: parse_shape.psimps dest!: quoted_length split: if_splits)
  next
    case q: True
    have o: "has_prefix s ''(''" using "1.prems" "1.hyps" q by (auto simp: parse_shape.psimps split: if_splits)
    obtain m' rest where m: "parse_shape (drop 1 s) = Some (m', rest)"
      using "1.prems" "1.hyps"(1) q o by (auto simp: parse_shape.psimps split: option.splits)
    obtain ms v where ms: "parse_more (separator rest) rest [m'] = Some (ms, v)" "close_members (separator rest) ms v = Some (m, u)"
      using "1.prems" "1.hyps"(1) q o m by (auto simp: parse_shape.psimps split: option.splits)
    have "length rest < length (drop 1 s)" using "1.hyps"(2) q o m by blast
    moreover have "length v \<le> length rest" using "1.hyps"(3) q o m ms(1) by blast
    ultimately show ?thesis using close_members_length [OF ms(2)] by simp
  qed
next
  case (2 sep rest ms)
  show ?case
  proof (cases "has_prefix rest sep")
    case True
    obtain m r where m: "parse_shape (drop (length sep) rest) = Some (m, r)" "parse_more sep r (ms @ [m]) = Some (ms', v)"
      using "2.prems" "2.hyps"(1) True by (auto simp: parse_more.psimps split: option.splits)
    have "length r < length (drop (length sep) rest)" using "2.hyps"(2) True m(1) by blast
    moreover have "length v \<le> length r" using "2.hyps"(3) True m by blast
    ultimately show ?thesis by simp
  next
    case False
    then show ?thesis using "2.prems" "2.hyps"(1) by (simp add: parse_more.psimps)
  qed
qed

termination parse_shape
proof (relation "measure (\<lambda>x. case x of Inl s \<Rightarrow> 2 * length s | Inr (sep, rest, ms) \<Rightarrow> 2 * length rest + 1)", goal_cases)
  case (3 s x m rest)
  then show ?case using parse_lengths(1) [of "drop 1 s" m rest] by (cases s) (auto simp: has_prefix_def)
next
  case (5 sep rest ms x m r)
  then show ?case using parse_lengths(1) [of "drop (length sep) rest" m r] by auto
qed (auto simp: has_prefix_def prefix_def)

declare parse_shape.simps [simp del] parse_more.simps [simp del]

text \<open>readShape, None where it panics.\<close>

definition read_shape :: "string \<Rightarrow> join_shape option" where
  "read_shape text = (case parse_shape text of Some (s, []) \<Rightarrow> Some s | _ \<Rightarrow> None)"

text \<open>The constraint struct: the shape is read only where the claim is not top.\<close>

record joined_constraint =
  constrained_claim :: claim_key
  constrained_shape :: "join_shape option"

text \<open>constraintsOf, over the entries of a term in claim order.\<close>

fun constraints_of :: "claim_term \<Rightarrow> joined_constraint list option" where
  "constraints_of [] = Some []"
| "constraints_of ((k, s) # t) =
     (if is_top s then map_option (\<lambda>cs. \<lparr>constrained_claim = k, constrained_shape = None\<rparr> # cs) (constraints_of t)
      else case read_shape (render s) of
        None \<Rightarrow> None
      | Some sh \<Rightarrow> map_option (\<lambda>cs. \<lparr>constrained_claim = k, constrained_shape = Some sh\<rparr> # cs) (constraints_of t))"

section \<open>Example values\<close>

definition shape_patterns :: "join_shape \<Rightarrow> string list" where
  "shape_patterns s = map join_text (join_members s)"

fun first_found :: "'a option list \<Rightarrow> 'a option" where
  "first_found [] = None"
| "first_found (x # xs) = (case x of Some w \<Rightarrow> Some w | None \<Rightarrow> first_found xs)"

fun shape_witness :: "join_shape \<Rightarrow> string option" where
  "shape_witness (JoinShape k text ms) =
     (case k of
        exactValue \<Rightarrow> Some text
      | globPattern \<Rightarrow> shared_instance [text]
      | allOf \<Rightarrow> shared_instance (shape_patterns (JoinShape k text ms))
      | anyOf \<Rightarrow> first_found (map shape_witness ms))"

text \<open>termWitness. A token is the list of its claims, in claim order.\<close>

fun term_witness :: "joined_constraint list \<Rightarrow> (claim_key \<times> string) list option" where
  "term_witness [] = Some []"
| "term_witness (c # cs) =
     (case constrained_shape c of
        None \<Rightarrow> term_witness cs
      | Some s \<Rightarrow>
        (case shape_witness s of
           None \<Rightarrow> None
         | Some v \<Rightarrow> map_option (\<lambda>tok. (constrained_claim c, v) # tok) (term_witness cs)))"

text \<open>witnessOf, None where a rendering cannot be read, Some None for Go's nil.\<close>

fun witness_in :: "claim_term list \<Rightarrow> admitted_set \<Rightarrow> admitted_set \<Rightarrow> (claim_key \<times> string) list option option" where
  "witness_in [] a b = Some None"
| "witness_in (t # ts) a b =
     (case constraints_of t of
        None \<Rightarrow> None
      | Some cs \<Rightarrow>
        (case term_witness cs of
           Some tok \<Rightarrow> if admits a (map_of tok) \<and> admits b (map_of tok) then Some (Some tok) else witness_in ts a b
         | None \<Rightarrow> witness_in ts a b))"

definition witness_of :: "admitted_set \<Rightarrow> admitted_set \<Rightarrow> admitted_set \<Rightarrow> (claim_key \<times> string) list option option" where
  "witness_of overlap a b = witness_in (admitted_terms overlap) a b"

section \<open>Renderings are read back\<close>

text \<open>What the join makes of a node of package eval.\<close>

fun joined :: "string_set \<Rightarrow> join_shape" where
  "joined (SExact v) = JoinShape exactValue v []"
| "joined (SGlob g) = JoinShape globPattern (glob_pattern g) []"
| "joined (SInter gs) = JoinShape allOf [] (map (\<lambda>g. JoinShape globPattern (glob_pattern g) []) gs)"
| "joined (SUnion ms) = JoinShape anyOf [] (map joined ms)"
| "joined _ = JoinShape anyOf [] []"

lemma quoted_quote [simp]: "quoted (quote_to_ascii v @ t) = Some (v, t)"
  using unquote_quote [of v t] by (simp add: quote_to_ascii_def)

lemma parse_exact: "parse_shape (quote_to_ascii v @ t) = Some (JoinShape exactValue v [], t)"
proof -
  have "\<not> has_prefix (quote_to_ascii v @ t) ''like:''" "has_prefix (quote_to_ascii v @ t) [dquote]"
    by (auto simp: quote_to_ascii_def has_prefix_def dquote_def)
  then show ?thesis by (subst parse_shape.simps) simp
qed

lemma parse_glob: "parse_shape (render_glob g @ t) = Some (JoinShape globPattern (glob_pattern g) [], t)"
proof -
  have "has_prefix (render_glob g @ t) ''like:''" "drop 5 (render_glob g @ t) = quote_to_ascii (glob_pattern g) @ t"
    by (simp_all add: render_glob_def has_prefix_def)
  then show ?thesis by (subst parse_shape.simps) simp
qed

text \<open>A list of two members or more, in parentheses, given that each member is read.\<close>

lemma parse_more_members:
  assumes "\<And>m t. m \<in> set xs \<Longrightarrow> parse_shape (f m @ t) = Some (g m, t)" "sep = '' & '' \<or> sep = '' | ''"
  shows "parse_more sep (concat (map (\<lambda>m. sep @ f m) xs) @ '')'' @ t) ms = Some (ms @ map g xs, '')'' @ t)"
  using assms(1)
proof (induction xs arbitrary: ms)
  case Nil
  then show ?case using assms(2) by (subst parse_more.simps) (auto simp: has_prefix_def)
next
  case (Cons x xs)
  let ?rest = "concat (map (\<lambda>m. sep @ f m) xs) @ '')'' @ t"
  have "parse_shape (f x @ ?rest) = Some (g x, ?rest)" using Cons.prems by simp
  then show ?case
    using Cons.IH [of "ms @ [g x]"] Cons.prems by (subst parse_more.simps) simp
qed

lemma parse_members:
  assumes read: "\<And>m t. m \<in> set xs \<Longrightarrow> parse_shape (f m @ t) = Some (g m, t)" and sep: "sep = '' & '' \<or> sep = '' | ''"
    and two: "2 \<le> length xs" and globs: "sep = '' & '' \<Longrightarrow> \<forall>m \<in> set xs. join_kind (g m) = globPattern"
  shows "parse_shape (render_members (map f xs) sep @ t) = Some (JoinShape (if sep = '' & '' then allOf else anyOf) [] (map g xs), t)"
proof -
  obtain x ys where xs: "xs = x # ys" "ys \<noteq> []" using two by (cases xs; cases "tl xs") auto
  let ?rest = "concat (map (\<lambda>m. sep @ f m) ys) @ '')'' @ t"
  have join: "join_strings sep (map f xs) = f x @ concat (map (\<lambda>m. sep @ f m) ys)"
    unfolding xs(1) by (induction ys arbitrary: x) auto
  have whole: "render_members (map f xs) sep @ t = CHR ''('' # f x @ ?rest"
    by (simp add: render_members_def join)
  have first: "parse_shape (f x @ ?rest) = Some (g x, ?rest)" using read xs by simp
  have sp: "separator ?rest = sep" using sep xs(2) by (cases ys) (auto simp: separator_def has_prefix_def)
  have more: "parse_more sep ?rest [g x] = Some ([g x] @ map g ys, '')'' @ t)"
    by (rule parse_more_members [OF _ sep]) (use read xs in auto)
  have "close_members sep (map g xs) ('')'' @ t) = Some (JoinShape (if sep = '' & '' then allOf else anyOf) [] (map g xs), t)"
    using two globs by (auto simp: close_members_def Let_def has_prefix_def list_ex_iff)
  moreover have "\<not> has_prefix (CHR ''('' # f x @ ?rest) ''like:''" "\<not> has_prefix (CHR ''('' # f x @ ?rest) [dquote]"
    "has_prefix (CHR ''('' # f x @ ?rest) ''(''"
    by (auto simp: has_prefix_def dquote_def)
  ultimately show ?thesis
    unfolding whole using first sp more xs(1) by (subst parse_shape.simps) simp
qed

lemma parse_term:
  assumes "wf_term s"
  shows "parse_shape (render s @ t) = Some (joined s, t)"
proof (cases s)
  case (SInter gs)
  then have two: "2 \<le> length gs" using assms by simp
  have "parse_shape (render_members (map render_glob gs) '' & '' @ t) = Some (JoinShape (if '' & '' = '' & '' then allOf else anyOf) []
      (map (\<lambda>g. JoinShape globPattern (glob_pattern g) []) gs), t)"
    by (rule parse_members [OF parse_glob _ two]) simp_all
  then show ?thesis by (simp add: SInter)
qed (use assms in \<open>auto simp: parse_exact parse_glob\<close>)

lemma parse_set:
  assumes "wf_set s" "\<not> is_top s" "\<not> is_empty s"
  shows "parse_shape (render s @ t) = Some (joined s, t)"
proof (cases s)
  case (SUnion ms)
  then have two: "2 \<le> length ms" and m: "m \<in> set ms \<Longrightarrow> parse_shape (render m @ t) = Some (joined m, t)" for m t
    using assms(1) parse_term by (auto simp: list_all_iff)
  have "parse_shape (render_members (map render ms) '' | '' @ t) = Some (JoinShape (if '' | '' = '' & '' then allOf else anyOf) [] (map joined ms), t)"
    by (rule parse_members [OF m _ two]) simp_all
  then show ?thesis by (simp add: SUnion)
next
  case (SInter gs)
  then show ?thesis using parse_term [of s t] assms(1) by simp
qed (use assms parse_term in \<open>auto simp: parse_exact parse_glob\<close>)

lemma read_shape_render: "wf_set s \<Longrightarrow> \<not> is_top s \<Longrightarrow> \<not> is_empty s \<Longrightarrow> read_shape (render s) = Some (joined s)"
  using parse_set [of s "[]"] by (simp add: read_shape_def)

section \<open>Example values are admitted\<close>

lemma first_found_Some: "first_found xs = Some w \<Longrightarrow> Some w \<in> set xs"
  by (induction xs) (auto split: option.splits)

lemma wf_glob_pattern: "wf_glob g \<Longrightarrow> glob_contains (make_glob (glob_pattern g)) v \<longleftrightarrow> glob_contains g v"
proof -
  assume "wf_glob g"
  then have "Glob (glob_pattern g) = SGlob g" by (simp add: wf_glob_def)
  then have "g = make_glob (glob_pattern g)" by (auto simp: Glob_def split: if_splits)
  then show ?thesis by simp
qed

lemma shared_instance_contains:
  assumes "shared_instance (map glob_pattern gs) = Some w" "\<forall>g \<in> set gs. wf_glob g"
  shows "\<forall>g \<in> set gs. glob_contains g w"
proof
  fix g assume g: "g \<in> set gs"
  have "wild_match (runes (glob_pattern g)) (runes w)"
    using shortest_shared_Some [of "map glob_pattern gs" walkBound w] assms(1) g by (simp add: shared_instance_def)
  then show "glob_contains g w" using wf_glob_pattern [of g w] assms(2) g by (simp add: glob_contains_wild)
qed

lemma term_shape_witness: "wf_term s \<Longrightarrow> shape_witness (joined s) = Some w \<Longrightarrow> contains s w"
proof (cases s)
  case (SGlob g)
  assume "wf_term s" "shape_witness (joined s) = Some w"
  then show "contains s w" using shared_instance_contains [of "[g]" w] by (simp add: SGlob)
next
  case (SInter gs)
  assume "wf_term s" "shape_witness (joined s) = Some w"
  then show "contains s w"
    using shared_instance_contains [of gs w] by (simp add: SInter shape_patterns_def list_all_iff o_def)
qed simp_all

lemma shape_witness_contains:
  assumes "wf_set s" "shape_witness (joined s) = Some w" "\<not> is_top s" "\<not> is_empty s"
  shows "contains s w"
proof (cases s)
  case (SUnion ms)
  then obtain m where "m \<in> set ms" "shape_witness (joined m) = Some w"
    using assms(2) first_found_Some by fastforce
  then show ?thesis using assms(1) term_shape_witness [of m w] by (auto simp: SUnion list_all_iff list_ex_iff)
next
  case (SInter gs)
  then show ?thesis using term_shape_witness [of s w] assms by simp
next
  case (SGlob g)
  then show ?thesis using term_shape_witness [of s w] assms by simp
qed (use assms in simp_all)

lemma constraints_defined: "good_term t \<Longrightarrow> lean_term t \<Longrightarrow> constraints_of t \<noteq> None"
proof (induction t rule: constraints_of.induct)
  case (2 k s t)
  have t: "good_term t" "lean_term t" "wf_set s" "\<not> is_empty s"
    using "2.prems" by (auto simp: good_term_Cons lean_term_def)
  show ?case
  proof (cases "is_top s")
    case True
    then show ?thesis using "2.IH"(1) t by simp
  next
    case False
    then have "read_shape (render s) = Some (joined s)" using read_shape_render t by blast
    then show ?thesis using "2.IH"(2) [OF False] t False by auto
  qed
qed simp

lemma constraints_witness:
  "good_term t \<Longrightarrow> lean_term t \<Longrightarrow> constraints_of t = Some cs \<Longrightarrow> term_witness cs = Some tok \<Longrightarrow>
    set (map fst tok) \<subseteq> set (map fst t) \<and>
    (\<forall>(k, s) \<in> set t. case map_of tok k of Some v \<Rightarrow> contains s v | None \<Rightarrow> is_top s)"
proof (induction t arbitrary: cs tok rule: constraints_of.induct)
  case (2 k s t)
  have t: "good_term t" "lean_term t" "wf_set s" "\<not> is_empty s" "k \<notin> set (map fst t)"
    using "2.prems" by (auto simp: good_term_Cons lean_term_def)
  show ?case
  proof (cases "is_top s")
    case True
    then obtain ds where "constraints_of t = Some ds" "term_witness ds = Some tok" using "2.prems"(3,4) by auto
    then have IH: "set (map fst tok) \<subseteq> set (map fst t)"
      "\<forall>(k, s) \<in> set t. case map_of tok k of Some v \<Rightarrow> contains s v | None \<Rightarrow> is_top s"
      using "2.IH"(1) [OF True t(1,2)] by blast+
    then have "map_of tok k = None" using t(5) by (auto simp: map_of_eq_None_iff)
    then show ?thesis using IH True by auto
  next
    case False
    then have r: "read_shape (render s) = Some (joined s)" using read_shape_render t by blast
    then obtain ds v tok' where ds: "constraints_of t = Some ds" "shape_witness (joined s) = Some v"
      "term_witness ds = Some tok'" "tok = (k, v) # tok'"
      using "2.prems"(3,4) False by (auto split: option.splits)
    then have IH: "set (map fst tok') \<subseteq> set (map fst t)"
      "\<forall>(k, s) \<in> set t. case map_of tok' k of Some v \<Rightarrow> contains s v | None \<Rightarrow> is_top s"
      using "2.IH"(2) [OF False r t(1,2)] by blast+
    have "contains s v" by (rule shape_witness_contains [OF t(3) ds(2) False t(4)])
    moreover have "map_of tok j = map_of tok' j" if "j \<in> set (map fst t)" for j
      using that t(5) ds(4) by auto
    moreover have "map_of tok k = Some v" using ds(4) by simp
    ultimately have "case map_of tok j of Some v \<Rightarrow> contains u v | None \<Rightarrow> is_top u" if "(j, u) \<in> set ((k, s) # t)" for j u
    proof (cases "(j, u) \<in> set t")
      case True
      then have "j \<in> set (map fst t)" by force
      then show ?thesis using IH(2) True \<open>\<And>j. j \<in> set (map fst t) \<Longrightarrow> map_of tok j = map_of tok' j\<close> by auto
    next
      case False
      then show ?thesis using that \<open>map_of tok k = Some v\<close> \<open>contains s v\<close> by simp
    qed
    then have "\<forall>(j, u) \<in> set ((k, s) # t). case map_of tok j of Some v \<Rightarrow> contains u v | None \<Rightarrow> is_top u" by blast
    moreover have "set (map fst tok) \<subseteq> set (map fst ((k, s) # t))" using IH(1) ds(4) by auto
    ultimately show ?thesis by blast
  qed
qed simp

lemma witness_in_admitted:
  "\<forall>t \<in> set ts. good_term t \<and> lean_term t \<Longrightarrow>
    \<exists>r. witness_in ts a b = Some r \<and>
      (\<forall>tok. r = Some tok \<longrightarrow> (\<exists>t \<in> set ts. term_admits (map_of tok) t) \<and> admits a (map_of tok) \<and> admits b (map_of tok))"
proof (induction ts)
  case (Cons t ts)
  then obtain r where r: "witness_in ts a b = Some r"
    "\<forall>tok. r = Some tok \<longrightarrow> (\<exists>t \<in> set ts. term_admits (map_of tok) t) \<and> admits a (map_of tok) \<and> admits b (map_of tok)" by auto
  obtain cs where cs: "constraints_of t = Some cs" using constraints_defined Cons.prems by fastforce
  show ?case
  proof (cases "\<exists>tok. term_witness cs = Some tok \<and> admits a (map_of tok) \<and> admits b (map_of tok)")
    case True
    then obtain tok where tok: "term_witness cs = Some tok" "admits a (map_of tok)" "admits b (map_of tok)" by blast
    then have "term_admits (map_of tok) t"
      using constraints_witness [OF _ _ cs tok(1)] Cons.prems by (auto simp: term_admits_def satisfies_def)
    then show ?thesis using cs tok by auto
  next
    case False
    then have "witness_in (t # ts) a b = Some r" using cs r(1) by (auto split: option.splits)
    then show ?thesis using r(2) by auto
  qed
qed simp

lemma canonical_terms: "canonical_set a \<Longrightarrow> t \<in> set (admitted_terms a) \<Longrightarrow> good_term t \<and> lean_term t"
  by (auto simp: canonical_set_def lean_term_def)

lemma witness_of_admitted:
  assumes "canonical_set overlap"
  shows "\<exists>r. witness_of overlap a b = Some r \<and>
    (\<forall>tok. r = Some tok \<longrightarrow> admits overlap (map_of tok) \<and> admits a (map_of tok) \<and> admits b (map_of tok))"
  using witness_in_admitted [of "admitted_terms overlap" a b] canonical_terms [OF assms]
  by (auto simp: witness_of_def admits_iff)

section \<open>Properties\<close>

text \<open>
  C28: What the join reads back of a constraint is the constraint: the rendering of every set
  package eval builds, top and empty apart, is read without the panic as the same node, and a value
  the join makes an example of is one the set admits.
\<close>

theorem renderings_are_read_back:
  assumes "built s" "\<not> is_top s" "\<not> is_empty s"
  shows "read_shape (render s) = Some (joined s) \<and> (shape_witness (joined s) = Some w \<longrightarrow> contains s w)"
  using read_shape_render shape_witness_contains built_wf [OF assms(1)] assms(2,3) by blast

theorem renderings_are_read_back_witness:
  "read_shape (render (join (Exact ''a|b'') (Glob ''x*''))) =
      Some (JoinShape anyOf [] [JoinShape exactValue ''a|b'' [], JoinShape globPattern ''x*'' []])
    \<and> contains (join (Exact ''a|b'') (Glob ''x*'')) ''a|b''"
proof -
  let ?s = "join (Exact ''a|b'') (Glob ''x*'')"
  have "built ?s" "\<not> is_top ?s" "\<not> is_empty ?s"
    "joined ?s = JoinShape anyOf [] [JoinShape exactValue ''a|b'' [], JoinShape globPattern ''x*'' []]"
    "shape_witness (joined ?s) = Some ''a|b''"
    by (auto intro: built.intros) code_simp+
  then show ?thesis using renderings_are_read_back [of ?s] by simp
qed

end
