(* ===== verification/Join_Link.thy ===== *)
theory Join_Link imports Join_Shape Trust_Grant "HOL-Library.Monad_Syntax" begin

text \<open>
  Package join, link.go: the fan-out link between two grants on two targets, or the reason the two
  are no pair. A panic, which only a rendering that cannot be read or a meet that cannot be taken
  could raise, is None; a refusal of the code is Inl the error, with its text and the sentinel it
  wraps. The copies a link takes of what it holds are the values themselves.
\<close>

section \<open>Links\<close>

definition CounterpartyFanOut :: string where "CounterpartyFanOut = ''counterparty-fan-out''"

definition Established :: string where "Established = ''established''"
definition Indeterminate :: string where "Indeterminate = ''indeterminate''"

record grant_ref =
  ref_target :: target_ref
  ref_issuer :: string
  ref_effect :: string
  ref_admits :: string
  ref_caveats :: "caveat list"

record counterparty_ref =
  counterparty_issuer :: string
  counterparty_overlap :: string
  counterparty_witness :: "(claim_key \<times> string) list option"

record link =
  link_kind :: string
  link_grants :: "grant_ref list"
  link_subject :: counterparty_ref
  link_confidence :: string
  link_reason :: string
  link_sentence :: string
  link_provenance :: "evidence_record list"

text \<open>Valid: the zero link has no kind.\<close>

definition link_valid :: "link \<Rightarrow> bool" where
  "link_valid l \<longleftrightarrow> link_kind l \<noteq> []"

text \<open>The sentinels, and an error as its text and the sentinel it wraps.\<close>

datatype link_refusal =
  ErrNoTarget | ErrNoEvidence | ErrMalformedEvidence | ErrSameTarget | ErrDifferentIssuers | ErrDeny | ErrDisjoint

fun refusal_text :: "link_refusal \<Rightarrow> string" where
  "refusal_text ErrNoTarget = ''names no target''"
| "refusal_text ErrNoEvidence = ''carries no evidence''"
| "refusal_text ErrMalformedEvidence = ''carries only malformed evidence records''"
| "refusal_text ErrSameTarget = ''one target on both sides''"
| "refusal_text ErrDifferentIssuers = ''different issuers''"
| "refusal_text ErrDeny = ''a Deny grant admits nobody and is not a side''"
| "refusal_text ErrDisjoint = ''the admitted sets are provably disjoint''"

record link_error =
  error_text :: string
  error_wraps :: link_refusal

definition wrap :: "string \<Rightarrow> link_error \<Rightarrow> link_error" where
  "wrap pair e = \<lparr>error_text = pair @ '': '' @ error_text e, error_wraps = error_wraps e\<rparr>"

definition refuse :: "string \<Rightarrow> link_refusal \<Rightarrow> link_error" where
  "refuse pre s = \<lparr>error_text = pre @ refusal_text s, error_wraps = s\<rparr>"

section \<open>Names in a sentence\<close>

definition printable_text :: "string \<Rightarrow> string" where
  "printable_text s = strings_map (\<lambda>r. if r < 32 \<or> 127 \<le> r \<and> r \<le> 159 then None else Some r) s"

text \<open>strings.TrimSpace reads the valid UTF-8 strings.Map returns.\<close>

definition blank :: "string \<Rightarrow> bool" where
  "blank s \<longleftrightarrow> trim_space (printable_text s) = []"

definition describe_target :: "target_ref \<Rightarrow> string" where
  "describe_target t = (if blank (target_kind t) then target_id t else target_kind t @ '' '' @ target_id t)"

definition grant_name :: "grant \<Rightarrow> string" where
  "grant_name g = (if blank (target_id (grant_target g)) then ''a grant'' else describe_target (grant_target g))"

definition describe_grant :: "grant \<Rightarrow> string" where
  "describe_grant g = (if blank (grant_issuer g) then grant_name g else grant_name g @ '' from '' @ grant_issuer g)"

definition may_share_issuer :: "string \<Rightarrow> string \<Rightarrow> bool" where
  "may_share_issuer x y \<longleftrightarrow> blank x \<or> blank y \<or> x = y"

definition pair_issuer :: "grant \<Rightarrow> grant \<Rightarrow> string" where
  "pair_issuer a b = (if \<not> blank (grant_issuer a) then grant_issuer a else if \<not> blank (grant_issuer b) then grant_issuer b else [])"

definition from_issuer :: "string \<Rightarrow> string" where
  "from_issuer issuer = (if issuer = [] then [] else '' from '' @ issuer)"

definition issuer_phrase :: "string \<Rightarrow> string" where
  "issuer_phrase issuer = (if blank issuer then ''an issuer it does not name'' else issuer)"

definition parenthetical :: "string list \<Rightarrow> string" where
  "parenthetical details =
     (if length details = 0 then []
      else '' ('' @ join_strings ''; '' (compact_func (=) (sort_func go_compare details)) @ '')'')"

definition describe_caveats :: "caveat list \<Rightarrow> string list" where
  "describe_caveats cs = map (\<lambda>c. caveat_reason c @ (if caveat_source c \<noteq> [] then '' at '' @ caveat_source c else [])) cs"

section \<open>Evidence\<close>

definition compare_records :: "evidence_record \<Rightarrow> evidence_record \<Rightarrow> int" where
  "compare_records x y =
     cmp_or [go_compare (record_api x) (record_api y), go_compare (record_params x) (record_params y),
       go_compare (record_status x) (record_status y), go_compare (record_sha256 x) (record_sha256 y),
       go_compare (record_bytes x) (record_bytes y), compare_times (record_fetched_at x) (record_fetched_at y),
       go_compare (rfc3339_nano (record_fetched_at x)) (rfc3339_nano (record_fetched_at y))]"

definition rounded :: "evidence_record \<Rightarrow> evidence_record" where
  "rounded r = r\<lparr>record_fetched_at := round_zero (record_fetched_at r)\<rparr>"

definition canonical_records :: "evidence_record list \<Rightarrow> evidence_record list" where
  "canonical_records records =
     compact_func (\<lambda>x y. compare_records x y = 0) (sort_func compare_records (map rounded records))"

text \<open>malformed, with the empty string where nothing keeps the record from being named.\<close>

definition malformed :: "evidence_record \<Rightarrow> string" where
  "malformed r =
     (if blank (record_api r) then ''a record names no API call''
      else if blank (record_status r) then ''the record of '' @ record_api r @ '' names no status''
      else [])"

text \<open>named, evidenced and wellFormed, None for Go's nil.\<close>

definition named :: "grant \<Rightarrow> link_error option" where
  "named g = (if blank (target_id (grant_target g)) then Some (refuse (describe_grant g @ '' '') ErrNoTarget) else None)"

definition evidenced :: "grant \<Rightarrow> link_error option" where
  "evidenced g =
     (if length (grant_provenance g) = 0 then Some (refuse (describe_grant g @ '' '') ErrNoEvidence)
      else (let records = canonical_records (grant_provenance g) in
        if list_ex (\<lambda>r. malformed r = []) records then None
        else Some \<lparr>error_text = describe_grant g @ '' '' @ refusal_text ErrMalformedEvidence @ '': '' @ malformed (hd records),
                   error_wraps = ErrMalformedEvidence\<rparr>))"

definition well_formed :: "grant \<Rightarrow> link_error option" where
  "well_formed g = (case named g of Some e \<Rightarrow> Some e | None \<Rightarrow> evidenced g)"

text \<open>recordDoubts: the switch on one record, and the loop.\<close>

definition record_doubt :: "string \<Rightarrow> evidence_record \<Rightarrow> string list" where
  "record_doubt target r =
     (if blank (record_api r) then [''a record for '' @ target @ '' names no API call'']
      else if blank (record_status r) then [''the record of '' @ record_api r @ '' for '' @ target @ '' names no status'']
      else if \<not> conclusive (record_status r) then [''the call '' @ record_api r @ '' for '' @ target @ '' returned '' @ record_status r]
      else [])"

definition record_doubts :: "grant \<Rightarrow> string list" where
  "record_doubts g = concat (map (record_doubt (describe_target (grant_target g))) (canonical_records (grant_provenance g)))"

section \<open>Doubts about a side\<close>

record unread_claim =
  unread_name :: string
  unread_reason :: string

definition undeclared :: "grant \<Rightarrow> unread_claim list" where
  "undeclared g =
     (let declared = map caveat_claim (admitted_caveats (grant_admits g));
          out = concat (map (\<lambda>t. concat (map (\<lambda>(k, s).
            if is_unknown s \<and> k \<notin> set declared then [\<lparr>unread_name = k, unread_reason = reason s\<rparr>] else []) t))
            (admitted_terms (grant_admits g))) in
      compact_func (=) (sort_func (\<lambda>x y. cmp_or [go_compare (unread_name x) (unread_name y), go_compare (unread_reason x) (unread_reason y)]) out))"

definition doubts_about :: "grant \<Rightarrow> string list" where
  "doubts_about g =
     (let target = describe_target (grant_target g); caveats = admitted_caveats (grant_admits g) in
      (if blank (grant_issuer g) then [''which issuers'' @ [CHR 0x27] @ '' tokens '' @ target @ '' admits is not known''] else []) @
      (if grant_effect g \<noteq> Allow then [''the effect of the statement granting '' @ target @ '' could not be read''] else []) @
      (if 0 < length caveats
       then [''the identities admitted by '' @ target @ '' are an upper bound ('' @ join_strings ''; '' (describe_caveats caveats) @ '')''] else []) @
      map (\<lambda>c. ''the constraint on '' @ unread_name c @ '' for '' @ target @ '' was not evaluated ('' @ unread_reason c @ '')'') (undeclared g) @
      record_doubts g)"

section \<open>The order of grants\<close>

text \<open>slices.CompareFunc.\<close>

fun compare_list :: "('a \<Rightarrow> 'a \<Rightarrow> int) \<Rightarrow> 'a list \<Rightarrow> 'a list \<Rightarrow> int" where
  "compare_list c [] [] = 0"
| "compare_list c [] (y # ys) = - 1"
| "compare_list c (x # xs) [] = 1"
| "compare_list c (x # xs) (y # ys) = (if c x y \<noteq> 0 then c x y else compare_list c xs ys)"

definition compare_link_caveats :: "caveat \<Rightarrow> caveat \<Rightarrow> int" where
  "compare_link_caveats x y =
     cmp_or [go_compare (caveat_source x) (caveat_source y), go_compare (caveat_claim x) (caveat_claim y),
       go_compare (caveat_reason x) (caveat_reason y)]"

definition compare_targets :: "target_ref \<Rightarrow> target_ref \<Rightarrow> int" where
  "compare_targets x y = cmp_or [go_compare (target_kind x) (target_kind y), go_compare (target_id x) (target_id y)]"

definition compare_grants :: "grant \<Rightarrow> grant \<Rightarrow> int" where
  "compare_grants x y =
     cmp_or [compare_targets (grant_target x) (grant_target y), go_compare (grant_issuer x) (grant_issuer y),
       go_compare (render_admitted (grant_admits x)) (render_admitted (grant_admits y)),
       compare_list compare_link_caveats (admitted_caveats (grant_admits x)) (admitted_caveats (grant_admits y)),
       go_compare (grant_effect x) (grant_effect y),
       compare_list compare_records (canonical_records (grant_provenance x)) (canonical_records (grant_provenance y))]"

definition compare_refs :: "grant_ref \<Rightarrow> grant_ref \<Rightarrow> int" where
  "compare_refs x y =
     cmp_or [compare_targets (ref_target x) (ref_target y), go_compare (ref_issuer x) (ref_issuer y),
       go_compare (ref_admits x) (ref_admits y), compare_list compare_link_caveats (ref_caveats x) (ref_caveats y),
       go_compare (ref_effect x) (ref_effect y)]"

section \<open>Which pairs are a fan-out\<close>

definition pairable :: "grant \<Rightarrow> grant \<Rightarrow> link_error option" where
  "pairable a b =
     (let pair = ''link '' @ grant_name a @ '' with '' @ grant_name b;
          denies = (\<lambda>g. if grant_effect g = Deny then Some (refuse (pair @ '': '' @ grant_name g @ '': '') ErrDeny) else None) in
      case first_found [map_option (wrap pair) (named a), map_option (wrap pair) (named b)] of
        Some e \<Rightarrow> Some e
      | None \<Rightarrow>
        if grant_target a = grant_target b then Some (refuse (pair @ '': '') ErrSameTarget)
        else if \<not> may_share_issuer (grant_issuer a) (grant_issuer b)
        then Some (refuse (''link '' @ grant_name a @ '' from '' @ grant_issuer a @ '' with '' @ grant_name b @ '' from '' @ grant_issuer b @ '': '')
          ErrDifferentIssuers)
        else first_found [denies a, denies b, map_option (wrap pair) (evidenced a), map_option (wrap pair) (evidenced b)])"

section \<open>Statements that may deny\<close>

record denial =
  denial_grant :: grant
  denial_unproved :: "string list"

definition unproved_reading :: "grant \<Rightarrow> string list" where
  "unproved_reading g =
     describe_caveats (admitted_caveats (grant_admits g)) @
     (if length (grant_provenance g) = 0 then [''the statement carries no evidence''] else []) @ record_doubts g"

text \<open>The guard at the head of the loop of denialsAgainst.\<close>

definition passed_over :: "grant \<Rightarrow> string \<Rightarrow> grant \<Rightarrow> bool" where
  "passed_over side issuer d \<longleftrightarrow>
     grant_effect d = Allow \<or> grant_target d \<noteq> grant_target side \<or> \<not> may_share_issuer (grant_issuer d) issuer \<or>
     compare_grants d side = 0"

fun denials_against :: "grant \<Rightarrow> string \<Rightarrow> admitted_set \<Rightarrow> grant list \<Rightarrow> denial list option" where
  "denials_against side issuer overlap [] = Some []"
| "denials_against side issuer overlap (d # ds) =
     (if passed_over side issuer d then denials_against side issuer overlap ds
      else (let unproved = unproved_reading d in
        do {
          misses \<leftarrow> (if length unproved = 0
            then do { reach \<leftarrow> admitted_meet (grant_admits d) (grant_admits side);
                      touched \<leftarrow> admitted_meet reach overlap; Some (set_is_empty touched) }
            else Some False);
          out \<leftarrow> denials_against side issuer overlap ds;
          Some (if misses then out else \<lparr>denial_grant = d, denial_unproved = unproved\<rparr> # out)
        }))"

text \<open>describeDenials: the two maps by issuer phrase, each read in the order of its keys.\<close>

definition by_phrase :: "denial list \<Rightarrow> string \<Rightarrow> string list" where
  "by_phrase ds phrase = concat (map denial_unproved (filter (\<lambda>d. issuer_phrase (grant_issuer (denial_grant d)) = phrase) ds))"

definition phrases :: "denial list \<Rightarrow> string list" where
  "phrases ds = compact_func (=) (sort_func go_compare (map (\<lambda>d. issuer_phrase (grant_issuer (denial_grant d))) ds))"

definition describe_denials :: "target_ref \<Rightarrow> denial list \<Rightarrow> string list" where
  "describe_denials target counted =
     (let denies = filter (\<lambda>d. grant_effect (denial_grant d) = Deny) counted;
          unreads = filter (\<lambda>d. grant_effect (denial_grant d) \<noteq> Deny) counted in
      map (\<lambda>phrase. describe_target target @ '' also denies identities from '' @ phrase @
        '', and whether these are among them could not be decided'' @ parenthetical (by_phrase denies phrase)) (phrases denies) @
      map (\<lambda>phrase. describe_target target @ '' also has a statement from '' @ phrase @
        '' whose effect could not be read, and whether it denies these identities could not be decided'' @
        parenthetical (by_phrase unreads phrase)) (phrases unreads))"

definition caveats_beyond :: "admitted_set \<Rightarrow> admitted_set \<Rightarrow> admitted_set \<Rightarrow> string list" where
  "caveats_beyond overlap a b =
     (let carried = admitted_caveats a @ admitted_caveats b in
      map caveat_reason (filter (\<lambda>c. c \<notin> set carried) (admitted_caveats overlap)))"

section \<open>The overlap in words\<close>

definition listed :: nat where "listed = 3"

definition abbreviate :: "string list \<Rightarrow> (nat \<Rightarrow> string) \<Rightarrow> string list" where
  "abbreviate items rest =
     (if length items \<le> listed + 1 then items else take listed items @ [rest (length items - listed)])"

text \<open>prose, None for the slice of no items, which panics.\<close>

fun prose :: "string list \<Rightarrow> string option" where
  "prose [] = None"
| "prose [x] = Some x"
| "prose xs = Some (join_strings '', '' (butlast xs) @ '' and '' @ last xs)"

text \<open>All of a list of options, None where one is.\<close>

fun all_some :: "'a option list \<Rightarrow> 'a list option" where
  "all_some [] = Some []"
| "all_some (x # xs) = do { y \<leftarrow> x; ys \<leftarrow> all_some xs; Some (y # ys) }"

text \<open>describe, on shapes.\<close>

fun shape_words :: "join_shape \<Rightarrow> string option" where
  "shape_words (JoinShape k text ms) =
     (case k of
        exactValue \<Rightarrow> Some (if text = [] then [dquote, dquote] else text)
      | globPattern \<Rightarrow> Some (''matching '' @ text)
      | allOf \<Rightarrow> map_option (\<lambda>w. ''matching all of '' @ w)
          (prose (abbreviate (shape_patterns (JoinShape k text ms)) (\<lambda>n. itoa (int n) @ '' more patterns'')))
      | anyOf \<Rightarrow> map_option (\<lambda>ws. join_strings '' or '' (abbreviate ws (\<lambda>n. ''one of '' @ itoa (int n) @ '' more alternatives'')))
          (all_some (map shape_words ms)))"

definition constraint_words :: "joined_constraint \<Rightarrow> string option" where
  "constraint_words c =
     (case constrained_shape c of
        None \<Rightarrow> Some (''any '' @ constrained_claim c)
      | Some s \<Rightarrow> map_option (\<lambda>w. constrained_claim c @ '' '' @ w) (shape_words s))"

definition term_words :: "claim_term \<Rightarrow> (string \<times> bool) option" where
  "term_words t =
     do {
       cs \<leftarrow> constraints_of t;
       claims \<leftarrow> all_some (map constraint_words cs);
       words \<leftarrow> prose claims;
       Some (words, list_ex (\<lambda>c. case constrained_shape c of None \<Rightarrow> False | Some s \<Rightarrow> join_kind s \<noteq> exactValue) cs)
     }"

definition describe_admitted :: "admitted_set \<Rightarrow> string \<Rightarrow> (string \<times> bool) option" where
  "describe_admitted overlap issuer =
     (if set_is_top overlap then Some (''any identity'' @ from_issuer issuer, False)
      else do {
        ws \<leftarrow> all_some (map term_words (admitted_terms overlap));
        Some (''identities'' @ from_issuer issuer @ '' with '' @
          join_strings '', or with '' (abbreviate (map fst ws) (\<lambda>n. ''one of '' @ itoa (int n) @ '' more combinations'')),
          list_ex snd ws)
      })"

definition describe_token :: "(claim_key \<times> string) list \<Rightarrow> string" where
  "describe_token tok = join_strings '', '' (map (\<lambda>(k, v). k @ ''='' @ v) tok)"

section \<open>NewLink\<close>

definition ref_of :: "grant \<Rightarrow> grant_ref" where
  "ref_of g = \<lparr>ref_target = grant_target g, ref_issuer = grant_issuer g, ref_effect = grant_effect g,
     ref_admits = render_admitted (grant_admits g), ref_caveats = admitted_caveats (grant_admits g)\<rparr>"

text \<open>The doubts NewLink gathers about the two sides, and the evidence of the statements counted.\<close>

definition side_doubts :: "grant \<Rightarrow> string \<Rightarrow> admitted_set \<Rightarrow> grant list \<Rightarrow> (string list \<times> evidence_record list) option" where
  "side_doubts side issuer overlap denials =
     do {
       counted \<leftarrow> denials_against side issuer overlap denials;
       Some (doubts_about side @ describe_denials (grant_target side) counted,
         concat (map (grant_provenance \<circ> denial_grant) counted))
     }"

text \<open>The last two doubts of NewLink, about the overlap itself.\<close>

definition overlap_doubts :: "grant \<Rightarrow> grant \<Rightarrow> admitted_set \<Rightarrow> (claim_key \<times> string) list option \<Rightarrow> string \<Rightarrow> string list" where
  "overlap_doubts a b overlap witness description =
     (let widened = caveats_beyond overlap (grant_admits a) (grant_admits b) in
      (if 0 < length widened
       then [''the identities admitted by both are an upper bound ('' @ join_strings ''; '' widened @ '')''] else []) @
      (if witness = None then [''no example identity could be constructed for '' @ description] else []))"

text \<open>The link NewLink returns, of the doubts and the records it gathered.\<close>

definition build_link :: "grant \<Rightarrow> grant \<Rightarrow> admitted_set \<Rightarrow> (claim_key \<times> string) list option \<Rightarrow> string list \<Rightarrow> evidence_record list \<Rightarrow>
    string \<Rightarrow> bool \<Rightarrow> link" where
  "build_link a b overlap witness doubts records description exemplified =
     (let from = describe_target (grant_target a); to = describe_target (grant_target b); issuer = pair_issuer a b;
          reason = (if length doubts = 0
            then ''both admit '' @ description @ (if exemplified then '', for example '' @ describe_token (the witness) else [])
            else join_strings ''; '' doubts);
          sentence = (if length doubts = 0
            then ''Identities admitted by '' @ from @ '' are also admitted by '' @ to @ '': '' @ reason @ ''.''
            else ''Identities admitted by '' @ from @ '' may also be admitted by '' @ to @ from_issuer issuer @ ''; '' @ reason @ ''.'') in
      \<lparr>link_kind = CounterpartyFanOut, link_grants = [ref_of a, ref_of b],
       link_subject = \<lparr>counterparty_issuer = issuer, counterparty_overlap = render_admitted overlap, counterparty_witness = witness\<rparr>,
       link_confidence = (if length doubts = 0 then Established else Indeterminate),
       link_reason = printable_text reason, link_sentence = printable_text sentence,
       link_provenance = canonical_records records\<rparr>)"

definition linked :: "grant \<Rightarrow> grant \<Rightarrow> grant list \<Rightarrow> (link_error + link) option" where
  "linked a b denials =
     (let issuer = pair_issuer a b; identitiesA = without_audience a; identitiesB = without_audience b in
      do {
        overlap \<leftarrow> admitted_meet identitiesA identitiesB;
        if set_is_empty overlap
        then Some (Inl (refuse (''link '' @ describe_target (grant_target a) @ '' with '' @ describe_target (grant_target b) @ '': '') ErrDisjoint))
        else do {
          witness \<leftarrow> witness_of overlap identitiesA identitiesB;
          (doubtsA, recordsA) \<leftarrow> side_doubts a issuer overlap denials;
          (doubtsB, recordsB) \<leftarrow> side_doubts b issuer overlap denials;
          (description, exemplified) \<leftarrow> describe_admitted overlap issuer;
          Some (Inr (build_link a b overlap witness
            (doubtsA @ doubtsB @ overlap_doubts a b overlap witness description)
            (grant_provenance a @ grant_provenance b @ recordsA @ recordsB) description exemplified))
        }
      })"

text \<open>NewLink: the sides in canonical order, the refusals of pairable, then the rest.\<close>

definition new_link :: "grant \<Rightarrow> grant \<Rightarrow> grant list \<Rightarrow> (link_error + link) option" where
  "new_link a b denials =
     (let (a, b) = (if 0 < compare_grants a b then (b, a) else (a, b)) in
      case pairable a b of Some e \<Rightarrow> Some (Inl e) | None \<Rightarrow> linked a b denials)"

section \<open>FanOut\<close>

definition compare_links :: "link \<Rightarrow> link \<Rightarrow> int" where
  "compare_links x y =
     cmp_or [compare_refs (link_grants x ! 0) (link_grants y ! 0), compare_refs (link_grants x ! 1) (link_grants y ! 1),
       go_compare (link_confidence x) (link_confidence y), go_compare (link_reason x) (link_reason y),
       compare_list compare_records (link_provenance x) (link_provenance y)]"

text \<open>The pairs the two nested loops visit, in order.\<close>

fun pairs_of :: "'a list \<Rightarrow> ('a \<times> 'a) list" where
  "pairs_of [] = []"
| "pairs_of (x # xs) = map (Pair x) xs @ pairs_of xs"

fun link_pairs :: "grant list \<Rightarrow> (grant \<times> grant) list \<Rightarrow> link list option" where
  "link_pairs denials [] = Some []"
| "link_pairs denials ((a, b) # ps) =
     do {
       r \<leftarrow> new_link a b denials;
       ls \<leftarrow> link_pairs denials ps;
       Some (case r of Inl e \<Rightarrow> ls | Inr l \<Rightarrow> l # ls)
     }"

definition corpus :: "grant list \<Rightarrow> grant list" where
  "corpus grants = compact_func (\<lambda>x y. compare_grants x y = 0) (sort_func compare_grants grants)"

text \<open>FanOut: the links, and the errors of the grants that are no side, [] for Go's nil.\<close>

definition fan_out :: "grant list \<Rightarrow> (link list \<times> link_error list) option" where
  "fan_out grants =
     (let sorted = corpus grants;
          denials = filter (\<lambda>g. grant_effect g \<noteq> Allow) sorted;
          refused = List.map_filter well_formed sorted in
      do {
        links \<leftarrow> link_pairs denials (pairs_of sorted);
        Some (sort_func compare_links links, refused)
      })"

end
