(* ===== verification/Join_Laws.thy ===== *)
theory Join_Laws imports Join_Link begin

text \<open>
  What the join promises. Grants and records are compared by total preorders that tell apart all
  that a link reads, so a link and a fan-out are functions of that alone; a refusal states a fact
  about the pair, no pair whose overlap is not proved empty is refused, and an established link has
  every doubt the package knows settled.
\<close>

section \<open>Comparisons of lists, of images and of records\<close>

lemma comparison_via: "comparison c \<Longrightarrow> comparison (\<lambda>x y. c (f x) (f y))"
  by unfold_locales (auto intro: comparison.compare_swap comparison.compare_trans)

lemma compare_list_zero: "compare_list c xs ys = 0 \<longleftrightarrow> list_all2 (\<lambda>x y. c x y = 0) xs ys"
  by (induction c xs ys rule: compare_list.induct) auto

lemma compare_list_Cons_le:
  "compare_list c (x # xs) (y # ys) \<le> 0 \<longleftrightarrow> c x y < 0 \<or> c x y = 0 \<and> compare_list c xs ys \<le> 0"
  by auto

lemma comparison_list:
  assumes c: "comparison c"
  shows "comparison (compare_list c)"
proof
  show "compare_list c ys xs = - compare_list c xs ys" for ys xs
  proof (induction ys xs rule: list_induct2')
    case (4 y ys x xs)
    then show ?case using comparison.compare_swap [OF c, of y x] by simp
  qed simp_all
next
  show "compare_list c xs zs \<le> 0" if "compare_list c xs ys \<le> 0" "compare_list c ys zs \<le> 0" for xs ys zs
    using that
  proof (induction xs ys arbitrary: zs rule: list_induct2')
    case 1
    then show ?case by simp
  next
    case (3 y ys)
    then show ?case by (cases zs) simp_all
  next
    case (4 x xs y ys)
    obtain z zs' where zs: "zs = z # zs'" using "4.prems"(2) by (cases zs) auto
    note xy = "4.prems"(1) [unfolded compare_list_Cons_le] and yz = "4.prems"(2) [unfolded zs compare_list_Cons_le]
    show ?case
    proof (cases "c x y = 0 \<and> c y z = 0")
      case True
      then have "c x z = 0" using comparison.compare_zero_trans [OF c] by blast
      then show ?thesis using "4.IH" [of zs'] xy yz True unfolding zs compare_list_Cons_le by simp
    next
      case False
      then have "c x y < 0 \<and> c y z \<le> 0 \<or> c x y \<le> 0 \<and> c y z < 0" using xy yz by linarith
      then have "c x z < 0"
        using comparison.compare_strict_trans [OF c, of x y z] comparison.compare_trans_strict [OF c, of x y z] by blast
      then show ?thesis unfolding zs compare_list_Cons_le by blast
    qed
  qed simp_all
qed

text \<open>Sorting and compacting commute with a function that leaves the comparison as it is.\<close>

lemma insert_func_map: "(\<And>x y. c (f x) (f y) = d x y) \<Longrightarrow> insert_func c (f x) (map f xs) = map f (insert_func d x xs)"
  by (induction xs) auto

lemma sort_func_map: "(\<And>x y. c (f x) (f y) = d x y) \<Longrightarrow> sort_func c (map f xs) = map f (sort_func d xs)"
  by (induction xs) (simp_all add: sort_func_def insert_func_map)

lemma compact_from_map: "(\<And>x y. c (f x) (f y) = d x y) \<Longrightarrow> compact_from c (f p) (map f xs) = map f (compact_from d p xs)"
  by (induction xs arbitrary: p) auto

lemma compact_func_map: "(\<And>x y. c (f x) (f y) = d x y) \<Longrightarrow> compact_func c (map f xs) = map f (compact_func d xs)"
  by (cases xs) (simp_all add: compact_from_map)

text \<open>Under a preorder that is total on the values at hand, sorting and compacting depends on their set only.\<close>

definition told_apart :: "('a \<Rightarrow> 'a \<Rightarrow> int) \<Rightarrow> 'a set \<Rightarrow> bool" where
  "told_apart c S \<longleftrightarrow> (\<forall>x \<in> S. \<forall>y \<in> S. c x y = 0 \<longrightarrow> x = y)"

abbreviation settle :: "('a \<Rightarrow> 'a \<Rightarrow> int) \<Rightarrow> 'a list \<Rightarrow> 'a list" where
  "settle c xs \<equiv> compact_func (\<lambda>x y. c x y = 0) (sort_func c xs)"

context comparison begin

lemma compact_from_strict:
  "sorted_wrt (\<lambda>x y. compare x y \<le> 0) (p # xs) \<Longrightarrow>
    sorted_wrt (\<lambda>x y. compare x y < 0) (p # compact_from (\<lambda>x y. compare x y = 0) p xs) \<and>
    (\<forall>x \<in> set xs. \<exists>y \<in> insert p (set (compact_from (\<lambda>x y. compare x y = 0) p xs)). compare x y = 0)"
proof (induction xs arbitrary: p)
  case (Cons x xs)
  have px: "compare p x \<le> 0" and xs: "sorted_wrt (\<lambda>x y. compare x y \<le> 0) (x # xs)" using Cons.prems by auto
  note IH = Cons.IH [OF xs]
  show ?case
  proof (cases "compare x p = 0")
    case True
    have z: "compare p x = 0" using True compare_swap [of p x] by simp
    have "compare p y < 0" if "compare x y < 0" for y
      using compare_trans_strict [of p x y] z that by simp
    moreover have "\<exists>z \<in> insert p S. compare y z = 0" if "\<exists>z \<in> insert x S. compare y z = 0" for y S
      using that compare_zero_trans [of y x p] True by auto
    ultimately show ?thesis using IH True by (auto split: if_splits)
  next
    case False
    then have lt: "compare p x < 0" using px compare_swap [of p x] by simp
    then have "compare p y < 0" if "compare x y < 0" for y using compare_strict_trans [of p x y] that by simp
    then show ?thesis using IH False lt by auto
  qed
qed simp

lemma settle_strict: "sorted_wrt (\<lambda>x y. compare x y < 0) (settle compare xs)"
proof (cases "sort_func compare xs")
  case (Cons p ys)
  then show ?thesis using compact_from_strict [of p ys] sorted_sort_func [of xs] by simp
qed simp

lemma settle_subset: "set (settle compare xs) \<subseteq> set xs"
  using set_compact_func_subset [of _ "sort_func compare xs"] by simp

lemma settle_covers: "x \<in> set xs \<Longrightarrow> \<exists>y \<in> set (settle compare xs). compare x y = 0"
proof (cases "sort_func compare xs")
  case Nil
  then show "x \<in> set xs \<Longrightarrow> ?thesis" by (metis set_sort_func empty_iff list.set(1))
next
  case (Cons p ys)
  assume "x \<in> set xs"
  then have "x \<in> insert p (set ys)" using set_sort_func [of compare xs] unfolding Cons by simp
  then show ?thesis using compact_from_strict [of p ys] sorted_sort_func [of xs] unfolding Cons by auto
qed

lemma settle_set:
  assumes "told_apart compare (set xs)"
  shows "set (settle compare xs) = set xs"
proof (rule antisym [OF settle_subset], rule subsetI)
  fix x assume x: "x \<in> set xs"
  obtain y where y: "y \<in> set (settle compare xs)" "compare x y = 0" using settle_covers [OF x] by blast
  have "y \<in> set xs" using settle_subset y(1) by blast
  then have "x = y" using assms x y(2) by (simp add: told_apart_def)
  then show "x \<in> set (settle compare xs)" using y(1) by simp
qed

lemma strict_unique:
  "set xs = set ys \<Longrightarrow> sorted_wrt (\<lambda>x y. compare x y < 0) xs \<Longrightarrow> sorted_wrt (\<lambda>x y. compare x y < 0) ys \<Longrightarrow> xs = ys"
proof (induction xs arbitrary: ys)
  case (Cons x xs)
  then obtain y ys' where ys: "ys = y # ys'" by (cases ys) auto
  have irr: "\<not> compare z z < 0" for z by simp
  have "x = y"
  proof (rule ccontr)
    assume "x \<noteq> y"
    then have "x \<in> set ys'" "y \<in> set xs" using Cons.prems(1) ys by auto
    then have "compare y x < 0" "compare x y < 0" using Cons.prems(2,3) ys by auto
    then show False using compare_swap [of x y] by simp
  qed
  moreover have "set xs = set ys'"
  proof -
    have "x \<notin> set xs" "y \<notin> set ys'" using Cons.prems(2,3) ys irr by auto
    then show ?thesis using Cons.prems(1) ys \<open>x = y\<close> by (metis Diff_insert_absorb list.simps(15))
  qed
  ultimately show ?case using Cons ys by auto
qed simp

lemma settle_cong:
  assumes "set xs = set ys" "told_apart compare (set xs)"
  shows "settle compare xs = settle compare ys"
proof (rule strict_unique)
  have t: "told_apart compare (set ys)" using assms(2) unfolding assms(1) .
  show "set (settle compare xs) = set (settle compare ys)"
    unfolding settle_set [OF assms(2)] settle_set [OF t] by (rule assms(1))
qed (rule settle_strict)+

lemma settle_id: "sorted_wrt (\<lambda>x y. compare x y < 0) xs \<Longrightarrow> settle compare xs = xs"
proof -
  assume s: "sorted_wrt (\<lambda>x y. compare x y < 0) xs"
  then have "told_apart compare (set xs)"
  proof (induction xs)
    case (Cons x xs)
    have "x = y" if "y \<in> set xs" "compare x y = 0 \<or> compare y x = 0" for y
      using Cons.prems that compare_swap [of x y] by auto
    then show ?case using Cons by (auto simp: told_apart_def)
  qed (simp add: told_apart_def)
  then show ?thesis using strict_unique [OF settle_set settle_strict s] by blast
qed

end

section \<open>Records\<close>

text \<open>
  The order of records with the monotonic reading as a last tie-break. On records that have lost
  that reading, as all the join sorts have, it is the order of the code; on all it is total.
\<close>

definition mono_key :: "evidence_record \<Rightarrow> int list" where
  "mono_key r = (case time_mono (record_fetched_at r) of None \<Rightarrow> [] | Some m \<Rightarrow> [m])"

definition record_keys :: "(evidence_record \<Rightarrow> evidence_record \<Rightarrow> int) list" where
  "record_keys =
     [\<lambda>x y. go_compare (record_api x) (record_api y), \<lambda>x y. go_compare (record_params x) (record_params y),
      \<lambda>x y. go_compare (record_status x) (record_status y), \<lambda>x y. go_compare (record_sha256 x) (record_sha256 y),
      \<lambda>x y. go_compare (record_bytes x) (record_bytes y),
      \<lambda>x y. go_compare (time_instant (record_fetched_at x)) (time_instant (record_fetched_at y)),
      \<lambda>x y. go_compare (rfc3339_nano (record_fetched_at x)) (rfc3339_nano (record_fetched_at y)),
      \<lambda>x y. go_compare (mono_key x) (mono_key y)]"

definition total_records :: "evidence_record \<Rightarrow> evidence_record \<Rightarrow> int" where
  "total_records = (\<lambda>x y. cmp_or (map (\<lambda>c. c x y) record_keys))"

lemma total_records_comparison: "comparison total_records"
  unfolding total_records_def by (rule comparison_or) (auto simp: record_keys_def comparison_key)

lemma total_records_eq:
  assumes "total_records x y = 0"
  shows "x = y"
proof -
  have "record_api x = record_api y" "record_params x = record_params y" "record_status x = record_status y"
    "record_sha256 x = record_sha256 y" "record_bytes x = record_bytes y"
    "time_instant (record_fetched_at x) = time_instant (record_fetched_at y)"
    "rfc3339_nano (record_fetched_at x) = rfc3339_nano (record_fetched_at y)" "mono_key x = mono_key y"
    using assms unfolding total_records_def record_keys_def cmp_or_zero_iff by simp_all
  moreover from this have "time_zone (record_fetched_at x) = time_zone (record_fetched_at y)" using rfc3339_nano_zone by blast
  moreover have "time_mono (record_fetched_at x) = time_mono (record_fetched_at y)"
    using \<open>mono_key x = mono_key y\<close> by (auto simp: mono_key_def split: option.splits)
  ultimately show ?thesis by (intro evidence_record.equality go_time.equality) auto
qed

interpretation records: total_comparison total_records
  using total_records_comparison total_records_eq
  by (auto simp: total_comparison_def total_comparison_axioms_def)

lemma rounded_simps [simp]:
  "record_api (rounded r) = record_api r" "record_status (rounded r) = record_status r" "rounded (rounded r) = rounded r"
  "mono_key (rounded r) = []"
  by (simp_all add: rounded_def round_zero_def mono_key_def)

lemma compare_rounded: "rounded x = x \<Longrightarrow> rounded y = y \<Longrightarrow> compare_records x y = total_records x y"
proof -
  have t: "rounded r = r \<Longrightarrow> time_mono (record_fetched_at r) = None \<and> mono_key r = []" for r
    by (metis rounded_simps(4) rounded_def evidence_record.select_convs(6) evidence_record.update_convs(6) go_time.select_convs(3)
        go_time.surjective go_time.update_convs(3) evidence_record.surjective round_zero_def)
  assume "rounded x = x" "rounded y = y"
  then show ?thesis using t [of x] t [of y] by (simp add: compare_records_def total_records_def record_keys_def compare_times_def)
qed

lemma canonical_settle: "canonical_records rs = settle total_records (map rounded rs)"
proof -
  have e: "compare_records (rounded x) (rounded y) = total_records (rounded x) (rounded y)" for x y
    by (rule compare_rounded) simp_all
  let ?d = "\<lambda>x y. total_records (rounded x) (rounded y)"
  have "canonical_records rs = map rounded (compact_func (\<lambda>x y. ?d x y = 0) (sort_func ?d rs))"
    unfolding canonical_records_def sort_func_map [where c = compare_records and f = rounded and d = ?d, OF e]
    by (rule compact_func_map) (simp add: e)
  moreover have "settle total_records (map rounded rs) = map rounded (compact_func (\<lambda>x y. ?d x y = 0) (sort_func ?d rs))"
    unfolding sort_func_map [where c = total_records and f = rounded and d = ?d, OF refl] by (rule compact_func_map) simp
  ultimately show ?thesis by simp
qed

lemma records_apart: "told_apart total_records S"
  by (simp add: told_apart_def)

lemma set_canonical [simp]: "set (canonical_records rs) = rounded ` set rs"
  unfolding canonical_settle records.settle_set [OF records_apart] by simp

lemma canonical_records_cong: "rounded ` set rs = rounded ` set ss \<Longrightarrow> canonical_records rs = canonical_records ss"
  unfolding canonical_settle by (rule records.settle_cong [OF _ records_apart]) simp

lemma canonical_idem [simp]: "canonical_records (canonical_records rs) = canonical_records rs"
  by (rule canonical_records_cong) (simp add: image_image)

lemma canonical_records_Nil [simp]: "canonical_records rs = [] \<longleftrightarrow> rs = []"
  using set_canonical [of rs] by (metis image_is_empty set_empty)

lemma canonical_rounded: "r \<in> set (canonical_records rs) \<Longrightarrow> rounded r = r"
  by auto

lemma compare_canonical:
  "compare_list compare_records (canonical_records rs) (canonical_records ss) = compare_list total_records (canonical_records rs) (canonical_records ss)"
proof -
  have "\<forall>x \<in> set xs. rounded x = x \<Longrightarrow> \<forall>y \<in> set ys. rounded y = y \<Longrightarrow> compare_list compare_records xs ys = compare_list total_records xs ys" for xs ys
    by (induction xs ys rule: list_induct2') (auto simp: compare_rounded)
  then show ?thesis using canonical_rounded by blast
qed

section \<open>Grants\<close>

text \<open>All of a grant that a link reads: the records in canonical order, no anomalies, no source.\<close>

definition grant_view :: "grant \<Rightarrow> grant" where
  "grant_view g = g\<lparr>grant_provenance := canonical_records (grant_provenance g), grant_anomalies := [], grant_source := []\<rparr>"

definition good_grant :: "grant \<Rightarrow> bool" where
  "good_grant g \<longleftrightarrow> canonical_set (grant_admits g)"

lemma view_simps [simp]:
  "grant_target (grant_view g) = grant_target g" "grant_issuer (grant_view g) = grant_issuer g"
  "grant_admits (grant_view g) = grant_admits g" "grant_effect (grant_view g) = grant_effect g"
  "grant_provenance (grant_view g) = canonical_records (grant_provenance g)"
  "grant_view (grant_view g) = grant_view g" "good_grant (grant_view g) = good_grant g"
  by (simp_all add: grant_view_def good_grant_def)

definition grant_keys :: "(grant \<Rightarrow> grant \<Rightarrow> int) list" where
  "grant_keys =
     [\<lambda>x y. compare_targets (grant_target x) (grant_target y), \<lambda>x y. go_compare (grant_issuer x) (grant_issuer y),
      \<lambda>x y. go_compare (render_admitted (grant_admits x)) (render_admitted (grant_admits y)),
      \<lambda>x y. compare_list compare_link_caveats (admitted_caveats (grant_admits x)) (admitted_caveats (grant_admits y)),
      \<lambda>x y. go_compare (grant_effect x) (grant_effect y),
      \<lambda>x y. compare_list total_records (canonical_records (grant_provenance x)) (canonical_records (grant_provenance y))]"

lemma compare_grants_keys: "compare_grants = (\<lambda>x y. cmp_or (map (\<lambda>c. c x y) grant_keys))"
  by (rule ext)+ (simp add: compare_grants_def grant_keys_def compare_canonical)

lemma targets_comparison: "comparison compare_targets"
proof -
  have "compare_targets = (\<lambda>x y. cmp_or (map (\<lambda>c. c x y)
      [\<lambda>x y. go_compare (target_kind x) (target_kind y), \<lambda>x y. go_compare (target_id x) (target_id y)]))"
    by (rule ext)+ (simp add: compare_targets_def)
  then show ?thesis by (rule ssubst) (rule comparison_or, auto simp: comparison_key)
qed

lemma link_caveats_comparison: "comparison compare_link_caveats"
proof -
  have "compare_link_caveats = compare_caveats" by (rule ext)+ (simp add: compare_link_caveats_def compare_caveats_def)
  then show ?thesis using comparison_caveats by simp
qed

interpretation grants: comparison compare_grants
  unfolding compare_grants_keys
  by (rule comparison_or)
    (auto simp: grant_keys_def comparison_key
      intro: comparison_via [OF targets_comparison] comparison_via [OF comparison_list [OF link_caveats_comparison]]
        comparison_via [OF comparison_list [OF total_records_comparison]])

lemma compare_view: "compare_grants (grant_view x) (grant_view y) = compare_grants x y"
  by (simp add: compare_grants_def)

lemma compare_view_sides [simp]: "compare_grants (grant_view x) y = compare_grants x y" "compare_grants x (grant_view y) = compare_grants x y"
  by (simp_all add: compare_grants_def)

lemma compare_targets_zero: "compare_targets x y = 0 \<longleftrightarrow> x = y"
  by (auto simp: compare_targets_def cmp_or_zero_iff intro: target_ref.equality)

lemma compare_link_caveats_zero: "compare_link_caveats x y = 0 \<longleftrightarrow> x = y"
  by (auto simp: compare_link_caveats_def cmp_or_zero_iff intro: caveat.equality)

lemma compare_zero_view:
  assumes "good_grant x" "good_grant y"
  shows "compare_grants x y = 0 \<longleftrightarrow> grant_view x = grant_view y"
proof
  assume "compare_grants x y = 0"
  then have e: "grant_target x = grant_target y" "grant_issuer x = grant_issuer y"
    "render_admitted (grant_admits x) = render_admitted (grant_admits y)" "admitted_caveats (grant_admits x) = admitted_caveats (grant_admits y)"
    "grant_effect x = grant_effect y" "canonical_records (grant_provenance x) = canonical_records (grant_provenance y)"
    unfolding compare_grants_keys grant_keys_def cmp_or_zero_iff
    by (simp_all add: compare_targets_zero compare_list_zero compare_link_caveats_zero list.rel_eq)
  have "admitted_terms (grant_admits x) = admitted_terms (grant_admits y)"
    by (rule render_admitted_inject [OF _ _ e(3)]) (use assms in \<open>simp_all add: good_grant_def\<close>)
  then have "grant_admits x = grant_admits y" using e(4) by (intro admitted_set.equality) simp_all
  then show "grant_view x = grant_view y" using e by (intro grant.equality) (simp_all add: grant_view_def)
next
  assume "grant_view x = grant_view y"
  then have "compare_grants (grant_view x) (grant_view y) = 0" by simp
  then show "compare_grants x y = 0" by simp
qed

lemma corpus_view: "corpus (map grant_view gs) = map grant_view (corpus gs)"
  unfolding corpus_def sort_func_map [where c = compare_grants and f = grant_view and d = compare_grants, OF compare_view]
  by (rule compact_func_map) (simp add: compare_view)

section \<open>A link is a function of what it reads\<close>

lemma map_filter_view:
  "(\<And>g. f (grant_view g) = f g) \<Longrightarrow> List.map_filter f (map grant_view gs) = List.map_filter f gs"
  by (induction gs) (auto simp: List.map_filter_def)

lemma view_names [simp]: "grant_name (grant_view g) = grant_name g" "describe_grant (grant_view g) = describe_grant g"
  by (simp_all add: grant_name_def describe_grant_def)

lemma view_well_formed [simp]: "named (grant_view g) = named g" "evidenced (grant_view g) = evidenced g" "well_formed (grant_view g) = well_formed g"
  by (simp_all add: named_def evidenced_def well_formed_def Let_def)

lemma view_doubts [simp]: "record_doubts (grant_view g) = record_doubts g" "unproved_reading (grant_view g) = unproved_reading g"
  "doubts_about (grant_view g) = doubts_about g"
  by (simp_all add: record_doubts_def unproved_reading_def doubts_about_def undeclared_def Let_def)

lemma view_pairable [simp]: "pairable (grant_view a) (grant_view b) = pairable a b"
  unfolding pairable_def Let_def view_simps view_names view_well_formed by (rule refl)

lemma view_misc [simp]: "without_audience (grant_view g) = without_audience g" "ref_of (grant_view g) = ref_of g"
  "pair_issuer (grant_view a) (grant_view b) = pair_issuer a b" "passed_over (grant_view s) i (grant_view d) = passed_over s i d"
  by (simp_all add: without_audience_def ref_of_def pair_issuer_def passed_over_def)

definition denial_view :: "denial \<Rightarrow> denial" where
  "denial_view d = d\<lparr>denial_grant := grant_view (denial_grant d)\<rparr>"

lemma view_denials:
  "denials_against (grant_view s) i overlap (map grant_view ds) = map_option (map denial_view) (denials_against s i overlap ds)"
  by (induction ds) (auto simp: Let_def denial_view_def split: Option.bind_splits)

lemma denial_view_simps [simp]: "denial_grant (denial_view d) = grant_view (denial_grant d)" "denial_unproved (denial_view d) = denial_unproved d"
  by (simp_all add: denial_view_def)

lemma filter_view:
  "(\<And>d. P (denial_view d) = P d) \<Longrightarrow> filter P (map denial_view ds) = map denial_view (filter P ds)"
  by (induction ds) auto

lemma view_phrases [simp]: "phrases (map denial_view ds) = phrases ds"
  by (simp add: phrases_def o_def)

lemma view_by_phrase [simp]: "by_phrase (map denial_view ds) = by_phrase ds"
  by (rule ext) (simp add: by_phrase_def filter_view o_def)

lemma view_describe_denials [simp]: "describe_denials t (map denial_view ds) = describe_denials t ds"
  by (simp add: describe_denials_def filter_view Let_def)

text \<open>The evidence a side brings, by the set of its records.\<close>

lemma view_side:
  "side_doubts (grant_view s) i overlap (map grant_view ds) =
    map_option (\<lambda>counted. (doubts_about s @ describe_denials (grant_target s) counted,
      concat (map (canonical_records \<circ> grant_provenance \<circ> denial_grant) counted))) (denials_against s i overlap ds)"
  "side_doubts s i overlap ds =
    map_option (\<lambda>counted. (doubts_about s @ describe_denials (grant_target s) counted,
      concat (map (grant_provenance \<circ> denial_grant) counted))) (denials_against s i overlap ds)"
  by (cases "denials_against s i overlap ds"; simp add: side_doubts_def view_denials o_def)+

lemma canonical_concat:
  "canonical_records (canonical_records p @ canonical_records q @ concat (map (canonical_records \<circ> f) xs) @ concat (map (canonical_records \<circ> f) ys)) =
    canonical_records (p @ q @ concat (map f xs) @ concat (map f ys))"
  by (rule canonical_records_cong) (simp add: image_Un image_UN image_image)

lemma view_build_link:
  "build_link (grant_view a) (grant_view b) ov w ds (canonical_records (grant_provenance a) @ canonical_records (grant_provenance b) @
      concat (map (canonical_records \<circ> f) xs) @ concat (map (canonical_records \<circ> f) ys)) d e =
    build_link a b ov w ds (grant_provenance a @ grant_provenance b @ concat (map f xs) @ concat (map f ys)) d e"
  unfolding build_link_def canonical_concat by simp

lemma view_overlap_doubts [simp]: "overlap_doubts (grant_view a) (grant_view b) = overlap_doubts a b"
  by (rule ext)+ (simp add: overlap_doubts_def)

lemma view_linked: "linked (grant_view a) (grant_view b) (map grant_view ds) = linked a b ds"
proof -
  have side: "side_doubts (grant_view s) i overlap (map grant_view ds) \<bind> F = side_doubts s i overlap ds \<bind> G"
    if "\<And>counted. F (doubts_about s @ describe_denials (grant_target s) counted, concat (map (canonical_records \<circ> (grant_provenance \<circ> denial_grant)) counted)) =
        G (doubts_about s @ describe_denials (grant_target s) counted, concat (map (grant_provenance \<circ> denial_grant) counted))"
    for s i overlap and F G :: "string list \<times> evidence_record list \<Rightarrow> (link_error + link) option"
    unfolding view_side(1) [of s i overlap ds] view_side(2) [of s i overlap ds]
    using that by (cases "denials_against s i overlap ds") (simp_all add: o_assoc)
  show ?thesis
    unfolding linked_def Let_def view_misc view_simps
    by (rule Option.bind_cong [OF refl], rule if_cong [OF refl refl], rule Option.bind_cong [OF refl], rule side, unfold prod.case, rule side, unfold prod.case,
        rule Option.bind_cong [OF refl], unfold case_prod_beta view_build_link view_overlap_doubts, rule refl)
qed

lemma view_new_link: "new_link (grant_view a) (grant_view b) (map grant_view ds) = new_link a b ds"
  unfolding new_link_def Let_def compare_view by (auto simp: view_linked split: option.splits)

lemma view_link_pairs:
  "link_pairs (map grant_view ds) (map (map_prod grant_view grant_view) ps) = link_pairs ds ps"
  by (induction ps) (auto simp: view_new_link)

lemma pairs_of_map: "pairs_of (map f xs) = map (map_prod f f) (pairs_of xs)"
  by (induction xs) (auto simp: o_def)

lemma view_fan_out: "fan_out (map grant_view gs) = fan_out gs"
proof -
  have f: "filter (\<lambda>g. grant_effect g \<noteq> Allow) (map grant_view xs) = map grant_view (filter (\<lambda>g. grant_effect g \<noteq> Allow) xs)" for xs
    by (induction xs) auto
  show ?thesis
    unfolding fan_out_def Let_def corpus_view f pairs_of_map view_link_pairs map_filter_view [of well_formed, OF view_well_formed(3)] ..
qed

text \<open>The order the sides are named in does not show, nor does the order of a corpus or a grant named twice.\<close>

lemma new_link_commute:
  assumes "good_grant a" "good_grant b"
  shows "new_link a b ds = new_link b a ds"
proof (cases "compare_grants a b = 0")
  case True
  then have "grant_view a = grant_view b" using compare_zero_view [OF assms] by blast
  then show ?thesis using view_new_link [of a b ds] view_new_link [of b a ds] by simp
next
  case False
  then show ?thesis using grants.compare_swap [of a b] by (auto simp: new_link_def)
qed

lemma views_apart:
  assumes "\<forall>g \<in> set gs. good_grant g"
  shows "told_apart compare_grants (set (map grant_view gs))"
  using assms compare_zero_view by (auto simp: told_apart_def)

lemma fan_out_cong:
  assumes "\<forall>g \<in> set gs. good_grant g" "\<forall>g \<in> set hs. good_grant g" "grant_view ` set gs = grant_view ` set hs"
  shows "fan_out gs = fan_out hs"
proof -
  have "corpus (map grant_view gs) = corpus (map grant_view hs)"
    unfolding corpus_def by (rule grants.settle_cong [OF _ views_apart [OF assms(1)]]) (simp add: assms(3))
  then have "fan_out (map grant_view gs) = fan_out (map grant_view hs)" by (simp add: fan_out_def)
  then show ?thesis by (simp add: view_fan_out)
qed

section \<open>Every step of NewLink is taken\<close>

lemma fold_caveats_canonical: "canonical_set a \<Longrightarrow> canonical_set (fold with_caveat cs a)"
  by (induction cs arbitrary: a) (simp_all add: canonical_set_def with_caveat_def normalise_caveats_sorted)

lemma project_keeps_canonical:
  assumes "canonical_set s"
  shows "canonical_set (project s keeps)"
proof -
  have "\<forall>t \<in> set (map (filter (\<lambda>(k, v). keeps k)) (admitted_terms s)). good_term t"
    using canonical_good [OF assms] good_filter by auto
  then have "canonical_set (new_admitted_set (map (filter (\<lambda>(k, v). keeps k)) (admitted_terms s)))"
    unfolding new_admitted_set_def by (rule normalise_canonical)
  then show ?thesis unfolding project_def by (rule fold_caveats_canonical)
qed

lemma identities_canonical: "good_grant g \<Longrightarrow> canonical_set (without_audience g)"
  by (simp add: good_grant_def without_audience_def project_keeps_canonical)

lemma meet_of_canonical:
  assumes "canonical_set a" "canonical_set b"
  obtains m where "admitted_meet a b = Some m" "canonical_set m"
    "\<And>tok. admits a tok \<Longrightarrow> admits b tok \<Longrightarrow> admits m tok"
proof -
  let ?cs = "admitted_caveats a @ admitted_caveats b"
  obtain ms where ms: "admitted_meet a b = Some (normalise ms ?cs ''Meet'')" "\<forall>m \<in> set ms. good_term m"
    "set ms = {m. \<exists>x \<in> set (admitted_terms a). \<exists>y \<in> set (admitted_terms b). conjoin x y = Some m}"
    by (rule meet_canonical [OF assms])
  have "admits (normalise ms ?cs ''Meet'') tok" if "admits a tok" "admits b tok" for tok
    using ms(2)
    by (rule normalise_admits [of ms ?cs "''Meet''"])
      (use conjunction_admits [OF assms ms(3), of tok] that in \<open>auto simp: everything_admits\<close>)
  then show thesis using that ms(1) normalise_canonical [OF ms(2)] by blast
qed

lemma empty_admits_nobody: "set_is_empty m \<Longrightarrow> \<not> admits m tok"
  by (simp add: set_is_empty_def admits_iff)

lemma denials_defined:
  "\<forall>d \<in> set ds. good_grant d \<Longrightarrow> good_grant side \<Longrightarrow> canonical_set overlap \<Longrightarrow> denials_against side i overlap ds \<noteq> None"
proof (induction ds)
  case (Cons d ds)
  have c: "canonical_set (grant_admits d)" "canonical_set (grant_admits side)" using Cons.prems by (auto simp: good_grant_def)
  obtain m where m: "admitted_meet (grant_admits d) (grant_admits side) = Some m" "canonical_set m"
    using meet_of_canonical [OF c] by blast
  obtain m' where "admitted_meet m overlap = Some m'" using meet_of_canonical [OF m(2) Cons.prems(3)] by blast
  then show ?case using Cons m by (auto simp: Let_def)
qed simp

lemma all_some_defined: "all_some xs \<noteq> None \<longleftrightarrow> None \<notin> set xs"
  by (induction xs) (auto split: Option.bind_splits)

lemma prose_defined: "prose xs \<noteq> None \<longleftrightarrow> xs \<noteq> []"
  by (cases xs rule: prose.cases) auto

lemma abbreviate_Nil [simp]: "abbreviate xs f = [] \<longleftrightarrow> xs = []"
  by (auto simp: abbreviate_def listed_def)

lemma term_shape_words: "wf_term s \<Longrightarrow> shape_words (joined s) \<noteq> None"
  using prose_defined by (cases s) (auto simp: shape_patterns_def)

lemma shape_words_defined:
  assumes "wf_set s" "\<not> is_top s" "\<not> is_empty s"
  shows "shape_words (joined s) \<noteq> None"
proof (cases s)
  case (SUnion ms)
  then have "None \<notin> set (map shape_words (map joined ms))" using assms(1) term_shape_words by (fastforce simp: list_all_iff)
  then obtain ws where "all_some (map shape_words (map joined ms)) = Some ws" using all_some_defined by (metis not_Some_eq)
  then show ?thesis by (simp add: SUnion)
next
  case (SInter gs)
  then show ?thesis using term_shape_words [of s] assms(1) by simp
next
  case (SGlob g)
  then show ?thesis by simp
qed (use assms in simp_all)

lemma constraint_words_defined:
  "good_term t \<Longrightarrow> lean_term t \<Longrightarrow> constraints_of t = Some cs \<Longrightarrow> None \<notin> set (map constraint_words cs) \<and> length cs = length t"
proof (induction t arbitrary: cs rule: constraints_of.induct)
  case (2 k s t)
  have t: "good_term t" "lean_term t" "wf_set s" "\<not> is_empty s"
    using "2.prems" by (auto simp: good_term_Cons lean_term_def)
  show ?case
  proof (cases "is_top s")
    case True
    then obtain ds where "constraints_of t = Some ds" "cs = \<lparr>constrained_claim = k, constrained_shape = None\<rparr> # ds"
      using "2.prems"(3) by auto
    then show ?thesis using "2.IH"(1) [OF True t(1,2)] by (simp add: constraint_words_def)
  next
    case False
    then have r: "read_shape (render s) = Some (joined s)" using read_shape_render t by blast
    then obtain ds where ds: "constraints_of t = Some ds" "cs = \<lparr>constrained_claim = k, constrained_shape = Some (joined s)\<rparr> # ds"
      using "2.prems"(3) False by auto
    obtain w where "shape_words (joined s) = Some w" using shape_words_defined [OF t(3) False t(4)] by blast
    then show ?thesis using "2.IH"(2) [OF False r t(1,2) ds(1)] ds(2) by (simp add: constraint_words_def)
  qed
qed simp

lemma term_words_defined:
  assumes "good_term t" "lean_term t" "t \<noteq> []"
  shows "term_words t \<noteq> None"
proof -
  obtain cs where cs: "constraints_of t = Some cs" using constraints_defined [OF assms(1,2)] by blast
  obtain ws where ws: "all_some (map constraint_words cs) = Some ws" "cs \<noteq> []"
    using constraint_words_defined [OF assms(1,2) cs] all_some_defined assms(3) by (metis length_0_conv not_Some_eq)
  then have "ws \<noteq> []" by (cases cs) (auto split: Option.bind_splits)
  then show ?thesis using cs ws(1) prose_defined [of ws] by (auto simp: term_words_def)
qed

lemma describe_admitted_defined:
  assumes "canonical_set m"
  shows "describe_admitted m issuer \<noteq> None"
proof (cases "set_is_top m")
  case False
  then have "admitted_terms m \<noteq> [[]]" by (auto simp: set_is_top_def)
  then have "\<forall>t \<in> set (admitted_terms m). good_term t \<and> lean_term t \<and> t \<noteq> []"
    using assms by (auto simp: canonical_set_def all_top_def)
  then have "None \<notin> set (map term_words (admitted_terms m))" using term_words_defined by fastforce
  then obtain ws where "all_some (map term_words (admitted_terms m)) = Some ws" using all_some_defined by (metis not_Some_eq)
  then show ?thesis by (simp add: describe_admitted_def False)
qed (simp add: describe_admitted_def)

end
