(* ===== verification/Join_Promises.thy ===== *)
theory Join_Promises imports Join_Laws begin

text \<open>
  What a user of the join may rest on: a refusal states a fact about the pair and no other pair is
  refused; an established link has an example both sides admit and no doubt left; a link does not
  show which side was named first; and a fan-out is one link for each pair of distinct grants,
  whatever order the corpus is listed in.
\<close>

section \<open>NewLink by its outcome\<close>

lemma linked_outcome:
  assumes "good_grant a" "good_grant b" "\<forall>d \<in> set ds. good_grant d"
  obtains overlap where "admitted_meet (without_audience a) (without_audience b) = Some overlap" "canonical_set overlap"
      "\<And>tok. admits (without_audience a) tok \<Longrightarrow> admits (without_audience b) tok \<Longrightarrow> admits overlap tok"
      "set_is_empty overlap" "\<exists>pre. linked a b ds = Some (Inl (refuse pre ErrDisjoint))"
    | overlap w da db description exemplified where
      "admitted_meet (without_audience a) (without_audience b) = Some overlap" "canonical_set overlap"
      "\<And>tok. admits (without_audience a) tok \<Longrightarrow> admits (without_audience b) tok \<Longrightarrow> admits overlap tok"
      "\<not> set_is_empty overlap" "witness_of overlap (without_audience a) (without_audience b) = Some w"
      "denials_against a (pair_issuer a b) overlap ds = Some da" "denials_against b (pair_issuer a b) overlap ds = Some db"
      "linked a b ds = Some (Inr (build_link a b overlap w
         ((doubts_about a @ describe_denials (grant_target a) da) @ (doubts_about b @ describe_denials (grant_target b) db) @
           overlap_doubts a b overlap w description)
         (grant_provenance a @ grant_provenance b @ concat (map (grant_provenance \<circ> denial_grant) da) @
           concat (map (grant_provenance \<circ> denial_grant) db)) description exemplified))"
proof -
  note c = assms(1,2) [THEN identities_canonical]
  obtain m where m: "admitted_meet (without_audience a) (without_audience b) = Some m" "canonical_set m"
    "\<And>tok. admits (without_audience a) tok \<Longrightarrow> admits (without_audience b) tok \<Longrightarrow> admits m tok"
    using meet_of_canonical [OF c] by blast
  show thesis
  proof (cases "set_is_empty m")
    case True
    then have "\<exists>pre. linked a b ds = Some (Inl (refuse pre ErrDisjoint))" by (auto simp: linked_def m(1))
    then show thesis using that(1) m True by blast
  next
    case False
    obtain w where w: "witness_of m (without_audience a) (without_audience b) = Some w"
      using witness_of_admitted [OF m(2)] by blast
    obtain da db where d: "denials_against a (pair_issuer a b) m ds = Some da" "denials_against b (pair_issuer a b) m ds = Some db"
      using denials_defined [OF assms(3,1) m(2)] denials_defined [OF assms(3,2) m(2)] by blast
    obtain description exemplified where e: "describe_admitted m (pair_issuer a b) = Some (description, exemplified)"
      using describe_admitted_defined [OF m(2)] by (metis not_Some_eq surj_pair)
    have "linked a b ds = Some (Inr (build_link a b m w
         ((doubts_about a @ describe_denials (grant_target a) da) @ (doubts_about b @ describe_denials (grant_target b) db) @
           overlap_doubts a b m w description)
         (grant_provenance a @ grant_provenance b @ concat (map (grant_provenance \<circ> denial_grant) da) @
           concat (map (grant_provenance \<circ> denial_grant) db)) description exemplified))"
      using False m(1) w d e by (simp add: linked_def Let_def side_doubts_def)
    then show thesis using that(2) m False w d by blast
  qed
qed

text \<open>What each sentinel says of the pair.\<close>

fun refusal_holds :: "link_refusal \<Rightarrow> grant \<Rightarrow> grant \<Rightarrow> bool" where
  "refusal_holds ErrNoTarget a b \<longleftrightarrow> blank (target_id (grant_target a)) \<or> blank (target_id (grant_target b))"
| "refusal_holds ErrNoEvidence a b \<longleftrightarrow> grant_provenance a = [] \<or> grant_provenance b = []"
| "refusal_holds ErrMalformedEvidence a b \<longleftrightarrow>
     (\<exists>g \<in> {a, b}. grant_provenance g \<noteq> [] \<and> (\<forall>r \<in> set (grant_provenance g). malformed r \<noteq> []))"
| "refusal_holds ErrSameTarget a b \<longleftrightarrow> grant_target a = grant_target b"
| "refusal_holds ErrDifferentIssuers a b \<longleftrightarrow> \<not> blank (grant_issuer a) \<and> \<not> blank (grant_issuer b) \<and> grant_issuer a \<noteq> grant_issuer b"
| "refusal_holds ErrDeny a b \<longleftrightarrow> grant_effect a = Deny \<or> grant_effect b = Deny"
| "refusal_holds ErrDisjoint a b \<longleftrightarrow> \<not> (\<exists>tok. admits (without_audience a) tok \<and> admits (without_audience b) tok)"

lemma refusal_swap: "refusal_holds s a b \<longleftrightarrow> refusal_holds s b a"
  by (cases s) auto

lemma may_share_issuer_iff: "may_share_issuer x y \<longleftrightarrow> \<not> (\<not> blank x \<and> \<not> blank y \<and> x \<noteq> y)"
  by (auto simp: may_share_issuer_def)

lemma malformed_rounded [simp]: "malformed (rounded r) = malformed r"
  by (simp add: malformed_def)

lemma evidenced_None:
  "evidenced g = None \<longleftrightarrow> (\<exists>r \<in> set (grant_provenance g). malformed r = [])"
  by (auto simp: evidenced_def Let_def list_ex_iff)

lemma evidenced_Some:
  "evidenced g = Some e \<Longrightarrow> error_wraps e = ErrNoEvidence \<and> grant_provenance g = [] \<or>
    error_wraps e = ErrMalformedEvidence \<and> grant_provenance g \<noteq> [] \<and> (\<forall>r \<in> set (grant_provenance g). malformed r \<noteq> [])"
  by (auto simp: evidenced_def refuse_def Let_def list_ex_iff split: if_splits)

lemma named_Some: "named g = Some e \<Longrightarrow> error_wraps e = ErrNoTarget \<and> blank (target_id (grant_target g))"
  by (auto simp: named_def refuse_def split: if_splits)

lemma named_None: "named g = None \<longleftrightarrow> \<not> blank (target_id (grant_target g))"
  by (simp add: named_def)

lemma wrap_wraps [simp]: "error_wraps (wrap p e) = error_wraps e"
  by (simp add: wrap_def)

lemma first_found_Cons_Some: "first_found (x # xs) = Some w \<longleftrightarrow> x = Some w \<or> x = None \<and> first_found xs = Some w"
  by (cases x) auto

lemma first_found_None: "first_found xs = None \<longleftrightarrow> (\<forall>x \<in> set xs. x = None)"
  by (induction xs) (auto split: option.splits)

lemma pairable_Some: "pairable a b = Some e \<Longrightarrow> refusal_holds (error_wraps e) a b"
  unfolding pairable_def Let_def
  by (auto simp: first_found_Cons_Some refuse_def may_share_issuer_iff split: option.splits if_splits dest!: named_Some evidenced_Some simp del: first_found.simps(2))

lemma pairable_None: "pairable a b = None \<longleftrightarrow> (\<forall>s. s \<noteq> ErrDisjoint \<longrightarrow> \<not> refusal_holds s a b)"
proof
  assume "pairable a b = None"
  then have "named a = None" "named b = None" "grant_target a \<noteq> grant_target b" "may_share_issuer (grant_issuer a) (grant_issuer b)"
    "grant_effect a \<noteq> Deny" "grant_effect b \<noteq> Deny" "evidenced a = None" "evidenced b = None"
    by (auto simp: pairable_def Let_def first_found_None split: option.splits if_splits)
  then have "refusal_holds s a b \<Longrightarrow> s = ErrDisjoint" for s
    by (cases s) (auto simp: named_None evidenced_None may_share_issuer_iff)
  then show "\<forall>s. s \<noteq> ErrDisjoint \<longrightarrow> \<not> refusal_holds s a b" by blast
next
  assume none: "\<forall>s. s \<noteq> ErrDisjoint \<longrightarrow> \<not> refusal_holds s a b"
  have "False" if e: "pairable a b = Some e" for e
  proof -
    have "error_wraps e = ErrDisjoint" using pairable_Some [OF e] none by blast
    then show False using e unfolding pairable_def Let_def
      by (auto simp: first_found_Cons_Some refuse_def split: option.splits if_splits dest!: named_Some evidenced_Some simp del: first_found.simps(2))
  qed
  then show "pairable a b = None" by (cases "pairable a b") auto
qed

lemma new_link_outcome:
  assumes "good_grant a" "good_grant b" "\<forall>d \<in> set ds. good_grant d"
  shows "\<exists>r. new_link a b ds = Some r \<and> (case r of
      Inl e \<Rightarrow> refusal_holds (error_wraps e) a b
    | Inr l \<Rightarrow> link_kind l = CounterpartyFanOut \<and> (\<forall>s. s \<noteq> ErrDisjoint \<longrightarrow> \<not> refusal_holds s a b))"
proof -
  have "\<exists>r. (case pairable x y of Some e \<Rightarrow> Some (Inl e) | None \<Rightarrow> linked x y ds) = Some r \<and> (case r of
      Inl e \<Rightarrow> refusal_holds (error_wraps e) x y
    | Inr l \<Rightarrow> link_kind l = CounterpartyFanOut \<and> (\<forall>s. s \<noteq> ErrDisjoint \<longrightarrow> \<not> refusal_holds s x y))"
    if "good_grant x" "good_grant y" for x y
  proof (cases "pairable x y")
    case None
    note p = None [unfolded pairable_None]
    show ?thesis using that assms(3)
    proof (cases rule: linked_outcome)
      case (1 overlap)
      then have "refusal_holds ErrDisjoint x y" using empty_admits_nobody by auto
      then show ?thesis using 1(5) None by (auto simp: refuse_def)
    next
      case (2 overlap w da db description exemplified)
      then show ?thesis using None p by (simp add: build_link_def Let_def)
    qed
  qed (use pairable_Some in auto)
  note outcome = this
  show ?thesis
  proof (cases "0 < compare_grants a b")
    case True
    obtain r where r: "(case pairable b a of Some e \<Rightarrow> Some (Inl e) | None \<Rightarrow> linked b a ds) = Some r"
      "case r of Inl e \<Rightarrow> refusal_holds (error_wraps e) b a
       | Inr l \<Rightarrow> link_kind l = CounterpartyFanOut \<and> (\<forall>s. s \<noteq> ErrDisjoint \<longrightarrow> \<not> refusal_holds s b a)"
      using outcome [OF assms(2,1)] by blast
    have swap: "refusal_holds s b a = refusal_holds s a b" for s by (rule refusal_swap)
    have "new_link a b ds = Some r" using r(1) True by (simp add: new_link_def)
    then show ?thesis using r(2) unfolding swap by blast
  next
    case False
    then show ?thesis using outcome [OF assms(1,2)] by (simp add: new_link_def)
  qed
qed

section \<open>An established link by its side\<close>

text \<open>A statement read in full, on evidence that proves it: no caveat, and every record names a conclusive call.\<close>

definition read_and_proved :: "grant \<Rightarrow> bool" where
  "read_and_proved g \<longleftrightarrow> is_exact (grant_admits g) \<and> grant_provenance g \<noteq> [] \<and>
     (\<forall>r \<in> set (grant_provenance g). \<not> blank (record_api r) \<and> \<not> blank (record_status r) \<and> conclusive (record_status r))"

text \<open>
  A side with no doubt left: an Allow of a named issuer, read in full with no constraint unread, and
  every statement on the same target that is not an Allow and whose issuer is the side's, or is not
  named, is itself read in full and denies none of the overlap.
\<close>

definition side_settled :: "grant \<Rightarrow> (token \<Rightarrow> bool) \<Rightarrow> grant list \<Rightarrow> bool" where
  "side_settled s shared ds \<longleftrightarrow>
     \<not> blank (grant_issuer s) \<and> grant_effect s = Allow \<and> read_and_proved s \<and>
     (\<forall>t \<in> set (admitted_terms (grant_admits s)). \<forall>(k, x) \<in> set t. \<not> is_unknown x) \<and>
     (\<forall>d \<in> set ds. grant_effect d \<noteq> Allow \<and> grant_target d = grant_target s \<and> (blank (grant_issuer d) \<or> grant_issuer d = grant_issuer s) \<longrightarrow>
       read_and_proved d \<and> (\<forall>tok. shared tok \<longrightarrow> \<not> (admits (grant_admits d) tok \<and> admits (grant_admits s) tok)))"

lemma record_doubts_Nil: "record_doubts g = [] \<longleftrightarrow>
    (\<forall>r \<in> set (grant_provenance g). \<not> blank (record_api r) \<and> \<not> blank (record_status r) \<and> conclusive (record_status r))"
proof -
  have "record_doubt t (rounded r) = [] \<longleftrightarrow> \<not> blank (record_api r) \<and> \<not> blank (record_status r) \<and> conclusive (record_status r)" for t r
    by (simp add: record_doubt_def del: append.simps)
  then show ?thesis unfolding record_doubts_def concat_eq_Nil_conv set_map set_canonical by blast
qed

lemma unproved_Nil: "unproved_reading g = [] \<longleftrightarrow> read_and_proved g"
  by (auto simp: unproved_reading_def read_and_proved_def record_doubts_Nil is_exact_def describe_caveats_def)

lemma settle_Nil: "compact_func eq (sort_func c xs) = [] \<longleftrightarrow> xs = []"
proof
  assume "compact_func eq (sort_func c xs) = []"
  then have "sort_func c xs = []" by (cases "sort_func c xs") auto
  then show "xs = []" using set_sort_func [of c xs] by (metis set_empty)
qed (simp add: sort_func_def)

lemma undeclared_exact:
  "is_exact (grant_admits g) \<Longrightarrow> undeclared g = [] \<longleftrightarrow> (\<forall>t \<in> set (admitted_terms (grant_admits g)). \<forall>(k, x) \<in> set t. \<not> is_unknown x)"
  unfolding undeclared_def Let_def settle_Nil by (fastforce simp: is_exact_def split: if_splits)

lemma doubts_about_Nil:
  "doubts_about g = [] \<and> grant_provenance g \<noteq> [] \<longleftrightarrow> \<not> blank (grant_issuer g) \<and> grant_effect g = Allow \<and> read_and_proved g \<and>
    (\<forall>t \<in> set (admitted_terms (grant_admits g)). \<forall>(k, x) \<in> set t. \<not> is_unknown x)"
  using undeclared_exact [of g]
  by (auto simp: doubts_about_def Let_def read_and_proved_def record_doubts_Nil is_exact_def split: if_splits)

lemma describe_denials_Nil: "describe_denials t ds = [] \<longleftrightarrow> ds = []"
  by (auto simp: describe_denials_def Let_def phrases_def settle_Nil filter_empty_conv)

lemma denials_Nil:
  assumes "\<forall>d \<in> set ds. good_grant d" "good_grant s" "canonical_set overlap" "denials_against s i overlap ds = Some []"
  shows "\<forall>d \<in> set ds. passed_over s i d \<or>
    read_and_proved d \<and> (\<forall>tok. admits overlap tok \<longrightarrow> \<not> (admits (grant_admits d) tok \<and> admits (grant_admits s) tok))"
  using assms
proof (induction ds)
  case (Cons d ds)
  have c: "canonical_set (grant_admits d)" "canonical_set (grant_admits s)" using Cons.prems by (auto simp: good_grant_def)
  obtain m where m: "admitted_meet (grant_admits d) (grant_admits s) = Some m" "canonical_set m"
    "\<And>tok. admits (grant_admits d) tok \<Longrightarrow> admits (grant_admits s) tok \<Longrightarrow> admits m tok"
    using meet_of_canonical [OF c] by blast
  obtain m' where m': "admitted_meet m overlap = Some m'"
    "\<And>tok. admits m tok \<Longrightarrow> admits overlap tok \<Longrightarrow> admits m' tok"
    using meet_of_canonical [OF m(2) Cons.prems(3)] by blast
  have rest: "denials_against s i overlap ds = Some []"
    and d: "passed_over s i d \<or> unproved_reading d = [] \<and> set_is_empty m'"
    using Cons.prems(4) m(1) m'(1) by (auto simp: Let_def split: if_splits Option.bind_splits)
  have "passed_over s i d \<or> read_and_proved d \<and> (\<forall>tok. admits overlap tok \<longrightarrow> \<not> (admits (grant_admits d) tok \<and> admits (grant_admits s) tok))"
    using d unproved_Nil m(3) m'(2) empty_admits_nobody by blast
  then show ?case using Cons.IH [OF _ Cons.prems(2,3) rest] Cons.prems(1) by simp
qed simp

definition proved_link :: "grant \<Rightarrow> grant \<Rightarrow> grant list \<Rightarrow> link \<Rightarrow> bool" where
  "proved_link a b ds l \<longleftrightarrow>
     grant_issuer a = grant_issuer b \<and>
     (\<exists>tok. counterparty_witness (link_subject l) = Some tok \<and> admits (without_audience a) (map_of tok) \<and> admits (without_audience b) (map_of tok)) \<and>
     (let shared = (\<lambda>tok. admits (without_audience a) tok \<and> admits (without_audience b) tok) in
      side_settled a shared ds \<and> side_settled b shared ds)"

text \<open>What the loop passes over is no Deny, on another target, or of another issuer; the side itself is an Allow.\<close>

lemma passed_over_side:
  assumes "passed_over s (grant_issuer s) d" "grant_effect s = Allow"
  shows "\<not> (grant_effect d \<noteq> Allow \<and> grant_target d = grant_target s \<and> (blank (grant_issuer d) \<or> grant_issuer d = grant_issuer s))"
proof -
  have "grant_effect d = grant_effect s" if "compare_grants d s = 0"
    using that unfolding compare_grants_def cmp_or_zero_iff by simp
  then show ?thesis using assms by (auto simp: passed_over_def may_share_issuer_def)
qed

lemma proved_link_swap: "proved_link a b ds l \<longleftrightarrow> proved_link b a ds l"
  by (auto simp: proved_link_def Let_def conj_commute)

lemma linked_established:
  assumes "good_grant a" "good_grant b" "\<forall>d \<in> set ds. good_grant d" "pairable a b = None" "linked a b ds = Some (Inr l)"
    "link_confidence l = Established"
  shows "proved_link a b ds l"
  using assms(1-3)
proof (cases rule: linked_outcome)
  case (1 overlap)
  then show ?thesis using assms(5) by auto
next
  case (2 overlap w da db description exemplified)
  let ?ds = "(doubts_about a @ describe_denials (grant_target a) da) @ (doubts_about b @ describe_denials (grant_target b) db) @
           overlap_doubts a b overlap w description"
  have l: "l = build_link a b overlap w ?ds
         (grant_provenance a @ grant_provenance b @ concat (map (grant_provenance \<circ> denial_grant) da) @
           concat (map (grant_provenance \<circ> denial_grant) db)) description exemplified"
    using 2(8) assms(5) by simp
  have "?ds = []"
    using assms(6) unfolding l by (simp add: build_link_def Let_def Established_def Indeterminate_def split: if_splits)
  then have n: "doubts_about a = []" "doubts_about b = []" "da = []" "db = []" "w \<noteq> None"
    by (auto simp: describe_denials_Nil overlap_doubts_def Let_def split: if_splits)
  have "grant_provenance a \<noteq> []" "grant_provenance b \<noteq> []" and share: "\<not> refusal_holds ErrDifferentIssuers a b"
    using assms(4) [unfolded pairable_None, rule_format, of ErrNoEvidence] assms(4) [unfolded pairable_None, rule_format, of ErrDifferentIssuers]
    by simp_all
  then have sides: "\<not> blank (grant_issuer g) \<and> grant_effect g = Allow \<and> read_and_proved g \<and>
    (\<forall>t \<in> set (admitted_terms (grant_admits g)). \<forall>(k, x) \<in> set t. \<not> is_unknown x)" if "g = a \<or> g = b" for g
    using n(1,2) doubts_about_Nil [of g] that by blast
  then have same: "grant_issuer a = grant_issuer b" and pi: "pair_issuer a b = grant_issuer a"
    using share sides [of a] sides [of b] by (auto simp: pair_issuer_def)
  obtain tok where w: "w = Some tok" using n(5) by blast
  have "admits (without_audience a) (map_of tok) \<and> admits (without_audience b) (map_of tok)"
    using witness_of_admitted [OF 2(2), of "without_audience a" "without_audience b"] 2(5) w by auto
  moreover have "counterparty_witness (link_subject l) = Some tok" unfolding l by (simp add: build_link_def Let_def w)
  moreover note da = denials_Nil [OF assms(3,1) 2(2) 2(6) [unfolded n pi]] and db = denials_Nil [OF assms(3,2) 2(2) 2(7) [unfolded n pi]]
  then have "side_settled a (\<lambda>tok. admits (without_audience a) tok \<and> admits (without_audience b) tok) ds"
    "side_settled b (\<lambda>tok. admits (without_audience a) tok \<and> admits (without_audience b) tok) ds"
    unfolding side_settled_def using sides [of a] sides [of b] 2(3) same passed_over_side [of a] passed_over_side [of b] by metis+
  ultimately show ?thesis using same by (simp add: proved_link_def)
qed

lemma established_link:
  assumes "good_grant a" "good_grant b" "\<forall>d \<in> set ds. good_grant d" "new_link a b ds = Some (Inr l)" "link_confidence l = Established"
  shows "proved_link a b ds l"
proof (cases "0 < compare_grants a b")
  case True
  then have "pairable b a = None" "linked b a ds = Some (Inr l)" using assms(4) by (auto simp: new_link_def split: option.splits)
  then show ?thesis using linked_established [OF assms(2,1,3)] assms(5) proved_link_swap by blast
next
  case False
  then have "pairable a b = None" "linked a b ds = Some (Inr l)" using assms(4) by (auto simp: new_link_def split: option.splits)
  then show ?thesis using linked_established [OF assms(1-3)] assms(5) by blast
qed

section \<open>A pair to look at\<close>

definition api_record :: evidence_record where
  "api_record = \<lparr>record_api = ''iam:GetRole'', record_params = ''{}'', record_status = StatusOK, record_bytes = ''b1'', record_sha256 = ''c4'',
     record_fetched_at = \<lparr>time_instant = 0, time_zone = 0, time_mono = None\<rparr>\<rparr>"

definition sample_grant :: "string \<Rightarrow> string \<Rightarrow> string \<Rightarrow> grant" where
  "sample_grant kind subject effect = \<lparr>grant_target = \<lparr>target_kind = kind, target_id = ''deploy''\<rparr>, grant_issuer = ''https://idp'',
     grant_admits = new_admitted_set [[(''sub'', Exact subject)]], grant_effect = effect, grant_provenance = [api_record],
     grant_anomalies = [], grant_source = []\<rparr>"

lemma sample_good: "good_grant (sample_grant kind subject effect)"
proof -
  have "good_term [(''sub'', Exact subject)]" by (simp add: good_term_Cons good_key_def Exact_def)
  then show ?thesis unfolding good_grant_def sample_grant_def new_admitted_set_def by (simp add: normalise_canonical)
qed

section \<open>A fan-out by its pairs\<close>

text \<open>What a link reads of a grant: the target, the issuer, the set, the effect, and the set of the records, each without the reading of a monotonic clock.\<close>

definition link_reads :: "grant \<Rightarrow> target_ref \<times> string \<times> admitted_set \<times> string \<times> evidence_record set" where
  "link_reads g = (grant_target g, grant_issuer g, grant_admits g, grant_effect g, rounded ` set (grant_provenance g))"

lemma link_reads_view: "link_reads g = link_reads h \<longleftrightarrow> grant_view g = grant_view h"
proof
  assume "link_reads g = link_reads h"
  then show "grant_view g = grant_view h"
    using canonical_records_cong [of "grant_provenance g" "grant_provenance h"]
    by (intro grant.equality) (simp_all add: link_reads_def grant_view_def)
next
  assume v: "grant_view g = grant_view h"
  have "link_reads (grant_view x) = link_reads x" for x by (auto simp: link_reads_def image_image)
  then show "link_reads g = link_reads h" using v by metis
qed

lemma image_subset_kernel: "f ` A \<subseteq> f ` B \<longleftrightarrow> (\<forall>a \<in> A. \<exists>b \<in> B. f a = f b)"
  by (auto simp: image_subset_iff image_iff)

lemma link_reads_image: "link_reads ` A = link_reads ` B \<longleftrightarrow> grant_view ` A = grant_view ` B"
  unfolding set_eq_subset image_subset_kernel link_reads_view ..

lemma distinct_pairwise: "sorted_wrt (\<lambda>x y. f x \<noteq> f y) xs \<Longrightarrow> distinct (map f xs)"
  by (induction xs) auto

lemma pairs_of_strict:
  assumes "sorted_wrt (\<lambda>x y. compare_grants x y < 0) gs"
  shows "(a, b) \<in> set (pairs_of gs) \<longleftrightarrow> a \<in> set gs \<and> b \<in> set gs \<and> compare_grants a b < 0"
  using assms
proof (induction gs)
  case (Cons g gs)
  have irr: "\<not> compare_grants g g < 0" by simp
  have reversed: "\<not> compare_grants x g < 0" if "x \<in> set gs" for x
    using Cons.prems that grants.compare_swap [of x g] by auto
  show ?case using Cons irr reversed by auto
qed simp

lemma corpus_strict: "sorted_wrt (\<lambda>x y. compare_grants x y < 0) (corpus gs)"
  unfolding corpus_def by (rule grants.settle_strict)

lemma corpus_subset: "set (corpus gs) \<subseteq> set gs"
  unfolding corpus_def by (rule grants.settle_subset)

lemma corpus_covers:
  assumes "\<forall>g \<in> set gs. good_grant g" "g \<in> set gs"
  obtains h where "h \<in> set (corpus gs)" "grant_view h = grant_view g"
proof -
  obtain h where h: "h \<in> set (corpus gs)" "compare_grants g h = 0"
    using grants.settle_covers [OF assms(2)] unfolding corpus_def by blast
  then have "grant_view h = grant_view g" using assms corpus_subset compare_zero_view [of g h] by (metis subsetD)
  then show thesis using that h(1) by blast
qed

lemma new_link_views: "grant_view a = grant_view a' \<Longrightarrow> grant_view b = grant_view b' \<Longrightarrow> new_link a b ds = new_link a' b' ds"
  by (metis view_new_link)

lemma link_pairs_outcome:
  assumes "\<forall>d \<in> set ds. good_grant d"
  shows "\<forall>(a, b) \<in> set ps. good_grant a \<and> good_grant b \<Longrightarrow>
    \<exists>ls. link_pairs ds ps = Some ls \<and> length ls \<le> length ps \<and> set ls = {l. \<exists>(a, b) \<in> set ps. new_link a b ds = Some (Inr l)}"
proof (induction ps)
  case (Cons p ps)
  obtain a b where p: "p = (a, b)" by (cases p)
  obtain r where r: "new_link a b ds = Some r" using new_link_outcome [OF _ _ assms, of a b] Cons.prems p by auto
  obtain ls where "link_pairs ds ps = Some ls" "length ls \<le> length ps" "set ls = {l. \<exists>(a, b) \<in> set ps. new_link a b ds = Some (Inr l)}"
    using Cons by auto
  then show ?case using r by (cases r) (auto simp: p)
qed simp

lemma corpus_pairs:
  assumes "\<forall>g \<in> set gs. good_grant g"
  shows "(\<exists>(a, b) \<in> set (pairs_of (corpus gs)). new_link a b ds = Some (Inr l)) \<longleftrightarrow>
    (\<exists>a \<in> set gs. \<exists>b \<in> set gs. grant_view a \<noteq> grant_view b \<and> new_link a b ds = Some (Inr l))"
proof
  assume "\<exists>(a, b) \<in> set (pairs_of (corpus gs)). new_link a b ds = Some (Inr l)"
  then obtain a b where ab: "a \<in> set (corpus gs)" "b \<in> set (corpus gs)" "compare_grants a b < 0" "new_link a b ds = Some (Inr l)"
    by (auto simp: pairs_of_strict [OF corpus_strict])
  have "a \<in> set gs" "b \<in> set gs" using ab(1,2) corpus_subset by blast+
  moreover have "grant_view a \<noteq> grant_view b"
    using compare_zero_view [of a b] assms ab(3) calculation by auto
  ultimately show "\<exists>a \<in> set gs. \<exists>b \<in> set gs. grant_view a \<noteq> grant_view b \<and> new_link a b ds = Some (Inr l)" using ab(4) by blast
next
  assume "\<exists>a \<in> set gs. \<exists>b \<in> set gs. grant_view a \<noteq> grant_view b \<and> new_link a b ds = Some (Inr l)"
  then obtain a b where ab: "a \<in> set gs" "b \<in> set gs" "grant_view a \<noteq> grant_view b" "new_link a b ds = Some (Inr l)" by blast
  obtain a' where a: "a' \<in> set (corpus gs)" "grant_view a' = grant_view a" using corpus_covers [OF assms ab(1)] .
  obtain b' where b: "b' \<in> set (corpus gs)" "grant_view b' = grant_view b" using corpus_covers [OF assms ab(2)] .
  have good: "good_grant a'" "good_grant b'" using a(1) b(1) corpus_subset assms by blast+
  have link: "new_link a' b' ds = Some (Inr l)" using new_link_views [OF a(2) b(2)] ab(4) by simp
  then have link': "new_link b' a' ds = Some (Inr l)" using new_link_commute [OF good] by simp
  have "compare_grants a' b' \<noteq> 0" using compare_zero_view [OF good] ab(3) a(2) b(2) by simp
  then have "compare_grants a' b' < 0 \<or> compare_grants b' a' < 0" using grants.compare_swap [of b' a'] by linarith
  then show "\<exists>(a, b) \<in> set (pairs_of (corpus gs)). new_link a b ds = Some (Inr l)"
    using a(1) b(1) link link' pairs_of_strict [OF corpus_strict] by blast
qed

lemma length_pairs: "2 * length (pairs_of xs) = length xs * (length xs - 1)"
proof (induction xs)
  case (Cons x xs)
  then show ?case by (cases "length xs") (simp_all add: algebra_simps)
qed simp

lemma fan_out_outcome:
  assumes "\<forall>g \<in> set gs. good_grant g"
  shows "\<exists>ls es. fan_out gs = Some (ls, es) \<and> 2 * length ls \<le> length (corpus gs) * (length (corpus gs) - 1) \<and>
    set ls = {l. \<exists>a \<in> set gs. \<exists>b \<in> set gs. grant_view a \<noteq> grant_view b \<and>
      new_link a b (filter (\<lambda>g. grant_effect g \<noteq> Allow) (corpus gs)) = Some (Inr l)} \<and>
    (es = [] \<longleftrightarrow> (\<forall>g \<in> set gs. well_formed g = None))"
proof -
  let ?ds = "filter (\<lambda>g. grant_effect g \<noteq> Allow) (corpus gs)"
  have good: "\<forall>g \<in> set (corpus gs). good_grant g" using assms corpus_subset by blast
  have "\<forall>(a, b) \<in> set (pairs_of (corpus gs)). good_grant a \<and> good_grant b"
    using good by (auto simp: pairs_of_strict [OF corpus_strict])
  then obtain ls where ls: "link_pairs ?ds (pairs_of (corpus gs)) = Some ls" "length ls \<le> length (pairs_of (corpus gs))"
    "set ls = {l. \<exists>(a, b) \<in> set (pairs_of (corpus gs)). new_link a b ?ds = Some (Inr l)}"
    using link_pairs_outcome [of ?ds "pairs_of (corpus gs)"] good by auto
  have "List.map_filter well_formed (corpus gs) = [] \<longleftrightarrow> (\<forall>g \<in> set (corpus gs). well_formed g = None)"
    by (auto simp: List.map_filter_def filter_empty_conv)
  also have "\<dots> \<longleftrightarrow> (\<forall>g \<in> set gs. well_formed g = None)"
    using corpus_subset corpus_covers [OF assms] view_well_formed(3) by (metis subsetD)
  finally show ?thesis
    using ls(1,2) length_pairs [of "corpus gs"] ls(3) [unfolded corpus_pairs [OF assms]] by (simp add: fan_out_def)
qed

text \<open>The links of the pairs of a list, each two places of it once.\<close>

definition linked_pairs :: "grant list \<Rightarrow> grant list \<Rightarrow> link multiset" where
  "linked_pairs ds gs = (\<Sum>(i, j) \<in> {(i, j). i < j \<and> j < length gs}.
     case new_link (gs ! i) (gs ! j) ds of Some (Inr l) \<Rightarrow> {#l#} | _ \<Rightarrow> {#})"

lemma index_pairs_Suc: "{(i, j). i < j \<and> j < Suc n} = (\<lambda>j. (0, Suc j)) ` {..<n} \<union> map_prod Suc Suc ` {(i, j). i < j \<and> j < n}"
proof (intro set_eqI iffI)
  fix p
  assume "p \<in> {(i, j). i < j \<and> j < Suc n}"
  then obtain i j where p: "p = (i, j)" "i < j" "j < Suc n" by auto
  then obtain j' where j: "j = Suc j'" by (cases j) auto
  show "p \<in> (\<lambda>j. (0, Suc j)) ` {..<n} \<union> map_prod Suc Suc ` {(i, j). i < j \<and> j < n}"
    using p j by (cases i) (auto simp: image_iff)
qed auto

lemma finite_index_pairs: "finite {(i, j). i < j \<and> j < (n :: nat)}"
  by (rule finite_subset [of _ "{..<n} \<times> {..<n}"]) auto

lemma sum_pairs:
  fixes f :: "'a \<Rightarrow> 'a \<Rightarrow> 'b multiset"
  shows "(\<Sum>(i, j) \<in> {(i, j). i < j \<and> j < length xs}. f (xs ! i) (xs ! j)) = (\<Sum>(x, y) \<leftarrow> pairs_of xs. f x y)"
proof (induction xs)
  case (Cons x xs)
  let ?P = "{(i, j). i < j \<and> j < length xs}"
  have "(\<Sum>(i, j) \<in> {(i, j). i < j \<and> j < length (x # xs)}. f ((x # xs) ! i) ((x # xs) ! j)) =
    (\<Sum>(i, j) \<in> (\<lambda>j. (0, Suc j)) ` {..<length xs}. f ((x # xs) ! i) ((x # xs) ! j)) +
    (\<Sum>(i, j) \<in> map_prod Suc Suc ` ?P. f ((x # xs) ! i) ((x # xs) ! j))"
    unfolding length_Cons index_pairs_Suc by (rule sum.union_disjoint) (auto intro: finite_index_pairs)
  also have "(\<Sum>(i, j) \<in> (\<lambda>j. (0, Suc j)) ` {..<length xs}. f ((x # xs) ! i) ((x # xs) ! j)) = (\<Sum>j < length xs. f x (xs ! j))"
    by (subst sum.reindex) (auto simp: inj_on_def)
  also have "\<dots> = (\<Sum>y \<leftarrow> xs. f x y)"
    by (simp add: sum_list_sum_nth atLeast0LessThan)
  also have "(\<Sum>(i, j) \<in> map_prod Suc Suc ` ?P. f ((x # xs) ! i) ((x # xs) ! j)) = (\<Sum>(i, j) \<in> ?P. f (xs ! i) (xs ! j))"
    by (subst sum.reindex) (auto simp: inj_on_def intro!: sum.cong)
  finally show ?case using Cons.IH by (simp add: o_def)
qed simp

lemma link_pairs_sum:
  "link_pairs ds ps = Some ls \<Longrightarrow> mset ls = (\<Sum>(a, b) \<leftarrow> ps. case new_link a b ds of Some (Inr l) \<Rightarrow> {#l#} | _ \<Rightarrow> {#})"
proof (induction ps arbitrary: ls)
  case (Cons p ps)
  obtain a b where p: "p = (a, b)" by (cases p)
  obtain r rest where r: "new_link a b ds = Some r" "link_pairs ds ps = Some rest"
    "ls = (case r of Inl e \<Rightarrow> rest | Inr l \<Rightarrow> l # rest)"
    using Cons.prems p by (auto split: Option.bind_splits)
  show ?case using Cons.IH [OF r(2)] r by (cases r) (auto simp: p)
qed simp

text \<open>A grant that is no side of a link, and the error that names it: its target, then what is wrong with it.\<close>

definition no_side :: "grant \<Rightarrow> bool" where
  "no_side g \<longleftrightarrow> blank (target_id (grant_target g)) \<or>
     (\<forall>r \<in> set (grant_provenance g). blank (record_api r) \<or> blank (record_status r))"

definition names_fault :: "grant \<Rightarrow> link_error \<Rightarrow> bool" where
  "names_fault g e \<longleftrightarrow>
     (\<exists>rest. error_text e = describe_grant g @ rest) \<and>
     error_wraps e = (if blank (target_id (grant_target g)) then ErrNoTarget
       else if grant_provenance g = [] then ErrNoEvidence else ErrMalformedEvidence)"

lemma malformed_Nil: "malformed r = [] \<longleftrightarrow> \<not> blank (record_api r) \<and> \<not> blank (record_status r)"
  by (simp add: malformed_def)

lemma well_formed_None: "well_formed g = None \<longleftrightarrow> \<not> no_side g"
  using named_None [of g] evidenced_None [of g] by (auto simp: well_formed_def no_side_def malformed_Nil split: option.splits)

lemma well_formed_Some: "well_formed g = Some e \<Longrightarrow> names_fault g e"
  by (auto simp: well_formed_def named_def evidenced_def names_fault_def refuse_def Let_def split: option.splits if_splits)

lemma refusals_named: "list_all2 names_fault (filter no_side gs) (List.map_filter well_formed gs)"
proof (induction gs)
  case (Cons g gs)
  show ?case
  proof (cases "well_formed g")
    case None
    then show ?thesis using Cons well_formed_None [of g] by (simp add: List.map_filter_simps)
  next
    case (Some e)
    then show ?thesis using Cons well_formed_None [of g] well_formed_Some [OF Some] by (simp add: List.map_filter_simps)
  qed
qed (simp add: List.map_filter_simps)

lemma fan_out_links:
  assumes "\<forall>g \<in> set gs. good_grant g"
  shows "\<exists>reps ls es. fan_out gs = Some (ls, es) \<and>
    set reps \<subseteq> set gs \<and> link_reads ` set reps = link_reads ` set gs \<and> distinct (map link_reads reps) \<and>
    sorted_wrt (\<lambda>g h. compare_grants g h < 0) reps \<and>
    mset ls = linked_pairs (filter (\<lambda>g. grant_effect g \<noteq> Allow) reps) reps \<and>
    set ls = {l. \<exists>a \<in> set gs. \<exists>b \<in> set gs. link_reads a \<noteq> link_reads b \<and>
      new_link a b (filter (\<lambda>g. grant_effect g \<noteq> Allow) reps) = Some (Inr l)} \<and>
    list_all2 names_fault (filter no_side reps) es"
proof -
  let ?r = "corpus gs" and ?ds = "filter (\<lambda>g. grant_effect g \<noteq> Allow) (corpus gs)"
  have good: "\<forall>g \<in> set ?r. good_grant g" using assms corpus_subset by blast
  obtain ls es where f: "fan_out gs = Some (ls, es)" "set ls = {l. \<exists>a \<in> set gs. \<exists>b \<in> set gs. link_reads a \<noteq> link_reads b \<and>
      new_link a b ?ds = Some (Inr l)}"
    using fan_out_outcome [OF assms] unfolding link_reads_view [symmetric] by (elim exE conjE) rule
  from f(1) obtain ls' where ls: "link_pairs ?ds (pairs_of ?r) = Some ls'" "ls = sort_func compare_links ls'" "es = List.map_filter well_formed ?r"
    by (auto simp: fan_out_def Let_def split: Option.bind_splits)
  have pairs: "mset ls = linked_pairs ?ds ?r"
    unfolding ls(2) linked_pairs_def mset_sort_func link_pairs_sum [OF ls(1)]
    by (rule sum_pairs [of "\<lambda>a b. case new_link a b ?ds of Some (Inr l) \<Rightarrow> {#l#} | _ \<Rightarrow> {#}" "corpus gs", symmetric])
  have covers: "\<exists>h \<in> set ?r. grant_view g = grant_view h" if "g \<in> set gs" for g
    using corpus_covers [OF assms that] by metis
  have "grant_view ` set gs \<subseteq> grant_view ` set ?r" unfolding image_subset_kernel by (rule ballI) (rule covers)
  moreover have "grant_view ` set ?r \<subseteq> grant_view ` set gs" by (rule image_mono) (rule corpus_subset)
  ultimately have reads: "link_reads ` set ?r = link_reads ` set gs" unfolding link_reads_image by (rule antisym [rotated])
  have apart: "link_reads g \<noteq> link_reads h" if "g \<in> set ?r" "h \<in> set ?r" "compare_grants g h < 0" for g h
    using that good compare_zero_view [of g h] by (auto simp: link_reads_view)
  have "distinct (map link_reads ?r)"
    by (rule distinct_pairwise, rule sorted_wrt_mono_rel [OF _ corpus_strict]) (use apart in blast)
  then show ?thesis
    using f(1,2) pairs reads corpus_strict [of gs] corpus_subset [of gs] refusals_named [of ?r] unfolding ls(3)
    by (intro exI [of _ ?r] exI [of _ ls] exI [of _ "List.map_filter well_formed ?r"] conjI)
qed

text \<open>The sample, evaluated. The two readers of digits recurse on the successor of their count; these are their equations for evaluation.\<close>

lemma read_octal_code [code]: "read_octal k v s = (if k = 0 then Some (v, s) else case s of [] \<Rightarrow> None | c # s \<Rightarrow>
    if 48 \<le> byte c \<and> byte c \<le> 55 then read_octal (k - 1) (v * 8 + (byte c - 48)) s else None)"
  by (cases k; cases s) auto

lemma read_hex_code [code]: "read_hex k v s = (if k = 0 then Some (v, s) else case s of [] \<Rightarrow> None | c # s \<Rightarrow>
    (case unhex c of None \<Rightarrow> None | Some d \<Rightarrow> read_hex (k - 1) (v * 16 + d) s))"
  by (cases k; cases s) (auto split: option.splits)

abbreviation sub_a :: admitted_set where
  "sub_a \<equiv> \<lparr>admitted_terms = [[(''sub'', SExact ''a'')]], admitted_caveats = []\<rparr>"

lemma sample_set: "grant_admits (sample_grant kind ''a'' effect) = sub_a"
  unfolding sample_grant_def grant.simps by code_simp

lemma sample_identities: "without_audience (sample_grant kind ''a'' effect) = sub_a"
  unfolding without_audience_def sample_set by code_simp

lemma sample_meet: "admitted_meet sub_a sub_a = Some sub_a" by code_simp

lemma sample_witness: "witness_of sub_a sub_a sub_a = Some (Some [(''sub'', ''a'')])" "\<not> set_is_empty sub_a"
  by code_simp+

lemma sample_texts: "\<not> blank ''deploy''" "\<not> blank ''https://idp''" "\<not> blank ''iam:GetRole''" "\<not> blank StatusOK" "blank []"
  by code_simp+

lemmas sample_simps [simp] = sample_set sample_identities sample_texts

lemma sample_side [simp]:
  "grant_target (sample_grant kind subject effect) = \<lparr>target_kind = kind, target_id = ''deploy''\<rparr>"
  "grant_issuer (sample_grant kind subject effect) = ''https://idp''" "grant_effect (sample_grant kind subject effect) = effect"
  "grant_provenance (sample_grant kind subject effect) = [api_record]"
  by (simp_all add: sample_grant_def)

lemma sample_refusal:
  "refusal_holds s (sample_grant k ''a'' Allow) (sample_grant l ''a'' Allow) \<longleftrightarrow> s = ErrSameTarget \<and> k = l"
proof -
  have "admits sub_a [''sub'' \<mapsto> ''a'']" by (simp add: admits_iff term_admits_def satisfies_def)
  moreover have "malformed api_record = []" by (simp add: malformed_def api_record_def)
  moreover have "Allow \<noteq> Deny" by (simp add: Allow_def Deny_def)
  ultimately show ?thesis by (cases s) auto
qed

lemma sample_doubts: "doubts_about (sample_grant kind ''a'' Allow) = []"
proof -
  have "read_and_proved (sample_grant kind ''a'' Allow)"
    by (simp add: read_and_proved_def is_exact_def api_record_def conclusive_def)
  then have "doubts_about (sample_grant kind ''a'' Allow) = [] \<and> grant_provenance (sample_grant kind ''a'' Allow) \<noteq> []"
    unfolding doubts_about_Nil by simp
  then show ?thesis ..
qed

lemma sample_established:
  "\<exists>l. new_link (sample_grant ''application'' ''a'' Allow) (sample_grant ''role'' ''a'' Allow) [] = Some (Inr l) \<and> link_confidence l = Established"
proof -
  let ?a = "sample_grant ''application'' ''a'' Allow" and ?b = "sample_grant ''role'' ''a'' Allow"
  have "compare_targets \<lparr>target_kind = ''application'', target_id = ''deploy''\<rparr> \<lparr>target_kind = ''role'', target_id = ''deploy''\<rparr> = - 1"
    by code_simp
  then have "\<not> 0 < compare_grants ?a ?b" by (simp add: compare_grants_def)
  moreover have "pairable ?a ?b = None" by (simp add: pairable_None sample_refusal)
  moreover have "canonical_set sub_a" using sample_good [of k "''a''" Allow for k] by (simp add: good_grant_def)
  then obtain d e where "describe_admitted sub_a (pair_issuer ?a ?b) = Some (d, e)"
    using describe_admitted_defined by (metis not_Some_eq surj_pair)
  ultimately show ?thesis
    by (simp add: new_link_def linked_def Let_def sample_meet sample_witness side_doubts_def sample_doubts describe_denials_def phrases_def
        build_link_def overlap_doubts_def caveats_beyond_def settle_Nil)
qed

section \<open>Properties\<close>

text \<open>
  C24: NewLink always returns, and a refusal is true. Whatever two grants and whatever denying
  statements it is given, with sets package eval builds over claim names without an equals sign, a refusal's sentinel states a fact of the pair: a target unnamed, evidence
  missing or all of it malformed, one target twice, two known issuers that differ, a Deny, or sets
  that share no identity at all. So two grants of which none of these hold, sharing an identity among
  them, always get their link: an overlap is never silently lost.
\<close>

theorem refusals_are_facts:
  assumes "good_grant a" "good_grant b" "\<forall>d \<in> set ds. good_grant d"
  shows "\<exists>r. new_link a b ds = Some r
    \<and> (\<forall>e. r = Inl e \<longrightarrow> refusal_holds (error_wraps e) a b)
    \<and> (\<forall>l. r = Inr l \<longrightarrow> link_kind l = CounterpartyFanOut \<and> (\<forall>s. s \<noteq> ErrDisjoint \<longrightarrow> \<not> refusal_holds s a b))
    \<and> ((\<forall>s. \<not> refusal_holds s a b) \<longrightarrow> (\<exists>l. r = Inr l))"
proof -
  from new_link_outcome [OF assms] obtain r where r: "new_link a b ds = Some r" "case r of
      Inl e \<Rightarrow> refusal_holds (error_wraps e) a b
    | Inr l \<Rightarrow> link_kind l = CounterpartyFanOut \<and> (\<forall>s. s \<noteq> ErrDisjoint \<longrightarrow> \<not> refusal_holds s a b)" by blast
  then show ?thesis by (cases r) auto
qed

theorem refusals_are_facts_witness:
  "\<exists>l. new_link (sample_grant ''role'' ''a'' Allow) (sample_grant ''application'' ''a'' Allow) [sample_grant ''role'' ''b'' Deny] = Some (Inr l)
    \<and> link_kind l = CounterpartyFanOut"
proof -
  have "\<forall>d \<in> set [sample_grant ''role'' ''b'' Deny]. good_grant d" by (simp add: sample_good)
  from refusals_are_facts [OF sample_good [of "''role''" "''a''" Allow] sample_good [of "''application''" "''a''" Allow] this]
  show ?thesis by (auto simp: sample_refusal)
qed

text \<open>
  C23: An established link is proved, for grants whose sets package eval builds over claim names
  without an equals sign. Its example token is admitted by both grants, which accept one and the same
  issuer, named; both sides are Allows read in full, with no constraint left unread and every record of
  theirs conclusive; and each statement it is given on a side's target, of that issuer or of none named,
  that is not an Allow is itself read in full on conclusive evidence and denies none of the identities
  the two share.
\<close>

theorem established_links_are_proved:
  assumes "good_grant a" "good_grant b" "\<forall>d \<in> set ds. good_grant d"
    and "new_link a b ds = Some (Inr l)" "link_confidence l = Established"
  shows "proved_link a b ds l"
  using established_link [OF assms] .

theorem established_links_are_proved_witness:
  "\<exists>l. new_link (sample_grant ''application'' ''a'' Allow) (sample_grant ''role'' ''a'' Allow) [] = Some (Inr l)
    \<and> proved_link (sample_grant ''application'' ''a'' Allow) (sample_grant ''role'' ''a'' Allow) [] l"
  using sample_established established_links_are_proved [OF sample_good sample_good, of "[]" "''application''" "''a''" Allow "''role''" "''a''" Allow]
  by auto

text \<open>
  C26: Order never shows in a link. For grants whose sets package eval builds over claim names without
  an equals sign, so that two of them render alike only where they are the same: which of two grants
  is named first does not show, and a fan-out is a function of the set of grants it is given, of each
  of which it reads the target, the issuer, the admitted set, the effect and the set of its records; a
  grant listed twice, records in another order or listed twice, and a monotonic clock reading change
  nothing.
\<close>

theorem links_ignore_order:
  assumes "\<forall>g \<in> set gs. good_grant g" "\<forall>g \<in> set hs. good_grant g" "link_reads ` set gs = link_reads ` set hs"
  shows "fan_out gs = fan_out hs \<and> (a \<in> set gs \<longrightarrow> b \<in> set gs \<longrightarrow> new_link a b ds = new_link b a ds)"
  using fan_out_cong [OF assms(1,2) assms(3) [unfolded link_reads_image]] new_link_commute [of a b ds] assms(1) by blast

theorem links_ignore_order_witness:
  "fan_out [sample_grant ''role'' ''a'' Allow, sample_grant ''application'' ''a'' Allow, sample_grant ''role'' ''a'' Allow] =
    fan_out [sample_grant ''application'' ''a'' Allow, (sample_grant ''role'' ''a'' Allow)\<lparr>grant_provenance := [api_record, api_record]\<rparr>]"
proof -
  let ?r = "sample_grant ''role'' ''a'' Allow" and ?a = "sample_grant ''application'' ''a'' Allow"
  let ?r' = "?r\<lparr>grant_provenance := [api_record, api_record]\<rparr>"
  have v: "link_reads ?r' = link_reads ?r" by (simp add: link_reads_def)
  have good: "good_grant ?r" "good_grant ?a" "good_grant ?r'"
    using sample_good [of "''role''" "''a''" Allow] sample_good [of "''application''" "''a''" Allow] by (simp_all add: good_grant_def)
  have "\<forall>g \<in> set [?r, ?a, ?r]. good_grant g" "\<forall>g \<in> set [?a, ?r']. good_grant g"
    "link_reads ` set [?r, ?a, ?r] = link_reads ` set [?a, ?r']" using good v by auto
  from links_ignore_order [OF this] show ?thesis by blast
qed

text \<open>
  C25: A fan-out misses no pair and no fault. On every corpus of grants whose sets package eval builds
  over claim names without an equals sign it returns. Grants that differ in nothing a link reads count
  as one: of each such class one grant is taken. The links are those of NewLink, against the statements
  that are not known to allow, for each two of them, each pair once, so that any two grants of the
  corpus that differ in what a link reads have their link and no other pair has one. The errors are one
  for each grant taken that names no target or has no well-formed record, in canonical order, with the
  sentinel of what is wrong and the grant's name.
\<close>

theorem fan_out_is_every_pair:
  assumes "\<forall>g \<in> set gs. good_grant g"
  shows "\<exists>reps ls es. fan_out gs = Some (ls, es)
    \<and> set reps \<subseteq> set gs \<and> link_reads ` set reps = link_reads ` set gs \<and> distinct (map link_reads reps)
    \<and> sorted_wrt (\<lambda>g h. compare_grants g h < 0) reps
    \<and> mset ls = linked_pairs (filter (\<lambda>g. grant_effect g \<noteq> Allow) reps) reps
    \<and> set ls = {l. \<exists>a \<in> set gs. \<exists>b \<in> set gs. link_reads a \<noteq> link_reads b
        \<and> new_link a b (filter (\<lambda>g. grant_effect g \<noteq> Allow) reps) = Some (Inr l)}
    \<and> list_all2 names_fault (filter no_side reps) es"
  using assms by (rule fan_out_links)

lemma list_all2_named: "list_all2 P xs ys \<Longrightarrow> x \<in> set xs \<Longrightarrow> \<exists>y \<in> set ys. P x y"
  by (induction rule: list_all2_induct) auto

lemma one_of_two: "A \<subseteq> {g, b} \<Longrightarrow> f g \<noteq> f b \<Longrightarrow> f b \<in> f ` A \<Longrightarrow> b \<in> A"
  by auto

text \<open>A grant named twice beside one that names no target.\<close>

theorem fan_out_is_every_pair_witness:
  "\<exists>ls es. fan_out [sample_grant ''role'' ''a'' Allow, sample_grant ''role'' ''a'' Allow,
      (sample_grant ''role'' ''a'' Allow)\<lparr>grant_target := \<lparr>target_kind = ''role'', target_id = []\<rparr>\<rparr>] = Some (ls, es)
    \<and> (\<exists>e \<in> set es. error_wraps e = ErrNoTarget)"
proof -
  let ?g = "sample_grant ''role'' ''a'' Allow" and ?b = "(sample_grant ''role'' ''a'' Allow)\<lparr>grant_target := \<lparr>target_kind = ''role'', target_id = []\<rparr>\<rparr>"
  have "good_grant ?b" using sample_good [of "''role''" "''a''" Allow] by (simp add: good_grant_def)
  then have "\<forall>g \<in> set [?g, ?g, ?b]. good_grant g" by (simp add: sample_good)
  from fan_out_is_every_pair [OF this] obtain reps ls es where r: "fan_out [?g, ?g, ?b] = Some (ls, es)"
    "set reps \<subseteq> {?g, ?b}" "link_reads ` set reps = {link_reads ?g, link_reads ?b}" "list_all2 names_fault (filter no_side reps) es"
    by auto
  have "link_reads ?g \<noteq> link_reads ?b" by (simp add: link_reads_def)
  moreover have "link_reads ?b \<in> link_reads ` set reps" unfolding r(3) by simp
  ultimately have "?b \<in> set reps" by (rule one_of_two [OF r(2)])
  then have "?b \<in> set (filter no_side reps)" by (simp add: no_side_def)
  from list_all2_named [OF r(4) this] obtain e where e: "e \<in> set es" "names_fault ?b e" by (rule bexE)
  have "error_wraps e = ErrNoTarget" using e(2) by (simp add: names_fault_def)
  then show ?thesis using r(1) e(1) by blast
qed

end
