(* ===== verification/Json_Decoder.thy ===== *)
theory Json_Decoder imports Aws_Json begin

text \<open>
  The token stream of encoding/json, the Decoder the readers of the parse packages walk: Token with
  UseNumber over a document that is all there. Bytes between tokens are skipped, a colon and a comma
  are taken where the state expects one, and a string, a number or a word is read as the scanner of
  the package reads it, up to the first byte that cannot continue it. An error is told apart only as
  far as the readers do: the end of the input before a token, an end inside one, and any other.
\<close>

section \<open>Strings\<close>

datatype decode_error = EndOfInput | UnexpectedEnd | SyntaxError

definition json_space :: "char \<Rightarrow> bool" where
  "json_space c \<longleftrightarrow> byte c \<in> {9, 10, 13, 32}"

definition simple_escape :: "char \<Rightarrow> char option" where
  "simple_escape e =
     (if e = dquote \<or> e = backslash \<or> e = CHR ''/'' then Some e
      else if e = CHR ''b'' then Some (chr 8) else if e = CHR ''f'' then Some (chr 12) else if e = CHR ''n'' then Some (chr 10)
      else if e = CHR ''r'' then Some (chr 13) else if e = CHR ''t'' then Some (chr 9) else None)"

fun hex_code :: "nat \<Rightarrow> nat \<Rightarrow> string \<Rightarrow> decode_error + nat \<times> string" where
  "hex_code 0 v s = Inr (v, s)"
| "hex_code (Suc k) v [] = Inl UnexpectedEnd"
| "hex_code (Suc k) v (c # s) = (case unhex c of None \<Rightarrow> Inl SyntaxError | Some d \<Rightarrow> hex_code k (v * 16 + d) s)"

text \<open>The digits of an escape by case on their number, so that the reader evaluates.\<close>

lemma hex_code_code [code]:
  "hex_code k v s =
     (if k = 0 then Inr (v, s)
      else case s of [] \<Rightarrow> Inl UnexpectedEnd | c # s \<Rightarrow> (case unhex c of None \<Rightarrow> Inl SyntaxError | Some d \<Rightarrow> hex_code (k - 1) (v * 16 + d) s))"
  by (cases k; cases s) (auto split: option.splits)

text \<open>The second half of a UTF-16 pair, right after a first one; utf16.DecodeRune.\<close>

definition low_half :: "nat \<Rightarrow> string \<Rightarrow> (nat \<times> string) option" where
  "low_half r s =
     (if 55296 \<le> r \<and> r < 56320 \<and> has_prefix s [backslash, CHR ''u'']
      then (case hex_code 4 0 (drop 2 s) of
          Inr (r', s') \<Rightarrow> if 56320 \<le> r' \<and> r' < 57344 then Some (65536 + (r - 55296) * 1024 + (r' - 56320), s') else None
        | Inl _ \<Rightarrow> None)
      else None)"

definition prepend :: "string \<Rightarrow> 'e + string \<times> 'b \<Rightarrow> 'e + string \<times> 'b" where
  "prepend p r = (case r of Inl e \<Rightarrow> Inl e | Inr (s, t) \<Rightarrow> Inr (p @ s, t))"

lemma hex_code_length: "hex_code k v s = Inr (r, t) \<Longrightarrow> length s = length t + k"
  by (induction k v s rule: hex_code.induct) (auto split: option.splits)

lemma low_half_length: "low_half r s = Some (r', t) \<Longrightarrow> length t < length s"
  by (cases s; cases "tl s") (auto simp: low_half_def has_prefix_def dest!: hex_code_length split: if_splits sum.splits)

text \<open>What follows the opening quote: the text and what is left after the closing one. Half a pair alone becomes U+FFFD.\<close>

function string_body :: "string \<Rightarrow> decode_error + string \<times> string" where
  "string_body s =
     (case s of
        [] \<Rightarrow> Inl UnexpectedEnd
      | c # s \<Rightarrow>
        if c = dquote then Inr ([], s)
        else if byte c < 32 then Inl SyntaxError
        else if c \<noteq> backslash then prepend [c] (string_body s)
        else
          (case s of
             [] \<Rightarrow> Inl UnexpectedEnd
           | e # s \<Rightarrow>
             (case simple_escape e of
                Some d \<Rightarrow> prepend [d] (string_body s)
              | None \<Rightarrow>
                if e \<noteq> CHR ''u'' then Inl SyntaxError
                else
                  (case hex_code 4 0 s of
                     Inl err \<Rightarrow> Inl err
                   | Inr (r, s) \<Rightarrow>
                     (case low_half r s of
                        Some (r', s') \<Rightarrow> prepend (encode_rune r') (string_body s')
                      | None \<Rightarrow> prepend (encode_rune r) (string_body s))))))"
  by pat_completeness auto
termination string_body
  by (relation "measure length") (auto dest!: hex_code_length low_half_length)

declare string_body.simps [simp del]

lemma string_body_Nil [simp]: "string_body [] = Inl UnexpectedEnd"
  by (simp add: string_body.simps)

lemma string_body_quote [simp]: "string_body (dquote # s) = Inr ([], s)"
  by (simp add: string_body.simps)

lemma string_body_plain: "c \<noteq> dquote \<Longrightarrow> 32 \<le> byte c \<Longrightarrow> c \<noteq> backslash \<Longrightarrow> string_body (c # s) = prepend [c] (string_body s)"
  by (subst string_body.simps) simp

lemma string_body_control: "c \<noteq> dquote \<Longrightarrow> byte c < 32 \<Longrightarrow> string_body (c # s) = Inl SyntaxError"
  by (subst string_body.simps) simp

lemma backslash_byte [simp]: "byte backslash = 92" "backslash \<noteq> dquote"
  by (simp_all add: backslash_def dquote_def byte_def)

lemma string_body_cut [simp]: "string_body [backslash] = Inl UnexpectedEnd"
  by (subst string_body.simps) simp

lemma string_body_simple: "simple_escape e = Some d \<Longrightarrow> string_body (backslash # e # s) = prepend [d] (string_body s)"
  by (subst string_body.simps) simp

lemma string_body_bad: "simple_escape e = None \<Longrightarrow> e \<noteq> CHR ''u'' \<Longrightarrow> string_body (backslash # e # s) = Inl SyntaxError"
  by (subst string_body.simps) simp

lemma string_body_code:
  "string_body (backslash # CHR ''u'' # s) =
     (case hex_code 4 0 s of
        Inl err \<Rightarrow> Inl err
      | Inr (r, s) \<Rightarrow>
        (case low_half r s of
           Some (r', s') \<Rightarrow> prepend (encode_rune r') (string_body s')
         | None \<Rightarrow> prepend (encode_rune r) (string_body s)))"
proof -
  have "simple_escape (CHR ''u'') = None" by (simp add: simple_escape_def dquote_def backslash_def)
  then show ?thesis by (subst string_body.simps) simp
qed

text \<open>The cases a string's next bytes fall into, for proofs about string_body.\<close>

lemma string_body_cases:
  obtains "s = []" | t where "s = dquote # t" | c t where "s = c # t" "c \<noteq> dquote" "byte c < 32"
    | c t where "s = c # t" "c \<noteq> dquote" "32 \<le> byte c" "c \<noteq> backslash" | "s = [backslash]"
    | e d t where "s = backslash # e # t" "simple_escape e = Some d"
    | e t where "s = backslash # e # t" "simple_escape e = None" "e \<noteq> CHR ''u''"
    | t where "s = backslash # CHR ''u'' # t"
proof (cases s)
  case (Cons c t)
  consider "c = dquote" | "c \<noteq> dquote" "byte c < 32" | "c \<noteq> dquote" "32 \<le> byte c" "c \<noteq> backslash" | "c = backslash" by fastforce
  then show thesis
  proof cases
    case 4
    show thesis
    proof (cases t)
      case (Cons e u)
      then show thesis using that(6-8) 4 \<open>s = c # t\<close> by (cases "simple_escape e"; cases "e = CHR ''u''") auto
    qed (use that(5) 4 Cons in simp)
  qed (use that(2-4) Cons in auto)
qed (use that(1) in simp)

section \<open>Numbers and words\<close>

definition is_digit :: "char \<Rightarrow> bool" where
  "is_digit c \<longleftrightarrow> 48 \<le> byte c \<and> byte c \<le> 57"

text \<open>Digits, at least one of them.\<close>

definition digits_of :: "string \<Rightarrow> decode_error + string \<times> string" where
  "digits_of s =
     (case s of
        [] \<Rightarrow> Inl UnexpectedEnd
      | c # _ \<Rightarrow> if is_digit c then Inr (takeWhile is_digit s, dropWhile is_digit s) else Inl SyntaxError)"

definition number_integer :: "string \<Rightarrow> decode_error + string \<times> string" where
  "number_integer s = (case s of c # s' \<Rightarrow> if c = CHR ''0'' then Inr ([c], s') else digits_of s | [] \<Rightarrow> digits_of s)"

definition number_fraction :: "string \<Rightarrow> decode_error + string \<times> string" where
  "number_fraction s = (case s of c # s' \<Rightarrow> if c = CHR ''.'' then prepend [c] (digits_of s') else Inr ([], s) | [] \<Rightarrow> Inr ([], s))"

definition number_exponent :: "string \<Rightarrow> decode_error + string \<times> string" where
  "number_exponent s =
     (case s of
        c # s' \<Rightarrow>
          if c = CHR ''e'' \<or> c = CHR ''E''
          then prepend [c]
            (case s' of x # s'' \<Rightarrow> if x = CHR ''+'' \<or> x = CHR ''-'' then prepend [x] (digits_of s'') else digits_of s' | [] \<Rightarrow> digits_of s')
          else Inr ([], s)
      | [] \<Rightarrow> Inr ([], s))"

definition and_then :: "decode_error + string \<times> string \<Rightarrow> (string \<Rightarrow> decode_error + string \<times> string) \<Rightarrow> decode_error + string \<times> string" where
  "and_then r f = (case r of Inl e \<Rightarrow> Inl e | Inr (s, t) \<Rightarrow> prepend s (f t))"

definition number_sign :: "string \<Rightarrow> decode_error + string \<times> string" where
  "number_sign s = (case s of c # s' \<Rightarrow> if c = CHR ''-'' then Inr ([c], s') else Inr ([], s) | [] \<Rightarrow> Inr ([], s))"

text \<open>A number's literal and what is left: the longest one, as the scanner ends a number at the first byte that does not continue it.\<close>

definition number_literal :: "string \<Rightarrow> decode_error + string \<times> string" where
  "number_literal s = and_then (and_then (and_then (number_sign s) number_integer) number_fraction) number_exponent"

fun after_word :: "string \<Rightarrow> string \<Rightarrow> decode_error + string" where
  "after_word [] s = Inr s"
| "after_word (w # ws) [] = Inl UnexpectedEnd"
| "after_word (w # ws) (c # s) = (if c = w then after_word ws s else Inl SyntaxError)"

section \<open>Tokens\<close>

datatype json_token = Delim char | TokString string | TokNumber string | TokBool bool | TokNull

datatype token_state =
  tokenTopValue | tokenArrayStart | tokenArrayValue | tokenArrayComma |
  tokenObjectStart | tokenObjectKey | tokenObjectColon | tokenObjectValue | tokenObjectComma

record decoder =
  dec_state :: token_state
  dec_stack :: "token_state list"
  dec_rest :: string

definition value_allowed :: "token_state \<Rightarrow> bool" where
  "value_allowed st \<longleftrightarrow> st \<in> {tokenTopValue, tokenArrayStart, tokenArrayValue, tokenObjectValue}"

definition value_ended :: "token_state \<Rightarrow> token_state" where
  "value_ended st =
     (if st = tokenArrayStart \<or> st = tokenArrayValue then tokenArrayComma
      else if st = tokenObjectValue then tokenObjectComma else st)"

text \<open>A value that is no object and no list, from its first byte.\<close>

definition scalar :: "string \<Rightarrow> decode_error + json_token \<times> string" where
  "scalar s =
     (case s of
        [] \<Rightarrow> Inl UnexpectedEnd
      | c # s' \<Rightarrow>
        if c = dquote then map_sum id (map_prod TokString id) (string_body s')
        else if c = CHR ''t'' then map_sum id (Pair (TokBool True)) (after_word ''true'' s)
        else if c = CHR ''f'' then map_sum id (Pair (TokBool False)) (after_word ''false'' s)
        else if c = CHR ''n'' then map_sum id (Pair TokNull) (after_word ''null'' s)
        else if c = CHR ''-'' \<or> is_digit c then map_sum id (map_prod TokNumber id) (number_literal s)
        else Inl SyntaxError)"

lemma dropWhile_shorter: "dropWhile P s = c # t \<Longrightarrow> length t < length s"
  using length_dropWhile_le [of P s] by simp

text \<open>
  Token. A closing delimiter is only taken in a state an opening one led to, so the stack is not
  empty there.
\<close>

function token_from :: "token_state \<Rightarrow> token_state list \<Rightarrow> string \<Rightarrow> decode_error + json_token \<times> decoder" where
  "token_from st stk s =
     (case dropWhile json_space s of
        [] \<Rightarrow> Inl EndOfInput
      | c # s' \<Rightarrow>
        if c = CHR ''['' then
          (if value_allowed st then Inr (Delim c, \<lparr>dec_state = tokenArrayStart, dec_stack = st # stk, dec_rest = s'\<rparr>) else Inl SyntaxError)
        else if c = CHR '']'' then
          (if (st = tokenArrayStart \<or> st = tokenArrayComma) \<and> stk \<noteq> []
           then Inr (Delim c, \<lparr>dec_state = value_ended (hd stk), dec_stack = tl stk, dec_rest = s'\<rparr>) else Inl SyntaxError)
        else if c = CHR ''{'' then
          (if value_allowed st then Inr (Delim c, \<lparr>dec_state = tokenObjectStart, dec_stack = st # stk, dec_rest = s'\<rparr>) else Inl SyntaxError)
        else if c = CHR ''}'' then
          (if (st = tokenObjectStart \<or> st = tokenObjectComma) \<and> stk \<noteq> []
           then Inr (Delim c, \<lparr>dec_state = value_ended (hd stk), dec_stack = tl stk, dec_rest = s'\<rparr>) else Inl SyntaxError)
        else if c = CHR '':'' then (if st = tokenObjectColon then token_from tokenObjectValue stk s' else Inl SyntaxError)
        else if c = CHR '','' then
          (if st = tokenArrayComma then token_from tokenArrayValue stk s'
           else if st = tokenObjectComma then token_from tokenObjectKey stk s' else Inl SyntaxError)
        else if c = dquote \<and> (st = tokenObjectStart \<or> st = tokenObjectKey) then
          map_sum id (\<lambda>(x, r). (TokString x, \<lparr>dec_state = tokenObjectColon, dec_stack = stk, dec_rest = r\<rparr>)) (string_body s')
        else if value_allowed st then
          map_sum id (\<lambda>(t, r). (t, \<lparr>dec_state = value_ended st, dec_stack = stk, dec_rest = r\<rparr>)) (scalar (c # s'))
        else Inl SyntaxError)"
  by pat_completeness auto
termination token_from
  by (relation "measure (\<lambda>(st, stk, s). length s)") (auto dest: dropWhile_shorter)

declare token_from.simps [simp del]

definition decoder_token :: "decoder \<Rightarrow> decode_error + json_token \<times> decoder" where
  "decoder_token d = token_from (dec_state d) (dec_stack d) (dec_rest d)"

definition new_decoder :: "string \<Rightarrow> decoder" where
  "new_decoder raw = \<lparr>dec_state = tokenTopValue, dec_stack = [], dec_rest = raw\<rparr>"

section \<open>A token takes at least a byte\<close>

lemma prepend_Inr: "prepend p r = Inr (s, t) \<longleftrightarrow> (\<exists>u. r = Inr (u, t) \<and> s = p @ u)"
  by (auto simp: prepend_def split: sum.splits)

lemma string_body_length: "string_body s = Inr (x, t) \<Longrightarrow> length t < length s"
proof (induction s arbitrary: x rule: length_induct)
  case (1 s)
  note IH = "1.IH" [rule_format]
  show ?case
  proof (cases s rule: string_body_cases)
    case (4 c u)
    then show ?thesis using "1.prems" IH [of u] by (auto simp: string_body_plain prepend_Inr)
  next
    case (6 e d u)
    then show ?thesis using "1.prems" IH [of u] by (auto simp: string_body_simple prepend_Inr)
  next
    case (8 u)
    obtain r v where h: "hex_code 4 0 u = Inr (r, v)" using "1.prems" 8 by (auto simp: string_body_code split: sum.splits)
    then have v: "length v < length s" using 8 hex_code_length [OF h] by simp
    show ?thesis
    proof (cases "low_half r v")
      case None
      then show ?thesis using "1.prems" 8 h IH [OF v] v by (auto simp: string_body_code prepend_Inr)
    next
      case (Some p)
      obtain r' w where p: "p = (r', w)" by (cases p)
      then have "length w < length s" using low_half_length Some v by fastforce
      then show ?thesis using "1.prems" 8 h Some p IH [of w] by (auto simp: string_body_code prepend_Inr)
    qed
  qed (use "1.prems" in \<open>simp_all add: string_body_control string_body_bad\<close>)
qed

lemma digits_of_Inr: "digits_of s = Inr (l, t) \<longleftrightarrow> l \<noteq> [] \<and> l = takeWhile is_digit s \<and> t = dropWhile is_digit s"
  by (cases s) (auto simp: digits_of_def)

lemma and_then_Inr: "and_then r f = Inr (s, t) \<longleftrightarrow> (\<exists>a b u. r = Inr (a, u) \<and> f u = Inr (b, t) \<and> s = a @ b)"
  by (auto simp: and_then_def prepend_Inr split: sum.splits)

text \<open>Each part of a number is read off the front.\<close>

definition reads_front :: "(string \<Rightarrow> decode_error + string \<times> string) \<Rightarrow> bool" where
  "reads_front f \<longleftrightarrow> (\<forall>s l t. f s = Inr (l, t) \<longrightarrow> s = l @ t)"

lemma reads_front_parts:
  "reads_front digits_of" "reads_front number_sign" "reads_front number_integer" "reads_front number_fraction" "reads_front number_exponent"
proof -
  show d: "reads_front digits_of" by (auto simp: reads_front_def digits_of_Inr)
  then have d': "digits_of s = Inr (l, t) \<Longrightarrow> s = l @ t" for s l t by (simp add: reads_front_def)
  show "reads_front number_sign" by (auto simp: reads_front_def number_sign_def split: list.splits if_splits)
  show "reads_front number_integer" using d' by (auto simp: reads_front_def number_integer_def split: list.splits if_splits)
  show "reads_front number_fraction" using d' by (auto simp: reads_front_def number_fraction_def prepend_Inr split: list.splits if_splits)
  show "reads_front number_exponent" using d'
    by (auto simp: reads_front_def number_exponent_def prepend_Inr split: list.splits if_splits)
qed

lemma reads_front_then: "and_then r f = Inr (l, t) \<Longrightarrow> reads_front f \<Longrightarrow> (\<And>a u. r = Inr (a, u) \<Longrightarrow> s = a @ u) \<Longrightarrow> s = l @ t"
  by (auto simp: and_then_Inr reads_front_def)

lemma number_front: "number_literal s = Inr (l, t) \<Longrightarrow> s = l @ t"
  unfolding number_literal_def
  by (erule reads_front_then, rule reads_front_parts, erule reads_front_then, rule reads_front_parts,
      erule reads_front_then, rule reads_front_parts) (use reads_front_parts(2) in \<open>simp add: reads_front_def\<close>)

lemma number_nonempty: "number_literal s = Inr (l, t) \<Longrightarrow> l \<noteq> []"
proof -
  have "number_integer s = Inr (l, t) \<Longrightarrow> l \<noteq> []" for s l t
    by (auto simp: number_integer_def digits_of_Inr split: list.splits if_splits)
  then show "number_literal s = Inr (l, t) \<Longrightarrow> l \<noteq> []" by (auto simp: number_literal_def and_then_Inr)
qed

lemma after_word_Inr: "after_word w s = Inr t \<longleftrightarrow> s = w @ t"
  by (induction w s rule: after_word.induct) auto

lemma number_length: "number_literal s = Inr (l, t) \<Longrightarrow> length t < length s"
  using number_front [of s l t] number_nonempty [of s l t] by simp

text \<open>A scalar's text is the front of the input, and no byte of it is left.\<close>

lemma map_sum_Inr: "map_sum id f r = Inr x \<longleftrightarrow> (\<exists>y. r = Inr y \<and> x = f y)"
  by (cases r) auto

lemma scalar_length: "scalar s = Inr (tok, t) \<Longrightarrow> length t < length s"
  by (auto simp: scalar_def map_sum_Inr after_word_Inr dest!: string_body_length number_length split: list.splits if_splits)

lemma token_from_blank: "list_all json_space ws \<Longrightarrow> token_from st stk (ws @ s) = token_from st stk s"
proof -
  assume "list_all json_space ws"
  then have "dropWhile json_space (ws @ s) = dropWhile json_space s" by (induction ws) auto
  then show ?thesis by (subst (1 2) token_from.simps) simp
qed

lemma token_from_Nil [simp]: "token_from st stk [] = Inl EndOfInput"
  by (subst token_from.simps) simp

text \<open>Token by the first byte that is no space.\<close>

lemma not_space [simp]: "\<not> json_space (CHR ''['')" "\<not> json_space (CHR '']'')" "\<not> json_space (CHR ''{'')" "\<not> json_space (CHR ''}'')"
  "\<not> json_space (CHR '':'')" "\<not> json_space (CHR '','')" "\<not> json_space dquote"
  by (simp_all add: json_space_def byte_def dquote_def)

lemma token_open:
  "token_from st stk (CHR ''['' # s) =
    (if value_allowed st then Inr (Delim (CHR ''[''), \<lparr>dec_state = tokenArrayStart, dec_stack = st # stk, dec_rest = s\<rparr>) else Inl SyntaxError)"
  "token_from st stk (CHR ''{'' # s) =
    (if value_allowed st then Inr (Delim (CHR ''{''), \<lparr>dec_state = tokenObjectStart, dec_stack = st # stk, dec_rest = s\<rparr>) else Inl SyntaxError)"
  by (subst token_from.simps; simp)+

lemma token_close:
  "token_from st stk (CHR '']'' # s) = (if (st = tokenArrayStart \<or> st = tokenArrayComma) \<and> stk \<noteq> []
     then Inr (Delim (CHR '']''), \<lparr>dec_state = value_ended (hd stk), dec_stack = tl stk, dec_rest = s\<rparr>) else Inl SyntaxError)"
  "token_from st stk (CHR ''}'' # s) = (if (st = tokenObjectStart \<or> st = tokenObjectComma) \<and> stk \<noteq> []
     then Inr (Delim (CHR ''}''), \<lparr>dec_state = value_ended (hd stk), dec_stack = tl stk, dec_rest = s\<rparr>) else Inl SyntaxError)"
  by (subst token_from.simps; simp)+

lemma token_between:
  "token_from st stk (CHR '':'' # s) = (if st = tokenObjectColon then token_from tokenObjectValue stk s else Inl SyntaxError)"
  "token_from st stk (CHR '','' # s) = (if st = tokenArrayComma then token_from tokenArrayValue stk s
     else if st = tokenObjectComma then token_from tokenObjectKey stk s else Inl SyntaxError)"
  by (subst token_from.simps; simp)+

lemma dquote_other [simp]: "dquote \<noteq> CHR ''[''" "dquote \<noteq> CHR '']''" "dquote \<noteq> CHR ''{''" "dquote \<noteq> CHR ''}''" "dquote \<noteq> CHR '':''" "dquote \<noteq> CHR '',''"
  by (simp_all add: dquote_def)

lemma token_name:
  "st = tokenObjectStart \<or> st = tokenObjectKey \<Longrightarrow> token_from st stk (dquote # s) =
    map_sum id (\<lambda>(x, r). (TokString x, \<lparr>dec_state = tokenObjectColon, dec_stack = stk, dec_rest = r\<rparr>)) (string_body s)"
  by (subst token_from.simps) auto

definition structural :: "char \<Rightarrow> bool" where
  "structural c \<longleftrightarrow> c \<in> {CHR ''['', CHR '']'', CHR ''{'', CHR ''}'', CHR '':'', CHR '',''}"

lemma token_scalar:
  "\<not> structural c \<Longrightarrow> \<not> json_space c \<Longrightarrow> \<not> (c = dquote \<and> (st = tokenObjectStart \<or> st = tokenObjectKey)) \<Longrightarrow>
    token_from st stk (c # s) = (if value_allowed st
      then map_sum id (\<lambda>(t, r). (t, \<lparr>dec_state = value_ended st, dec_stack = stk, dec_rest = r\<rparr>)) (scalar (c # s)) else Inl SyntaxError)"
  by (subst token_from.simps) (auto simp: structural_def)

lemmas token_simps = token_open token_close token_between

text \<open>The input up to its first byte that is no space.\<close>

lemma split_blank:
  obtains "list_all json_space s" | ws c t where "s = ws @ c # t" "list_all json_space ws" "\<not> json_space c"
proof (cases "dropWhile json_space s")
  case Nil
  then show thesis using that(1) by (simp add: list_all_iff)
next
  case (Cons c t)
  have "list_all json_space (takeWhile json_space s)" by (auto simp: list_all_iff dest: set_takeWhileD)
  moreover have "s = takeWhile json_space s @ c # t" using Cons takeWhile_dropWhile_id [of json_space s] by simp
  moreover have "\<not> json_space c" using Cons by (metis dropWhile_eq_Cons_conv)
  ultimately show thesis using that(2) by blast
qed

lemma token_from_blanks: "list_all json_space s \<Longrightarrow> token_from st stk s = Inl EndOfInput"
  using token_from_blank [of s st stk "[]"] by simp

lemma token_length: "token_from st stk s = Inr (tok, d) \<Longrightarrow> length (dec_rest d) < length s"
proof (induction s arbitrary: st rule: length_induct)
  case (1 s)
  show ?case
  proof (cases s rule: split_blank)
    case 1
    then show ?thesis using "1.prems" token_from_blanks by simp
  next
    case (2 ws c t)
    have p: "token_from st stk (c # t) = Inr (tok, d)" using "1.prems" 2 token_from_blank by simp
    have t: "length t < length s" using 2 by simp
    show ?thesis
    proof (cases "c = CHR '':'' \<or> c = CHR '',''")
      case True
      then obtain st' where "token_from st' stk t = Inr (tok, d)" using p by (auto simp: token_between split: if_splits)
      then show ?thesis using "1.IH" t by (meson less_trans)
    next
      case False
      then have "length (dec_rest d) < length (c # t)"
        using p string_body_length [of t] scalar_length [of "c # t"]
        by (cases "structural c"; cases "c = dquote \<and> (st = tokenObjectStart \<or> st = tokenObjectKey)")
          (auto simp: token_open token_close token_name token_scalar 2(3) structural_def map_sum_Inr split: if_splits)
      then show ?thesis using 2 by simp
    qed
  qed
qed

end
