(* ===== verification/Json_Lexical.thy ===== *)
theory Json_Lexical imports Json_Decoder begin

text \<open>
  The scanner of the decoder reads each literal off the front of the input, whatever follows it: a
  string up to its closing quote, a number up to a byte that ends it. So a literal is a piece of text
  of its own, told apart from what the document puts after it.
\<close>

section \<open>Strings\<close>

lemma hex_code_more: "hex_code k v s = Inr (r, t) \<Longrightarrow> \<exists>h. s = h @ t \<and> length h = k \<and> (\<forall>u. hex_code k v (h @ u) = Inr (r, u))"
proof (induction k v s rule: hex_code.induct)
  case (3 k v c s)
  then obtain d where d: "unhex c = Some d" "hex_code k (v * 16 + d) s = Inr (r, t)" by (auto split: option.splits)
  then obtain h where "s = h @ t" "length h = k" "\<forall>u. hex_code k (v * 16 + d) (h @ u) = Inr (r, u)" using "3.IH" by blast
  then show ?case using d(1) by (intro exI [of _ "c # h"]) simp
qed auto

lemma low_half_Some:
  "low_half r s = Some (r', t) \<longleftrightarrow>
    (\<exists>v q. s = backslash # CHR ''u'' # v \<and> hex_code 4 0 v = Inr (q, t) \<and> 55296 \<le> r \<and> r < 56320 \<and> 56320 \<le> q \<and> q < 57344 \<and>
      r' = 65536 + (r - 55296) * 1024 + (q - 56320))"
proof -
  have p: "has_prefix s [backslash, CHR ''u''] \<longleftrightarrow> (\<exists>v. s = backslash # CHR ''u'' # v)"
    by (auto simp: has_prefix_def prefix_def)
  show ?thesis unfolding low_half_def p by (auto split: sum.splits if_splits)
qed

lemma low_half_more: "low_half r s = Some (r', t) \<Longrightarrow> \<exists>h. s = h @ t \<and> h \<noteq> [] \<and> (\<forall>u. low_half r (h @ u) = Some (r', u))"
proof -
  assume "low_half r s = Some (r', t)"
  then obtain v q where v: "s = backslash # CHR ''u'' # v" "hex_code 4 0 v = Inr (q, t)" "55296 \<le> r" "r < 56320" "56320 \<le> q" "q < 57344"
    "r' = 65536 + (r - 55296) * 1024 + (q - 56320)" unfolding low_half_Some by blast
  obtain h where "v = h @ t" "\<forall>u. hex_code 4 0 (h @ u) = Inr (q, u)" using hex_code_more [OF v(2)] by blast
  then show ?thesis using v by (intro exI [of _ "backslash # CHR ''u'' # h"]) (simp add: low_half_Some)
qed

text \<open>Whether the second half of a pair follows does not depend on what comes after a whole rest of a string.\<close>

lemma low_half_rest:
  assumes "string_body l = Inr (x, [])" "low_half r (l @ t) = None"
  shows "low_half r (l @ u) = None"
proof (cases "low_half r (l @ u)")
  case (Some p)
  obtain r' w where "p = (r', w)" by (cases p)
  then have "low_half r (l @ u) = Some (r', w)" using Some by simp
  then obtain v q where v: "l @ u = backslash # CHR ''u'' # v" "hex_code 4 0 v = Inr (q, w)" "55296 \<le> r" "r < 56320" "56320 \<le> q" "q < 57344"
    unfolding low_half_Some by (elim exE conjE)
  obtain m where m: "l = backslash # CHR ''u'' # m" "v = m @ u"
  proof (cases l rule: string_body_cases)
    case 8
    then show thesis using that v(1) by auto
  qed (use assms(1) v(1) backslash_byte(2) in \<open>auto simp: string_body_bad simple_escape_def split: if_splits\<close>)
  obtain q' w' where h: "hex_code 4 0 m = Inr (q', w')" using assms(1) m(1) by (auto simp: string_body_code split: sum.splits)
  obtain h' where "m = h' @ w'" "\<forall>u. hex_code 4 0 (h' @ u) = Inr (q', u)" using hex_code_more [OF h] by blast
  then have "hex_code 4 0 (m @ t) = Inr (q', w' @ t)" "hex_code 4 0 (m @ u) = Inr (q', w' @ u)" by simp_all
  then have "low_half r (l @ t) \<noteq> None" using v(2-6) m by (auto simp: low_half_Some)
  then show ?thesis using assms(2) by simp
qed

lemma string_front: "string_body s = Inr (x, t) \<Longrightarrow> \<exists>l. s = l @ t \<and> (\<forall>u. string_body (l @ u) = Inr (x, u))"
proof (induction s arbitrary: x rule: length_induct)
  case (1 s)
  note IH = "1.IH" [rule_format]
  show ?case
  proof (cases s rule: string_body_cases)
    case (2 u)
    then show ?thesis using "1.prems" by (intro exI [of _ "[dquote]"]) simp
  next
    case (4 c u)
    then obtain y where y: "string_body u = Inr (y, t)" "x = [c] @ y" using "1.prems" by (auto simp: string_body_plain prepend_Inr)
    then obtain l where "u = l @ t" "\<forall>u. string_body (l @ u) = Inr (y, u)" using IH [of u y] 4 by auto
    then show ?thesis using 4 y(2) by (intro exI [of _ "c # l"]) (simp add: string_body_plain prepend_def)
  next
    case (6 e d u)
    then obtain y where y: "string_body u = Inr (y, t)" "x = [d] @ y" using "1.prems" by (auto simp: string_body_simple prepend_Inr)
    then obtain l where "u = l @ t" "\<forall>u. string_body (l @ u) = Inr (y, u)" using IH [of u y] 6 by auto
    then show ?thesis using 6 y(2) by (intro exI [of _ "backslash # e # l"]) (simp add: string_body_simple prepend_def)
  next
    case (8 u)
    obtain r v where h: "hex_code 4 0 u = Inr (r, v)" using "1.prems" 8 by (auto simp: string_body_code split: sum.splits)
    obtain p where p: "u = p @ v" "\<forall>w. hex_code 4 0 (p @ w) = Inr (r, w)" using hex_code_more [OF h] by blast
    have len: "length v < length s" using 8 p(1) by simp
    show ?thesis
    proof (cases "low_half r v")
      case None
      then obtain y where y: "string_body v = Inr (y, t)" "x = encode_rune r @ y" using "1.prems" 8 h by (auto simp: string_body_code prepend_Inr)
      then obtain l where l: "v = l @ t" "\<forall>u. string_body (l @ u) = Inr (y, u)" using IH [OF len] by blast
      have "string_body l = Inr (y, [])" using l(2) [rule_format, of "[]"] by simp
      then have n: "low_half r (l @ w) = None" for w using low_half_rest None l(1) by blast
      show ?thesis using 8 p l y(2) n by (intro exI [of _ "backslash # CHR ''u'' # p @ l"]) (simp add: string_body_code prepend_def)
    next
      case (Some q)
      obtain r' w where q: "q = (r', w)" by (cases q)
      obtain h' where h': "v = h' @ w" "h' \<noteq> []" "\<forall>u. low_half r (h' @ u) = Some (r', u)" using low_half_more Some q by blast
      obtain y where y: "string_body w = Inr (y, t)" "x = encode_rune r' @ y" using "1.prems" 8 h Some q by (auto simp: string_body_code prepend_Inr)
      have "length w < length s" using len h'(1) by simp
      then obtain l where "w = l @ t" "\<forall>u. string_body (l @ u) = Inr (y, u)" using IH y(1) by blast
      then show ?thesis using 8 p h' y(2) by (intro exI [of _ "backslash # CHR ''u'' # p @ h' @ l"]) (simp add: string_body_code prepend_def)
    qed
  qed (use "1.prems" in \<open>simp_all add: string_body_control string_body_bad\<close>)
qed

lemma string_more: "string_body l = Inr (x, []) \<Longrightarrow> string_body (l @ u) = Inr (x, u)"
  using string_front [of l x "[]"] by auto

section \<open>Numbers\<close>

text \<open>What may stand after a literal.\<close>

definition ends_literal :: "string \<Rightarrow> bool" where
  "ends_literal u \<longleftrightarrow> (case u of [] \<Rightarrow> True | c # _ \<Rightarrow> json_space c \<or> structural c)"

definition alike :: "string \<Rightarrow> string \<Rightarrow> bool" where
  "alike t u \<longleftrightarrow> ends_literal u \<or> (\<exists>c t' u'. t = c # t' \<and> u = c # u')"

definition extends :: "(string \<Rightarrow> decode_error + string \<times> string) \<Rightarrow> bool" where
  "extends f \<longleftrightarrow> (\<forall>s l t u. f s = Inr (l, t) \<longrightarrow> alike t u \<longrightarrow> f (l @ u) = Inr (l, u))"

lemma ends_not: "ends_literal (c # u) \<Longrightarrow> \<not> is_digit c \<and> c \<noteq> CHR ''.'' \<and> c \<noteq> CHR ''e'' \<and> c \<noteq> CHR ''E'' \<and> c \<noteq> CHR ''-'' \<and> c \<noteq> CHR ''+''"
  by (auto simp: ends_literal_def structural_def json_space_def is_digit_def byte_def)

lemma digits_extend: "digits_of s = Inr (l, t) \<Longrightarrow> alike t u \<Longrightarrow> digits_of (l @ u) = Inr (l, u)"
proof -
  assume d: "digits_of s = Inr (l, t)" and a: "alike t u"
  have l: "l \<noteq> []" "list_all is_digit l" and t: "t = dropWhile is_digit s"
    using d by (auto simp: digits_of_Inr list_all_iff dest: set_takeWhileD)
  have "u = [] \<or> \<not> is_digit (hd u)"
    using a ends_not hd_dropWhile [of is_digit s] unfolding alike_def t by (cases u) (auto dest: dropWhile_eq_Cons_conv [THEN iffD1])
  then have "takeWhile is_digit (l @ u) = l" "dropWhile is_digit (l @ u) = u"
    using l(2) by (cases u; simp add: takeWhile_append2 dropWhile_append2 list_all_iff)+
  then show ?thesis using l(1) by (simp add: digits_of_Inr)
qed

lemma extends_parts: "extends number_sign" "extends number_integer" "extends number_fraction" "extends number_exponent"
proof -
  have ne: "digits_of s = Inr (l, t) \<Longrightarrow> alike t u \<Longrightarrow> digits_of (l @ u) = Inr (l, u) \<and> l \<noteq> [] \<and> is_digit (hd l) \<and> hd l = hd s" for s l t u
    using digits_extend [of s l t u] by (cases s) (auto simp: digits_of_Inr split: if_splits)
  show "extends number_sign"
    unfolding extends_def
    by (auto simp: number_sign_def alike_def split: list.splits if_splits dest: ends_not)
  show "extends number_integer"
    unfolding extends_def
  proof (intro allI impI)
    fix s l t u
    assume n: "number_integer s = Inr (l, t)" and a: "alike t u"
    show "number_integer (l @ u) = Inr (l, u)"
    proof (cases "s \<noteq> [] \<and> hd s = CHR ''0''")
      case True
      then show ?thesis using n by (cases s) (auto simp: number_integer_def)
    next
      case False
      then have d: "digits_of s = Inr (l, t)" using n by (cases s) (auto simp: number_integer_def split: if_splits)
      then have "s \<noteq> []" by (auto simp: digits_of_Inr)
      then show ?thesis using ne [OF d a] False by (cases l) (auto simp: number_integer_def)
    qed
  qed
  show "extends number_fraction"
    unfolding extends_def
  proof (intro allI impI)
    fix s l t u
    assume n: "number_fraction s = Inr (l, t)" and a: "alike t u"
    show "number_fraction (l @ u) = Inr (l, u)"
    proof (cases "s \<noteq> [] \<and> hd s = CHR ''.''")
      case True
      then obtain s' m where m: "s = CHR ''.'' # s'" "digits_of s' = Inr (m, t)" "l = CHR ''.'' # m"
        using n by (cases s) (auto simp: number_fraction_def prepend_Inr)
      then show ?thesis using ne [OF m(2) a] by (simp add: number_fraction_def prepend_def)
    next
      case False
      then have "l = []" "t = s" using n by (cases s; simp add: number_fraction_def)+
      then show ?thesis using a False by (cases u) (auto simp: number_fraction_def alike_def dest: ends_not)
    qed
  qed
  show "extends number_exponent"
    unfolding extends_def
  proof (intro allI impI)
    fix s l t u
    assume n: "number_exponent s = Inr (l, t)" and a: "alike t u"
    show "number_exponent (l @ u) = Inr (l, u)"
    proof (cases s)
      case (Cons c s')
      show ?thesis
      proof (cases "c = CHR ''e'' \<or> c = CHR ''E''")
        case True
        show ?thesis
        proof (cases "s' \<noteq> [] \<and> (hd s' = CHR ''+'' \<or> hd s' = CHR ''-'')")
          case sign: True
          then obtain x s'' where s': "s' = x # s''" "x = CHR ''+'' \<or> x = CHR ''-''" by (cases s') auto
          then obtain m where m: "digits_of s'' = Inr (m, t)" "l = [c, x] @ m"
            using n Cons True by (auto simp: number_exponent_def prepend_Inr)
          then show ?thesis using ne [OF m(1) a] True s'(2) by (auto simp: number_exponent_def prepend_def)
        next
          case False
          then obtain m where m: "digits_of s' = Inr (m, t)" "l = [c] @ m"
            using n Cons True by (cases s') (auto simp: number_exponent_def prepend_Inr digits_of_def split: if_splits)
          have "s' \<noteq> []" using m(1) by (auto simp: digits_of_Inr)
          then show ?thesis using ne [OF m(1) a] True False m(2) by (cases m) (auto simp: number_exponent_def prepend_def)
        qed
      next
        case False
        then show ?thesis using n a Cons by (auto simp: number_exponent_def alike_def split: list.splits dest: ends_not)
      qed
    qed (use n a in \<open>auto simp: number_exponent_def alike_def split: list.splits dest: ends_not\<close>)
  qed
qed

lemma extends_then:
  assumes "extends f" "extends g" "reads_front g"
  shows "extends (\<lambda>s. and_then (f s) g)"
  unfolding extends_def
proof (intro allI impI)
  fix s l t u
  assume n: "and_then (f s) g = Inr (l, t)" and a: "alike t u"
  obtain p q v where p: "f s = Inr (p, v)" "g v = Inr (q, t)" "l = p @ q" using n by (auto simp: and_then_Inr)
  have v: "v = q @ t" using p(2) assms(3) by (simp add: reads_front_def)
  have "alike v (q @ u)" using a by (cases q) (auto simp: v alike_def)
  then have "f (p @ q @ u) = Inr (p, q @ u)" using assms(1) p(1) by (simp add: extends_def)
  moreover have "g (q @ u) = Inr (q, u)" using assms(2) p(2) a by (simp add: extends_def)
  ultimately show "and_then (f (l @ u)) g = Inr (l, u)" by (simp add: p(3) and_then_def prepend_def)
qed

lemma number_more: "number_literal s = Inr (l, t) \<Longrightarrow> ends_literal u \<Longrightarrow> number_literal (l @ u) = Inr (l, u)"
proof -
  have "extends number_literal"
    unfolding number_literal_def by (intro extends_then extends_parts reads_front_parts)
  then show "number_literal s = Inr (l, t) \<Longrightarrow> ends_literal u \<Longrightarrow> ?thesis" by (auto simp: extends_def alike_def)
qed

lemma number_start: "number_literal s = Inr (l, t) \<Longrightarrow> \<exists>c l'. l = c # l' \<and> (c = CHR ''-'' \<or> is_digit c)"
proof -
  assume "number_literal s = Inr (l, t)"
  then obtain a b u v where p: "number_sign s = Inr (a, u)" "number_integer u = Inr (b, v)" "\<exists>m. l = a @ b @ m"
    by (auto simp: number_literal_def and_then_Inr)
  have zero: "is_digit (CHR ''0'')" by (simp add: is_digit_def byte_def)
  have "\<exists>c b'. b = c # b' \<and> is_digit c"
  proof (cases "\<exists>w. u = CHR ''0'' # w")
    case True
    then show ?thesis using p(2) zero by (auto simp: number_integer_def)
  next
    case False
    then have "digits_of u = Inr (b, v)" using p(2) by (cases u) (auto simp: number_integer_def split: if_splits)
    then show ?thesis by (cases u) (auto simp: digits_of_def split: if_splits)
  qed
  then show ?thesis using p(1,3) by (cases s) (auto simp: number_sign_def split: if_splits)
qed

section \<open>Scalars\<close>

text \<open>The text of a token that is a value of its own.\<close>

fun scalar_text :: "json_token \<Rightarrow> string \<Rightarrow> bool" where
  "scalar_text (TokString x) l \<longleftrightarrow> (\<exists>m. l = dquote # m \<and> string_body m = Inr (x, []))"
| "scalar_text (TokNumber x) l \<longleftrightarrow> l = x \<and> number_literal l = Inr (l, [])"
| "scalar_text (TokBool b) l \<longleftrightarrow> l = (if b then ''true'' else ''false'')"
| "scalar_text TokNull l \<longleftrightarrow> l = ''null''"
| "scalar_text (Delim c) l \<longleftrightarrow> False"

lemma letters [simp]: "CHR ''t'' \<noteq> dquote" "CHR ''f'' \<noteq> dquote" "CHR ''n'' \<noteq> dquote" "CHR ''-'' \<noteq> dquote" "\<not> is_digit dquote"
  "\<not> is_digit (CHR ''t'')" "\<not> is_digit (CHR ''f'')" "\<not> is_digit (CHR ''n'')"
  by (simp_all add: dquote_def is_digit_def byte_def)

lemma scalar_front: "scalar s = Inr (tok, t) \<Longrightarrow> \<exists>l. s = l @ t \<and> scalar_text tok l"
proof -
  assume "scalar s = Inr (tok, t)"
  then obtain c s' where s: "s = c # s'" "scalar (c # s') = Inr (tok, t)" by (cases s) (auto simp: scalar_def)
  then consider (string) x where "c = dquote" "string_body s' = Inr (x, t)" "tok = TokString x"
    | (word) "s = ''true'' @ t \<and> tok = TokBool True \<or> s = ''false'' @ t \<and> tok = TokBool False \<or> s = ''null'' @ t \<and> tok = TokNull"
    | (number) x where "number_literal s = Inr (x, t)" "tok = TokNumber x"
    by (auto simp: scalar_def map_sum_Inr after_word_Inr split: if_splits)
  then show ?thesis
  proof cases
    case string
    obtain l where l: "s' = l @ t" "\<forall>u. string_body (l @ u) = Inr (x, u)" using string_front [OF string(2)] by blast
    have "string_body l = Inr (x, [])" using l(2) [rule_format, of "[]"] by simp
    then show ?thesis using string s(1) l(1) by (intro exI [of _ "dquote # l"]) simp
  next
    case word
    then show ?thesis by (auto intro: exI [of _ "''true''"] exI [of _ "''false''"] exI [of _ "''null''"])
  next
    case number
    have "number_literal x = Inr (x, [])" using number_more [OF number(1), of "[]"] by (simp add: ends_literal_def)
    then show ?thesis using number number_front [OF number(1)] by (intro exI [of _ x]) simp
  qed
qed

lemma scalar_more: "scalar_text tok l \<Longrightarrow> ends_literal u \<Longrightarrow> scalar (l @ u) = Inr (tok, u)"
proof (cases tok)
  case (TokString x)
  assume "scalar_text tok l"
  then show ?thesis using TokString string_more by (auto simp: scalar_def)
next
  case (TokNumber x)
  assume a: "scalar_text tok l" "ends_literal u"
  obtain c m where c: "l = c # m" "c = CHR ''-'' \<or> is_digit c" using number_start a(1) TokNumber by force
  have "number_literal (l @ u) = Inr (l, u)" using a TokNumber by (intro number_more [of l l "[]" u]) auto
  moreover have "c \<noteq> dquote" "c \<noteq> CHR ''t''" "c \<noteq> CHR ''f''" "c \<noteq> CHR ''n''" using c(2) letters letters(4) [symmetric] by auto
  ultimately show ?thesis using c a(1) TokNumber by (auto simp: scalar_def)
qed (auto simp: scalar_def)

lemma scalar_head: "scalar_text tok l \<Longrightarrow> \<exists>c m. l = c # m \<and> \<not> structural c \<and> \<not> json_space c"
proof (cases tok)
  case (TokNumber x)
  assume a: "scalar_text tok l"
  obtain c m where c: "l = c # m" "c = CHR ''-'' \<or> is_digit c" using number_start a TokNumber by force
  have "structural c \<or> json_space c \<Longrightarrow> \<not> is_digit c" "\<not> structural (CHR ''-'')" "\<not> json_space (CHR ''-'')"
    by (auto simp: structural_def json_space_def is_digit_def byte_def)
  then show ?thesis using c by auto
next
  case (TokString x)
  assume "scalar_text tok l"
  then obtain m where "l = dquote # m" using TokString by auto
  moreover have "\<not> structural dquote" by (simp add: structural_def)
  ultimately show ?thesis by simp
next
  case (TokBool b)
  have "\<not> structural (CHR ''t'')" "\<not> json_space (CHR ''t'')" "\<not> structural (CHR ''f'')" "\<not> json_space (CHR ''f'')"
    by (simp_all add: structural_def json_space_def byte_def)
  moreover assume "scalar_text tok l"
  ultimately show ?thesis using TokBool by (cases b) simp_all
next
  case TokNull
  have "\<not> structural (CHR ''n'')" "\<not> json_space (CHR ''n'')" by (simp_all add: structural_def json_space_def byte_def)
  moreover assume "scalar_text tok l"
  ultimately show ?thesis using TokNull by simp
qed simp

end
