(* ===== verification/Json_Tokens.thy ===== *)
theory Json_Tokens imports Json_Lexical begin

text \<open>
  One token of the stream as a piece of the document: what may stand before it, its own text, and the
  state the decoder goes on in. The two lemmas token_reads and token_read say that Token reads exactly
  such pieces.
\<close>

section \<open>Tokens and their texts\<close>

definition blank_text :: "string \<Rightarrow> bool" where
  "blank_text w \<longleftrightarrow> list_all json_space w"

definition closing_token :: "json_token \<Rightarrow> bool" where
  "closing_token tok \<longleftrightarrow> tok = Delim (CHR '']'') \<or> tok = Delim (CHR ''}'')"

definition opening_token :: "json_token \<Rightarrow> bool" where
  "opening_token tok \<longleftrightarrow> tok = Delim (CHR ''['') \<or> tok = Delim (CHR ''{'')"

fun token_text :: "json_token \<Rightarrow> string \<Rightarrow> bool" where
  "token_text (Delim c) l \<longleftrightarrow> l = [c] \<and> (opening_token (Delim c) \<or> closing_token (Delim c))"
| "token_text tok l \<longleftrightarrow> scalar_text tok l"

definition around :: "char \<Rightarrow> string \<Rightarrow> bool" where
  "around c w \<longleftrightarrow> (\<exists>a b. w = a @ c # b \<and> blank_text a \<and> blank_text b)"

text \<open>What stands before a token: blanks, with the comma or the colon the state waits for.\<close>

definition gap :: "token_state \<Rightarrow> json_token \<Rightarrow> string \<Rightarrow> bool" where
  "gap st tok w \<longleftrightarrow>
     (if closing_token tok then blank_text w
      else if st = tokenArrayComma \<or> st = tokenObjectComma then around (CHR '','') w
      else if st = tokenObjectColon then around (CHR '':'') w else blank_text w)"

text \<open>The state once the separator is read.\<close>

definition moved :: "token_state \<Rightarrow> json_token \<Rightarrow> token_state" where
  "moved st tok =
     (if closing_token tok then st else if st = tokenArrayComma then tokenArrayValue
      else if st = tokenObjectComma then tokenObjectKey else if st = tokenObjectColon then tokenObjectValue else st)"

definition names_next :: "token_state \<Rightarrow> bool" where
  "names_next st \<longleftrightarrow> st = tokenObjectStart \<or> st = tokenObjectKey"

definition is_text :: "json_token \<Rightarrow> bool" where
  "is_text tok \<longleftrightarrow> (\<exists>x. tok = TokString x)"

definition permitted :: "token_state \<Rightarrow> token_state list \<Rightarrow> json_token \<Rightarrow> bool" where
  "permitted st stk tok \<longleftrightarrow>
     (if tok = Delim (CHR '']'') then (st = tokenArrayStart \<or> st = tokenArrayComma) \<and> stk \<noteq> []
      else if tok = Delim (CHR ''}'') then (st = tokenObjectStart \<or> st = tokenObjectComma) \<and> stk \<noteq> []
      else value_allowed st \<or> names_next st \<and> is_text tok)"

definition follows :: "token_state \<Rightarrow> token_state list \<Rightarrow> json_token \<Rightarrow> token_state \<times> token_state list" where
  "follows st stk tok =
     (if closing_token tok then (value_ended (hd stk), tl stk)
      else if tok = Delim (CHR ''['') then (tokenArrayStart, st # stk)
      else if tok = Delim (CHR ''{'') then (tokenObjectStart, st # stk)
      else if names_next st then (tokenObjectColon, stk) else (value_ended st, stk))"

section \<open>A token where it begins\<close>

lemma blank_Nil [simp]: "blank_text []"
  by (simp add: blank_text_def)

lemma closing_simps [simp]: "closing_token (Delim (CHR '']''))" "closing_token (Delim (CHR ''}''))" "\<not> closing_token (TokString x)" "\<not> closing_token (TokNumber x)"
  "\<not> closing_token (TokBool b)" "\<not> closing_token TokNull" "\<not> closing_token (Delim (CHR ''[''))" "\<not> closing_token (Delim (CHR ''{''))"
  by (simp_all add: closing_token_def)

lemma structural_simps [simp]: "structural (CHR ''['')" "structural (CHR '']'')" "structural (CHR ''{'')" "structural (CHR ''}'')"
  "structural (CHR '':'')" "structural (CHR '','')" "\<not> structural dquote"
  by (simp_all add: structural_def)

lemma token_text_scalar: "token_text tok l \<Longrightarrow> (\<And>c. tok \<noteq> Delim c) \<Longrightarrow> scalar_text tok l"
  by (cases tok) auto

lemma scalar_names: "scalar_text (TokString x) l \<Longrightarrow> \<exists>m. l = dquote # m \<and> (\<forall>u. string_body (m @ u) = Inr (x, u))"
  using string_more by auto

lemma token_starts:
  assumes "token_from st stk (c # t) = Inr (tok, d)" "c \<noteq> CHR '':''" "c \<noteq> CHR '',''" "\<not> json_space c"
  shows "\<exists>l. c # t = l @ dec_rest d \<and> token_text tok l \<and> permitted st stk tok \<and> follows st stk tok = (dec_state d, dec_stack d)"
proof (cases "structural c")
  case True
  then consider "c = CHR ''[''" | "c = CHR '']''" | "c = CHR ''{''" | "c = CHR ''}''" using assms(2,3) by (auto simp: structural_def)
  then show ?thesis
    using assms(1)
    by cases (auto simp: token_simps permitted_def follows_def opening_token_def value_allowed_def split: if_splits)
next
  case False
  show ?thesis
  proof (cases "c = dquote \<and> names_next st")
    case True
    then obtain x r where x: "string_body t = Inr (x, r)" "tok = TokString x" "d = \<lparr>dec_state = tokenObjectColon, dec_stack = stk, dec_rest = r\<rparr>"
      using assms(1) token_name by (auto simp: names_next_def map_sum_Inr)
    obtain l where l: "t = l @ r" "\<forall>u. string_body (l @ u) = Inr (x, u)" using string_front [OF x(1)] by blast
    have "string_body l = Inr (x, [])" using l(2) [rule_format, of "[]"] by simp
    then show ?thesis using True x l(1)
      by (intro exI [of _ "dquote # l"]) (auto simp: permitted_def follows_def is_text_def)
  next
    case plain: False
    then have "\<not> (c = dquote \<and> (st = tokenObjectStart \<or> st = tokenObjectKey))" by (simp add: names_next_def)
    then obtain r where r: "value_allowed st" "scalar (c # t) = Inr (tok, r)" "d = \<lparr>dec_state = value_ended st, dec_stack = stk, dec_rest = r\<rparr>"
      using assms(1) token_scalar [OF False assms(4)] by (auto simp: map_sum_Inr split: if_splits)
    obtain l where l: "c # t = l @ r" "scalar_text tok l" using scalar_front [OF r(2)] by blast
    have tok: "tok \<noteq> Delim e" for e using l(2) by auto
    then have "token_text tok l" using l(2) by (cases tok) auto
    moreover have "\<not> names_next st" using r(1) by (auto simp: names_next_def value_allowed_def)
    ultimately show ?thesis using l r(1,3) tok by (intro exI [of _ l]) (simp add: permitted_def follows_def closing_token_def)
  qed
qed

lemma token_begun:
  assumes "token_text tok l" "permitted st stk tok" "ends_literal u \<or> (\<exists>c. tok = Delim c)"
  shows "token_from st stk (l @ u) = Inr (tok, \<lparr>dec_state = fst (follows st stk tok), dec_stack = snd (follows st stk tok), dec_rest = u\<rparr>)"
proof (cases "\<exists>c. tok = Delim c")
  case True
  then obtain c where c: "tok = Delim c" "l = [c]" "c = CHR ''['' \<or> c = CHR '']'' \<or> c = CHR ''{'' \<or> c = CHR ''}''"
    using assms(1) by (auto simp: opening_token_def closing_token_def)
  then show ?thesis using assms(2)
    by (auto simp: token_simps permitted_def follows_def is_text_def closing_token_def)
next
  case False
  then have s: "scalar_text tok l" and u: "ends_literal u" using assms token_text_scalar by auto
  have p: "value_allowed st \<or> names_next st \<and> is_text tok" using False assms(2) by (auto simp: permitted_def split: if_splits)
  show ?thesis
  proof (cases "names_next st")
    case True
    then have "is_text tok" using p by (auto simp: names_next_def value_allowed_def)
    then obtain x where x: "tok = TokString x" by (auto simp: is_text_def)
    then obtain m where "l = dquote # m" "\<forall>u. string_body (m @ u) = Inr (x, u)" using s scalar_names by blast
    then show ?thesis using x True token_name by (simp add: names_next_def follows_def)
  next
    case plain: False
    obtain c m where c: "l = c # m" "\<not> structural c" "\<not> json_space c" using scalar_head [OF s] by blast
    have "scalar (c # m @ u) = Inr (tok, u)" using scalar_more [OF s u] c(1) by simp
    moreover have "\<not> (c = dquote \<and> (st = tokenObjectStart \<or> st = tokenObjectKey))" using plain by (simp add: names_next_def)
    moreover have "\<not> closing_token tok" using False by (auto simp: closing_token_def)
    ultimately show ?thesis using token_scalar [OF c(2,3)] c(1) plain p False by (simp add: follows_def)
  qed
qed

section \<open>A token after what stands before it\<close>

lemma token_from_error: "token_from st stk (CHR '','' # s) = Inr x \<Longrightarrow> st = tokenArrayComma \<or> st = tokenObjectComma"
  "token_from st stk (CHR '':'' # s) = Inr x \<Longrightarrow> st = tokenObjectColon"
  by (auto simp: token_between split: if_splits)

lemma token_unseparated:
  assumes "token_from st stk s = Inr (tok, d)" "st \<noteq> tokenArrayComma" "st \<noteq> tokenObjectComma" "st \<noteq> tokenObjectColon"
  shows "\<exists>w l. s = w @ l @ dec_rest d \<and> blank_text w \<and> token_text tok l \<and> permitted st stk tok \<and> follows st stk tok = (dec_state d, dec_stack d)"
proof (cases s rule: split_blank)
  case (2 ws c t)
  then have t: "token_from st stk (c # t) = Inr (tok, d)" using assms(1) token_from_blank by simp
  then have "c \<noteq> CHR '':''" "c \<noteq> CHR '',''" using assms(2-) token_from_error by blast+
  then obtain l where "c # t = l @ dec_rest d" "token_text tok l" "permitted st stk tok" "follows st stk tok = (dec_state d, dec_stack d)"
    using token_starts [OF t _ _ 2(3)] by blast
  then show ?thesis using 2 by (intro exI [of _ ws] exI [of _ l]) (simp add: blank_text_def)
qed (use assms(1) in \<open>simp add: token_from_blanks\<close>)

lemma not_closing: "permitted st stk tok \<Longrightarrow> st \<in> {tokenArrayValue, tokenObjectKey, tokenObjectValue} \<Longrightarrow> \<not> closing_token tok"
  by (auto simp: permitted_def closing_token_def)

lemma token_reads:
  assumes "token_from st stk s = Inr (tok, d)"
  shows "\<exists>w l. s = w @ l @ dec_rest d \<and> gap st tok w \<and> token_text tok l \<and> permitted (moved st tok) stk tok \<and>
    follows (moved st tok) stk tok = (dec_state d, dec_stack d)"
proof (cases "st \<in> {tokenArrayComma, tokenObjectComma, tokenObjectColon}")
  case False
  then obtain w l where "s = w @ l @ dec_rest d \<and> blank_text w \<and> token_text tok l \<and> permitted st stk tok \<and> follows st stk tok = (dec_state d, dec_stack d)"
    using token_unseparated [OF assms] by auto
  then show ?thesis using False by (intro exI [of _ w] exI [of _ l]) (simp add: gap_def moved_def)
next
  case True
  show ?thesis
  proof (cases s rule: split_blank)
    case (2 ws c t)
    have t: "token_from st stk (c # t) = Inr (tok, d)" using assms 2(1,2) token_from_blank by simp
    show ?thesis
    proof (cases "c = CHR '':'' \<or> c = CHR '',''")
      case sep: True
      define st' where "st' = (if st = tokenArrayComma then tokenArrayValue else if st = tokenObjectComma then tokenObjectKey else tokenObjectValue)"
      have st': "st' \<in> {tokenArrayValue, tokenObjectKey, tokenObjectValue}" by (simp add: st'_def)
      have r: "token_from st' stk t = Inr (tok, d)" using t sep True by (auto simp: token_between st'_def split: if_splits)
      have c: "c = (if st = tokenObjectColon then CHR '':'' else CHR '','')" using sep t by (auto simp: token_between split: if_splits)
      obtain w l where w: "t = w @ l @ dec_rest d" "blank_text w" "token_text tok l" "permitted st' stk tok" "follows st' stk tok = (dec_state d, dec_stack d)"
        using token_unseparated [OF r] st' by auto
      have m: "\<not> closing_token tok" "moved st tok = st'" using not_closing [OF w(4) st'] True by (auto simp: moved_def st'_def)
      have "around c (ws @ c # w)" using 2(2) w(2) by (auto simp: around_def blank_text_def)
      then have "gap st tok (ws @ c # w)" using m(1) c True by (auto simp: gap_def)
      then show ?thesis using w m(2) 2(1) by (intro exI [of _ "ws @ c # w"] exI [of _ l]) simp
    next
      case sep: False
      then obtain l where l: "c # t = l @ dec_rest d" "token_text tok l" "permitted st stk tok" "follows st stk tok = (dec_state d, dec_stack d)"
        using token_starts [OF t _ _ 2(3)] by blast
      have "closing_token tok" using l(3) True by (auto simp: permitted_def closing_token_def value_allowed_def names_next_def split: if_splits)
      then show ?thesis using l 2(1,2) by (intro exI [of _ ws] exI [of _ l]) (simp add: gap_def moved_def blank_text_def)
    qed
  qed (use assms in \<open>simp add: token_from_blanks\<close>)
qed

lemma token_read:
  assumes "gap st tok w" "token_text tok l" "permitted (moved st tok) stk tok" "ends_literal u \<or> (\<exists>c. tok = Delim c)"
  shows "token_from st stk (w @ l @ u) =
    Inr (tok, \<lparr>dec_state = fst (follows (moved st tok) stk tok), dec_stack = snd (follows (moved st tok) stk tok), dec_rest = u\<rparr>)"
proof (cases "blank_text w \<and> moved st tok = st")
  case True
  then show ?thesis using token_begun [OF assms(2) _ assms(4)] assms(3) by (simp add: blank_text_def token_from_blank)
next
  case False
  then obtain c a b where w: "w = a @ c # b" "blank_text a" "blank_text b"
    "c = CHR '','' \<and> (st = tokenArrayComma \<or> st = tokenObjectComma) \<or> c = CHR '':'' \<and> st = tokenObjectColon" "\<not> closing_token tok"
    using assms(1) by (auto simp: gap_def moved_def around_def split: if_splits)
  have "token_from st stk (w @ l @ u) = token_from (moved st tok) stk (l @ u)"
    using w by (auto simp: token_from_blank token_between moved_def blank_text_def)
  then show ?thesis using token_begun [OF assms(2,3,4)] by simp
qed

end
