(* ===== verification/Aws_Reader.thy ===== *)
theory Aws_Reader imports Json_Decoder begin

text \<open>
  Package parse/aws, json.go: the reader that builds the tree of a policy from the token stream, with
  each value's place in the source. A reading is Inr what was read with the decoder after it, or Inl
  why there is none.
\<close>

section \<open>Errors\<close>

text \<open>
  The errors of parseTree. AfterDocument is what stands behind the document: None for a second value,
  or the decoder's own error there. NameNotText is the panic of the type assertion on a member's
  name, which the decoder's stream rules out.
\<close>

datatype tree_error =
  NotUtf8 nat | EmptyDocument | FromDecoder decode_error | LoneSurrogate string nat | TooDeep nat |
  AfterDocument "decode_error option" | NameNotText

definition maxNesting :: nat where "maxNesting = 1000"

text \<open>The error's text, with the decoder's own texts as an argument.\<close>

fun tree_error_text :: "(decode_error \<Rightarrow> string) \<Rightarrow> tree_error \<Rightarrow> string" where
  "tree_error_text d (NotUtf8 at) = ''not valid UTF-8 at byte '' @ itoa (int at)"
| "tree_error_text d EmptyDocument = ''empty input''"
| "tree_error_text d (FromDecoder e) = d e"
| "tree_error_text d (LoneSurrogate escape at) = ''lone UTF-16 surrogate escape '' @ escape @ '' at byte '' @ itoa (int at)"
| "tree_error_text d (TooDeep at) = ''nested more than '' @ itoa (int maxNesting) @ '' levels deep at byte '' @ itoa (int at)"
| "tree_error_text d (AfterDocument None) = ''after the document: a second value''"
| "tree_error_text d (AfterDocument (Some e)) = ''after the document: '' @ d e"
| "tree_error_text d NameNotText = []"

section \<open>Surrogate escapes\<close>

text \<open>hex4, on the digits of an escape the decoder has accepted.\<close>

definition hex_value :: "char \<Rightarrow> nat" where
  "hex_value c =
     (if 48 \<le> byte c \<and> byte c \<le> 57 then byte c - 48
      else if 97 \<le> byte c \<and> byte c \<le> 102 then byte c - 97 + 10 else byte c - 65 + 10)"

definition hex4 :: "string \<Rightarrow> nat" where
  "hex4 s = foldl (\<lambda>code c. code * 16 + hex_value c) 0 (take 4 s)"

definition is_low_surrogate_escape :: "string \<Rightarrow> bool" where
  "is_low_surrogate_escape s \<longleftrightarrow>
     6 \<le> length s \<and> s ! 0 = backslash \<and> s ! 1 = CHR ''u'' \<and> 56320 \<le> hex4 (drop 2 s) \<and> hex4 (drop 2 s) \<le> 57343"

text \<open>
  loneSurrogate: the loop at index i of the source, with n bytes of the literal left and s the source
  from there. The escape found and where it is, or None.
\<close>

function lone_from :: "nat \<Rightarrow> nat \<Rightarrow> string \<Rightarrow> (string \<times> nat) option" where
  "lone_from i n s =
     (if n = 0 \<or> s = [] then None
      else if hd s \<noteq> backslash then lone_from (i + 1) (n - 1) (drop 1 s)
      else if drop 1 s = [] \<or> s ! 1 \<noteq> CHR ''u'' then lone_from (i + 2) (n - 2) (drop 2 s)
      else
        (let code = hex4 (drop 2 s) in
         if code < 55296 \<or> 57343 < code then lone_from (i + 6) (n - 6) (drop 6 s)
         else if code < 56320 \<and> is_low_surrogate_escape (drop 6 s) then lone_from (i + 12) (n - 12) (drop 12 s)
         else Some (take 6 s, i)))"
  by pat_completeness auto
termination lone_from
  by (relation "measure (\<lambda>(i, n, s). n)") auto

declare lone_from.simps [simp del]

definition lone_surrogate :: "string \<Rightarrow> nat \<Rightarrow> nat \<Rightarrow> (string \<times> nat) option" where
  "lone_surrogate raw start finish = lone_from start (finish - start) (drop start raw)"

section \<open>The reader\<close>

definition between_tokens :: "char \<Rightarrow> bool" where
  "between_tokens b \<longleftrightarrow> b = CHR '' '' \<or> byte b = 9 \<or> byte b = 10 \<or> byte b = 13 \<or> b = CHR '':'' \<or> b = CHR '',''"

text \<open>InputOffset, and next.\<close>

definition input_offset :: "string \<Rightarrow> decoder \<Rightarrow> nat" where
  "input_offset raw d = length raw - length (dec_rest d)"

type_synonym placed_token = "json_token \<times> nat \<times> nat"

definition next_token :: "string \<Rightarrow> decoder \<Rightarrow> tree_error + placed_token \<times> decoder" where
  "next_token raw d =
     (case decoder_token d of
        Inl e \<Rightarrow> Inl (FromDecoder (if e = EndOfInput then UnexpectedEnd else e))
      | Inr (tok, d') \<Rightarrow>
        (let offset = input_offset raw d; finish = input_offset raw d';
             start = offset + length (takeWhile between_tokens (take (finish - offset) (drop offset raw))) in
         case (case tok of TokString _ \<Rightarrow> lone_surrogate raw start finish | _ \<Rightarrow> None) of
           Some (escape, at) \<Rightarrow> Inl (LoneSurrogate escape at)
         | None \<Rightarrow> Inr ((tok, start, finish), d')))"

text \<open>
  valueOf, readObject and readArray, the loops over members and items with what they have gathered;
  depth is the reader's count of the objects and lists open around the token.
\<close>

function value_of :: "string \<Rightarrow> nat \<Rightarrow> placed_token \<Rightarrow> decoder \<Rightarrow> tree_error + json_value \<times> decoder"
  and read_object :: "string \<Rightarrow> nat \<Rightarrow> nat \<Rightarrow> json_member list \<Rightarrow> decoder \<Rightarrow> tree_error + json_value \<times> decoder"
  and read_array :: "string \<Rightarrow> nat \<Rightarrow> nat \<Rightarrow> json_value list \<Rightarrow> decoder \<Rightarrow> tree_error + json_value \<times> decoder" where
  "value_of raw depth (tok, start, finish) d =
     (case tok of
        Delim c \<Rightarrow>
          if depth = maxNesting then Inl (TooDeep start)
          else if c = CHR ''{'' then read_object raw (depth + 1) start [] d
          else read_array raw (depth + 1) start [] d
      | TokString t \<Rightarrow> Inr (Value kindString t False [] [] raw start finish, d)
      | TokNumber t \<Rightarrow> Inr (Value kindNumber t False [] [] raw start finish, d)
      | TokBool b \<Rightarrow> Inr (Value kindBool [] b [] [] raw start finish, d)
      | TokNull \<Rightarrow> Inr (Value kindNull [] False [] [] raw start finish, d))"
| "read_object raw depth start ms d =
     (case next_token raw d of
        Inl e \<Rightarrow> Inl e
      | Inr ((tok, nameStart, finish), d1) \<Rightarrow>
        if tok = Delim (CHR ''}'') then Inr (Value kindObject [] False ms [] raw start finish, d1)
        else
          (case next_token raw d1 of
             Inl e \<Rightarrow> Inl e
           | Inr (t, d2) \<Rightarrow>
             (case value_of raw depth t d2 of
                Inl e \<Rightarrow> Inl e
              | Inr (v, d3) \<Rightarrow>
                (case tok of
                   TokString name \<Rightarrow> read_object raw depth start (ms @ [Member name v nameStart]) d3
                 | _ \<Rightarrow> Inl NameNotText))))"
| "read_array raw depth start items d =
     (case next_token raw d of
        Inl e \<Rightarrow> Inl e
      | Inr ((tok, itemStart, finish), d1) \<Rightarrow>
        if tok = Delim (CHR '']'') then Inr (Value kindArray [] False [] items raw start finish, d1)
        else
          (case value_of raw depth (tok, itemStart, finish) d1 of
             Inl e \<Rightarrow> Inl e
           | Inr (v, d2) \<Rightarrow> read_array raw depth start (items @ [v]) d2))"
  by pat_completeness auto

lemma next_token_length: "next_token raw d = Inr (t, d') \<Longrightarrow> length (dec_rest d') < length (dec_rest d)"
  by (auto simp: next_token_def decoder_token_def Let_def dest: token_length split: sum.splits option.splits)

lemma reader_lengths:
  "value_of_read_object_read_array_dom (Inl (raw, depth, t, d)) \<Longrightarrow> (\<And>v d'. value_of raw depth t d = Inr (v, d') \<Longrightarrow> length (dec_rest d') \<le> length (dec_rest d))"
  "value_of_read_object_read_array_dom (Inr (Inl (raw, depth, start, ms, d))) \<Longrightarrow>
    (\<And>v d'. read_object raw depth start ms d = Inr (v, d') \<Longrightarrow> length (dec_rest d') \<le> length (dec_rest d))"
  "value_of_read_object_read_array_dom (Inr (Inr (raw, depth, start, items, d))) \<Longrightarrow>
    (\<And>v d'. read_array raw depth start items d = Inr (v, d') \<Longrightarrow> length (dec_rest d') \<le> length (dec_rest d))"
proof (induct rule: value_of_read_object_read_array.pinduct)
  case (1 raw depth tok start finish d)
  show ?case
  proof (cases tok)
    case (Delim c)
    then show ?thesis using "1.prems" "1.hyps"
      by (cases "depth = maxNesting"; cases "c = CHR ''{''") (auto simp: value_of.psimps)
  qed (use "1.prems" "1.hyps"(1) in \<open>auto simp: value_of.psimps\<close>)
next
  case (2 raw depth start ms d)
  obtain tok ns e d1 where n: "next_token raw d = Inr ((tok, ns, e), d1)"
    using "2.prems" "2.hyps"(1) by (auto simp: read_object.psimps split: sum.splits)
  have d1: "length (dec_rest d1) < length (dec_rest d)" using next_token_length [OF n] .
  show ?case
  proof (cases "tok = Delim (CHR ''}'')")
    case True
    then show ?thesis using "2.prems" "2.hyps"(1) n d1 by (auto simp: read_object.psimps)
  next
    case False
    obtain t d2 where n2: "next_token raw d1 = Inr (t, d2)"
      using "2.prems" "2.hyps"(1) n False by (auto simp: read_object.psimps split: sum.splits)
    have d2: "length (dec_rest d2) < length (dec_rest d1)" using next_token_length [OF n2] .
    obtain w d3 where v: "value_of raw depth t d2 = Inr (w, d3)"
      using "2.prems" "2.hyps"(1) n n2 False by (auto simp: read_object.psimps split: sum.splits)
    have d3: "length (dec_rest d3) \<le> length (dec_rest d2)"
      using "2.hyps"(2) [OF n refl refl refl False n2 refl v] .
    obtain name where tok: "tok = TokString name"
      using "2.prems" "2.hyps"(1) n n2 v False by (cases tok) (auto simp: read_object.psimps)
    have "length (dec_rest d') \<le> length (dec_rest d3)"
      using "2.hyps"(3) [OF n refl refl refl False n2 refl v refl tok]
      using "2.prems" "2.hyps"(1) n n2 v tok by (auto simp: read_object.psimps)
    then show ?thesis using d1 d2 d3 by simp
  qed
next
  case (3 raw depth start items d)
  obtain tok ns e d1 where n: "next_token raw d = Inr ((tok, ns, e), d1)"
    using "3.prems" "3.hyps"(1) by (auto simp: read_array.psimps split: sum.splits)
  have d1: "length (dec_rest d1) < length (dec_rest d)" using next_token_length [OF n] .
  show ?case
  proof (cases "tok = Delim (CHR '']'')")
    case True
    then show ?thesis using "3.prems" "3.hyps"(1) n d1 by (auto simp: read_array.psimps)
  next
    case False
    obtain w d2 where v: "value_of raw depth (tok, ns, e) d1 = Inr (w, d2)"
      using "3.prems" "3.hyps"(1) n False by (auto simp: read_array.psimps split: sum.splits)
    have d2: "length (dec_rest d2) \<le> length (dec_rest d1)"
      using "3.hyps"(2) [OF n refl refl refl False v] .
    have "length (dec_rest d') \<le> length (dec_rest d2)"
      using "3.hyps"(3) [OF n refl refl refl False v refl]
      using "3.prems" "3.hyps"(1) n v False by (auto simp: read_array.psimps)
    then show ?thesis using d1 d2 by simp
  qed
qed

termination value_of
proof (relation "measure (\<lambda>x. case x of Inl (raw, depth, t, d) \<Rightarrow> 2 * length (dec_rest d) + 1
    | Inr (Inl (raw, depth, start, ms, d)) \<Rightarrow> 2 * length (dec_rest d) | Inr (Inr (raw, depth, start, items, d)) \<Rightarrow> 2 * length (dec_rest d))", goal_cases)
qed (auto dest!: next_token_length dest: reader_lengths(1))

declare value_of.simps [simp del] read_object.simps [simp del] read_array.simps [simp del]

definition read_value :: "string \<Rightarrow> nat \<Rightarrow> decoder \<Rightarrow> tree_error + json_value \<times> decoder" where
  "read_value raw depth d = (case next_token raw d of Inl e \<Rightarrow> Inl e | Inr (t, d') \<Rightarrow> value_of raw depth t d')"

definition parse_tree :: "string \<Rightarrow> tree_error + json_value" where
  "parse_tree raw =
     (if first_invalid_utf8 raw < length raw then Inl (NotUtf8 (first_invalid_utf8 raw))
      else if list_all is_space (runes raw) then Inl EmptyDocument
      else
        (case read_value raw 0 (new_decoder raw) of
           Inl e \<Rightarrow> Inl e
         | Inr (root, d) \<Rightarrow>
           (case decoder_token d of
              Inl EndOfInput \<Rightarrow> Inr root
            | Inl e \<Rightarrow> Inl (AfterDocument (Some e))
            | Inr _ \<Rightarrow> Inl (AfterDocument None))))"

end
