(* ===== verification/Aws_Tree.thy ===== *)
theory Aws_Tree imports Json_Tokens Aws_Reader begin

text \<open>
  What parseTree (parse/aws, json.go) promises: it reads exactly the JSON documents, each value placed
  where it is written. The relation placed is that specification, a grammar of JSON texts over byte
  offsets; the reader's soundness and completeness for it are the lemmas here.
\<close>

section \<open>Literals without half a pair\<close>

definition whole_text :: "string \<Rightarrow> bool" where
  "whole_text l \<longleftrightarrow> lone_from 0 (length l) l = None"

lemma lone_shift: "lone_from i n s = None \<longleftrightarrow> lone_from j n s = None"
proof (induction i n s arbitrary: j rule: lone_from.induct)
  case (1 i n s)
  show ?case
    unfolding lone_from.simps [of i n s] lone_from.simps [of j n s]
    using "1.IH"(1) [of "j + 1"] "1.IH"(2) [of "j + 2"] "1.IH"(3) [OF _ _ _ refl, of "j + 6"] "1.IH"(4) [OF _ _ _ refl, of "j + 12"]
    by (simp add: Let_def)
qed

lemma unhex_value: "unhex c = Some d \<Longrightarrow> hex_value c = d"
  by (auto simp: unhex_def hex_value_def Let_def split: if_splits)

lemma hex_code_value: "hex_code k v s = Inr (r, t) \<Longrightarrow> foldl (\<lambda>code c. code * 16 + hex_value c) v (take k s) = r"
  by (induction k v s rule: hex_code.induct) (auto split: option.splits dest: unhex_value)

lemma hex_code_hex4: "hex_code 4 0 s = Inr (r, t) \<Longrightarrow> hex4 s = r \<and> 4 \<le> length s"
  using hex_code_value [of 4 0 s r t] hex_code_length [of 4 0 s r t] by (simp add: hex4_def)

lemma lone_plain: "c \<noteq> backslash \<Longrightarrow> lone_from i (Suc n) (c # s) = lone_from (i + 1) n s"
  by (subst lone_from.simps) simp

lemma lone_simple: "e \<noteq> CHR ''u'' \<Longrightarrow> lone_from i (Suc (Suc n)) (backslash # e # s) = lone_from (i + 2) n s"
  by (subst lone_from.simps) simp

lemma lone_code: "0 < n \<Longrightarrow> lone_from i n (backslash # CHR ''u'' # s) =
    (let code = hex4 s in
     if code < 55296 \<or> 57343 < code then lone_from (i + 6) (n - 6) (drop 4 s)
     else if code < 56320 \<and> is_low_surrogate_escape (drop 4 s) then lone_from (i + 12) (n - 12) (drop 10 s)
     else Some (backslash # CHR ''u'' # take 4 s, i))"
  unfolding lone_from.simps [of i n "backslash # CHR ''u'' # s"] by (simp add: Let_def)

lemma low_escape_code:
  "is_low_surrogate_escape (backslash # CHR ''u'' # s) \<longleftrightarrow> 4 \<le> length s \<and> 56320 \<le> hex4 s \<and> hex4 s \<le> 57343"
  by (auto simp: is_low_surrogate_escape_def)

lemma hex4_append: "4 \<le> length s \<Longrightarrow> hex4 (s @ u) = hex4 s"
  by (simp add: hex4_def)

lemma low_escape_more: "6 \<le> length s \<Longrightarrow> is_low_surrogate_escape (s @ u) = is_low_surrogate_escape s"
  by (cases s; cases "tl s") (simp_all add: is_low_surrogate_escape_def hex4_append)

lemma low_escape_body:
  assumes "string_body v = Inr (y, [])"
  shows "is_low_surrogate_escape (v @ u) = is_low_surrogate_escape v"
proof (cases v rule: string_body_cases)
  case (8 w)
  then obtain r t where "hex_code 4 0 w = Inr (r, t)" using assms by (auto simp: string_body_code split: sum.splits)
  then have "6 \<le> length v" using 8 hex_code_hex4 by fastforce
  then show ?thesis by (rule low_escape_more)
next
  case (6 e d w)
  then have "e \<noteq> CHR ''u''" by (auto simp: simple_escape_def backslash_def dquote_def)
  then show ?thesis using 6 by (simp add: is_low_surrogate_escape_def)
qed (use assms backslash_byte(2) [symmetric] in \<open>auto simp: is_low_surrogate_escape_def string_body_bad\<close>)

lemma lone_none [simp]: "lone_from i 0 s = None" "lone_from i n [] = None"
  by (simp_all add: lone_from.simps [of _ 0] lone_from.simps [of _ _ "[]"])

lemma lone_local: "string_body m = Inr (x, []) \<Longrightarrow> lone_from i (length m) (m @ u) = lone_from i (length m) m"
proof (induction m arbitrary: x i rule: length_induct)
  case (1 m)
  note IH = "1.IH" [rule_format]
  show ?case
  proof (cases m rule: string_body_cases)
    case (2 t)
    then show ?thesis using "1.prems" backslash_byte(2) [symmetric] by (simp add: lone_plain)
  next
    case (4 c t)
    then show ?thesis using "1.prems" IH [of t] by (auto simp: lone_plain string_body_plain prepend_Inr)
  next
    case (6 e d t)
    then have "e \<noteq> CHR ''u''" by (auto simp: simple_escape_def backslash_def dquote_def)
    then show ?thesis using "1.prems" 6 IH [of t] by (auto simp: lone_simple string_body_simple prepend_Inr)
  next
    case (8 t)
    then obtain r v where h: "hex_code 4 0 t = Inr (r, v)" using "1.prems" by (auto simp: string_body_code split: sum.splits)
    then obtain p where p: "t = p @ v" "length p = 4" using hex_code_more by blast
    have r: "hex4 t = r" "hex4 (t @ u) = r" using hex_code_hex4 [OF h] hex4_append by auto
    have len: "length v < length m" using 8 p by simp
    show ?thesis
    proof (cases "low_half r v")
      case None
      then obtain y where y: "string_body v = Inr (y, [])" using "1.prems" 8 h by (auto simp: string_body_code prepend_Inr)
      have "\<not> (r < 56320 \<and> 55296 \<le> r \<and> is_low_surrogate_escape v)"
      proof
        assume a: "r < 56320 \<and> 55296 \<le> r \<and> is_low_surrogate_escape v"
        then obtain w where w: "v = backslash # CHR ''u'' # w"
          unfolding is_low_surrogate_escape_def by (cases v; cases "tl v") auto
        then obtain q z where q: "hex_code 4 0 w = Inr (q, z)" using y by (auto simp: string_body_code split: sum.splits)
        then have "56320 \<le> q" "q < 57344" using a w hex_code_hex4 by (auto simp: low_escape_code)
        then have "low_half r v \<noteq> None" using a w q unfolding low_half_def by (auto simp: has_prefix_def)
        then show False using None by simp
      qed
      then show ?thesis
        using 8 p r IH [OF len y] low_escape_body [OF y] by (auto simp: lone_code Let_def)
    next
      case (Some q)
      obtain r' w where q: "q = (r', w)" by (cases q)
      then obtain g a where g: "v = backslash # CHR ''u'' # g" "hex_code 4 0 g = Inr (a, w)" "56320 \<le> a"
        using Some unfolding low_half_Some by (auto simp: low_half_Some)
      then obtain k where k: "g = k @ w" "length k = 4" using hex_code_more by blast
      have low: "is_low_surrogate_escape (v @ u) = is_low_surrogate_escape v" by (rule low_escape_more) (simp add: g k)
      obtain y where y: "string_body w = Inr (y, [])" using "1.prems" 8 h Some q by (auto simp: string_body_code prepend_Inr)
      obtain z where z: "string_body v = Inr (z, [])"
        using g(2,3) y by (simp add: g(1) string_body_code prepend_def low_half_def)
      have len': "length w < length m" using len g k by simp
      show ?thesis
        using 8 p r g k low IH [OF len' y] IH [OF len z] by (auto simp: lone_code Let_def)
    qed
  qed (use "1.prems" in \<open>simp_all add: string_body_control string_body_bad\<close>)
qed

section \<open>The reader's tokens\<close>

definition literal :: "json_token \<Rightarrow> string \<Rightarrow> bool" where
  "literal tok l \<longleftrightarrow> token_text tok l \<and> (is_text tok \<longrightarrow> whole_text l)"

lemma byte_blank [simp]: "byte c = 32 \<longleftrightarrow> c = CHR '' ''"
proof -
  have "byte (CHR '' '') = 32" by (simp add: byte_def)
  then show ?thesis by (metis chr_byte)
qed

lemma blank_between: "blank_text w \<Longrightarrow> list_all between_tokens w"
proof -
  have "json_space c \<Longrightarrow> between_tokens c" for c by (auto simp: json_space_def between_tokens_def)
  then show "blank_text w \<Longrightarrow> ?thesis" by (auto simp: blank_text_def list_all_iff)
qed

lemma gap_between: "gap st tok w \<Longrightarrow> list_all between_tokens w"
  by (auto simp: gap_def around_def between_tokens_def dest: blank_between split: if_splits)

lemma between_json: "between_tokens c \<longleftrightarrow> json_space c \<or> c = CHR '':'' \<or> c = CHR '',''"
  by (auto simp: between_tokens_def json_space_def)

lemma token_head: "token_text tok l \<Longrightarrow> \<exists>c m. l = c # m \<and> \<not> between_tokens c"
proof (cases "\<exists>c. tok = Delim c")
  case True
  assume "token_text tok l"
  then show ?thesis using True by (auto simp: opening_token_def closing_token_def between_json)
next
  case False
  assume "token_text tok l"
  then have "scalar_text tok l" using False token_text_scalar by blast
  from scalar_head [OF this] show ?thesis by (auto simp: between_json structural_def)
qed

lemma token_scan: "list_all between_tokens w \<Longrightarrow> token_text tok l \<Longrightarrow> takeWhile between_tokens (w @ l) = w"
  using token_head [of tok l] by (auto simp: list_all_iff takeWhile_append2)

lemma string_literal: "token_text (TokString x) l \<Longrightarrow> \<exists>m. l = dquote # m \<and> string_body m = Inr (x, [])"
  by simp

lemma lone_literal:
  assumes "is_text tok" "token_text tok l"
  shows "lone_surrogate (p @ l @ u) (length p) (length p + length l) = None \<longleftrightarrow> whole_text l"
proof -
  obtain m x where m: "l = dquote # m" "string_body m = Inr (x, [])" using assms by (auto simp: is_text_def)
  have "lone_from i (Suc (length m)) (dquote # m @ u) = lone_from (i + 1) (length m) (m @ u)" for i u
    using backslash_byte(2) [symmetric] by (simp add: lone_plain)
  then have "lone_from i (length l) (l @ u) = lone_from i (length l) l" for i using lone_local [OF m(2)] m(1) by (metis append_Cons append_Nil2 length_Cons)
  then show ?thesis using lone_shift by (simp add: lone_surrogate_def whole_text_def)
qed

lemma next_token_pieces:
  assumes d: "decoder_token d = Inr (tok, d')" and raw: "raw = p @ w @ l @ dec_rest d'" and rest: "dec_rest d = w @ l @ dec_rest d'"
    and w: "gap (dec_state d) tok w" and l: "token_text tok l"
  shows "next_token raw d = Inr (t, e) \<longleftrightarrow> t = (tok, length p + length w, length p + length w + length l) \<and> e = d' \<and> literal tok l"
proof -
  have o: "input_offset raw d = length p" "input_offset raw d' = length p + (length w + length l)"
    using raw rest by (simp_all add: input_offset_def)
  have s: "takeWhile between_tokens (take (length w + length l) (drop (length p) raw)) = w"
    using raw token_scan [OF gap_between [OF w] l] by simp
  have c: "lone_surrogate raw (length p + length w) (length p + (length w + length l)) = None \<longleftrightarrow> whole_text l" if "is_text tok"
    using lone_literal [OF that l, of "p @ w" "dec_rest d'"] raw by (simp add: add.assoc)
  define lit where "lit = literal tok l"
  have lit: "lit \<longleftrightarrow> (is_text tok \<longrightarrow> whole_text l)" by (simp add: literal_def l lit_def)
  show ?thesis
    unfolding next_token_def d lit_def [symmetric] using s c
    by (cases tok) (auto simp: o Let_def lit is_text_def split: option.splits)
qed

lemma next_reads:
  assumes "next_token raw d = Inr (t, d')" "raw = p @ dec_rest d"
  obtains w l tok where "dec_rest d = w @ l @ dec_rest d'" "gap (dec_state d) tok w" "literal tok l"
    "permitted (moved (dec_state d) tok) (dec_stack d) tok"
    "follows (moved (dec_state d) tok) (dec_stack d) tok = (dec_state d', dec_stack d')"
    "t = (tok, length p + length w, length p + length w + length l)"
proof -
  obtain tok e where d: "decoder_token d = Inr (tok, e)"
    using assms(1) by (auto simp: next_token_def split: sum.splits)
  obtain w l where w: "dec_rest d = w @ l @ dec_rest e" "gap (dec_state d) tok w" "token_text tok l"
    "permitted (moved (dec_state d) tok) (dec_stack d) tok" "follows (moved (dec_state d) tok) (dec_stack d) tok = (dec_state e, dec_stack e)"
    using token_reads d unfolding decoder_token_def by blast
  have "raw = p @ w @ l @ dec_rest e" using assms(2) w(1) by simp
  from next_token_pieces [OF d this w(1-3), of t d'] assms(1) have "t = (tok, length p + length w, length p + length w + length l)" "d' = e" "literal tok l"
    by simp_all
  then show thesis using that w by blast
qed

lemma next_read:
  assumes "gap st tok w" "literal tok l" "permitted (moved st tok) stk tok" "ends_literal u \<or> (\<exists>c. tok = Delim c)" "raw = p @ w @ l @ u"
  shows "next_token raw \<lparr>dec_state = st, dec_stack = stk, dec_rest = w @ l @ u\<rparr> =
    Inr ((tok, length p + length w, length p + length w + length l),
      \<lparr>dec_state = fst (follows (moved st tok) stk tok), dec_stack = snd (follows (moved st tok) stk tok), dec_rest = u\<rparr>)"
proof -
  have t: "token_text tok l" using assms(2) by (simp add: literal_def)
  have "decoder_token \<lparr>dec_state = st, dec_stack = stk, dec_rest = w @ l @ u\<rparr> =
    Inr (tok, \<lparr>dec_state = fst (follows (moved st tok) stk tok), dec_stack = snd (follows (moved st tok) stk tok), dec_rest = u\<rparr>)"
    using token_read [OF assms(1) t assms(3,4)] by (simp add: decoder_token_def)
  from next_token_pieces [OF this, of raw p w l] show ?thesis using assms t by simp
qed

end
