(* ===== verification/Aws_Placed.thy ===== *)
theory Aws_Placed imports Aws_Tree begin

text \<open>
  The JSON documents of parse/aws (json.go) as a grammar over byte offsets, and the proof that the
  reader reads those and no others: soundness, completeness, and the panic that cannot happen.
\<close>

section \<open>The grammar\<close>

text \<open>What stands before an item or a member: blanks, with a comma unless it is the first.\<close>

definition separates :: "bool \<Rightarrow> string \<Rightarrow> bool" where
  "separates first w \<longleftrightarrow> (if first then blank_text w else around (CHR '','') w)"

fun scalar_value :: "string \<Rightarrow> json_token \<Rightarrow> nat \<Rightarrow> nat \<Rightarrow> json_value" where
  "scalar_value raw (TokString t) start finish = Value kindString t False [] [] raw start finish"
| "scalar_value raw (TokNumber t) start finish = Value kindNumber t False [] [] raw start finish"
| "scalar_value raw (TokBool b) start finish = Value kindBool [] b [] [] raw start finish"
| "scalar_value raw tok start finish = Value kindNull [] False [] [] raw start finish"

text \<open>
  placed raw n i s v: the text s, written at offset i of the document raw, is the value v, nested at
  most n levels deep.
\<close>

inductive placed :: "string \<Rightarrow> nat \<Rightarrow> nat \<Rightarrow> string \<Rightarrow> json_value \<Rightarrow> bool"
  and placed_items :: "string \<Rightarrow> nat \<Rightarrow> bool \<Rightarrow> nat \<Rightarrow> string \<Rightarrow> json_value list \<Rightarrow> bool"
  and placed_members :: "string \<Rightarrow> nat \<Rightarrow> bool \<Rightarrow> nat \<Rightarrow> string \<Rightarrow> json_member list \<Rightarrow> bool"
  for raw where
  a_scalar: "literal tok l \<Longrightarrow> scalar_text tok l \<Longrightarrow> placed raw n i l (scalar_value raw tok i (i + length l))"
| a_list: "placed_items raw n True (i + 1) s vs \<Longrightarrow>
    placed raw (Suc n) i (CHR ''['' # s @ '']'') (Value kindArray [] False [] vs raw i (i + length s + 2))"
| an_object: "placed_members raw n True (i + 1) s ms \<Longrightarrow>
    placed raw (Suc n) i (CHR ''{'' # s @ ''}'') (Value kindObject [] False ms [] raw i (i + length s + 2))"
| no_items: "blank_text w \<Longrightarrow> placed_items raw n first i w []"
| an_item: "separates first w \<Longrightarrow> placed raw n (i + length w) s v \<Longrightarrow> placed_items raw n False (i + length w + length s) t vs \<Longrightarrow>
    placed_items raw n first i (w @ s @ t) (v # vs)"
| no_members: "blank_text w \<Longrightarrow> placed_members raw n first i w []"
| a_member: "separates first w \<Longrightarrow> literal (TokString x) l \<Longrightarrow> around (CHR '':'') c \<Longrightarrow> placed raw n (i + length w + length l + length c) s v \<Longrightarrow>
    placed_members raw n False (i + length w + length l + length c + length s) t ms \<Longrightarrow>
    placed_members raw n first i (w @ l @ c @ s @ t) (Member x v (i + length w) # ms)"

inductive_cases placed_itemsE: "placed_items raw n first i s vs"
inductive_cases placed_membersE: "placed_members raw n first i s ms"

section \<open>States of the decoder around a value\<close>

abbreviation unseparated :: "token_state \<Rightarrow> token_state" where
  "unseparated st \<equiv> moved st TokNull"

lemma not_closing_same: "\<not> closing_token tok \<Longrightarrow> moved st tok = unseparated st" "\<not> closing_token tok \<Longrightarrow> gap st tok w = gap st TokNull w"
  by (simp_all add: moved_def gap_def)

lemma permitted_value: "value_allowed m \<Longrightarrow> \<not> closing_token tok \<Longrightarrow> permitted m stk tok"
  by (simp add: permitted_def closing_token_def)

lemma follows_scalar: "scalar_text tok l \<Longrightarrow> value_allowed m \<Longrightarrow> follows m stk tok = (value_ended m, stk)"
  by (cases tok) (auto simp: follows_def names_next_def value_allowed_def)

lemma follows_open: "follows m stk (Delim (CHR ''['')) = (tokenArrayStart, m # stk)" "follows m stk (Delim (CHR ''{'')) = (tokenObjectStart, m # stk)"
  by (simp_all add: follows_def)

lemma delim_cases:
  assumes "literal tok l" "\<not> closing_token tok"
  obtains "tok = Delim (CHR ''['')" "l = ''[''" | "tok = Delim (CHR ''{'')" "l = ''{''" | "scalar_text tok l" "\<And>c. tok \<noteq> Delim c"
  using assms by (cases tok) (auto simp: literal_def opening_token_def)

lemma value_of_scalar: "scalar_text tok l \<Longrightarrow> value_of raw depth (tok, i, j) d = Inr (scalar_value raw tok i j, d)"
  by (cases tok) (simp_all add: value_of.simps)

lemma value_of_open:
  "value_of raw depth (Delim (CHR ''[''), i, j) d = (if depth = maxNesting then Inl (TooDeep i) else read_array raw (depth + 1) i [] d)"
  "value_of raw depth (Delim (CHR ''{''), i, j) d = (if depth = maxNesting then Inl (TooDeep i) else read_object raw (depth + 1) i [] d)"
  by (simp_all add: value_of.simps)

lemma separates_gap: "separates first w \<Longrightarrow> gap (if first then tokenArrayStart else tokenArrayComma) TokNull w"
  "separates first w \<Longrightarrow> gap (if first then tokenObjectStart else tokenObjectComma) TokNull w"
  "around (CHR '':'') c \<Longrightarrow> gap tokenObjectColon TokNull c"
  by (auto simp: separates_def gap_def)

lemma gap_separates: "\<not> closing_token tok \<Longrightarrow> gap st tok w \<Longrightarrow> st = tokenArrayStart \<or> st = tokenArrayComma \<Longrightarrow> separates (st = tokenArrayStart) w"
  "\<not> closing_token tok \<Longrightarrow> gap st tok w \<Longrightarrow> st = tokenObjectStart \<or> st = tokenObjectComma \<Longrightarrow> separates (st = tokenObjectStart) w"
  "\<not> closing_token tok \<Longrightarrow> gap tokenObjectColon tok w \<Longrightarrow> around (CHR '':'') w"
  by (auto simp: separates_def gap_def)

section \<open>Soundness\<close>

text \<open>The token that stands next in a list, in an object, and after a member's name.\<close>

lemma list_token:
  assumes "next_token raw d = Inr (t, d')" "raw = p @ dec_rest d" "dec_state d = tokenArrayStart \<or> dec_state d = tokenArrayComma" "dec_stack d = x # stk"
  obtains (last) w where "dec_rest d = w @ CHR '']'' # dec_rest d'" "blank_text w" "dec_state d' = value_ended x" "dec_stack d' = stk"
      "t = (Delim (CHR '']''), length p + length w, length p + length w + 1)"
    | (item) w l tok m where "dec_rest d = w @ l @ dec_rest d'" "separates (dec_state d = tokenArrayStart) w" "literal tok l" "\<not> closing_token tok"
      "value_allowed m" "value_ended m = tokenArrayComma" "follows m (x # stk) tok = (dec_state d', dec_stack d')"
      "t = (tok, length p + length w, length p + length w + length l)"
proof -
  obtain w l tok where t: "dec_rest d = w @ l @ dec_rest d'" "gap (dec_state d) tok w" "literal tok l"
    "permitted (moved (dec_state d) tok) (dec_stack d) tok" "follows (moved (dec_state d) tok) (dec_stack d) tok = (dec_state d', dec_stack d')"
    "t = (tok, length p + length w, length p + length w + length l)"
    by (rule next_reads [OF assms(1,2)])
  show thesis
  proof (cases "closing_token tok")
    case True
    then have "tok = Delim (CHR '']'')" using t(4) assms(3) by (auto simp: closing_token_def permitted_def moved_def)
    then show thesis using last t assms(4) by (auto simp: gap_def literal_def follows_def)
  next
    case False
    have "value_allowed (unseparated (dec_state d))" "value_ended (unseparated (dec_state d)) = tokenArrayComma"
      using assms(3) by (auto simp: moved_def value_allowed_def value_ended_def)
    then show thesis using item [of w l tok "unseparated (dec_state d)"] t(1,3,5,6) t(4) False not_closing_same(1) [OF False, of "dec_state d"] gap_separates(1) [OF False t(2) assms(3)] assms(4) by simp
  qed
qed

lemma object_token:
  assumes "next_token raw d = Inr (t, d')" "raw = p @ dec_rest d" "dec_state d = tokenObjectStart \<or> dec_state d = tokenObjectComma" "dec_stack d = x # stk"
  obtains (last) w where "dec_rest d = w @ CHR ''}'' # dec_rest d'" "blank_text w" "dec_state d' = value_ended x" "dec_stack d' = stk"
      "t = (Delim (CHR ''}''), length p + length w, length p + length w + 1)"
    | (name) w l y where "dec_rest d = w @ l @ dec_rest d'" "separates (dec_state d = tokenObjectStart) w" "literal (TokString y) l"
      "dec_state d' = tokenObjectColon" "dec_stack d' = x # stk" "t = (TokString y, length p + length w, length p + length w + length l)"
proof -
  obtain w l tok where t: "dec_rest d = w @ l @ dec_rest d'" "gap (dec_state d) tok w" "literal tok l"
    "permitted (moved (dec_state d) tok) (dec_stack d) tok" "follows (moved (dec_state d) tok) (dec_stack d) tok = (dec_state d', dec_stack d')"
    "t = (tok, length p + length w, length p + length w + length l)"
    by (rule next_reads [OF assms(1,2)])
  show thesis
  proof (cases "closing_token tok")
    case True
    then have "tok = Delim (CHR ''}'')" using t(4) assms(3) by (auto simp: closing_token_def permitted_def moved_def)
    then show thesis using last t assms(4) by (auto simp: gap_def literal_def follows_def)
  next
    case False
    have n: "names_next (unseparated (dec_state d))" "\<not> value_allowed (unseparated (dec_state d))"
      using assms(3) by (auto simp: moved_def value_allowed_def names_next_def)
    then obtain y where y: "tok = TokString y" using t(4) False not_closing_same(1) [OF False, of "dec_state d"] by (auto simp: permitted_def is_text_def closing_token_def split: if_splits)
    then have "dec_state d' = tokenObjectColon" "dec_stack d' = x # stk" using t(5) n(1) assms(4) not_closing_same(1) [OF False, of "dec_state d"] by (auto simp: follows_def)
    then show thesis using name [of w l y] t y gap_separates(2) [OF False t(2) assms(3)] by simp
  qed
qed

lemma value_token:
  assumes "next_token raw d = Inr (t, d')" "raw = p @ dec_rest d" "dec_state d = tokenObjectColon"
  obtains w l tok m where "dec_rest d = w @ l @ dec_rest d'" "around (CHR '':'') w" "literal tok l" "\<not> closing_token tok"
      "value_allowed m" "value_ended m = tokenObjectComma" "follows m (dec_stack d) tok = (dec_state d', dec_stack d')"
      "t = (tok, length p + length w, length p + length w + length l)"
proof -
  obtain w l tok where t: "dec_rest d = w @ l @ dec_rest d'" "gap (dec_state d) tok w" "literal tok l"
    "permitted (moved (dec_state d) tok) (dec_stack d) tok" "follows (moved (dec_state d) tok) (dec_stack d) tok = (dec_state d', dec_stack d')"
    "t = (tok, length p + length w, length p + length w + length l)"
    by (rule next_reads [OF assms(1,2)])
  have c: "\<not> closing_token tok" using t(4) assms(3) by (auto simp: closing_token_def permitted_def moved_def)
  have "value_allowed (unseparated (dec_state d))" "value_ended (unseparated (dec_state d)) = tokenObjectComma"
    using assms(3) by (auto simp: moved_def value_allowed_def value_ended_def)
  then show thesis using that [of w l tok "unseparated (dec_state d)"] t(1,3,5,6) c not_closing_same(1) [OF c, of "dec_state d"] gap_separates(3) [OF c] t(2) assms(3) by simp
qed

lemma open_more: "depth \<le> maxNesting \<Longrightarrow> depth \<noteq> maxNesting \<Longrightarrow> maxNesting - depth = Suc (maxNesting - (depth + 1))"
  by simp

lemma reader_sound:
  "(\<And>v d' p l m stk. value_of raw depth t d = Inr (v, d') \<Longrightarrow> t = (tok, length p, length p + length l) \<Longrightarrow> raw = p @ l @ dec_rest d \<Longrightarrow>
      literal tok l \<Longrightarrow> \<not> closing_token tok \<Longrightarrow> depth \<le> maxNesting \<Longrightarrow> value_allowed m \<Longrightarrow> follows m stk tok = (dec_state d, dec_stack d) \<Longrightarrow>
      \<exists>k. dec_rest d = k @ dec_rest d' \<and> placed raw (maxNesting - depth) (length p) (l @ k) v \<and> dec_state d' = value_ended m \<and> dec_stack d' = stk)"
  "(\<And>v d' p x stk. read_object raw depth start ms d = Inr (v, d') \<Longrightarrow> raw = p @ dec_rest d \<Longrightarrow>
      dec_state d = tokenObjectStart \<or> dec_state d = tokenObjectComma \<Longrightarrow> dec_stack d = x # stk \<Longrightarrow> depth \<le> maxNesting \<Longrightarrow>
      \<exists>k ms'. dec_rest d = k @ CHR ''}'' # dec_rest d' \<and> placed_members raw (maxNesting - depth) (dec_state d = tokenObjectStart) (length p) k ms' \<and>
        v = Value kindObject [] False (ms @ ms') [] raw start (length p + length k + 1) \<and> dec_state d' = value_ended x \<and> dec_stack d' = stk)"
  "(\<And>v d' p x stk. read_array raw depth start items d = Inr (v, d') \<Longrightarrow> raw = p @ dec_rest d \<Longrightarrow>
      dec_state d = tokenArrayStart \<or> dec_state d = tokenArrayComma \<Longrightarrow> dec_stack d = x # stk \<Longrightarrow> depth \<le> maxNesting \<Longrightarrow>
      \<exists>k vs. dec_rest d = k @ CHR '']'' # dec_rest d' \<and> placed_items raw (maxNesting - depth) (dec_state d = tokenArrayStart) (length p) k vs \<and>
        v = Value kindArray [] False [] (items @ vs) raw start (length p + length k + 1) \<and> dec_state d' = value_ended x \<and> dec_stack d' = stk)"
proof (induction raw depth t d and raw depth start ms d and raw depth start items d arbitrary: tok rule: value_of_read_object_read_array.induct)
  case (1 raw depth tok' start finish d)
  have tok: "tok' = tok" "start = length p" "finish = length p + length l" using "1.prems"(2) by simp_all
  note r = "1.prems"(1) [unfolded tok]
  have opened: "dec_state d = fst (follows m stk tok)" "dec_stack d = snd (follows m stk tok)" using "1.prems"(8) by simp_all
  show ?case
    using "1.prems"(4,5)
  proof (cases rule: delim_cases)
    case 1
    then have depth: "depth \<noteq> maxNesting" and a: "read_array raw (depth + 1) (length p) [] d = Inr (v, d')"
      using r by (auto simp: value_of_open split: if_splits)
    obtain k vs where k: "dec_rest d = k @ CHR '']'' # dec_rest d'" "placed_items raw (maxNesting - (depth + 1)) True (length p + 1) k vs"
      "v = Value kindArray [] False [] vs raw (length p) (length p + length k + 2)" "dec_state d' = value_ended m" "dec_stack d' = stk"
      using "1.IH"(2) [OF _ depth _ , of c v d' "p @ ''[''" m stk for c] a 1 opened "1.prems"(3,6) tok depth by (auto simp: follows_open)
    show ?thesis
      using a_list [OF k(2)] k depth 1 "1.prems"(6) by (intro exI [of _ "k @ '']''"]) (simp add: open_more)
  next
    case 2
    then have depth: "depth \<noteq> maxNesting" and a: "read_object raw (depth + 1) (length p) [] d = Inr (v, d')"
      using r by (auto simp: value_of_open split: if_splits)
    obtain k ms where k: "dec_rest d = k @ CHR ''}'' # dec_rest d'" "placed_members raw (maxNesting - (depth + 1)) True (length p + 1) k ms"
      "v = Value kindObject [] False ms [] raw (length p) (length p + length k + 2)" "dec_state d' = value_ended m" "dec_stack d' = stk"
      using "1.IH"(1) [OF _ depth _ , of c v d' "p @ ''{''" m stk for c] a 2 opened "1.prems"(3,6) tok depth by (auto simp: follows_open)
    show ?thesis
      using an_object [OF k(2)] k depth 2 "1.prems"(6) by (intro exI [of _ "k @ ''}''"]) (simp add: open_more)
  next
    case 3
    then show ?thesis
      using r opened a_scalar [OF "1.prems"(4) 3(1)] "1.prems"(7) by (auto simp: value_of_scalar follows_scalar)
  qed
next
  case (2 raw depth start ms d)
  obtain t d1 where n: "next_token raw d = Inr (t, d1)" using "2.prems"(1) by (auto simp: read_object.simps split: sum.splits)
  show ?case
    using n "2.prems"(2-4)
  proof (cases rule: object_token)
    case (last w)
    then show ?thesis
      using "2.prems"(1) n by (intro exI [of _ w] exI [of _ "[]"]) (auto simp: read_object.simps intro: no_members)
  next
    case (name w l y)
    obtain t2 d2 where n2: "next_token raw d1 = Inr (t2, d2)"
      using "2.prems"(1) n name(6) by (auto simp: read_object.simps split: sum.splits if_splits)
    have raw: "raw = (p @ w @ l) @ dec_rest d1" using name(1) "2.prems"(2) by simp
    have tok: "TokString y \<noteq> Delim (CHR ''}'')" by simp
    note IH = "2.IH" [OF n [unfolded name(6)] refl refl refl tok n2 refl]
    show ?thesis
      using n2 raw name(4)
    proof (cases rule: value_token)
      case (1 c l2 tok2 m)
      obtain v1 d3 where v: "value_of raw depth t2 d2 = Inr (v1, d3)"
        and r: "read_object raw depth start (ms @ [Member y v1 (length p + length w)]) d3 = Inr (v, d')"
        using "2.prems"(1) n n2 name(6) by (auto simp: read_object.simps [of raw depth start ms d] split: sum.splits if_splits)
      have raw2: "raw = (p @ w @ l @ c) @ l2 @ dec_rest d2" using raw 1(1) by simp
      obtain k where k: "dec_rest d2 = k @ dec_rest d3" "placed raw (maxNesting - depth) (length (p @ w @ l @ c)) (l2 @ k) v1"
        "dec_state d3 = tokenObjectComma" "dec_stack d3 = x # stk"
        using IH(1) [of v1 d3 tok2 "p @ w @ l @ c" l2 m "x # stk"] v 1 raw2 name(5) "2.prems"(5) by (auto simp: add.assoc)
      have "raw = (p @ w @ l @ c @ l2 @ k) @ dec_rest d3" using raw2 k(1) by simp
      then obtain k' ms' where k': "dec_rest d3 = k' @ CHR ''}'' # dec_rest d'"
        "placed_members raw (maxNesting - depth) False (length (p @ w @ l @ c @ l2 @ k)) k' ms'"
        "v = Value kindObject [] False ((ms @ [Member y v1 (length p + length w)]) @ ms') [] raw start (length (p @ w @ l @ c @ l2 @ k) + length k' + 1)"
        "dec_state d' = value_ended x" "dec_stack d' = stk"
        using IH(2) [OF v refl refl, of v d' "p @ w @ l @ c @ l2 @ k" x stk] r k(3,4) "2.prems"(5) by auto
      show ?thesis
        using a_member [OF name(2,3) 1(2), of raw "maxNesting - depth" "length p" "l2 @ k" v1 k' ms'] name(1) 1(1) k k'
        by (intro exI [of _ "w @ l @ c @ (l2 @ k) @ k'"] exI [of _ "Member y v1 (length p + length w) # ms'"]) (simp add: add.assoc)
    qed
  qed
next
  case (3 raw depth start items d)
  obtain t d1 where n: "next_token raw d = Inr (t, d1)" using "3.prems"(1) by (auto simp: read_array.simps split: sum.splits)
  show ?case
    using n "3.prems"(2-4)
  proof (cases rule: list_token)
    case (last w)
    then show ?thesis
      using "3.prems"(1) n by (intro exI [of _ w] exI [of _ "[]"]) (auto simp: read_array.simps intro: no_items)
  next
    case (item w l tok m)
    then obtain v1 d2 where v: "value_of raw depth t d1 = Inr (v1, d2)" and r: "read_array raw depth start (items @ [v1]) d2 = Inr (v, d')"
      using "3.prems"(1) n by (auto simp: read_array.simps [of raw depth start items d] closing_token_def split: sum.splits if_splits)
    have raw: "raw = (p @ w) @ l @ dec_rest d1" using item(1) "3.prems"(2) by simp
    have at: "(tok, length p + length w, length p + length w + length l) = (tok, length (p @ w), length (p @ w) + length l)" by simp
    have tok: "tok \<noteq> Delim (CHR '']'')" using item(4) by (simp add: closing_token_def)
    obtain k where k: "dec_rest d1 = k @ dec_rest d2" "placed raw (maxNesting - depth) (length (p @ w)) (l @ k) v1" "dec_state d2 = tokenArrayComma" "dec_stack d2 = x # stk"
      using "3.IH"(1) [OF n [unfolded item(8)] refl refl refl tok v [unfolded item(8)] at raw item(3,4) "3.prems"(5) item(5,7)] item(6) by auto
    have "raw = (p @ w @ l @ k) @ dec_rest d2" using raw k(1) by simp
    then obtain k' vs where k': "dec_rest d2 = k' @ CHR '']'' # dec_rest d'" "placed_items raw (maxNesting - depth) False (length (p @ w @ l @ k)) k' vs"
      "v = Value kindArray [] False [] ((items @ [v1]) @ vs) raw start (length (p @ w @ l @ k) + length k' + 1)" "dec_state d' = value_ended x" "dec_stack d' = stk"
      using "3.IH"(2) [OF n [unfolded item(8)] refl refl refl tok v [unfolded item(8)] refl, of v d' "p @ w @ l @ k" x stk] r k(3,4) "3.prems"(5) by auto
    show ?thesis
      using an_item [OF item(2), of raw "maxNesting - depth" "length p" "l @ k" v1 k' vs] item(1) k k'
      by (intro exI [of _ "w @ (l @ k) @ k'"] exI [of _ "v1 # vs"]) (simp add: add.assoc)
  qed
qed

section \<open>Completeness\<close>

lemma literal_next:
  assumes "gap st tok w" "literal tok l" "\<not> closing_token tok" "value_allowed (unseparated st)" "ends_literal u \<or> (\<exists>c. tok = Delim c)" "raw = p @ w @ l @ u"
  shows "next_token raw \<lparr>dec_state = st, dec_stack = stk, dec_rest = w @ l @ u\<rparr> =
    Inr ((tok, length p + length w, length p + length w + length l),
      \<lparr>dec_state = fst (follows (unseparated st) stk tok), dec_stack = snd (follows (unseparated st) stk tok), dec_rest = u\<rparr>)"
  using next_read [OF assms(1,2) _ assms(5,6), of stk] assms(3,4) not_closing_same(1) [OF assms(3), of st] by (simp add: permitted_value)

lemma list_closed:
  assumes "blank_text w" "raw = p @ w @ CHR '']'' # u" "st = tokenArrayStart \<or> st = tokenArrayComma"
  shows "read_array raw depth start items \<lparr>dec_state = st, dec_stack = x # stk, dec_rest = w @ CHR '']'' # u\<rparr> =
    Inr (Value kindArray [] False [] items raw start (length p + length w + 1), \<lparr>dec_state = value_ended x, dec_stack = stk, dec_rest = u\<rparr>)"
proof -
  have "gap st (Delim (CHR '']'')) w" "literal (Delim (CHR '']'')) '']''" "permitted (moved st (Delim (CHR '']''))) (x # stk) (Delim (CHR '']''))"
    using assms(1,3) by (auto simp: gap_def literal_def permitted_def moved_def is_text_def)
  from next_read [OF this, of u raw p] show ?thesis using assms(2) by (simp add: read_array.simps follows_def)
qed

lemma object_closed:
  assumes "blank_text w" "raw = p @ w @ CHR ''}'' # u" "st = tokenObjectStart \<or> st = tokenObjectComma"
  shows "read_object raw depth start ms \<lparr>dec_state = st, dec_stack = x # stk, dec_rest = w @ CHR ''}'' # u\<rparr> =
    Inr (Value kindObject [] False ms [] raw start (length p + length w + 1), \<lparr>dec_state = value_ended x, dec_stack = stk, dec_rest = u\<rparr>)"
proof -
  have "gap st (Delim (CHR ''}'')) w" "literal (Delim (CHR ''}'')) ''}''" "permitted (moved st (Delim (CHR ''}''))) (x # stk) (Delim (CHR ''}''))"
    using assms(1,3) by (auto simp: gap_def literal_def permitted_def moved_def is_text_def)
  from next_read [OF this, of u raw p] show ?thesis using assms(2) by (simp add: read_object.simps follows_def)
qed

lemma name_next:
  assumes "separates first w" "literal (TokString y) l" "raw = p @ w @ l @ u" "around (CHR '':'') c" "u = c @ v"
  shows "next_token raw \<lparr>dec_state = if first then tokenObjectStart else tokenObjectComma, dec_stack = stk, dec_rest = w @ l @ u\<rparr> =
    Inr ((TokString y, length p + length w, length p + length w + length l), \<lparr>dec_state = tokenObjectColon, dec_stack = stk, dec_rest = u\<rparr>)"
proof -
  define st where "st = (if first then tokenObjectStart else tokenObjectComma)"
  have "gap st (TokString y) w" using separates_gap(2) [OF assms(1)] by (simp add: st_def gap_def)
  moreover have m: "names_next (moved st (TokString y))" by (simp add: st_def moved_def names_next_def)
  moreover have "permitted (moved st (TokString y)) stk (TokString y)" using m by (simp add: permitted_def is_text_def)
  moreover obtain a b where "c = a @ CHR '':'' # b" "blank_text a" using assms(4) by (auto simp: around_def)
  then have "ends_literal u" using assms(5) by (cases a) (simp_all add: ends_literal_def blank_text_def)
  ultimately show ?thesis using next_read [of st "TokString y" w l stk u raw p] assms(2,3) by (simp add: st_def follows_def)
qed

lemma separated_ends: "separates False w \<Longrightarrow> ends_literal (w @ u)"
proof -
  assume "separates False w"
  then obtain a b where "w = a @ CHR '','' # b" "blank_text a" by (auto simp: separates_def around_def)
  then show ?thesis by (cases a) (simp_all add: ends_literal_def blank_text_def)
qed

lemma blank_ends: "blank_text w \<Longrightarrow> structural c \<Longrightarrow> ends_literal (w @ c # u)"
  by (cases w) (simp_all add: ends_literal_def blank_text_def)

lemma rest_ends: "placed_items raw n False i t vs \<Longrightarrow> structural c \<Longrightarrow> ends_literal (t @ c # u)"
  "placed_members raw n False i t ms \<Longrightarrow> structural c \<Longrightarrow> ends_literal (t @ c # u)"
  by (erule placed_itemsE; auto intro: blank_ends separated_ends) (erule placed_membersE; auto intro: blank_ends separated_ends)

lemma reader_complete:
  "placed raw n i s v \<Longrightarrow> (\<And>p w u st stk depth. raw = p @ w @ s @ u \<Longrightarrow> i = length p + length w \<Longrightarrow> n = maxNesting - depth \<Longrightarrow>
      value_allowed (unseparated st) \<Longrightarrow> gap st TokNull w \<Longrightarrow> ends_literal u \<Longrightarrow>
      \<exists>tok j d. next_token raw \<lparr>dec_state = st, dec_stack = stk, dec_rest = w @ s @ u\<rparr> = Inr ((tok, i, j), d) \<and> \<not> closing_token tok \<and>
        value_of raw depth (tok, i, j) d = Inr (v, \<lparr>dec_state = value_ended (unseparated st), dec_stack = stk, dec_rest = u\<rparr>))"
  "placed_items raw n first i s vs \<Longrightarrow> (\<And>p u x stk start items depth. raw = p @ s @ CHR '']'' # u \<Longrightarrow> i = length p \<Longrightarrow> n = maxNesting - depth \<Longrightarrow>
      read_array raw depth start items \<lparr>dec_state = if first then tokenArrayStart else tokenArrayComma, dec_stack = x # stk, dec_rest = s @ CHR '']'' # u\<rparr> =
        Inr (Value kindArray [] False [] (items @ vs) raw start (i + length s + 1), \<lparr>dec_state = value_ended x, dec_stack = stk, dec_rest = u\<rparr>))"
  "placed_members raw n first i s ms \<Longrightarrow> (\<And>p u x stk start ms0 depth. raw = p @ s @ CHR ''}'' # u \<Longrightarrow> i = length p \<Longrightarrow> n = maxNesting - depth \<Longrightarrow>
      read_object raw depth start ms0 \<lparr>dec_state = if first then tokenObjectStart else tokenObjectComma, dec_stack = x # stk, dec_rest = s @ CHR ''}'' # u\<rparr> =
        Inr (Value kindObject [] False (ms0 @ ms) [] raw start (i + length s + 1), \<lparr>dec_state = value_ended x, dec_stack = stk, dec_rest = u\<rparr>))"
proof (induction rule: placed_placed_items_placed_members.inducts)
  case (a_scalar tok l n i)
  have c: "\<not> closing_token tok" using a_scalar(2) by (cases tok) simp_all
  then have "gap st tok w" using a_scalar.prems(5) not_closing_same(2) by blast
  from literal_next [OF this a_scalar(1) c a_scalar.prems(4) _ a_scalar.prems(1), of stk] show ?case
    using c a_scalar.prems(2,4,6) a_scalar(2) by (auto simp: value_of_scalar follows_scalar)
next
  case (a_list n i s vs)
  have "gap st (Delim (CHR ''['')) w" using a_list.prems(5) by (simp add: gap_def)
  from literal_next [OF this _ _ a_list.prems(4), of "''[''" "s @ '']'' @ u" raw p stk]
  have t: "next_token raw \<lparr>dec_state = st, dec_stack = stk, dec_rest = w @ (CHR ''['' # s @ '']'') @ u\<rparr> =
      Inr ((Delim (CHR ''[''), i, i + 1), \<lparr>dec_state = tokenArrayStart, dec_stack = unseparated st # stk, dec_rest = s @ CHR '']'' # u\<rparr>)"
    using a_list.prems(1,2) by (simp add: literal_def opening_token_def is_text_def follows_open)
  have "depth \<noteq> maxNesting" "n = maxNesting - (depth + 1)" using a_list.prems(3) by simp_all
  then show ?case
    using t a_list.IH(2) [of "p @ w @ ''[''" u "depth + 1" i "[]" "unseparated st" stk] a_list.prems(1,2)
    by (intro exI [of _ "Delim (CHR ''['')"] exI [of _ "i + 1"] exI [of _ "\<lparr>dec_state = tokenArrayStart, dec_stack = unseparated st # stk, dec_rest = s @ CHR '']'' # u\<rparr>"])
      (simp add: value_of_open)
next
  case (an_object n i s ms)
  have "gap st (Delim (CHR ''{'')) w" using an_object.prems(5) by (simp add: gap_def)
  from literal_next [OF this _ _ an_object.prems(4), of "''{''" "s @ ''}'' @ u" raw p stk]
  have t: "next_token raw \<lparr>dec_state = st, dec_stack = stk, dec_rest = w @ (CHR ''{'' # s @ ''}'') @ u\<rparr> =
      Inr ((Delim (CHR ''{''), i, i + 1), \<lparr>dec_state = tokenObjectStart, dec_stack = unseparated st # stk, dec_rest = s @ CHR ''}'' # u\<rparr>)"
    using an_object.prems(1,2) by (simp add: literal_def opening_token_def is_text_def follows_open)
  have "depth \<noteq> maxNesting" "n = maxNesting - (depth + 1)" using an_object.prems(3) by simp_all
  then show ?case
    using t an_object.IH(2) [of "p @ w @ ''{''" u "depth + 1" i "[]" "unseparated st" stk] an_object.prems(1,2)
    by (intro exI [of _ "Delim (CHR ''{'')"] exI [of _ "i + 1"] exI [of _ "\<lparr>dec_state = tokenObjectStart, dec_stack = unseparated st # stk, dec_rest = s @ CHR ''}'' # u\<rparr>"])
      (simp add: value_of_open)
next
  case (no_items w n first i)
  then show ?case using list_closed [of w raw p u] by simp
next
  case (an_item first w n i s v t vs)
  define st where "st = (if first then tokenArrayStart else tokenArrayComma)"
  have m: "value_allowed (unseparated st)" "value_ended (unseparated st) = tokenArrayComma"
    by (simp_all add: st_def moved_def value_allowed_def value_ended_def)
  have e: "ends_literal (t @ CHR '']'' # u)" using an_item.IH(3) rest_ends(1) by simp
  have raw: "raw = p @ w @ s @ t @ CHR '']'' # u" using an_item.prems(1) by simp
  obtain tok j d where n: "next_token raw \<lparr>dec_state = st, dec_stack = x # stk, dec_rest = w @ s @ t @ CHR '']'' # u\<rparr> = Inr ((tok, length p + length w, j), d)"
    "\<not> closing_token tok" "value_of raw depth (tok, length p + length w, j) d = Inr (v, \<lparr>dec_state = tokenArrayComma, dec_stack = x # stk, dec_rest = t @ CHR '']'' # u\<rparr>)"
    using an_item.IH(2) [OF raw _ an_item.prems(3) m(1) _ e, of "x # stk"] separates_gap(1) [OF an_item.hyps(1)] an_item.prems(2) m(2)
    by (auto simp: st_def)
  have "tok \<noteq> Delim (CHR '']'')" using n(2) by (simp add: closing_token_def)
  then show ?case
    using n an_item.IH(4) [of "p @ w @ s" u depth start "items @ [v]" x stk] an_item.prems
    by (simp add: read_array.simps [of _ _ _ items] st_def add.assoc)
next
  case (no_members w n first i)
  then show ?case using object_closed [of w raw p u] by simp
next
  case (a_member first w y l c n i s v t ms)
  have m: "value_allowed (unseparated tokenObjectColon)" "value_ended (unseparated tokenObjectColon) = tokenObjectComma"
    by (simp_all add: moved_def value_allowed_def value_ended_def)
  have e: "ends_literal (t @ CHR ''}'' # u)" using a_member.IH(3) rest_ends(2) by simp
  have raw: "raw = p @ w @ l @ c @ s @ t @ CHR ''}'' # u" "raw = (p @ w @ l) @ c @ s @ t @ CHR ''}'' # u" using a_member.prems(1) by simp_all
  note name = name_next [OF a_member.hyps(1,2) raw(1) a_member.hyps(3) refl, of "x # stk"]
  obtain tok j d where n: "next_token raw \<lparr>dec_state = tokenObjectColon, dec_stack = x # stk, dec_rest = c @ s @ t @ CHR ''}'' # u\<rparr> =
      Inr ((tok, length p + length w + length l + length c, j), d)"
    "value_of raw depth (tok, length p + length w + length l + length c, j) d = Inr (v, \<lparr>dec_state = tokenObjectComma, dec_stack = x # stk, dec_rest = t @ CHR ''}'' # u\<rparr>)"
    using a_member.IH(2) [OF raw(2) _ a_member.prems(3) m(1) separates_gap(3) [OF a_member.hyps(3)] e, of "x # stk"] a_member.prems(2) m(2)
    by auto
  show ?case
    using name n a_member.IH(4) [of "p @ w @ l @ c @ s" u depth start "ms0 @ [Member y v (length p + length w)]" x stk] a_member.prems
    by (simp add: read_object.simps [of _ _ _ ms0] add.assoc)
qed

end
