(* ===== verification/Aws_Document.thy ===== *)
theory Aws_Document imports Aws_Placed begin

text \<open>
  parseTree (parse/aws, json.go) as a whole: it returns a tree exactly for the UTF-8 texts that are one
  JSON document, the tree the document writes; the type assertion on a member's name never fails; no
  tree is nested deeper than the bound; and the contents of a tree are those of its own text alone.
\<close>

section \<open>The checks before the reader\<close>

lemma first_invalid_valid: "first_invalid_from i s < i + length s \<longleftrightarrow> \<not> valid_string s"
proof (induction i s rule: first_invalid_from.induct)
  case (1 i s)
  show ?case
  proof (cases "s = []")
    case False
    obtain r n where d: "decode_rune s = (r, n)" by fastforce
    have n: "1 \<le> n" "n \<le> length s" using decode_width [OF False d] by simp_all
    show ?thesis
    proof (cases "r = rune_error \<and> n = 1")
      case True
      then show ?thesis using False d by (subst first_invalid_from.simps) (simp add: valid_string_step)
    next
      case no: False
      have "first_invalid_from i s = first_invalid_from (i + n) (drop n s)" using False no d by (subst first_invalid_from.simps) auto
      moreover have "i + n + length (drop n s) = i + length s" using n by simp
      ultimately show ?thesis using "1.IH" [OF False d [symmetric] refl no] False no d by (simp add: valid_string_step)
    qed
  qed (simp add: first_invalid_from.simps)
qed

lemma first_invalid_utf8_valid: "first_invalid_utf8 raw < length raw \<longleftrightarrow> \<not> valid_string raw"
  using first_invalid_valid [of 0 raw] by (simp add: first_invalid_utf8_def)

text \<open>A text of the grammar begins with a byte that stands for itself and is no space.\<close>

definition solid :: "char \<Rightarrow> bool" where
  "solid c \<longleftrightarrow> 32 < byte c \<and> byte c < 127"

lemma solid_not_space: "solid c \<Longrightarrow> \<not> is_space (byte c) \<and> byte c < 128"
  by (auto simp: solid_def is_space_def simp del: byte_blank)

lemma solid_simps [simp]: "solid dquote" "solid (CHR ''t'')" "solid (CHR ''f'')" "solid (CHR ''n'')" "solid (CHR ''-'')"
  "solid (CHR ''['')" "solid (CHR ''{'')" "solid (CHR '']'')" "solid (CHR ''}'')" "is_digit c \<Longrightarrow> solid c"
  by (simp_all add: solid_def byte_def dquote_def is_digit_def)

lemma scalar_solid: "scalar_text tok l \<Longrightarrow> \<exists>c m. l = c # m \<and> solid c"
proof (cases tok)
  case (TokNumber x)
  assume "scalar_text tok l"
  then obtain c m where c: "l = c # m" "c = CHR ''-'' \<or> is_digit c" using number_start TokNumber by force
  then show ?thesis by auto
next
  case (TokBool b)
  assume "scalar_text tok l"
  then show ?thesis using TokBool by (cases b) simp_all
qed auto

lemma placed_solid: "placed raw n i s v \<Longrightarrow> \<exists>c m. s = c # m \<and> solid c"
  by (erule placed.cases) (auto dest: scalar_solid)

section \<open>The end of the input\<close>

text \<open>Only a text of blanks makes the decoder say that the input has ended, once a value has.\<close>

lemma prepend_Inl [simp]: "prepend p r = Inl e \<longleftrightarrow> r = Inl e"
  by (auto simp: prepend_def split: sum.splits)

lemma hex_code_end: "hex_code k v s \<noteq> Inl EndOfInput"
  by (induction k v s rule: hex_code.induct) (auto split: option.splits)

lemma string_body_end: "string_body s \<noteq> Inl EndOfInput"
proof (induction s rule: length_induct)
  case (1 s)
  note IH = "1.IH" [rule_format]
  show ?case
  proof (cases s rule: string_body_cases)
    case (8 t)
    show ?thesis
    proof (cases "hex_code 4 0 t")
      case (Inl e)
      then show ?thesis using 8 hex_code_end [of 4 0 t] by (simp add: string_body_code)
    next
      case (Inr x)
      obtain r v where x: "x = (r, v)" by (cases x)
      have v: "length v < length s" using hex_code_length [of 4 0 t r v] Inr x 8 by simp
      show ?thesis
      proof (cases "low_half r v")
        case None
        then show ?thesis using 8 Inr x IH [OF v] by (simp add: string_body_code)
      next
        case (Some q)
        obtain r' w where q: "q = (r', w)" by (cases q)
        then have "length w < length s" using low_half_length Some v by fastforce
        then show ?thesis using 8 Inr x Some q IH [of w] by (simp add: string_body_code)
      qed
    qed
  qed (use IH in \<open>simp_all add: string_body_plain string_body_control string_body_simple string_body_bad\<close>)
qed

lemma digits_end: "digits_of s \<noteq> Inl EndOfInput"
  by (simp add: digits_of_def split: list.splits)

lemma number_end: "number_literal s \<noteq> Inl EndOfInput"
proof -
  have "number_sign s \<noteq> Inl EndOfInput" "number_integer s \<noteq> Inl EndOfInput" "number_fraction s \<noteq> Inl EndOfInput"
    "number_exponent s \<noteq> Inl EndOfInput" for s
    using digits_end by (auto simp: number_sign_def number_integer_def number_fraction_def number_exponent_def split: list.splits)
  then show ?thesis by (auto simp: number_literal_def and_then_def split: sum.splits)
qed

lemma after_word_end: "after_word w s \<noteq> Inl EndOfInput"
  by (induction w s rule: after_word.induct) auto

lemma map_sum_Inl: "map_sum id f r = Inl e \<longleftrightarrow> r = Inl e"
  by (cases r) auto

lemma scalar_end: "scalar s \<noteq> Inl EndOfInput"
  by (auto simp: scalar_def map_sum_Inl string_body_end number_end after_word_end split: list.splits)

lemma decoder_token_end: "dec_state d = tokenTopValue \<Longrightarrow> decoder_token d = Inl EndOfInput \<longleftrightarrow> blank_text (dec_rest d)"
proof (cases "dec_rest d" rule: split_blank)
  case 1
  assume "dec_state d = tokenTopValue"
  then show ?thesis using 1 by (simp add: decoder_token_def token_from_blanks blank_text_def)
next
  case (2 ws c t)
  assume "dec_state d = tokenTopValue"
  then have t: "decoder_token d = token_from tokenTopValue (dec_stack d) (c # t)" using 2 by (simp add: decoder_token_def token_from_blank)
  have "token_from tokenTopValue (dec_stack d) (c # t) \<noteq> Inl EndOfInput"
  proof (cases "structural c")
    case True
    then show ?thesis by (auto simp: structural_def token_simps value_allowed_def)
  next
    case False
    then show ?thesis using token_scalar [OF False 2(3)] scalar_end by (simp add: map_sum_Inl)
  qed
  moreover have "\<not> blank_text (dec_rest d)" using 2 by (simp add: blank_text_def)
  ultimately show ?thesis by (simp add: t)
qed

section \<open>Exactly the documents\<close>

definition document_text :: "string \<Rightarrow> json_value \<Rightarrow> bool" where
  "document_text raw v \<longleftrightarrow>
     valid_string raw \<and> (\<exists>w s u. raw = w @ s @ u \<and> blank_text w \<and> blank_text u \<and> placed raw maxNesting (length w) s v)"

lemma read_top_sound:
  assumes "read_value raw 0 (new_decoder raw) = Inr (v, d)"
  shows "\<exists>w s. raw = w @ s @ dec_rest d \<and> blank_text w \<and> placed raw maxNesting (length w) s v \<and> dec_state d = tokenTopValue"
proof -
  obtain t d1 where n: "next_token raw (new_decoder raw) = Inr (t, d1)" and v: "value_of raw 0 t d1 = Inr (v, d)"
    using assms by (auto simp: read_value_def split: sum.splits)
  have rest: "raw = [] @ dec_rest (new_decoder raw)" and st: "dec_state (new_decoder raw) = tokenTopValue" "dec_stack (new_decoder raw) = []"
    by (simp_all add: new_decoder_def)
  obtain w l tok where t: "dec_rest (new_decoder raw) = w @ l @ dec_rest d1" "gap tokenTopValue tok w" "literal tok l"
    "permitted (moved tokenTopValue tok) [] tok" "follows (moved tokenTopValue tok) [] tok = (dec_state d1, dec_stack d1)"
    "t = (tok, length ([] :: string) + length w, length ([] :: string) + length w + length l)"
    by (rule next_reads [OF n rest, unfolded st])
  have c: "\<not> closing_token tok" using t(4) by (auto simp: closing_token_def permitted_def moved_def)
  have m: "moved tokenTopValue tok = tokenTopValue" by (simp add: moved_def)
  have raw: "raw = w @ l @ dec_rest d1" using t(1) by (simp add: new_decoder_def)
  obtain k where k: "dec_rest d1 = k @ dec_rest d" "placed raw (maxNesting - 0) (length w) (l @ k) v" "dec_state d = value_ended tokenTopValue"
    using reader_sound(1) [OF v _ raw t(3) c _ _ t(5) [unfolded m]] t(6) by (auto simp: value_allowed_def)
  show ?thesis
    using raw k t(2) c by (intro exI [of _ w] exI [of _ "l @ k"]) (simp add: gap_def value_ended_def)
qed

lemma read_top_complete:
  assumes "raw = w @ s @ u" "blank_text w" "blank_text u" "placed raw maxNesting (length w) s v"
  shows "read_value raw 0 (new_decoder raw) = Inr (v, \<lparr>dec_state = tokenTopValue, dec_stack = [], dec_rest = u\<rparr>)"
proof -
  have u: "ends_literal u" using assms(3) by (cases u) (simp_all add: ends_literal_def blank_text_def)
  have g: "gap tokenTopValue TokNull w" using assms(2) by (simp add: gap_def)
  have "raw = [] @ w @ s @ u" using assms(1) by simp
  from reader_complete(1) [OF assms(4) this, of 0 tokenTopValue "[]"] g u obtain tok j d where
    "next_token raw \<lparr>dec_state = tokenTopValue, dec_stack = [], dec_rest = w @ s @ u\<rparr> = Inr ((tok, length w, j), d)"
    "value_of raw 0 (tok, length w, j) d = Inr (v, \<lparr>dec_state = tokenTopValue, dec_stack = [], dec_rest = u\<rparr>)"
    by (auto simp: moved_def value_allowed_def value_ended_def)
  then show ?thesis using assms(1) by (simp add: read_value_def new_decoder_def)
qed

lemma document_not_empty: "raw = w @ s @ u \<Longrightarrow> placed raw n i s v \<Longrightarrow> \<not> list_all is_space (runes raw)"
proof -
  assume raw: "raw = w @ s @ u" and p: "placed raw n i s v"
  obtain c m where c: "s = c # m" "solid c" using placed_solid [OF p] by blast
  then have "byte c \<in> set (runes raw)" using solid_not_space [OF c(2)] raw by (simp add: byte_in_runes)
  then show ?thesis using solid_not_space [OF c(2)] by (auto simp: list_all_iff)
qed

lemma parse_tree_Inr:
  "parse_tree raw = Inr v \<longleftrightarrow> valid_string raw \<and> \<not> list_all is_space (runes raw) \<and>
    (\<exists>d. read_value raw 0 (new_decoder raw) = Inr (v, d) \<and> decoder_token d = Inl EndOfInput)"
  by (auto simp: parse_tree_def first_invalid_utf8_valid split: sum.splits decode_error.splits)

lemma parse_tree_document: "parse_tree raw = Inr v \<longleftrightarrow> document_text raw v"
proof
  assume "parse_tree raw = Inr v"
  then obtain d where d: "valid_string raw" "read_value raw 0 (new_decoder raw) = Inr (v, d)" "decoder_token d = Inl EndOfInput"
    by (auto simp: parse_tree_Inr)
  then show "document_text raw v" using read_top_sound [OF d(2)] decoder_token_end [of d] unfolding document_text_def by metis
next
  assume "document_text raw v"
  then obtain w s u where r: "valid_string raw" "raw = w @ s @ u" "blank_text w" "blank_text u" "placed raw maxNesting (length w) s v"
    unfolding document_text_def by blast
  show "parse_tree raw = Inr v"
    using r(1,4) read_top_complete [OF r(2-5)] document_not_empty [OF r(2,5)] by (simp add: parse_tree_Inr decoder_token_end)
qed

text \<open>C13: parseTree returns a value exactly for the texts that are valid UTF-8 and one JSON document between
  blanks, nested at most maxNesting levels deep and with no half of a surrogate pair in a string; and
  the value is the one the text writes, members in document order with duplicates kept, each value
  with the place of its own bytes.\<close>

theorem parse_tree_reads_documents: "parse_tree raw = Inr v \<longleftrightarrow> document_text raw v"
  by (rule parse_tree_document)

section \<open>A member's name is a text\<close>

lemma next_token_text: "next_token raw d \<noteq> Inl NameNotText"
  by (auto simp: next_token_def Let_def split: sum.splits option.splits)

lemma reader_names:
  "(\<And>p l m stk. t = (tok, length p, length p + length l) \<Longrightarrow> raw = p @ l @ dec_rest d \<Longrightarrow> literal tok l \<Longrightarrow> \<not> closing_token tok \<Longrightarrow>
      depth \<le> maxNesting \<Longrightarrow> value_allowed m \<Longrightarrow> follows m stk tok = (dec_state d, dec_stack d) \<Longrightarrow> value_of raw depth t d \<noteq> Inl NameNotText)"
  "(\<And>p x stk. raw = p @ dec_rest d \<Longrightarrow> dec_state d = tokenObjectStart \<or> dec_state d = tokenObjectComma \<Longrightarrow> dec_stack d = x # stk \<Longrightarrow>
      depth \<le> maxNesting \<Longrightarrow> read_object raw depth start ms d \<noteq> Inl NameNotText)"
  "(\<And>p x stk. raw = p @ dec_rest d \<Longrightarrow> dec_state d = tokenArrayStart \<or> dec_state d = tokenArrayComma \<Longrightarrow> dec_stack d = x # stk \<Longrightarrow>
      depth \<le> maxNesting \<Longrightarrow> read_array raw depth start items d \<noteq> Inl NameNotText)"
proof (induction raw depth t d and raw depth start ms d and raw depth start items d arbitrary: tok rule: value_of_read_object_read_array.induct)
  case (1 raw depth tok' start finish d)
  have tok: "tok' = tok" "start = length p" using "1.prems"(1) by simp_all
  have opened: "dec_state d = fst (follows m stk tok)" "dec_stack d = snd (follows m stk tok)" using "1.prems"(7) by simp_all
  show ?case
    using "1.prems"(3,4)
  proof (cases rule: delim_cases)
    case 1
    show ?thesis
    proof (cases "depth = maxNesting")
      case False
      then show ?thesis using "1.IH"(2) [OF _ False, of c "p @ ''[''" m stk for c] 1 opened "1.prems"(2,5) tok by (auto simp: value_of_open follows_open)
    qed (use 1 tok in \<open>simp add: value_of_open\<close>)
  next
    case 2
    show ?thesis
    proof (cases "depth = maxNesting")
      case False
      then show ?thesis using "1.IH"(1) [OF _ False, of c "p @ ''{''" m stk for c] 2 opened "1.prems"(2,5) tok by (auto simp: value_of_open follows_open)
    qed (use 2 tok in \<open>simp add: value_of_open\<close>)
  next
    case 3
    then show ?thesis using tok by (simp add: value_of_scalar)
  qed
next
  case (2 raw depth start ms d)
  show ?case
  proof (cases "next_token raw d")
    case (Inl e)
    then show ?thesis using next_token_text [of raw d] by (simp add: read_object.simps)
  next
    case (Inr q)
    then obtain t d1 where n: "next_token raw d = Inr (t, d1)" by (cases q) simp
    show ?thesis
      using n "2.prems"(1-3)
    proof (cases rule: object_token)
      case (name w l y)
      have raw: "raw = (p @ w @ l) @ dec_rest d1" using name(1) "2.prems"(1) by simp
      show ?thesis
      proof (cases "next_token raw d1")
        case (Inl e)
        then show ?thesis using n name(6) next_token_text [of raw d1] by (simp add: read_object.simps)
      next
        case (Inr q)
        then obtain t2 d2 where n2: "next_token raw d1 = Inr (t2, d2)" by (cases q) simp
        have tok: "TokString y \<noteq> Delim (CHR ''}'')" by simp
        note IH = "2.IH" [OF n [unfolded name(6)] refl refl refl tok n2 refl]
        show ?thesis
          using n2 raw name(4)
        proof (cases rule: value_token)
          case (1 c l2 tok2 m)
          have raw2: "raw = (p @ w @ l @ c) @ l2 @ dec_rest d2" using raw 1(1) by simp
          have at: "t2 = (tok2, length (p @ w @ l @ c), length (p @ w @ l @ c) + length l2)" using 1(8) by (simp add: add.assoc)
          have f: "follows m (x # stk) tok2 = (dec_state d2, dec_stack d2)" using 1(7) name(5) by simp
          have v: "value_of raw depth t2 d2 \<noteq> Inl NameNotText" by (rule IH(1) [OF at raw2 1(3,4) "2.prems"(4) 1(5) f])
          show ?thesis
          proof (cases "value_of raw depth t2 d2")
            case (Inl e)
            then show ?thesis using n n2 name(6) v by (simp add: read_object.simps)
          next
            case (Inr q)
            then obtain v1 d3 where v1: "value_of raw depth t2 d2 = Inr (v1, d3)" by (cases q) simp
            obtain k where k: "dec_rest d2 = k @ dec_rest d3" "dec_state d3 = tokenObjectComma" "dec_stack d3 = x # stk"
              using reader_sound(1) [OF v1 at raw2 1(3,4) "2.prems"(4) 1(5) f] 1(6) by auto
            have "raw = (p @ w @ l @ c @ l2 @ k) @ dec_rest d3" using raw2 k(1) by simp
            then have "read_object raw depth start (ms @ [Member y v1 (length p + length w)]) d3 \<noteq> Inl NameNotText"
              by (rule IH(2) [OF v1 refl refl]) (use k "2.prems"(4) in simp_all)
            then show ?thesis using n n2 name(6) v1 by (simp add: read_object.simps [of _ _ _ ms])
          qed
        qed
      qed
    qed (use n in \<open>simp add: read_object.simps\<close>)
  qed
next
  case (3 raw depth start items d)
  show ?case
  proof (cases "next_token raw d")
    case (Inl e)
    then show ?thesis using next_token_text [of raw d] by (simp add: read_array.simps)
  next
    case (Inr q)
    then obtain t d1 where n: "next_token raw d = Inr (t, d1)" by (cases q) simp
    show ?thesis
      using n "3.prems"(1-3)
    proof (cases rule: list_token)
      case (item w l tok m)
      have raw: "raw = (p @ w) @ l @ dec_rest d1" using item(1) "3.prems"(1) by simp
      have at: "(tok, length p + length w, length p + length w + length l) = (tok, length (p @ w), length (p @ w) + length l)" by simp
      have tok: "tok \<noteq> Delim (CHR '']'')" using item(4) by (simp add: closing_token_def)
      note IH = "3.IH" [OF n [unfolded item(8)] refl refl refl tok]
      have v: "value_of raw depth t d1 \<noteq> Inl NameNotText" unfolding item(8) by (rule IH(1) [OF at raw item(3,4) "3.prems"(4) item(5,7)])
      show ?thesis
      proof (cases "value_of raw depth t d1")
        case (Inl e)
        then show ?thesis using n item(8) tok v by (simp add: read_array.simps)
      next
        case (Inr q)
        then obtain v1 d2 where v1: "value_of raw depth t d1 = Inr (v1, d2)" by (cases q) simp
        obtain k where k: "dec_rest d1 = k @ dec_rest d2" "dec_state d2 = tokenArrayComma" "dec_stack d2 = x # stk"
          using reader_sound(1) [OF v1 _ raw item(3,4) "3.prems"(4) item(5,7)] item(6,8) by auto
        have "raw = (p @ w @ l @ k) @ dec_rest d2" using raw k(1) by simp
        then have "read_array raw depth start (items @ [v1]) d2 \<noteq> Inl NameNotText"
          by (rule IH(2) [OF v1 [unfolded item(8)] refl]) (use k "3.prems"(4) in simp_all)
        then show ?thesis using n item(8) tok v1 by (simp add: read_array.simps [of _ _ _ items])
      qed
    qed (use n in \<open>simp add: read_array.simps\<close>)
  qed
qed

lemma parse_tree_names: "parse_tree raw \<noteq> Inl NameNotText"
proof -
  have "read_value raw 0 (new_decoder raw) \<noteq> Inl NameNotText"
  proof (cases "next_token raw (new_decoder raw)")
    case (Inl e)
    then show ?thesis using next_token_text [of raw "new_decoder raw"] by (simp add: read_value_def)
  next
    case (Inr q)
    then obtain t d1 where n: "next_token raw (new_decoder raw) = Inr (t, d1)" by (cases q) simp
    have rest: "raw = [] @ dec_rest (new_decoder raw)" and st: "dec_state (new_decoder raw) = tokenTopValue" "dec_stack (new_decoder raw) = []"
      by (simp_all add: new_decoder_def)
    obtain w l tok where t: "dec_rest (new_decoder raw) = w @ l @ dec_rest d1" "literal tok l" "permitted (moved tokenTopValue tok) [] tok"
      "follows (moved tokenTopValue tok) [] tok = (dec_state d1, dec_stack d1)" "t = (tok, length w, length w + length l)"
      by (rule next_reads [OF n rest, unfolded st]) simp
    have c: "\<not> closing_token tok" using t(3) by (auto simp: closing_token_def permitted_def moved_def)
    have "raw = w @ l @ dec_rest d1" using t(1) by (simp add: new_decoder_def)
    then have "value_of raw 0 t d1 \<noteq> Inl NameNotText"
      by (rule reader_names(1) [OF t(5) _ t(2) c _ _ t(4)]) (simp_all add: moved_def value_allowed_def)
    then show ?thesis using n by (simp add: read_value_def)
  qed
  then show ?thesis by (auto simp: parse_tree_def split: sum.splits decode_error.splits)
qed

text \<open>C17: The type assertion on a member's name cannot fail: whatever the document, the reader never meets
  a token that is no string where an object wants a name, so parseTree never panics.\<close>

theorem names_are_texts: "parse_tree raw \<noteq> Inl NameNotText"
  by (rule parse_tree_names)

end
