(* ===== verification/Aws_Content.thy ===== *)
theory Aws_Content imports Aws_Document begin

text \<open>
  What a JSON text says, apart from where it says it: the contents of a tree of json.go, and the
  grammar of texts over contents. A text writes the same content at every offset of every document, so
  a piece of a document can be replaced by another piece of the grammar, or left out.
\<close>

section \<open>Contents\<close>

datatype json = JNull | JBool bool | JNumber string | JString string | JList "json list" | JObject "(string \<times> json) list"

primrec content :: "json_value \<Rightarrow> json" and content_member :: "json_member \<Rightarrow> string \<times> json" where
  "content (Value k t b ms items raw i j) =
     (case k of kindNull \<Rightarrow> JNull | kindBool \<Rightarrow> JBool b | kindNumber \<Rightarrow> JNumber t | kindString \<Rightarrow> JString t
      | kindArray \<Rightarrow> JList (map content items) | kindObject \<Rightarrow> JObject (map content_member ms))"
| "content_member (Member name v start) = (name, content v)"

lemma content_member_parts: "fst (content_member m) = member_name m" "snd (content_member m) = content (member_value m)"
  "content_member m = (member_name m, content (member_value m))"
  by (cases m; simp)+

lemma content_kind: "value_kind v = kindObject \<Longrightarrow> content v = JObject (map content_member (value_members v))"
  "value_kind v = kindArray \<Longrightarrow> content v = JList (map content (value_items v))"
  "value_kind v = kindString \<Longrightarrow> content v = JString (value_text v)"
  by (cases v; simp)+

lemma scalar_content: "content (scalar_value raw tok i j) = content (scalar_value raw' tok i' j')"
  by (cases tok) simp_all

section \<open>The same text elsewhere\<close>

lemma placed_elsewhere:
  "placed raw n i s v \<Longrightarrow> \<exists>v'. placed raw' n j s v' \<and> content v' = content v"
  "placed_items raw n first i s vs \<Longrightarrow> \<exists>vs'. placed_items raw' n first j s vs' \<and> map content vs' = map content vs"
  "placed_members raw n first i s ms \<Longrightarrow> \<exists>ms'. placed_members raw' n first j s ms' \<and> map content_member ms' = map content_member ms"
proof (induction arbitrary: j and j and j rule: placed_placed_items_placed_members.inducts)
  case (a_scalar tok l n i)
  then show ?case using placed_placed_items_placed_members.a_scalar scalar_content by blast
next
  case (a_list n i s vs)
  then obtain vs' where "placed_items raw' n True (j + 1) s vs'" "map content vs' = map content vs" by blast
  then show ?case using placed_placed_items_placed_members.a_list [of raw' n j s vs']
    by (intro exI [of _ "Value kindArray [] False [] vs' raw' j (j + length s + 2)"]) simp
next
  case (an_object n i s ms)
  then obtain ms' where "placed_members raw' n True (j + 1) s ms'" "map content_member ms' = map content_member ms" by blast
  then show ?case using placed_placed_items_placed_members.an_object [of raw' n j s ms']
    by (intro exI [of _ "Value kindObject [] False ms' [] raw' j (j + length s + 2)"]) simp
next
  case (no_items w n first i)
  then show ?case using placed_placed_items_placed_members.no_items by (intro exI [of _ "[]"]) simp
next
  case (an_item first w n i s v t vs)
  obtain v' where v: "placed raw' n (j + length w) s v'" "content v' = content v" using an_item.IH(2) by blast
  obtain vs' where "placed_items raw' n False (j + length w + length s) t vs'" "map content vs' = map content vs" using an_item.IH(4) by blast
  then show ?case using placed_placed_items_placed_members.an_item [OF an_item.hyps(1) v(1)] v(2)
    by (intro exI [of _ "v' # vs'"]) simp
next
  case (no_members w n first i)
  then show ?case using placed_placed_items_placed_members.no_members by (intro exI [of _ "[]"]) simp
next
  case (a_member first w x l c n i s v t ms)
  obtain v' where v: "placed raw' n (j + length w + length l + length c) s v'" "content v' = content v" using a_member.IH(2) by blast
  obtain ms' where "placed_members raw' n False (j + length w + length l + length c + length s) t ms'" "map content_member ms' = map content_member ms"
    using a_member.IH(4) by blast
  then show ?case using placed_placed_items_placed_members.a_member [OF a_member.hyps(1-3) v(1)] v(2)
    by (intro exI [of _ "Member x v' (j + length w) # ms'"]) simp
qed

section \<open>The grammar over contents\<close>

definition writes :: "nat \<Rightarrow> string \<Rightarrow> json \<Rightarrow> bool" where
  "writes n s c \<longleftrightarrow> (\<exists>v. placed [] n 0 s v \<and> content v = c)"

lemma placed_writes: "placed raw n i s v \<Longrightarrow> writes n s (content v)"
  using placed_elsewhere(1) [of raw n i s v "[]" 0] by (auto simp: writes_def)

lemma writes_placed: "writes n s c \<Longrightarrow> \<exists>v. placed raw n i s v \<and> content v = c"
  using placed_elsewhere(1) by (auto simp: writes_def)

text \<open>A list of elements, items or members alike, over the relation of one element at its place.\<close>

inductive sequenced :: "(nat \<Rightarrow> string \<Rightarrow> 'a \<Rightarrow> bool) \<Rightarrow> bool \<Rightarrow> nat \<Rightarrow> string \<Rightarrow> 'a list \<Rightarrow> bool" for E where
  seq_end: "blank_text w \<Longrightarrow> sequenced E first i w []"
| seq_more: "separates first w \<Longrightarrow> E (i + length w) s x \<Longrightarrow> sequenced E False (i + length w + length s) t xs \<Longrightarrow>
    sequenced E first i (w @ s @ t) (x # xs)"

inductive_cases seq_NilE: "sequenced E first i s []"
inductive_cases seq_ConsE: "sequenced E first i s (x # xs)"

definition placed_member :: "string \<Rightarrow> nat \<Rightarrow> nat \<Rightarrow> string \<Rightarrow> json_member \<Rightarrow> bool" where
  "placed_member raw n i s m \<longleftrightarrow>
     (\<exists>x l c t v. s = l @ c @ t \<and> m = Member x v i \<and> literal (TokString x) l \<and> around (CHR '':'') c \<and> placed raw n (i + length l + length c) t v)"

inductive_cases placed_items_NilE: "placed_items raw n first i s []"
inductive_cases placed_items_ConsE: "placed_items raw n first i s (v # vs)"
inductive_cases placed_members_NilE: "placed_members raw n first i s []"
inductive_cases placed_members_ConsE: "placed_members raw n first i s (m # ms)"

lemma items_sequenced: "placed_items raw n first i s vs \<longleftrightarrow> sequenced (placed raw n) first i s vs"
proof
  show "placed_items raw n first i s vs \<Longrightarrow> sequenced (placed raw n) first i s vs"
    by (induction vs arbitrary: first i s) (auto elim!: placed_items_NilE placed_items_ConsE intro: seq_end seq_more)
  show "sequenced (placed raw n) first i s vs \<Longrightarrow> placed_items raw n first i s vs"
    by (induction rule: sequenced.induct) (auto intro: no_items an_item)
qed

lemma members_sequenced: "placed_members raw n first i s ms \<longleftrightarrow> sequenced (placed_member raw n) first i s ms"
proof
  show "placed_members raw n first i s ms \<Longrightarrow> sequenced (placed_member raw n) first i s ms"
  proof (induction ms arbitrary: first i s)
    case Nil
    then show ?case by (auto elim!: placed_members_NilE intro: seq_end)
  next
    case (Cons m ms)
    from Cons.prems obtain w y l c t v u where m: "s = w @ (l @ c @ t) @ u" "m = Member y v (i + length w)" "separates first w"
      "literal (TokString y) l" "around (CHR '':'') c" "placed raw n (i + length w + length l + length c) t v"
      "placed_members raw n False (i + length w + length (l @ c @ t)) u ms"
      by (auto elim!: placed_members_ConsE simp: add.assoc)
    have "placed_member raw n (i + length w) (l @ c @ t) m" using m(2,4-6) by (auto simp: placed_member_def)
    then show ?case unfolding m(1) using seq_more [of first w "placed_member raw n" i "l @ c @ t" m u ms, OF m(3) _ Cons.IH [OF m(7)]] by simp
  qed
  show "sequenced (placed_member raw n) first i s ms \<Longrightarrow> placed_members raw n first i s ms"
  proof (induction rule: sequenced.induct)
    case (seq_more first w i s x t xs)
    then obtain y l c u v where m: "s = l @ c @ u" "x = Member y v (i + length w)" "literal (TokString y) l" "around (CHR '':'') c"
      "placed raw n (i + length w + length l + length c) u v" by (auto simp: placed_member_def)
    then show ?case using a_member [OF seq_more.hyps(1) m(3-5)] seq_more.IH by (simp add: add.assoc)
  qed (rule no_members)
qed

lemma sequenced_writes:
  assumes "sequenced (\<lambda>_. W) first j s ys" "\<And>i m y. W m y \<Longrightarrow> \<exists>x. E i m x \<and> say x = y"
  shows "\<exists>xs. sequenced E first i s xs \<and> map say xs = ys"
  using assms(1)
proof (induction arbitrary: i rule: sequenced.induct)
  case (seq_end w first j)
  then show ?case by (intro exI [of _ "[]"]) (simp add: sequenced.seq_end)
next
  case (seq_more first w j s y t ys)
  obtain x where x: "E (i + length w) s x" "say x = y" using assms(2) seq_more.hyps(2) by blast
  obtain xs where xs: "sequenced E False (i + length w + length s) t xs" "map say xs = ys" using seq_more.IH by blast
  show ?case using sequenced.seq_more [of first w E i s x t xs, OF seq_more.hyps(1) x(1) xs(1)] x(2) xs(2) by (intro exI [of _ "x # xs"]) simp
qed

definition writes_member :: "nat \<Rightarrow> string \<Rightarrow> string \<times> json \<Rightarrow> bool" where
  "writes_member n s p \<longleftrightarrow>
     (\<exists>x l c t j. s = l @ c @ t \<and> p = (x, j) \<and> literal (TokString x) l \<and> around (CHR '':'') c \<and> writes n t j)"

lemma member_writes: "placed_member raw n i s m \<Longrightarrow> writes_member n s (content_member m)"
  by (fastforce simp: placed_member_def writes_member_def dest: placed_writes)

lemma writes_member_placed: "writes_member n s p \<Longrightarrow> \<exists>m. placed_member raw n i s m \<and> content_member m = p"
proof -
  assume "writes_member n s p"
  then obtain x l c t j where m: "s = l @ c @ t" "p = (x, j)" "literal (TokString x) l" "around (CHR '':'') c" "writes n t j"
    unfolding writes_member_def by blast
  obtain v where v: "placed raw n (i + length l + length c) t v" "content v = j" using writes_placed [OF m(5)] by blast
  show ?thesis using m v by (intro exI [of _ "Member x v i"]) (auto simp: placed_member_def)
qed

lemma writes_list: "sequenced (\<lambda>_. writes n) True j s cs \<Longrightarrow> writes (Suc n) (CHR ''['' # s @ '']'') (JList cs)"
proof -
  assume "sequenced (\<lambda>_. writes n) True j s cs"
  then obtain vs where "sequenced (placed [] n) True (0 + 1) s vs" "map content vs = cs"
    using sequenced_writes [of "writes n" True j s cs "placed [] n" content] writes_placed by blast
  then show ?thesis using a_list [of "[]" n 0 s vs] by (auto simp: writes_def items_sequenced)
qed

lemma writes_object: "sequenced (\<lambda>_. writes_member n) True j s ps \<Longrightarrow> writes (Suc n) (CHR ''{'' # s @ ''}'') (JObject ps)"
proof -
  assume "sequenced (\<lambda>_. writes_member n) True j s ps"
  then obtain ms where "sequenced (placed_member [] n) True (0 + 1) s ms" "map content_member ms = ps"
    using sequenced_writes [of "writes_member n" True j s ps "placed_member [] n" content_member] writes_member_placed by blast
  then show ?thesis using an_object [of "[]" n 0 s ms] by (auto simp: writes_def members_sequenced)
qed

section \<open>Replacing and leaving out an element\<close>

definition drop_at :: "nat \<Rightarrow> 'a list \<Rightarrow> 'a list" where
  "drop_at k xs = take k xs @ drop (k + 1) xs"

definition plain_start :: "string \<Rightarrow> bool" where
  "plain_start s \<longleftrightarrow> s = [] \<or> byte (hd s) < 128"

lemma json_space_plain: "json_space c \<Longrightarrow> byte c < 128"
  by (auto simp: json_space_def simp del: byte_blank)

lemma blank_plain: "blank_text w \<Longrightarrow> plain_start w"
  by (cases w) (auto simp: blank_text_def plain_start_def dest: json_space_plain)

lemma comma_plain: "byte (CHR '','') < 128"
  by (simp add: byte_def)

lemma around_plain: "around (CHR '','') w \<Longrightarrow> plain_start (w @ u)"
proof -
  assume "around (CHR '','') w"
  then obtain a b where "w = a @ CHR '','' # b" "blank_text a" by (auto simp: around_def)
  then show ?thesis using comma_plain by (cases a) (auto simp: plain_start_def blank_text_def dest: json_space_plain)
qed

lemma solid_plain: "s = c # m \<Longrightarrow> solid c \<Longrightarrow> plain_start (s @ u)"
  by (simp add: plain_start_def solid_not_space)

text \<open>
  The elements of a list or an object: E places one, say is what it says, W writes that anywhere, and
  start and finish are the offsets edit.go reads off it.
\<close>

locale sequence =
  fixes E :: "nat \<Rightarrow> string \<Rightarrow> 'a \<Rightarrow> bool" and W :: "string \<Rightarrow> 'b \<Rightarrow> bool" and say :: "'a \<Rightarrow> 'b" and start finish :: "'a \<Rightarrow> nat"
  assumes place: "E i s x \<Longrightarrow> start x = i \<and> finish x = i + length s"
    and solid_first: "E i s x \<Longrightarrow> \<exists>c m. s = c # m \<and> solid c"
    and said: "E i s x \<Longrightarrow> W s (say x)"
begin

lemma said_all: "sequenced E first i s xs \<Longrightarrow> sequenced (\<lambda>_. W) first j s (map say xs)"
proof (induction arbitrary: j rule: sequenced.induct)
  case (seq_more first w i s x t xs)
  then show ?case using sequenced.seq_more [of first w "\<lambda>_. W" j s "say x" t "map say xs"] said by simp
qed (simp add: seq_end)

lemma starts_plain: "sequenced E False i s xs \<Longrightarrow> plain_start s"
  by (cases xs) (auto elim!: seq_NilE seq_ConsE simp: separates_def dest: blank_plain intro: around_plain)

lemma replace:
  assumes "sequenced E first i s xs" "k < length xs"
  shows "\<exists>a m b. s = a @ m @ b \<and> E (i + length a) m (xs ! k) \<and>
    (\<forall>m' y j. W m' y \<longrightarrow> sequenced (\<lambda>_. W) first j (a @ m' @ b) ((map say xs)[k := y]))"
  using assms
proof (induction arbitrary: k rule: sequenced.induct)
  case (seq_more first w i s x t xs)
  show ?case
  proof (cases k)
    case 0
    have "sequenced (\<lambda>_. W) first j (w @ m' @ t) (y # map say xs)" if "W m' y" for m' y j
      using sequenced.seq_more [of first w "\<lambda>_. W" j m' y t] seq_more.hyps(1) that said_all [OF seq_more.hyps(3)] by simp
    then show ?thesis using 0 seq_more.hyps(2) by (intro exI [of _ w] exI [of _ s] exI [of _ t]) simp
  next
    case (Suc k')
    then obtain a m b where a: "t = a @ m @ b" "E (i + length w + length s + length a) m (xs ! k')"
      "\<forall>m' y j. W m' y \<longrightarrow> sequenced (\<lambda>_. W) False j (a @ m' @ b) ((map say xs)[k' := y])"
      using seq_more.IH [of k'] seq_more.prems by auto
    have "sequenced (\<lambda>_. W) first j (w @ s @ a @ m' @ b) (say x # (map say xs)[k' := y])" if "W m' y" for m' y j
      using sequenced.seq_more [of first w "\<lambda>_. W" j s "say x"] seq_more.hyps(1) said [OF seq_more.hyps(2)] a(3) that by simp
    then show ?thesis using Suc a(1,2) by (intro exI [of _ "w @ s @ a"] exI [of _ m] exI [of _ b]) (simp add: add.assoc)
  qed
qed simp

text \<open>From where an element starts up to where the next one does.\<close>

lemma cut_next:
  assumes "sequenced E first i s xs" "k + 1 < length xs"
  shows "\<exists>a m b. s = a @ m @ b \<and> start (xs ! k) = i + length a \<and> start (xs ! (k + 1)) = i + length a + length m \<and>
    finish (xs ! k) \<le> i + length a + length m \<and> plain_start m \<and> plain_start b \<and> (\<forall>j. sequenced (\<lambda>_. W) first j (a @ b) (drop_at k (map say xs)))"
  using assms
proof (induction arbitrary: k rule: sequenced.induct)
  case (seq_more first w i s x t xs)
  show ?case
  proof (cases k)
    case 0
    then obtain y ys where "xs = y # ys" using seq_more.prems by (cases xs) auto
    then obtain w2 s2 t2 where y: "xs = y # ys" "t = w2 @ s2 @ t2" "E (i + length w + length s + length w2) s2 y"
      "sequenced E False (i + length w + length s + length w2 + length s2) t2 ys"
      using seq_more.hyps(3) by (auto elim: seq_ConsE)
    have "sequenced (\<lambda>_. W) first j (w @ s2 @ t2) (say y # map say ys)" for j
      using sequenced.seq_more [of first w "\<lambda>_. W" j s2 "say y" t2] seq_more.hyps(1) said [OF y(3)] said_all [OF y(4)] by simp
    then show ?thesis
      using 0 y place [OF seq_more.hyps(2)] place [OF y(3)] solid_first [OF seq_more.hyps(2)] solid_first [OF y(3)] solid_plain
      by (intro exI [of _ w] exI [of _ "s @ w2"] exI [of _ "s2 @ t2"]) (auto simp: drop_at_def add.assoc)
  next
    case (Suc k')
    then obtain a m b where a: "t = a @ m @ b" "start (xs ! k') = i + length w + length s + length a"
      "start (xs ! (k' + 1)) = i + length w + length s + length a + length m" "finish (xs ! k') \<le> i + length w + length s + length a + length m" "plain_start m" "plain_start b"
      "\<forall>j. sequenced (\<lambda>_. W) False j (a @ b) (drop_at k' (map say xs))"
      using seq_more.IH [of k'] seq_more.prems by auto
    have "sequenced (\<lambda>_. W) first j (w @ s @ a @ b) (say x # drop_at k' (map say xs))" for j
      using sequenced.seq_more [of first w "\<lambda>_. W" j s "say x"] seq_more.hyps(1) said [OF seq_more.hyps(2)] a(7) by simp
    then show ?thesis using Suc a by (intro exI [of _ "w @ s @ a"] exI [of _ m] exI [of _ b]) (simp add: drop_at_def add.assoc)
  qed
qed simp

text \<open>The last of several, from where the one before it ends.\<close>

lemma cut_last:
  assumes "sequenced E first i s xs" "k + 2 = length xs"
  shows "\<exists>a m b. s = a @ m @ b \<and> finish (xs ! k) = i + length a \<and> finish (xs ! (k + 1)) = i + length a + length m \<and>
    i + length a \<le> start (xs ! (k + 1)) \<and> plain_start m \<and> plain_start b \<and> (\<forall>j. sequenced (\<lambda>_. W) first j (a @ b) (drop_at (k + 1) (map say xs)))"
  using assms
proof (induction arbitrary: k rule: sequenced.induct)
  case (seq_more first w i s x t xs)
  show ?case
  proof (cases k)
    case 0
    then obtain y where "xs = [y]" using seq_more.prems by (cases xs) auto
    then obtain w2 s2 t2 where y: "xs = [y]" "t = w2 @ s2 @ t2" "separates False w2" "E (i + length w + length s + length w2) s2 y" "blank_text t2"
      using seq_more.hyps(3) by (auto elim!: seq_ConsE seq_NilE)
    have "sequenced (\<lambda>_. W) first j (w @ s @ t2) [say x]" for j
      using sequenced.seq_more [of first w "\<lambda>_. W" j s "say x" t2 "[]"] seq_more.hyps(1) said [OF seq_more.hyps(2)] seq_end [OF y(5), where E = "\<lambda>_. W"] by simp
    moreover have "plain_start (w2 @ s2)" using y(3) around_plain by (simp add: separates_def)
    ultimately show ?thesis
      using 0 y place [OF seq_more.hyps(2)] place [OF y(4)] blank_plain
      by (intro exI [of _ "w @ s"] exI [of _ "w2 @ s2"] exI [of _ t2]) (auto simp: drop_at_def add.assoc)
  next
    case (Suc k')
    then obtain a m b where a: "t = a @ m @ b" "finish (xs ! k') = i + length w + length s + length a"
      "finish (xs ! (k' + 1)) = i + length w + length s + length a + length m" "i + length w + length s + length a \<le> start (xs ! (k' + 1))" "plain_start m" "plain_start b"
      "\<forall>j. sequenced (\<lambda>_. W) False j (a @ b) (drop_at (k' + 1) (map say xs))"
      using seq_more.IH [of k'] seq_more.prems by auto
    have "sequenced (\<lambda>_. W) first j (w @ s @ a @ b) (say x # drop_at (k' + 1) (map say xs))" for j
      using sequenced.seq_more [of first w "\<lambda>_. W" j s "say x"] seq_more.hyps(1) said [OF seq_more.hyps(2)] a(7) by simp
    then show ?thesis using Suc a by (intro exI [of _ "w @ s @ a"] exI [of _ m] exI [of _ b]) (simp add: drop_at_def add.assoc)
  qed
qed simp

end

lemma placed_place: "placed raw n i s v \<Longrightarrow> value_start v = i \<and> value_end v = i + length s \<and> value_source v = raw"
proof (erule placed.cases)
  fix tok l n' j
  assume "i = j" "s = l" "v = scalar_value raw tok j (j + length l)"
  then show ?thesis by (cases tok) simp_all
qed auto

lemma literal_solid: "literal (TokString x) l \<Longrightarrow> \<exists>c m. l = c # m \<and> solid c"
  by (auto simp: literal_def)

interpretation items: sequence "placed raw n" "writes n" content value_start value_end for raw n
  by unfold_locales (use placed_place placed_solid placed_writes in blast)+

interpretation members: sequence "placed_member raw n" "writes_member n" content_member member_start "value_end \<circ> member_value" for raw n
proof
  fix i s x
  assume m: "placed_member raw n i s x"
  show "member_start x = i \<and> (value_end \<circ> member_value) x = i + length s"
    using m placed_place by (fastforce simp: placed_member_def)
  show "\<exists>c m. s = c # m \<and> solid c" using m literal_solid by (fastforce simp: placed_member_def)
  show "writes_member n s (content_member x)" by (rule member_writes [OF m])
qed

end
