(* ===== verification/Aws_Edit.thy ===== *)
theory Aws_Edit imports Aws_Policy Aws_Document begin

text \<open>
  Package parse/aws, edit.go: RemovePrincipal, which takes one principal out of a policy and leaves
  every other byte as written, and LetNoOneIn, the policy that lets no one in. A refusal is Inl its
  reason.
\<close>

section \<open>What is removed\<close>

datatype removed = RemovedPrincipal | RemovedKind | RemovedStatement

text \<open>
  located: the statement is the value located was found in, and found_in is the Principal object with
  the member's index and, in a list, the item's, None for a Principal that is the string itself and an
  item that is the member's value.
\<close>

record located =
  located_statement :: json_value
  located_principal :: "(json_value \<times> nat \<times> nat option) option"

definition written_at :: "nat \<Rightarrow> nat \<Rightarrow> json_value \<Rightarrow> bool" where
  "written_at start finish v \<longleftrightarrow> value_kind v = kindString \<and> value_start v = start \<and> value_end v = finish"

text \<open>The loops of locate, over the items of a list, the members of a Principal, and the statement's members.\<close>

fun locate_item :: "nat \<Rightarrow> nat \<Rightarrow> nat \<Rightarrow> json_value list \<Rightarrow> nat option" where
  "locate_item start finish i [] = None"
| "locate_item start finish i (v # vs) = (if written_at start finish v then Some i else locate_item start finish (i + 1) vs)"

fun locate_member :: "nat \<Rightarrow> nat \<Rightarrow> nat \<Rightarrow> json_member list \<Rightarrow> (nat \<times> nat option) option" where
  "locate_member start finish k [] = None"
| "locate_member start finish k (pm # pms) =
     (if written_at start finish (member_value pm) then Some (k, None)
      else if value_kind (member_value pm) \<noteq> kindArray then locate_member start finish (k + 1) pms
      else
        (case locate_item start finish 0 (value_items (member_value pm)) of
           Some i \<Rightarrow> Some (k, Some i)
         | None \<Rightarrow> locate_member start finish (k + 1) pms))"

fun locate_in :: "json_value \<Rightarrow> nat \<Rightarrow> nat \<Rightarrow> json_member list \<Rightarrow> located option" where
  "locate_in s start finish [] = None"
| "locate_in s start finish (m # ms) =
     (if member_name m \<noteq> ''Principal'' then locate_in s start finish ms
      else if written_at start finish (member_value m) then Some \<lparr>located_statement = s, located_principal = None\<rparr>
      else if value_kind (member_value m) \<noteq> kindObject then locate_in s start finish ms
      else
        (case locate_member start finish 0 (value_members (member_value m)) of
           Some (k, item) \<Rightarrow> Some \<lparr>located_statement = s, located_principal = Some (member_value m, k, item)\<rparr>
         | None \<Rightarrow> locate_in s start finish ms))"

definition locate :: "json_value \<Rightarrow> nat \<Rightarrow> nat \<Rightarrow> located option" where
  "locate s start finish = locate_in s start finish (value_members s)"

section \<open>Cutting an element out\<close>

definition elements :: "json_value \<Rightarrow> nat list \<times> nat list" where
  "elements v =
     (map member_start (value_members v) @ map value_start (value_items v),
      map (value_end \<circ> member_value) (value_members v) @ map value_end (value_items v))"

text \<open>The bytes cut: from and to of cutElement.\<close>

definition cut_range :: "json_value \<Rightarrow> nat \<Rightarrow> nat \<times> nat" where
  "cut_range c i =
     (let (starts, ends) = elements c in
      if length starts = 1 then (value_start c + 1, value_end c - 1)
      else if i + 1 < length starts then (starts ! i, starts ! (i + 1))
      else (ends ! (i - 1), ends ! i))"

definition cut_element :: "string \<Rightarrow> json_value \<Rightarrow> nat \<Rightarrow> string" where
  "cut_element raw c i = (let (from_at, to_at) = cut_range c i in take from_at raw @ drop to_at raw)"

section \<open>Removing a principal\<close>

datatype edit_error =
  PolicyNotRead tree_error | PolicyNotObject | NotOneAllow | BesideNotPrincipal | NoPrincipalAt nat nat |
  VersionTwice | VersionNotString json_value | VersionUnknown string

text \<open>The statement's Effect members: how many, and whether the last one allows.\<close>

definition allow_effect :: "json_member list \<Rightarrow> nat \<times> bool" where
  "allow_effect ms =
     fold (\<lambda>m (effects, allow). if member_name m = ''Effect''
         then (effects + 1, value_kind (member_value m) = kindString \<and> value_text (member_value m) = ''Allow'') else (effects, allow))
       ms (0, False)"

definition names_excluded :: "json_member list \<Rightarrow> bool" where
  "names_excluded ms \<longleftrightarrow> list_ex (\<lambda>m. member_name m = ''NotPrincipal'') ms"

definition remove :: "located \<Rightarrow> string \<Rightarrow> json_value \<Rightarrow> nat \<Rightarrow> edit_error + string \<times> removed" where
  "remove l raw holder at =
     (let ms = value_members (located_statement l); (effects, allow) = allow_effect ms in
      if effects \<noteq> 1 \<or> \<not> allow then Inl NotOneAllow
      else if names_excluded ms then Inl BesideNotPrincipal
      else
        (case located_principal l of
           None \<Rightarrow> Inr (cut_element raw holder at, RemovedStatement)
         | Some (whom, member, item) \<Rightarrow>
           (let list = member_value (value_members whom ! member) in
            case item of
              Some i \<Rightarrow>
                if 1 < length (value_items list) then Inr (cut_element raw list i, RemovedPrincipal)
                else if 1 < length (value_members whom) then Inr (cut_element raw whom member, RemovedKind)
                else Inr (cut_element raw holder at, RemovedStatement)
            | None \<Rightarrow>
                if 1 < length (value_members whom) then Inr (cut_element raw whom member, RemovedKind)
                else Inr (cut_element raw holder at, RemovedStatement))))"

text \<open>The loops of RemovePrincipal, over a list of statements and over the members of the document.\<close>

fun remove_among :: "string \<Rightarrow> nat \<Rightarrow> nat \<Rightarrow> json_value \<Rightarrow> nat \<Rightarrow> json_value list \<Rightarrow> (edit_error + string \<times> removed) option" where
  "remove_among raw start finish holder j [] = None"
| "remove_among raw start finish holder j (s # ss) =
     (if value_kind s \<noteq> kindObject then remove_among raw start finish holder (j + 1) ss
      else
        (case locate s start finish of
           Some r \<Rightarrow> Some (remove r raw holder j)
         | None \<Rightarrow> remove_among raw start finish holder (j + 1) ss))"

fun remove_from :: "string \<Rightarrow> nat \<Rightarrow> nat \<Rightarrow> json_value \<Rightarrow> nat \<Rightarrow> json_member list \<Rightarrow> edit_error + string \<times> removed" where
  "remove_from raw start finish root i [] = Inl (NoPrincipalAt start finish)"
| "remove_from raw start finish root i (m # ms) =
     (if member_name m \<noteq> ''Statement'' then remove_from raw start finish root (i + 1) ms
      else if value_kind (member_value m) = kindObject then
        (case locate (member_value m) start finish of
           Some r \<Rightarrow> remove r raw root i
         | None \<Rightarrow> remove_from raw start finish root (i + 1) ms)
      else if value_kind (member_value m) \<noteq> kindArray then remove_from raw start finish root (i + 1) ms
      else
        (case remove_among raw start finish (member_value m) 0 (value_items (member_value m)) of
           Some r \<Rightarrow> r
         | None \<Rightarrow> remove_from raw start finish root (i + 1) ms))"

definition remove_principal :: "string \<Rightarrow> nat \<Rightarrow> nat \<Rightarrow> edit_error + string \<times> removed" where
  "remove_principal raw start finish =
     (case parse_tree raw of
        Inl e \<Rightarrow> Inl (PolicyNotRead e)
      | Inr root \<Rightarrow>
        if value_kind root \<noteq> kindObject then Inl PolicyNotObject
        else remove_from raw start finish root 0 (value_members root))"

definition versionKept :: string where
  "versionKept = '', which IAM refuses, and the policy that would replace it keeps the Version as written''"

text \<open>The texts of the errors, with the decoder's own texts as an argument.\<close>

fun edit_error_text :: "(decode_error \<Rightarrow> string) \<Rightarrow> edit_error \<Rightarrow> string" where
  "edit_error_text d (PolicyNotRead e) = ''the policy is not read: '' @ tree_error_text d e"
| "edit_error_text d PolicyNotObject = ''the policy is not an object''"
| "edit_error_text d NotOneAllow = ''the statement does not write its Effect once, as '' @ [dquote] @ ''Allow'' @ [dquote] @ '', and a principal is removed only from an Allow statement, since removing one from a Deny lets more in''"
| "edit_error_text d BesideNotPrincipal = ''the statement writes NotPrincipal, which names who is excluded rather than who is admitted, and removing a principal beside it may let more in''"
| "edit_error_text d (NoPrincipalAt start finish) = ''the bytes at '' @ itoa (int start) @ ''-'' @ itoa (int finish) @ '' are not one principal written under a statement'' @ [CHR 0x27] @ ''s Principal''"
| "edit_error_text d VersionTwice = ''the policy writes Version more than once'' @ versionKept"
| "edit_error_text d (VersionNotString v) = ''Version is '' @ describe v @ '', not a string'' @ versionKept"
| "edit_error_text d (VersionUnknown t) = ''Version '' @ quote_to_ascii t @ '' is neither '' @ [dquote] @ ''2012-10-17'' @ [dquote] @ '' nor '' @ [dquote] @ ''2008-10-17'' @ [dquote] @ versionKept"

section \<open>The policy that lets no one in\<close>

text \<open>The Version members: Inr the one there is, if any.\<close>

definition the_version :: "json_member list \<Rightarrow> edit_error + json_value option" where
  "the_version ms =
     (case filter (\<lambda>m. member_name m = ''Version'') ms of
        [] \<Rightarrow> Inr None
      | [m] \<Rightarrow> Inr (Some (member_value m))
      | _ \<Rightarrow> Inl VersionTwice)"

definition newline :: string where
  "newline = [chr 10]"

definition deny_everyone :: string where
  "deny_everyone =
     ''  '' @ [dquote] @ ''Statement'' @ [dquote] @ '': ['' @ newline @
     ''    {'' @ newline @
     ''      '' @ [dquote] @ ''Sid'' @ [dquote] @ '': '' @ [dquote] @ ''DenyEveryone'' @ [dquote] @ '','' @ newline @
     ''      '' @ [dquote] @ ''Effect'' @ [dquote] @ '': '' @ [dquote] @ ''Deny'' @ [dquote] @ '','' @ newline @
     ''      '' @ [dquote] @ ''Principal'' @ [dquote] @ '': {'' @ [dquote] @ ''AWS'' @ [dquote] @ '': '' @ [dquote] @ ''*'' @ [dquote] @ ''},'' @ newline @
     ''      '' @ [dquote] @ ''Action'' @ [dquote] @ '': '' @ [dquote] @ ''sts:AssumeRole'' @ [dquote] @ newline @
     ''    }'' @ newline @
     ''  ]'' @ newline @
     ''}''"

definition version_line :: "json_value option \<Rightarrow> edit_error + string" where
  "version_line version =
     (case version of
        None \<Rightarrow> Inr []
      | Some v \<Rightarrow>
        if value_kind v \<noteq> kindString then Inl (VersionNotString v)
        else if value_text v \<noteq> ''2012-10-17'' \<and> value_text v \<noteq> ''2008-10-17'' then Inl (VersionUnknown (value_text v))
        else Inr (''  '' @ [dquote] @ ''Version'' @ [dquote] @ '': '' @ value_bytes v @ '','' @ newline))"

definition let_no_one_in :: "string \<Rightarrow> edit_error + string" where
  "let_no_one_in raw =
     (case parse_tree raw of
        Inl e \<Rightarrow> Inl (PolicyNotRead e)
      | Inr root \<Rightarrow>
        if value_kind root \<noteq> kindObject then Inl PolicyNotObject
        else
          (case the_version (value_members root) of
             Inl e \<Rightarrow> Inl e
           | Inr version \<Rightarrow>
             (case version_line version of
                Inl e \<Rightarrow> Inl e
              | Inr line \<Rightarrow> Inr (''{'' @ newline @ line @ deny_everyone))))"

end
