(* ===== verification/Aws_Edit_Laws.thy ===== *)
theory Aws_Edit_Laws imports Aws_Content Aws_Edit begin

text \<open>
  What RemovePrincipal and LetNoOneIn (parse/aws, edit.go) promise: the policy they return is read back
  as the policy given with the one piece left out that the operation names, and nothing else of it
  changes.
\<close>

section \<open>A value inside another\<close>

text \<open>
  slot: x is written m at j inside v, which is written s at i; and a text that writes c in place of m
  makes a text that writes f c in place of s.
\<close>

definition slot :: "string \<Rightarrow> nat \<Rightarrow> nat \<Rightarrow> string \<Rightarrow> nat \<Rightarrow> nat \<Rightarrow> string \<Rightarrow> json_value \<Rightarrow> (json \<Rightarrow> json) \<Rightarrow> bool" where
  "slot raw n i s n' j m x f \<longleftrightarrow>
     placed raw n' j m x \<and>
     (\<exists>a b. s = a @ m @ b \<and> j = i + length a \<and> (\<forall>m' c. writes n' m' c \<longrightarrow> writes n (a @ m' @ b) (f c)))"

lemma slot_self: "placed raw n i s v \<Longrightarrow> slot raw n i s n i s v (\<lambda>c. c)"
  by (auto simp: slot_def intro: exI [of _ "[]"])

lemma slot_trans: "slot raw n i s n' j m x f \<Longrightarrow> slot raw n' j m n'' k t y g \<Longrightarrow> slot raw n i s n'' k t y (\<lambda>c. f (g c))"
proof -
  assume "slot raw n i s n' j m x f" "slot raw n' j m n'' k t y g"
  then obtain a b a' b' where 1: "s = a @ m @ b" "j = i + length a" "\<forall>m' c. writes n' m' c \<longrightarrow> writes n (a @ m' @ b) (f c)"
    and 2: "placed raw n'' k t y" "m = a' @ t @ b'" "k = j + length a'" "\<forall>m' c. writes n'' m' c \<longrightarrow> writes n' (a' @ m' @ b') (g c)"
    unfolding slot_def by blast
  have "writes n ((a @ a') @ m' @ b' @ b) (f (g c))" if "writes n'' m' c" for m' c
    using 1(3) 2(4) that by (metis append.assoc)
  then show ?thesis using 1 2 unfolding slot_def by (intro conjI exI [of _ "a @ a'"] exI [of _ "b' @ b"]) simp_all
qed

lemma slot_kinds:
  assumes "slot raw n i s n' j m x f"
  shows "value_kind x = kindArray \<Longrightarrow> \<exists>n'' t. n' = Suc n'' \<and> m = CHR ''['' # t @ '']'' \<and> sequenced (placed raw n'') True (j + 1) t (value_items x)
      \<and> value_members x = [] \<and> value_start x = j \<and> value_end x = j + length m"
    "value_kind x = kindObject \<Longrightarrow> \<exists>n'' t. n' = Suc n'' \<and> m = CHR ''{'' # t @ ''}'' \<and> sequenced (placed_member raw n'') True (j + 1) t (value_members x)
      \<and> value_items x = [] \<and> value_start x = j \<and> value_end x = j + length m"
proof -
  have p: "placed raw n' j m x" using assms by (simp add: slot_def)
  have scalar: "value_kind (scalar_value raw tok i j) \<noteq> kindArray" "value_kind (scalar_value raw tok i j) \<noteq> kindObject" for tok i j
    by (cases tok; simp)+
  show "value_kind x = kindArray \<Longrightarrow> \<exists>n'' t. n' = Suc n'' \<and> m = CHR ''['' # t @ '']'' \<and> sequenced (placed raw n'') True (j + 1) t (value_items x)
      \<and> value_members x = [] \<and> value_start x = j \<and> value_end x = j + length m"
    using p by (cases rule: placed.cases) (auto simp: scalar items_sequenced)
  show "value_kind x = kindObject \<Longrightarrow> \<exists>n'' t. n' = Suc n'' \<and> m = CHR ''{'' # t @ ''}'' \<and> sequenced (placed_member raw n'') True (j + 1) t (value_members x)
      \<and> value_items x = [] \<and> value_start x = j \<and> value_end x = j + length m"
    using p by (cases rule: placed.cases) (auto simp: scalar members_sequenced)
qed

lemma slot_item:
  assumes "slot raw n i s n' j m x f" "value_kind x = kindArray" "k < length (value_items x)"
  shows "\<exists>n'' j' m'. slot raw n i s n'' j' m' (value_items x ! k) (\<lambda>c. f (JList ((map content (value_items x))[k := c])))"
proof -
  obtain n'' t where t: "n' = Suc n''" "m = CHR ''['' # t @ '']''" "sequenced (placed raw n'') True (j + 1) t (value_items x)"
    using slot_kinds(1) [OF assms(1,2)] by blast
  obtain a m' b where a: "t = a @ m' @ b" "placed raw n'' (j + 1 + length a) m' (value_items x ! k)"
    "\<And>u y l. writes n'' u y \<Longrightarrow> sequenced (\<lambda>_. writes n'') True l (a @ u @ b) ((map content (value_items x))[k := y])"
    using items.replace [OF t(3) assms(3)] by blast
  have "slot raw n' j m n'' (j + 1 + length a) m' (value_items x ! k) (\<lambda>c. JList ((map content (value_items x))[k := c]))"
    unfolding slot_def using t a writes_list [OF a(3)] by (intro conjI exI [of _ "CHR ''['' # a"] exI [of _ "b @ '']''"]) simp_all
  then show ?thesis using slot_trans [OF assms(1)] by blast
qed

lemma slot_member:
  assumes "slot raw n i s n' j m x f" "value_kind x = kindObject" "k < length (value_members x)"
  shows "\<exists>n'' j' m'. slot raw n i s n'' j' m' (member_value (value_members x ! k))
    (\<lambda>c. f (JObject ((map content_member (value_members x))[k := (member_name (value_members x ! k), c)])))"
proof -
  obtain n'' t where t: "n' = Suc n''" "m = CHR ''{'' # t @ ''}''" "sequenced (placed_member raw n'') True (j + 1) t (value_members x)"
    using slot_kinds(2) [OF assms(1,2)] by blast
  obtain a m' b where a: "t = a @ m' @ b" "placed_member raw n'' (j + 1 + length a) m' (value_members x ! k)"
    "\<And>u y l. writes_member n'' u y \<Longrightarrow> sequenced (\<lambda>_. writes_member n'') True l (a @ u @ b) ((map content_member (value_members x))[k := y])"
    using members.replace [OF t(3) assms(3)] by blast
  obtain y l c u v where y: "m' = l @ c @ u" "value_members x ! k = Member y v (j + 1 + length a)" "literal (TokString y) l" "around (CHR '':'') c"
    "placed raw n'' (j + 1 + length a + length l + length c) u v"
    using a(2) unfolding placed_member_def by blast
  have w: "writes_member n'' (l @ c @ u') (y, d)" if "writes n'' u' d" for u' d
    using y(3,4) that unfolding writes_member_def by blast
  have o: "writes n' ((CHR ''{'' # a @ l @ c) @ u' @ b @ ''}'') (JObject ((map content_member (value_members x))[k := (y, d)]))" if "writes n'' u' d" for u' d
    using writes_object [OF a(3) [OF w [OF that]]] by (simp add: t(1))
  have "slot raw n' j m n'' (j + 1 + length a + length l + length c) u v (\<lambda>d. JObject ((map content_member (value_members x))[k := (y, d)]))"
    unfolding slot_def using t a y o by (intro conjI exI [of _ "CHR ''{'' # a @ l @ c"] exI [of _ "b @ ''}''"]) simp_all
  then show ?thesis using slot_trans [OF assms(1)] y(2) by fastforce
qed

section \<open>Cutting an element\<close>

text \<open>A list or an object without its element k.\<close>

definition without :: "json_value \<Rightarrow> nat \<Rightarrow> json" where
  "without c k = (if value_kind c = kindArray then JList (drop_at k (map content (value_items c))) else JObject (drop_at k (map content_member (value_members c))))"

definition element_count :: "json_value \<Rightarrow> nat" where
  "element_count c = length (value_members c) + length (value_items c)"

text \<open>The range cut, and that what is left still writes the rest.\<close>

context sequence begin

lemma cut_any:
  assumes "sequenced E True i t xs" "k < length xs"
  shows "\<exists>a m b. t = a @ m @ b \<and> plain_start m \<and> plain_start b \<and> (\<forall>j. sequenced (\<lambda>_. W) True j (a @ b) (drop_at k (map say xs))) \<and>
    i + length a \<le> start (xs ! k) \<and> finish (xs ! k) \<le> i + length a + length m \<and>
    (if length xs = 1 then (i, i + length t) else if k + 1 < length xs then (start (xs ! k), start (xs ! (k + 1))) else (finish (xs ! (k - 1)), finish (xs ! k)))
      = (i + length a, i + length a + length m)"
proof -
  consider "length xs = 1" | "length xs \<noteq> 1" "k + 1 < length xs" | "length xs \<noteq> 1" "k + 1 = length xs" using assms(2) by fastforce
  then show ?thesis
  proof cases
    case 1
    then obtain x where x: "xs = [x]" by (cases xs) auto
    obtain w s u where w: "t = w @ s @ u" "blank_text w" "E (i + length w) s x" "blank_text u"
      using assms(1) unfolding x by (auto elim!: seq_ConsE seq_NilE simp: separates_def)
    obtain c m where "s = c # m" "solid c" using solid_first [OF w(3)] by blast
    then have "plain_start t" using w(1) blank_plain [OF w(2)] solid_plain [of s c m] by (cases w) (auto simp: plain_start_def)
    then show ?thesis using 1 assms(2) x w place [OF w(3)]
      by (intro exI [of _ "[]"] exI [of _ t]) (auto simp: plain_start_def drop_at_def intro: seq_end)
  next
    case 2
    obtain a m b where a: "t = a @ m @ b" "start (xs ! k) = i + length a" "start (xs ! (k + 1)) = i + length a + length m"
      "finish (xs ! k) \<le> i + length a + length m" "plain_start m" "plain_start b" "\<forall>j. sequenced (\<lambda>_. W) True j (a @ b) (drop_at k (map say xs))"
      using cut_next [OF assms(1) 2(2)] by blast
    then show ?thesis using 2 by (intro exI [of _ a] exI [of _ m] exI [of _ b]) simp
  next
    case 3
    then have k: "(k - 1) + 2 = length xs" "k - 1 + 1 = k" using assms(2) by simp_all
    obtain a m b where a: "t = a @ m @ b" "finish (xs ! (k - 1)) = i + length a" "finish (xs ! k) = i + length a + length m"
      "i + length a \<le> start (xs ! k)" "plain_start m" "plain_start b" "\<forall>j. sequenced (\<lambda>_. W) True j (a @ b) (drop_at k (map say xs))"
      using cut_last [OF assms(1) k(1)] unfolding k(2) by blast
    then show ?thesis using 3 by (intro exI [of _ a] exI [of _ m] exI [of _ b]) simp
  qed
qed

end

lemma plain_append: "plain_start b \<Longrightarrow> plain_start q \<Longrightarrow> plain_start (b @ q)"
  by (cases b) (simp_all add: plain_start_def)

lemma closers_plain: "plain_start (CHR '']'' # u)" "plain_start (CHR ''}'' # u)"
  by (simp_all add: plain_start_def byte_def)

lemma slot_cut:
  assumes "slot raw n i s n' j m x f" "value_kind x = kindArray \<or> value_kind x = kindObject" "k < element_count x"
  shows "\<exists>a y b. m = a @ y @ b \<and> plain_start y \<and> plain_start (b @ u) \<and> cut_range x k = (j + length a, j + length a + length y) \<and>
    writes n' (a @ b) (without x k) \<and> j + length a \<le> fst (elements x) ! k \<and> snd (elements x) ! k \<le> j + length a + length y"
  using assms(2)
proof
  assume arr: "value_kind x = kindArray"
  obtain n'' t where t: "n' = Suc n''" "m = CHR ''['' # t @ '']''" "sequenced (placed raw n'') True (j + 1) t (value_items x)" "value_members x = []"
    "value_start x = j" "value_end x = j + length m"
    using slot_kinds(1) [OF assms(1) arr] by blast
  have k: "k < length (value_items x)" using assms(3) t(4) by (simp add: element_count_def)
  obtain a y b where c: "t = a @ y @ b" "plain_start y" "plain_start b"
    "\<And>l. sequenced (\<lambda>_. writes n'') True l (a @ b) (drop_at k (map content (value_items x)))"
    "j + 1 + length a \<le> value_start (value_items x ! k)" "value_end (value_items x ! k) \<le> j + 1 + length a + length y"
    "(if length (value_items x) = 1 then (j + 1, j + 1 + length t)
      else if k + 1 < length (value_items x) then (value_start (value_items x ! k), value_start (value_items x ! (k + 1)))
      else (value_end (value_items x ! (k - 1)), value_end (value_items x ! k))) = (j + 1 + length a, j + 1 + length a + length y)"
    using items.cut_any [OF t(3) k] by blast
  have r: "cut_range x k = (j + 1 + length a, j + 1 + length a + length y)"
    using c(7) t k by (simp add: cut_range_def elements_def split: if_splits)
  have w: "writes n' (''['' @ (a @ b) @ '']'') (without x k)" using writes_list [OF c(4)] t(1) arr by (simp add: without_def)
  show ?thesis
    by (rule exI [of _ "CHR ''['' # a"], rule exI [of _ y], rule exI [of _ "b @ '']''"])
      (use c(1,2,5,6) plain_append [OF c(3)] closers_plain r w t(2,4) k in \<open>simp add: elements_def\<close>)
next
  assume obj: "value_kind x = kindObject"
  obtain n'' t where t: "n' = Suc n''" "m = CHR ''{'' # t @ ''}''" "sequenced (placed_member raw n'') True (j + 1) t (value_members x)" "value_items x = []"
    "value_start x = j" "value_end x = j + length m"
    using slot_kinds(2) [OF assms(1) obj] by blast
  have k: "k < length (value_members x)" using assms(3) t(4) by (simp add: element_count_def)
  obtain a y b where c: "t = a @ y @ b" "plain_start y" "plain_start b"
    "\<And>l. sequenced (\<lambda>_. writes_member n'') True l (a @ b) (drop_at k (map content_member (value_members x)))"
    "j + 1 + length a \<le> member_start (value_members x ! k)" "value_end (member_value (value_members x ! k)) \<le> j + 1 + length a + length y"
    "(if length (value_members x) = 1 then (j + 1, j + 1 + length t)
      else if k + 1 < length (value_members x) then (member_start (value_members x ! k), member_start (value_members x ! (k + 1)))
      else (value_end (member_value (value_members x ! (k - 1))), value_end (member_value (value_members x ! k)))) = (j + 1 + length a, j + 1 + length a + length y)"
    using members.cut_any [OF t(3) k] unfolding comp_def by blast
  have r: "cut_range x k = (j + 1 + length a, j + 1 + length a + length y)"
    using c(7) t k by (simp add: cut_range_def elements_def split: if_splits)
  have w: "writes n' (''{'' @ (a @ b) @ ''}'') (without x k)" using writes_object [OF c(4)] t(1) obj by (simp add: without_def)
  show ?thesis
    by (rule exI [of _ "CHR ''{'' # a"], rule exI [of _ y], rule exI [of _ "b @ ''}''"])
      (use c(1,2,5,6) plain_append [OF c(3)] closers_plain r w t(2,4) k in \<open>simp add: elements_def\<close>)
qed

section \<open>Inside a document\<close>

text \<open>x is a value of the document raw, and a document with another text in its place says f of what that text says.\<close>

definition inside :: "string \<Rightarrow> json_value \<Rightarrow> (json \<Rightarrow> json) \<Rightarrow> bool" where
  "inside raw x f \<longleftrightarrow>
     valid_string raw \<and> (\<exists>w s u n j m. raw = w @ s @ u \<and> blank_text w \<and> blank_text u \<and> slot raw maxNesting (length w) s n j m x f)"

lemma inside_root: "parse_tree raw = Inr root \<Longrightarrow> inside raw root (\<lambda>c. c)"
  unfolding parse_tree_document document_text_def inside_def by (blast intro: slot_self)

lemma inside_item:
  "inside raw x f \<Longrightarrow> value_kind x = kindArray \<Longrightarrow> k < length (value_items x) \<Longrightarrow>
    inside raw (value_items x ! k) (\<lambda>c. f (JList ((map content (value_items x))[k := c])))"
  unfolding inside_def using slot_item by metis

lemma inside_member:
  "inside raw x f \<Longrightarrow> value_kind x = kindObject \<Longrightarrow> k < length (value_members x) \<Longrightarrow>
    inside raw (member_value (value_members x ! k)) (\<lambda>c. f (JObject ((map content_member (value_members x))[k := (member_name (value_members x ! k), c)])))"
  unfolding inside_def using slot_member by metis

lemma valid_pieces:
  assumes "valid_string (p @ y @ q)" "plain_start y" "plain_start q"
  shows "valid_string (p @ q)"
proof -
  have front: "valid_string p \<and> valid_string r" if "valid_string (p @ r)" "plain_start r" for p r
  proof (cases r)
    case (Cons c t)
    then show ?thesis using that valid_at_ascii [of c p t] valid_at_ascii [of c "[]" t] by (simp add: plain_start_def)
  qed (use that in simp)
  have "plain_start (y @ q)" using assms(2,3) by (rule plain_append)
  then have "valid_string p" "valid_string (y @ q)" using front assms(1) by blast+
  then show ?thesis using front [of y q] assms(3) valid_append by blast
qed

lemma inside_cut:
  assumes "inside raw x f" "value_kind x = kindArray \<or> value_kind x = kindObject" "k < element_count x"
  obtains root' p q r where "parse_tree (cut_element raw x k) = Inr root'" "content root' = f (without x k)"
    "raw = p @ q @ r" "cut_element raw x k = p @ r" "length p \<le> fst (elements x) ! k" "snd (elements x) ! k \<le> length p + length q"
proof -
  obtain w s u n j m where d: "valid_string raw" "raw = w @ s @ u" "blank_text w" "blank_text u" "slot raw maxNesting (length w) s n j m x f"
    using assms(1) unfolding inside_def by blast
  obtain c d' where o: "s = c @ m @ d'" "j = length w + length c" "\<And>m' e. writes n m' e \<Longrightarrow> writes maxNesting (c @ m' @ d') (f e)"
    using d(5) unfolding slot_def by blast
  obtain a y b where y: "m = a @ y @ b" "plain_start y" "plain_start (b @ d' @ u)" "cut_range x k = (j + length a, j + length a + length y)"
    "writes n (a @ b) (without x k)" "j + length a \<le> fst (elements x) ! k" "snd (elements x) ! k \<le> j + length a + length y"
    using slot_cut [OF d(5) assms(2,3), of "d' @ u"] by blast
  define p where "p = w @ c @ a"
  define r where "r = b @ d' @ u"
  have raw: "raw = p @ y @ r" using d(2) o(1) y(1) by (simp add: p_def r_def)
  have cut: "cut_element raw x k = p @ r" using y(4) o(2) raw by (simp add: cut_element_def p_def)
  have "writes maxNesting (c @ (a @ b) @ d') (f (without x k))" by (rule o(3) [OF y(5)])
  then obtain v where v: "placed (p @ r) maxNesting (length w) (c @ (a @ b) @ d') v" "content v = f (without x k)" using writes_placed by blast
  have "valid_string (p @ r)" using valid_pieces [of p y r] d(1) raw y(2,3) by (simp add: r_def)
  then have "document_text (p @ r) v"
    unfolding document_text_def using v(1) d(3,4)
    by (intro conjI exI [of _ w] exI [of _ "c @ (a @ b) @ d'"] exI [of _ u]) (simp_all add: p_def r_def)
  then have "parse_tree (cut_element raw x k) = Inr v" unfolding cut parse_tree_document .
  then show thesis using v(2) raw cut by (rule that) (use y(6,7) o(2) in \<open>simp_all add: p_def\<close>)
qed

end
