(* ===== verification/Aws_Edit_Promises.thy ===== *)
theory Aws_Edit_Promises imports Aws_Edit_Laws begin

text \<open>
  The policy RemovePrincipal returns (parse/aws, edit.go), as a change of what the document says: the
  relation policy_edited is the specification, and remove_principal refines it.
\<close>

section \<open>The specification\<close>

type_synonym json_members = "(string \<times> json) list"

text \<open>A statement a principal may be removed from: its one Effect is Allow, and it has no NotPrincipal.\<close>

definition plain_allow :: "json_members \<Rightarrow> bool" where
  "plain_allow sm \<longleftrightarrow> map snd (filter (\<lambda>p. fst p = ''Effect'') sm) = [JString ''Allow''] \<and> list_all (\<lambda>p. fst p \<noteq> ''NotPrincipal'') sm"

text \<open>Some Principal of the statement names one principal and nothing else.\<close>

definition names_one :: "json_members \<Rightarrow> bool" where
  "names_one sm \<longleftrightarrow>
     list_ex (\<lambda>p. fst p = ''Principal'' \<and>
       (case snd p of JString t \<Rightarrow> True | JObject [(kind, JString t)] \<Rightarrow> True | JObject [(kind, JList [JString t])] \<Rightarrow> True | _ \<Rightarrow> False)) sm"

inductive narrowed :: "removed \<Rightarrow> json_members \<Rightarrow> json_members \<Rightarrow> bool" where
  kind_left_out: "p < length sm \<Longrightarrow> sm ! p = (''Principal'', JObject ps) \<Longrightarrow> k < length ps \<Longrightarrow> 1 < length ps \<Longrightarrow>
    snd (ps ! k) = JString t \<or> snd (ps ! k) = JList [JString t] \<Longrightarrow>
    narrowed RemovedKind sm (sm[p := (''Principal'', JObject (drop_at k ps))])"
| principal_left_out: "p < length sm \<Longrightarrow> sm ! p = (''Principal'', JObject ps) \<Longrightarrow> k < length ps \<Longrightarrow> ps ! k = (kind, JList us) \<Longrightarrow>
    i < length us \<Longrightarrow> 1 < length us \<Longrightarrow> us ! i = JString t \<Longrightarrow>
    narrowed RemovedPrincipal sm (sm[p := (''Principal'', JObject (ps[k := (kind, JList (drop_at i us))]))])"

inductive policy_edited :: "removed \<Rightarrow> json \<Rightarrow> json \<Rightarrow> bool" where
  only_statement: "i < length ms \<Longrightarrow> ms ! i = (''Statement'', JObject sm) \<Longrightarrow> plain_allow sm \<Longrightarrow> names_one sm \<Longrightarrow>
    policy_edited RemovedStatement (JObject ms) (JObject (drop_at i ms))"
| one_statement: "i < length ms \<Longrightarrow> ms ! i = (''Statement'', JList ss) \<Longrightarrow> k < length ss \<Longrightarrow> ss ! k = JObject sm \<Longrightarrow> plain_allow sm \<Longrightarrow> names_one sm \<Longrightarrow>
    policy_edited RemovedStatement (JObject ms) (JObject (ms[i := (''Statement'', JList (drop_at k ss))]))"
| only_narrowed: "i < length ms \<Longrightarrow> ms ! i = (''Statement'', JObject sm) \<Longrightarrow> plain_allow sm \<Longrightarrow> narrowed how sm sm' \<Longrightarrow>
    policy_edited how (JObject ms) (JObject (ms[i := (''Statement'', JObject sm')]))"
| one_narrowed: "i < length ms \<Longrightarrow> ms ! i = (''Statement'', JList ss) \<Longrightarrow> k < length ss \<Longrightarrow> ss ! k = JObject sm \<Longrightarrow> plain_allow sm \<Longrightarrow> narrowed how sm sm' \<Longrightarrow>
    policy_edited how (JObject ms) (JObject (ms[i := (''Statement'', JList (ss[k := JObject sm']))]))"

section \<open>What is found\<close>

text \<open>The string under a member of a Principal.\<close>

definition under_member :: "nat \<Rightarrow> nat \<Rightarrow> json_value \<Rightarrow> nat option \<Rightarrow> bool" where
  "under_member start finish v item \<longleftrightarrow>
     (case item of
        None \<Rightarrow> written_at start finish v
      | Some i \<Rightarrow> value_kind v = kindArray \<and> i < length (value_items v) \<and> written_at start finish (value_items v ! i))"

text \<open>Where the located string is: the value of a Principal, of a member of one, or an item of such a member's list.\<close>

definition found_at :: "nat \<Rightarrow> nat \<Rightarrow> json_value \<Rightarrow> located \<Rightarrow> bool" where
  "found_at start finish s r \<longleftrightarrow>
     located_statement r = s \<and>
     (\<exists>p < length (value_members s). member_name (value_members s ! p) = ''Principal'' \<and>
       (case located_principal r of
          None \<Rightarrow> written_at start finish (member_value (value_members s ! p))
        | Some (x, k, item) \<Rightarrow> x = member_value (value_members s ! p) \<and> value_kind x = kindObject \<and> k < length (value_members x) \<and>
under_member start finish (member_value (value_members x ! k)) item))"

lemma locate_item_found:
  "locate_item start finish i vs = Some j \<Longrightarrow> \<exists>k. j = i + k \<and> k < length vs \<and> written_at start finish (vs ! k)"
proof (induction vs arbitrary: i)
  case (Cons v vs)
  show ?case
  proof (cases "written_at start finish v")
    case False
    then have "locate_item start finish (i + 1) vs = Some j" using Cons.prems by simp
    from Cons.IH [OF this] obtain k where "j = i + 1 + k" "k < length vs" "written_at start finish (vs ! k)" by blast
    then show ?thesis by (intro exI [of _ "Suc k"]) simp
  qed (use Cons.prems in \<open>auto intro: exI [of _ 0]\<close>)
qed simp

lemma locate_member_Cons:
  "locate_member start finish l (pm # pms) = Some (j, item) \<longleftrightarrow>
     (if written_at start finish (member_value pm) then j = l \<and> item = None
      else if value_kind (member_value pm) = kindArray \<and> locate_item start finish 0 (value_items (member_value pm)) \<noteq> None
      then j = l \<and> item = locate_item start finish 0 (value_items (member_value pm))
      else locate_member start finish (l + 1) pms = Some (j, item))"
  by (cases "locate_item start finish 0 (value_items (member_value pm))") auto

lemma locate_member_found:
  "locate_member start finish l pms = Some (j, item) \<Longrightarrow> \<exists>k. j = l + k \<and> k < length pms \<and> under_member start finish (member_value (pms ! k)) item"
proof (induction pms arbitrary: l)
  case (Cons pm pms)
  show ?case
  proof (cases "written_at start finish (member_value pm)")
    case True
    then show ?thesis using Cons.prems by (intro exI [of _ 0]) (simp add: under_member_def)
  next
    case no: False
    show ?thesis
    proof (cases "value_kind (member_value pm) = kindArray \<and> locate_item start finish 0 (value_items (member_value pm)) \<noteq> None")
      case True
      then obtain i where i: "j = l" "item = Some i" "locate_item start finish 0 (value_items (member_value pm)) = Some i"
        using Cons.prems no unfolding locate_member_Cons by auto
      then show ?thesis using True locate_item_found [OF i(3)] by (intro exI [of _ 0]) (simp add: under_member_def)
    next
      case False
      then have "locate_member start finish (l + 1) pms = Some (j, item)" using Cons.prems no unfolding locate_member_Cons by (auto split: if_splits)
      from Cons.IH [OF this] obtain k where "j = l + 1 + k" "k < length pms" "under_member start finish (member_value (pms ! k)) item" by blast
      then show ?thesis by (intro exI [of _ "Suc k"]) simp
    qed
  qed
qed simp

lemma locate_in_Cons:
  "locate_in s start finish (m # ms) = Some r \<longleftrightarrow>
     (if member_name m = ''Principal'' \<and> written_at start finish (member_value m) then r = \<lparr>located_statement = s, located_principal = None\<rparr>
      else if member_name m = ''Principal'' \<and> value_kind (member_value m) = kindObject \<and> locate_member start finish 0 (value_members (member_value m)) \<noteq> None
      then \<exists>k item. locate_member start finish 0 (value_members (member_value m)) = Some (k, item) \<and>
        r = \<lparr>located_statement = s, located_principal = Some (member_value m, k, item)\<rparr>
      else locate_in s start finish ms = Some r)"
  by (cases "locate_member start finish 0 (value_members (member_value m))") auto

lemma locate_in_found:
  "locate_in s start finish ms = Some r \<Longrightarrow> (\<And>p. p < length ms \<Longrightarrow> value_members s ! (q + p) = ms ! p \<and> q + p < length (value_members s)) \<Longrightarrow>
    found_at start finish s r"
proof (induction ms arbitrary: q)
  case (Cons m ms)
  have m: "value_members s ! q = m" "q < length (value_members s)" using Cons.prems(2) [of 0] by simp_all
  show ?case
  proof (cases "member_name m = ''Principal'' \<and> written_at start finish (member_value m)")
    case True
    then show ?thesis using Cons.prems(1) m unfolding locate_in_Cons found_at_def by (intro conjI exI [of _ q]) simp_all
  next
    case no: False
    show ?thesis
    proof (cases "member_name m = ''Principal'' \<and> value_kind (member_value m) = kindObject \<and> locate_member start finish 0 (value_members (member_value m)) \<noteq> None")
      case True
      then obtain k item where k: "locate_member start finish 0 (value_members (member_value m)) = Some (k, item)"
        "r = \<lparr>located_statement = s, located_principal = Some (member_value m, k, item)\<rparr>"
        using Cons.prems(1) no unfolding locate_in_Cons by auto
      then show ?thesis using True m locate_member_found [OF k(1)] unfolding found_at_def by (intro conjI exI [of _ q]) simp_all
    next
      case False
      then have later: "locate_in s start finish ms = Some r" using Cons.prems(1) no unfolding locate_in_Cons by (simp split: if_splits)
      show ?thesis by (rule Cons.IH [OF later, of "Suc q"]) (use Cons.prems(2) [of "Suc p" for p] in simp)
    qed
  qed
qed simp

lemma locate_found: "locate s start finish = Some r \<Longrightarrow> found_at start finish s r"
  unfolding locate_def by (rule locate_in_found [where q = 0]) simp_all

text \<open>The statement the removal works on, and the value that holds it.\<close>

definition statement_found :: "string \<Rightarrow> nat \<Rightarrow> nat \<Rightarrow> json_value \<Rightarrow> edit_error + string \<times> removed \<Rightarrow> bool" where
  "statement_found raw start finish root result \<longleftrightarrow>
     (\<exists>i < length (value_members root). member_name (value_members root ! i) = ''Statement'' \<and>
       (let m = member_value (value_members root ! i) in
        (\<exists>r. value_kind m = kindObject \<and> found_at start finish m r \<and> result = remove r raw root i) \<or>
        (\<exists>j < length (value_items m). \<exists>r. value_kind m = kindArray \<and> value_kind (value_items m ! j) = kindObject \<and>
           found_at start finish (value_items m ! j) r \<and> result = remove r raw m j)))"

lemma remove_among_Cons:
  "remove_among raw start finish holder q (s # ss) = Some result \<longleftrightarrow>
     (if value_kind s = kindObject \<and> locate s start finish \<noteq> None then \<exists>r. locate s start finish = Some r \<and> result = remove r raw holder q
      else remove_among raw start finish holder (q + 1) ss = Some result)"
  by (cases "locate s start finish") auto

lemma remove_among_found:
  "remove_among raw start finish holder q ss = Some result \<Longrightarrow> (\<And>p. p < length ss \<Longrightarrow> value_items holder ! (q + p) = ss ! p \<and> q + p < length (value_items holder)) \<Longrightarrow>
    \<exists>j < length (value_items holder). \<exists>r. value_kind (value_items holder ! j) = kindObject \<and> found_at start finish (value_items holder ! j) r \<and> result = remove r raw holder j"
proof (induction ss arbitrary: q)
  case (Cons s ss)
  have s: "value_items holder ! q = s" "q < length (value_items holder)" using Cons.prems(2) [of 0] by simp_all
  show ?case
  proof (cases "value_kind s = kindObject \<and> locate s start finish \<noteq> None")
    case True
    then obtain r where "locate s start finish = Some r" "result = remove r raw holder q" using Cons.prems(1) unfolding remove_among_Cons by auto
    then show ?thesis using True s locate_found by blast
  next
    case False
    then have later: "remove_among raw start finish holder (q + 1) ss = Some result" using Cons.prems(1) unfolding remove_among_Cons by (simp split: if_splits)
    show ?thesis by (rule Cons.IH [OF later]) (use Cons.prems(2) [of "Suc p" for p] in simp)
  qed
qed simp

lemma remove_from_found:
  "remove_from raw start finish root q ms = Inr out \<Longrightarrow> (\<And>p. p < length ms \<Longrightarrow> value_members root ! (q + p) = ms ! p \<and> q + p < length (value_members root)) \<Longrightarrow>
    statement_found raw start finish root (Inr out)"
proof (induction ms arbitrary: q)
  case (Cons m ms)
  have m: "value_members root ! q = m" "q < length (value_members root)" using Cons.prems(2) [of 0] by simp_all
  have again: ?case if later: "remove_from raw start finish root (q + 1) ms = Inr out"
    by (rule Cons.IH [OF later]) (use Cons.prems(2) [of "Suc p" for p] in simp)
  show ?case
  proof (cases "member_name m = ''Statement''")
    case True
    consider "value_kind (member_value m) = kindObject" | "value_kind (member_value m) = kindArray"
      | "value_kind (member_value m) \<noteq> kindObject" "value_kind (member_value m) \<noteq> kindArray" by blast
    then show ?thesis
    proof cases
      case 1
      show ?thesis
      proof (cases "locate (member_value m) start finish")
        case None
        then show ?thesis using Cons.prems(1) True 1 again by simp
      next
        case (Some r)
        then have "Inr out = remove r raw root q" using Cons.prems(1) True 1 by simp
        then show ?thesis using m 1 True locate_found [OF Some] unfolding statement_found_def Let_def by blast
      qed
    next
      case 2
      show ?thesis
      proof (cases "remove_among raw start finish (member_value m) 0 (value_items (member_value m))")
        case None
        then show ?thesis using Cons.prems(1) True 2 again by simp
      next
        case (Some r)
        then have "r = Inr out" using Cons.prems(1) True 2 by simp
        with remove_among_found [OF Some] obtain j r' where "j < length (value_items (member_value m))" "value_kind (value_items (member_value m) ! j) = kindObject"
          "found_at start finish (value_items (member_value m) ! j) r'" "Inr out = remove r' raw (member_value m) j" by auto
        then show ?thesis using m 2 True unfolding statement_found_def Let_def by blast
      qed
    qed (use Cons.prems(1) True again in simp)
  qed (use Cons.prems(1) again in simp)
qed simp

section \<open>Where values lie\<close>

text \<open>The parts of a value lie within its own bytes.\<close>

lemma within_item:
  assumes "inside raw x f" "value_kind x = kindArray" "k < length (value_items x)"
  shows "value_start x \<le> value_start (value_items x ! k) \<and> value_end (value_items x ! k) \<le> value_end x"
proof -
  obtain w :: string and s n j m where d: "slot raw maxNesting (length w) s n j m x f" using assms(1) unfolding inside_def by blast
  obtain n' t where t: "m = CHR ''['' # t @ '']''" "sequenced (placed raw n') True (j + 1) t (value_items x)" "value_start x = j" "value_end x = j + length m"
    using slot_kinds(1) [OF d assms(2)] by blast
  obtain a u b where "t = a @ u @ b" "placed raw n' (j + 1 + length a) u (value_items x ! k)" using items.replace [OF t(2) assms(3)] by blast
  then show ?thesis using t placed_place by fastforce
qed

lemma within_member:
  assumes "inside raw x f" "value_kind x = kindObject" "k < length (value_members x)"
  shows "value_start x \<le> member_start (value_members x ! k) \<and> member_start (value_members x ! k) \<le> value_start (member_value (value_members x ! k)) \<and>
    value_end (member_value (value_members x ! k)) \<le> value_end x"
proof -
  obtain w :: string and s n j m where d: "slot raw maxNesting (length w) s n j m x f" using assms(1) unfolding inside_def by blast
  obtain n' t where t: "m = CHR ''{'' # t @ ''}''" "sequenced (placed_member raw n') True (j + 1) t (value_members x)" "value_start x = j" "value_end x = j + length m"
    using slot_kinds(2) [OF d assms(2)] by blast
  obtain a u b where a: "t = a @ u @ b" "placed_member raw n' (j + 1 + length a) u (value_members x ! k)" using members.replace [OF t(2) assms(3)] by blast
  then obtain y l c v e where y: "u = l @ c @ e" "value_members x ! k = Member y v (j + 1 + length a)" "placed raw n' (j + 1 + length a + length l + length c) e v"
    unfolding placed_member_def by blast
  show ?thesis using t a(1) y placed_place [OF y(3)] by simp
qed

section \<open>What remove decides\<close>

lemma allow_effect_last:
  "allow_effect ms = (length es, es \<noteq> [] \<and> content (member_value (last es)) = JString ''Allow'')" if "es = filter (\<lambda>m. member_name m = ''Effect'') ms"
  using that
proof (induction ms arbitrary: es rule: rev_induct)
  case (snoc m ms)
  have "content v = JString ''Allow'' \<longleftrightarrow> value_kind v = kindString \<and> value_text v = ''Allow''" for v
    by (cases v) (simp split: kind.splits)
  then show ?case using snoc by (simp add: allow_effect_def)
qed (simp add: allow_effect_def)

lemma plain_allow_effect:
  "allow_effect ms = (1, True) \<Longrightarrow> \<not> names_excluded ms \<Longrightarrow> plain_allow (map content_member ms)"
proof -
  assume a: "allow_effect ms = (1, True)" and n: "\<not> names_excluded ms"
  define es where "es = filter (\<lambda>m. member_name m = ''Effect'') ms"
  have "length es = 1" "content (member_value (last es)) = JString ''Allow''" using a allow_effect_last [OF es_def] by auto
  then have "map (\<lambda>m. content (member_value m)) es = [JString ''Allow'']" by (cases es) auto
  then have "map snd (filter (\<lambda>p. fst p = ''Effect'') (map content_member ms)) = [JString ''Allow'']"
    by (simp add: es_def filter_map comp_def content_member_parts)
  moreover have "list_all (\<lambda>p. fst p \<noteq> ''NotPrincipal'') (map content_member ms)"
    using n by (simp add: names_excluded_def list_all_iff list_ex_iff content_member_parts)
  ultimately show ?thesis by (simp add: plain_allow_def)
qed

text \<open>The branches of remove that edit, each with what it cuts.\<close>

lemma remove_edits:
  assumes "remove r raw holder at = Inr (out, how)"
  obtains (statement) "how = RemovedStatement" "out = cut_element raw holder at" "located_principal r = None"
    | (last) x k item where "how = RemovedStatement" "out = cut_element raw holder at" "located_principal r = Some (x, k, item)" "length (value_members x) \<le> 1"
        "item \<noteq> None \<longrightarrow> length (value_items (member_value (value_members x ! k))) \<le> 1"
    | (kind) x k item where "how = RemovedKind" "out = cut_element raw x k" "located_principal r = Some (x, k, item)" "1 < length (value_members x)"
        "item \<noteq> None \<longrightarrow> length (value_items (member_value (value_members x ! k))) \<le> 1"
    | (item) x k i where "how = RemovedPrincipal" "out = cut_element raw (member_value (value_members x ! k)) i" "located_principal r = Some (x, k, Some i)"
        "1 < length (value_items (member_value (value_members x ! k)))"
proof (cases "located_principal r")
  case None
  then show thesis using assms statement by (auto simp: remove_def Let_def split: prod.splits if_splits)
next
  case (Some q)
  obtain x k item where q: "q = (x, k, item)" by (cases q) auto
  show thesis
  proof (cases "item \<noteq> None \<and> 1 < length (value_items (member_value (value_members x ! k)))")
    case True
    then obtain i where "item = Some i" by auto
    then have "how = RemovedPrincipal" "out = cut_element raw (member_value (value_members x ! k)) i"
      using assms Some q True by (simp_all add: remove_def Let_def split: prod.splits if_splits)
    then show thesis using that(4) Some q \<open>item = Some i\<close> True by blast
  next
    case False
    then have i: "item \<noteq> None \<longrightarrow> length (value_items (member_value (value_members x ! k))) \<le> 1" by auto
    have "(how, out) = (if 1 < length (value_members x) then (RemovedKind, cut_element raw x k) else (RemovedStatement, cut_element raw holder at))"
      using assms Some q False by (cases item) (simp_all add: remove_def Let_def split: prod.splits if_splits)
    then show thesis using that(2,3) [OF _ _ Some [unfolded q] _ i] by (cases "1 < length (value_members x)") simp_all
  qed
qed

lemma remove_allows: "remove r raw holder at = Inr result \<Longrightarrow> plain_allow (map content_member (value_members (located_statement r)))"
  by (rule plain_allow_effect) (auto simp: remove_def Let_def split: prod.splits if_splits)

section \<open>The edit of one statement\<close>

text \<open>out is raw without one run of bytes, and the run takes in the bytes from start to finish.\<close>

definition cuts_around :: "nat \<Rightarrow> nat \<Rightarrow> string \<Rightarrow> string \<Rightarrow> bool" where
  "cuts_around start finish raw out \<longleftrightarrow> (\<exists>p q u. raw = p @ q @ u \<and> out = p @ u \<and> length p \<le> start \<and> finish \<le> length p + length q)"

lemma cut_document:
  assumes "inside raw x f" "value_kind x = kindArray \<or> value_kind x = kindObject" "k < element_count x"
    and "fst (elements x) ! k \<le> start" "finish \<le> snd (elements x) ! k"
  shows "\<exists>root'. parse_tree (cut_element raw x k) = Inr root' \<and> content root' = f (without x k) \<and> cuts_around start finish raw (cut_element raw x k)"
proof -
  obtain root' p q r where "parse_tree (cut_element raw x k) = Inr root'" "content root' = f (without x k)"
    "raw = p @ q @ r" "cut_element raw x k = p @ r" "length p \<le> fst (elements x) ! k" "snd (elements x) ! k \<le> length p + length q"
    by (rule inside_cut [OF assms(1-3)])
  then show ?thesis using assms(4,5) unfolding cuts_around_def by (metis le_trans)
qed

lemma written_content: "written_at start finish v \<Longrightarrow> \<exists>t. content v = JString t"
  by (cases v) (simp add: written_at_def)

lemma single: "length xs \<le> 1 \<Longrightarrow> k < length xs \<Longrightarrow> xs = [xs ! k]"
  by (cases xs) simp_all

lemma item_texts:
  assumes "under_member start finish v item" "item \<noteq> None \<longrightarrow> length (value_items v) \<le> 1"
  obtains t where "content v = JString t \<or> content v = JList [JString t]"
proof (cases item)
  case None
  then show thesis using assms(1) written_content that by (fastforce simp: under_member_def)
next
  case (Some i)
  then have v: "value_kind v = kindArray" "i < length (value_items v)" "written_at start finish (value_items v ! i)" "length (value_items v) \<le> 1"
    using assms by (simp_all add: under_member_def)
  obtain t where "content (value_items v ! i) = JString t" using written_content [OF v(3)] by blast
  moreover have "value_items v = [value_items v ! i]" by (rule single [OF v(4,2)])
  ultimately have "content v = JList [JString t]" using content_kind(2) [OF v(1)] by (metis list.simps(8,9))
  then show thesis using that by blast
qed

text \<open>The string found lies within the statement, and names all there is where the statement goes as a whole.\<close>

lemma under_within:
  assumes "under_member start finish v item" "inside raw v f"
  shows "value_start v \<le> start \<and> finish \<le> value_end v"
proof (cases item)
  case (Some i)
  then show ?thesis using assms within_item [OF assms(2), of i] by (simp add: under_member_def written_at_def)
qed (use assms(1) in \<open>simp add: under_member_def written_at_def\<close>)

lemma found_within:
  assumes "found_at start finish s r" "value_kind s = kindObject" "inside raw s f"
  shows "value_start s \<le> start \<and> finish \<le> value_end s"
proof -
  obtain p where p: "p < length (value_members s)" "case located_principal r of None \<Rightarrow> written_at start finish (member_value (value_members s ! p))
      | Some (x, k, item) \<Rightarrow> x = member_value (value_members s ! p) \<and> value_kind x = kindObject \<and> k < length (value_members x) \<and>
          under_member start finish (member_value (value_members x ! k)) item"
    using assms(1) unfolding found_at_def by blast
  note m = within_member [OF assms(3,2) p(1)]
  note i = inside_member [OF assms(3,2) p(1)]
  show ?thesis
  proof (cases "located_principal r")
    case None
    then show ?thesis using p(2) m by (simp add: written_at_def)
  next
    case (Some q)
    then obtain k item where k: "value_kind (member_value (value_members s ! p)) = kindObject" "k < length (value_members (member_value (value_members s ! p)))"
      "under_member start finish (member_value (value_members (member_value (value_members s ! p)) ! k)) item"
      using p(2) by (cases q) auto
    show ?thesis using m within_member [OF i k(1,2)] under_within [OF k(3) inside_member [OF i k(1,2)]] by simp
  qed
qed

lemma found_alone:
  assumes "found_at start finish s r"
    and "located_principal r = None \<or> (\<exists>x k item. located_principal r = Some (x, k, item) \<and> length (value_members x) \<le> 1 \<and>
      (item \<noteq> None \<longrightarrow> length (value_items (member_value (value_members x ! k))) \<le> 1))"
  shows "names_one (map content_member (value_members s))"
proof -
  obtain p where p: "p < length (value_members s)" "member_name (value_members s ! p) = ''Principal''"
    "case located_principal r of None \<Rightarrow> written_at start finish (member_value (value_members s ! p))
      | Some (x, k, item) \<Rightarrow> x = member_value (value_members s ! p) \<and> value_kind x = kindObject \<and> k < length (value_members x) \<and>
          under_member start finish (member_value (value_members x ! k)) item"
    using assms(1) unfolding found_at_def by blast
  have m: "content_member (value_members s ! p) \<in> set (map content_member (value_members s))" using p(1) by simp
  have "case content (member_value (value_members s ! p)) of JString t \<Rightarrow> True | JObject [(kind, JString t)] \<Rightarrow> True | JObject [(kind, JList [JString t])] \<Rightarrow> True | _ \<Rightarrow> False"
  proof (cases "located_principal r")
    case None
    then show ?thesis using p(3) written_content by fastforce
  next
    case (Some q)
    then obtain x k item where k: "x = member_value (value_members s ! p)" "value_kind x = kindObject" "k < length (value_members x)"
      "under_member start finish (member_value (value_members x ! k)) item" "length (value_members x) \<le> 1"
      "item \<noteq> None \<longrightarrow> length (value_items (member_value (value_members x ! k))) \<le> 1"
      using p(3) assms(2) by auto
    obtain t where t: "content (member_value (value_members x ! k)) = JString t \<or> content (member_value (value_members x ! k)) = JList [JString t]"
      by (rule item_texts [OF k(4,6)])
    have "content x = JObject [content_member (value_members x ! k)]" using content_kind(1) [OF k(2)] single [OF k(5,3)] by (metis list.simps(8,9))
    then show ?thesis using t k(1) by (auto simp: content_member_parts(3))
  qed
  then show ?thesis unfolding names_one_def list_ex_iff by (intro bexI [OF _ m]) (simp add: content_member_parts(3) p(2))
qed

lemma found_principal:
  assumes "found_at start finish s r" "located_principal r = Some (x, k, item)"
  obtains p where "p < length (value_members s)" "member_name (value_members s ! p) = ''Principal''" "x = member_value (value_members s ! p)"
    "value_kind x = kindObject" "k < length (value_members x)" "under_member start finish (member_value (value_members x ! k)) item"
  using assms unfolding found_at_def by auto

lemma statement_edit:
  assumes found: "found_at start finish s r" and obj: "value_kind s = kindObject" and f: "inside raw s f"
    and r: "remove r raw holder at = Inr (out, how)"
    and g: "inside raw holder g" "value_kind holder = kindArray \<or> value_kind holder = kindObject" "at < element_count holder"
    and "fst (elements holder) ! at \<le> value_start s" "value_end s \<le> snd (elements holder) ! at"
    and sm: "sm = map content_member (value_members s)"
  shows "\<exists>root'. parse_tree out = Inr root' \<and> cuts_around start finish raw out \<and>
    (how = RemovedStatement \<and> names_one sm \<and> content root' = g (without holder at) \<or> (\<exists>sm'. narrowed how sm sm' \<and> content root' = f (JObject sm')))"
proof -
  have w: "fst (elements holder) ! at \<le> start" "finish \<le> snd (elements holder) ! at"
    using found_within [OF found obj f] assms(8,9) by simp_all
  note whole = cut_document [OF g w]
  show ?thesis
    using r
  proof (cases rule: remove_edits)
    case statement
    then show ?thesis using whole found_alone [OF found] sm by blast
  next
    case (last x k item)
    then show ?thesis using whole found_alone [OF found] sm by blast
  next
    case (kind x k item)
    obtain p where p: "p < length (value_members s)" "member_name (value_members s ! p) = ''Principal''" "x = member_value (value_members s ! p)"
      "value_kind x = kindObject" "k < length (value_members x)" "under_member start finish (member_value (value_members x ! k)) item"
      by (rule found_principal [OF found kind(3)])
    note i = inside_member [OF f obj p(1), folded p(3)]
    have arr: "value_items x = []"
    proof -
      obtain w' :: string and s' n j m g' where "slot raw maxNesting (length w') s' n j m x g'" using i unfolding inside_def by blast
      then show ?thesis using slot_kinds(2) p(4) by blast
    qed
    have e: "k < element_count x" "fst (elements x) ! k \<le> start" "finish \<le> snd (elements x) ! k"
      using p(5) arr under_within [OF p(6) inside_member [OF i p(4,5)]] within_member [OF i p(4,5)] by (simp_all add: element_count_def elements_def)
    obtain root' where root': "parse_tree out = Inr root'" "cuts_around start finish raw out"
      "content root' = f (JObject (sm[p := (''Principal'', without x k)]))"
      using cut_document [OF i disjI2 [OF p(4)] e] kind(2) p(2) sm by auto
    obtain t where t: "content (member_value (value_members x ! k)) = JString t \<or> content (member_value (value_members x ! k)) = JList [JString t]"
      by (rule item_texts [OF p(6) kind(5)])
    have "narrowed RemovedKind sm (sm[p := (''Principal'', JObject (drop_at k (map content_member (value_members x))))])"
      by (rule kind_left_out) (use p kind(4) t sm content_kind(1) [OF p(4)] in \<open>simp_all add: content_member_parts\<close>)
    then show ?thesis using root' kind(1) p(4) by (auto simp: without_def)
  next
    case (item x k l)
    obtain p where p: "p < length (value_members s)" "member_name (value_members s ! p) = ''Principal''" "x = member_value (value_members s ! p)"
      "value_kind x = kindObject" "k < length (value_members x)" "under_member start finish (member_value (value_members x ! k)) (Some l)"
      by (rule found_principal [OF found item(3)])
    define y where "y = member_value (value_members x ! k)"
    have y: "value_kind y = kindArray" "l < length (value_items y)" "written_at start finish (value_items y ! l)"
      using p(6) by (simp_all add: under_member_def y_def)
    note i = inside_member [OF inside_member [OF f obj p(1), folded p(3)] p(4,5), folded y_def]
    have mem: "value_members y = []"
    proof -
      obtain w' :: string and s' n j m g' where "slot raw maxNesting (length w') s' n j m y g'" using i unfolding inside_def by blast
      then show ?thesis using slot_kinds(1) y(1) by blast
    qed
    have e: "l < element_count y" "fst (elements y) ! l \<le> start" "finish \<le> snd (elements y) ! l"
      using y mem by (simp_all add: element_count_def elements_def written_at_def)
    obtain root' where root': "parse_tree out = Inr root'" "cuts_around start finish raw out"
      "content root' = f (JObject (sm[p := (''Principal'', JObject ((map content_member (value_members x))[k := (member_name (value_members x ! k), without y l)]))]))"
      using cut_document [OF i disjI1 [OF y(1)] e] item(2) p(2) sm by (auto simp: y_def)
    obtain t where t: "content (value_items y ! l) = JString t" using written_content [OF y(3)] by blast
    have "narrowed RemovedPrincipal sm (sm[p := (''Principal'', JObject ((map content_member (value_members x))
        [k := (member_name (value_members x ! k), JList (drop_at l (map content (value_items y))))]))])"
      by (rule principal_left_out)
        (use p item(4) t sm y(2) content_kind(1) [OF p(4)] content_kind(2) [OF y(1)] in \<open>simp_all add: content_member_parts y_def\<close>)
    then show ?thesis using root' item(1) y(1) by (auto simp: without_def)
  qed
qed

section \<open>The edit of a policy\<close>

lemma only_members: "inside raw x f \<Longrightarrow> value_kind x = kindObject \<Longrightarrow> value_items x = []"
  "inside raw x f \<Longrightarrow> value_kind x = kindArray \<Longrightarrow> value_members x = []"
  using slot_kinds unfolding inside_def by metis+

text \<open>C12: RemovePrincipal takes out what it says and nothing else: a policy it returns is read back, and
  says what the given one says but for one piece, the statement, the member of Principal or the
  principal that the second result names. The statement it edits is an Allow written once with no
  NotPrincipal; one of its Principals loses a principal and keeps others, or the statement goes as a
  whole where it names that principal alone. The bytes are those given less one run of them, and the
  run takes in the principal's own.\<close>

theorem removal_leaves_the_rest:
  "remove_principal raw start finish = Inr (out, how) \<Longrightarrow>
    \<exists>root root'. parse_tree raw = Inr root \<and> parse_tree out = Inr root' \<and>
      policy_edited how (content root) (content root') \<and> cuts_around start finish raw out"
proof -
  assume "remove_principal raw start finish = Inr (out, how)"
  then obtain root where root: "parse_tree raw = Inr root" "value_kind root = kindObject" "statement_found raw start finish root (Inr (out, how))"
    using remove_from_found [where q = 0 and root = root and ms = "value_members root" for root]
    by (auto simp: remove_principal_def split: sum.splits if_splits)
  note top = inside_root [OF root(1)]
  obtain i where i: "i < length (value_members root)" "member_name (value_members root ! i) = ''Statement''"
    and alt: "(\<exists>r. value_kind (member_value (value_members root ! i)) = kindObject \<and> found_at start finish (member_value (value_members root ! i)) r \<and>
        Inr (out, how) = remove r raw root i) \<or>
      (\<exists>j < length (value_items (member_value (value_members root ! i))). \<exists>r. value_kind (member_value (value_members root ! i)) = kindArray \<and>
         value_kind (value_items (member_value (value_members root ! i)) ! j) = kindObject \<and>
         found_at start finish (value_items (member_value (value_members root ! i)) ! j) r \<and> Inr (out, how) = remove r raw (member_value (value_members root ! i)) j)"
    using root(3) unfolding statement_found_def Let_def by blast
  define m where "m = member_value (value_members root ! i)"
  note m = inside_member [OF top root(2) i(1), folded m_def]
  define ms where "ms = map content_member (value_members root)"
  have ms: "content root = JObject ms" "i < length ms" "ms ! i = (''Statement'', content m)" "content_member (value_members root ! i) = (''Statement'', content m)"
    using content_kind(1) [OF root(2)] i by (simp_all add: ms_def m_def content_member_parts)
  have at: "i < element_count root" "fst (elements root) ! i \<le> value_start m" "value_end m \<le> snd (elements root) ! i"
    using i(1) within_member [OF top root(2) i(1)] only_members(1) [OF top root(2)] by (simp_all add: element_count_def elements_def m_def)
  show ?thesis
    using alt unfolding m_def [symmetric]
  proof (elim disjE exE conjE)
    fix r
    assume r: "value_kind m = kindObject" "found_at start finish m r" "Inr (out, how) = remove r raw root i"
    define sm where "sm = map content_member (value_members m)"
    have c: "content m = JObject sm" using content_kind(1) [OF r(1)] by (simp add: sm_def)
    have allow: "plain_allow sm" using remove_allows [OF r(3) [symmetric]] r(2) by (simp add: sm_def found_at_def)
    show ?thesis
      using statement_edit [OF r(2,1) m r(3) [symmetric] top disjI2 [OF root(2)] at sm_def] root(1,2) ms allow i(2)
        only_statement [of i ms sm] only_narrowed [of i ms sm how] unfolding c without_def
      by (auto simp: ms_def)
  next
    fix j r
    assume r: "j < length (value_items m)" "value_kind m = kindArray" "value_kind (value_items m ! j) = kindObject" "found_at start finish (value_items m ! j) r"
      "Inr (out, how) = remove r raw m j"
    define sm where "sm = map content_member (value_members (value_items m ! j))"
    define ss where "ss = map content (value_items m)"
    have c: "content m = JList ss" "ss ! j = JObject sm" "j < length ss"
      using content_kind(2) [OF r(2)] content_kind(1) [OF r(3)] r(1) by (simp_all add: sm_def ss_def)
    have allow: "plain_allow sm" using remove_allows [OF r(5) [symmetric]] r(4) by (simp add: sm_def found_at_def)
    have e: "j < element_count m" "fst (elements m) ! j \<le> value_start (value_items m ! j)" "value_end (value_items m ! j) \<le> snd (elements m) ! j"
      using r(1) only_members(2) [OF m r(2)] by (simp_all add: element_count_def elements_def)
    show ?thesis
      using statement_edit [OF r(4,3) inside_item [OF m r(2,1)] r(5) [symmetric] m disjI1 [OF r(2)] e sm_def] root(1) ms allow i(2) c r(2)
        one_statement [of i ms ss j sm] one_narrowed [of i ms ss j sm how] unfolding without_def
      by (auto simp: ms_def ss_def)
  qed
qed

definition two_names :: string where
  "two_names = (''{'' @ [dquote] @ ''Statement'' @ [dquote] @ '':[{'' @ [dquote] @ ''Effect'' @ [dquote] @ '':'' @ [dquote] @ ''Allow'' @ [dquote] @ '','' @ [dquote] @ ''Principal'' @ [dquote] @ '':{'' @ [dquote] @ ''AWS'' @ [dquote] @ '':['' @ [dquote] @ ''ab'' @ [dquote] @ '','' @ [dquote] @ ''c'' @ [dquote] @ '']}}]}'')"

theorem removal_leaves_the_rest_witness:
  "\<exists>out root root'. remove_principal two_names 52 56 = Inr (out, RemovedPrincipal) \<and> parse_tree two_names = Inr root \<and> parse_tree out = Inr root' \<and>
    policy_edited RemovedPrincipal (content root) (content root') \<and> cuts_around 52 56 two_names out"
proof -
  have r: "remove_principal two_names 52 56 = Inr ((''{'' @ [dquote] @ ''Statement'' @ [dquote] @ '':[{'' @ [dquote] @ ''Effect'' @ [dquote] @ '':'' @ [dquote] @ ''Allow'' @ [dquote] @ '','' @ [dquote] @ ''Principal'' @ [dquote] @ '':{'' @ [dquote] @ ''AWS'' @ [dquote] @ '':['' @ [dquote] @ ''c'' @ [dquote] @ '']}}]}''), RemovedPrincipal)" by code_simp
  show ?thesis using removal_leaves_the_rest [OF r] r by blast
qed

end
