(* ===== verification/Aws_Edit_Deny.thy ===== *)
theory Aws_Edit_Deny imports Aws_Edit_Promises begin

text \<open>
  The policy LetNoOneIn returns (parse/aws, edit.go), read back: one statement that denies everyone,
  after the Version the policy given writes.
\<close>

section \<open>Plain texts in quotes\<close>

definition plain_text :: "string \<Rightarrow> bool" where
  "plain_text x \<longleftrightarrow> list_all (\<lambda>c. 32 \<le> byte c \<and> c \<noteq> dquote \<and> c \<noteq> backslash) x"

definition quoted_text :: "string \<Rightarrow> string" where
  "quoted_text x = [dquote] @ x @ [dquote]"

lemma plain_body: "plain_text x \<Longrightarrow> string_body (x @ [dquote]) = Inr (x, [])"
  by (induction x) (simp_all add: plain_text_def string_body_plain prepend_def)

lemma plain_lone: "plain_text x \<Longrightarrow> lone_from i (length x + 1) (x @ [dquote]) = None"
proof (induction x arbitrary: i)
  case Nil
  then show ?case using backslash_byte(2) [symmetric] by (simp add: lone_plain)
next
  case (Cons c x)
  then show ?case by (simp add: plain_text_def lone_plain)
qed

lemma plain_literal: "plain_text x \<Longrightarrow> literal (TokString x) (quoted_text x)"
  using plain_body [of x] plain_lone [of x 1] backslash_byte(2) [symmetric]
  by (simp add: literal_def quoted_text_def whole_text_def lone_plain)

lemma writes_text: "literal (TokString x) l \<Longrightarrow> writes n l (JString x)"
  unfolding writes_def by (rule exI [of _ "scalar_value [] (TokString x) 0 (0 + length l)"])
    (use a_scalar [of "TokString x" l "[]" n 0] in \<open>auto simp: literal_def\<close>)

lemma writes_pair: "plain_text x \<Longrightarrow> writes n t j \<Longrightarrow> writes_member n (quoted_text x @ '': '' @ t) (x, j)"
proof -
  assume "plain_text x" "writes n t j"
  moreover have "around (CHR '':'') '': ''"
    unfolding around_def by (rule exI [of _ "[]"], rule exI [of _ "'' ''"]) (simp add: blank_text_def json_space_def)
  ultimately show ?thesis using plain_literal unfolding writes_member_def by blast
qed

section \<open>The statement that denies everyone\<close>

definition denied :: json where
  "denied = JObject [(''Sid'', JString ''DenyEveryone''), (''Effect'', JString ''Deny''), (''Principal'', JObject [(''AWS'', JString ''*'')]),
     (''Action'', JString ''sts:AssumeRole'')]"

lemma newline_blank [simp]: "json_space (chr 10)" "json_space (CHR '' '')"
  by (simp add: json_space_def, simp add: json_space_def byte_def)

lemma after_newline: "blank_text (newline @ w) \<longleftrightarrow> blank_text w" "blank_text (CHR '' '' # w) \<longleftrightarrow> blank_text w"
  by (simp_all add: blank_text_def newline_def)

lemma first_piece: "blank_text w \<Longrightarrow> separates True w"
  by (simp add: separates_def)

lemma next_piece: "blank_text w \<Longrightarrow> separates False (CHR '','' # w)"
  unfolding separates_def around_def by (simp, rule exI [of _ "[]"], rule exI [of _ w]) simp

lemma writes_whom: "writes (Suc n) (''{'' @ (quoted_text ''AWS'' @ '': '' @ quoted_text ''*'') @ ''}'') (JObject [(''AWS'', JString ''*'')])"
proof -
  have "writes_member n (quoted_text ''AWS'' @ '': '' @ quoted_text ''*'') (''AWS'', JString ''*'')"
    by (rule writes_pair, simp add: plain_text_def byte_def dquote_def backslash_def, rule writes_text, rule plain_literal,
        simp add: plain_text_def byte_def dquote_def backslash_def)
  then have "sequenced (\<lambda>_. writes_member n) True 0 ([] @ (quoted_text ''AWS'' @ '': '' @ quoted_text ''*'') @ []) [(''AWS'', JString ''*'')]"
    by (intro seq_more seq_end) (simp_all add: separates_def)
  from writes_object [OF this] show ?thesis by simp
qed

lemma plain_words: "plain_text ''Sid''" "plain_text ''DenyEveryone''" "plain_text ''Effect''" "plain_text ''Deny''" "plain_text ''Principal''"
  "plain_text ''Action''" "plain_text ''sts:AssumeRole''" "plain_text ''Statement''" "plain_text ''Version''"
  by (simp_all add: plain_text_def byte_def dquote_def backslash_def)

definition denied_text :: string where
  "denied_text =
     ''{'' @ (newline @ ''      '') @ (quoted_text ''Sid'' @ '': '' @ quoted_text ''DenyEveryone'') @
     ('','' @ newline @ ''      '') @ (quoted_text ''Effect'' @ '': '' @ quoted_text ''Deny'') @
     ('','' @ newline @ ''      '') @ (quoted_text ''Principal'' @ '': '' @ ''{'' @ (quoted_text ''AWS'' @ '': '' @ quoted_text ''*'') @ ''}'') @
     ('','' @ newline @ ''      '') @ (quoted_text ''Action'' @ '': '' @ quoted_text ''sts:AssumeRole'') @ (newline @ ''    '') @ ''}''"

lemma writes_denied: "writes (Suc (Suc n)) denied_text denied"
proof -
  have b: "blank_text (newline @ ''      '')" "blank_text (newline @ ''    '')" by (simp_all add: blank_text_def newline_def)
  have "sequenced (\<lambda>_. writes_member (Suc n)) True 0
    ((newline @ ''      '') @ (quoted_text ''Sid'' @ '': '' @ quoted_text ''DenyEveryone'') @
     ('','' @ newline @ ''      '') @ (quoted_text ''Effect'' @ '': '' @ quoted_text ''Deny'') @
     ('','' @ newline @ ''      '') @ (quoted_text ''Principal'' @ '': '' @ ''{'' @ (quoted_text ''AWS'' @ '': '' @ quoted_text ''*'') @ ''}'') @
     ('','' @ newline @ ''      '') @ (quoted_text ''Action'' @ '': '' @ quoted_text ''sts:AssumeRole'') @ (newline @ ''    ''))
    [(''Sid'', JString ''DenyEveryone''), (''Effect'', JString ''Deny''), (''Principal'', JObject [(''AWS'', JString ''*'')]), (''Action'', JString ''sts:AssumeRole'')]"
    using b next_piece [OF b(1)]
    by (intro seq_more seq_end first_piece writes_pair writes_text plain_literal plain_words writes_whom) simp_all
  from writes_object [OF this] show ?thesis by (simp add: denied_text_def denied_def)
qed

lemma deny_everyone_pieces: "newline @ deny_everyone =
    (newline @ ''  '') @ (quoted_text ''Statement'' @ '': '' @ ''['' @ (newline @ ''    '') @ denied_text @ (newline @ ''  '') @ '']'') @ newline @ ''}''"
  by (simp add: deny_everyone_def denied_text_def quoted_text_def)

lemma writes_statement: "writes_member (Suc (Suc (Suc n))) (quoted_text ''Statement'' @ '': '' @ ''['' @ (newline @ ''    '') @ denied_text @ (newline @ ''  '') @ '']'')
    (''Statement'', JList [denied])"
proof -
  have "sequenced (\<lambda>_. writes (Suc (Suc n))) True 0 ((newline @ ''    '') @ denied_text @ (newline @ ''  '')) [denied]"
    by (intro seq_more seq_end first_piece writes_denied) (simp_all add: blank_text_def newline_def)
  from writes_pair [OF plain_words(8) writes_list [OF this]] show ?thesis by simp
qed

lemma ascii_valid: "list_all (\<lambda>c. byte c < 128) s \<Longrightarrow> valid_string (s @ t) \<longleftrightarrow> valid_string t"
  using valid_at_ascii [of _ "[]"] by (induction s) simp_all

lemma ascii_bytes: "byte (CHR '','') < 128" "byte (CHR ''{'') < 128"
  by (simp_all add: byte_def)

lemma deny_everyone_ascii: "list_all (\<lambda>c. byte c < 128) deny_everyone"
  by (simp add: deny_everyone_def newline_def dquote_def) (simp add: byte_def)

section \<open>Reading it back\<close>

text \<open>The Version a policy keeps.\<close>

definition kept_version :: "json_value \<Rightarrow> (string \<times> json) list" where
  "kept_version root = filter (\<lambda>p. fst p = ''Version'') (map content_member (value_members root))"

lemma value_bytes_placed: "raw = p @ s @ u \<Longrightarrow> placed raw n (length p) s v \<Longrightarrow> value_bytes v = s"
  using placed_place [of raw n "length p" s v] by (simp add: value_bytes_def)

lemma string_literal_placed: "placed raw n i s v \<Longrightarrow> value_kind v = kindString \<Longrightarrow> literal (TokString (value_text v)) s"
proof (erule placed.cases)
  fix tok l n' j
  assume "literal tok l" "s = l" "v = scalar_value raw tok j (j + length l)" "value_kind v = kindString"
  then show ?thesis by (cases tok) simp_all
qed auto

lemma string_body_last: "string_body t = Inr (x, []) \<Longrightarrow> \<exists>u. t = u @ [dquote]"
proof (induction t arbitrary: x rule: length_induct)
  case (1 t)
  note IH = "1.IH" [rule_format]
  have front: ?case if "t = a @ b" "a \<noteq> []" "string_body b = Inr (y, [])" for a b y
    using IH [of b y] that by (auto intro: exI [of _ "a @ u" for u])
  show ?case
  proof (cases t rule: string_body_cases)
    case (4 c u)
    then show ?thesis using "1.prems" front [of "[c]" u] by (auto simp: string_body_plain prepend_Inr)
  next
    case (6 e d u)
    then show ?thesis using "1.prems" front [of "[backslash, e]" u] by (auto simp: string_body_simple prepend_Inr)
  next
    case (8 u)
    then obtain r v where h: "hex_code 4 0 u = Inr (r, v)" using "1.prems" by (auto simp: string_body_code split: sum.splits)
    then obtain p where p: "u = p @ v" using hex_code_more by blast
    show ?thesis
    proof (cases "low_half r v")
      case None
      then obtain y where "string_body v = Inr (y, [])" using "1.prems" 8 h by (auto simp: string_body_code prepend_Inr)
      then show ?thesis using front [of "backslash # CHR ''u'' # p" v] 8 p by simp
    next
      case (Some q)
      obtain r' w where q: "q = (r', w)" by (cases q)
      then obtain g where g: "v = g @ w" using Some low_half_more by blast
      obtain y where "string_body w = Inr (y, [])" using "1.prems" 8 h Some q by (auto simp: string_body_code prepend_Inr)
      then show ?thesis using front [of "backslash # CHR ''u'' # p @ g" w] 8 p g by simp
    qed
  qed (use "1.prems" in \<open>simp_all add: string_body_control string_body_bad\<close>)
qed

lemma version_bytes:
  assumes "inside raw v f" "value_kind v = kindString"
  shows "literal (TokString (value_text v)) (value_bytes v) \<and> valid_string (value_bytes v)"
proof -
  obtain w s u n j m where d: "valid_string raw" "raw = w @ s @ u" "slot raw maxNesting (length w) s n j m v f"
    using assms(1) unfolding inside_def by blast
  obtain a b where o: "s = a @ m @ b" "j = length (w @ a)" "placed raw n j m v" using d(3) unfolding slot_def by auto
  have raw: "raw = (w @ a) @ m @ b @ u" using d(2) o(1) by simp
  have m: "value_bytes v = m" by (rule value_bytes_placed [OF raw]) (use o(2,3) in simp)
  have l: "literal (TokString (value_text v)) m" by (rule string_literal_placed [OF o(3) assms(2)])
  then obtain t where t: "m = dquote # t" "string_body t = Inr (value_text v, [])" by (auto simp: literal_def)
  obtain m' where m': "m = m' @ [dquote]" using t(1) string_body_last [OF t(2)] by auto
  have q: "byte dquote < 128" by (simp add: dquote_def byte_def)
  have "valid_string ((w @ a) @ dquote # t @ b @ u)" using d(1) raw t(1) by simp
  then have "valid_string (t @ b @ u)" using valid_at_ascii [OF q] by blast
  then have "valid_string (m @ b @ u)" using valid_at_ascii [OF q, of "[]"] t(1) by simp
  then have "valid_string m'" using valid_at_ascii [OF q, of m'] m' by simp
  then have "valid_string m" using valid_at_ascii [OF q, of m' "[]"] m' by simp
  then show ?thesis using m l by simp
qed

text \<open>The result as a document, with the line of the Version or without.\<close>

lemma denied_document:
  assumes "valid_string line" "line = [] \<and> vs = [] \<or>
      (\<exists>l x. line = (''  '' @ (quoted_text ''Version'' @ '': '' @ l)) @ '','' @ newline \<and> vs = [(''Version'', JString x)] \<and> literal (TokString x) l)"
  shows "\<exists>v. parse_tree (''{'' @ newline @ line @ deny_everyone) = Inr v \<and> content v = JObject (vs @ [(''Statement'', JList [denied])])"
proof -
  let ?s = "quoted_text ''Statement'' @ '': '' @ ''['' @ (newline @ ''    '') @ denied_text @ (newline @ ''  '') @ '']''"
  define out where "out = ''{'' @ newline @ line @ deny_everyone"
  have b: "blank_text (newline @ ''  '')" "blank_text newline" by (simp_all add: blank_text_def newline_def)
  have n: "Suc (Suc (Suc 996)) = 999" "Suc 999 = maxNesting" by (simp_all add: maxNesting_def)
  note w = writes_statement [of 996, unfolded n]
  have "writes maxNesting out (JObject (vs @ [(''Statement'', JList [denied])]))"
    using assms(2)
  proof (elim disjE exE conjE)
    assume e: "line = []" "vs = []"
    have "sequenced (\<lambda>_. writes_member 999) True 0 ((newline @ ''  '') @ ?s @ newline) [(''Statement'', JList [denied])]"
      using b w by (intro seq_more seq_end first_piece) simp_all
    from writes_object [OF this, unfolded n(2)] show ?thesis using deny_everyone_pieces e by (simp add: out_def)
  next
    fix l x
    assume e: "line = (''  '' @ (quoted_text ''Version'' @ '': '' @ l)) @ '','' @ newline" "vs = [(''Version'', JString x)]" "literal (TokString x) l"
    have "sequenced (\<lambda>_. writes_member 999) True 0
        ((newline @ ''  '') @ (quoted_text ''Version'' @ '': '' @ l) @ ('','' @ newline @ ''  '') @ ?s @ newline) [(''Version'', JString x), (''Statement'', JList [denied])]"
      using b w next_piece [OF b(1)] writes_pair [OF plain_words(9) writes_text [OF e(3)]] by (intro seq_more seq_end first_piece) simp_all
    from writes_object [OF this, unfolded n(2)] show ?thesis using deny_everyone_pieces e by (simp add: out_def)
  qed
  then obtain v where v: "placed out maxNesting 0 out v" "content v = JObject (vs @ [(''Statement'', JList [denied])])" using writes_placed by blast
  have "valid_string (line @ deny_everyone)" using assms(1) valid_append ascii_valid [OF deny_everyone_ascii, of "[]"] by simp
  then have "valid_string (''{'' @ newline @ line @ deny_everyone)"
    using ascii_valid [of "''{'' @ newline" "line @ deny_everyone"] by (simp add: newline_def ascii_bytes)
  then have "document_text out v" unfolding document_text_def using v(1)
    by (intro conjI exI [of _ "[]"] exI [of _ out]) (simp_all add: out_def)
  then show ?thesis using v(2) parse_tree_document unfolding out_def by blast
qed

text \<open>The contents of the Version members LetNoOneIn accepts: none, or one of the two language versions.\<close>

lemma version_cases:
  assumes "the_version (value_members root) = Inr version" "version_line version = Inr line" "value_kind root = kindObject"
  shows "version = None \<and> line = [] \<and> kept_version root = [] \<or>
    (\<exists>k < length (value_members root). version = Some (member_value (value_members root ! k)) \<and>
      (let v = member_value (value_members root ! k) in
       value_kind v = kindString \<and> value_text v \<in> {''2012-10-17'', ''2008-10-17''} \<and> kept_version root = [(''Version'', JString (value_text v))] \<and>
       line = (''  '' @ (quoted_text ''Version'' @ '': '' @ value_bytes v)) @ '','' @ newline))"
proof -
  define es where "es = filter (\<lambda>m. member_name m = ''Version'') (value_members root)"
  have kept: "kept_version root = map content_member es"
    by (simp add: kept_version_def es_def filter_map comp_def content_member_parts)
  consider "es = []" "version = None" | m where "es = [m]" "version = Some (member_value m)"
    using assms(1) unfolding the_version_def es_def [symmetric] by (auto split: list.splits)
  then show ?thesis
  proof cases
    case 1
    then show ?thesis using assms(2) kept by (simp add: version_line_def)
  next
    case 2
    then have "m \<in> set es" by simp
    then obtain k where k: "k < length (value_members root)" "value_members root ! k = m" "member_name m = ''Version''"
      unfolding es_def by (auto simp: in_set_conv_nth)
    have v: "value_kind (member_value m) = kindString" "value_text (member_value m) \<in> {''2012-10-17'', ''2008-10-17''}"
      "line = (''  '' @ (quoted_text ''Version'' @ '': '' @ value_bytes (member_value m))) @ '','' @ newline"
      using assms(2) 2(2) by (auto simp: version_line_def quoted_text_def split: if_splits)
    then show ?thesis using 2 k kept content_kind(3) [OF v(1)] by (intro disjI2 exI [of _ k]) (simp add: Let_def content_member_parts(3))
  qed
qed

text \<open>C16: The policy LetNoOneIn returns is read back as the Version the given policy writes, if it writes one,
  and one statement that denies sts:AssumeRole to everyone: nothing else of the given policy is in it,
  and a Version it keeps is one of the two language versions.\<close>

theorem no_one_is_let_in:
  "let_no_one_in raw = Inr out \<Longrightarrow>
    \<exists>root root'. parse_tree raw = Inr root \<and> parse_tree out = Inr root' \<and>
      content root' = JObject (kept_version root @ [(''Statement'', JList [denied])]) \<and>
      kept_version root \<in> {[], [(''Version'', JString ''2012-10-17'')], [(''Version'', JString ''2008-10-17'')]}"
proof -
  assume "let_no_one_in raw = Inr out"
  then obtain root version line where r: "parse_tree raw = Inr root" "value_kind root = kindObject" "the_version (value_members root) = Inr version"
    "version_line version = Inr line" "out = ''{'' @ newline @ line @ deny_everyone"
    by (auto simp: let_no_one_in_def split: sum.splits if_splits)
  show ?thesis
    using version_cases [OF r(3,4,2)]
  proof (elim disjE exE conjE)
    assume "version = None" "line = []" "kept_version root = []"
    then show ?thesis using denied_document [of "[]" "[]"] r(1,5) by auto
  next
    fix k
    assume k: "k < length (value_members root)" "let v = member_value (value_members root ! k) in
       value_kind v = kindString \<and> value_text v \<in> {''2012-10-17'', ''2008-10-17''} \<and> kept_version root = [(''Version'', JString (value_text v))] \<and>
       line = (''  '' @ (quoted_text ''Version'' @ '': '' @ value_bytes v)) @ '','' @ newline"
    define v where "v = member_value (value_members root ! k)"
    have v: "value_kind v = kindString" "value_text v \<in> {''2012-10-17'', ''2008-10-17''}" "kept_version root = [(''Version'', JString (value_text v))]"
      "line = (''  '' @ (quoted_text ''Version'' @ '': '' @ value_bytes v)) @ '','' @ newline"
      using k(2) by (simp_all add: v_def Let_def)
    have b: "literal (TokString (value_text v)) (value_bytes v)" "valid_string (value_bytes v)"
      using version_bytes [OF inside_member [OF inside_root [OF r(1)] r(2) k(1)]] v(1) by (simp_all add: v_def)
    have "valid_string (value_bytes v @ '','' @ newline)"
      using valid_append [OF b(2)] ascii_valid [of "'','' @ newline" "[]"] by (simp add: newline_def ascii_bytes)
    then have "valid_string line"
      using ascii_valid [of "''  '' @ quoted_text ''Version'' @ '': ''" "value_bytes v @ '','' @ newline"] v(4)
      by (simp add: quoted_text_def dquote_def byte_def)
    then obtain root' where "parse_tree out = Inr root'" "content root' = JObject (kept_version root @ [(''Statement'', JList [denied])])"
      using denied_document [of line "kept_version root"] b(1) v(3,4) r(5) by blast
    moreover have "kept_version root \<in> {[], [(''Version'', JString ''2012-10-17'')], [(''Version'', JString ''2008-10-17'')]}" using v(2,3) by auto
    ultimately show ?thesis using r(1) by blast
  qed
qed

definition dated_policy :: string where
  "dated_policy = ''{'' @ [dquote] @ ''Version'' @ [dquote] @ '':'' @ [dquote] @ ''2012-10-17'' @ [dquote] @ ''}''"

theorem no_one_is_let_in_witness:
  "\<exists>out root root'. let_no_one_in dated_policy = Inr out \<and> parse_tree dated_policy = Inr root \<and> parse_tree out = Inr root' \<and>
    content root' = JObject (kept_version root @ [(''Statement'', JList [denied])])"
proof -
  have "case let_no_one_in dated_policy of Inr out \<Rightarrow> True | Inl _ \<Rightarrow> False" by code_simp
  then obtain out where "let_no_one_in dated_policy = Inr out" by (auto split: sum.splits)
  then show ?thesis using no_one_is_let_in by blast
qed

end
