(* ===== verification/Aws_Trust_Policy.thy ===== *)
theory Aws_Trust_Policy imports Aws_Grant_Laws Aws_Edit_Laws begin

text \<open>
  ParseTrustPolicy (parse/aws, policy.go) from the bytes of a policy on: the characters it may hold, the
  tree read from it, and what its grants quote of it. The parts are the reader (Aws_Document) and the
  statements of the tree (Aws_Policy).
\<close>

section \<open>From bytes to a document\<close>

datatype policy_error = RefusedCharacter rune nat | TrustNotRead tree_error | TrustNotObject kind

definition parse_trust_policy :: "fold_tables \<Rightarrow> string \<Rightarrow> policy_error + document" where
  "parse_trust_policy T raw =
     (case refused_character raw of
        Some (r, at) \<Rightarrow> Inl (RefusedCharacter r at)
      | None \<Rightarrow>
        (case parse_tree raw of
           Inl e \<Rightarrow> Inl (TrustNotRead e)
         | Inr root \<Rightarrow> if value_kind root \<noteq> kindObject then Inl (TrustNotObject (value_kind root)) else Inr (parse_document T root)))"

text \<open>The verb %U: a code point in at least four digits.\<close>

function upper_hex :: "nat \<Rightarrow> nat \<Rightarrow> string" where
  "upper_hex k n =
     (if k = 0 \<and> n = 0 then []
      else upper_hex (k - 1) (n div 16) @ [if n mod 16 < 10 then chr (48 + n mod 16) else chr (55 + n mod 16)])"
  by pat_completeness auto
termination upper_hex
proof (relation "measure (\<lambda>(k, n). k + n)")
  fix k n :: nat
  assume "\<not> (k = 0 \<and> n = 0)"
  moreover have "n div 16 \<le> n" "0 < n \<Longrightarrow> n div 16 < n" by simp_all
  ultimately have "k - 1 + n div 16 < k + n" by linarith
  then show "((k - 1, n div 16), k, n) \<in> measure (\<lambda>(k, n). k + n)" by simp
qed simp

declare upper_hex.simps [simp del]

definition policy_error_text :: "(decode_error \<Rightarrow> string) \<Rightarrow> policy_error \<Rightarrow> string" where
  "policy_error_text d e = ''parse trust policy: '' @
     (case e of
        RefusedCharacter r at \<Rightarrow> ''U+'' @ upper_hex 4 r @ '' at byte '' @ itoa (int at) @
          '' is a character AWS refuses in a policy document, which may hold only tab, line feed, carriage return and U+0020 to U+00FF''
      | TrustNotRead e \<Rightarrow> tree_error_text d e
      | TrustNotObject k \<Rightarrow> ''the document is '' @ kind_string k @ '', not an object'')"

section \<open>The characters\<close>

lemma refused_from_Some:
  "refused_from i s = Some (r, at) \<Longrightarrow> \<exists>p u. s = p @ u \<and> u \<noteq> [] \<and> at = i + length p \<and> list_all allowed_character (runes p) \<and> valid_string p \<and>
    fst (decode_rune u) = r \<and> \<not> allowed_character r"
proof (induction i s rule: refused_from.induct)
  case (1 i s)
  show ?case
  proof (cases "s = []")
    case False
    obtain q n where d: "decode_rune s = (q, n)" by fastforce
    have n: "1 \<le> n" "n \<le> length s" using decode_width [OF False d] by simp_all
    have ok: "\<not> (q = rune_error \<and> n = 1)" using "1.prems" False d by (subst (asm) refused_from.simps) auto
    show ?thesis
    proof (cases "allowed_character q")
      case True
      then have "refused_from (i + n) (drop n s) = Some (r, at)" using "1.prems" False d ok by (subst (asm) refused_from.simps) auto
      from "1.IH" [OF False d [symmetric] refl ok True this] obtain p u where p: "drop n s = p @ u" "u \<noteq> []" "at = i + n + length p"
        "list_all allowed_character (runes p)" "valid_string p" "fst (decode_rune u) = r" "\<not> allowed_character r" by blast
      have q: "encode_rune q = take n s" using encode_decode [OF d False] ok by blast
      have v: "valid_rune q" using decode_valid [OF d] .
      have s: "s = (encode_rune q @ p) @ u" using p(1) q by (metis append.assoc append_take_drop_id)
      have e: "decode_rune (encode_rune q @ p) = (q, length (encode_rune q))" "encode_rune q \<noteq> []"
        using decode_encode [OF v] q n by (auto simp: min_def)
      have "length (encode_rune q) = n" using q n by simp
      moreover have "runes (encode_rune q @ p) = q # runes p" using runes_step [of "encode_rune q @ p"] e by simp
      moreover have "valid_string (encode_rune q @ p)" using e ok p(5) q n by (simp add: valid_string_step)
      ultimately show ?thesis using s p(2-4,6,7) True by (intro exI [of _ "encode_rune q @ p"] exI [of _ u]) simp
    next
      case no: False
      then have "q = r" "i = at" using "1.prems" False d ok by (subst (asm) refused_from.simps, auto)+
      then show ?thesis using False d no by (intro exI [of _ "[]"] exI [of _ s]) simp
    qed
  qed (use "1.prems" in \<open>simp add: refused_from.simps\<close>)
qed

lemma refused_from_None: "refused_from i s = None \<Longrightarrow> valid_string s \<Longrightarrow> list_all allowed_character (runes s)"
proof (induction i s rule: refused_from.induct)
  case (1 i s)
  show ?case
  proof (cases "s = []")
    case False
    obtain q n where d: "decode_rune s = (q, n)" by fastforce
    have ok: "\<not> (q = rune_error \<and> n = 1)" "valid_string (drop n s)" using "1.prems"(2) False d by (auto simp: valid_string_step)
    have "allowed_character q" "refused_from (i + n) (drop n s) = None"
      using "1.prems"(1) False d ok by (subst (asm) refused_from.simps, auto split: if_splits)+
    then show ?thesis using "1.IH" [OF False d [symmetric] refl ok(1)] ok(2) runes_step [OF False] d by simp
  qed simp
qed

section \<open>What a policy is read as\<close>

text \<open>C14: ParseTrustPolicy accepts a policy exactly where every character is one AWS accepts and the text is
  one JSON object, and then reads the tree it writes; otherwise it names what is wrong: the first
  character AWS refuses with its byte offset, after nothing but characters it accepts; a text that is
  no JSON document; or the kind of value the document is.\<close>

theorem policy_is_read_or_refused:
  "case parse_trust_policy T raw of
     Inr d \<Rightarrow> list_all allowed_character (runes raw) \<and> (\<exists>root. document_text raw root \<and> value_kind root = kindObject \<and> d = parse_document T root)
   | Inl (RefusedCharacter r at) \<Rightarrow>
       (\<exists>p u. raw = p @ u \<and> u \<noteq> [] \<and> at = length p \<and> valid_string p \<and> list_all allowed_character (runes p) \<and> fst (decode_rune u) = r \<and> \<not> allowed_character r)
   | Inl (TrustNotRead e) \<Rightarrow> parse_tree raw = Inl e \<and> e \<noteq> NameNotText \<and> (\<nexists>root. document_text raw root)
   | Inl (TrustNotObject k) \<Rightarrow> (\<exists>root. document_text raw root \<and> value_kind root = k \<and> k \<noteq> kindObject)"
proof (cases "refused_character raw")
  case (Some q)
  obtain r at where q: "q = (r, at)" by (cases q)
  then show ?thesis using Some refused_from_Some [of 0 raw r at] by (auto simp: parse_trust_policy_def refused_character_def)
next
  case None
  show ?thesis
  proof (cases "parse_tree raw")
    case (Inl e)
    have "e \<noteq> NameNotText" using parse_tree_names [of raw] Inl by auto
    moreover have "\<not> document_text raw root" for root using parse_tree_document [of raw root] Inl by simp
    ultimately show ?thesis using Inl None by (simp add: parse_trust_policy_def)
  next
    case (Inr root)
    then have d: "document_text raw root" using parse_tree_document by blast
    have "list_all allowed_character (runes raw)"
      using refused_from_None [of 0 raw] None d by (simp add: refused_character_def document_text_def)
    then show ?thesis using Inr None d by (cases "value_kind root = kindObject") (auto simp: parse_trust_policy_def)
  qed
qed

section \<open>What the grants quote\<close>

lemma inside_bytes: "inside raw x f \<Longrightarrow> \<exists>p u. raw = p @ value_bytes x @ u"
proof -
  assume "inside raw x f"
  then obtain w s u n j m where d: "raw = w @ s @ u" "slot raw maxNesting (length w) s n j m x f" unfolding inside_def by blast
  obtain a b where o: "s = a @ m @ b" "j = length (w @ a)" "placed raw n j m x" using d(2) unfolding slot_def by auto
  have raw: "raw = (w @ a) @ m @ b @ u" using d(1) o(1) by simp
  then have "value_bytes x = m" using placed_place [OF o(3)] o(2) by (simp add: value_bytes_def)
  then show ?thesis using raw by blast
qed

text \<open>An item of the document is a value of the tree: a member's value, or an item of a Statement's list.\<close>

lemma group_value_member: "g \<in> set (group_members root exact_name) \<Longrightarrow> v \<in> set (group_values g) \<Longrightarrow> \<exists>k < length (value_members root). v = member_value (value_members root ! k)"
proof -
  assume "g \<in> set (group_members root exact_name)" "v \<in> set (group_values g)"
  then have "v \<in> member_value ` set (value_members root)" by (auto simp: group_members_closed the_group_def Let_def)
  then show ?thesis by (auto simp: in_set_conv_nth)
qed

lemma document_item_inside:
  assumes "parse_tree raw = Inr root" "value_kind root = kindObject" "v \<in> set (document_items root)"
  shows "\<exists>f. inside raw v f"
proof -
  obtain g where g: "g \<in> set (group_members root exact_name)" "v \<in> set (member_items g)" using assms(3) by (auto simp: document_items_def)
  have value_in: "\<exists>f. inside raw x f" if "x \<in> set (group_values g)" for x
    using group_value_member [OF g(1) that] inside_member [OF inside_root [OF assms(1)] assms(2)] by blast
  show ?thesis
  proof (cases "v \<in> set (group_values g)")
    case False
    then obtain x where x: "x \<in> set (group_values g)" "value_kind x = kindArray" "v \<in> set (value_items x)"
      using g(2) by (auto simp: member_items_def statement_items_def split: if_splits)
    then obtain k where "k < length (value_items x)" "v = value_items x ! k" by (auto simp: in_set_conv_nth)
    then show ?thesis using value_in [OF x(1)] inside_item [OF _ x(2)] by blast
  qed (rule value_in)
qed

lemma grants_written_sources:
  assumes "grants_written T d target vocab = Some (gs, ws)" "g \<in> set gs"
  shows "\<exists>s \<in> set (document_statements d). grant_source g = statement_raw s"
proof -
  obtain out where out: "statement_grants T target vocab (document_variables d) 0 (document_statements d) = Some out"
    "set out = {w. \<exists>j < length (document_statements d). \<exists>face. yields T target vocab (document_variables d) (0 + j) (document_statements d ! j) face w}"
    by (rule statement_grants_spec)
  have "gs = map the_grant (sort_grants out)" using assms(1) out(1) by (simp add: grants_written_def Let_def)
  moreover have "set (sort_grants out) = set out" using sort_grants_mset [of out] by (metis set_mset_mset)
  ultimately obtain w where w: "w \<in> set out" "g = the_grant w" using assms(2) by auto
  then obtain j face where j: "j < length (document_statements d)" "yields T target vocab (document_variables d) (0 + j) (document_statements d ! j) face w"
    using out(2) by blast
  obtain g' where "statement_grant T (document_statements d ! j) face (statement_source (0 + j)) target vocab (document_variables d) = Some g'"
    "grant_source g' = statement_raw (document_statements d ! j)" by (rule statement_grant_spec)
  then show ?thesis using j w(2) nth_mem unfolding yields_def by fastforce
qed

text \<open>C15: A grant quotes the policy: whatever policy ParseTrustPolicy reads, the source every grant of it carries
  is a run of the policy's own bytes, as the user wrote them.\<close>

theorem grants_quote_the_policy:
  "parse_trust_policy T raw = Inr d \<Longrightarrow> grants_written T d target vocab = Some (gs, ws) \<Longrightarrow> g \<in> set gs \<Longrightarrow>
    \<exists>p u. raw = p @ grant_source g @ u"
proof -
  assume a: "parse_trust_policy T raw = Inr d" "grants_written T d target vocab = Some (gs, ws)" "g \<in> set gs"
  obtain root where root: "parse_tree raw = Inr root" "value_kind root = kindObject" "d = parse_document T root"
    using a(1) by (auto simp: parse_trust_policy_def split: option.splits sum.splits if_splits)
  obtain s where s: "s \<in> set (document_statements d)" "grant_source g = statement_raw s" using grants_written_sources [OF a(2,3)] by blast
  then have "grant_source g \<in> set (map value_bytes (document_items root))" using parse_document_grows(1) [of T root] root(3) by (metis image_eqI list.set_map)
  then obtain v where v: "v \<in> set (document_items root)" "grant_source g = value_bytes v" by auto
  then show ?thesis using document_item_inside [OF root(1,2) v(1)] inside_bytes by metis
qed

definition small_policy :: string where
  "small_policy = (''{'' @ [dquote] @ ''Statement'' @ [dquote] @ '':{'' @ [dquote] @ ''Effect'' @ [dquote] @ '':'' @ [dquote] @ ''Allow'' @ [dquote] @ ''}}'')"

theorem grants_quote_the_policy_witness:
  "\<exists>d gs ws g p u. parse_trust_policy no_tables small_policy = Inr d \<and>
    grants_written no_tables d \<lparr>target_kind = ''role'', target_id = ''r''\<rparr> None = Some (gs, ws) \<and> g \<in> set gs \<and> small_policy = p @ grant_source g @ u"
proof -
  have "case parse_trust_policy no_tables small_policy of
      Inr d \<Rightarrow> (case grants_written no_tables d \<lparr>target_kind = ''role'', target_id = ''r''\<rparr> None of Some (gs, ws) \<Rightarrow> gs \<noteq> [] | None \<Rightarrow> False)
    | Inl _ \<Rightarrow> False" by code_simp
  then obtain d gs ws where d: "parse_trust_policy no_tables small_policy = Inr d"
    "grants_written no_tables d \<lparr>target_kind = ''role'', target_id = ''r''\<rparr> None = Some (gs, ws)" "gs \<noteq> []"
    by (auto split: sum.splits option.splits)
  then have g: "hd gs \<in> set gs" by simp
  show ?thesis using grants_quote_the_policy [OF d(1,2) g] d(1,2) g by blast
qed

end
