(* ===== verification/Aws_Reader_Bounds.thy ===== *)
theory Aws_Reader_Bounds imports Aws_Document begin

text \<open>
  The reader of parse/aws (json.go) ends, and within bounds that do not depend on the decoder: it takes
  at most one token for each byte of the document, and recurses no deeper than maxNesting, whether it
  returns a tree or refuses the document.
\<close>

section \<open>Tokens taken\<close>

text \<open>The decoder after k tokens.\<close>

inductive taken :: "string \<Rightarrow> nat \<Rightarrow> decoder \<Rightarrow> decoder \<Rightarrow> bool" for raw where
  taken_none: "taken raw 0 d d"
| taken_one: "next_token raw d = Inr (t, d1) \<Longrightarrow> taken raw k d1 d2 \<Longrightarrow> taken raw (Suc k) d d2"

lemma taken_trans: "taken raw k d d1 \<Longrightarrow> taken raw l d1 d2 \<Longrightarrow> taken raw (k + l) d d2"
  by (induction rule: taken.induct) (auto intro: taken_one)

lemma taken_bytes: "taken raw k d d' \<Longrightarrow> length (dec_rest d') + k \<le> length (dec_rest d)"
  by (induction rule: taken.induct) (auto dest: next_token_length)

lemma reader_takes:
  "(\<And>v d'. value_of raw depth t d = Inr (v, d') \<Longrightarrow> \<exists>k. taken raw k d d')"
  "(\<And>v d'. read_object raw depth start ms d = Inr (v, d') \<Longrightarrow> \<exists>k. taken raw k d d')"
  "(\<And>v d'. read_array raw depth start items d = Inr (v, d') \<Longrightarrow> \<exists>k. taken raw k d d')"
proof (induction raw depth t d and raw depth start ms d and raw depth start items d rule: value_of_read_object_read_array.induct)
  case (1 raw depth tok start finish d)
  then show ?case
    by (cases tok) (auto simp: value_of.simps intro: taken_none split: if_splits)
next
  case (2 raw depth start ms d)
  obtain tok ns e d1 where n: "next_token raw d = Inr ((tok, ns, e), d1)"
    using "2.prems" by (auto simp: read_object.simps split: sum.splits)
  show ?case
  proof (cases "tok = Delim (CHR ''}'')")
    case True
    then show ?thesis using "2.prems" n taken_one [OF n taken_none] by (auto simp: read_object.simps)
  next
    case False
    obtain t d2 where n2: "next_token raw d1 = Inr (t, d2)" using "2.prems" n False by (auto simp: read_object.simps split: sum.splits)
    obtain w d3 where w: "value_of raw depth t d2 = Inr (w, d3)"
      using "2.prems" n n2 False by (auto simp: read_object.simps split: sum.splits)
    obtain name where tok: "tok = TokString name" using "2.prems" n n2 w False by (cases tok) (auto simp: read_object.simps)
    obtain k where k: "taken raw k d2 d3" using "2.IH"(1) [OF n refl refl refl False n2 refl w] by blast
    have "read_object raw depth start (ms @ [Member name w ns]) d3 = Inr (v, d')"
      using "2.prems" n n2 w tok by (simp add: read_object.simps [of _ _ _ ms])
    then obtain l where "taken raw l d3 d'" using "2.IH"(2) [OF n refl refl refl False n2 refl w refl tok] by blast
    then show ?thesis using taken_one [OF n taken_one [OF n2 taken_trans [OF k]]] by blast
  qed
next
  case (3 raw depth start items d)
  obtain tok ns e d1 where n: "next_token raw d = Inr ((tok, ns, e), d1)"
    using "3.prems" by (auto simp: read_array.simps split: sum.splits)
  show ?case
  proof (cases "tok = Delim (CHR '']'')")
    case True
    then show ?thesis using "3.prems" n taken_one [OF n taken_none] by (auto simp: read_array.simps)
  next
    case False
    obtain w d2 where w: "value_of raw depth (tok, ns, e) d1 = Inr (w, d2)"
      using "3.prems" n False by (auto simp: read_array.simps split: sum.splits)
    obtain k where k: "taken raw k d1 d2" using "3.IH"(1) [OF n refl refl refl False w] by blast
    have "read_array raw depth start (items @ [w]) d2 = Inr (v, d')" using "3.prems" n w False by (simp add: read_array.simps [of _ _ _ items])
    then obtain l where "taken raw l d2 d'" using "3.IH"(2) [OF n refl refl refl False w refl] by blast
    then show ?thesis using taken_one [OF n taken_trans [OF k]] by blast
  qed
qed

section \<open>Nesting\<close>

text \<open>How many objects and lists are open around the innermost value.\<close>

primrec levels :: "json_value \<Rightarrow> nat" and member_levels :: "json_member \<Rightarrow> nat" where
  "levels (Value k t b ms items raw i j) = (if k = kindArray \<or> k = kindObject then Suc (fold max (map levels items @ map member_levels ms) 0) else 0)"
| "member_levels (Member name v start) = levels v"

lemma fold_max_le: "fold max ns a \<le> n \<longleftrightarrow> a \<le> n \<and> (\<forall>m \<in> set ns. m \<le> (n :: nat))"
  by (induction ns arbitrary: a) auto

lemma placed_levels:
  "placed raw n i s v \<Longrightarrow> levels v \<le> n"
  "placed_items raw n first i s vs \<Longrightarrow> \<forall>m \<in> set (map levels vs). m \<le> n"
  "placed_members raw n first i s ms \<Longrightarrow> \<forall>m \<in> set (map member_levels ms). m \<le> n"
proof (induction rule: placed_placed_items_placed_members.inducts)
  case (a_scalar tok l n i)
  then show ?case by (cases tok) simp_all
qed (auto simp: fold_max_le)

lemma tree_bounded:
  "parse_tree raw = Inr v \<Longrightarrow>
    levels v \<le> maxNesting \<and> (\<exists>k d. read_value raw 0 (new_decoder raw) = Inr (v, d) \<and> taken raw k (new_decoder raw) d \<and> k \<le> length raw)"
proof -
  assume p: "parse_tree raw = Inr v"
  then obtain d where d: "read_value raw 0 (new_decoder raw) = Inr (v, d)" by (auto simp: parse_tree_Inr)
  then obtain t d1 where n: "next_token raw (new_decoder raw) = Inr (t, d1)" "value_of raw 0 t d1 = Inr (v, d)"
    by (auto simp: read_value_def split: sum.splits)
  obtain k where k: "taken raw (Suc k) (new_decoder raw) d" using taken_one [OF n(1)] reader_takes(1) [OF n(2)] by blast
  then have "Suc k \<le> length raw" using taken_bytes [OF k] by (simp add: new_decoder_def)
  moreover have "levels v \<le> maxNesting" using p placed_levels(1) unfolding parse_tree_document document_text_def by blast
  ultimately show ?thesis using d k by blast
qed

section \<open>Calls\<close>

text \<open>
  A call of valueOf, readObject or readArray, in the model a call of value_of, read_object or read_array
  with its arguments; a round of a loop is a call of the loop's function. The relation
  value_of_read_object_read_array_rel is part of the definition of the three: it holds of a call and the one
  that makes it, under the conditions their equations make it under.
\<close>

type_synonym reader_call =
  "(string \<times> nat \<times> placed_token \<times> decoder) + (string \<times> nat \<times> nat \<times> json_member list \<times> decoder) +
   (string \<times> nat \<times> nat \<times> json_value list \<times> decoder)"

fun call_decoder :: "reader_call \<Rightarrow> decoder" where
  "call_decoder (Inl (raw, depth, t, d)) = d"
| "call_decoder (Inr (Inl (raw, depth, start, ms, d))) = d"
| "call_decoder (Inr (Inr (raw, depth, start, items, d))) = d"

text \<open>
  The calls the reading of a document makes, each with the number of objects and lists that are being
  read when it is made: valueOf enters one, whose loop reads values and goes round inside it, on to the
  next member or item when a value was read. A round is the rest of its function, round_members and
  round_items.
\<close>

inductive reader_calls :: "string \<Rightarrow> nat \<Rightarrow> reader_call \<Rightarrow> bool" for raw where
  call_root: "next_token raw (new_decoder raw) = Inr (t, d) \<Longrightarrow> reader_calls raw 0 (Inl (raw, 0, t, d))"
| call_enters: "reader_calls raw n (Inl x) \<Longrightarrow> value_of_read_object_read_array_rel (Inr y) (Inl x) \<Longrightarrow> reader_calls raw (Suc n) (Inr y)"
| call_value: "reader_calls raw n (Inr y) \<Longrightarrow> value_of_read_object_read_array_rel (Inl x) (Inr y) \<Longrightarrow> reader_calls raw n (Inl x)"
| call_next_member: "reader_calls raw n (Inr (Inl (raw, depth, start, ms, d))) \<Longrightarrow> next_token raw d = Inr ((TokString name, i, j), d1) \<Longrightarrow>
    next_token raw d1 = Inr (t, d2) \<Longrightarrow> value_of raw depth t d2 = Inr (v, d3) \<Longrightarrow>
    reader_calls raw n (Inr (Inl (raw, depth, start, ms @ [Member name v i], d3)))"
| call_next_item: "reader_calls raw n (Inr (Inr (raw, depth, start, items, d))) \<Longrightarrow> next_token raw d = Inr ((tok, i, j), d1) \<Longrightarrow>
    tok \<noteq> Delim (CHR '']'') \<Longrightarrow> value_of raw depth (tok, i, j) d1 = Inr (v, d2) \<Longrightarrow>
    reader_calls raw n (Inr (Inr (raw, depth, start, items @ [v], d2)))"

lemma round_members:
  "next_token raw d = Inr ((TokString name, i, j), d1) \<Longrightarrow> next_token raw d1 = Inr (t, d2) \<Longrightarrow> value_of raw depth t d2 = Inr (v, d3) \<Longrightarrow>
    read_object raw depth start ms d = read_object raw depth start (ms @ [Member name v i]) d3"
  by (simp add: read_object.simps [of raw depth start ms d])

lemma round_items:
  "next_token raw d = Inr ((tok, i, j), d1) \<Longrightarrow> tok \<noteq> Delim (CHR '']'') \<Longrightarrow> value_of raw depth (tok, i, j) d1 = Inr (v, d2) \<Longrightarrow>
    read_array raw depth start items d = read_array raw depth start (items @ [v]) d2"
  by (simp add: read_array.simps [of raw depth start items d])

fun call_fits :: "string \<Rightarrow> nat \<Rightarrow> reader_call \<Rightarrow> bool" where
  "call_fits raw n (Inl (r, depth, t, d)) \<longleftrightarrow> r = raw \<and> depth = n"
| "call_fits raw n (Inr (Inl (r, depth, start, ms, d))) \<longleftrightarrow> r = raw \<and> depth = n"
| "call_fits raw n (Inr (Inr (r, depth, start, items, d))) \<longleftrightarrow> r = raw \<and> depth = n"

lemma taken_more: "taken raw k d0 d \<Longrightarrow> taken raw l d d' \<Longrightarrow> \<exists>k. taken raw k d0 d'"
  using taken_trans by blast

lemma enters_step:
  assumes "value_of_read_object_read_array_rel (Inr y) (Inl x)" "call_fits raw n (Inl x)" "n \<le> maxNesting"
  shows "call_fits raw (Suc n) (Inr y) \<and> Suc n \<le> maxNesting \<and> call_decoder (Inr y) = call_decoder (Inl x)"
  using assms by (auto elim!: value_of_read_object_read_array_rel.cases)

lemma value_step:
  assumes "value_of_read_object_read_array_rel (Inl x) (Inr y)" "call_fits raw n (Inr y)"
  shows "call_fits raw n (Inl x) \<and> (\<exists>k. taken raw k (call_decoder (Inr y)) (call_decoder (Inl x)))"
  using assms(1)
proof (cases rule: value_of_read_object_read_array_rel.cases)
  case (3 r depth start ms d b p d1 tok q i j ba t d2)
  then have n: "next_token r d = Inr ((tok, i, j), d1)" "next_token r d1 = Inr (t, d2)" by simp_all
  have "taken r (Suc (Suc 0)) d d2" using taken_one [OF n(1) taken_one [OF n(2) taken_none]] .
  then show ?thesis using 3(1,2) assms(2) by auto
next
  case (5 r depth start items d b p d1 tok q i j)
  then have "next_token r d = Inr ((tok, i, j), d1)" by simp
  then have "taken r (Suc 0) d d1" using taken_one taken_none by blast
  then show ?thesis using 5(1,2) assms(2) by auto
qed

lemma calls_bounded:
  "reader_calls raw n c \<Longrightarrow> call_fits raw n c \<and> n \<le> maxNesting \<and> (\<exists>k. taken raw k (new_decoder raw) (call_decoder c))"
proof (induction rule: reader_calls.induct)
  case (call_root t d)
  then have "taken raw (Suc 0) (new_decoder raw) d" using taken_one taken_none by blast
  then show ?case by auto
next
  case (call_enters n x y)
  then show ?case using enters_step [OF call_enters.hyps(2)] by metis
next
  case (call_value n y x)
  then show ?case using value_step [OF call_value.hyps(2)] taken_more by metis
next
  case (call_next_member n depth start ms d name i j d1 t d2 v d3)
  obtain k where "taken raw k d2 d3" using reader_takes(1) [OF call_next_member.hyps(4)] by blast
  then have "taken raw (Suc (Suc k)) d d3" using taken_one call_next_member.hyps(2,3) by blast
  then show ?case using call_next_member.IH taken_more by auto
next
  case (call_next_item n depth start items d tok i j d1 v d2)
  obtain k where "taken raw k d1 d2" using reader_takes(1) [OF call_next_item.hyps(4)] by blast
  then have "taken raw (Suc k) d d2" using taken_one call_next_item.hyps(2) by blast
  then show ?case using call_next_item.IH taken_more by auto
qed

text \<open>
  C18: Reading ends, and within bounds, on every document, the ones it refuses included: each call the
  reader makes of valueOf, readObject or readArray is made inside no more than maxNesting objects and
  lists, and stands after a run of tokens no longer than the bytes read, so that no more tokens are taken
  than the document has bytes. A tree it returns is nested no deeper than maxNesting.
\<close>

theorem reading_is_bounded:
  "(reader_calls raw n c \<longrightarrow>
      n \<le> maxNesting \<and> (\<exists>k. taken raw k (new_decoder raw) (call_decoder c) \<and> k + length (dec_rest (call_decoder c)) \<le> length raw)) \<and>
   (parse_tree raw = Inr v \<longrightarrow>
      levels v \<le> maxNesting \<and> (\<exists>k d. read_value raw 0 (new_decoder raw) = Inr (v, d) \<and> taken raw k (new_decoder raw) d \<and> k \<le> length raw))"
proof (intro conjI impI)
  assume c: "reader_calls raw n c"
  then show "n \<le> maxNesting" using calls_bounded by blast
  obtain k where k: "taken raw k (new_decoder raw) (call_decoder c)" using calls_bounded [OF c] by blast
  then have "k + length (dec_rest (call_decoder c)) \<le> length raw" using taken_bytes [OF k] by (simp add: new_decoder_def)
  then show "\<exists>k. taken raw k (new_decoder raw) (call_decoder c) \<and> k + length (dec_rest (call_decoder c)) \<le> length raw" using k by blast
next
  assume "parse_tree raw = Inr v"
  then show "levels v \<le> maxNesting" "\<exists>k d. read_value raw 0 (new_decoder raw) = Inr (v, d) \<and> taken raw k (new_decoder raw) d \<and> k \<le> length raw"
    using tree_bounded by blast+
qed

text \<open>A text that ends inside two lists.\<close>

theorem reading_is_bounded_witness:
  "\<exists>c k. reader_calls ''[['' 2 c \<and> taken ''[['' k (new_decoder ''[['') (call_decoder c) \<and> k \<le> 2 \<and> (\<exists>e. parse_tree ''[['' = Inl e)"
proof -
  let ?next = "next_token ''[[''"
  have o: "case_sum (\<lambda>e. False) (\<lambda>((t, i, j), d). t = Delim (CHR ''['') \<and>
      case_sum (\<lambda>e. False) (\<lambda>((t, i, j), d). t = Delim (CHR ''['')) (?next d)) (?next (new_decoder ''[[''))"
    by code_simp
  then obtain i j d where n: "?next (new_decoder ''[['') = Inr ((Delim (CHR ''[''), i, j), d)"
    by (cases "?next (new_decoder ''[['')") auto
  moreover from o n obtain i' j' d' where "?next d = Inr ((Delim (CHR ''[''), i', j'), d')"
    by (cases "?next d") auto
  ultimately have n: "?next (new_decoder ''[['') = Inr ((Delim (CHR ''[''), i, j), d)" "?next d = Inr ((Delim (CHR ''[''), i', j'), d')"
    by simp_all
  note rel = value_of_read_object_read_array_rel.intros
  have "maxNesting \<noteq> 0" "maxNesting \<noteq> 0 + 1" by (simp_all add: maxNesting_def)
  note open_list = rel(2) [OF refl this(1) [symmetric]] rel(2) [OF refl this(2) [symmetric]]
  have "reader_calls ''[['' 0 (Inl (''[['', 0, (Delim (CHR ''[''), i, j), d))" by (rule call_root [OF n(1)])
  then have "reader_calls ''[['' (Suc 0) (Inr (Inr (''[['', 0 + 1, i, [], d)))" by (rule call_enters) (rule open_list(1), simp)
  then have "reader_calls ''[['' (Suc 0) (Inl (''[['', 0 + 1, (Delim (CHR ''[''), i', j'), d'))"
    by (rule call_value) (rule rel(5) [OF n(2) refl refl refl], simp)
  then have c: "reader_calls ''[['' (Suc (Suc 0)) (Inr (Inr (''[['', 0 + 1 + 1, i', [], d')))" by (rule call_enters) (rule open_list(2), simp)
  have "case parse_tree ''[['' of Inl e \<Rightarrow> True | Inr _ \<Rightarrow> False" by code_simp
  then obtain e where "parse_tree ''[['' = Inl e" by (auto split: sum.splits)
  moreover from reading_is_bounded [of "''[[''" "Suc (Suc 0)"] c
  obtain k where "taken ''[['' k (new_decoder ''[['') d'" "k \<le> 2" by fastforce
  ultimately show ?thesis using c by (force simp: numeral_2_eq_2)
qed

end
