(* ===== verification/Azure_Json.thy ===== *)
theory Azure_Json imports Aws_Placed begin

text \<open>
  Package parse/azure, json.go: the reader of a credential document. It walks the same decoder as the
  AWS reader and differs in what it keeps of a value, its own bytes and no place, in what it says of
  an escape that is half a pair, and in where it looks for one. The laws are that the two readers read
  the same documents and that the values correspond.
\<close>

section \<open>Values\<close>

text \<open>The kinds are spelt as the AWS reader spells them, apart from the list.\<close>

abbreviation kindList :: kind where "kindList \<equiv> kindArray"

datatype az_value = AzValue (az_kind: kind) (az_text: string) (az_members: "az_member list") (az_items: "az_value list") (az_raw: string)
  and az_member = AzMember (az_name: string) (az_member_value: az_value)

text \<open>
  What readDocument refuses. ReadAfter is what stands behind the document: None for a second value, or
  the decoder's own error there. ReadNameNotText is the panic of the type assertion on a member's
  name, which the decoder's stream rules out.
\<close>

datatype read_error =
  ReadNotUtf8 nat | ReadEmpty | ReadDecoder decode_error | ReadLone nat | ReadTooDeep nat |
  ReadAfter "decode_error option" | ReadNameNotText

definition nestingLimit :: nat where "nestingLimit = 1000"

fun read_error_text :: "(decode_error \<Rightarrow> string) \<Rightarrow> read_error \<Rightarrow> string" where
  "read_error_text d (ReadNotUtf8 at) = ''not valid UTF-8 at byte '' @ itoa (int at)"
| "read_error_text d ReadEmpty = ''empty input''"
| "read_error_text d (ReadDecoder e) = d e"
| "read_error_text d (ReadLone at) = ''lone surrogate escape at byte '' @ itoa (int at)"
| "read_error_text d (ReadTooDeep at) = ''nested more than '' @ itoa (int nestingLimit) @ '' levels deep at byte '' @ itoa (int at)"
| "read_error_text d (ReadAfter None) = ''after the document: a second value''"
| "read_error_text d (ReadAfter (Some e)) = ''after the document: '' @ d e"
| "read_error_text d ReadNameNotText = []"

section \<open>Surrogate escapes\<close>

definition hex_digit_value :: "char \<Rightarrow> nat" where
  "hex_digit_value b =
     (if byte b \<le> 57 then byte b - 48 else if byte b \<le> 70 then byte b - 65 + 10 else byte b - 97 + 10)"

definition code_unit :: "string \<Rightarrow> nat" where
  "code_unit ds = foldl (\<lambda>n b. n * 16 + hex_digit_value b) 0 ds"

definition low_surrogate_escape :: "string \<Rightarrow> bool" where
  "low_surrogate_escape rest \<longleftrightarrow>
     \<not> (length rest < 6 \<or> rest ! 0 \<noteq> backslash \<or> rest ! 1 \<noteq> CHR ''u'') \<and>
     56320 \<le> code_unit (take 4 (drop 2 rest)) \<and> code_unit (take 4 (drop 2 rest)) \<le> 57343"

text \<open>loneSurrogate, the loop at index i with s the token from there.\<close>

function az_lone_from :: "nat \<Rightarrow> string \<Rightarrow> nat option" where
  "az_lone_from i s =
     (if length s \<le> 5 then None
      else if s ! 0 \<noteq> backslash then az_lone_from (i + 1) (drop 1 s)
      else if s ! 1 \<noteq> CHR ''u'' then az_lone_from (i + 2) (drop 2 s)
      else
        (let first = code_unit (take 4 (drop 2 s)) in
         if first < 55296 \<or> 57343 < first then az_lone_from (i + 6) (drop 6 s)
         else if 56319 < first \<or> \<not> low_surrogate_escape (drop 6 s) then Some i
         else az_lone_from (i + 12) (drop 12 s)))"
  by pat_completeness auto
termination az_lone_from
  by (relation "measure (length \<circ> snd)") auto

declare az_lone_from.simps [simp del]

definition az_lone_surrogate :: "string \<Rightarrow> nat option" where
  "az_lone_surrogate token = az_lone_from 0 token"

section \<open>The reader\<close>

definition slice :: "nat \<Rightarrow> nat \<Rightarrow> string \<Rightarrow> string" where
  "slice i j s = take (j - i) (drop i s)"

definition az_between_tokens :: "char \<Rightarrow> bool" where
  "az_between_tokens b \<longleftrightarrow> b = CHR '' '' \<or> byte b = 9 \<or> byte b = 10 \<or> byte b = 13 \<or> b = CHR '':'' \<or> b = CHR '',''"

definition az_next :: "string \<Rightarrow> decoder \<Rightarrow> read_error + placed_token \<times> decoder" where
  "az_next raw d =
     (case decoder_token d of
        Inl e \<Rightarrow> Inl (ReadDecoder (if e = EndOfInput then UnexpectedEnd else e))
      | Inr (tok, d') \<Rightarrow>
        (let offset = input_offset raw d; finish = input_offset raw d';
             start = offset + length (takeWhile az_between_tokens (slice offset finish raw)) in
         Inr ((tok, start, finish), d')))"

text \<open>
  value with container, readObject and readList: the loops over members and items with what they have
  gathered; depth is the reader's count of the containers open around the token.
\<close>

function az_value_of :: "string \<Rightarrow> nat \<Rightarrow> placed_token \<Rightarrow> decoder \<Rightarrow> read_error + az_value \<times> decoder"
  and az_read_object :: "string \<Rightarrow> nat \<Rightarrow> nat \<Rightarrow> az_member list \<Rightarrow> decoder \<Rightarrow> read_error + az_value \<times> decoder"
  and az_read_list :: "string \<Rightarrow> nat \<Rightarrow> nat \<Rightarrow> az_value list \<Rightarrow> decoder \<Rightarrow> read_error + az_value \<times> decoder" where
  "az_value_of raw depth (tok, start, finish) d =
     (case tok of
        Delim c \<Rightarrow>
          if depth = nestingLimit then Inl (ReadTooDeep start)
          else if c = CHR ''{'' then az_read_object raw (depth + 1) start [] d
          else az_read_list raw (depth + 1) start [] d
      | TokString t \<Rightarrow>
          (case az_lone_surrogate (slice start finish raw) of
             Some at \<Rightarrow> Inl (ReadLone (start + at))
           | None \<Rightarrow> Inr (AzValue kindString t [] [] (slice start finish raw), d))
      | TokNumber t \<Rightarrow> Inr (AzValue kindNumber t [] [] (slice start finish raw), d)
      | TokBool b \<Rightarrow> Inr (AzValue kindBool [] [] [] (slice start finish raw), d)
      | TokNull \<Rightarrow> Inr (AzValue kindNull [] [] [] (slice start finish raw), d))"
| "az_read_object raw depth start ms d =
     (case az_next raw d of
        Inl e \<Rightarrow> Inl e
      | Inr ((tok, nameStart, finish), d1) \<Rightarrow>
        if tok = Delim (CHR ''}'') then Inr (AzValue kindObject [] ms [] (slice start finish raw), d1)
        else
          (case az_lone_surrogate (slice nameStart finish raw) of
             Some at \<Rightarrow> Inl (ReadLone (nameStart + at))
           | None \<Rightarrow>
             (case az_next raw d1 of
                Inl e \<Rightarrow> Inl e
              | Inr (t, d2) \<Rightarrow>
                (case az_value_of raw depth t d2 of
                   Inl e \<Rightarrow> Inl e
                 | Inr (v, d3) \<Rightarrow>
                   (case tok of
                      TokString name \<Rightarrow> az_read_object raw depth start (ms @ [AzMember name v]) d3
                    | _ \<Rightarrow> Inl ReadNameNotText)))))"
| "az_read_list raw depth start items d =
     (case az_next raw d of
        Inl e \<Rightarrow> Inl e
      | Inr ((tok, itemStart, finish), d1) \<Rightarrow>
        if tok = Delim (CHR '']'') then Inr (AzValue kindList [] [] items (slice start finish raw), d1)
        else
          (case az_value_of raw depth (tok, itemStart, finish) d1 of
             Inl e \<Rightarrow> Inl e
           | Inr (v, d2) \<Rightarrow> az_read_list raw depth start (items @ [v]) d2))"
  by pat_completeness auto

lemma az_next_length: "az_next raw d = Inr (t, d') \<Longrightarrow> length (dec_rest d') < length (dec_rest d)"
  by (auto simp: az_next_def decoder_token_def Let_def dest: token_length split: sum.splits)

lemma az_reader_lengths:
  "az_value_of_az_read_object_az_read_list_dom (Inl (raw, depth, t, d)) \<Longrightarrow>
    (\<And>v d'. az_value_of raw depth t d = Inr (v, d') \<Longrightarrow> length (dec_rest d') \<le> length (dec_rest d))"
  "az_value_of_az_read_object_az_read_list_dom (Inr (Inl (raw, depth, start, ms, d))) \<Longrightarrow>
    (\<And>v d'. az_read_object raw depth start ms d = Inr (v, d') \<Longrightarrow> length (dec_rest d') \<le> length (dec_rest d))"
  "az_value_of_az_read_object_az_read_list_dom (Inr (Inr (raw, depth, start, items, d))) \<Longrightarrow>
    (\<And>v d'. az_read_list raw depth start items d = Inr (v, d') \<Longrightarrow> length (dec_rest d') \<le> length (dec_rest d))"
proof (induct rule: az_value_of_az_read_object_az_read_list.pinduct)
  case (1 raw depth tok start finish d)
  show ?case
  proof (cases tok)
    case (Delim c)
    then show ?thesis using "1.prems" "1.hyps"
      by (cases "depth = nestingLimit"; cases "c = CHR ''{''") (auto simp: az_value_of.psimps)
  qed (use "1.prems" "1.hyps"(1) in \<open>auto simp: az_value_of.psimps split: option.splits\<close>)
next
  case (2 raw depth start ms d)
  obtain tok ns e d1 where n: "az_next raw d = Inr ((tok, ns, e), d1)"
    using "2.prems" "2.hyps"(1) by (auto simp: az_read_object.psimps split: sum.splits)
  have d1: "length (dec_rest d1) < length (dec_rest d)" using az_next_length [OF n] .
  show ?case
  proof (cases "tok = Delim (CHR ''}'')")
    case True
    then show ?thesis using "2.prems" "2.hyps"(1) n d1 by (auto simp: az_read_object.psimps)
  next
    case False
    have l: "az_lone_surrogate (slice ns e raw) = None"
      using "2.prems" "2.hyps"(1) n False by (auto simp: az_read_object.psimps split: option.splits)
    obtain t d2 where n2: "az_next raw d1 = Inr (t, d2)"
      using "2.prems" "2.hyps"(1) n False l by (auto simp: az_read_object.psimps split: sum.splits)
    have d2: "length (dec_rest d2) < length (dec_rest d1)" using az_next_length [OF n2] .
    obtain w d3 where v: "az_value_of raw depth t d2 = Inr (w, d3)"
      using "2.prems" "2.hyps"(1) n n2 False l by (auto simp: az_read_object.psimps split: sum.splits)
    have d3: "length (dec_rest d3) \<le> length (dec_rest d2)"
      using "2.hyps"(2) [OF n refl refl refl False l n2 refl v] .
    obtain name where tok: "tok = TokString name"
      using "2.prems" "2.hyps"(1) n n2 v False l by (cases tok) (auto simp: az_read_object.psimps)
    have "length (dec_rest d') \<le> length (dec_rest d3)"
      using "2.hyps"(3) [OF n refl refl refl False l n2 refl v refl tok]
      using "2.prems" "2.hyps"(1) n n2 v tok l by (auto simp: az_read_object.psimps)
    then show ?thesis using d1 d2 d3 by simp
  qed
next
  case (3 raw depth start items d)
  obtain tok ns e d1 where n: "az_next raw d = Inr ((tok, ns, e), d1)"
    using "3.prems" "3.hyps"(1) by (auto simp: az_read_list.psimps split: sum.splits)
  have d1: "length (dec_rest d1) < length (dec_rest d)" using az_next_length [OF n] .
  show ?case
  proof (cases "tok = Delim (CHR '']'')")
    case True
    then show ?thesis using "3.prems" "3.hyps"(1) n d1 by (auto simp: az_read_list.psimps)
  next
    case False
    obtain w d2 where v: "az_value_of raw depth (tok, ns, e) d1 = Inr (w, d2)"
      using "3.prems" "3.hyps"(1) n False by (auto simp: az_read_list.psimps split: sum.splits)
    have d2: "length (dec_rest d2) \<le> length (dec_rest d1)"
      using "3.hyps"(2) [OF n refl refl refl False v] .
    have "length (dec_rest d') \<le> length (dec_rest d2)"
      using "3.hyps"(3) [OF n refl refl refl False v refl]
      using "3.prems" "3.hyps"(1) n v False by (auto simp: az_read_list.psimps)
    then show ?thesis using d1 d2 by simp
  qed
qed

termination az_value_of
proof (relation "measure (\<lambda>x. case x of Inl (raw, depth, t, d) \<Rightarrow> 2 * length (dec_rest d) + 1
    | Inr (Inl (raw, depth, start, ms, d)) \<Rightarrow> 2 * length (dec_rest d) | Inr (Inr (raw, depth, start, items, d)) \<Rightarrow> 2 * length (dec_rest d))", goal_cases)
qed (auto dest!: az_next_length dest: az_reader_lengths(1))

declare az_value_of.simps [simp del] az_read_object.simps [simp del] az_read_list.simps [simp del]

definition az_read_value :: "string \<Rightarrow> nat \<Rightarrow> decoder \<Rightarrow> read_error + az_value \<times> decoder" where
  "az_read_value raw depth d = (case az_next raw d of Inl e \<Rightarrow> Inl e | Inr (t, d') \<Rightarrow> az_value_of raw depth t d')"

definition az_read_document :: "string \<Rightarrow> read_error + az_value" where
  "az_read_document raw =
     (if first_invalid_utf8 raw < length raw then Inl (ReadNotUtf8 (first_invalid_utf8 raw))
      else if list_all is_space (runes raw) then Inl ReadEmpty
      else
        (case az_read_value raw 0 (new_decoder raw) of
           Inl e \<Rightarrow> Inl e
         | Inr (root, d) \<Rightarrow>
           (case decoder_token d of
              Inl EndOfInput \<Rightarrow> Inr root
            | Inl e \<Rightarrow> Inl (ReadAfter (Some e))
            | Inr _ \<Rightarrow> Inl (ReadAfter None))))"

section \<open>Escapes, as the other reader finds them\<close>

lemma hex_digit_value: "unhex c = Some n \<Longrightarrow> hex_digit_value c = n"
  by (auto simp: unhex_def hex_digit_value_def Let_def split: if_splits)

lemma hex_code_units: "hex_code k v s = Inr (r, t) \<Longrightarrow> foldl (\<lambda>n b. n * 16 + hex_digit_value b) v (take k s) = r"
  by (induction k v s rule: hex_code.induct) (auto simp: hex_digit_value split: option.splits)

lemma hex_code_unit: "hex_code 4 0 s = Inr (r, t) \<Longrightarrow> code_unit (take 4 s) = r \<and> 4 \<le> length s"
  using hex_code_units [of 4 0 s r t] hex_code_length [of 4 0 s r t] by (simp add: code_unit_def)

lemma lone_shift_by: "lone_from (k + i) n s = map_option (map_prod id ((+) k)) (lone_from i n s)"
proof (induction i n s rule: lone_from.induct)
  case (1 i n s)
  show ?case
    unfolding lone_from.simps [of "k + i" n s] lone_from.simps [of i n s]
    using "1.IH" by (auto simp: Let_def add.assoc)
qed

lemma az_lone_none [simp]: "length s \<le> 5 \<Longrightarrow> az_lone_from i s = None"
  by (simp add: az_lone_from.simps)

lemma az_lone_plain: "c \<noteq> backslash \<Longrightarrow> az_lone_from i (c # s) = az_lone_from (i + 1) s"
  by (subst az_lone_from.simps) auto

lemma az_lone_simple: "e \<noteq> CHR ''u'' \<Longrightarrow> az_lone_from i (backslash # e # s) = az_lone_from (i + 2) s"
  by (subst az_lone_from.simps) auto

lemma az_lone_code: "4 \<le> length s \<Longrightarrow> az_lone_from i (backslash # CHR ''u'' # s) =
    (let first = code_unit (take 4 s) in
     if first < 55296 \<or> 57343 < first then az_lone_from (i + 6) (drop 4 s)
     else if 56319 < first \<or> \<not> low_surrogate_escape (drop 4 s) then Some i
     else az_lone_from (i + 12) (drop 10 s))"
  by (subst az_lone_from.simps) (simp add: Let_def)

lemma low_escapes_agree: "string_body v = Inr (y, []) \<Longrightarrow> low_surrogate_escape v = is_low_surrogate_escape v"
proof (cases "6 \<le> length v \<and> v ! 0 = backslash \<and> v ! 1 = CHR ''u''")
  case True
  assume y: "string_body v = Inr (y, [])"
  from True obtain w where w: "v = backslash # CHR ''u'' # w" by (cases v; cases "tl v") auto
  then obtain q z where "hex_code 4 0 w = Inr (q, z)" using y by (auto simp: string_body_code split: sum.splits)
  then have "hex4 w = q" "code_unit (take 4 w) = q" "4 \<le> length w" using hex_code_hex4 hex_code_unit by blast+
  then show ?thesis by (simp add: low_surrogate_escape_def is_low_surrogate_escape_def w)
qed (auto simp: low_surrogate_escape_def is_low_surrogate_escape_def)

lemma lone_agree: "string_body m = Inr (x, []) \<Longrightarrow> az_lone_from i m = map_option snd (lone_from i (length m) m)"
proof (induction m arbitrary: x i rule: length_induct)
  case (1 m)
  note IH = "1.IH" [rule_format]
  show ?case
  proof (cases m rule: string_body_cases)
    case (2 t)
    then show ?thesis using "1.prems" backslash_byte(2) [symmetric] by (simp add: lone_plain az_lone_plain)
  next
    case (4 c t)
    then show ?thesis using "1.prems" IH [of t] by (auto simp: lone_plain az_lone_plain string_body_plain prepend_Inr)
  next
    case (6 e d t)
    then have "e \<noteq> CHR ''u''" by (auto simp: simple_escape_def backslash_def dquote_def)
    then show ?thesis using "1.prems" 6 IH [of t] by (auto simp: lone_simple az_lone_simple string_body_simple prepend_Inr)
  next
    case (8 t)
    then obtain r v where h: "hex_code 4 0 t = Inr (r, v)" using "1.prems" by (auto simp: string_body_code split: sum.splits)
    then obtain p where p: "t = p @ v" "length p = 4" using hex_code_more by blast
    have r: "hex4 t = r" "code_unit p = r" using hex_code_hex4 [OF h] hex_code_unit [OF h] p by auto
    have len: "length v < length m" using 8 p by simp
    obtain z where z: "string_body v = Inr (z, [])" "low_half r v = None \<or> (\<exists>w y. v = backslash # CHR ''u'' # w \<and> 4 \<le> length w \<and> string_body (drop 4 w) = Inr (y, []))"
    proof (cases "low_half r v")
      case None
      then show thesis using that "1.prems" 8 h by (auto simp: string_body_code prepend_Inr)
    next
      case (Some q)
      obtain r' w where q: "q = (r', w)" by (cases q)
      then obtain g a where g: "v = backslash # CHR ''u'' # g" "hex_code 4 0 g = Inr (a, w)" "56320 \<le> a"
        using Some unfolding low_half_Some by (auto simp: low_half_Some)
      then obtain k where k: "g = k @ w" "length k = 4" using hex_code_more by blast
      obtain y where y: "string_body w = Inr (y, [])" using "1.prems" 8 h Some q by (auto simp: string_body_code prepend_Inr)
      moreover obtain z where "string_body v = Inr (z, [])"
        using g(2,3) y by (simp add: g(1) string_body_code prepend_def low_half_def)
      ultimately show thesis using that g k by auto
    qed
    have low: "low_surrogate_escape v = is_low_surrogate_escape v" by (rule low_escapes_agree [OF z(1)])
    have pair: "az_lone_from (i + 12) (drop 6 v) = map_option snd (lone_from (i + 12) (length v - 6) (drop 6 v))"
      if "is_low_surrogate_escape v" "55296 \<le> r" "r < 56320"
    proof -
      from that have "low_half r v \<noteq> None"
      proof -
        from that(1) obtain w where w: "v = backslash # CHR ''u'' # w"
          unfolding is_low_surrogate_escape_def by (cases v; cases "tl v") auto
        then obtain q z' where q: "hex_code 4 0 w = Inr (q, z')" using z(1) by (auto simp: string_body_code split: sum.splits)
        then have "56320 \<le> q" "q < 57344" using that w hex_code_hex4 by (auto simp: low_escape_code)
        then show ?thesis using that w q unfolding low_half_def by (auto simp: has_prefix_def)
      qed
      then obtain w y where w: "v = backslash # CHR ''u'' # w" "4 \<le> length w" "string_body (drop 4 w) = Inr (y, [])" using z(2) by metis
      have "length (drop 4 w) < length m" using len w by simp
      from IH [OF this w(3)] show ?thesis by (simp add: w(1))
    qed
    show ?thesis
      using 8 p r IH [OF len z(1)] low pair by (auto simp: lone_code az_lone_code Let_def)
  qed (use "1.prems" in \<open>simp_all add: string_body_control string_body_bad\<close>)
qed

lemma digits_no_backslash: "digits_of s = Inr (l, t) \<Longrightarrow> backslash \<notin> set l"
  by (auto simp: digits_of_def is_digit_def backslash_def byte_def split: list.splits if_splits dest!: set_takeWhileD)

lemma number_no_backslash: "number_literal s = Inr (l, t) \<Longrightarrow> backslash \<notin> set l"
proof -
  have minus: "backslash \<noteq> CHR ''-''" "backslash \<noteq> CHR ''0''" "backslash \<noteq> CHR ''.''" "backslash \<noteq> CHR ''e''" "backslash \<noteq> CHR ''E''" "backslash \<noteq> CHR ''+''"
    by (simp_all add: backslash_def)
  have part: "number_sign s = Inr (l, t) \<Longrightarrow> backslash \<notin> set l" "number_integer s = Inr (l, t) \<Longrightarrow> backslash \<notin> set l"
    "number_fraction s = Inr (l, t) \<Longrightarrow> backslash \<notin> set l" "number_exponent s = Inr (l, t) \<Longrightarrow> backslash \<notin> set l" for s l t
    using minus by (auto simp: number_sign_def number_integer_def number_fraction_def number_exponent_def prepend_def
        dest: digits_no_backslash split: list.splits if_splits sum.splits)
  define clean where "clean r \<longleftrightarrow> (\<forall>l t. r = Inr (l, t) \<longrightarrow> backslash \<notin> set l)" for r :: "decode_error + string \<times> string"
  have then_clean: "clean r \<Longrightarrow> (\<And>s. clean (f s)) \<Longrightarrow> clean (and_then r f)" for r f
    by (auto simp: clean_def and_then_def prepend_def split: sum.splits)
  have "clean (number_literal s)"
    unfolding number_literal_def by (intro then_clean) (auto simp: clean_def dest: part)
  then show "number_literal s = Inr (l, t) \<Longrightarrow> ?thesis" by (simp add: clean_def)
qed

lemma az_lone_clean: "backslash \<notin> set s \<Longrightarrow> az_lone_from i s = None"
  by (induction s arbitrary: i) (auto simp: az_lone_plain)

lemma lone_of_literal:
  assumes "token_text tok l"
  shows "az_lone_surrogate l = (if is_text tok then map_option snd (lone_from 0 (length l) l) else None)"
proof (cases "is_text tok")
  case True
  then obtain x m where m: "l = dquote # m" "string_body m = Inr (x, [])" using assms by (auto simp: is_text_def)
  then show ?thesis using True lone_agree [OF m(2)] backslash_byte(2) [symmetric]
    by (simp add: az_lone_surrogate_def az_lone_plain lone_plain)
next
  case False
  have "backslash \<notin> set l"
  proof (cases tok)
    case (TokNumber x)
    then show ?thesis using assms number_no_backslash by auto
  qed (use False assms in \<open>auto simp: is_text_def opening_token_def closing_token_def backslash_def split: if_splits\<close>)
  then show ?thesis using False by (simp add: az_lone_surrogate_def az_lone_clean)
qed

section \<open>The two readers\<close>

fun az_error :: "tree_error \<Rightarrow> read_error" where
  "az_error (NotUtf8 at) = ReadNotUtf8 at"
| "az_error EmptyDocument = ReadEmpty"
| "az_error (FromDecoder e) = ReadDecoder e"
| "az_error (LoneSurrogate escape at) = ReadLone at"
| "az_error (TooDeep at) = ReadTooDeep at"
| "az_error (AfterDocument e) = ReadAfter e"
| "az_error NameNotText = ReadNameNotText"

fun az_of :: "json_value \<Rightarrow> az_value" and az_of_member :: "json_member \<Rightarrow> az_member" where
  "az_of (Value k t b ms items raw start finish) = AzValue k t (map az_of_member ms) (map az_of items) (slice start finish raw)"
| "az_of_member (Member name v at) = AzMember name (az_of v)"

lemma az_between [simp]: "az_between_tokens = between_tokens"
  by (rule ext) (simp add: az_between_tokens_def between_tokens_def)

lemma az_next_error: "az_next raw d = Inl e \<Longrightarrow> \<exists>f. next_token raw d = Inl f \<and> az_error f = e"
  by (auto simp: az_next_def next_token_def Let_def split: sum.splits)

lemma az_next_token:
  assumes "az_next raw d = Inr ((tok, s, f), d')" "raw = p @ dec_rest d"
  shows "\<exists>q. raw = q @ dec_rest d'"
    and "case az_lone_surrogate (slice s f raw) of
        None \<Rightarrow> next_token raw d = Inr ((tok, s, f), d')
      | Some at \<Rightarrow> is_text tok \<and> (\<exists>escape. next_token raw d = Inl (LoneSurrogate escape (s + at)))"
proof -
  have d: "decoder_token d = Inr (tok, d')" using assms(1) by (auto simp: az_next_def Let_def split: sum.splits)
  obtain w l where w: "dec_rest d = w @ l @ dec_rest d'" "gap (dec_state d) tok w" "token_text tok l"
    using token_reads d unfolding decoder_token_def by blast
  have raw: "raw = p @ w @ l @ dec_rest d'" using assms(2) w(1) by simp
  then show "\<exists>q. raw = q @ dec_rest d'" by auto
  have o: "input_offset raw d = length p" "input_offset raw d' = length p + (length w + length l)"
    using raw w by (simp_all add: input_offset_def)
  have t: "takeWhile between_tokens (take (length w + length l) (drop (length p) raw)) = w"
    using raw token_scan [OF gap_between [OF w(2)] w(3)] by simp
  have sf: "s = length p + length w" "f = length p + (length w + length l)"
    using assms(1) t by (auto simp: az_next_def d o Let_def slice_def)
  have l: "slice s f raw = l" using raw by (simp add: sf slice_def)
  have lone: "lone_surrogate raw s f = map_option (map_prod id ((+) s)) (lone_from 0 (length l) l)" if istext: "is_text tok"
  proof -
    obtain x m where m: "l = dquote # m" "string_body m = Inr (x, [])" using istext w(3) by (auto simp: is_text_def)
    have "lone_from i (length l) (l @ u) = lone_from i (length l) l" for i u
      using lone_local [OF m(2)] m(1) backslash_byte(2) [symmetric] by (simp add: lone_plain)
    then have "lone_surrogate raw s f = lone_from (s + 0) (length l) l"
      using raw by (simp add: lone_surrogate_def sf)
    then show ?thesis by (simp only: lone_shift_by)
  qed
  have "next_token raw d = (case (if is_text tok then lone_surrogate raw s f else None) of
      Some (escape, at) \<Rightarrow> Inl (LoneSurrogate escape at) | None \<Rightarrow> Inr ((tok, s, f), d'))"
    using t sf by (cases tok) (simp_all add: next_token_def d o Let_def is_text_def split: option.split)
  then show "case az_lone_surrogate (slice s f raw) of
        None \<Rightarrow> next_token raw d = Inr ((tok, s, f), d')
      | Some at \<Rightarrow> is_text tok \<and> (\<exists>escape. next_token raw d = Inl (LoneSurrogate escape (s + at)))"
    using lone lone_of_literal [OF w(3)] by (cases "is_text tok") (auto simp: l split: option.splits)
qed

lemma az_nesting [simp]: "nestingLimit = maxNesting"
  by (simp add: nestingLimit_def maxNesting_def)

lemma slice_bytes: "value_bytes (Value k t b ms items raw i j) = slice i j raw"
  by (simp add: value_bytes_def slice_def)

lemma value_scalars:
  "value_of raw depth (TokString t, i, j) d = Inr (Value kindString t False [] [] raw i j, d)"
  "value_of raw depth (TokNumber t, i, j) d = Inr (Value kindNumber t False [] [] raw i j, d)"
  "value_of raw depth (TokBool b, i, j) d = Inr (Value kindBool [] b [] [] raw i j, d)"
  "value_of raw depth (TokNull, i, j) d = Inr (Value kindNull [] False [] [] raw i j, d)"
  "az_lone_surrogate (slice i j raw) = None \<Longrightarrow> az_value_of raw depth (TokString t, i, j) d = Inr (AzValue kindString t [] [] (slice i j raw), d)"
  "az_value_of raw depth (TokNumber t, i, j) d = Inr (AzValue kindNumber t [] [] (slice i j raw), d)"
  "az_value_of raw depth (TokBool b, i, j) d = Inr (AzValue kindBool [] [] [] (slice i j raw), d)"
  "az_value_of raw depth (TokNull, i, j) d = Inr (AzValue kindNull [] [] [] (slice i j raw), d)"
  by (simp_all add: value_of.simps az_value_of.simps)

lemma az_reads:
  "(\<And>p. raw = p @ dec_rest d \<Longrightarrow> (case t of (TokString x, i, j) \<Rightarrow> az_lone_surrogate (slice i j raw) = None | _ \<Rightarrow> True) \<Longrightarrow>
    az_value_of raw depth t d = map_sum az_error (map_prod az_of id) (value_of raw depth t d) \<and>
    (\<forall>v d'. value_of raw depth t d = Inr (v, d') \<longrightarrow> (\<exists>q. raw = q @ dec_rest d')))"
  "(\<And>p. raw = p @ dec_rest d \<Longrightarrow>
    az_read_object raw depth start (map az_of_member ms) d = map_sum az_error (map_prod az_of id) (read_object raw depth start ms d) \<and>
    (\<forall>v d'. read_object raw depth start ms d = Inr (v, d') \<longrightarrow> (\<exists>q. raw = q @ dec_rest d')))"
  "(\<And>p. raw = p @ dec_rest d \<Longrightarrow>
    az_read_list raw depth start (map az_of items) d = map_sum az_error (map_prod az_of id) (read_array raw depth start items d) \<and>
    (\<forall>v d'. read_array raw depth start items d = Inr (v, d') \<longrightarrow> (\<exists>q. raw = q @ dec_rest d')))"
proof (induction raw depth t d and raw depth start ms d and raw depth start items d rule: value_of_read_object_read_array.induct)
  case (1 raw depth tok start finish d)
  show ?case
  proof (cases tok)
    case (Delim c)
    note rules = value_of.simps [of raw depth "Delim c" start finish d] az_value_of.simps [of raw depth "Delim c" start finish d]
    consider "depth = maxNesting" | "depth \<noteq> maxNesting" "c = CHR ''{''" | "depth \<noteq> maxNesting" "c \<noteq> CHR ''{''" by blast
    then show ?thesis
    proof cases
      case 1
      then show ?thesis unfolding Delim rules by simp
    next
      case 2
      then show ?thesis unfolding Delim rules using "1.IH"(1) [OF Delim 2 "1.prems"(1)] by simp
    next
      case 3
      then show ?thesis unfolding Delim rules using "1.IH"(2) [OF Delim 3 "1.prems"(1)] by simp
    qed
  qed (use "1.prems" in \<open>simp_all add: value_scalars\<close>)
next
  case (2 raw depth start ms d)
  note obj = read_object.simps [of raw depth start ms d] az_read_object.simps [of raw depth start "map az_of_member ms" d]
  show ?case
  proof (cases "az_next raw d")
    case (Inl e)
    then obtain f where "next_token raw d = Inl f" "az_error f = e" using az_next_error by blast
    then show ?thesis using Inl by (simp add: obj)
  next
    case (Inr r)
    obtain tok i j d1 where r: "r = ((tok, i, j), d1)" by (metis prod.exhaust)
    note n1 = az_next_token [OF Inr [unfolded r] "2.prems"]
    obtain q1 where q1: "raw = q1 @ dec_rest d1" using n1(1) by blast
    show ?thesis
    proof (cases "az_lone_surrogate (slice i j raw)")
      case (Some at)
      then show ?thesis using n1(2) Inr r by (auto simp: obj is_text_def)
    next
      case None
      then have n: "next_token raw d = Inr ((tok, i, j), d1)" using n1(2) by simp
      show ?thesis
      proof (cases "tok = Delim (CHR ''}'')")
        case True
        then show ?thesis using n Inr r n1(1) by (simp add: obj)
      next
        case False
        show ?thesis
        proof (cases "az_next raw d1")
          case (Inl e)
          then obtain f where "next_token raw d1 = Inl f" "az_error f = e" using az_next_error by blast
          then show ?thesis using Inl Inr r n None False by (simp add: obj)
        next
          case (Inr r2)
          obtain tok2 i2 j2 d2 where r2: "r2 = ((tok2, i2, j2), d2)" by (metis prod.exhaust)
          note n2 = az_next_token [OF Inr [unfolded r2] q1]
          obtain q2 where q2: "raw = q2 @ dec_rest d2" using n2(1) by blast
          show ?thesis
          proof (cases "az_lone_surrogate (slice i2 j2 raw)")
            case (Some at)
            then obtain x escape where x: "tok2 = TokString x" "next_token raw d1 = Inl (LoneSurrogate escape (i2 + at))"
              using n2(2) by (auto simp: is_text_def)
            then show ?thesis using Inr \<open>az_next raw d = Inr r\<close> r r2 n None False Some by (simp add: obj az_value_of.simps)
          next
            case N2: None
            then have n': "next_token raw d1 = Inr ((tok2, i2, j2), d2)" using n2(2) by simp
            have ok: "case (tok2, i2, j2) of (TokString x, i, j) \<Rightarrow> az_lone_surrogate (slice i j raw) = None | _ \<Rightarrow> True"
              using N2 by (simp split: json_token.split)
            note IH1 = "2.IH"(1) [OF n refl refl refl False n' refl q2 ok]
            show ?thesis
            proof (cases "value_of raw depth (tok2, i2, j2) d2")
              case (Inl e)
              then show ?thesis using IH1 \<open>az_next raw d = Inr r\<close> \<open>az_next raw d1 = Inr r2\<close> r r2 n n' None False by (simp add: obj)
            next
              case (Inr r3)
              obtain v d3 where r3: "r3 = (v, d3)" by (cases r3)
              then obtain q3 where q3: "raw = q3 @ dec_rest d3" using IH1 Inr by auto
              show ?thesis
              proof (cases "\<exists>x. tok = TokString x")
                case True
                then obtain x where x: "tok = TokString x" by blast
                show ?thesis using "2.IH"(2) [OF n refl refl refl False n' refl Inr [unfolded r3] refl x q3]
                  IH1 Inr r3 \<open>az_next raw d = Inr r\<close> \<open>az_next raw d1 = Inr r2\<close> r r2 n n' None False x by (simp add: obj)
              next
                case no: False
                then show ?thesis using IH1 Inr r3 \<open>az_next raw d = Inr r\<close> \<open>az_next raw d1 = Inr r2\<close> r r2 n n' None False
                  by (cases tok) (simp_all add: obj)
              qed
            qed
          qed
        qed
      qed
    qed
  qed
next
  case (3 raw depth start items d)
  note lst = read_array.simps [of raw depth start items d] az_read_list.simps [of raw depth start "map az_of items" d]
  show ?case
  proof (cases "az_next raw d")
    case (Inl e)
    then obtain f where "next_token raw d = Inl f" "az_error f = e" using az_next_error by blast
    then show ?thesis using Inl by (simp add: lst)
  next
    case (Inr r)
    obtain tok i j d1 where r: "r = ((tok, i, j), d1)" by (metis prod.exhaust)
    note n1 = az_next_token [OF Inr [unfolded r] "3.prems"]
    obtain q1 where q1: "raw = q1 @ dec_rest d1" using n1(1) by blast
    show ?thesis
    proof (cases "az_lone_surrogate (slice i j raw)")
      case (Some at)
      then obtain x escape where x: "tok = TokString x" "next_token raw d = Inl (LoneSurrogate escape (i + at))"
        using n1(2) by (auto simp: is_text_def)
      then show ?thesis using Inr r Some by (simp add: lst az_value_of.simps)
    next
      case None
      then have n: "next_token raw d = Inr ((tok, i, j), d1)" using n1(2) by simp
      show ?thesis
      proof (cases "tok = Delim (CHR '']'')")
        case True
        then show ?thesis using n Inr r n1(1) by (simp add: lst)
      next
        case False
        have ok: "case (tok, i, j) of (TokString x, i, j) \<Rightarrow> az_lone_surrogate (slice i j raw) = None | _ \<Rightarrow> True"
          using None by (simp split: json_token.split)
        note IH1 = "3.IH"(1) [OF n refl refl refl False q1 ok]
        show ?thesis
        proof (cases "value_of raw depth (tok, i, j) d1")
          case (Inl e)
          then show ?thesis using IH1 Inr r n None False by (simp add: lst)
        next
          case Inr3: (Inr r3)
          obtain v d3 where r3: "r3 = (v, d3)" by (cases r3)
          then obtain q3 where q3: "raw = q3 @ dec_rest d3" using IH1 Inr3 by auto
          show ?thesis using "3.IH"(2) [OF n refl refl refl False Inr3 [unfolded r3] refl q3] IH1 Inr3 r3 Inr r n None False by (simp add: lst)
        qed
      qed
    qed
  qed
qed

lemma az_read_value_agrees:
  "az_read_value raw 0 (new_decoder raw) = map_sum az_error (map_prod az_of id) (read_value raw 0 (new_decoder raw))"
proof (cases "az_next raw (new_decoder raw)")
  case (Inl e)
  then obtain f where "next_token raw (new_decoder raw) = Inl f" "az_error f = e" using az_next_error by blast
  then show ?thesis using Inl by (simp add: az_read_value_def read_value_def)
next
  case (Inr r)
  obtain tok i j d1 where r: "r = ((tok, i, j), d1)" by (metis prod.exhaust)
  have d: "raw = [] @ dec_rest (new_decoder raw)" by (simp add: new_decoder_def)
  note n1 = az_next_token [OF Inr [unfolded r] d]
  obtain q1 where q1: "raw = q1 @ dec_rest d1" using n1(1) by blast
  show ?thesis
  proof (cases "az_lone_surrogate (slice i j raw)")
    case (Some at)
    then obtain x escape where x: "tok = TokString x" "next_token raw (new_decoder raw) = Inl (LoneSurrogate escape (i + at))"
      using n1(2) by (auto simp: is_text_def)
    then show ?thesis using Inr r Some by (simp add: az_read_value_def read_value_def az_value_of.simps)
  next
    case None
    then have "next_token raw (new_decoder raw) = Inr ((tok, i, j), d1)" using n1(2) by simp
    moreover have "case (tok, i, j) of (TokString x, i, j) \<Rightarrow> az_lone_surrogate (slice i j raw) = None | _ \<Rightarrow> True"
      using None by (simp split: json_token.split)
    ultimately show ?thesis using Inr r az_reads(1) [OF q1, of "(tok, i, j)" 0] by (simp add: az_read_value_def read_value_def)
  qed
qed

lemma az_document_agrees: "az_read_document raw = map_sum az_error az_of (parse_tree raw)"
  by (auto simp: az_read_document_def parse_tree_def az_read_value_agrees split: sum.splits decode_error.splits)

end
