(* ===== verification/Azure_Expression.thy ===== *)
theory Azure_Expression imports Azure_Json begin

text \<open>
  Package parse/azure, expression.go: the claimsMatchingExpression of a flexible credential, read
  into one conjunction; with the facts a reading gathers and the quoting of document text in a
  sentence, from credential.go. A fact that makes the admitted set an upper bound is recorded with a
  caveat of the same sentence.
\<close>

section \<open>A reading\<close>

record az_reading =
  reading_anomalies :: "anomaly list"
  reading_caveats :: "caveat list"

definition az_note :: "anomaly \<Rightarrow> az_reading \<Rightarrow> az_reading" where
  "az_note a r = r\<lparr>reading_anomalies := reading_anomalies r @ [a]\<rparr>"

definition az_doubt :: "anomaly \<Rightarrow> az_reading \<Rightarrow> az_reading" where
  "az_doubt a r =
     (az_note a r)\<lparr>reading_caveats := reading_caveats r @
        [\<lparr>caveat_claim = anomaly_claim a, caveat_reason = anomaly_message a, caveat_source = anomaly_source a\<rparr>]\<rparr>"

definition az_unread :: "anomaly \<Rightarrow> az_reading \<Rightarrow> az_reading" where
  "az_unread a r = (if anomaly_claim a = [] then az_note a r else az_doubt a r)"

definition ClaimFolded :: string where "ClaimFolded = ''claim-folded''"
definition UndocumentedAcceptance :: string where "UndocumentedAcceptance = ''undocumented-acceptance''"

section \<open>Document text in a sentence\<close>

definition quoteLimit :: nat where "quoteLimit = 200"

text \<open>
  clip: the cut goes back to the first byte of a rune, at most three bytes in UTF-8. The function
  stops at the first byte of the text, where the source would index before it.
\<close>

fun rune_start_before :: "string \<Rightarrow> nat \<Rightarrow> nat" where
  "rune_start_before s n = (if n = 0 \<or> \<not> continues (s ! n) then n else rune_start_before s (n - 1))"

definition clip :: "string \<Rightarrow> string \<times> bool" where
  "clip s = (if length s \<le> quoteLimit then (s, False) else (take (rune_start_before s quoteLimit) s, True))"

definition az_quote :: "string \<Rightarrow> string" where
  "az_quote s = (let (s, cut) = clip s; quoted = quote_to_ascii s in if cut then quoted @ ''...'' else quoted)"

definition claim_lookup :: "string \<Rightarrow> string" where
  "claim_lookup name =
     (let (name, cut) = clip name; quoted = quote_to_ascii name;
          escaped = take (length quoted - 2) (drop 1 quoted);
          escaped = (if cut then escaped @ ''...'' else escaped) in
      ''claims['' @ [CHR 0x27] @ escaped @ [CHR 0x27] @ '']'')"

definition truncated :: "string \<Rightarrow> string" where
  "truncated s = (let (s, cut) = clip s in if cut then s @ ''...'' else s)"

text \<open>quoteEach, for at least one word.\<close>

definition quote_each :: "string list \<Rightarrow> string" where
  "quote_each words =
     (let quoted = map az_quote words in
      if length quoted = 1 then hd quoted
      else join_strings '', '' (butlast quoted) @ '' and '' @ last quoted)"

section \<open>The grammar\<close>

definition expressionSource :: string where "expressionSource = ''claimsMatchingExpression.value''"

definition clauseCap :: nat where "clauseCap = 256"

record clause =
  clause_text :: string
  clause_name :: string
  clause_operator :: string
  clause_comparand :: string

definition squote :: char where "squote = CHR 0x27"

text \<open>splitClauses, the loop with the piece it has read since start.\<close>

function split_from :: "string \<Rightarrow> bool \<Rightarrow> string \<Rightarrow> string list" where
  "split_from piece quoted s =
     (case s of
        [] \<Rightarrow> [piece]
      | c # t \<Rightarrow>
        if c = squote then
          (if quoted \<and> t \<noteq> [] \<and> hd t = squote then split_from (piece @ [c, hd t]) quoted (tl t)
           else split_from (piece @ [c]) (\<not> quoted) t)
        else if \<not> quoted \<and> has_prefix s '' and '' then piece # split_from [] quoted (drop 5 s)
        else split_from (piece @ [c]) quoted t)"
  by pat_completeness auto
termination split_from
  by (relation "measure (\<lambda>(piece, quoted, s). length s)") auto

declare split_from.simps [simp del]

definition split_clauses :: "string \<Rightarrow> string list" where
  "split_clauses expression = split_from [] False expression"

definition is_ascii_letter :: "char \<Rightarrow> bool" where
  "is_ascii_letter b \<longleftrightarrow> 97 \<le> byte b \<and> byte b \<le> 122 \<or> 65 \<le> byte b \<and> byte b \<le> 90"

text \<open>scanComparand: the comparand and what follows its closing quote, None for Go's false.\<close>

fun scan_comparand :: "string \<Rightarrow> (string \<times> string) option" where
  "scan_comparand [] = None"
| "scan_comparand [c] = (if c = squote then Some ([], []) else None)"
| "scan_comparand (c # d # s) =
     (if c \<noteq> squote then map_option (map_prod (Cons c) id) (scan_comparand (d # s))
      else if d = squote then map_option (map_prod (\<lambda>x. c # d # x) id) (scan_comparand s)
      else Some ([], d # s))"

definition parse_clause :: "string \<Rightarrow> clause option" where
  "parse_clause t =
     (let (rest, ok) = cut_prefix t (''claims['' @ [CHR 0x27]) in
      if \<not> ok then None
      else
        (let (name, rest, ok) = cut rest [squote] in
         if \<not> ok then None
         else if claim_name name = None then None
         else
           (let (rest, ok) = cut_prefix rest ''] '' in
            if \<not> ok then None
            else
              (let operator = takeWhile is_ascii_letter rest;
                   (rest, ok) = cut_prefix (dropWhile is_ascii_letter rest) ('' '' @ [CHR 0x27]) in
               if operator = [] \<or> \<not> ok then None
               else
                 (case scan_comparand rest of
                    None \<Rightarrow> None
                  | Some (comparand, rest) \<Rightarrow>
                    if rest \<noteq> [] then None
                    else Some \<lparr>clause_text = t, clause_name = name, clause_operator = operator, clause_comparand = comparand\<rparr>)))))"

section \<open>What Microsoft documents\<close>

text \<open>A map of operators by claim is the list of its entries in claim order.\<close>

record language =
  lang_operators :: "(claim_key \<times> string list) list"
  lang_required :: "claim_key list list"

definition eqAndMatches :: "string list" where "eqAndMatches = [''eq'', ''matches'']"
definition eqOnly :: "string list" where "eqOnly = [''eq'']"

definition githubLanguage :: language where
  "githubLanguage =
     \<lparr>lang_operators = [(''job_workflow_ref'', eqAndMatches), (''repository_id'', eqOnly), (''repository_owner_id'', eqOnly), (''sub'', eqAndMatches)],
      lang_required = [[''sub''], [''repository_id'', ''repository_owner_id'']]\<rparr>"

definition subOnly :: language where
  "subOnly = \<lparr>lang_operators = [(''sub'', eqAndMatches)], lang_required = []\<rparr>"

definition no_language :: language where
  "no_language = \<lparr>lang_operators = [], lang_required = []\<rparr>"

definition is_gitlab_issuer :: "string \<Rightarrow> bool" where
  "is_gitlab_issuer issuer =
     (let (host, ok) = cut_prefix issuer ''https://gitlab.'' in
      if \<not> ok \<or> contains_any host ''/'' then False
      else if host = ''com'' then True
      else list_ex (\<lambda>tld. let (middle, ok) = cut_suffix host tld in ok \<and> middle \<noteq> []) [''.com'', ''.ca''])"

definition documented_language :: "string \<Rightarrow> language \<times> bool" where
  "documented_language issuer =
     (if issuer = ''https://token.actions.githubusercontent.com'' then (githubLanguage, True)
      else if issuer = ''https://app.terraform.io'' \<or> issuer = ''https://app.eu.terraform.io'' then (subOnly, True)
      else if is_gitlab_issuer issuer then (subOnly, True)
      else (no_language, False))"

definition spell_claims :: "claim_key list \<Rightarrow> string" where
  "spell_claims cs = join_strings '' or '' cs"

text \<open>lowerASCII and equalFoldASCII, on bytes.\<close>

definition lower_byte :: "char \<Rightarrow> char" where
  "lower_byte c = (if 65 \<le> byte c \<and> byte c \<le> 90 then chr (byte c + 97 - 65) else c)"

definition az_equal_fold :: "string \<Rightarrow> string \<Rightarrow> bool" where
  "az_equal_fold a b \<longleftrightarrow> length a = length b \<and> list_all2 (\<lambda>x y. lower_byte x = lower_byte y) a b"

definition credentialClaims :: "claim_key list" where "credentialClaims = [''aud'', ''sub'']"

section \<open>Evaluation\<close>

text \<open>The widenings of the whole expression: sub is Unknown and nothing else is constrained.\<close>

definition sub_doubt :: "string \<Rightarrow> string \<Rightarrow> anomaly" where
  "sub_doubt construct message =
     \<lparr>anomaly_kind = Unmodelled, anomaly_claim = ''sub'', anomaly_construct = construct, anomaly_message = message,
      anomaly_source = expressionSource\<rparr>"

definition unbalanced :: "az_reading \<Rightarrow> claim_term \<times> az_reading" where
  "unbalanced r =
     ([(''sub'', Unknown ''unparseable expression'')],
      az_doubt (sub_doubt ''unbalanced quote''
        (''the expression holds an odd number of single quotes, so where its claim names and comparands begin and end cannot be read; Microsoft'' @ [CHR 0x27] @ ''s grammar encloses each in single quotes, so nothing the expression says about the token is modelled'')) r)"

definition too_many_clauses :: "nat \<Rightarrow> az_reading \<Rightarrow> claim_term \<times> az_reading" where
  "too_many_clauses n r =
     ([(''sub'', Unknown ''too many clauses'')],
      az_doubt (sub_doubt ''clause count''
        (''the expression has '' @ itoa (int n) @ '' clauses; Microsoft documents at most four claims for any issuer, and this parser reads at most '' @
         itoa (int clauseCap) @ '' clauses, so nothing the expression says about the token is modelled'')) r)"

definition broken_piece :: "string \<Rightarrow> anomaly" where
  "broken_piece t =
     (if t = []
      then sub_doubt ''empty clause''
        (''the expression has an empty clause: '' @ [dquote] @ ''and'' @ [dquote] @ '' is written with nothing on one side of it; Microsoft'' @ [CHR 0x27] @ ''s grammar joins clauses of the form claims['' @ [CHR 0x27] @ ''<name>'' @ [CHR 0x27] @ ''] eq '' @ [CHR 0x27] @ ''<value>'' @ [CHR 0x27] @ '' or claims['' @ [CHR 0x27] @ ''<name>'' @ [CHR 0x27] @ ''] matches '' @ [CHR 0x27] @ ''<value>'' @ [CHR 0x27] @ '' with '' @ [dquote] @ ''and'' @ [dquote] @ '', so nothing the expression says about the token is modelled'')
      else sub_doubt ''unparseable clause''
        (az_quote t @ ('' is not of the form claims['' @ [CHR 0x27] @ ''<name>'' @ [CHR 0x27] @ ''] eq '' @ [CHR 0x27] @ ''<value>'' @ [CHR 0x27] @ '' or claims['' @ [CHR 0x27] @ ''<name>'' @ [CHR 0x27] @ ''] matches '' @ [CHR 0x27] @ ''<value>'' @ [CHR 0x27] @ ''; Microsoft documents no other form, so nothing the expression says about the token is modelled'')))"

definition unparseable :: "string \<Rightarrow> string list \<Rightarrow> az_reading \<Rightarrow> claim_term \<times> az_reading" where
  "unparseable expression broken r =
     ([(''sub'', Unknown ''unparseable expression'')],
      if trim_space expression = []
      then az_doubt (sub_doubt ''empty expression''
        ''claimsMatchingExpression.value is empty; Microsoft documents no empty expression, so nothing the expression says about the token is modelled'') r
      else fold (\<lambda>t. az_doubt (broken_piece t)) broken r)"

definition claim_key_of :: "string \<Rightarrow> language \<Rightarrow> az_reading \<Rightarrow> claim_key \<times> az_reading" where
  "claim_key_of name lang r =
     (if name \<in> set (map fst (lang_operators lang)) \<or> name \<in> set credentialClaims then (name, r)
      else
        (case find (\<lambda>documented. az_equal_fold documented name) (map fst (lang_operators lang) @ credentialClaims) of
           Some documented \<Rightarrow>
             (documented,
              az_doubt \<lparr>anomaly_kind = ClaimFolded, anomaly_claim = documented, anomaly_construct = claim_lookup name,
                anomaly_message = claim_lookup name @ '' is read as '' @ claim_lookup documented @ ''; Microsoft does not say whether claim names are case-sensitive'',
                anomaly_source = expressionSource\<rparr> r)
         | None \<Rightarrow> (name, r)))"

text \<open>constraint: the set a clause admits for its claim. Its widen records the doubt and returns the Unknown.\<close>

definition az_widen :: "claim_key \<Rightarrow> string \<Rightarrow> string \<Rightarrow> string \<Rightarrow> az_reading \<Rightarrow> string_set \<times> az_reading" where
  "az_widen key why construct message r =
     (Unknown why,
      az_doubt \<lparr>anomaly_kind = Unmodelled, anomaly_claim = key, anomaly_construct = construct, anomaly_message = message,
        anomaly_source = expressionSource\<rparr> r)"

definition constraint_of :: "clause \<Rightarrow> claim_key \<Rightarrow> language \<Rightarrow> bool \<Rightarrow> string \<Rightarrow> az_reading \<Rightarrow> string_set \<times> az_reading" where
  "constraint_of c key lang documented issuer r =
     (let quoted = az_quote (clause_text c); operators = map_of (lang_operators lang) key in
      if \<not> documented \<and> issuer = [] then
        az_widen key ''undocumented issuer'' (az_quote issuer)
          (''Microsoft documents claim expressions for GitHub, GitLab and Terraform Cloud issuers; whether Entra evaluates '' @ quoted @
           '' without an issuer is not documented'') r
      else if \<not> documented then
        az_widen key ''undocumented issuer'' (az_quote issuer)
          (''Microsoft documents claim expressions for GitHub, GitLab and Terraform Cloud issuers; whether Entra evaluates '' @ quoted @
           '' for issuer '' @ az_quote issuer @ '' is not documented'') r
      else if index_of (clause_comparand c) [squote, squote] \<noteq> None then
        az_widen key ''escaped quote'' ''escaped quote''
          (''the comparand of '' @ quoted @ '' holds a doubled single quote; Microsoft says single quotes are escape characters and does not say what a doubled quote means'') r
      else if clause_comparand c = [] then
        az_widen key ''empty comparand'' ''empty comparand''
          (quoted @ '' compares against the empty string; Microsoft does not say whether Entra accepts an empty comparand'') r
      else
        (case operators of
           None \<Rightarrow>
             az_widen key ''undocumented claim'' (claim_lookup key)
               (''Microsoft does not list '' @ claim_lookup key @ '' for issuer '' @ az_quote issuer @ '', so whether Entra evaluates '' @ quoted @
                '' is not documented'') r
         | Some operators \<Rightarrow>
             if clause_operator c \<notin> set operators then
               az_widen key ''undocumented operator'' (truncated (clause_operator c))
                 (''Microsoft lists '' @ quote_each operators @ '' for '' @ claim_lookup key @ '' under issuer '' @ az_quote issuer @ '', not '' @
                  az_quote (clause_operator c) @ '', so whether Entra evaluates '' @ quoted @ '' is not documented'') r
             else if clause_operator c = ''eq'' then (Exact (clause_comparand c), r)
             else
               (let s = Glob (clause_comparand c) in
                (s,
                 if is_top s
                 then az_note \<lparr>anomaly_kind = UndocumentedAcceptance, anomaly_claim = key, anomaly_construct = truncated (clause_comparand c),
                   anomaly_message = quoted @ '' matches every value; Microsoft does not say whether Entra accepts a pattern that constrains nothing'',
                   anomaly_source = expressionSource\<rparr> r
                 else r))))"

text \<open>required: what an expression for the issuer must name.\<close>

definition missing_claim :: "claim_key list \<Rightarrow> string \<Rightarrow> anomaly" where
  "missing_claim claims issuer =
     sub_doubt ''missing required claim''
       (''the expression names no clause on '' @ spell_claims claims @ ''; Microsoft says a flexible federated identity credential for issuer '' @
        az_quote issuer @ '' must match '' @ (if 1 < length claims then ''one of them'' else ''it'') @
        '', so whether Entra accepts or evaluates this expression is not documented'')"

definition required :: "claim_term \<Rightarrow> claim_key list \<Rightarrow> language \<Rightarrow> string \<Rightarrow> az_reading \<Rightarrow> claim_term \<times> az_reading" where
  "required t keys lang issuer r =
     (let missing = filter (\<lambda>claims. \<not> list_ex (\<lambda>k. k \<in> set keys) claims) (lang_required lang) in
      (if missing = [] then t else [(''sub'', Unknown ''required claim missing'')],
       fold (\<lambda>claims. az_doubt (missing_claim claims issuer)) missing r))"

text \<open>The loop of evaluate that finds the clauses' keys, and the one that gathers their sets.\<close>

fun claim_keys :: "clause list \<Rightarrow> language \<Rightarrow> az_reading \<Rightarrow> claim_key list \<times> az_reading" where
  "claim_keys [] lang r = ([], r)"
| "claim_keys (c # cs) lang r =
     (let (key, r) = claim_key_of (clause_name c) lang r; (keys, r) = claim_keys cs lang r in (key # keys, r))"

definition repeated_claim :: "claim_key \<Rightarrow> nat \<Rightarrow> anomaly" where
  "repeated_claim key n =
     \<lparr>anomaly_kind = Unmodelled, anomaly_claim = key, anomaly_construct = ''repeated claim'',
      anomaly_message = claim_lookup key @ '' is constrained by '' @ itoa (int n) @
        ('' clauses; Microsoft documents '' @ [dquote] @ ''and'' @ [dquote] @ '' for combining expressions against different claims and does not say what a repeated claim means''),
      anomaly_source = expressionSource\<rparr>"

fun constrain :: "(clause \<times> claim_key) list \<Rightarrow> claim_key list \<Rightarrow> language \<Rightarrow> bool \<Rightarrow> string \<Rightarrow> claim_term \<Rightarrow> az_reading \<Rightarrow> claim_term \<times> az_reading" where
  "constrain [] keys lang documented issuer t r = (t, r)"
| "constrain ((c, key) # cs) keys lang documented issuer t r =
     (let (s, r) = constraint_of c key lang documented issuer r; n = count_list keys key;
          r = (if 1 < n \<and> map_of t key = None then az_doubt (repeated_claim key n) r else r);
          s = (if 1 < n then Unknown ''repeated claim'' else s) in
      constrain cs keys lang documented issuer (put key s t) r)"

definition az_evaluate :: "string \<Rightarrow> string \<Rightarrow> az_reading \<Rightarrow> claim_term \<times> az_reading" where
  "az_evaluate expression issuer r =
     (if odd (count_list expression squote) then unbalanced r
      else
        (let pieces = split_clauses expression in
         if clauseCap < length pieces then too_many_clauses (length pieces) r
         else
           (let clauses = List.map_filter parse_clause pieces;
                broken = filter (\<lambda>t. parse_clause t = None) pieces in
            if broken \<noteq> [] then unparseable expression broken r
            else
              (let (lang, documented) = documented_language issuer;
                   (keys, r) = claim_keys clauses lang r;
                   (t, r) = constrain (zip clauses keys) keys lang documented issuer [] r in
               required t keys lang issuer r))))"

end
