(* ===== verification/Azure_Credential.thy ===== *)
theory Azure_Credential imports Azure_Expression begin

text \<open>
  Package parse/azure, credential.go: the credentials in a document, whichever of the shapes it has,
  and what one of them states: its labels, issuer, subject, expression and audiences, the set they
  admit and the facts about them. A Go pointer or a Term that may be nil is an option; a reading is
  threaded through the members in the order the code reads them.
\<close>

section \<open>Kinds of facts\<close>

definition AzDuplicateKey :: string where "AzDuplicateKey = ''duplicate-key''"
definition AzMalformed :: string where "AzMalformed = ''malformed''"
definition NoSubjectConstraint :: string where "NoSubjectConstraint = ''no-subject-constraint''"
definition SubjectAndExpression :: string where "SubjectAndExpression = ''subject-and-expression''"
definition AudienceCount :: string where "AudienceCount = ''audience-count''"
definition MiscasedKey :: string where "MiscasedKey = ''miscased-key''"
definition EmptySubject :: string where "EmptySubject = ''empty-subject''"
definition MissingIssuer :: string where "MissingIssuer = ''missing-issuer''"
definition IssuerScheme :: string where "IssuerScheme = ''issuer-scheme''"
definition IssuerWhitespace :: string where "IssuerWhitespace = ''issuer-whitespace''"

section \<open>Credentials\<close>

record az_expression =
  expression_value :: string
  expression_version :: int

record credential =
  cred_id :: string
  cred_name :: string
  cred_issuer :: string
  cred_subject :: string
  cred_audiences :: "string list option"
  cred_expression :: "az_expression option"
  cred_anomalies :: "anomaly list"
  cred_issuer_ref :: string
  cred_admits :: admitted_set
  cred_raw :: "string option"

definition credentialMembers :: "string list" where
  "credentialMembers = [''issuer'', ''subject'', ''audiences'', ''claimsMatchingExpression'']"

definition labelMembers :: "string list" where "labelMembers = [''id'', ''name'', ''description'']"
definition expressionMembers :: "string list" where "expressionMembers = [''value'', ''languageVersion'']"

section \<open>The credentials in a document\<close>

text \<open>members: every value written under a name.\<close>

definition members_named :: "az_member list \<Rightarrow> string \<Rightarrow> az_value list" where
  "members_named ms name = map az_member_value (filter (\<lambda>m. az_name m = name) ms)"

definition is_credential :: "az_member list \<Rightarrow> bool" where
  "is_credential ms \<longleftrightarrow> list_ex (\<lambda>m. list_ex (\<lambda>mark. az_equal_fold mark (az_name m)) credentialMembers) ms"

definition not_a_credential :: "string \<Rightarrow> string" where
  "not_a_credential spot =
     spot @ '' is not a credential: no issuer, subject, audiences or claimsMatchingExpression member, and no properties member holding one''"

record resource =
  res_object :: az_value
  res_credential :: "az_value option"

definition resource_of :: "az_value \<Rightarrow> string \<Rightarrow> string + resource" where
  "resource_of v spot =
     (let properties = members_named (az_members v) ''properties'' in
      if 1 < length properties then
        Inl ((''the member '' @ [dquote] @ ''properties'' @ [dquote] @ '' is written '') @ itoa (int (length properties)) @ '' times, so '' @ spot @ '' is not one resource'')
      else
        (let own = is_credential (az_members v);
             held = length properties = 1 \<and> az_kind (hd properties) = kindObject \<and> is_credential (az_members (hd properties)) in
         if own \<and> held then
           Inl (spot @ '' carries both credential members and a properties object holding credential members, so it is neither one credential nor one resource'')
         else if own then Inr \<lparr>res_object = v, res_credential = Some v\<rparr>
         else if held then Inr \<lparr>res_object = v, res_credential = Some (hd properties)\<rparr>
         else Inr \<lparr>res_object = v, res_credential = None\<rparr>))"

definition miscased_collection :: "az_member list \<Rightarrow> az_member option" where
  "miscased_collection ms =
     find (\<lambda>m. az_name m \<noteq> ''value'' \<and> az_equal_fold ''value'' (az_name m) \<and>
        (az_kind (az_member_value m) = kindList \<or> az_kind (az_member_value m) = kindObject)) ms"

definition describe_container :: "az_value \<Rightarrow> string" where
  "describe_container v = (if az_kind v = kindList then ''a value list'' else ''a value object'')"

fun listed_from :: "nat \<Rightarrow> az_value list \<Rightarrow> string \<Rightarrow> string + resource list" where
  "listed_from i [] pre = Inr []"
| "listed_from i (item # items) pre =
     (let spot = pre @ ''['' @ itoa (int i) @ '']'' in
      if az_kind item \<noteq> kindObject then Inl (spot @ '' is '' @ kind_string (az_kind item) @ '', not a credential'')
      else
        (case resource_of item spot of
           Inl e \<Rightarrow> Inl e
         | Inr res \<Rightarrow>
           if res_credential res = None then Inl (not_a_credential spot)
           else map_sum id (Cons res) (listed_from (i + 1) items pre)))"

definition listed_resources :: "az_value \<Rightarrow> string \<Rightarrow> string + resource list" where
  "listed_resources v pre = listed_from 0 (az_items v) pre"

text \<open>
  resourcesIn. The container is the one value member that holds a list or an object; own.credential
  == root, a comparison of pointers, says the document is itself the credential, as resource_of
  returns it only then.
\<close>

definition resources_in :: "az_value \<Rightarrow> string + resource list" where
  "resources_in root =
     (if az_kind root = kindList then listed_resources root []
      else if az_kind root \<noteq> kindObject then
        Inl (''the document is '' @ kind_string (az_kind root) @ '', not an object or a list'')
      else
        (let vs = members_named (az_members root) ''value'' in
         if 1 < length vs then
           Inl ((''the member '' @ [dquote] @ ''value'' @ [dquote] @ '' is written '') @ itoa (int (length vs)) @ '' times, so the document is not one collection'')
         else
           (case miscased_collection (az_members root) of
              Some m \<Rightarrow>
                Inl (''the member '' @ az_quote (az_name m) @ '' holds '' @ kind_string (az_kind (az_member_value m)) @
                  ('' and differs from Graph'' @ [CHR 0x27] @ ''s '' @ [dquote] @ ''value'' @ [dquote] @ '' only in case; Graph member names are exact, so the document is neither one credential nor a collection''))
            | None \<Rightarrow>
              (let container = (if length vs = 1 \<and> (az_kind (hd vs) = kindList \<or> az_kind (hd vs) = kindObject) then Some (hd vs) else None) in
               case resource_of root ''the document'' of
                 Inl e \<Rightarrow> Inl e
               | Inr own \<Rightarrow>
                 (case container of
                    Some c \<Rightarrow>
                      if res_credential own \<noteq> None \<and> is_credential (az_members root) then
                        Inl (''the document carries both '' @ describe_container c @ '' and credential members, so it is neither one credential nor a collection'')
                      else if res_credential own \<noteq> None then
                        Inl (''the document carries both '' @ describe_container c @
                          '' and a properties object holding credential members, so it is neither one resource nor a collection'')
                      else if az_kind c = kindList then listed_resources c ''value''
                      else
                        (case resource_of c ''value'' of
                           Inl e \<Rightarrow> Inl e
                         | Inr single \<Rightarrow> if res_credential single = None then Inl (not_a_credential ''value'') else Inr [single])
                  | None \<Rightarrow>
                      if res_credential own \<noteq> None then Inr [own]
                      else Inl (not_a_credential ''the document''))))))"

section \<open>Members\<close>

text \<open>file: the values under each known name, in document order.\<close>

type_synonym az_filed = "string \<Rightarrow> az_value list"

definition miscased_key :: "string \<Rightarrow> string \<Rightarrow> string \<Rightarrow> anomaly" where
  "miscased_key written name spot =
     \<lparr>anomaly_kind = MiscasedKey, anomaly_claim = [], anomaly_construct = written,
      anomaly_message = ''the member '' @ az_quote written @ ('' differs from Graph'' @ [CHR 0x27] @ ''s '') @ az_quote name @
        '' only in case; Graph member names are exact, so it is not read as '' @ name,
      anomaly_source = spot @ written\<rparr>"

fun az_file :: "az_member list \<Rightarrow> string list \<Rightarrow> string \<Rightarrow> az_filed \<Rightarrow> az_reading \<Rightarrow> az_filed \<times> az_reading" where
  "az_file [] known spot filed r = (filed, r)"
| "az_file (m # ms) known spot filed r =
     (if az_name m \<in> set known
      then az_file ms known spot (filed(az_name m := filed (az_name m) @ [az_member_value m])) r
      else
        (case find (\<lambda>name. az_equal_fold name (az_name m)) known of
           Some name \<Rightarrow> az_file ms known spot filed (az_note (miscased_key (az_name m) name spot) r)
         | None \<Rightarrow> az_file ms known spot filed r))"

definition file_members :: "az_member list \<Rightarrow> string list \<Rightarrow> string \<Rightarrow> az_reading \<Rightarrow> az_filed \<times> az_reading" where
  "file_members ms known spot r = az_file ms known spot (\<lambda>_. []) r"

text \<open>member: the value, or what its claim becomes, or neither.\<close>

definition az_member_of :: "az_filed \<Rightarrow> string \<Rightarrow> claim_key \<Rightarrow> string \<Rightarrow> az_reading \<Rightarrow> (az_value option \<times> string_set option) \<times> az_reading" where
  "az_member_of filed name claim spot r =
     (let vs = filed name in
      if 1 < length vs then
        ((None, Some (Unknown ''duplicate key'')),
         az_unread \<lparr>anomaly_kind = AzDuplicateKey, anomaly_claim = claim, anomaly_construct = name,
           anomaly_message = ''the member '' @ az_quote name @ '' is written '' @ itoa (int (length vs)) @
             '' times; which one Entra would apply is not stated, so it is not read'',
           anomaly_source = spot @ name\<rparr> r)
      else if length vs = 0 \<or> az_kind (hd vs) = kindNull then ((None, None), r)
      else ((Some (hd vs), None), r))"

definition wrong_type :: "az_value \<Rightarrow> string \<Rightarrow> claim_key \<Rightarrow> string \<Rightarrow> string \<Rightarrow> az_reading \<Rightarrow> string_set \<times> az_reading" where
  "wrong_type v name claim spot defined r =
     (Unknown ''wrong type'',
      az_unread \<lparr>anomaly_kind = AzMalformed, anomaly_claim = claim, anomaly_construct = name,
        anomaly_message = spot @ name @ '' is '' @ kind_string (az_kind v) @ ''; Graph defines it as '' @ defined @ '', so it is not read'',
        anomaly_source = spot @ name\<rparr> r)"

definition text_of :: "az_filed \<Rightarrow> string \<Rightarrow> claim_key \<Rightarrow> string \<Rightarrow> az_reading \<Rightarrow> (string \<times> bool \<times> string_set option) \<times> az_reading" where
  "text_of filed name claim spot r =
     (let ((v, unknown), r) = az_member_of filed name claim spot r in
      case unknown of
        Some u \<Rightarrow> (([], True, Some u), r)
      | None \<Rightarrow>
        (case v of
           None \<Rightarrow> (([], False, None), r)
         | Some v \<Rightarrow>
           if az_kind v \<noteq> kindString
           then (let (u, r) = wrong_type v name claim spot ''a string'' r in (([], True, Some u), r))
           else ((az_text v, True, None), r)))"

definition label_of :: "az_filed \<Rightarrow> string \<Rightarrow> az_reading \<Rightarrow> string \<times> az_reading" where
  "label_of filed name r = (let ((t, _, _), r) = text_of filed name [] [] r in (t, r))"

section \<open>The issuer\<close>

definition issuer_fact :: "string \<Rightarrow> string \<Rightarrow> anomaly" where
  "issuer_fact kind message =
     \<lparr>anomaly_kind = kind, anomaly_claim = [], anomaly_construct = ''issuer'', anomaly_message = message, anomaly_source = ''issuer''\<rparr>"

definition az_issuer_of :: "az_filed \<Rightarrow> az_reading \<Rightarrow> (string \<times> string) \<times> az_reading" where
  "az_issuer_of filed r =
     (let ((written, present, unknown), r) = text_of filed ''issuer'' [] [] r in
      if unknown \<noteq> None then (([], []), r)
      else
        (let trimmed = trim_space written in
         if \<not> present \<or> trimmed = [] then
           ((written, []),
            az_note (issuer_fact MissingIssuer
              ''no issuer is set; Microsoft requires one, so which identity provider this credential trusts is not stated'') r)
         else
           (case normalise_issuer trimmed of
              None \<Rightarrow>
                ((written, []),
                 az_note (issuer_fact MissingIssuer
                   (''issuer '' @ az_quote written @ '' names no host, so which identity provider this credential trusts is not stated'')) r)
            | Some issuer \<Rightarrow>
                (let r = (if trimmed \<noteq> written
                       then az_note (issuer_fact IssuerWhitespace
                         (''issuer '' @ az_quote written @
                          ('' has leading or trailing whitespace; Microsoft says an issuer claim with leading or trailing whitespace blocks the token exchange, so this credential may admit no token; it is read as trusting the issuer with the whitespace removed''))) r
                       else r);
                     r = (if \<not> has_prefix trimmed ''https://''
                       then az_note (issuer_fact IssuerScheme
                         (''issuer '' @ az_quote written @
                          ('' does not begin with https://; Entra matches it against the token'' @ [CHR 0x27] @ ''s iss claim, and every documented issuer states its iss as an https URL''))) r
                       else r) in
                 ((written, issuer), r)))))"

section \<open>Subject, audience and expression\<close>

definition subject_term :: "az_filed \<Rightarrow> az_reading \<Rightarrow> (string \<times> claim_term option) \<times> az_reading" where
  "subject_term filed r =
     (let ((subject, present, unknown), r) = text_of filed ''subject'' ''sub'' [] r in
      case unknown of
        Some u \<Rightarrow> (([], Some [(''sub'', u)]), r)
      | None \<Rightarrow>
        if \<not> present then (([], None), r)
        else if subject = [] then
          (([], None),
           az_note \<lparr>anomaly_kind = EmptySubject, anomaly_claim = ''sub'', anomaly_construct = ''subject'',
             anomaly_message = ''subject is the empty string; Graph documents subject as nullable and no documented issuer mints a token whose sub is empty, so it is read as no subject'',
             anomaly_source = ''subject''\<rparr> r)
        else ((subject, Some [(''sub'', Exact subject)]), r))"

definition audienceCap :: nat where "audienceCap = 256"

definition audience_doubt :: "string \<Rightarrow> string \<Rightarrow> string \<Rightarrow> anomaly" where
  "audience_doubt kind construct message =
     \<lparr>anomaly_kind = kind, anomaly_claim = ''aud'', anomaly_construct = construct, anomaly_message = message, anomaly_source = ''audiences''\<rparr>"

definition no_audience :: "az_reading \<Rightarrow> string_set \<times> az_reading" where
  "no_audience r =
     (Unknown ''no audience'',
      az_doubt (audience_doubt AudienceCount ''audiences''
        ''no audience is set; Microsoft requires exactly one, so the audience this credential accepts is not stated'') r)"

text \<open>The loop over the audiences: their texts and sets, None for an item that is no string.\<close>

fun audience_items :: "nat \<Rightarrow> az_value list \<Rightarrow> az_reading \<Rightarrow> (string list \<times> string_set list) option \<times> az_reading" where
  "audience_items i [] r = (Some ([], []), r)"
| "audience_items i (item # items) r =
     (let at = ''audiences['' @ itoa (int i) @ '']'' in
      if az_kind item \<noteq> kindString then
        (None,
         az_doubt (audience_doubt AzMalformed ''audiences''
           (at @ '' is '' @ kind_string (az_kind item) @ ''; Graph defines audiences as a list of strings, so it is not read'')) r)
      else
        (let (s, r) =
           (if az_text item = []
            then (Unknown ''empty audience'',
              az_doubt (audience_doubt Unmodelled ''empty audience''
                (at @ '' is the empty string; no documented issuer mints a token whose aud is empty and Microsoft does not say what Entra does with an empty audience, so the audience this credential accepts is not stated'')) r)
            else (Exact (az_text item), r));
           (rest, r) = audience_items (i + 1) items r in
         (map_option (\<lambda>(texts, sets). (az_text item # texts, s # sets)) rest, r)))"

definition az_audience :: "az_filed \<Rightarrow> az_reading \<Rightarrow> (string list option \<times> string_set) \<times> az_reading" where
  "az_audience filed r =
     (let ((v, unknown), r) = az_member_of filed ''audiences'' ''aud'' [] r in
      case unknown of
        Some u \<Rightarrow> ((None, u), r)
      | None \<Rightarrow>
        (case v of
           None \<Rightarrow> (let (u, r) = no_audience r in ((None, u), r))
         | Some v \<Rightarrow>
           if az_kind v \<noteq> kindList then (let (u, r) = wrong_type v ''audiences'' ''aud'' [] ''a list of strings'' r in ((None, u), r))
           else if audienceCap < length (az_items v) then
             ((None, Unknown ''too many audiences''),
              az_doubt (audience_doubt AudienceCount ''audiences''
                (itoa (int (length (az_items v))) @ '' audiences are set; Microsoft accepts exactly one, and this parser reads at most '' @
                 itoa (int audienceCap) @ '', so the audience this credential accepts is not stated'')) r)
           else
             (let (items, r) = audience_items 0 (az_items v) r in
              case items of
                None \<Rightarrow> ((None, Unknown ''wrong type''), r)
              | Some (audiences, sets) \<Rightarrow>
                if audiences = [] then (let (u, r) = no_audience r in ((None, u), r))
                else
                  (let r = (if 1 < length audiences
                     then az_note (audience_doubt AudienceCount ''audiences''
                       (itoa (int (length audiences)) @ '' audiences are set; Microsoft accepts exactly one, so the credential is read as accepting any of them'')) r
                     else r) in
                   ((Some audiences, foldl join (hd sets) (tl sets)), r)))))"

definition expression_doubt :: "string \<Rightarrow> string \<Rightarrow> string \<Rightarrow> string \<Rightarrow> anomaly" where
  "expression_doubt kind construct message src =
     \<lparr>anomaly_kind = kind, anomaly_claim = ''sub'', anomaly_construct = construct, anomaly_message = message, anomaly_source = src\<rparr>"

text \<open>strconv.ParseInt to 32 bits of a number's literal, asked only whether it is the integer 1.\<close>

definition literal_is_one :: "string \<Rightarrow> bool" where
  "literal_is_one s =
     (let ds = (if has_prefix s ''+'' then drop 1 s else s) in ds \<noteq> [] \<and> list_all is_digit ds \<and> undigits ds = 1)"

definition expression_term :: "az_filed \<Rightarrow> string \<Rightarrow> az_reading \<Rightarrow> (az_expression option \<times> claim_term option) \<times> az_reading" where
  "expression_term filed issuer r =
     (let ((v, unknown), r) = az_member_of filed ''claimsMatchingExpression'' ''sub'' [] r in
      case unknown of
        Some u \<Rightarrow> ((None, Some [(''sub'', u)]), r)
      | None \<Rightarrow>
        (case v of
           None \<Rightarrow> ((None, None), r)
         | Some v \<Rightarrow>
           if az_kind v \<noteq> kindObject then
             (let (u, r) = wrong_type v ''claimsMatchingExpression'' ''sub'' [] ''an object'' r in ((None, Some [(''sub'', u)]), r))
           else
             (let spot = ''claimsMatchingExpression.'';
                  (inner, r) = file_members (az_members v) expressionMembers spot r;
                  e = \<lparr>expression_value = [], expression_version = 0\<rparr>;
                  ((t, present, unknown), r) = text_of inner ''value'' ''sub'' spot r in
              if unknown \<noteq> None then ((Some e, Some [(''sub'', the unknown)]), r)
              else if \<not> present then
                ((Some e, Some [(''sub'', Unknown ''unreadable expression'')]),
                 az_doubt (expression_doubt AzMalformed ''value''
                   ''claimsMatchingExpression has no value; Graph requires one, so the expression is not read'' (spot @ ''value'')) r)
              else
                (let e = e\<lparr>expression_value := t\<rparr>;
                     ((version, unknown), r) = az_member_of inner ''languageVersion'' ''sub'' spot r in
                 case unknown of
                   Some u \<Rightarrow> ((Some e, Some [(''sub'', u)]), r)
                 | None \<Rightarrow>
                   (case version of
                      None \<Rightarrow>
                        ((Some e, Some [(''sub'', Unknown ''language version'')]),
                         az_doubt (expression_doubt AzMalformed ''languageVersion''
                           ''claimsMatchingExpression has no languageVersion; Graph requires one, so the expression is not read'' (spot @ ''languageVersion'')) r)
                    | Some version \<Rightarrow>
                      if az_kind version \<noteq> kindNumber then
                        (let (u, r) = wrong_type version ''languageVersion'' ''sub'' spot ''an integer'' r in ((Some e, Some [(''sub'', u)]), r))
                      else if \<not> literal_is_one (az_text version) then
                        ((Some e, Some [(''sub'', Unknown ''language version'')]),
                         az_doubt (expression_doubt Unmodelled (truncated (az_text version))
                           (''claimsMatchingExpression.languageVersion is '' @ truncated (az_text version) @
                            ''; Microsoft documents version 1 only, so the expression is not modelled'') (spot @ ''languageVersion'')) r)
                      else
                        (let e = e\<lparr>expression_version := 1\<rparr>; (t, r) = az_evaluate t issuer r in ((Some e, Some t), r)))))))"

section \<open>One credential\<close>

definition compare_anomalies :: "anomaly \<Rightarrow> anomaly \<Rightarrow> int" where
  "compare_anomalies x y =
     cmp_or [go_compare (anomaly_kind x) (anomaly_kind y), go_compare (anomaly_claim x) (anomaly_claim y),
       go_compare (anomaly_construct x) (anomaly_construct y), go_compare (anomaly_message x) (anomaly_message y),
       go_compare (anomaly_source x) (anomaly_source y)]"

definition canonical_anomalies :: "anomaly list \<Rightarrow> anomaly list" where
  "canonical_anomalies as = (if as = [] then [] else sort_func compare_anomalies as)"

text \<open>The audience met with what a term says of aud; None where Meet panics.\<close>

definition with_audience_set :: "string_set \<Rightarrow> claim_term \<Rightarrow> claim_term option" where
  "with_audience_set a t =
     (case map_of t ''aud'' of
        Some s \<Rightarrow> map_option (\<lambda>m. put ''aud'' m t) (meet s a)
      | None \<Rightarrow> Some (put ''aud'' a t))"

fun all_defined :: "'a option list \<Rightarrow> 'a list option" where
  "all_defined [] = Some []"
| "all_defined (x # xs) = (case x of None \<Rightarrow> None | Some y \<Rightarrow> map_option (Cons y) (all_defined xs))"

definition parse_credential :: "resource \<Rightarrow> credential option" where
  "parse_credential res =
     (let r = \<lparr>reading_anomalies = [], reading_caveats = []\<rparr>;
          v = the (res_credential res);
          (labels, r) = file_members (az_members (res_object res)) labelMembers [] r;
          (filed, r) = file_members (az_members v) credentialMembers [] r;
          (ident, r) = label_of labels ''id'' r;
          (name, r) = label_of labels ''name'' r;
          ((written, issuer), r) = az_issuer_of filed r;
          ((subject, sterm), r) = subject_term filed r;
          ((expression, eterm), r) = expression_term filed issuer r;
          (ts, r) =
            (case (sterm, eterm) of
               (Some s, Some e) \<Rightarrow>
                 ([s, e],
                  az_doubt (expression_doubt SubjectAndExpression ''subject''
                    ''subject and claimsMatchingExpression are both set; Microsoft says they are mutually exclusive, so the credential is read as admitting what either alone would''
                    ''subject'') r)
             | (None, Some e) \<Rightarrow> ([e], r)
             | (Some s, None) \<Rightarrow> ([s], r)
             | (None, None) \<Rightarrow>
                 ([[(''sub'', Unknown ''no subject constraint'')]],
                  az_doubt (expression_doubt NoSubjectConstraint ''subject''
                    ''neither subject nor claimsMatchingExpression constrains the subject; a Graph v1.0 read omits claimsMatchingExpression, so a constraint on sub may exist that this document does not show''
                    ''subject'') r));
          ((audiences, a), r) = az_audience filed r in
      map_option (\<lambda>ts.
        \<lparr>cred_id = ident, cred_name = name, cred_issuer = written, cred_subject = subject, cred_audiences = audiences,
         cred_expression = expression, cred_anomalies = canonical_anomalies (reading_anomalies r), cred_issuer_ref = issuer,
         cred_admits = fold with_caveat (reading_caveats r) (new_admitted_set ts), cred_raw = Some (az_raw (res_object res))\<rparr>)
        (all_defined (map (with_audience_set a) ts)))"

definition grants_of :: "credential \<Rightarrow> target_ref \<Rightarrow> grant list" where
  "grants_of c target =
     (case cred_raw c of
        None \<Rightarrow> []
      | Some raw \<Rightarrow>
        [\<lparr>grant_target = target, grant_issuer = cred_issuer_ref c, grant_admits = cred_admits c, grant_effect = Allow,
          grant_provenance = [], grant_anomalies = cred_anomalies c, grant_source = raw\<rparr>])"

section \<open>Documents\<close>

datatype credentials_error = NotADocument read_error | NotCredentials string | NotOneCredential nat

text \<open>ParseFederatedCredentials; the inner None is a panic.\<close>

definition parse_credentials :: "string \<Rightarrow> credentials_error + credential option list" where
  "parse_credentials raw =
     (case az_read_document raw of
        Inl e \<Rightarrow> Inl (NotADocument e)
      | Inr root \<Rightarrow>
        (case resources_in root of
           Inl e \<Rightarrow> Inl (NotCredentials e)
         | Inr resources \<Rightarrow> Inr (map parse_credential resources)))"

definition parse_one_credential :: "string \<Rightarrow> credentials_error + credential option" where
  "parse_one_credential raw =
     (case parse_credentials raw of
        Inl e \<Rightarrow> Inl e
      | Inr cs \<Rightarrow> if length cs \<noteq> 1 then Inl (NotOneCredential (length cs)) else Inr (hd cs))"

fun credentials_error_text :: "(decode_error \<Rightarrow> string) \<Rightarrow> credentials_error \<Rightarrow> string" where
  "credentials_error_text d (NotADocument e) = ''federated identity credential: '' @ read_error_text d e"
| "credentials_error_text d (NotCredentials e) = ''federated identity credential: '' @ e"
| "credentials_error_text d (NotOneCredential n) =
     ''federated identity credential: a collection of '' @ itoa (int n) @ '' credentials, not one; use ParseFederatedCredentials''"

end
