(* ===== verification/Azure_Expression_Laws.thy ===== *)
theory Azure_Expression_Laws imports Azure_Expression Trust_Conformance begin

text \<open>
  What an expression says, by Microsoft's documentation, and that evaluate reads it: the term it
  returns is never narrower, and is just the conjunction of the clauses where no doubt is recorded.
  An expression outside the documentation may mean anything, so the bound is against no constraint at all.
\<close>

section \<open>What an expression says\<close>

text \<open>
  A clause of the language on the claim it names: eq compares, matches takes a star for any run of
  characters and a question mark for one. A token without the claim passes only a pattern of stars.
\<close>

definition clause_holds :: "clause \<Rightarrow> string option \<Rightarrow> bool" where
  "clause_holds c x \<longleftrightarrow>
     (if clause_operator c = ''eq'' then x = Some (clause_comparand c)
      else
        (case x of
           Some v \<Rightarrow> if contains_any (clause_comparand c) ''*?'' then wild_match (runes (clause_comparand c)) (runes v) else v = clause_comparand c
         | None \<Rightarrow> set (clause_comparand c) \<subseteq> {CHR ''*''}))"

text \<open>The claim a clause's name is read as.\<close>

definition claim_read :: "language \<Rightarrow> string \<Rightarrow> claim_key" where
  "claim_read lang name =
     (if name \<in> set (map fst (lang_operators lang)) \<or> name \<in> set credentialClaims then name
      else
        (case find (\<lambda>documented. az_equal_fold documented name) (map fst (lang_operators lang) @ credentialClaims) of
           Some documented \<Rightarrow> documented | None \<Rightarrow> name))"

text \<open>A clause within what Microsoft documents for the issuer.\<close>

definition clause_documented :: "language \<Rightarrow> clause \<Rightarrow> bool" where
  "clause_documented lang c \<longleftrightarrow>
     index_of (clause_comparand c) [squote, squote] = None \<and> clause_comparand c \<noteq> [] \<and>
     (case map_of (lang_operators lang) (claim_read lang (clause_name c)) of
        Some operators \<Rightarrow> clause_operator c \<in> set operators | None \<Rightarrow> False)"

definition clause_meaning :: "language \<Rightarrow> token \<Rightarrow> clause \<Rightarrow> bool" where
  "clause_meaning lang token c \<longleftrightarrow>
     (clause_documented lang c \<longrightarrow> clause_holds c (token (claim_read lang (clause_name c))))"

definition expression_clauses :: "string \<Rightarrow> clause list" where
  "expression_clauses expression = List.map_filter parse_clause (split_clauses expression)"

definition expression_keys :: "language \<Rightarrow> string \<Rightarrow> claim_key list" where
  "expression_keys lang expression = map (\<lambda>c. claim_read lang (clause_name c)) (expression_clauses expression)"

text \<open>
  An expression within what Microsoft documents: its quotes pair up, every piece of it is a clause, and it
  names the claims that must appear. Any other may mean anything, so that it constrains nothing here; and
  so may the clauses on a claim that several name.
\<close>

definition expression_documented :: "language \<Rightarrow> string \<Rightarrow> bool" where
  "expression_documented lang expression \<longleftrightarrow>
     even (count_list expression squote) \<and> list_all (\<lambda>piece. parse_clause piece \<noteq> None) (split_clauses expression) \<and>
     list_all (list_ex (\<lambda>k. k \<in> set (expression_keys lang expression))) (lang_required lang)"

definition expression_meaning :: "string \<Rightarrow> string \<Rightarrow> token \<Rightarrow> bool" where
  "expression_meaning expression issuer token \<longleftrightarrow>
     (let lang = fst (documented_language issuer) in
      expression_documented lang expression \<longrightarrow>
      list_all (\<lambda>c. count_list (expression_keys lang expression) (claim_read lang (clause_name c)) \<le> 1 \<longrightarrow> clause_meaning lang token c)
        (expression_clauses expression))"

section \<open>Doubts\<close>

text \<open>The readings a step may lead to: what was recorded stays, doubts are added.\<close>

definition doubts_more :: "az_reading \<Rightarrow> az_reading \<Rightarrow> caveat list \<Rightarrow> bool" where
  "doubts_more r r' cs \<longleftrightarrow> reading_caveats r' = reading_caveats r @ cs"

definition caveat_of :: "anomaly \<Rightarrow> caveat" where
  "caveat_of a = \<lparr>caveat_claim = anomaly_claim a, caveat_reason = anomaly_message a, caveat_source = anomaly_source a\<rparr>"

lemma reading_simps [simp]:
  "reading_caveats (az_note a r) = reading_caveats r" "reading_anomalies (az_note a r) = reading_anomalies r @ [a]"
  "reading_caveats (az_doubt a r) = reading_caveats r @ [caveat_of a]" "reading_anomalies (az_doubt a r) = reading_anomalies r @ [a]"
  by (simp_all add: az_note_def az_doubt_def caveat_of_def)

lemma doubts_more_refl [simp]: "doubts_more r r cs \<longleftrightarrow> cs = []"
  by (auto simp: doubts_more_def)

lemma doubts_more_note [simp]: "doubts_more r (az_note a r') cs \<longleftrightarrow> doubts_more r r' cs"
  by (simp add: doubts_more_def)

lemma doubts_more_doubt [simp]: "doubts_more r (az_doubt a r) cs \<longleftrightarrow> cs = [caveat_of a]"
  by (auto simp: doubts_more_def)

lemma doubts_more_trans: "doubts_more r r' cs \<Longrightarrow> doubts_more r' r'' ds \<Longrightarrow> doubts_more r r'' (cs @ ds)"
  by (simp add: doubts_more_def)

lemma doubts_more_fold: "doubts_more r (fold (\<lambda>x. az_doubt (f x)) xs r) (map (\<lambda>x. caveat_of (f x)) xs)"
  by (induction xs arbitrary: r) (simp_all add: doubts_more_def)

section \<open>Clauses\<close>

lemma claim_key_of_fst: "fst (claim_key_of name lang r) = claim_read lang name"
  by (simp add: claim_key_of_def claim_read_def split: option.splits)

lemma claim_key_of_doubts: "\<exists>cs. doubts_more r (snd (claim_key_of name lang r)) cs"
  by (auto simp: claim_key_of_def split: option.splits)

lemma claim_keys_Cons:
  "claim_keys (c # cs) lang r =
     (claim_read lang (clause_name c) # fst (claim_keys cs lang (snd (claim_key_of (clause_name c) lang r))),
      snd (claim_keys cs lang (snd (claim_key_of (clause_name c) lang r))))"
  by (cases "claim_key_of (clause_name c) lang r") (simp add: claim_key_of_fst [of _ _ r, symmetric] split: prod.split)

lemma claim_keys_fst: "fst (claim_keys cs lang r) = map (\<lambda>c. claim_read lang (clause_name c)) cs"
  by (induction cs arbitrary: r) (simp_all add: claim_keys_Cons del: claim_keys.simps(2))

lemma claim_keys_doubts: "\<exists>ds. doubts_more r (snd (claim_keys cs lang r)) ds"
proof (induction cs arbitrary: r)
  case (Cons c cs)
  obtain ds es where "doubts_more r (snd (claim_key_of (clause_name c) lang r)) ds"
    "doubts_more (snd (claim_key_of (clause_name c) lang r)) (snd (claim_keys cs lang (snd (claim_key_of (clause_name c) lang r)))) es"
    using claim_key_of_doubts Cons.IH by blast
  from doubts_more_trans [OF this] show ?case unfolding claim_keys_Cons snd_conv by blast
qed (auto simp: doubts_more_def)

text \<open>The set of a clause does not depend on what is recorded so far.\<close>

definition clause_set :: "clause \<Rightarrow> claim_key \<Rightarrow> language \<Rightarrow> bool \<Rightarrow> string \<Rightarrow> string_set" where
  "clause_set c key lang documented issuer = fst (constraint_of c key lang documented issuer \<lparr>reading_anomalies = [], reading_caveats = []\<rparr>)"

lemma constraint_of_fst: "fst (constraint_of c key lang documented issuer r) = clause_set c key lang documented issuer"
  by (simp add: clause_set_def constraint_of_def az_widen_def Let_def split: option.split)

lemma Glob_is_top: "p \<noteq> [] \<Longrightarrow> is_top (Glob p) \<longleftrightarrow> set p \<subseteq> {CHR ''*''}"
proof (cases "contains_any p ''*?''")
  case False
  assume p: "p \<noteq> []"
  have "\<not> set p \<subseteq> {CHR ''*''}"
  proof
    assume "set p \<subseteq> {CHR ''*''}"
    then have "CHR ''*'' \<in> set p" using p by (cases p) auto
    then show False using False by (auto simp: contains_any_def list_ex_iff)
  qed
  then show ?thesis using False by (simp add: Glob_def)
qed (simp add: Glob_def trim_stars)

lemma documented_operators:
  assumes "map_of (lang_operators (fst (documented_language issuer))) key = Some operators"
  shows "operators = eqAndMatches \<or> operators = eqOnly"
  using map_of_SomeD [OF assms]
  by (auto simp: documented_language_def githubLanguage_def subOnly_def no_language_def split: if_splits)

lemma clause_set_doubtful: "\<not> clause_documented lang c \<Longrightarrow> documented_language issuer = (lang, documented) \<Longrightarrow>
    (\<exists>why. clause_set c (claim_read lang (clause_name c)) lang documented issuer = Unknown why) \<and>
    (\<exists>d. doubts_more r (snd (constraint_of c (claim_read lang (clause_name c)) lang documented issuer r)) [d])"
  by (auto simp: clause_set_def constraint_of_def az_widen_def clause_documented_def Let_def split: option.splits)

lemma undocumented_issuer: "documented_language issuer = (lang, False) \<Longrightarrow> \<not> clause_documented lang c"
  by (auto simp: documented_language_def clause_documented_def no_language_def split: if_splits)

lemma clause_set_documented:
  assumes "clause_documented lang c" "documented_language issuer = (lang, documented)"
  defines "key \<equiv> claim_read lang (clause_name c)"
  shows "satisfies (clause_set c key lang documented issuer) x \<longleftrightarrow> clause_holds c x"
    and "doubts_more r (snd (constraint_of c key lang documented issuer r)) []"
    and "wf_set (clause_set c key lang documented issuer)"
proof -
  have d: documented using undocumented_issuer assms(1,2) by (cases documented) auto
  obtain operators where o: "map_of (lang_operators lang) key = Some operators" "clause_operator c \<in> set operators"
    and c: "index_of (clause_comparand c) [squote, squote] = None" "clause_comparand c \<noteq> []"
    using assms(1) by (auto simp: clause_documented_def key_def split: option.splits)
  note rule = constraint_of_def
  have e: "clause_set c key lang documented issuer = (if clause_operator c = ''eq'' then Exact (clause_comparand c) else Glob (clause_comparand c))"
    using d o c by (simp add: clause_set_def rule Let_def)
  show "wf_set (clause_set c key lang documented issuer)" unfolding e by (simp add: built_wf built.intros)
  have "satisfies (Glob p) x \<longleftrightarrow> (case x of Some v \<Rightarrow> if contains_any p ''*?'' then wild_match (runes p) (runes v) else v = p | None \<Rightarrow> set p \<subseteq> {CHR ''*''})"
    if "p \<noteq> []" for p using that by (simp add: satisfies_def Glob_is_top glob_pattern_contains split: option.split)
  then show "satisfies (clause_set c key lang documented issuer) x \<longleftrightarrow> clause_holds c x"
    using c(2) unfolding e by (auto simp: clause_holds_def satisfies_def Exact_def split: option.splits)
  show "doubts_more r (snd (constraint_of c key lang documented issuer r)) []"
    using d o c by (simp add: rule Let_def)
qed

section \<open>The term\<close>

definition gathered_set :: "claim_key list \<Rightarrow> language \<Rightarrow> bool \<Rightarrow> string \<Rightarrow> clause \<times> claim_key \<Rightarrow> string_set" where
  "gathered_set keys lang documented issuer p =
     (if 1 < count_list keys (snd p) then Unknown ''repeated claim'' else clause_set (fst p) (snd p) lang documented issuer)"

text \<open>One round of the loop: what it assigns and what it records.\<close>

definition round_reading :: "clause \<Rightarrow> claim_key \<Rightarrow> claim_key list \<Rightarrow> language \<Rightarrow> bool \<Rightarrow> string \<Rightarrow> claim_term \<Rightarrow> az_reading \<Rightarrow> az_reading" where
  "round_reading c key keys lang documented issuer t r =
     (let r1 = snd (constraint_of c key lang documented issuer r) in
      if 1 < count_list keys key \<and> map_of t key = None then az_doubt (repeated_claim key (count_list keys key)) r1 else r1)"

lemma constrain_Cons:
  "constrain ((c, key) # cs) keys lang documented issuer t r =
     constrain cs keys lang documented issuer (put key (gathered_set keys lang documented issuer (c, key)) t)
       (round_reading c key keys lang documented issuer t r)"
  by (cases "constraint_of c key lang documented issuer r")
    (simp add: Let_def gathered_set_def round_reading_def constraint_of_fst [of _ _ _ _ _ r, symmetric])

lemma round_doubts:
  assumes "documented_language issuer = (lang, documented)" "key = claim_read lang (clause_name c)"
  shows "\<exists>ds. doubts_more r (round_reading c key keys lang documented issuer t r) ds \<and>
    (ds = [] \<longrightarrow> clause_documented lang c \<and> (count_list keys key \<le> 1 \<or> map_of t key \<noteq> None))"
proof -
  define r1 where "r1 = snd (constraint_of c key lang documented issuer r)"
  obtain ds where ds: "doubts_more r r1 ds" "ds = [] \<longrightarrow> clause_documented lang c"
  proof (cases "clause_documented lang c")
    case True
    then show thesis using that clause_set_documented(2) [OF True assms(1), of r] by (simp add: r1_def assms(2))
  next
    case False
    from clause_set_doubtful [OF False assms(1), of r] show thesis using that by (auto simp: r1_def assms(2))
  qed
  show ?thesis
  proof (cases "1 < count_list keys key \<and> map_of t key = None")
    case True
    have "doubts_more r1 (az_doubt (repeated_claim key (count_list keys key)) r1) [caveat_of (repeated_claim key (count_list keys key))]" by simp
    from doubts_more_trans [OF ds(1) this] show ?thesis using True by (auto simp: round_reading_def r1_def [symmetric] Let_def)
  next
    case False
    then show ?thesis using ds by (auto simp: round_reading_def r1_def [symmetric] Let_def)
  qed
qed

lemma constrain_doubts:
  assumes "documented_language issuer = (lang, documented)" "\<forall>(c, key) \<in> set ps. key = claim_read lang (clause_name c)"
  shows "\<exists>ds. doubts_more r (snd (constrain ps keys lang documented issuer t r)) ds \<and>
    (ds = [] \<longrightarrow> (\<forall>(c, key) \<in> set ps. clause_documented lang c \<and> (count_list keys key \<le> 1 \<or> map_of t key \<noteq> None)))"
  using assms(2)
proof (induction ps arbitrary: t r)
  case (Cons p ps)
  obtain c key where p: "p = (c, key)" by (cases p)
  have key: "key = claim_read lang (clause_name c)" using Cons.prems p by simp
  let ?r = "round_reading c key keys lang documented issuer t r" and ?t = "put key (gathered_set keys lang documented issuer (c, key)) t"
  obtain ds where ds: "doubts_more r ?r ds" "ds = [] \<longrightarrow> clause_documented lang c \<and> (count_list keys key \<le> 1 \<or> map_of t key \<noteq> None)"
    using round_doubts [OF assms(1) key, of r keys t] by blast
  obtain es where es: "doubts_more ?r (snd (constrain ps keys lang documented issuer ?t ?r)) es"
    "es = [] \<longrightarrow> (\<forall>(c, key) \<in> set ps. clause_documented lang c \<and> (count_list keys key \<le> 1 \<or> map_of ?t key \<noteq> None))"
    using Cons.IH [of ?r ?t] Cons.prems by (auto simp del: not_None_eq)
  have "ds @ es = [] \<longrightarrow> (\<forall>(c, key) \<in> set (p # ps). clause_documented lang c \<and> (count_list keys key \<le> 1 \<or> map_of t key \<noteq> None))"
    using ds(2) es(2) p by (force simp: map_of_put split: if_splits)
  then show ?case using doubts_more_trans [OF ds(1) es(1)] unfolding p constrain_Cons by blast
qed (auto simp: doubts_more_def)

lemma constrain_subset:
  "set (fst (constrain ps keys lang documented issuer t r)) \<subseteq>
    set t \<union> (\<lambda>p. (snd p, gathered_set keys lang documented issuer p)) ` set ps"
proof (induction ps arbitrary: t r)
  case (Cons p ps)
  obtain c key where p: "p = (c, key)" by (cases p)
  show ?case unfolding p constrain_Cons using Cons.IH set_put_subset by fastforce
qed simp

lemma constrain_keeps:
  "(k, s) \<in> set t \<Longrightarrow> k \<notin> snd ` set ps \<Longrightarrow> (k, s) \<in> set (fst (constrain ps keys lang documented issuer t r))"
proof (induction ps arbitrary: t r)
  case (Cons p ps)
  obtain c key where p: "p = (c, key)" by (cases p)
  show ?case unfolding p constrain_Cons using Cons put_other p by auto
qed simp

lemma constrain_members:
  "distinct (map snd ps) \<Longrightarrow> p \<in> set ps \<Longrightarrow>
    (snd p, gathered_set keys lang documented issuer p) \<in> set (fst (constrain ps keys lang documented issuer t r))"
proof (induction ps arbitrary: t r)
  case (Cons q ps)
  obtain c key where q: "q = (c, key)" by (cases q)
  show ?case
  proof (cases "p = q")
    case True
    then show ?thesis using Cons.prems(1) put_member constrain_keeps unfolding True q constrain_Cons by auto
  next
    case False
    then show ?thesis using Cons unfolding q constrain_Cons by auto
  qed
qed simp

lemma zip_map: "zip xs (map f xs) = map (\<lambda>x. (x, f x)) xs"
  by (induction xs) simp_all

lemma counted_distinct: "\<forall>x \<in> set xs. count_list xs x \<le> 1 \<Longrightarrow> distinct xs"
proof (induction xs)
  case (Cons x xs)
  have each: "count_list (x # xs) y \<le> 1" if "y \<in> set (x # xs)" for y using Cons.prems that by blast
  have "count_list xs x = 0" using each [of x] by simp
  moreover have "count_list xs y \<le> 1" if "y \<in> set xs" for y using each [of y] that by (simp split: if_splits)
  ultimately show ?case using Cons.IH by (simp add: count_list_0_iff)
qed simp

lemma sub_claims [simp]:
  "caveat_claim (caveat_of (sub_doubt construct message)) = ''sub''" "caveat_claim (caveat_of (broken_piece piece)) = ''sub''"
  "caveat_claim (caveat_of (missing_claim claims issuer)) = ''sub''"
  by (simp_all add: caveat_of_def sub_doubt_def broken_piece_def missing_claim_def)

lemma evaluate_terms:
  assumes "az_evaluate expression issuer r = (t, r')" "documented_language issuer = (lang, documented)"
  defines "clauses \<equiv> expression_clauses expression"
  defines "keys \<equiv> map (\<lambda>c. claim_read lang (clause_name c)) clauses"
  shows "(\<exists>why cs. t = [(''sub'', Unknown why)] \<and> cs \<noteq> [] \<and> caveat_claim (last cs) = ''sub'' \<and> doubts_more r r' cs) \<or>
    (\<exists>r1 r2 cs. t = fst (constrain (zip clauses keys) keys lang documented issuer [] r1) \<and> doubts_more r r1 cs \<and>
      r2 = snd (constrain (zip clauses keys) keys lang documented issuer [] r1) \<and> r' = r2 \<and>
      expression_documented lang expression)"
proof -
  let ?pieces = "split_clauses expression" and ?broken = "filter (\<lambda>t. parse_clause t = None) (split_clauses expression)"
  consider "odd (count_list expression squote)" | "\<not> odd (count_list expression squote)" "clauseCap < length ?pieces"
    | "\<not> odd (count_list expression squote)" "\<not> clauseCap < length ?pieces" "?broken \<noteq> []"
    | "\<not> odd (count_list expression squote)" "\<not> clauseCap < length ?pieces" "?broken = []" by blast
  then show ?thesis
  proof cases
    case 3
    then have e: "unparseable expression ?broken r = (t, r')" using assms(1) by (simp add: az_evaluate_def Let_def)
    have "doubts_more r (fold (\<lambda>t. az_doubt (broken_piece t)) ?broken r) (map (\<lambda>t. caveat_of (broken_piece t)) ?broken)"
      by (rule doubts_more_fold)
    show ?thesis
    proof (cases "trim_space expression = []")
      case True
      then show ?thesis using e by (auto simp: unparseable_def)
    next
      case False
      have "caveat_claim (last (map (\<lambda>t. caveat_of (broken_piece t)) ?broken)) = ''sub''"
        unfolding last_map [OF 3(3)] by simp
      then show ?thesis using e False 3(3) \<open>doubts_more r _ _\<close>
        by (intro disjI1 exI [of _ "''unparseable expression''"] exI [of _ "map (\<lambda>t. caveat_of (broken_piece t)) ?broken"] conjI)
          (auto simp: unparseable_def)
    qed
  next
    case 4
    define keys_r where "keys_r = claim_keys clauses lang r"
    have k: "keys_r = (keys, snd keys_r)" using claim_keys_fst [of clauses lang r] by (simp add: keys_r_def keys_def prod_eq_iff)
    obtain cs where cs: "doubts_more r (snd keys_r) cs" unfolding keys_r_def using claim_keys_doubts by blast
    define con where "con = constrain (zip clauses keys) keys lang documented issuer [] (snd keys_r)"
    have e: "required (fst con) keys lang issuer (snd con) = (t, r')"
      using assms(1) 4 k unfolding keys_r_def con_def
      by (simp add: az_evaluate_def Let_def assms(2) clauses_def expression_clauses_def split: prod.splits)
    have "\<forall>(c, key) \<in> set (zip clauses keys). key = claim_read lang (clause_name c)"
      by (auto simp: keys_def zip_map)
    from constrain_doubts [OF assms(2) this] obtain ds where ds: "doubts_more (snd keys_r) (snd con) ds" unfolding con_def by blast
    let ?missing = "filter (\<lambda>claims. \<not> list_ex (\<lambda>k. k \<in> set keys) claims) (lang_required lang)"
    show ?thesis
    proof (cases "?missing = []")
      case True
      then have "t = fst con" "r' = snd con" using e by (simp_all add: required_def)
      moreover have "expression_documented lang expression"
        using 4 True by (auto simp: expression_documented_def expression_keys_def keys_def clauses_def filter_empty_conv list_all_iff)
      ultimately show ?thesis using cs unfolding con_def by blast
    next
      case False
      have "doubts_more (snd con) (fold (\<lambda>claims. az_doubt (missing_claim claims issuer)) ?missing (snd con)) (map (\<lambda>claims. caveat_of (missing_claim claims issuer)) ?missing)"
        by (rule doubts_more_fold)
      note more = doubts_more_trans [OF doubts_more_trans [OF cs ds] this]
      have "t = [(''sub'', Unknown ''required claim missing'')]" "r' = fold (\<lambda>claims. az_doubt (missing_claim claims issuer)) ?missing (snd con)"
        using e False by (simp_all add: required_def Let_def)
      moreover have "caveat_claim (last (map (\<lambda>claims. caveat_of (missing_claim claims issuer)) ?missing)) = ''sub''"
        unfolding last_map [OF False] by simp
      ultimately show ?thesis using more False
        by (intro disjI1 exI [of _ "''required claim missing''"] exI [of _ "(cs @ ds) @ map (\<lambda>claims. caveat_of (missing_claim claims issuer)) ?missing"] conjI)
          simp_all
    qed
  qed (use assms(1) in \<open>auto simp: az_evaluate_def unbalanced_def too_many_clauses_def Let_def\<close>)
qed

text \<open>A set kept for a claim passes whatever its clauses mean.\<close>

lemma gathered_satisfied:
  assumes "documented_language issuer = (lang, documented)" "count_list keys key \<le> 1 \<longrightarrow> clause_meaning lang token c" "key = claim_read lang (clause_name c)"
  shows "satisfies (gathered_set keys lang documented issuer (c, key)) (token key)"
proof -
  have u: "satisfies (Unknown why) x" for why x by (simp add: Unknown_def satisfies_def split: option.split)
  show ?thesis
  proof (cases "clause_documented lang c")
    case True
    then show ?thesis using u clause_set_documented(1) [OF True assms(1)] assms(2,3) by (simp add: gathered_set_def clause_meaning_def)
  next
    case False
    then obtain why where "clause_set c key lang documented issuer = Unknown why" using clause_set_doubtful [OF False assms(1)] assms(3) by blast
    then show ?thesis using u by (simp add: gathered_set_def)
  qed
qed

lemma expression_is_read:
  assumes "az_evaluate expression issuer r = (t, r')"
  shows "expression_meaning expression issuer token \<Longrightarrow> term_admits token t"
    and "reading_caveats r' = reading_caveats r \<Longrightarrow> term_admits token t \<longleftrightarrow> expression_meaning expression issuer token"
    and "\<exists>cs. doubts_more r r' cs"
proof -
  obtain lang documented where d: "documented_language issuer = (lang, documented)" by fastforce
  let ?clauses = "expression_clauses expression"
  let ?keys = "map (\<lambda>c. claim_read lang (clause_name c)) ?clauses"
  let ?ps = "zip ?clauses ?keys"
  have ps: "\<forall>(c, key) \<in> set ?ps. key = claim_read lang (clause_name c)" "set ?ps = (\<lambda>c. (c, claim_read lang (clause_name c))) ` set ?clauses"
    by (auto simp: zip_map)
  have keys: "map snd ?ps = ?keys" by simp
  have u: "term_admits token [(''sub'', Unknown why)]" for why
    by (simp add: term_admits_def Unknown_def satisfies_def split: option.split)
  from evaluate_terms [OF assms d] consider (whole) why cs where "t = [(''sub'', Unknown why)]" "cs \<noteq> []" "doubts_more r r' cs"
    | (each) r1 cs where "t = fst (constrain ?ps ?keys lang documented issuer [] r1)" "doubts_more r r1 cs"
      "r' = snd (constrain ?ps ?keys lang documented issuer [] r1)" "expression_documented lang expression" by blast
  then show "\<exists>cs. doubts_more r r' cs"
  proof cases
    case each
    then show ?thesis using constrain_doubts [OF d ps(1), of r1 ?keys "[]"] doubts_more_trans by blast
  qed blast
  have upper: "term_admits token t" if "expression_meaning expression issuer token" "expression_documented lang expression" "t = fst (constrain ?ps ?keys lang documented issuer [] r1)" for r1
  proof -
    have "count_list ?keys (claim_read lang (clause_name c)) \<le> 1 \<longrightarrow> clause_meaning lang token c" if "c \<in> set ?clauses" for c
      using that \<open>expression_meaning expression issuer token\<close> \<open>expression_documented lang expression\<close> d
      by (simp add: expression_meaning_def expression_keys_def list_all_iff)
    then have g: "satisfies (gathered_set ?keys lang documented issuer p) (token (snd p))" if "p \<in> set ?ps" for p
      using that ps(2) gathered_satisfied [OF d] by auto
    have "satisfies s (token k)" if "(k, s) \<in> set t" for k s
    proof -
      have "(k, s) \<in> (\<lambda>p. (snd p, gathered_set ?keys lang documented issuer p)) ` set ?ps"
        using constrain_subset [of ?ps ?keys lang documented issuer "[]" r1] \<open>t = _\<close> that by auto
      then show ?thesis using g by blast
    qed
    then show ?thesis by (auto simp: term_admits_def)
  qed
  show "term_admits token t" if "expression_meaning expression issuer token"
    using \<open>\<exists>cs. doubts_more r r' cs\<close> evaluate_terms [OF assms d] u upper [OF that] by blast
  show "term_admits token t \<longleftrightarrow> expression_meaning expression issuer token" if same: "reading_caveats r' = reading_caveats r"
  proof -
    from evaluate_terms [OF assms d] same obtain r1 cs where r1: "t = fst (constrain ?ps ?keys lang documented issuer [] r1)" "doubts_more r r1 cs"
      "r' = snd (constrain ?ps ?keys lang documented issuer [] r1)" "expression_documented lang expression" by (auto simp: doubts_more_def)
    obtain ds where ds: "doubts_more r1 r' ds"
      "ds = [] \<longrightarrow> (\<forall>(c, key) \<in> set ?ps. clause_documented lang c \<and> (count_list ?keys key \<le> 1 \<or> map_of ([]::claim_term) key \<noteq> None))"
      using constrain_doubts [OF d ps(1), of r1 ?keys "[]"] r1(3) by blast
    have "ds = []" using same doubts_more_trans [OF r1(2) ds(1)] by (simp add: doubts_more_def)
    then have c: "clause_documented lang c \<and> count_list ?keys (claim_read lang (clause_name c)) \<le> 1" if "c \<in> set ?clauses" for c
      using that ds(2) ps(2) by fastforce
    then have "\<forall>key \<in> set ?keys. count_list ?keys key \<le> 1" by auto
    then have dist: "distinct ?keys" by (rule counted_distinct)
    have "clause_meaning lang token c" if "term_admits token t" "c \<in> set ?clauses" for c
    proof -
      let ?key = "claim_read lang (clause_name c)"
      have "(?key, gathered_set ?keys lang documented issuer (c, ?key)) \<in> set t"
        using constrain_members [of ?ps "(c, ?key)" ?keys lang documented issuer "[]" r1] dist that(2) ps(2) r1(1) keys by auto
      then have "satisfies (gathered_set ?keys lang documented issuer (c, ?key)) (token ?key)"
        using that(1) by (auto simp: term_admits_def)
      then show ?thesis using c [OF that(2)] clause_set_documented(1) [OF _ d] by (simp add: gathered_set_def clause_meaning_def)
    qed
    then show ?thesis using upper r1(1,4) d by (auto simp: expression_meaning_def Let_def list_all_iff)
  qed
qed

end
