(* ===== verification/Trust_Terms.thy ===== *)
theory Trust_Terms imports Trust_Conformance begin

text \<open>
  Lemmas about the terms a parser of credentials builds: a map whose values the
  package eval built, whatever its names are; one assignment to it; the set built from one term, or
  from several whose names are plain; and the Unknowns a set may hold.
\<close>

section \<open>Terms under construction\<close>

definition fit_term :: "claim_term \<Rightarrow> bool" where
  "fit_term t \<longleftrightarrow> sorted_wrt (<) (map fst t) \<and> (\<forall>(k, s) \<in> set t. wf_set s)"

lemma fit_Nil [simp]: "fit_term []"
  by (simp add: fit_term_def)

lemma fit_Cons: "fit_term ((k, s) # t) \<longleftrightarrow> wf_set s \<and> fit_term t \<and> (\<forall>k' \<in> set (map fst t). k < k')"
  by (auto simp: fit_term_def)

lemma fit_good: "good_term t \<longleftrightarrow> fit_term t \<and> (\<forall>k \<in> set (map fst t). good_key k)"
  by (fastforce simp: good_term_def fit_term_def)

lemma fit_put: "fit_term t \<Longrightarrow> wf_set s \<Longrightarrow> fit_term (put k s t)"
proof (induction t)
  case (Cons e t)
  obtain k' s' where e: "e = (k', s')" by fastforce
  show ?case using Cons keys_put [of k s t] unfolding e by (auto simp: fit_Cons simp del: set_map)
qed (simp add: fit_Cons)

lemma fit_distinct: "fit_term t \<Longrightarrow> distinct (map fst t)"
  using key_sorted_distinct [of "\<lambda>x. x" "map fst t"] by (simp add: fit_term_def)

lemma fit_in_iff: "fit_term t \<Longrightarrow> (k, s) \<in> set t \<longleftrightarrow> map_of t k = Some s"
  using fit_distinct by simp

lemma fit_value: "fit_term t \<Longrightarrow> map_of t k = Some s \<Longrightarrow> wf_set s"
  using fit_in_iff by (fastforce simp: fit_term_def)

lemma fit_admits: "fit_term t \<Longrightarrow> term_admits token t \<longleftrightarrow> (\<forall>k s. map_of t k = Some s \<longrightarrow> satisfies s (token k))"
  by (auto simp: term_admits_def fit_in_iff [symmetric])

lemma put_admits:
  assumes "fit_term t" "wf_set s" "map_of t k = None"
  shows "term_admits token (put k s t) \<longleftrightarrow> term_admits token t \<and> satisfies s (token k)"
  using assms by (auto simp: fit_admits fit_put map_of_put)

section \<open>Meeting one constraint into a term\<close>

lemma meet_unknown_source: "wf_set a \<Longrightarrow> wf_set b \<Longrightarrow> meet a b = Some m \<Longrightarrow> is_unknown m \<Longrightarrow> is_unknown a \<or> is_unknown b"
proof (rule ccontr)
  assume w: "wf_set a" "wf_set b" and m: "meet a b = Some m" "is_unknown m" and n: "\<not> (is_unknown a \<or> is_unknown b)"
  have "is_top m" using m(2) by (cases m) auto
  then have "is_top a" "is_top b" using meet_spec [OF w] m(1) by fastforce+
  then have "a = SFull" "b = SFull" using n by (cases a, simp_all) (cases b, simp_all)
  then show False using m by (simp add: meet_full)
qed

lemma meet_satisfies: "wf_set a \<Longrightarrow> wf_set b \<Longrightarrow> meet a b = Some m \<Longrightarrow> satisfies m x \<longleftrightarrow> satisfies a x \<and> satisfies b x"
proof -
  assume w: "wf_set a" "wf_set b" and m: "meet a b = Some m"
  obtain m' where m': "meet a b = Some m'" "\<And>v. contains m' v \<longleftrightarrow> contains a v \<and> contains b v" "is_top m' \<longleftrightarrow> is_top a \<and> is_top b"
    using meet_spec [OF w] by metis
  then show ?thesis using m by (cases x) (simp_all add: satisfies_def)
qed

text \<open>The claim's constraint in a term met with another, or set to it where the term has none.\<close>

definition meet_into :: "claim_key \<Rightarrow> string_set \<Rightarrow> claim_term \<Rightarrow> claim_term option" where
  "meet_into k a t =
     (case map_of t k of
        Some s \<Rightarrow> map_option (\<lambda>m. put k m t) (meet s a)
      | None \<Rightarrow> Some (put k a t))"

lemma meet_into_spec:
  assumes "fit_term t" "wf_set a"
  obtains u where "meet_into k a t = Some u" "fit_term u" "set (map fst u) = insert k (set (map fst t))"
    "\<And>token. term_admits token u \<longleftrightarrow> term_admits token t \<and> satisfies a (token k)"
    "\<And>c s. map_of u c = Some s \<Longrightarrow> is_unknown s \<Longrightarrow> (\<exists>s'. map_of t c = Some s' \<and> is_unknown s') \<or> c = k \<and> is_unknown a"
proof (cases "map_of t k")
  case None
  show thesis
  proof (rule that [of "put k a t"])
    show "term_admits token (put k a t) \<longleftrightarrow> term_admits token t \<and> satisfies a (token k)" for token
      by (rule put_admits [OF assms None])
  qed (use None assms keys_put in \<open>auto simp: meet_into_def fit_put map_of_put split: if_splits\<close>)
next
  case (Some s)
  have w: "wf_set s" using fit_value [OF assms(1) Some] .
  obtain m where m: "meet s a = Some m" "wf_set m" by (rule meet_spec [OF w assms(2)])
  show thesis
  proof (rule that [of "put k m t"])
    show "term_admits token (put k m t) \<longleftrightarrow> term_admits token t \<and> satisfies a (token k)" for token
      using assms m Some meet_satisfies [OF w assms(2) m(1)] by (auto simp: fit_admits fit_put map_of_put)
    show "(\<exists>s'. map_of t c = Some s' \<and> is_unknown s') \<or> c = k \<and> is_unknown a"
      if "map_of (put k m t) c = Some s''" "is_unknown s''" for c s''
      using that Some meet_unknown_source [OF w assms(2) m(1)] by (auto simp: map_of_put split: if_splits)
  qed (use Some assms m keys_put in \<open>auto simp: meet_into_def fit_put\<close>)
qed

section \<open>The set of some terms\<close>

text \<open>
  The set of one term admits what the term does, and so does the set of several whose names can be
  told apart in a rendering. Whatever the names are, an Unknown of the set is one of a term's.
\<close>

lemma new_set_single: "admits (new_admitted_set [t]) token \<longleftrightarrow> term_admits token t" "admitted_caveats (new_admitted_set [t]) = []"
proof -
  have cap: "\<not> term_cap < Suc 0" by (simp add: term_cap_def)
  have "(admits (new_admitted_set [t]) token \<longleftrightarrow> term_admits token t) \<and> admitted_caveats (new_admitted_set [t]) = []"
  proof (cases "normalise_term t")
    case None
    then show ?thesis using normalise_term_None
      by (simp add: new_admitted_set_def normalise_def admits_iff normalise_caveats_def sort_func_def)
  next
    case (Some u)
    then have "term_admits token u \<longleftrightarrow> term_admits token t" using normalise_term_Some by blast
    then show ?thesis using Some cap all_top_admits [of u token]
      by (simp add: new_admitted_set_def normalise_def admits_iff normalise_caveats_def sort_func_def)
  qed
  then show "admits (new_admitted_set [t]) token \<longleftrightarrow> term_admits token t" "admitted_caveats (new_admitted_set [t]) = []" by blast+
qed

lemma new_set_good:
  assumes "\<forall>t \<in> set ts. good_term t" "length ts \<le> term_cap"
  shows "admits (new_admitted_set ts) token \<longleftrightarrow> (\<exists>t \<in> set ts. term_admits token t)" "admitted_caveats (new_admitted_set ts) = []"
  using normalise_small [OF assms, of "[]"] by (simp_all add: new_admitted_set_def normalise_caveats_def)

lemma kept_rendered_subset: "kept_rendered ts kept = Some kept' \<Longrightarrow> set (map fst kept') \<subseteq> set (map fst kept) \<union> set ts"
  by (induction ts kept rule: kept_rendered.induct) (auto simp: Let_def split: if_splits)

lemma normalise_members:
  assumes "u \<in> set (admitted_terms (normalise ts cs oper))" "(k, s) \<in> set u"
  shows "\<exists>t \<in> set ts. (k, s) \<in> set t"
proof (cases "live_terms ts")
  case None
  then show ?thesis using assms by (simp add: normalise_def)
next
  case (Some live)
  note some = Some
  show ?thesis
  proof (cases "kept_rendered live []")
    case None
    then show ?thesis using assms Some by (simp add: normalise_def)
  next
    case (Some kept)
    then have "u \<in> set (map fst kept)" using assms some by (simp add: normalise_def)
    then have "u \<in> set live" using kept_rendered_subset [OF Some] by auto
    then obtain t where "t \<in> set ts" "normalise_term t = Some u" using live_terms_Some [OF some] by blast
    then show ?thesis using normalise_term_Some assms(2) by blast
  qed
qed

text \<open>A grant whose Unknowns are all on claims with a caveat.\<close>

lemma all_declared:
  assumes "\<And>t k s. t \<in> set (admitted_terms (grant_admits g)) \<Longrightarrow> (k, s) \<in> set t \<Longrightarrow> is_unknown s \<Longrightarrow>
    \<exists>cv \<in> set (admitted_caveats (grant_admits g)). caveat_claim cv = k"
  shows "undeclared_unknowns g = []"
  using assms by (auto simp: undeclared_unknowns_def has_caveat_def list_ex_iff concat_eq_Nil_conv split: if_splits)

end
