(* ===== verification/Azure_Credential_Laws.thy ===== *)
theory Azure_Credential_Laws imports Azure_Credential Azure_Expression_Laws Trust_Terms begin

text \<open>
  What a credential states, in the document's own terms, and that its set is that: never narrower, and
  just it where nothing is in doubt; that no Unknown goes without a caveat; and that reading one never
  panics.
\<close>

section \<open>The term of an expression\<close>

definition doubted_claims :: "az_reading \<Rightarrow> claim_key set" where
  "doubted_claims r = caveat_claim ` set (reading_caveats r)"

lemma doubted_simps [simp]:
  "doubted_claims (az_note a r) = doubted_claims r"
  "doubted_claims (az_doubt a r) = insert (anomaly_claim a) (doubted_claims r)"
  by (auto simp: doubted_claims_def caveat_of_def)

lemma doubted_more: "doubts_more r r' cs \<Longrightarrow> doubted_claims r \<subseteq> doubted_claims r'"
  by (auto simp: doubts_more_def doubted_claims_def)

lemma Glob_not_unknown: "\<not> is_unknown (Glob p)" "\<not> is_unknown (Exact v)"
  by (auto simp: Glob_def Exact_def)

lemma constraint_declared:
  "doubted_claims r \<subseteq> doubted_claims (snd (constraint_of c key lang documented issuer r))"
  "is_unknown (clause_set c key lang documented issuer) \<Longrightarrow> key \<in> doubted_claims (snd (constraint_of c key lang documented issuer r))"
  by (auto simp: clause_set_def constraint_of_def az_widen_def Let_def Glob_not_unknown split: option.splits if_splits)

definition declared_term :: "claim_key list \<Rightarrow> claim_term \<Rightarrow> az_reading \<Rightarrow> bool" where
  "declared_term keys t r \<longleftrightarrow>
     (\<forall>k s. map_of t k = Some s \<longrightarrow> is_unknown s \<or> 1 < count_list keys k \<longrightarrow> k \<in> doubted_claims r)"

lemma round_declared:
  assumes "declared_term keys t r"
  shows "declared_term keys (put key (gathered_set keys lang documented issuer (c, key)) t) (round_reading c key keys lang documented issuer t r)"
proof -
  let ?r = "snd (constraint_of c key lang documented issuer r)" and ?R = "round_reading c key keys lang documented issuer t r"
  have m: "doubted_claims r \<subseteq> doubted_claims ?r" "doubted_claims ?r \<subseteq> doubted_claims ?R"
    using constraint_declared(1) by (auto simp: round_reading_def Let_def)
  have key: "key \<in> doubted_claims ?R" if "1 < count_list keys key \<or> is_unknown (gathered_set keys lang documented issuer (c, key))"
  proof (cases "1 < count_list keys key")
    case True
    show ?thesis
    proof (cases "map_of t key")
      case None
      then show ?thesis using True by (simp add: round_reading_def Let_def repeated_claim_def)
    next
      case (Some s)
      then show ?thesis using assms True m by (auto simp: declared_term_def)
    qed
  next
    case False
    then show ?thesis using that constraint_declared(2) m by (auto simp: gathered_set_def)
  qed
  show ?thesis
    unfolding declared_term_def using key m assms by (auto simp: map_of_put declared_term_def split: if_splits)
qed

lemma constrain_declared: "declared_term keys t r \<Longrightarrow>
    declared_term keys (fst (constrain ps keys lang documented issuer t r)) (snd (constrain ps keys lang documented issuer t r))"
proof (induction ps arbitrary: t r)
  case (Cons p ps)
  then show ?case using round_declared by (cases p) (simp only: constrain_Cons)
qed simp

lemma clause_set_wf: "documented_language issuer = (lang, documented) \<Longrightarrow> wf_set (clause_set c (claim_read lang (clause_name c)) lang documented issuer)"
  using clause_set_documented(3) clause_set_doubtful
  by (cases "clause_documented lang c") (auto simp: built_wf built.intros dest!: clause_set_doubtful)

lemma constrain_fit:
  "fit_term t \<Longrightarrow> documented_language issuer = (lang, documented) \<Longrightarrow> \<forall>(c, key) \<in> set ps. key = claim_read lang (clause_name c) \<Longrightarrow>
    fit_term (fst (constrain ps keys lang documented issuer t r))"
proof (induction ps arbitrary: t r)
  case (Cons p ps)
  obtain c key where p: "p = (c, key)" by (cases p)
  have "wf_set (gathered_set keys lang documented issuer (c, key))"
    using clause_set_wf [OF Cons.prems(2)] Cons.prems(3) p by (auto simp: gathered_set_def built_wf built.intros)
  then show ?case unfolding p constrain_Cons using Cons fit_put by auto
qed simp

text \<open>The names a term may have.\<close>

definition plain_names :: "string \<Rightarrow> bool" where
  "plain_names expression \<longleftrightarrow> list_all (\<lambda>c. good_key (clause_name c)) (expression_clauses expression)"

lemma documented_names: "key \<in> set (map fst (lang_operators (fst (documented_language issuer)))) \<Longrightarrow> good_key key"
  by (auto simp: documented_language_def githubLanguage_def subOnly_def no_language_def good_key_def split: if_splits)

lemma claim_read_good: "good_key name \<Longrightarrow> good_key (claim_read (fst (documented_language issuer)) name)"
proof -
  have "good_key d" if "find P (map fst (lang_operators (fst (documented_language issuer))) @ credentialClaims) = Some d" for P d
  proof -
    from that have "d \<in> set (map fst (lang_operators (fst (documented_language issuer))) @ credentialClaims)"
      by (simp only: find_Some_iff) (metis nth_mem)
    then show ?thesis using documented_names by (auto simp: credentialClaims_def good_key_def simp del: set_map)
  qed
  then show "good_key name \<Longrightarrow> ?thesis" by (auto simp: claim_read_def split: option.split)
qed

lemma evaluated:
  assumes "az_evaluate expression issuer r = (t, r')"
  shows "fit_term t" "plain_names expression \<Longrightarrow> k \<in> set (map fst t) \<Longrightarrow> good_key k"
    and "map_of t k = Some s \<Longrightarrow> is_unknown s \<Longrightarrow> k \<in> doubted_claims r'"
proof -
  obtain lang documented where d: "documented_language issuer = (lang, documented)" by fastforce
  let ?clauses = "expression_clauses expression"
  let ?keys = "map (\<lambda>c. claim_read lang (clause_name c)) ?clauses"
  let ?ps = "zip ?clauses ?keys"
  have ps: "\<forall>(c, key) \<in> set ?ps. key = claim_read lang (clause_name c)" by (auto simp: zip_map)
  have "fit_term t \<and> (plain_names expression \<longrightarrow> (\<forall>k \<in> set (map fst t). good_key k)) \<and>
    (\<forall>k s. map_of t k = Some s \<longrightarrow> is_unknown s \<longrightarrow> k \<in> doubted_claims r')"
  proof -
    from evaluate_terms [OF assms d] consider (whole) why cs where "t = [(''sub'', Unknown why)]" "cs \<noteq> []" "caveat_claim (last cs) = ''sub''" "doubts_more r r' cs"
      | (each) r1 where "t = fst (constrain ?ps ?keys lang documented issuer [] r1)" "r' = snd (constrain ?ps ?keys lang documented issuer [] r1)"
      by blast
    then show ?thesis
    proof cases
    case whole
    note w = whole
    then have "''sub'' \<in> doubted_claims r'" by (auto simp: doubted_claims_def doubts_more_def intro!: image_eqI [of _ _ "last cs"])
    then show ?thesis using w(1) by (simp add: fit_Cons built_wf built.intros good_key_def)
  next
    case each
    note e = each
    have "set (map fst t) \<subseteq> set ?keys"
      using constrain_subset [of ?ps ?keys lang documented issuer "[]" r1] e(1) by (force simp: zip_map)
    moreover have "good_key k" if "plain_names expression" "k \<in> set ?keys" for k
      using that claim_read_good [of _ issuer] d by (auto simp: plain_names_def list_all_iff)
    moreover have "declared_term ?keys t r'"
      using constrain_declared [of ?keys "[]" r1 ?ps lang documented issuer] e by (simp add: declared_term_def)
    moreover have "fit_term t" using constrain_fit [OF _ d ps, of "[]" ?keys r1] e(1) by simp
    ultimately show ?thesis unfolding declared_term_def by blast
    qed
  qed
  then show "fit_term t" "plain_names expression \<Longrightarrow> k \<in> set (map fst t) \<Longrightarrow> good_key k"
    "map_of t k = Some s \<Longrightarrow> is_unknown s \<Longrightarrow> k \<in> doubted_claims r'" by blast+
qed

section \<open>Members\<close>

text \<open>A step that leaves a claim in doubt.\<close>

definition leaves_doubt :: "claim_key \<Rightarrow> az_reading \<Rightarrow> az_reading \<Rightarrow> bool" where
  "leaves_doubt k r r' \<longleftrightarrow> (\<exists>cs. doubts_more r r' cs) \<and> k \<in> doubted_claims r'"

lemma leaves_doubt_step: "anomaly_claim a = k \<Longrightarrow> leaves_doubt k r (az_doubt a r)"
  by (auto simp: leaves_doubt_def)

lemma leaves_doubt_unread: "anomaly_claim a = k \<Longrightarrow> k \<noteq> [] \<Longrightarrow> leaves_doubt k r (az_unread a r)"
  by (simp add: az_unread_def leaves_doubt_step)

lemma same_caveats: "reading_caveats r' = reading_caveats r \<longleftrightarrow> doubts_more r r' []"
  by (simp add: doubts_more_def)

lemma filed_caveats: "file_members ms known spot r = (filed, r') \<Longrightarrow> reading_caveats r' = reading_caveats r"
proof -
  have "az_file ms known spot f r = (filed, r') \<Longrightarrow> reading_caveats r' = reading_caveats r" for f r
    by (induction ms arbitrary: f r) (auto split: if_splits option.splits)
  then show "file_members ms known spot r = (filed, r') \<Longrightarrow> ?thesis" by (simp add: file_members_def)
qed

lemma member_read:
  assumes "az_member_of filed name claim spot r = ((v, u), r')" "claim \<noteq> []"
  shows "u = None \<and> r' = r \<or> v = None \<and> (\<exists>why. u = Some (Unknown why)) \<and> leaves_doubt claim r r'"
  using assms leaves_doubt_unread by (auto simp: az_member_of_def Let_def split: if_splits)

lemma text_read:
  assumes "text_of filed name claim spot r = ((t, p, u), r')" "claim \<noteq> []"
  shows "u = None \<and> r' = r \<or> t = [] \<and> (\<exists>why. u = Some (Unknown why)) \<and> leaves_doubt claim r r'"
proof -
  obtain v u1 r1 where m: "az_member_of filed name claim spot r = ((v, u1), r1)" by (metis prod.exhaust)
  show ?thesis
  proof (cases u1)
    case None
    then show ?thesis using assms m member_read [OF m assms(2)] leaves_doubt_unread
      by (auto simp: text_of_def wrong_type_def Let_def split: option.splits if_splits)
  next
    case (Some x)
    then show ?thesis using assms m member_read [OF m assms(2)] by (auto simp: text_of_def Let_def)
  qed
qed

lemma label_caveats:
  "text_of filed name [] spot r = ((t, p, u), r') \<Longrightarrow> reading_caveats r' = reading_caveats r"
  "label_of filed name r = (t, r') \<Longrightarrow> reading_caveats r' = reading_caveats r"
proof -
  show a: "text_of filed name [] spot r = ((t, p, u), r') \<Longrightarrow> reading_caveats r' = reading_caveats r" for t p u spot
    by (auto simp: text_of_def az_member_of_def wrong_type_def az_unread_def Let_def split: option.splits if_splits)
  show "label_of filed name r = (t, r') \<Longrightarrow> reading_caveats r' = reading_caveats r"
    using a [of "[]"] by (auto simp: label_of_def split: prod.splits)
qed

lemma issuer_caveats: "az_issuer_of filed r = ((w, i), r') \<Longrightarrow> reading_caveats r' = reading_caveats r"
proof -
  obtain t p u r1 where m: "text_of filed ''issuer'' [] [] r = ((t, p, u), r1)" by (metis prod.exhaust)
  then show "az_issuer_of filed r = ((w, i), r') \<Longrightarrow> ?thesis"
    using label_caveats(1) [OF m] by (auto simp: az_issuer_of_def m Let_def split: option.splits if_splits)
qed

lemma subject_read:
  assumes "subject_term filed r = ((subject, st), r')"
  shows "reading_caveats r' = reading_caveats r \<and> (subject = [] \<and> st = None \<or> subject \<noteq> [] \<and> st = Some [(''sub'', Exact subject)])
    \<or> subject = [] \<and> (\<exists>why. st = Some [(''sub'', Unknown why)]) \<and> leaves_doubt ''sub'' r r'"
proof -
  obtain t p u r1 where m: "text_of filed ''subject'' ''sub'' [] r = ((t, p, u), r1)" by (metis prod.exhaust)
  then show ?thesis using assms text_read [OF m] by (auto simp: subject_term_def Let_def split: option.splits if_splits)
qed

section \<open>The audience\<close>

lemma audience_items_read:
  "audience_items i items r = (res, r') \<Longrightarrow>
    (\<exists>cs. doubts_more r r' cs) \<and> (res = None \<longrightarrow> ''aud'' \<in> doubted_claims r') \<and>
    (\<forall>ts ss. res = Some (ts, ss) \<longrightarrow> ss = map (\<lambda>t. if t = [] then Unknown ''empty audience'' else Exact t) ts \<and> ([] \<in> set ts \<longrightarrow> ''aud'' \<in> doubted_claims r'))"
proof (induction items arbitrary: i r res r')
  case (Cons item items)
  show ?case
  proof (cases "az_kind item = kindString")
    case True
    define r1 where "r1 = (if az_text item = [] then az_doubt (audience_doubt Unmodelled ''empty audience''
        (''audiences['' @ itoa (int i) @ '']'' @ '' is the empty string; no documented issuer mints a token whose aud is empty and Microsoft does not say what Entra does with an empty audience, so the audience this credential accepts is not stated'')) r else r)"
    obtain rest r2 where t: "audience_items (i + 1) items r1 = (rest, r2)" by fastforce
    have r1: "(\<exists>cs. doubts_more r r1 cs)" "az_text item = [] \<longrightarrow> ''aud'' \<in> doubted_claims r1"
      by (auto simp: r1_def audience_doubt_def doubts_more_def)
    have e: "r' = r2" "res = map_option (\<lambda>(texts, sets). (az_text item # texts, (if az_text item = [] then Unknown ''empty audience'' else Exact (az_text item)) # sets)) rest"
      using Cons.prems True t by (auto simp: r1_def Let_def split: if_splits)
    have IH: "(\<exists>cs. doubts_more r1 r2 cs)" "rest = None \<longrightarrow> ''aud'' \<in> doubted_claims r2"
      "\<And>ts ss. rest = Some (ts, ss) \<Longrightarrow> ss = map (\<lambda>t. if t = [] then Unknown ''empty audience'' else Exact t) ts \<and> ([] \<in> set ts \<longrightarrow> ''aud'' \<in> doubted_claims r2)"
      using Cons.IH [OF t] by auto
    show ?thesis
      using r1 IH doubts_more_trans doubted_more unfolding e by (auto split: option.splits) blast+
  next
    case False
    then show ?thesis using Cons.prems by (auto simp: audience_doubt_def Let_def)
  qed
qed auto

lemma joins_satisfy:
  assumes "wf_set s" "\<forall>s \<in> set ss. wf_set s"
  shows "wf_set (foldl join s ss)" "satisfies (foldl join s ss) x \<longleftrightarrow> (\<exists>s' \<in> set (s # ss). satisfies s' x)"
    "is_unknown (foldl join s ss) \<longleftrightarrow> (\<exists>s' \<in> set (s # ss). is_unknown s')"
proof -
  have one: "satisfies (join a b) x \<longleftrightarrow> satisfies a x \<or> satisfies b x" if "wf_set a" "wf_set b" for a b
    using join_contains [OF that] join_not_top [OF that] by (simp add: satisfies_def split: option.split)
  have "wf_set (foldl join s ss) \<and> (satisfies (foldl join s ss) x \<longleftrightarrow> (\<exists>s' \<in> set (s # ss). satisfies s' x)) \<and>
    (is_unknown (foldl join s ss) \<longleftrightarrow> (\<exists>s' \<in> set (s # ss). is_unknown s'))"
    using assms by (induction ss arbitrary: s) (auto simp: one join_wf join_is_unknown)
  then show "wf_set (foldl join s ss)" "satisfies (foldl join s ss) x \<longleftrightarrow> (\<exists>s' \<in> set (s # ss). satisfies s' x)"
    "is_unknown (foldl join s ss) \<longleftrightarrow> (\<exists>s' \<in> set (s # ss). is_unknown s')" by blast+
qed

lemma unknown_facts [simp]: "wf_set (Unknown why)" "is_unknown (Unknown why)" "satisfies (Unknown why) x" "wf_set (Exact v)"
  "\<not> is_unknown (Exact v)" "satisfies (Exact v) x \<longleftrightarrow> x = Some v"
  by (auto simp: built_wf built.intros Unknown_def Exact_def satisfies_def split: option.splits)

definition audience_allows :: "string list option \<Rightarrow> string option \<Rightarrow> bool" where
  "audience_allows auds x \<longleftrightarrow> (case auds of None \<Rightarrow> True | Some as \<Rightarrow> list_ex (\<lambda>a. a = [] \<or> x = Some a) as)"

lemma audience_read:
  assumes "az_audience filed r = ((auds, s), r')"
  shows "\<exists>cs. doubts_more r r' cs" "wf_set s" "is_unknown s \<Longrightarrow> ''aud'' \<in> doubted_claims r'" "auds = None \<Longrightarrow> is_unknown s"
    and "satisfies s x \<longleftrightarrow> audience_allows auds x"
proof -
  obtain v u r1 where m: "az_member_of filed ''audiences'' ''aud'' [] r = ((v, u), r1)" by (metis prod.exhaust)
  have n: "''aud'' \<noteq> ([] :: string)" by simp
  note mr = member_read [OF m n]
  have unread: "(\<exists>why. s = Unknown why) \<and> auds = None \<and> leaves_doubt ''aud'' r r' \<or>
    (\<exists>as. as \<noteq> [] \<and> auds = Some as \<and> s = foldl join (hd (map (\<lambda>t. if t = [] then Unknown ''empty audience'' else Exact t) as)) (tl (map (\<lambda>t. if t = [] then Unknown ''empty audience'' else Exact t) as)) \<and>
      (\<exists>cs. doubts_more r r' cs) \<and> ([] \<in> set as \<longrightarrow> ''aud'' \<in> doubted_claims r'))"
  proof (cases u)
    case (Some w)
    then show ?thesis using assms m mr by (auto simp: az_audience_def Let_def)
  next
    case None
    then have r1: "r1 = r" using mr by auto
    show ?thesis
    proof (cases v)
      case None
      then show ?thesis using assms m \<open>u = None\<close> r1
        by (auto simp: az_audience_def no_audience_def audience_doubt_def leaves_doubt_step Let_def)
    next
      case (Some w)
      consider "az_kind w \<noteq> kindList" | "az_kind w = kindList" "audienceCap < length (az_items w)" | "az_kind w = kindList" "\<not> audienceCap < length (az_items w)" by blast
      then show ?thesis
      proof cases
        case 1
        then show ?thesis using assms m \<open>u = None\<close> r1 Some
          by (auto simp: az_audience_def wrong_type_def Let_def intro: leaves_doubt_unread)
      next
        case 2
        then show ?thesis using assms m \<open>u = None\<close> r1 Some
          by (auto simp: az_audience_def audience_doubt_def Let_def intro: leaves_doubt_step)
      next
        case 3
        obtain items r2 where i: "audience_items 0 (az_items w) r = (items, r2)" by fastforce
        note ir = audience_items_read [OF i]
        show ?thesis
        proof (cases items)
          case None
          then show ?thesis using assms m \<open>u = None\<close> r1 Some i 3 ir by (auto simp: az_audience_def leaves_doubt_def Let_def)
        next
          case (Some p)
          obtain as ss where p: "p = (as, ss)" by (cases p)
          show ?thesis
          proof (cases "as = []")
            case True
            then have "r' = snd (no_audience r2)" "s = Unknown ''no audience''" "auds = None"
              using assms m \<open>u = None\<close> r1 \<open>v = Some w\<close> i 3 Some p by (auto simp: az_audience_def no_audience_def Let_def)
            moreover have "leaves_doubt ''aud'' r (snd (no_audience r2))"
              using ir doubts_more_trans [of r r2 _ "snd (no_audience r2)"] by (fastforce simp: no_audience_def audience_doubt_def leaves_doubt_def)
            ultimately show ?thesis by blast
          next
            case False
            then have "reading_caveats r' = reading_caveats r2" "s = foldl join (hd ss) (tl ss)" "auds = Some as"
              using assms m \<open>u = None\<close> r1 \<open>v = Some w\<close> i 3 Some p by (auto simp: az_audience_def Let_def split: if_splits)
            then show ?thesis using ir Some p False by (auto simp: doubts_more_def doubted_claims_def)
          qed
        qed
      qed
    qed
  qed
  define set_of where "set_of t = (if t = [] then Unknown ''empty audience'' else Exact t)" for t
  have "(\<exists>cs. doubts_more r r' cs) \<and> wf_set s \<and> (is_unknown s \<longrightarrow> ''aud'' \<in> doubted_claims r') \<and> (auds = None \<longrightarrow> is_unknown s) \<and>
    (satisfies s x \<longleftrightarrow> audience_allows auds x)"
  proof (cases "\<exists>why. s = Unknown why \<and> auds = None \<and> leaves_doubt ''aud'' r r'")
    case True
    then show ?thesis by (auto simp: leaves_doubt_def audience_allows_def)
  next
    case False
    then obtain as where a: "as \<noteq> []" "auds = Some as" "[] \<in> set as \<longrightarrow> ''aud'' \<in> doubted_claims r'"
      "s = foldl join (hd (map (\<lambda>t. if t = [] then Unknown ''empty audience'' else Exact t) as)) (tl (map (\<lambda>t. if t = [] then Unknown ''empty audience'' else Exact t) as))"
      "\<exists>cs. doubts_more r r' cs" using unread by blast
    obtain b bs where as: "as = b # bs" using a(1) by (cases as) auto
    have "set_of = (\<lambda>t. if t = [] then Unknown ''empty audience'' else Exact t)" by (rule ext) (simp add: set_of_def)
    then have s: "s = foldl join (set_of b) (map set_of bs)" using a(4) by (simp add: as)
    have one: "wf_set (set_of t)" "satisfies (set_of t) x \<longleftrightarrow> t = [] \<or> x = Some t" "is_unknown (set_of t) \<longleftrightarrow> t = []" for t by (simp_all add: set_of_def)
    have w: "wf_set (set_of b)" "\<forall>t \<in> set (map set_of bs). wf_set t" by (auto simp: one)
    note j = joins_satisfy [OF w, folded s]
    have "is_unknown s \<longrightarrow> [] \<in> set as" using j(3) by (auto simp: as one)
    moreover have "satisfies s x \<longleftrightarrow> audience_allows auds x" using j(2) by (auto simp: a(2) as audience_allows_def list_ex_iff one)
    ultimately show ?thesis using j(1) a(2,3,5) by auto
  qed
  then show "\<exists>cs. doubts_more r r' cs" "wf_set s" "is_unknown s \<Longrightarrow> ''aud'' \<in> doubted_claims r'" "auds = None \<Longrightarrow> is_unknown s"
    "satisfies s x \<longleftrightarrow> audience_allows auds x" by blast+
qed

lemma expression_read:
  assumes "expression_term filed issuer r = ((e, et), r')"
  shows "e = None \<and> et = None \<and> reading_caveats r' = reading_caveats r \<or>
    (\<exists>why. et = Some [(''sub'', Unknown why)] \<and> (\<forall>x. e = Some x \<longrightarrow> expression_version x \<noteq> 1) \<and> leaves_doubt ''sub'' r r') \<or>
    (\<exists>x t r1. e = Some x \<and> expression_version x = 1 \<and> et = Some t \<and> reading_caveats r1 = reading_caveats r \<and>
      az_evaluate (expression_value x) issuer r1 = (t, r'))"
proof -
  have n: "''sub'' \<noteq> ([] :: string)" by simp
  have carry: "reading_caveats r1 = reading_caveats r \<Longrightarrow> leaves_doubt ''sub'' r1 r2 \<Longrightarrow> leaves_doubt ''sub'' r r2" for r1 r2
    by (simp add: leaves_doubt_def doubts_more_def)
  obtain v u r1 where m: "az_member_of filed ''claimsMatchingExpression'' ''sub'' [] r = ((v, u), r1)" by (metis prod.exhaust)
  note mr = member_read [OF m n]
  show ?thesis
  proof (cases "u = None \<and> v \<noteq> None")
    case False
    then show ?thesis using assms m mr by (auto simp: expression_term_def Let_def split: option.splits)
  next
    case True
    then obtain w where v: "v = Some w" "u = None" "r1 = r" using mr by auto
    show ?thesis
    proof (cases "az_kind w = kindObject")
      case False
      then show ?thesis using assms m v by (auto simp: expression_term_def wrong_type_def Let_def intro: leaves_doubt_unread)
    next
      case True
      obtain inner r2 where f: "file_members (az_members w) expressionMembers ''claimsMatchingExpression.'' r = (inner, r2)" by fastforce
      note fc = filed_caveats [OF f]
      obtain t p u2 r3 where x: "text_of inner ''value'' ''sub'' ''claimsMatchingExpression.'' r2 = ((t, p, u2), r3)" by (metis prod.exhaust)
      note xr = text_read [OF x n]
      show ?thesis
      proof (cases "u2 = None \<and> p")
        case False
        then show ?thesis using assms m v True f x xr fc carry leaves_doubt_step
          by (auto simp: expression_term_def expression_doubt_def Let_def split: if_splits)
      next
        case P: True
        then have r3: "r3 = r2" using xr by auto
        obtain y u4 r4 where z: "az_member_of inner ''languageVersion'' ''sub'' ''claimsMatchingExpression.'' r2 = ((y, u4), r4)" by (metis prod.exhaust)
        note zr = member_read [OF z n]
        show ?thesis
        proof (cases "u4 = None \<and> (\<exists>w. y = Some w \<and> az_kind w = kindNumber \<and> literal_is_one (az_text w))")
          case False
          then show ?thesis using assms m v True f x P r3 z zr fc carry leaves_doubt_step leaves_doubt_unread
            by (auto simp: expression_term_def expression_doubt_def wrong_type_def Let_def split: option.splits if_splits)
        next
          case O: True
          then have "r4 = r2" using zr by auto
          then show ?thesis using assms m v True f x P r3 z O fc
            by (auto simp: expression_term_def Let_def split: prod.splits)
        qed
      qed
    qed
  qed
qed

section \<open>What a credential states\<close>

text \<open>
  What the subject and the expression say of a token, then what the audiences do. A subject or an
  expression that is not set, or not read, says nothing; where both are set either lets a token in.
\<close>

definition subject_meaning :: "string \<Rightarrow> az_expression option \<Rightarrow> string \<Rightarrow> token \<Rightarrow> bool" where
  "subject_meaning subject e issuer token \<longleftrightarrow>
     (subject = [] \<and> e = None) \<or> (subject \<noteq> [] \<and> token ''sub'' = Some subject) \<or>
     (case e of
        Some x \<Rightarrow> expression_version x = 1 \<longrightarrow> expression_meaning (expression_value x) issuer token
      | None \<Rightarrow> False)"

definition credential_meaning :: "credential \<Rightarrow> token \<Rightarrow> bool" where
  "credential_meaning c token \<longleftrightarrow>
     subject_meaning (cred_subject c) (cred_expression c) (cred_issuer_ref c) token \<and> audience_allows (cred_audiences c) (token ''aud'')"

definition plain_credential :: "credential \<Rightarrow> bool" where
  "plain_credential c \<longleftrightarrow> (case cred_expression c of Some x \<Rightarrow> plain_names (expression_value x) | None \<Rightarrow> True)"

lemma all_defined_map: "\<forall>x \<in> set xs. f x \<noteq> None \<Longrightarrow> all_defined (map f xs) = Some (map (the \<circ> f) xs)"
  by (induction xs) auto

lemma with_audience_meets: "with_audience_set a t = meet_into ''aud'' a t"
  by (simp add: with_audience_set_def meet_into_def)

text \<open>The terms of the subject and the expression, before the audience is met into them.\<close>

definition doubt_free :: "az_reading \<Rightarrow> bool" where
  "doubt_free r \<longleftrightarrow> reading_caveats r = []"

lemma doubted_free: "doubt_free r \<Longrightarrow> k \<notin> doubted_claims r"
  by (simp add: doubt_free_def doubted_claims_def)

lemma more_free: "doubts_more r r' cs \<Longrightarrow> doubt_free r' \<longleftrightarrow> doubt_free r \<and> cs = []"
  by (auto simp: doubt_free_def doubts_more_def)

lemma sub_term: "fit_term [(k, s)] \<longleftrightarrow> wf_set s" "term_admits token [(k, s)] \<longleftrightarrow> satisfies s (token k)" "good_key ''sub''" "good_key ''aud''"
  by (auto simp: fit_Cons term_admits_def good_key_def)

definition settled_terms :: "string \<Rightarrow> az_expression option \<Rightarrow> string \<Rightarrow> claim_term list \<Rightarrow> az_reading \<Rightarrow> bool" where
  "settled_terms subject e issuer ts r \<longleftrightarrow>
     length ts \<in> {1, 2} \<and> (\<forall>t \<in> set ts. fit_term t \<and> (\<forall>k s. map_of t k = Some s \<and> is_unknown s \<longrightarrow> k \<in> doubted_claims r)) \<and>
     ((\<forall>x. e = Some x \<longrightarrow> plain_names (expression_value x)) \<longrightarrow> (\<forall>t \<in> set ts. \<forall>k \<in> set (map fst t). good_key k)) \<and>
     (\<forall>token. subject_meaning subject e issuer token \<longrightarrow> (\<exists>t \<in> set ts. term_admits token t)) \<and>
     (doubt_free r \<longrightarrow> length ts = 1 \<and> (\<forall>token. subject_meaning subject e issuer token \<longleftrightarrow> (\<exists>t \<in> set ts. term_admits token t)))"

lemma expression_settles:
  assumes "az_evaluate (expression_value x) issuer r1 = (t, r')" "expression_version x = 1" "doubt_free r1"
  shows "settled_terms [] (Some x) issuer [t] r'"
proof -
  note ev = evaluated [OF assms(1)] and er = expression_is_read [OF assms(1)]
  have "term_admits token t \<longleftrightarrow> expression_meaning (expression_value x) issuer token" if "doubt_free r'" for token
    using er(2) that assms(3) by (simp add: doubt_free_def)
  then show ?thesis using ev er(1) assms(2) by (auto simp: settled_terms_def subject_meaning_def)
qed

lemma leaves_doubt_not_free: "leaves_doubt k r r' \<Longrightarrow> \<not> doubt_free r'"
  using doubted_free by (auto simp: leaves_doubt_def)

lemma terms_settle:
  assumes "subject_term filed r = ((subject, st), r1)" "expression_term filed issuer r1 = ((e, et), r2)" "doubt_free r"
    and both: "anomaly_claim both = ''sub''" and neither: "anomaly_claim neither = ''sub''"
  shows "settled_terms subject e issuer
    (case (st, et) of (Some s, Some t) \<Rightarrow> [s, t] | (None, Some t) \<Rightarrow> [t] | (Some s, None) \<Rightarrow> [s] | (None, None) \<Rightarrow> [[(''sub'', Unknown ''no subject constraint'')]])
    (case (st, et) of (Some s, Some t) \<Rightarrow> az_doubt both r2 | (None, None) \<Rightarrow> az_doubt neither r2 | _ \<Rightarrow> r2)"
    (is "settled_terms _ _ _ ?ts ?r")
proof -
  have nf: "\<not> doubt_free (az_doubt a r2)" for a by (simp add: doubt_free_def)
  from subject_read [OF assms(1)] consider (unset) "subject = []" "st = None" "doubt_free r1"
    | (set) "subject \<noteq> []" "st = Some [(''sub'', Exact subject)]" "doubt_free r1"
    | (unread) why where "subject = []" "st = Some [(''sub'', Unknown why)]" "''sub'' \<in> doubted_claims r1"
    using assms(3) by (auto simp: doubt_free_def leaves_doubt_def)
  note cases_s = this
  from expression_read [OF assms(2)] consider (none) "e = None" "et = None" "reading_caveats r2 = reading_caveats r1"
    | (doubt) why where "et = Some [(''sub'', Unknown why)]" "\<forall>x. e = Some x \<longrightarrow> expression_version x \<noteq> 1" "leaves_doubt ''sub'' r1 r2"
    | (some) x t r3 where "e = Some x" "expression_version x = 1" "et = Some t" "reading_caveats r3 = reading_caveats r1"
        "az_evaluate (expression_value x) issuer r3 = (t, r2)" by blast
  then show ?thesis
  proof cases
    case none
    have d: "doubt_free r2 \<longleftrightarrow> doubt_free r1" "doubted_claims r2 = doubted_claims r1" using none(3) by (simp_all add: doubt_free_def doubted_claims_def)
    from cases_s show ?thesis
    proof cases
      case unset
      then show ?thesis using none neither nf by (simp add: settled_terms_def sub_term)
    next
      case set
      then show ?thesis using none d by (simp add: settled_terms_def sub_term subject_meaning_def)
    next
      case (unread why)
      then show ?thesis using none d doubted_free [of r1 "''sub''"] by (auto simp: settled_terms_def sub_term)
    qed
  next
    case doubt
    have nf2: "\<not> doubt_free r2" "''sub'' \<in> doubted_claims r2"
      using doubt(3) leaves_doubt_not_free by (auto simp: leaves_doubt_def)
    from cases_s show ?thesis
      by cases (use doubt nf nf2 both in \<open>auto simp: settled_terms_def sub_term subject_meaning_def\<close>)
  next
    case some
    note ev = evaluated [OF some(5)] and er = expression_is_read [OF some(5)]
    from cases_s show ?thesis
    proof cases
      case unset
      have "doubt_free r3" using some(4) unset(3) by (simp add: doubt_free_def)
      from expression_settles [OF some(5,2) this] show ?thesis using unset some by simp
    next
      case set
      then show ?thesis using some ev er(1) both nf by (auto simp: settled_terms_def sub_term subject_meaning_def)
    next
      case (unread why)
      then show ?thesis using some ev er(1) both nf by (auto simp: settled_terms_def sub_term subject_meaning_def)
    qed
  qed
qed

text \<open>The set of a credential, from its terms and its audience.\<close>

lemma audience_settles:
  assumes "settled_terms subject e issuer ts r" "az_audience filed r = ((auds, a), r')"
  shows "\<exists>us. all_defined (map (with_audience_set a) ts) = Some us \<and>
    (\<forall>token. (\<forall>x. e = Some x \<longrightarrow> plain_names (expression_value x)) \<longrightarrow> subject_meaning subject e issuer token \<and> audience_allows auds (token ''aud'') \<longrightarrow>
      admits (new_admitted_set us) token) \<and>
    (doubt_free r' \<longrightarrow> admitted_caveats (new_admitted_set us) = [] \<and> (\<forall>token. admits (new_admitted_set us) token \<longleftrightarrow>
      subject_meaning subject e issuer token \<and> audience_allows auds (token ''aud''))) \<and>
    (\<forall>t \<in> set (admitted_terms (new_admitted_set us)). \<forall>(k, s) \<in> set t. is_unknown s \<longrightarrow> k \<in> doubted_claims r')"
proof -
  note ar = audience_read [OF assms(2)]
  note st = assms(1) [unfolded settled_terms_def]
  have sub: "doubted_claims r \<subseteq> doubted_claims r'" using ar(1) doubted_more by blast
  define f where "f = the \<circ> with_audience_set a"
  have spec: "meet_into ''aud'' a t = Some (f t) \<and> fit_term (f t) \<and> set (map fst (f t)) = insert ''aud'' (set (map fst t)) \<and>
      (\<forall>token. term_admits token (f t) \<longleftrightarrow> term_admits token t \<and> audience_allows auds (token ''aud'')) \<and>
      (\<forall>(k, s) \<in> set (f t). is_unknown s \<longrightarrow> k \<in> doubted_claims r')"
    if "t \<in> set ts" for t
  proof -
    have t: "fit_term t" "\<And>k s. map_of t k = Some s \<Longrightarrow> is_unknown s \<Longrightarrow> k \<in> doubted_claims r" using st that by blast+
    obtain u where u: "meet_into ''aud'' a t = Some u" "fit_term u" "set (map fst u) = insert ''aud'' (set (map fst t))"
      "\<And>token. term_admits token u \<longleftrightarrow> term_admits token t \<and> satisfies a (token ''aud'')"
      "\<And>c s. map_of u c = Some s \<Longrightarrow> is_unknown s \<Longrightarrow> (\<exists>s'. map_of t c = Some s' \<and> is_unknown s') \<or> c = ''aud'' \<and> is_unknown a"
      by (rule meet_into_spec [OF t(1) ar(2), of "''aud''"]) (rule that)
    have "k \<in> doubted_claims r'" if "(k, s) \<in> set u" "is_unknown s" for k s
      using u(5) [of k s] that t(2) [of k] sub ar(3) fit_in_iff [OF u(2)] by blast
    moreover have "f t = u" using u(1) by (simp add: f_def with_audience_meets)
    ultimately show ?thesis using u(1-4) ar(5) by auto
  qed
  let ?us = "map f ts"
  have def: "all_defined (map (with_audience_set a) ts) = Some ?us"
    unfolding f_def using spec by (intro all_defined_map) (simp add: with_audience_meets)
  have unk: "k \<in> doubted_claims r'" if "t \<in> set (admitted_terms (new_admitted_set ?us))" "(k, s) \<in> set t" "is_unknown s" for t k s
    using normalise_members [of t ?us "[]" "''NewAdmittedSet''" k s] that spec by (fastforce simp: new_admitted_set_def)
  have upper: "admits (new_admitted_set ?us) token" if n: "\<forall>x. e = Some x \<longrightarrow> plain_names (expression_value x)"
    and m: "subject_meaning subject e issuer token" "audience_allows auds (token ''aud'')" for token
  proof -
    have "good_term (f t)" if "t \<in> set ts" for t
    proof -
      have "\<forall>k \<in> set (map fst t). good_key k" using st n that by blast
      then have "\<forall>k \<in> set (map fst (f t)). good_key k" using spec [OF that] sub_term(4) by (simp del: set_map)
      then show ?thesis using spec [OF that] by (simp only: fit_good)
    qed
    then have g: "\<forall>t \<in> set ?us. good_term t" by simp
    have l: "length ?us \<le> term_cap" using st by (auto simp: term_cap_def)
    show ?thesis unfolding new_set_good(1) [OF g l] using st m spec by fastforce
  qed
  have exact: "admitted_caveats (new_admitted_set ?us) = [] \<and> (admits (new_admitted_set ?us) token \<longleftrightarrow> subject_meaning subject e issuer token \<and> audience_allows auds (token ''aud''))"
    if "doubt_free r'" for token
  proof -
    have "doubt_free r" using that ar(1) more_free by blast
    then obtain t where t: "ts = [t]" "\<And>token. subject_meaning subject e issuer token \<longleftrightarrow> term_admits token t"
      using st by (cases ts) auto
    then show ?thesis using spec [of t] new_set_single [of "f t"] by simp
  qed
  show ?thesis
  proof (intro exI [of _ ?us] conjI)
    show "\<forall>t \<in> set (admitted_terms (new_admitted_set ?us)). \<forall>(k, s) \<in> set t. is_unknown s \<longrightarrow> k \<in> doubted_claims r'"
      using unk by blast
    show "doubt_free r' \<longrightarrow> admitted_caveats (new_admitted_set ?us) = [] \<and> (\<forall>token. admits (new_admitted_set ?us) token \<longleftrightarrow>
        subject_meaning subject e issuer token \<and> audience_allows auds (token ''aud''))"
      using exact by blast
  qed (use def upper in blast)+
qed

lemma credential_read:
  "\<exists>c. parse_credential res = Some c \<and> cred_raw c = Some (az_raw (res_object res)) \<and>
    (\<forall>token. plain_credential c \<longrightarrow> credential_meaning c token \<longrightarrow> admits (cred_admits c) token) \<and>
    (is_exact (cred_admits c) \<longrightarrow> (\<forall>token. admits (cred_admits c) token \<longleftrightarrow> credential_meaning c token)) \<and>
    (\<forall>t \<in> set (admitted_terms (cred_admits c)). \<forall>(k, s) \<in> set t. is_unknown s \<longrightarrow>
      (\<exists>cv \<in> set (admitted_caveats (cred_admits c)). caveat_claim cv = k))"
proof -
  define r0 where "r0 = \<lparr>reading_anomalies = [], reading_caveats = []\<rparr>"
  obtain labels r1 where 1: "file_members (az_members (res_object res)) labelMembers [] r0 = (labels, r1)" by fastforce
  obtain filed r2 where 2: "file_members (az_members (the (res_credential res))) credentialMembers [] r1 = (filed, r2)" by fastforce
  obtain ident r3 where 3: "label_of labels ''id'' r2 = (ident, r3)" by fastforce
  obtain name r4 where 4: "label_of labels ''name'' r3 = (name, r4)" by fastforce
  obtain written issuer r5 where 5: "az_issuer_of filed r4 = ((written, issuer), r5)" by (metis prod.exhaust)
  obtain subject st r6 where 6: "subject_term filed r5 = ((subject, st), r6)" by (metis prod.exhaust)
  obtain e et r7 where 7: "expression_term filed issuer r6 = ((e, et), r7)" by (metis prod.exhaust)
  have free: "doubt_free r5"
    using filed_caveats [OF 1] filed_caveats [OF 2] label_caveats(2) [OF 3] label_caveats(2) [OF 4] issuer_caveats [OF 5]
    by (simp add: doubt_free_def r0_def)
  define both where "both = expression_doubt SubjectAndExpression ''subject''
    ''subject and claimsMatchingExpression are both set; Microsoft says they are mutually exclusive, so the credential is read as admitting what either alone would'' ''subject''"
  define neither where "neither = expression_doubt NoSubjectConstraint ''subject''
    ''neither subject nor claimsMatchingExpression constrains the subject; a Graph v1.0 read omits claimsMatchingExpression, so a constraint on sub may exist that this document does not show'' ''subject''"
  define ts where "ts = (case (st, et) of (Some s, Some t) \<Rightarrow> [s, t] | (None, Some t) \<Rightarrow> [t] | (Some s, None) \<Rightarrow> [s] | (None, None) \<Rightarrow> [[(''sub'', Unknown ''no subject constraint'')]])"
  define r8 where "r8 = (case (st, et) of (Some s, Some t) \<Rightarrow> az_doubt both r7 | (None, None) \<Rightarrow> az_doubt neither r7 | _ \<Rightarrow> r7)"
  have settled: "settled_terms subject e issuer ts r8"
    unfolding ts_def r8_def by (rule terms_settle [OF 6 7 free]) (simp_all add: both_def neither_def expression_doubt_def)
  obtain auds a r9 where 9: "az_audience filed r8 = ((auds, a), r9)" by (metis prod.exhaust)
  from audience_settles [OF settled 9] obtain us where us: "all_defined (map (with_audience_set a) ts) = Some us"
    "\<And>token. (\<forall>x. e = Some x \<longrightarrow> plain_names (expression_value x)) \<Longrightarrow> subject_meaning subject e issuer token \<and> audience_allows auds (token ''aud'') \<Longrightarrow>
      admits (new_admitted_set us) token"
    "doubt_free r9 \<Longrightarrow> admitted_caveats (new_admitted_set us) = [] \<and> (\<forall>token. admits (new_admitted_set us) token \<longleftrightarrow>
      subject_meaning subject e issuer token \<and> audience_allows auds (token ''aud''))"
    "\<forall>t \<in> set (admitted_terms (new_admitted_set us)). \<forall>(k, s) \<in> set t. is_unknown s \<longrightarrow> k \<in> doubted_claims r9"
    by blast
  define c where "c = \<lparr>cred_id = ident, cred_name = name, cred_issuer = written, cred_subject = subject, cred_audiences = auds,
    cred_expression = e, cred_anomalies = canonical_anomalies (reading_anomalies r9), cred_issuer_ref = issuer,
    cred_admits = fold with_caveat (reading_caveats r9) (new_admitted_set us), cred_raw = Some (az_raw (res_object res))\<rparr>"
  have pair: "(case st of
       None \<Rightarrow> (case et of None \<Rightarrow> ([[(''sub'', Unknown ''no subject constraint'')]], az_doubt neither r7) | Some t \<Rightarrow> ([t], r7))
     | Some s \<Rightarrow> (case et of None \<Rightarrow> ([s], r7) | Some t \<Rightarrow> ([s, t], az_doubt both r7))) = (ts, r8)"
    by (simp add: ts_def r8_def split: option.split)
  have p: "parse_credential res = Some c"
    unfolding parse_credential_def Let_def r0_def [symmetric] 1 2 3 4 5 6 7 prod.case both_def [symmetric] neither_def [symmetric] pair 9 us(1)
    by (simp add: c_def)
  have adm: "admits (cred_admits c) token \<longleftrightarrow> admits (new_admitted_set us) token" for token
    by (simp add: c_def admits_iff fold_caveats_terms)
  have cav: "set (admitted_caveats (cred_admits c)) = set (admitted_caveats (new_admitted_set us)) \<union> set (reading_caveats r9)"
    by (simp add: c_def fold_caveats)
  have mean: "credential_meaning c token \<longleftrightarrow> subject_meaning subject e issuer token \<and> audience_allows auds (token ''aud'')" for token
    by (simp add: credential_meaning_def c_def)
  have plain: "plain_credential c \<longleftrightarrow> (\<forall>x. e = Some x \<longrightarrow> plain_names (expression_value x))"
    by (simp add: plain_credential_def c_def split: option.split)
  have ex: "is_exact (cred_admits c) \<Longrightarrow> doubt_free r9" using cav by (auto simp: is_exact_def doubt_free_def)
  have unk: "\<exists>cv \<in> set (admitted_caveats (cred_admits c)). caveat_claim cv = k"
    if "t \<in> set (admitted_terms (cred_admits c))" "(k, s) \<in> set t" "is_unknown s" for t k s
  proof -
    have "t \<in> set (admitted_terms (new_admitted_set us))" using that(1) by (simp add: c_def fold_caveats_terms)
    then have "k \<in> doubted_claims r9" using us(4) that(2,3) by blast
    then show ?thesis unfolding cav by (auto simp: doubted_claims_def)
  qed
  show ?thesis
  proof (intro exI conjI)
    show "parse_credential res = Some c" by (rule p)
    show "cred_raw c = Some (az_raw (res_object res))" by (simp add: c_def)
    show "\<forall>token. plain_credential c \<longrightarrow> credential_meaning c token \<longrightarrow> admits (cred_admits c) token"
      unfolding adm mean plain using us(2) by blast
    show "is_exact (cred_admits c) \<longrightarrow> (\<forall>token. admits (cred_admits c) token \<longleftrightarrow> credential_meaning c token)"
      unfolding adm mean using us(3) ex by blast
    show "\<forall>t \<in> set (admitted_terms (cred_admits c)). \<forall>(k, s) \<in> set t. is_unknown s \<longrightarrow>
        (\<exists>cv \<in> set (admitted_caveats (cred_admits c)). caveat_claim cv = k)"
      using unk by blast
  qed
qed

end
