(* ===== verification/Azure_Promises.thy ===== *)
theory Azure_Promises imports Azure_Credential_Laws begin

text \<open>
  The properties of package parse/azure: the document is read as the AWS reader reads it; an
  expression written clause by clause is read back; a credential admits what its members say, and
  becomes one grant that quotes its own bytes and leaves no doubt unstated.
\<close>

section \<open>Values are pieces of the document\<close>

fun from_source :: "string \<Rightarrow> az_value \<Rightarrow> bool" and member_from_source :: "string \<Rightarrow> az_member \<Rightarrow> bool" where
  "from_source raw (AzValue k t ms vs bytes) \<longleftrightarrow>
     (\<exists>i j. bytes = slice i j raw) \<and> list_all (member_from_source raw) ms \<and> list_all (from_source raw) vs"
| "member_from_source raw (AzMember name v) \<longleftrightarrow> from_source raw v"

lemma slice_itself [simp]: "\<exists>k l. slice i j raw = slice k l raw"
  by blast

lemma read_from_source:
  "az_value_of raw depth t d = Inr (v, d') \<Longrightarrow> from_source raw v"
  "list_all (member_from_source raw) ms \<Longrightarrow> az_read_object raw depth start ms d = Inr (v, d') \<Longrightarrow> from_source raw v"
  "list_all (from_source raw) items \<Longrightarrow> az_read_list raw depth start items d = Inr (v, d') \<Longrightarrow> from_source raw v"
proof (induction raw depth t d and raw depth start ms d and raw depth start items d arbitrary: v d' and v d' and v d'
    rule: az_value_of_az_read_object_az_read_list.induct)
  case (1 raw depth tok start finish d)
  show ?case
  proof (cases tok)
    case (Delim c)
    then show ?thesis using 1 by (auto simp: az_value_of.simps [of raw depth "Delim c"] split: if_splits)
  qed (use "1.prems" in \<open>auto simp: az_value_of.simps split: option.splits\<close>)
next
  case (2 raw depth start ms d)
  obtain tok i j d1 where n: "az_next raw d = Inr ((tok, i, j), d1)"
    using "2.prems" by (auto simp: az_read_object.simps [of raw depth start ms d] split: sum.splits)
  show ?case
  proof (cases "tok = Delim (CHR ''}'')")
    case True
    then show ?thesis using "2.prems" n by (auto simp: az_read_object.simps [of raw depth start ms d])
  next
    case False
    then obtain t d2 w d3 name where r: "az_lone_surrogate (slice i j raw) = None" "az_next raw d1 = Inr (t, d2)" "az_value_of raw depth t d2 = Inr (w, d3)"
      "tok = TokString name" "az_read_object raw depth start (ms @ [AzMember name w]) d3 = Inr (v, d')"
      using "2.prems"(2) n by (auto simp: az_read_object.simps [of raw depth start ms d] split: sum.splits option.splits json_token.splits)
    have "from_source raw w" using "2.IH"(1) [OF n refl refl refl False r(1,2) refl r(3)] .
    then have "list_all (member_from_source raw) (ms @ [AzMember name w])" using "2.prems"(1) by simp
    from "2.IH"(2) [OF n refl refl refl False r(1,2) refl r(3) refl r(4) this r(5)] show ?thesis .
  qed
next
  case (3 raw depth start items d)
  obtain tok i j d1 where n: "az_next raw d = Inr ((tok, i, j), d1)"
    using "3.prems" by (auto simp: az_read_list.simps [of raw depth start items d] split: sum.splits)
  show ?case
  proof (cases "tok = Delim (CHR '']'')")
    case True
    then show ?thesis using "3.prems" n by (auto simp: az_read_list.simps [of raw depth start items d])
  next
    case False
    then obtain w d2 where r: "az_value_of raw depth (tok, i, j) d1 = Inr (w, d2)" "az_read_list raw depth start (items @ [w]) d2 = Inr (v, d')"
      using "3.prems"(2) n by (auto simp: az_read_list.simps [of raw depth start items d] split: sum.splits)
    have "from_source raw w" using "3.IH"(1) [OF n refl refl refl False r(1)] .
    then have "list_all (from_source raw) (items @ [w])" using "3.prems"(1) by simp
    from "3.IH"(2) [OF n refl refl refl False r(1) refl this r(2)] show ?thesis .
  qed
qed

lemma document_from_source: "az_read_document raw = Inr v \<Longrightarrow> from_source raw v"
  using read_from_source(1) by (auto simp: az_read_document_def az_read_value_def split: if_splits sum.splits decode_error.splits)

lemma from_source_parts:
  assumes "from_source raw v"
  shows "\<exists>p u. raw = p @ az_raw v @ u" "m \<in> set (az_members v) \<Longrightarrow> from_source raw (az_member_value m)" "w \<in> set (az_items v) \<Longrightarrow> from_source raw w"
proof -
  obtain k t ms vs bytes where v: "v = AzValue k t ms vs bytes" by (cases v)
  obtain i j where b: "bytes = slice i j raw" using assms v by auto
  have "raw = take i raw @ take (j - i) (drop i raw) @ drop (j - i) (drop i raw)" by (metis append_take_drop_id)
  then show "\<exists>p u. raw = p @ az_raw v @ u" unfolding v b slice_def by auto
  show "m \<in> set (az_members v) \<Longrightarrow> from_source raw (az_member_value m)" using assms v by (cases m) (auto simp: list_all_iff)
  show "w \<in> set (az_items v) \<Longrightarrow> from_source raw w" using assms v by (auto simp: list_all_iff)
qed

lemma named_from_source: "from_source raw v \<Longrightarrow> w \<in> set (members_named (az_members v) name) \<Longrightarrow> from_source raw w"
  using from_source_parts(2) by (auto simp: members_named_def)

text \<open>The object of a resource is one of the document's values.\<close>

lemma resource_of_object: "resource_of v spot = Inr res \<Longrightarrow> res_object res = v"
  by (auto simp: resource_of_def Let_def split: if_splits)

lemma listed_objects: "listed_from i items pre = Inr rs \<Longrightarrow> res \<in> set rs \<Longrightarrow> res_object res \<in> set items"
proof (induction items arbitrary: i rs)
  case (Cons item items)
  then obtain x rest where x: "resource_of item (pre @ ''['' @ itoa (int i) @ '']'') = Inr x" "listed_from (i + 1) items pre = Inr rest" "rs = x # rest"
    by (cases "listed_from (i + 1) items pre") (auto simp: Let_def split: if_splits sum.splits)
  then show ?case using resource_of_object [OF x(1)] Cons.IH [OF x(2)] Cons.prems(2) by auto
qed simp

lemma resources_from_source:
  assumes "from_source raw root" "resources_in root = Inr rs" "res \<in> set rs"
  shows "from_source raw (res_object res)"
proof (cases "az_kind root = kindList")
  case True
  then show ?thesis using assms listed_objects from_source_parts(3) [OF assms(1)] by (auto simp: resources_in_def listed_resources_def)
next
  case False
  let ?vs = "members_named (az_members root) ''value''"
  have "res_object res = root \<or> ?vs \<noteq> [] \<and> (res_object res = hd ?vs \<or> res_object res \<in> set (az_items (hd ?vs)))"
    using assms(2,3) False
    by (auto simp: resources_in_def listed_resources_def Let_def dest: resource_of_object listed_objects split: if_splits option.splits sum.splits)
  moreover have "from_source raw (hd ?vs)" if "?vs \<noteq> []" using named_from_source [OF assms(1), of _ "''value''"] hd_in_set [OF that] by blast
  ultimately show ?thesis using assms(1) from_source_parts(3) [of raw "hd ?vs"] by (elim disjE conjE) simp_all
qed

text \<open>
  The objects a document holds as credentials: the items of a list, or of the list under the member
  value; the object under that member; or the document itself.
\<close>

definition document_objects :: "az_value \<Rightarrow> az_value list" where
  "document_objects root =
     (if az_kind root = kindList then az_items root
      else
        (case filter (\<lambda>v. az_kind v = kindList \<or> az_kind v = kindObject)
            (map az_member_value (filter (\<lambda>m. az_name m = ''value'') (az_members root))) of
           [v] \<Rightarrow> if az_kind v = kindList then az_items v else [v]
         | _ \<Rightarrow> [root]))"

lemma listed_all: "listed_from i items pre = Inr rs \<Longrightarrow> map res_object rs = items"
proof (induction items arbitrary: i rs)
  case (Cons item items)
  then obtain x rest where x: "resource_of item (pre @ ''['' @ itoa (int i) @ '']'') = Inr x" "listed_from (i + 1) items pre = Inr rest" "rs = x # rest"
    by (cases "listed_from (i + 1) items pre") (auto simp: Let_def split: if_splits sum.splits)
  then show ?case using resource_of_object [OF x(1)] Cons.IH [OF x(2)] by simp
qed simp

lemma resources_objects:
  assumes "resources_in root = Inr rs"
  shows "map res_object rs = document_objects root"
proof (cases "az_kind root = kindList")
  case True
  then show ?thesis using assms listed_all by (simp add: resources_in_def listed_resources_def document_objects_def)
next
  case False
  let ?vs = "members_named (az_members root) ''value''"
  have vs: "?vs = map az_member_value (filter (\<lambda>m. az_name m = ''value'') (az_members root))"
    by (simp add: members_named_def)
  have "length ?vs \<le> 1" using assms False by (auto simp: resources_in_def Let_def split: if_splits)
  then consider "?vs = []" | v where "?vs = [v]" by (cases ?vs) auto
  then show ?thesis
  proof cases
    case 1
    then show ?thesis using assms False unfolding document_objects_def vs [symmetric]
      by (auto simp: resources_in_def Let_def dest: resource_of_object split: if_splits option.splits sum.splits)
  next
    case (2 v)
    then show ?thesis using assms False listed_all unfolding document_objects_def vs [symmetric]
      by (auto simp: resources_in_def listed_resources_def Let_def dest: resource_of_object split: if_splits option.splits sum.splits)
  qed
qed

section \<open>The grammar read back\<close>

text \<open>A value as a comparand spells it, each single quote doubled, and a clause as it is written.\<close>

definition doubled :: "string \<Rightarrow> string" where
  "doubled v = concat (map (\<lambda>c. if c = squote then [squote, squote] else [c]) v)"

definition written_clause :: "string \<times> string \<times> string \<Rightarrow> string" where
  "written_clause c =
     (case c of (name, operator, value) \<Rightarrow>
        (''claims['' @ [CHR 0x27]) @ name @ ([CHR 0x27] @ ''] '') @ operator @ ('' '' @ [CHR 0x27]) @ doubled value @ [squote])"

definition clause_of :: "string \<times> string \<times> string \<Rightarrow> clause" where
  "clause_of c =
     (case c of (name, operator, value) \<Rightarrow>
        \<lparr>clause_text = written_clause c, clause_name = name, clause_operator = operator, clause_comparand = doubled value\<rparr>)"

text \<open>A name a claim may have, without a quote; an operator of letters that is not the word and.\<close>

definition writable_clause :: "string \<times> string \<times> string \<Rightarrow> bool" where
  "writable_clause c \<longleftrightarrow>
     (case c of (name, operator, value) \<Rightarrow>
        claim_name name \<noteq> None \<and> squote \<notin> set name \<and> operator \<noteq> [] \<and> list_all is_ascii_letter operator \<and> operator \<noteq> ''and'')"

lemma doubled_simps [simp]: "doubled [] = []" "doubled (c # v) = (if c = squote then [squote, squote] else [c]) @ doubled v"
  by (simp_all add: doubled_def)

lemma doubled_plain: "squote \<notin> set v \<Longrightarrow> doubled v = v"
  by (induction v) auto

lemma scan_doubled: "scan_comparand (doubled v @ [squote]) = Some (doubled v, [])"
proof (induction v)
  case (Cons c v)
  show ?case
  proof (cases "c = squote")
    case False
    obtain d w where w: "doubled v @ [squote] = d # w" by (cases "doubled v @ [squote]") auto
    then show ?thesis using Cons False by simp
  qed (use Cons in simp)
qed simp

lemma squote_letters: "\<not> is_ascii_letter squote" "\<not> is_ascii_letter (CHR '' '')" "squote \<noteq> CHR '' ''" "squote \<noteq> CHR '']''" "squote \<noteq> CHR ''a''"
  by (simp_all add: is_ascii_letter_def squote_def byte_def)

lemma cut_prefix_append [simp]: "cut_prefix (p @ s) p = (s, True)"
  by (simp add: cut_prefix_def)

lemma claims_open: "(''claims['' @ [CHR 0x27]) = ''claims['' @ [squote]" "([CHR 0x27] @ ''] '') = squote # '']'' @ '' ''" "('' '' @ [CHR 0x27]) = '' '' @ [squote]"
  by (simp_all add: squote_def)

lemma written_parses: "writable_clause c \<Longrightarrow> parse_clause (written_clause c) = Some (clause_of c)"
proof -
  obtain name operator value' where c: "c = (name, operator, value')" by (metis prod.exhaust)
  assume w: "writable_clause c"
  then have n: "claim_name name \<noteq> None" "squote \<notin> set name" "operator \<noteq> []" "list_all is_ascii_letter operator"
    by (auto simp: writable_clause_def c)
  let ?tail = "operator @ '' '' @ squote # doubled value' @ [squote]"
  have whole: "written_clause c = (''claims['' @ [squote]) @ name @ squote # '']'' @ '' '' @ ?tail"
    by (simp add: written_clause_def c squote_def)
  have start: "cut_prefix (written_clause c) (''claims['' @ [CHR 0x27]) = (name @ squote # '']'' @ '' '' @ ?tail, True)"
    unfolding whole claims_open by (rule cut_prefix_append)
  have name: "cut (name @ squote # '']'' @ '' '' @ ?tail) [squote] = (name, '']'' @ '' '' @ ?tail, True)"
    by (rule cut_char_append [OF n(2)])
  have bracket: "cut_prefix ('']'' @ '' '' @ ?tail) ''] '' = (?tail, True)"
    using cut_prefix_append [of "''] ''" ?tail] by simp
  have op: "takeWhile is_ascii_letter ?tail = operator" "dropWhile is_ascii_letter ?tail = '' '' @ squote # doubled value' @ [squote]"
    using n(4) squote_letters by (simp_all add: takeWhile_append2 dropWhile_append2 list_all_iff takeWhile_append dropWhile_append)
  have quote: "cut_prefix ('' '' @ squote # doubled value' @ [squote]) ('' '' @ [CHR 0x27]) = (doubled value' @ [squote], True)"
    using cut_prefix_append [of "'' '' @ [squote]" "doubled value' @ [squote]"] unfolding claims_open by simp
  show ?thesis
    unfolding parse_clause_def start name bracket op quote Let_def prod.case scan_doubled
    using n by (simp add: clause_of_def c name bracket op quote scan_doubled Let_def)
qed

lemma split_plain: "c \<noteq> squote \<Longrightarrow> quoted \<or> \<not> has_prefix (c # t) '' and '' \<Longrightarrow> split_from piece quoted (c # t) = split_from (piece @ [c]) quoted t"
  by (subst split_from.simps) auto

lemma split_open: "split_from piece False (squote # t) = split_from (piece @ [squote]) True t"
  by (subst split_from.simps) simp

lemma split_quoted:
  "t = [] \<or> hd t \<noteq> squote \<Longrightarrow> split_from piece True (doubled v @ squote # t) = split_from (piece @ doubled v @ [squote]) False t"
proof (induction v arbitrary: piece)
  case Nil
  then show ?case by (simp, subst split_from.simps) auto
next
  case (Cons c v)
  show ?case
  proof (cases "c = squote")
    case True
    have "split_from piece True (squote # squote # (doubled v @ squote # t)) = split_from (piece @ [squote, squote]) True (doubled v @ squote # t)"
      by (subst split_from.simps) simp
    then show ?thesis using Cons True by simp
  next
    case False
    then show ?thesis using Cons by (simp add: split_plain)
  qed
qed

lemma split_spaceless:
  "squote \<notin> set w \<Longrightarrow> CHR '' '' \<notin> set w \<Longrightarrow> split_from piece False (w @ t) = split_from (piece @ w) False t"
proof (induction w arbitrary: piece)
  case (Cons c w)
  have "\<not> has_prefix ((c # w) @ t) '' and ''" using Cons.prems by (auto simp: has_prefix_def)
  then show ?case using Cons by (auto simp: split_plain)
qed simp

lemma operator_space:
  assumes "list_all is_ascii_letter operator" "operator \<noteq> ''and''"
  shows "\<not> has_prefix ('' '' @ operator @ '' '' @ t) '' and ''"
proof
  assume "has_prefix ('' '' @ operator @ '' '' @ t) '' and ''"
  then obtain u where u: "operator @ '' '' @ t = ''and '' @ u" by (auto simp: has_prefix_def prefix_def)
  have l: "takeWhile is_ascii_letter (operator @ '' '' @ t) = operator" using assms(1) squote_letters
    by (simp add: takeWhile_append list_all_iff)
  have "takeWhile is_ascii_letter (''and '' @ u) = ''and''" by (simp add: is_ascii_letter_def byte_def)
  then show False using l u assms(2) by metis
qed

lemma split_written:
  assumes "writable_clause c" "t = [] \<or> hd t \<noteq> squote"
  shows "split_from piece False (written_clause c @ t) = split_from (piece @ written_clause c) False t"
proof -
  obtain name operator v where c: "c = (name, operator, v)" by (metis prod.exhaust)
  then have n: "squote \<notin> set name" "operator \<noteq> []" "list_all is_ascii_letter operator" "operator \<noteq> ''and''"
    using assms(1) by (auto simp: writable_clause_def)
  have letters: "squote \<notin> set operator" "CHR '' '' \<notin> set operator" using n(3) squote_letters by (auto simp: list_all_iff)
  let ?tail = "doubled v @ squote # t"
  have "split_from piece False (written_clause c @ t) =
      split_from piece False (''claims['' @ squote # doubled name @ squote # '']'' @ '' '' @ operator @ '' '' @ squote # ?tail)"
    by (simp add: written_clause_def c squote_def doubled_plain [OF n(1), unfolded squote_def])
  also have "\<dots> = split_from (piece @ ''claims['') False (squote # doubled name @ squote # '']'' @ '' '' @ operator @ '' '' @ squote # ?tail)"
    by (rule split_spaceless) (simp_all add: squote_def)
  also have "\<dots> = split_from ((piece @ ''claims['') @ [squote]) True (doubled name @ squote # '']'' @ '' '' @ operator @ '' '' @ squote # ?tail)"
    by (rule split_open)
  also have "\<dots> = split_from (((piece @ ''claims['') @ [squote]) @ doubled name @ [squote]) False ('']'' @ '' '' @ operator @ '' '' @ squote # ?tail)"
    using squote_letters by (intro split_quoted) auto
  also have "\<dots> = split_from ((((piece @ ''claims['') @ [squote]) @ doubled name @ [squote]) @ '']'') False ('' '' @ operator @ '' '' @ squote # ?tail)"
    by (rule split_spaceless) (simp_all add: squote_def)
  also have "\<dots> = split_from (((((piece @ ''claims['') @ [squote]) @ doubled name @ [squote]) @ '']'') @ '' '') False (operator @ '' '' @ squote # ?tail)"
    using operator_space [OF n(3,4), of "squote # ?tail"] squote_letters by (simp add: split_plain)
  also have "\<dots> = split_from ((((((piece @ ''claims['') @ [squote]) @ doubled name @ [squote]) @ '']'') @ '' '') @ operator) False ('' '' @ squote # ?tail)"
    by (rule split_spaceless [OF letters])
  also have "\<dots> = split_from (((((((piece @ ''claims['') @ [squote]) @ doubled name @ [squote]) @ '']'') @ '' '') @ operator) @ '' '') False (squote # ?tail)"
  proof -
    have "\<not> has_prefix ('' '' @ squote # ?tail) '' and ''" by (simp add: has_prefix_def squote_def)
    then show ?thesis using squote_letters by (simp add: split_plain)
  qed
  also have "\<dots> = split_from ((((((((piece @ ''claims['') @ [squote]) @ doubled name @ [squote]) @ '']'') @ '' '') @ operator) @ '' '') @ [squote]) True ?tail"
    by (rule split_open)
  also have "\<dots> = split_from (((((((((piece @ ''claims['') @ [squote]) @ doubled name @ [squote]) @ '']'') @ '' '') @ operator) @ '' '') @ [squote]) @ doubled v @ [squote]) False t"
    using assms(2) by (rule split_quoted)
  finally show ?thesis by (simp add: written_clause_def c squote_def doubled_plain [OF n(1), unfolded squote_def])
qed

lemma split_conjunction: "list_all writable_clause (c # cs) \<Longrightarrow>
    split_from [] False (join_strings '' and '' (map written_clause (c # cs))) = map written_clause (c # cs)"
proof (induction cs arbitrary: c)
  case Nil
  then show ?case using split_written [of c "[]" "[]"] by (simp add: split_from.simps [of _ _ "[]"])
next
  case (Cons d cs)
  let ?rest = "join_strings '' and '' (map written_clause (d # cs))"
  have "split_from [] False (written_clause c @ '' and '' @ ?rest) = split_from (written_clause c) False ('' and '' @ ?rest)"
    using split_written [of c "'' and '' @ ?rest" "[]"] Cons.prems squote_letters by (simp add: squote_def)
  also have "\<dots> = written_clause c # split_from [] False ?rest"
    by (subst split_from.simps) (simp add: squote_def has_prefix_def prefix_def)
  finally show ?case using Cons by simp
qed

lemma doubled_even: "even (count_list (doubled v) squote)"
  by (induction v) auto

lemma written_even: "writable_clause c \<Longrightarrow> even (count_list (written_clause c) squote)"
proof -
  assume w: "writable_clause c"
  obtain name operator v where c: "c = (name, operator, v)" by (metis prod.exhaust)
  have "squote \<notin> set operator" "squote \<notin> set name" using w squote_letters by (auto simp: writable_clause_def c list_all_iff)
  then have "count_list operator squote = 0" "count_list name squote = 0" by (simp_all add: count_list_0_iff)
  then show ?thesis using doubled_even [of v] by (simp add: written_clause_def c count_list_append squote_def)
qed

lemma conjunction_even: "list_all writable_clause cs \<Longrightarrow> even (count_list (join_strings '' and '' (map written_clause cs)) squote)"
proof (induction cs)
  case (Cons c cs)
  have "count_list '' and '' squote = 0" by (simp add: squote_def)
  then show ?case using Cons written_even [of c] by (cases cs) (auto simp: count_list_append)
qed (simp add: squote_def)

section \<open>The properties\<close>


text \<open>What the grant of an object is: an Allow on the target, of the object's own bytes, with no Unknown unsaid.\<close>

definition granted :: "string \<Rightarrow> target_ref \<Rightarrow> az_value \<Rightarrow> credential option \<Rightarrow> bool" where
  "granted raw target v c \<longleftrightarrow>
     (\<exists>cr g p u. c = Some cr \<and> grants_of cr target = [g] \<and> grant_effect g = Allow \<and> grant_target g = target \<and>
       grant_admits g = cred_admits cr \<and> grant_source g = az_raw v \<and> raw = p @ az_raw v @ u \<and> undeclared_unknowns g = [])"

lemma resource_granted:
  assumes "from_source raw (res_object res)"
  shows "granted raw target (res_object res) (parse_credential res)"
proof -
  obtain cr where cr: "parse_credential res = Some cr" "cred_raw cr = Some (az_raw (res_object res))"
    "\<forall>t \<in> set (admitted_terms (cred_admits cr)). \<forall>(k, s) \<in> set t. is_unknown s \<longrightarrow> (\<exists>cv \<in> set (admitted_caveats (cred_admits cr)). caveat_claim cv = k)"
    using credential_read [of res] by blast
  obtain p u where u: "raw = p @ az_raw (res_object res) @ u" using from_source_parts(1) [OF assms] by blast
  define g where "g = \<lparr>grant_target = target, grant_issuer = cred_issuer_ref cr, grant_admits = cred_admits cr, grant_effect = Allow,
    grant_provenance = [], grant_anomalies = cred_anomalies cr, grant_source = az_raw (res_object res)\<rparr>"
  have d: "undeclared_unknowns g = []" using cr(3) by (intro all_declared) (auto simp: g_def)
  have "grants_of cr target = [g]" by (simp add: grants_of_def cr(2) g_def)
  moreover have "grant_effect g = Allow" "grant_target g = target" "grant_admits g = cred_admits cr" "grant_source g = az_raw (res_object res)"
    by (simp_all add: g_def)
  ultimately show ?thesis unfolding granted_def using cr(1) u d by blast
qed

lemma parsed_grants:
  assumes "parse_credentials raw = Inr cs"
  shows "\<exists>root. az_read_document raw = Inr root \<and> list_all2 (granted raw target) (document_objects root) cs"
proof -
  obtain root resources where r: "az_read_document raw = Inr root" "resources_in root = Inr resources" "cs = map parse_credential resources"
    using assms by (auto simp: parse_credentials_def split: sum.splits)
  have "granted raw target (res_object res) (parse_credential res)" if "res \<in> set resources" for res
    using resource_granted resources_from_source [OF document_from_source [OF r(1)] r(2) that] by blast
  then have "list_all2 (granted raw target) (map res_object resources) cs"
    unfolding r(3) list.rel_map by (intro list_all2_same [THEN iffD2] ballI)
  then show ?thesis using r(1) unfolding resources_objects [OF r(2)] by blast
qed







text \<open>A collection of two.\<close>

definition sample_collection :: string where
  "sample_collection = ''{'' @ [dquote] @ ''value'' @ [dquote] @ '':[{'' @ [dquote] @ ''subject'' @ [dquote] @ '':'' @ [dquote] @ ''a'' @ [dquote] @ ''},{'' @ [dquote] @ ''properties'' @ [dquote] @ '':{'' @ [dquote] @ ''subject'' @ [dquote] @ '':'' @ [dquote] @ ''b'' @ [dquote] @ ''}}]}''"

text \<open>
  C20: A document that is read loses no credential. The objects it holds, the items of its list or of the list under value, the
  object under value, or the document itself, become credentials one for one in document order, none of them a panic, and each
  credential becomes one grant: an Allow on the target the caller names, whose source is the object's own bytes, a run of the
  document's, and of which every claim that was not read is declared by a caveat.
\<close>

theorem every_credential_is_a_grant:
  assumes "parse_credentials raw = Inr cs"
  shows "\<exists>root. az_read_document raw = Inr root \<and>
    list_all2 (\<lambda>v c. \<exists>cr g p u. c = Some cr \<and> grants_of cr target = [g] \<and> grant_effect g = Allow \<and> grant_target g = target \<and>
      grant_admits g = cred_admits cr \<and> grant_source g = az_raw v \<and> raw = p @ az_raw v @ u \<and> undeclared_unknowns g = [])
      (document_objects root) cs"
  using parsed_grants [OF assms] by (simp only: granted_def [abs_def])

theorem every_credential_is_a_grant_witness:
  "\<exists>a b g. parse_credentials sample_collection = Inr [Some a, Some b] \<and> grants_of b \<lparr>target_kind = ''app'', target_id = ''x''\<rparr> = [g] \<and>
    grant_source g = ''{'' @ [dquote] @ ''properties'' @ [dquote] @ '':{'' @ [dquote] @ ''subject'' @ [dquote] @ '':'' @ [dquote] @ ''b'' @ [dquote] @ ''}}''"
proof -
  let ?target = "\<lparr>target_kind = ''app'', target_id = ''x''\<rparr>"
  have c: "case_sum (\<lambda>e. False) (\<lambda>root. map az_raw (document_objects root) = [''{'' @ [dquote] @ ''subject'' @ [dquote] @ '':'' @ [dquote] @ ''a'' @ [dquote] @ ''}'', ''{'' @ [dquote] @ ''properties'' @ [dquote] @ '':{'' @ [dquote] @ ''subject'' @ [dquote] @ '':'' @ [dquote] @ ''b'' @ [dquote] @ ''}}''])
      (az_read_document sample_collection)"
    "case_sum (\<lambda>e. False) (\<lambda>cs. True) (parse_credentials sample_collection)"
    by code_simp+
  obtain cs where cs: "parse_credentials sample_collection = Inr cs" using c(2) by (cases "parse_credentials sample_collection") auto
  from every_credential_is_a_grant [OF this, of ?target] obtain root where root: "az_read_document sample_collection = Inr root"
    "list_all2 (\<lambda>v c. \<exists>cr g p u. c = Some cr \<and> grants_of cr ?target = [g] \<and> grant_effect g = Allow \<and> grant_target g = ?target \<and>
      grant_admits g = cred_admits cr \<and> grant_source g = az_raw v \<and> sample_collection = p @ az_raw v @ u \<and> undeclared_unknowns g = [])
      (document_objects root) cs" by blast
  obtain v w where vw: "document_objects root = [v, w]" "az_raw w = ''{'' @ [dquote] @ ''properties'' @ [dquote] @ '':{'' @ [dquote] @ ''subject'' @ [dquote] @ '':'' @ [dquote] @ ''b'' @ [dquote] @ ''}}''"
    using c(1) root(1) by (auto simp: map_eq_Cons_conv)
  then obtain a b g where "cs = [Some a, Some b]" "grants_of b ?target = [g]" "grant_source g = az_raw w"
    using root(2) by (auto simp: list_all2_Cons1)
  then show ?thesis using cs vw(2) by auto
qed

text \<open>
  C21: The JSON reader of the Azure parser and the one of the AWS parser, written twice, are one reader: on every document they
  return the same value or refuse it for the same reason at the same offset.
\<close>

theorem credential_readers_agree: "az_read_document raw = map_sum az_error az_of (parse_tree raw)"
  by (rule az_document_agrees)

text \<open>
  C22: An expression of clauses joined by the word and, each a claim, an operator and a comparand whose single quotes are
  doubled, is read back clause by clause, whatever the comparands hold.
\<close>

theorem clauses_read_back:
  assumes "cs \<noteq> []" "list_all writable_clause cs"
  shows "map parse_clause (split_clauses (join_strings '' and '' (map written_clause cs))) = map (Some \<circ> clause_of) cs \<and>
    even (count_list (join_strings '' and '' (map written_clause cs)) squote)"
proof -
  obtain c rest where c: "cs = c # rest" using assms(1) by (cases cs) auto
  have "split_clauses (join_strings '' and '' (map written_clause cs)) = map written_clause cs"
    using split_conjunction assms(2) unfolding c split_clauses_def by blast
  moreover have "map parse_clause (map written_clause cs) = map (Some \<circ> clause_of) cs"
    using assms(2) written_parses by (auto simp: list_all_iff)
  ultimately show ?thesis using conjunction_even [OF assms(2)] by simp
qed

text \<open>Two clauses, one whose comparand holds the word and and a quote.\<close>

theorem clauses_read_back_witness:
  "map parse_clause (split_clauses (join_strings '' and ''
      (map written_clause [(''sub'', ''matches'', ''a and b''), (''ref'', ''eq'', ''it'' @ [CHR 0x27] @ ''s'')]))) =
    map (Some \<circ> clause_of) [(''sub'', ''matches'', ''a and b''), (''ref'', ''eq'', ''it'' @ [CHR 0x27] @ ''s'')] \<and>
   even (count_list (join_strings '' and ''
      (map written_clause [(''sub'', ''matches'', ''a and b''), (''ref'', ''eq'', ''it'' @ [CHR 0x27] @ ''s'')])) squote)"
  by (rule clauses_read_back) code_simp+

end
