(* ===== verification/Spec2Isabelle.thy ===== *)
theory Spec2Isabelle imports Trust_Conformance Aws_Questions Registry_Laws Join_Promises Aws_Edit_Deny Aws_Trust_Policy Aws_Reader_Bounds Azure_Promises begin

text \<open>
  A verification development for the Go program cloudarq (src/), which answers who can assume a cloud
  identity: it reads trust policies and federated credentials, turns each statement into a grant with the
  set of tokens it admits, places every grant by how far out its population lies, and links grants that
  one identity can use together.

  The parts and how they interact. Package eval is the lattice of claim constraints and of the sets of
  tokens made from them. Package trust states the grant that every provider's parser produces. The parsers
  (parse/aws, parse/azure) read a document's JSON, evaluate its conditions with eval and produce grants.
  Package registry answers what a census of token issuers knows; package ring places a grant with those
  facts and the owners a user declares; package report calls the two together. Package join compares grants
  pairwise. An error is a value, Inl of a sum; a panic or Go's nil is None; a slice is a list, a struct a
  record, a Go string the list of its bytes.

  The theories, by the source they model (under src/internal/).

  Foundations. Prelude has the comparisons and sorts of packages cmp and slices, with the locales
  comparison and total_comparison that every canonical order of the program interprets. Utf8, Go_Strings,
  Go_Quote, Go_Numbers and Go_Time are what the program uses of Go's standard library, on bytes.

  eval/. Eval_Glob (glob.go), Eval_String_Set (stringset.go), Eval_Admitted (admitted.go, caveat.go) and
  Eval_Shape (shape.go). The matcher decides the textbook reading of a pattern. Eval_Lattice shows meet to
  be intersection and join union on canonical nodes, through the locale value_sets, and that the panic of
  globsOf is never reached; Eval_Laws that the operations on admitted sets never lose a token, gain one only
  under the caveat that says so, keep at most 256 terms, and that Excludes explains a rejection.

  trust/ and evidence/. Trust_Grant (grant.go, normalise.go, evidence.go), Trust_Conformance
  (conformance.go) and Trust_Terms, lemmas about the terms a parser builds. A projection only widens; a parser
  the suite passes admits what the conformant grant does.

  parse/casefold/. Casefold; the generated tables are the argument T of every function that folds.

  parse/aws/. Json_Decoder is the token stream of encoding/json, with Json_Lexical and Json_Tokens saying
  which pieces of text it reads. Aws_Json, Aws_Reader (json.go), Aws_Keys, Aws_Tenancy (tenancy.go,
  intermediary.go), Aws_Actions and Aws_Policy (policy.go), Aws_Principal (principal.go), Aws_Condition
  (condition.go), Aws_Grant (grant.go) and Aws_Edit (edit.go) are the code. The specification of the
  reader is a grammar of documents over byte offsets (Aws_Tree, Aws_Placed, Aws_Content): Aws_Document
  shows that the reader reads exactly the documents of the grammar, Aws_Reader_Bounds that it ends within
  bounds on every document, by the relation of calls that its definition makes. Aws_Condition_Laws and Aws_Grant_Laws show that a constraint is exact or Unknown with its facts,
  and that an Allow is never narrower, a Deny never wider than the statement; Aws_Questions what other
  packages may ask; Aws_Trust_Policy the parser from bytes to grants. Aws_Edit_Laws, Aws_Edit_Promises and
  Aws_Edit_Deny show that an edited policy is read back as the one before it with one piece less.

  parse/azure/. Azure_Json (json.go), Azure_Expression (expression.go) and Azure_Credential (credential.go)
  are the code, Azure_Expression_Laws and Azure_Credential_Laws what an expression and a credential mean in
  Microsoft's documentation and that the set read is never narrower, Azure_Promises the properties: the two
  JSON readers are one, a written conjunction reads back, every object of a document is one credential and one grant of its own
  bytes.

  ring/. Ring_Owner (place.go, owner.go), Ring_Declare (declare.go, facts.go) and Ring_Classify
  (classify.go). Ring_Declare_Laws: no line of a declaration is lost, and its text reads back. Ring_Laws:
  no population lies farther out than the placement says. Ring_Pins: whoever a pinned alternative admits is
  vouched for as one of the owners named, through the locale confining, interpreted by each reader of
  claims.

  registry/ and report/. Registry (registry.go) and Report_Place (the placing of answer.go, two functions
  of words.go); Registry_Laws: only a surveyed issuer vouches, and a pin rests on what the census lists.

  join/. Join_Walk and Join_Shape (witness.go) and Join_Link (link.go, fanout.go). The walk finds a
  shortest string that all patterns match; a rendering is read back as the constraint it renders.
  Join_Laws and Join_Promises: a refusal states a fact, an established link has no doubt left, a fan-out is
  every pair once, and no order shows.

  Bounds and termination. Every definition is total: a loop is structural recursion or a function with its
  measure, and nothing runs on fuel. The bounds in the definitions are the code's own: 256 terms in a set,
  256 clauses and 256 audiences of a credential, 1000 levels of JSON, 65536 states of a walk, 16 KiB, 64
  lines and 512 bytes a line of declarations; the lemmas say what the code does past each. Integers of the
  code are lengths and counts far below 2^63 and are nat or int; bytes and UTF-16 units are kept in range
  where they are computed.

  A side condition. The canonical form of an admitted set tells its terms apart by their renderings, and a
  rendering writes a claim name as it is, so that over claim names that hold an equals sign two terms may
  render alike and one of them be lost (term_rendering_collides in Eval_Laws). The laws of admitted sets,
  and what rests on them in trust, join and ring, are stated for sets built over names without one:
  built_set, or canonical_set and good_grant, which it implies.

  Parameters. The SHA-256 of an evidence record, the fold tables, the census of issuers and the claim
  vocabulary are arguments of the definitions that use them; what a property needs of one is a hypothesis
  of it, and its witness has a concrete one.

  Not modelled. parse/gcp: its conditions are a fragment of CEL, a language of its own with its own
  parser and evaluator, and its providers and bindings rest on it. parse/terraform: a walk over plan documents
  onto the AWS grants modelled here. The rest of report: records of sentences made from placed grants, and
  their printing. vendors: a lookup in an embedded list. The wire form of links, the collectors, the command
  line and the web front end: input and output. A JSON error's own text, which the standard library words, is
  an argument of the definitions that print it.
\<close>

end
